(* ===== verification/Prelude.thy ===== *)
theory Prelude
  imports Main "HOL-Library.Word"
begin

text \<open>
  Shared vocabulary of the development: the machine integers of the kernel, byte slices
  (the \<open>memcpy\<close> / \<open>memset\<close> of the sources), little-endian field codecs (the
  \<open>reinterpret_cast\<close> of on-disk structures), and singly linked chains of array
  indices, which carry the doubly linked lists of the buffer cache and of the heap.
\<close>

unbundle bit_operations_syntax

section \<open>Machine integers\<close>

type_synonym u8 = "8 word"
type_synonym u16 = "16 word"
type_synonym u32 = "32 word"
type_synonym u64 = "64 word"

type_synonym bytes = "u8 list"

named_theorems slice_simps \<open>equations between byte slices and splices\<close>
named_theorems chain_simps \<open>facts about index chains\<close>

lemma word_less_Suc_bound [simp]:
  "(i :: 'a::len word) < n \<Longrightarrow> unat (i + 1) = Suc (unat i)"
proof -
  assume "i < n"
  then have "unat i < unat n" by (simp add: word_less_nat_alt)
  moreover have "unat n < 2 ^ LENGTH('a)" by (rule unsigned_less)
  ultimately have "Suc (unat i) < 2 ^ LENGTH('a)" by linarith
  then show ?thesis by (simp add: unat_word_ariths)
qed

lemma word_less_count_measure [simp]:
  "(i :: 'a::len word) < n \<Longrightarrow> unat n - unat (i + 1) < unat n - unat i"
  by (simp add: word_less_nat_alt diff_less_mono2)

lemma word_less_top_measure: "(a :: 'a::len word) < b \<Longrightarrow> 2 ^ LENGTH('a) - unat b < 2 ^ LENGTH('a) - unat a"
  by (rule diff_less_mono2) (auto simp: word_less_nat_alt)

text \<open>Position inside a group of \<open>m\<close> that starts at an aligned \<open>a\<close>.\<close>

lemma aligned_div_mod:
  fixes a n m :: nat
  assumes "a mod m = 0" "a \<le> n" "n < a + m"
  shows "n div m = a div m" "n mod m = n - a"
proof -
  obtain q where q: "a = m * q" using assms(1) by auto
  obtain r where r: "n = m * q + r" "r < m" using assms(2,3) q le_Suc_ex by fastforce
  show "n div m = a div m" "n mod m = n - a" using r q by simp_all
qed

section \<open>Pages\<close>

definition PAGE_SIZE :: u64 where "PAGE_SIZE = 4096"

text \<open>\<open>x & ~(PAGE_SIZE - 1)\<close>, the start of the page of \<open>x\<close>.\<close>

definition align_down :: "u64 \<Rightarrow> u64" where
  "align_down x = x AND NOT (PAGE_SIZE - 1)"

lemma and_not_mask_eq: "x AND NOT (mask n) = push_bit n (drop_bit n (x :: 'a::len word))"
  by (rule bit_word_eqI) (auto simp: bit_simps)

lemma unat_align_down: "unat (align_down x) = unat x div 4096 * 4096"
proof -
  have m: "PAGE_SIZE - 1 = mask 12" by (simp add: PAGE_SIZE_def mask_eq_exp_minus_1)
  have "unat x < 2 ^ 64" using unsigned_less [of x] by simp
  moreover have "unat x div 4096 * 4096 \<le> unat x" by simp
  ultimately have lt: "unat x div 4096 * 4096 < 2 ^ 64" by linarith
  have "unat (align_down x) = take_bit 64 (push_bit 12 (unat (drop_bit 12 x)))"
    unfolding align_down_def m and_not_mask_eq by (simp add: unsigned_push_bit_eq)
  also have "unat (drop_bit 12 x) = unat x div 4096" by (simp add: drop_bit_eq_div unat_div)
  also have "take_bit 64 (push_bit 12 (unat x div 4096)) = unat x div 4096 * 4096"
    using lt by (simp add: push_bit_eq_mult take_bit_eq_mod)
  finally show ?thesis .
qed

lemma align_down_le: "align_down x \<le> x"
  by (simp add: word_le_nat_alt unat_align_down)

section \<open>Arrays updated in place\<close>

definition upd_at :: "nat \<Rightarrow> ('a \<Rightarrow> 'a) \<Rightarrow> 'a list \<Rightarrow> 'a list" where
  "upd_at i f xs = xs[i := f (xs ! i)]"

lemma length_upd_at [simp]: "length (upd_at i f xs) = length xs"
  by (simp add: upd_at_def)

lemma nth_upd_at: "j < length xs \<Longrightarrow> upd_at i f xs ! j = (if i = j then f (xs ! j) else xs ! j)"
  by (simp add: upd_at_def nth_list_update)

lemma nth_upd_at_same [simp]: "i < length xs \<Longrightarrow> upd_at i f xs ! i = f (xs ! i)"
  by (simp add: upd_at_def)

lemma nth_upd_at_other [simp]: "i \<noteq> j \<Longrightarrow> upd_at i f xs ! j = xs ! j"
  by (simp add: upd_at_def)

section \<open>Byte slices\<close>

text \<open>
  \<open>slice off n xs\<close> is what \<open>memcpy(dest, xs + off, n)\<close> copies out;
  \<open>splice off ys xs\<close> is \<open>xs\<close> after \<open>memcpy(xs + off, ys, |ys|)\<close>.
\<close>

definition slice :: "nat \<Rightarrow> nat \<Rightarrow> 'a list \<Rightarrow> 'a list" where
  "slice off n xs = take n (drop off xs)"

definition splice :: "nat \<Rightarrow> 'a list \<Rightarrow> 'a list \<Rightarrow> 'a list" where
  "splice off ys xs = take off xs @ ys @ drop (off + length ys) xs"

lemma length_slice [simp]: "off + n \<le> length xs \<Longrightarrow> length (slice off n xs) = n"
  by (simp add: slice_def)

lemma length_splice [simp]: "off + length ys \<le> length xs \<Longrightarrow> length (splice off ys xs) = length xs"
  by (simp add: splice_def)

lemma nth_slice: "i < n \<Longrightarrow> off + n \<le> length xs \<Longrightarrow> slice off n xs ! i = xs ! (off + i)"
  by (simp add: slice_def)

lemma nth_splice:
  assumes "off + length ys \<le> length xs" "i < length xs"
  shows "splice off ys xs ! i =
    (if i < off then xs ! i else if i < off + length ys then ys ! (i - off) else xs ! i)"
  using assms by (auto simp: splice_def nth_append min_def)

lemma slice_splice_same [slice_simps]:
  "off + length ys \<le> length xs \<Longrightarrow> n = length ys \<Longrightarrow> slice off n (splice off ys xs) = ys"
  by (simp add: slice_def splice_def min_def)

lemma slice_splice_disjoint [slice_simps]:
  assumes "off + length ys \<le> length xs" "o' + n \<le> length xs"
    and "o' + n \<le> off \<or> off + length ys \<le> o'"
  shows "slice o' n (splice off ys xs) = slice o' n xs"
  using assms by (intro nth_equalityI) (auto simp: nth_slice nth_splice)

lemma slice_all [slice_simps]: "n = length xs \<Longrightarrow> slice 0 n xs = xs"
  by (simp add: slice_def)

lemma splice_all [slice_simps]: "length ys = length xs \<Longrightarrow> splice 0 ys xs = ys"
  by (simp add: splice_def)

lemma slice_slice [slice_simps]:
  "a + n \<le> m \<Longrightarrow> slice a n (slice b m xs) = slice (b + a) n xs"
  by (simp add: slice_def take_drop drop_drop add.commute min_def)

lemma slice_append_split: "slice off (m + n) xs = slice off m xs @ slice (off + m) n xs"
  by (simp add: slice_def take_add drop_drop add.commute)

section \<open>Little-endian fields\<close>

text \<open>
  x86-64 is little-endian: the object representation of an unsigned integer of
  \<open>k\<close> bytes is \<open>le_bytes k w\<close>, and reading it back is \<open>le_word\<close>.
\<close>

definition le_bytes :: "nat \<Rightarrow> 'a::len word \<Rightarrow> bytes" where
  "le_bytes k w = map (\<lambda>i. ucast (drop_bit (8 * i) w)) [0..<k]"

fun le_word :: "bytes \<Rightarrow> 'a::len word" where
  "le_word [] = 0"
| "le_word (b # bs) = (ucast b OR push_bit 8 (le_word bs))"

lemma length_le_bytes [simp]: "length (le_bytes k w) = k"
  by (simp add: le_bytes_def)

lemma bit_le_word:
  "bit (le_word bs :: 'a::len word) n \<longleftrightarrow>
     n < LENGTH('a) \<and> n div 8 < length bs \<and> bit (bs ! (n div 8)) (n mod 8)"
proof (induction bs arbitrary: n)
  case Nil
  show ?case by simp
next
  case (Cons b bs)
  show ?case
  proof (cases "n < 8")
    case True
    then show ?thesis by (auto simp: bit_or_iff bit_push_bit_iff bit_ucast_iff)
  next
    case False
    then obtain m where n: "n = m + 8" by (metis add.commute le_Suc_ex not_less)
    have "\<not> bit b n" using False bit_imp_le_length by fastforce
    moreover have "(m + 8) div 8 = Suc (m div 8)" by simp
    ultimately show ?thesis using Cons.IH [of m] n
      by (auto simp: bit_or_iff bit_push_bit_iff bit_ucast_iff)
  qed
qed

lemma le_word_le_bytes:
  assumes "LENGTH('a) \<le> 8 * k"
  shows "le_word (le_bytes k (w :: 'a::len word)) = w"
proof (rule bit_word_eqI)
  fix n assume "n < LENGTH('a)"
  moreover from this assms have "n div 8 < k" by linarith
  ultimately show "bit (le_word (le_bytes k w) :: 'a word) n = bit w n"
    by (simp add: bit_le_word le_bytes_def bit_ucast_iff bit_drop_bit_eq)
qed

lemma le_bytes_le_word:
  assumes "length bs = k" "8 * k \<le> LENGTH('a)"
  shows "le_bytes k (le_word bs :: 'a::len word) = bs"
proof (rule nth_equalityI)
  show "length (le_bytes k (le_word bs :: 'a word)) = length bs" using assms by simp
next
  fix i assume "i < length (le_bytes k (le_word bs :: 'a word))"
  then have i: "i < k" by simp
  show "le_bytes k (le_word bs :: 'a word) ! i = bs ! i"
  proof (rule bit_word_eqI)
    fix n assume n: "n < LENGTH(8)"
    then have n8: "n < 8" by simp
    have "8 * i + n < LENGTH('a)" using i n8 assms by linarith
    with i n8 assms(1) show "bit (le_bytes k (le_word bs :: 'a word) ! i) n = bit (bs ! i) n"
      by (simp add: le_bytes_def bit_ucast_iff bit_drop_bit_eq bit_le_word)
  qed
qed

lemma le_word_replicate_zero [simp]: "le_word (replicate k 0) = 0"
  by (induction k) auto

section \<open>Chains of indices\<close>

text \<open>
  \<open>chain nx a xs b\<close>: following \<open>nx\<close> from \<open>a\<close> visits exactly \<open>xs\<close> and then
  arrives at \<open>b\<close>. A doubly linked list with sentinel \<open>h\<close> is a chain from \<open>h\<close> to
  \<open>h\<close> along \<open>next\<close> and, backwards, along \<open>prev\<close>.
\<close>

fun chain :: "('p \<Rightarrow> 'p) \<Rightarrow> 'p \<Rightarrow> 'p list \<Rightarrow> 'p \<Rightarrow> bool" where
  "chain nx a [] b \<longleftrightarrow> nx a = b"
| "chain nx a (x # xs) b \<longleftrightarrow> nx a = x \<and> chain nx x xs b"

lemma chain_append [chain_simps]:
  "chain nx a (xs @ y # ys) b \<longleftrightarrow> chain nx a xs y \<and> chain nx y ys b"
  by (induction xs arbitrary: a) auto

lemma chain_upd_other [chain_simps]:
  "p \<notin> set (a # xs) \<Longrightarrow> chain (nx(p := v)) a xs b = chain nx a xs b"
  by (induction xs arbitrary: a) auto

lemma chain_cong: "(\<And>x. x \<in> set (a # xs) \<Longrightarrow> nx x = nx' x) \<Longrightarrow> chain nx a xs b = chain nx' a xs b"
  by (induction xs arbitrary: a) auto

lemma chain_hd: "chain nx a xs b \<Longrightarrow> nx a = hd (xs @ [b])"
  by (cases xs) auto

text \<open>Retargeting the last link of a chain.\<close>

lemma chain_snoc_upd [chain_simps]:
  "distinct (a # xs) \<Longrightarrow> chain nx a xs b \<Longrightarrow> chain (nx(last (a # xs) := c)) a xs c"
proof (induction xs arbitrary: a)
  case Nil
  then show ?case by simp
next
  case (Cons x xs)
  then have "chain (nx(last (x # xs) := c)) x xs c" by (intro Cons.IH) simp_all
  moreover have "last (x # xs) \<noteq> a"
    using Cons.prems(1) by (metis distinct.simps(2) last_in_set list.distinct(1))
  ultimately show ?case using Cons.prems by (simp add: fun_upd_def split: if_splits)
qed

lemma chain_back:
  "chain nx a (xs @ [y]) b \<Longrightarrow> nx y = b"
  by (induction xs arbitrary: a) auto

text \<open>
  \<open>walk\<close> is the search loop over a chain: \<open>for (b = start; b != stop; b = nx(b)) if (P(b)) return b;\<close>
  with fuel. On a chain the fuel only has to exceed its length (\<open>walk_chain\<close>).
\<close>

fun walk :: "('p \<Rightarrow> 'p) \<Rightarrow> 'p \<Rightarrow> ('p \<Rightarrow> bool) \<Rightarrow> nat \<Rightarrow> 'p \<Rightarrow> 'p option" where
  "walk nx stop P 0 b = None"
| "walk nx stop P (Suc fuel) b =
     (if b = stop then None else if P b then Some b else walk nx stop P fuel (nx b))"

lemma walk_chain:
  assumes "chain nx a xs stop" "stop \<notin> set xs" "length xs < fuel"
  shows "walk nx stop P fuel (nx a) = find P xs"
  using assms
proof (induction xs arbitrary: a fuel)
  case Nil
  then show ?case by (cases fuel) auto
next
  case (Cons x xs)
  then obtain f where fuel: "fuel = Suc f" by (cases fuel) auto
  from Cons have "walk nx stop P f (nx x) = find P xs" by (auto simp: fuel)
  with Cons show ?case by (auto simp: fuel)
qed

lemma find_Some_props: "find P xs = Some x \<Longrightarrow> x \<in> set xs \<and> P x"
  by (induction xs) (auto split: if_splits)

lemma find_None_props: "find P xs = None \<longleftrightarrow> (\<forall>x \<in> set xs. \<not> P x)"
  by (induction xs) auto

lemma find_append_last: "find P (xs @ [x]) = (case find P xs of Some y \<Rightarrow> Some y | None \<Rightarrow> if P x then Some x else None)"
  by (induction xs) auto

lemma find_unique: "x \<in> set xs \<Longrightarrow> P x \<Longrightarrow> (\<And>y. y \<in> set xs \<Longrightarrow> P y \<Longrightarrow> y = x) \<Longrightarrow> find P xs = Some x"
proof (induction xs)
  case (Cons y ys)
  show ?case
  proof (cases "P y")
    case True
    with Cons.prems(3) [of y] show ?thesis by simp
  next
    case False
    with Cons.prems(1,2) have "x \<in> set ys" by auto
    moreover have "\<And>z. z \<in> set ys \<Longrightarrow> P z \<Longrightarrow> z = x" using Cons.prems(3) by simp
    ultimately have "find P ys = Some x" using Cons.IH Cons.prems(2) by blast
    with False show ?thesis by simp
  qed
qed simp

end
