(* ===== verification/Block_Store.thy ===== *)
theory Block_Store
  imports Prelude
begin

text \<open>
  The block storage interface of \<open>include/block_store.hpp\<close>: block numbers, the virtual
  interface \<open>IBlockStore\<close>, the owning handle \<open>BlockRef\<close>, and the null implementation of
  \<open>include/file_system.hpp\<close>. The contract a store promises to the file system is the
  locale \<open>store_contract\<close>; the client lemmas every file-system operation is built on
  (read a block, rewrite a block in one transaction) are proved once inside it.
\<close>

section \<open>Handles and the virtual interface\<close>

text \<open>
  A data pointer (\<open>uint8_t *\<close>) is an index into the storage behind the store, \<open>None\<close> being
  \<open>nullptr\<close>. Only one store is in use, so \<open>store_\<close> is recorded as null or not null.
\<close>

record BlockRef =
  br_number :: u32
  br_has_store :: bool
  br_data :: "nat option"

text \<open>
  An object behind \<open>IBlockStore *\<close> is its table of virtual functions. The object's state
  (and what it reaches) has type \<open>'s\<close>; \<open>st_load\<close> and \<open>st_store\<close> read and write the
  \<open>FSBLOCK_SIZE\<close> bytes a data pointer addresses.
\<close>

record 's IBlockStore =
  st_acquire :: "u32 \<Rightarrow> 's \<Rightarrow> BlockRef \<times> 's"
  st_write_back :: "u32 \<Rightarrow> 's \<Rightarrow> bool \<times> 's"
  st_release :: "u32 \<Rightarrow> 's \<Rightarrow> 's"
  st_load :: "nat \<Rightarrow> 's \<Rightarrow> bytes"
  st_store :: "nat \<Rightarrow> bytes \<Rightarrow> 's \<Rightarrow> 's"

definition BlockRef_null :: BlockRef where
  "BlockRef_null = \<lparr>br_number = 0, br_has_store = False, br_data = None\<rparr>"

definition BlockRef_not :: "BlockRef \<Rightarrow> bool" where
  "BlockRef_not r \<longleftrightarrow> br_data r = None"

definition BlockRef_write_back :: "'s IBlockStore \<Rightarrow> BlockRef \<Rightarrow> 's \<Rightarrow> bool \<times> 's" where
  "BlockRef_write_back bs r s =
     (if \<not> br_has_store r then (False, s)
      else if br_data r = None then (False, s)
      else st_write_back bs (br_number r) s)"

definition BlockRef_reset :: "'s IBlockStore \<Rightarrow> BlockRef \<Rightarrow> 's \<Rightarrow> BlockRef \<times> 's" where
  "BlockRef_reset bs r s =
     (if br_has_store r \<and> br_data r \<noteq> None
      then (r\<lparr>br_has_store := False, br_data := None\<rparr>, st_release bs (br_number r) s)
      else (r, s))"

text \<open>The destructor: \<open>reset()\<close> on an object that is gone afterwards.\<close>

definition BlockRef_destroy :: "'s IBlockStore \<Rightarrow> BlockRef \<Rightarrow> 's \<Rightarrow> 's" where
  "BlockRef_destroy bs r s = snd (BlockRef_reset bs r s)"

text \<open>Move construction: the source is left without store and data.\<close>

definition BlockRef_move :: "BlockRef \<Rightarrow> BlockRef \<times> BlockRef" where
  "BlockRef_move other = (other, other\<lparr>br_has_store := False, br_data := None\<rparr>)"

text \<open>Move assignment \<open>*this = std::move(other)\<close> of two distinct objects.\<close>

definition BlockRef_move_assign ::
    "'s IBlockStore \<Rightarrow> BlockRef \<Rightarrow> BlockRef \<Rightarrow> 's \<Rightarrow> BlockRef \<times> BlockRef \<times> 's" where
  "BlockRef_move_assign bs this other s =
     (let (_, s1) = BlockRef_reset bs this s in
      (other, other\<lparr>br_has_store := False, br_data := None\<rparr>, s1))"

definition block_data :: "'s IBlockStore \<Rightarrow> BlockRef \<Rightarrow> 's \<Rightarrow> bytes" where
  "block_data bs r s = st_load bs (the (br_data r)) s"

definition set_block_data :: "'s IBlockStore \<Rightarrow> BlockRef \<Rightarrow> bytes \<Rightarrow> 's \<Rightarrow> 's" where
  "set_block_data bs r d s = st_store bs (the (br_data r)) d s"

section \<open>The null store\<close>

definition NullBlockStore :: "'s IBlockStore" where
  "NullBlockStore =
     \<lparr>st_acquire = (\<lambda>_ s. (BlockRef_null, s)),
      st_write_back = (\<lambda>_ s. (False, s)),
      st_release = (\<lambda>_ s. s),
      st_load = (\<lambda>_ _. []),
      st_store = (\<lambda>_ _ s. s)\<rparr>"

lemma NullBlockStore_acquire [simp]: "st_acquire NullBlockStore n s = (BlockRef_null, s)"
  by (simp add: NullBlockStore_def)

lemma BlockRef_not_null [simp]: "BlockRef_not BlockRef_null"
  by (simp add: BlockRef_not_def BlockRef_null_def)

section \<open>Ownership of a handle\<close>

definition BlockRef_owns :: "BlockRef \<Rightarrow> bool" where
  "BlockRef_owns r \<longleftrightarrow> br_has_store r \<and> br_data r \<noteq> None"

lemma BlockRef_destroy_owner [simp]:
  "BlockRef_owns r \<Longrightarrow> BlockRef_destroy bs r s = st_release bs (br_number r) s"
  by (simp add: BlockRef_destroy_def BlockRef_reset_def BlockRef_owns_def)

lemma BlockRef_destroy_empty [simp]: "\<not> BlockRef_owns r \<Longrightarrow> BlockRef_destroy bs r s = s"
  by (auto simp: BlockRef_destroy_def BlockRef_reset_def BlockRef_owns_def)

lemma BlockRef_reset_not_owner [simp]: "\<not> BlockRef_owns (fst (BlockRef_reset bs r s))"
  by (auto simp: BlockRef_reset_def BlockRef_owns_def)

lemma BlockRef_reset_twice [simp]:
  "BlockRef_destroy bs (fst (BlockRef_reset bs r s)) s' = s'"
  by simp

lemma BlockRef_null_not_owner [simp]: "\<not> BlockRef_owns BlockRef_null"
  by (simp add: BlockRef_owns_def BlockRef_null_def)

section \<open>Scoped transactions\<close>

text \<open>
  The two shapes in which clients use a handle: \<open>{ auto block = acquire(n); if (!block) fail; copy out; }\<close>
  and \<open>{ auto block = acquire(n); if (!block) return false; modify; return block.write_back(); }\<close>, with
  the destructor of the handle at the closing brace.
\<close>

definition scoped_read :: "'s IBlockStore \<Rightarrow> u32 \<Rightarrow> 's \<Rightarrow> bytes option \<times> 's" where
  "scoped_read bs n s =
     (case st_acquire bs n s of
        (block, s1) \<Rightarrow>
          if BlockRef_not block then (None, BlockRef_destroy bs block s1)
          else (Some (block_data bs block s1), BlockRef_destroy bs block s1))"

definition scoped_update :: "'s IBlockStore \<Rightarrow> u32 \<Rightarrow> (bytes \<Rightarrow> bytes) \<Rightarrow> 's \<Rightarrow> bool \<times> 's" where
  "scoped_update bs n f s =
     (case st_acquire bs n s of
        (block, s1) \<Rightarrow>
          if BlockRef_not block then (False, BlockRef_destroy bs block s1)
          else
            let s2 = set_block_data bs block (f (block_data bs block s1)) s1;
                (ok, s3) = BlockRef_write_back bs block s2
            in (ok, BlockRef_destroy bs block s3))"

lemma scoped_null [simp]:
  "scoped_read NullBlockStore n s = (None, s)" "scoped_update NullBlockStore n f s = (False, s)"
  by (simp_all add: scoped_read_def scoped_update_def)

section \<open>The contract of a block store\<close>

text \<open>
  \<open>view s n\<close> is the content of block \<open>n\<close> as the clients see it, \<open>refs s n\<close> the number of
  outstanding handles, \<open>loc s n\<close> the data pointer of a held block, \<open>synced s n\<close> that the
  borrowed bytes agree with the medium, \<open>usable\<close> the block numbers of the medium and \<open>cap\<close> how
  many different blocks can be held at once.
\<close>

definition held :: "('s \<Rightarrow> u32 \<Rightarrow> nat) \<Rightarrow> 's \<Rightarrow> u32 set" where
  "held refs s = {n. 0 < refs s n}"

definition same_pins :: "('s \<Rightarrow> u32 \<Rightarrow> nat) \<Rightarrow> ('s \<Rightarrow> u32 \<Rightarrow> nat) \<Rightarrow> ('s \<Rightarrow> u32 \<Rightarrow> bool) \<Rightarrow> 's \<Rightarrow> 's \<Rightarrow> bool" where
  "same_pins refs loc synced s s' \<longleftrightarrow>
     refs s' = refs s \<and> (\<forall>m. 0 < refs s m \<longrightarrow> loc s' m = loc s m \<and> synced s' m = synced s m)"

lemma same_pins_refl [simp]: "same_pins refs loc synced s s"
  by (simp add: same_pins_def)

lemma same_pins_trans [trans]:
  "same_pins refs loc synced s t \<Longrightarrow> same_pins refs loc synced t u \<Longrightarrow> same_pins refs loc synced s u"
  by (simp add: same_pins_def)

lemma same_pins_held: "same_pins refs loc synced s t \<Longrightarrow> held refs t = held refs s"
  by (simp add: same_pins_def held_def)

text \<open>
  Between two statements of a client every held block is in step with the medium (\<open>settled\<close>);
  \<open>keeps\<close> relates the store before and after a client operation that returns every handle it took.
\<close>

definition settled :: "('s \<Rightarrow> bool) \<Rightarrow> ('s \<Rightarrow> u32 \<Rightarrow> nat) \<Rightarrow> ('s \<Rightarrow> u32 \<Rightarrow> bool) \<Rightarrow> 's \<Rightarrow> bool" where
  "settled I refs synced s \<longleftrightarrow> I s \<and> (\<forall>m. 0 < refs s m \<longrightarrow> synced s m)"

definition keeps ::
    "('s \<Rightarrow> bool) \<Rightarrow> ('s \<Rightarrow> u32 \<Rightarrow> nat) \<Rightarrow> ('s \<Rightarrow> u32 \<Rightarrow> nat) \<Rightarrow> ('s \<Rightarrow> u32 \<Rightarrow> bool) \<Rightarrow> 's \<Rightarrow> 's \<Rightarrow> bool" where
  "keeps I refs loc synced s s' \<longleftrightarrow>
     settled I refs synced s' \<and> refs s' = refs s \<and> (\<forall>m. 0 < refs s m \<longrightarrow> loc s' m = loc s m)"

lemma keeps_trans [trans]:
  "keeps I refs loc synced s t \<Longrightarrow> keeps I refs loc synced t u \<Longrightarrow> keeps I refs loc synced s u"
  by (simp add: keeps_def)

lemma keeps_refl: "settled I refs synced s \<Longrightarrow> keeps I refs loc synced s s"
  by (simp add: keeps_def)

lemma keeps_settled: "keeps I refs loc synced s s' \<Longrightarrow> settled I refs synced s'"
  by (simp add: keeps_def)

lemma keeps_held: "keeps I refs loc synced s s' \<Longrightarrow> held refs s' = held refs s"
  by (simp add: keeps_def held_def)

lemma keeps_refs: "keeps I refs loc synced s s' \<Longrightarrow> refs s' = refs s"
  by (simp add: keeps_def)

locale store_contract =
  fixes bs :: "'s IBlockStore"
    and inv :: "'s \<Rightarrow> bool"
    and view :: "'s \<Rightarrow> u32 \<Rightarrow> bytes"
    and refs :: "'s \<Rightarrow> u32 \<Rightarrow> nat"
    and loc :: "'s \<Rightarrow> u32 \<Rightarrow> nat"
    and synced :: "'s \<Rightarrow> u32 \<Rightarrow> bool"
    and usable :: "u32 \<Rightarrow> bool"
    and cap :: nat
  assumes acquire_ok:
      "inv s \<Longrightarrow> usable n \<Longrightarrow> card (held refs s) < cap \<Longrightarrow> \<not> BlockRef_not (fst (st_acquire bs n s))"
    and acquire_some:
      "inv s \<Longrightarrow> st_acquire bs n s = (r, s') \<Longrightarrow> \<not> BlockRef_not r \<Longrightarrow>
         r = \<lparr>br_number = n, br_has_store = True, br_data = Some (loc s' n)\<rparr> \<and>
         inv s' \<and> view s' = view s \<and> refs s' = (refs s)(n := Suc (refs s n)) \<and>
         (refs s n = 0 \<longrightarrow> synced s' n) \<and>
         (\<forall>m. 0 < refs s m \<longrightarrow> loc s' m = loc s m \<and> synced s' m = synced s m)"
    and acquire_none:
      "inv s \<Longrightarrow> st_acquire bs n s = (r, s') \<Longrightarrow> BlockRef_not r \<Longrightarrow>
         inv s' \<and> view s' = view s \<and> same_pins refs loc synced s s'"
    and load_held: "inv s \<Longrightarrow> 0 < refs s n \<Longrightarrow> st_load bs (loc s n) s = view s n"
    and length_view: "inv s \<Longrightarrow> length (view s n) = 512"
    and finite_held: "inv s \<Longrightarrow> finite (held refs s)"
    and store_held:
      "inv s \<Longrightarrow> 0 < refs s n \<Longrightarrow> length d = 512 \<Longrightarrow> s' = st_store bs (loc s n) d s \<Longrightarrow>
         inv s' \<and> view s' = (view s)(n := d) \<and> refs s' = refs s \<and>
         (\<forall>m. 0 < refs s m \<longrightarrow> loc s' m = loc s m) \<and>
         (\<forall>m. 0 < refs s m \<longrightarrow> m \<noteq> n \<longrightarrow> synced s' m = synced s m)"
    and write_back_held:
      "inv s \<Longrightarrow> 0 < refs s n \<Longrightarrow> st_write_back bs n s = (ok, s') \<Longrightarrow>
         ok \<and> inv s' \<and> view s' = view s \<and> refs s' = refs s \<and> synced s' n \<and>
         (\<forall>m. 0 < refs s m \<longrightarrow> loc s' m = loc s m) \<and>
         (\<forall>m. 0 < refs s m \<longrightarrow> m \<noteq> n \<longrightarrow> synced s' m = synced s m)"
    and release_held:
      "inv s \<Longrightarrow> 0 < refs s n \<Longrightarrow> (refs s n = 1 \<longrightarrow> synced s n) \<Longrightarrow> s' = st_release bs n s \<Longrightarrow>
         inv s' \<and> view s' = view s \<and> refs s' = (refs s)(n := refs s n - 1) \<and>
         (\<forall>m. 0 < refs s' m \<longrightarrow> loc s' m = loc s m \<and> synced s' m = synced s m)"
begin

text \<open>
  The read transaction \<open>{ auto block = acquire(n); ... block.data() ... }\<close>: it gives the
  current content and leaves the store as it was seen before.
\<close>

lemma read_transaction:
  assumes "inv s" "st_acquire bs n s = (r, s1)" "\<not> BlockRef_not r" "s2 = BlockRef_destroy bs r s1"
    and "refs s n = 0 \<or> synced s n"
  shows "block_data bs r s1 = view s n" and "inv s2" and "view s2 = view s"
    and "same_pins refs loc synced s s2"
proof -
  note a = acquire_some [OF assms(1-3)]
  then have s1: "inv s1" "view s1 = view s" "refs s1 = (refs s)(n := Suc (refs s n))"
    and r: "r = \<lparr>br_number = n, br_has_store = True, br_data = Some (loc s1 n)\<rparr>" by auto
  from s1 have pos: "0 < refs s1 n" by simp
  show "block_data bs r s1 = view s n"
    using load_held [OF s1(1) pos] s1(2) r by (simp add: block_data_def)
  have s2: "s2 = st_release bs n s1" using assms(4) r by (simp add: BlockRef_owns_def)
  have syn: "refs s1 n = 1 \<longrightarrow> synced s1 n" using a assms(5) by auto
  note rel = release_held [OF s1(1) pos syn s2]
  then show "inv s2" and "view s2 = view s" using s1 by auto
  show "same_pins refs loc synced s s2"
    using rel a s1 by (auto simp: same_pins_def)
qed

text \<open>
  The update transaction \<open>{ auto block = acquire(n); modify data; block.write_back(); }\<close>.
\<close>

lemma update_transaction:
  assumes "inv s" "st_acquire bs n s = (r, s1)" "\<not> BlockRef_not r" "length d = 512"
    and "BlockRef_write_back bs r (set_block_data bs r d s1) = (ok, s3)"
    and "s4 = BlockRef_destroy bs r s3"
  shows "ok" and "inv s4" and "view s4 = (view s)(n := d)"
    and "0 < refs s n \<longrightarrow> synced s n \<Longrightarrow> same_pins refs loc synced s s4"
    and "refs s4 = refs s" and "\<forall>m. 0 < refs s m \<longrightarrow> loc s4 m = loc s m"
    and "\<forall>m. 0 < refs s m \<longrightarrow> synced s m \<longrightarrow> synced s4 m"
proof -
  note a = acquire_some [OF assms(1-3)]
  then have s1: "inv s1" "view s1 = view s" "refs s1 = (refs s)(n := Suc (refs s n))"
    and r: "r = \<lparr>br_number = n, br_has_store = True, br_data = Some (loc s1 n)\<rparr>" by auto
  from s1 have pos1: "0 < refs s1 n" by simp
  define s2 where "s2 = st_store bs (loc s1 n) d s1"
  note st = store_held [OF s1(1) pos1 assms(4) s2_def]
  then have pos2: "inv s2" "0 < refs s2 n" using pos1 by auto
  have wb: "st_write_back bs n s2 = (ok, s3)"
    using assms(5) r by (simp add: BlockRef_write_back_def set_block_data_def s2_def)
  note w = write_back_held [OF pos2 wb]
  then have pos3: "inv s3" "0 < refs s3 n" using pos2 by auto
  have s4: "s4 = st_release bs n s3" using assms(6) r by (simp add: BlockRef_owns_def)
  have syn: "refs s3 n = 1 \<longrightarrow> synced s3 n" using w by simp
  note rel = release_held [OF pos3 syn s4]
  show "ok" "inv s4" "view s4 = (view s)(n := d)" using w rel st s1 by auto
  show refs4: "refs s4 = refs s" using rel w st s1 by auto
  have chain: "\<forall>m. 0 < refs s m \<longrightarrow> loc s4 m = loc s m"
  proof (intro allI impI)
    fix m assume m: "0 < refs s m"
    then have "0 < refs s1 m" "0 < refs s4 m" using s1 refs4 by auto
    then show "loc s4 m = loc s m" using rel w st a m by simp
  qed
  then show "\<forall>m. 0 < refs s m \<longrightarrow> loc s4 m = loc s m" .
  have syn_other: "synced s4 m = synced s m" if "0 < refs s m" "m \<noteq> n" for m
  proof -
    have "0 < refs s1 m" "0 < refs s4 m" using s1 refs4 that by auto
    then show ?thesis using rel w st a that by simp
  qed
  have syn_n: "0 < refs s n \<Longrightarrow> synced s4 n" using rel refs4 w by simp
  show "\<forall>m. 0 < refs s m \<longrightarrow> synced s m \<longrightarrow> synced s4 m" using syn_other syn_n by metis
  show "0 < refs s n \<longrightarrow> synced s n \<Longrightarrow> same_pins refs loc synced s s4"
    using refs4 chain syn_other syn_n unfolding same_pins_def by metis
qed

abbreviation ok where "ok \<equiv> settled inv refs synced"
abbreviation kp where "kp \<equiv> keeps inv refs loc synced"

lemma settled_length [simp]: "ok s \<Longrightarrow> length (view s n) = 512"
  by (simp add: settled_def length_view)

lemma acquire_fail:
  assumes "ok s" "st_acquire bs n s = (r, s1)" "BlockRef_not r"
  shows "kp s (BlockRef_destroy bs r s1)" and "view (BlockRef_destroy bs r s1) = view s"
proof -
  have inv: "inv s" using assms(1) by (simp add: settled_def)
  have d: "BlockRef_destroy bs r s1 = s1"
    using assms(3) by (simp add: BlockRef_owns_def BlockRef_not_def)
  note a = acquire_none [OF inv assms(2,3)]
  then show "view (BlockRef_destroy bs r s1) = view s" using d by simp
  show "kp s (BlockRef_destroy bs r s1)"
    using a assms(1) d by (simp add: keeps_def settled_def same_pins_def)
qed

lemma scoped_read_effect:
  assumes "ok s" "scoped_read bs n s = (r, s')"
  shows "kp s s'" and "view s' = view s" and "r = Some d \<Longrightarrow> d = view s n"
    and "usable n \<Longrightarrow> card (held refs s) < cap \<Longrightarrow> r = Some (view s n)"
proof -
  have inv: "inv s" using assms(1) by (simp add: settled_def)
  obtain b s1 where a: "st_acquire bs n s = (b, s1)" by (cases "st_acquire bs n s")
  have res: "kp s s' \<and> view s' = view s \<and> (r = (if BlockRef_not b then None else Some (view s n)))"
  proof (cases "BlockRef_not b")
    case True
    then show ?thesis using acquire_fail [OF assms(1) a] assms(2) a by (simp add: scoped_read_def)
  next
    case False
    have s2: "s' = BlockRef_destroy bs b s1" and r: "r = Some (block_data bs b s1)"
      using assms(2) a False by (simp_all add: scoped_read_def)
    have "refs s n = 0 \<or> synced s n" using assms(1) by (auto simp: settled_def)
    note t = read_transaction [OF inv a False s2 this]
    have "kp s s'" using t assms(1) by (simp add: keeps_def settled_def same_pins_def)
    then show ?thesis using t r False by simp
  qed
  then show "kp s s'" and "view s' = view s" and "r = Some d \<Longrightarrow> d = view s n"
    by (auto split: if_splits)
  show "usable n \<Longrightarrow> card (held refs s) < cap \<Longrightarrow> r = Some (view s n)"
    using acquire_ok [OF inv, of n] a res by auto
qed

lemma scoped_update_effect:
  assumes "ok s" "scoped_update bs n f s = (r, s')" "length (f (view s n)) = 512"
  shows "kp s s'" and "view s' = (if r then (view s)(n := f (view s n)) else view s)"
    and "usable n \<Longrightarrow> card (held refs s) < cap \<Longrightarrow> r"
proof -
  have inv: "inv s" using assms(1) by (simp add: settled_def)
  obtain b s1 where a: "st_acquire bs n s = (b, s1)" by (cases "st_acquire bs n s")
  have res: "kp s s' \<and> view s' = (if r then (view s)(n := f (view s n)) else view s) \<and>
    (r \<longleftrightarrow> \<not> BlockRef_not b)"
  proof (cases "BlockRef_not b")
    case True
    then show ?thesis using acquire_fail [OF assms(1) a] assms(2) a by (simp add: scoped_update_def)
  next
    case False
    note q = acquire_some [OF inv a False]
    have bd: "block_data bs b s1 = view s n"
      using q load_held [of s1 n] by (simp add: block_data_def)
    obtain ok' s3 where w: "BlockRef_write_back bs b (set_block_data bs b (f (view s n)) s1) = (ok', s3)"
      by (cases "BlockRef_write_back bs b (set_block_data bs b (f (view s n)) s1)")
    then have r: "r = ok'" and s': "s' = BlockRef_destroy bs b s3"
      using assms(2) a False bd by (simp_all add: scoped_update_def)
    note t = update_transaction [OF inv a False assms(3) w s']
    have "kp s s'" using t(2,5-7) assms(1) by (simp add: keeps_def settled_def)
    then show ?thesis using t(1,3) r False by simp
  qed
  then show "kp s s'" and "view s' = (if r then (view s)(n := f (view s n)) else view s)" by auto
  show "usable n \<Longrightarrow> card (held refs s) < cap \<Longrightarrow> r"
    using acquire_ok [OF inv, of n] a res by auto
qed

end

end
