(* ===== verification/Buffer_Cache.thy ===== *)
theory Buffer_Cache
  imports Block_Store
begin

text \<open>
  The buffer cache (\<open>include/buffer_cache.hpp\<close>, \<open>include/buffer_cache.cpp\<close>): thirty 512-byte
  buffers on a doubly linked LRU list with a sentinel, over a block device given by two function
  pointers. The model keeps the pointer structure; the lemmas show that the list is always a
  permutation of the buffers, that the cache is transparent (clients see one flat array of blocks
  whatever is cached, evicted or written back) and that \<open>BlockStore\<close> meets \<open>store_contract\<close>.
\<close>

section \<open>Data\<close>

definition BLOCK_SIZE :: nat where "BLOCK_SIZE = 512"
definition NBUF :: nat where "NBUF = 30"

text \<open>
  \<open>Buffer *\<close> is an index: \<open>0 .. NBUF - 1\<close> into \<open>buffers\<close>, \<open>HEAD\<close> for \<open>&head\<close> and \<open>NULLB\<close> for the
  null links of a buffer that was never initialised. A possibly null pointer result is an option.
\<close>

definition HEAD :: nat where "HEAD = NBUF"
definition NULLB :: nat where "NULLB = Suc NBUF"

record Buffer =
  b_block :: u32
  b_valid :: bool
  b_dirty :: bool
  b_refcnt :: int
  b_prev :: nat
  b_next :: nat
  b_data :: bytes

text \<open>
  The block device: \<open>read_block(n, buffer)\<close> and \<open>write_block(n, buffer)\<close> as function pointers that
  may be null. \<open>'d\<close> is the state of the device; a read returns its success flag, the bytes left
  in the caller's buffer and the new device state.
\<close>

record 'd BlockDevice =
  dv_read_block :: "(u64 \<Rightarrow> bytes \<Rightarrow> 'd \<Rightarrow> bool \<times> bytes \<times> 'd) option"
  dv_write_block :: "(u64 \<Rightarrow> bytes \<Rightarrow> 'd \<Rightarrow> bool \<times> 'd) option"

record Statistics =
  hits :: u32
  misses :: u32
  evictions :: u32
  writebacks :: u32

record 'd cache =
  nodes :: "Buffer list"
  device :: "'d BlockDevice"
  hw :: 'd
  initialized :: bool
  stats :: Statistics

definition no_stats :: Statistics where
  "no_stats = \<lparr>hits = 0, misses = 0, evictions = 0, writebacks = 0\<rparr>"

text \<open>The statically initialised state: an empty list, no device.\<close>

definition static_cache :: "'d \<Rightarrow> 'd cache" where
  "static_cache d =
     \<lparr>nodes = replicate NBUF \<lparr>b_block = 0, b_valid = False, b_dirty = False, b_refcnt = 0,
                b_prev = NULLB, b_next = NULLB, b_data = replicate BLOCK_SIZE 0\<rparr> @
              [\<lparr>b_block = 0, b_valid = False, b_dirty = False, b_refcnt = 0,
                b_prev = HEAD, b_next = HEAD, b_data = replicate BLOCK_SIZE 0\<rparr>],
      device = \<lparr>dv_read_block = None, dv_write_block = None\<rparr>, hw = d,
      initialized = False, stats = no_stats\<rparr>"

definition buf :: "'d cache \<Rightarrow> nat \<Rightarrow> Buffer" where
  "buf c b = nodes c ! b"

definition upd_buf :: "nat \<Rightarrow> (Buffer \<Rightarrow> Buffer) \<Rightarrow> 'd cache \<Rightarrow> 'd cache" where
  "upd_buf b f c = c\<lparr>nodes := upd_at b f (nodes c)\<rparr>"

definition upd_stats :: "(Statistics \<Rightarrow> Statistics) \<Rightarrow> 'd cache \<Rightarrow> 'd cache" where
  "upd_stats f c = c\<lparr>stats := f (stats c)\<rparr>"

text \<open>A call through a null function pointer has no meaning; no initialised cache makes one.\<close>

definition dev_read :: "'d BlockDevice \<Rightarrow> u64 \<Rightarrow> bytes \<Rightarrow> 'd \<Rightarrow> bool \<times> bytes \<times> 'd" where
  "dev_read dv = (case dv_read_block dv of Some f \<Rightarrow> f | None \<Rightarrow> (\<lambda>_ b d. (False, b, d)))"

definition dev_write :: "'d BlockDevice \<Rightarrow> u64 \<Rightarrow> bytes \<Rightarrow> 'd \<Rightarrow> bool \<times> 'd" where
  "dev_write dv = (case dv_write_block dv of Some f \<Rightarrow> f | None \<Rightarrow> (\<lambda>_ _ d. (False, d)))"

section \<open>Operations\<close>

definition unlink :: "nat \<Rightarrow> 'd cache \<Rightarrow> 'd cache" where
  "unlink b c =
     (let c1 = upd_buf (b_prev (buf c b)) (\<lambda>x. x\<lparr>b_next := b_next (buf c b)\<rparr>) c
      in upd_buf (b_next (buf c1 b)) (\<lambda>x. x\<lparr>b_prev := b_prev (buf c1 b)\<rparr>) c1)"

definition link_as_most_recent :: "nat \<Rightarrow> 'd cache \<Rightarrow> 'd cache" where
  "link_as_most_recent b c =
     (let c1 = upd_buf b (\<lambda>x. x\<lparr>b_next := b_next (buf c HEAD)\<rparr>) c;
          c2 = upd_buf b (\<lambda>x. x\<lparr>b_prev := HEAD\<rparr>) c1;
          c3 = upd_buf (b_next (buf c2 HEAD)) (\<lambda>x. x\<lparr>b_prev := b\<rparr>) c2
      in upd_buf HEAD (\<lambda>x. x\<lparr>b_next := b\<rparr>) c3)"

definition write_back :: "nat \<Rightarrow> 'd cache \<Rightarrow> bool \<times> 'd cache" where
  "write_back b c =
     (case dev_write (device c) (ucast (b_block (buf c b))) (b_data (buf c b)) (hw c) of
        (ok, d) \<Rightarrow>
          if \<not> ok then (False, c\<lparr>hw := d\<rparr>)
          else (True, upd_stats (\<lambda>t. t\<lparr>writebacks := writebacks t + 1\<rparr>)
                        (upd_buf b (\<lambda>x. x\<lparr>b_dirty := False\<rparr>) (c\<lparr>hw := d\<rparr>))))"

text \<open>
  The two list scans. The fuel \<open>NBUF + 1\<close> covers every list of distinct buffers
  (\<open>lookup_slot\<close>, \<open>scan_lru\<close> below).
\<close>

definition lookup :: "u32 \<Rightarrow> 'd cache \<Rightarrow> nat option" where
  "lookup n c =
     walk (\<lambda>b. b_next (buf c b)) HEAD (\<lambda>b. b_valid (buf c b) \<and> b_block (buf c b) = n)
       (Suc NBUF) (b_next (buf c HEAD))"

definition find_unused :: "'d cache \<Rightarrow> nat option" where
  "find_unused c =
     walk (\<lambda>b. b_prev (buf c b)) HEAD (\<lambda>b. \<not> b_refcnt (buf c b) \<noteq> 0)
       (Suc NBUF) (b_prev (buf c HEAD))"

definition recycle :: "nat \<Rightarrow> u32 \<Rightarrow> 'd cache \<Rightarrow> nat option \<times> 'd cache" where
  "recycle b n c =
     (let c1 = (if b_valid (buf c b) then upd_stats (\<lambda>t. t\<lparr>evictions := evictions t + 1\<rparr>) c else c)
      in (Some b, upd_buf b (\<lambda>x. x\<lparr>b_block := n, b_valid := False, b_dirty := False, b_refcnt := 1\<rparr>) c1))"

definition find_cached :: "u32 \<Rightarrow> 'd cache \<Rightarrow> nat option \<times> 'd cache" where
  "find_cached n c =
     (case lookup n c of
        Some b \<Rightarrow> (Some b, upd_buf b (\<lambda>x. x\<lparr>b_refcnt := b_refcnt x + 1\<rparr>) c)
      | None \<Rightarrow>
          (case find_unused c of
             None \<Rightarrow> (None, c)
           | Some b \<Rightarrow>
               if b_dirty (buf c b)
               then (case write_back b c of
                       (False, c1) \<Rightarrow> (None, c1)
                     | (True, c1) \<Rightarrow> recycle b n c1)
               else recycle b n c))"

definition init_buffer :: "nat \<Rightarrow> 'd cache \<Rightarrow> 'd cache" where
  "init_buffer b c =
     link_as_most_recent b
       (upd_buf b (\<lambda>x. x\<lparr>b_block := 0, b_valid := False, b_dirty := False, b_refcnt := 0\<rparr>) c)"

definition cache_initialize :: "'d BlockDevice \<Rightarrow> 'd cache \<Rightarrow> bool \<times> 'd cache" where
  "cache_initialize block_device c =
     (if initialized c then (False, c)
      else if dv_read_block block_device = None \<or> dv_write_block block_device = None then (False, c)
      else
        let c1 = c\<lparr>device := block_device\<rparr>;
            c2 = upd_buf HEAD (\<lambda>x. x\<lparr>b_prev := HEAD\<rparr>) (upd_buf HEAD (\<lambda>x. x\<lparr>b_next := HEAD\<rparr>) c1);
            c3 = fold init_buffer [0..<NBUF] c2
        in (True, c3\<lparr>stats := no_stats, initialized := True\<rparr>))"

definition release_buffer :: "nat option \<Rightarrow> 'd cache \<Rightarrow> 'd cache" where
  "release_buffer p c =
     (case p of
        None \<Rightarrow> c
      | Some b \<Rightarrow>
          if b_refcnt (buf c b) \<le> 0 then c
          else
            let c1 = upd_buf b (\<lambda>x. x\<lparr>b_refcnt := b_refcnt x - 1\<rparr>) c
            in if b_refcnt (buf c1 b) > 0 then c1
               else link_as_most_recent b (unlink b c1))"

definition cache_read :: "u32 \<Rightarrow> 'd cache \<Rightarrow> nat option \<times> 'd cache" where
  "cache_read n c =
     (case find_cached n c of
        (None, c1) \<Rightarrow> (None, c1)
      | (Some b, c1) \<Rightarrow>
          if b_valid (buf c1 b)
          then (Some b, upd_stats (\<lambda>t. t\<lparr>hits := hits t + 1\<rparr>) c1)
          else
            let c2 = upd_stats (\<lambda>t. t\<lparr>misses := misses t + 1\<rparr>) c1
            in (case dev_read (device c2) (ucast n) (b_data (buf c2 b)) (hw c2) of
                  (ok, bytes, d) \<Rightarrow>
                    let c3 = upd_buf b (\<lambda>x. x\<lparr>b_data := bytes\<rparr>) (c2\<lparr>hw := d\<rparr>)
                    in if \<not> ok then (None, release_buffer (Some b) c3)
                       else (Some b, upd_buf b (\<lambda>x. x\<lparr>b_valid := True\<rparr>) c3)))"

definition mark_dirty :: "nat option \<Rightarrow> 'd cache \<Rightarrow> 'd cache" where
  "mark_dirty p c = (case p of None \<Rightarrow> c | Some b \<Rightarrow> upd_buf b (\<lambda>x. x\<lparr>b_dirty := True\<rparr>) c)"

definition cache_write :: "nat option \<Rightarrow> 'd cache \<Rightarrow> bool \<times> 'd cache" where
  "cache_write p c =
     (case p of
        None \<Rightarrow> (False, c)
      | Some b \<Rightarrow> if \<not> b_valid (buf c b) then (False, c) else write_back b c)"

fun flush_from :: "nat list \<Rightarrow> bool \<Rightarrow> 'd cache \<Rightarrow> bool \<times> 'd cache" where
  "flush_from [] all_succeeded c = (all_succeeded, c)"
| "flush_from (b # bs) all_succeeded c =
     (if b_valid (buf c b) \<and> b_dirty (buf c b)
      then (case write_back b c of
              (ok, c1) \<Rightarrow> flush_from bs (if \<not> ok then False else all_succeeded) c1)
      else flush_from bs all_succeeded c)"

definition flush :: "'d cache \<Rightarrow> bool \<times> 'd cache" where
  "flush c = flush_from [0..<NBUF] True c"

definition BlockStore_acquire :: "u32 \<Rightarrow> 'd cache \<Rightarrow> BlockRef \<times> 'd cache" where
  "BlockStore_acquire n c =
     (case cache_read n c of
        (p, c1) \<Rightarrow> (\<lparr>br_number = n, br_has_store = True, br_data = p\<rparr>, c1))"

definition BlockStore_write_back :: "u32 \<Rightarrow> 'd cache \<Rightarrow> bool \<times> 'd cache" where
  "BlockStore_write_back n c = cache_write (lookup n c) c"

definition BlockStore_release :: "u32 \<Rightarrow> 'd cache \<Rightarrow> 'd cache" where
  "BlockStore_release n c = release_buffer (lookup n c) c"

definition BlockStore :: "'d cache IBlockStore" where
  "BlockStore =
     \<lparr>st_acquire = BlockStore_acquire, st_write_back = BlockStore_write_back,
      st_release = BlockStore_release,
      st_load = (\<lambda>p c. b_data (buf c p)),
      st_store = (\<lambda>p bytes c. upd_buf p (\<lambda>x. x\<lparr>b_data := bytes\<rparr>) c)\<rparr>"

section \<open>Field updates\<close>

named_theorems cache_simps \<open>projections of cache updates\<close>

lemma nodes_upd_buf [cache_simps]: "length (nodes (upd_buf b f c)) = length (nodes c)"
  by (simp add: upd_buf_def)

lemma buf_upd_buf [cache_simps]:
  "b < length (nodes c) \<Longrightarrow> buf (upd_buf b f c) j = (if j = b then f (buf c j) else buf c j)"
  by (auto simp: buf_def upd_buf_def)

lemma upd_buf_fields [cache_simps]:
  "device (upd_buf b f c) = device c" "hw (upd_buf b f c) = hw c"
  "initialized (upd_buf b f c) = initialized c" "stats (upd_buf b f c) = stats c"
  by (simp_all add: upd_buf_def)

lemma upd_stats_fields [cache_simps]:
  "nodes (upd_stats g c) = nodes c" "buf (upd_stats g c) = buf c"
  "device (upd_stats g c) = device c" "hw (upd_stats g c) = hw c"
  "initialized (upd_stats g c) = initialized c"
  by (simp_all add: upd_stats_def buf_def fun_eq_iff)

lemma hw_update_fields [cache_simps]:
  "buf (c\<lparr>hw := d\<rparr>) = buf c" "buf (c\<lparr>device := dv\<rparr>) = buf c"
  "buf (c\<lparr>stats := st, initialized := i\<rparr>) = buf c"
  by (simp_all add: buf_def fun_eq_iff)

text \<open>The part of a buffer the list operations do not touch.\<close>

definition payload :: "Buffer \<Rightarrow> u32 \<times> bool \<times> bool \<times> int \<times> bytes" where
  "payload x = (b_block x, b_valid x, b_dirty x, b_refcnt x, b_data x)"

definition relinked :: "'d cache \<Rightarrow> 'd cache \<Rightarrow> bool" where
  "relinked c c' \<longleftrightarrow>
     length (nodes c') = length (nodes c) \<and> (\<forall>b. payload (buf c' b) = payload (buf c b)) \<and>
     device c' = device c \<and> hw c' = hw c \<and> initialized c' = initialized c \<and> stats c' = stats c"

lemma relinked_upd_next:
  "b < length (nodes c) \<Longrightarrow> relinked c (upd_buf b (\<lambda>x. x\<lparr>b_next := v\<rparr>) c)"
  by (simp add: relinked_def cache_simps payload_def)

lemma relinked_upd_prev:
  "b < length (nodes c) \<Longrightarrow> relinked c (upd_buf b (\<lambda>x. x\<lparr>b_prev := v\<rparr>) c)"
  by (simp add: relinked_def cache_simps payload_def)

lemma relinked_trans: "relinked c d \<Longrightarrow> relinked d e \<Longrightarrow> relinked c e"
  by (simp add: relinked_def)

lemma relinkedD:
  assumes "relinked c c'"
  shows "b_block (buf c' b) = b_block (buf c b)" "b_valid (buf c' b) = b_valid (buf c b)"
    "b_dirty (buf c' b) = b_dirty (buf c b)" "b_refcnt (buf c' b) = b_refcnt (buf c b)"
    "b_data (buf c' b) = b_data (buf c b)" "length (nodes c') = length (nodes c)"
    "device c' = device c" "hw c' = hw c" "initialized c' = initialized c" "stats c' = stats c"
  using assms by (auto simp: relinked_def payload_def dest: spec [of _ b])

section \<open>The LRU list\<close>

abbreviation nxt :: "'d cache \<Rightarrow> nat \<Rightarrow> nat" where
  "nxt c \<equiv> \<lambda>b. b_next (buf c b)"

abbreviation prv :: "'d cache \<Rightarrow> nat \<Rightarrow> nat" where
  "prv c \<equiv> \<lambda>b. b_prev (buf c b)"

definition dll :: "'d cache \<Rightarrow> nat list \<Rightarrow> bool" where
  "dll c xs \<longleftrightarrow>
     length (nodes c) = Suc NBUF \<and> distinct xs \<and> set xs \<subseteq> {..<NBUF} \<and>
     chain (nxt c) HEAD xs HEAD \<and> chain (prv c) HEAD (rev xs) HEAD"

lemma HEAD_less [simp]: "HEAD < Suc NBUF"
  by (simp add: HEAD_def)

lemma HEAD_index [simp]: "length (nodes c) = Suc NBUF \<Longrightarrow> HEAD < length (nodes c)"
  by (simp add: HEAD_def)

lemma dll_distinct: "dll c xs \<Longrightarrow> distinct (HEAD # xs)"
  by (auto simp: dll_def HEAD_def)

lemma dll_length: "dll c xs \<Longrightarrow> length xs < Suc NBUF"
proof -
  assume "dll c xs"
  then have "card (set xs) \<le> card {..<NBUF}" "distinct xs"
    using card_mono [of "{..<NBUF}" "set xs"] by (auto simp: dll_def)
  then show ?thesis by (simp add: distinct_card)
qed

lemma nxt_upd_next [cache_simps]:
  "b < length (nodes c) \<Longrightarrow> nxt (upd_buf b (\<lambda>x. x\<lparr>b_next := v\<rparr>) c) = (nxt c)(b := v)"
  by (auto simp: cache_simps fun_eq_iff)

lemma prv_upd_prev [cache_simps]:
  "b < length (nodes c) \<Longrightarrow> prv (upd_buf b (\<lambda>x. x\<lparr>b_prev := v\<rparr>) c) = (prv c)(b := v)"
  by (auto simp: cache_simps fun_eq_iff)

lemma nxt_upd_prev [cache_simps]:
  "b < length (nodes c) \<Longrightarrow> nxt (upd_buf b (\<lambda>x. x\<lparr>b_prev := v\<rparr>) c) = nxt c"
  by (auto simp: cache_simps fun_eq_iff)

lemma prv_upd_next [cache_simps]:
  "b < length (nodes c) \<Longrightarrow> prv (upd_buf b (\<lambda>x. x\<lparr>b_next := v\<rparr>) c) = prv c"
  by (auto simp: cache_simps fun_eq_iff)

text \<open>Removing an element from a cyclic chain: its predecessor takes over its successor.\<close>

lemma chain_unlink:
  assumes "chain nx h (as @ x # bs) h" "distinct (h # as @ x # bs)"
  shows "chain (nx(last (h # as) := nx x)) h (as @ bs) h"
proof -
  from assms(1) have a: "chain nx h as x" and b: "chain nx x bs h" by (auto simp: chain_simps)
  have d: "distinct (h # as)" using assms(2) by auto
  have step: "chain (nx(last (h # as) := nx x)) h as (nx x)" using chain_snoc_upd [OF d a] .
  show ?thesis
  proof (cases bs)
    case Nil
    with b step show ?thesis by simp
  next
    case (Cons y ys)
    have "last (h # as) \<in> set (h # as)" using last_in_set by blast
    with assms(2) Cons have "last (h # as) \<notin> set (y # ys)" by auto
    with b Cons have "chain (nx(last (h # as) := nx x)) y ys h"
      by (simp add: chain_upd_other)
    with step b Cons show ?thesis by (simp add: chain_append)
  qed
qed

lemma chain_pred:
  assumes "chain pv h (rev (as @ x # bs)) h"
  shows "pv x = last (h # as)"
proof -
  from assms have "chain pv x (rev as) h" by (simp add: chain_append)
  then have "pv x = hd (rev as @ [h])" by (rule chain_hd)
  also have "\<dots> = last (h # as)" by (cases as rule: rev_cases) auto
  finally show ?thesis .
qed

lemma chain_succ: "chain nx h (as @ x # bs) h \<Longrightarrow> nx x = last (h # rev bs)"
  using chain_pred [of nx h "rev bs" x "rev as"] by simp

lemma dll_unlink:
  assumes "dll c (as @ x # bs)"
  shows "dll (unlink x c) (as @ bs)" and "relinked c (unlink x c)"
proof -
  define p n where "p = prv c x" and "n = nxt c x"
  from assms have len: "length (nodes c) = Suc NBUF" and dist: "distinct (HEAD # as @ x # bs)"
    and nx: "chain (nxt c) HEAD (as @ x # bs) HEAD"
    and pv: "chain (prv c) HEAD (rev (as @ x # bs)) HEAD" and sub: "set (as @ x # bs) \<subseteq> {..<NBUF}"
    using dll_distinct [OF assms] by (auto simp: dll_def)
  have p: "p = last (HEAD # as)" using chain_pred [OF pv] by (simp add: p_def)
  have n: "n = last (HEAD # rev bs)" using chain_succ [OF nx] by (simp add: n_def)
  have mem: "p \<in> set (HEAD # as)" "n \<in> set (HEAD # bs)"
    unfolding p n using last_in_set [of "HEAD # as"] last_in_set [of "HEAD # rev bs"] by auto
  then have bnd: "p < length (nodes c)" "n < length (nodes c)" and px: "p \<noteq> x"
    using sub len dist by (auto simp: HEAD_def)
  let ?c1 = "upd_buf p (\<lambda>y. y\<lparr>b_next := n\<rparr>) c"
  have b1: "b_next (buf ?c1 x) = n" "b_prev (buf ?c1 x) = p"
    using px bnd by (auto simp: cache_simps p_def n_def)
  have u: "unlink x c = upd_buf n (\<lambda>y. y\<lparr>b_prev := p\<rparr>) ?c1"
    using b1 by (simp add: unlink_def p_def n_def)
  have bnd1: "n < length (nodes ?c1)" using bnd by (simp add: cache_simps)
  have nxt': "nxt (unlink x c) = (nxt c)(last (HEAD # as) := nxt c x)"
    unfolding u nxt_upd_prev [OF bnd1] nxt_upd_next [OF bnd(1)] using p n_def by simp
  have prv': "prv (unlink x c) = (prv c)(last (HEAD # rev bs) := prv c x)"
    unfolding u prv_upd_prev [OF bnd1] prv_upd_next [OF bnd(1)] using n p_def by simp
  have "chain (nxt (unlink x c)) HEAD (as @ bs) HEAD"
    unfolding nxt' by (rule chain_unlink [OF nx dist])
  moreover have "chain (prv (unlink x c)) HEAD (rev (as @ bs)) HEAD"
  proof -
    have "chain (prv c) HEAD (rev bs @ x # rev as) HEAD" using pv by simp
    moreover have "distinct (HEAD # rev bs @ x # rev as)" using dist by auto
    ultimately show ?thesis unfolding prv' by (subst rev_append) (rule chain_unlink)
  qed
  moreover show "relinked c (unlink x c)"
    unfolding u using bnd bnd1 relinked_upd_next relinked_upd_prev relinked_trans by blast
  ultimately show "dll (unlink x c) (as @ bs)"
    using assms by (auto simp: dll_def relinkedD(6))
qed

lemma dll_link:
  assumes "dll c xs" "b < NBUF" "b \<notin> set xs"
  shows "dll (link_as_most_recent b c) (b # xs)" and "relinked c (link_as_most_recent b c)"
proof -
  from assms have len: "length (nodes c) = Suc NBUF" and dist: "distinct (HEAD # b # xs)"
    and nx: "chain (nxt c) HEAD xs HEAD" and pv: "chain (prv c) HEAD (rev xs) HEAD"
    and sub: "set xs \<subseteq> {..<NBUF}"
    using dll_distinct [OF assms(1)] by (auto simp: dll_def HEAD_def)
  define n where "n = nxt c HEAD"
  have n: "n = last (HEAD # rev xs)" using chain_hd [OF nx] by (cases xs) (auto simp: n_def)
  then have "n \<in> set (HEAD # xs)" using last_in_set [of "HEAD # rev xs"] by auto
  then have bnd: "n < length (nodes c)" "b < length (nodes c)" "HEAD < length (nodes c)" "b \<noteq> HEAD"
    using sub len assms(2) by (auto simp: HEAD_def)
  let ?c1 = "upd_buf b (\<lambda>x. x\<lparr>b_next := n\<rparr>) c"
  let ?c2 = "upd_buf b (\<lambda>x. x\<lparr>b_prev := HEAD\<rparr>) ?c1"
  let ?c3 = "upd_buf n (\<lambda>x. x\<lparr>b_prev := b\<rparr>) ?c2"
  have l: "b < length (nodes ?c1)" "n < length (nodes ?c2)" "HEAD < length (nodes ?c3)"
    using bnd by (simp_all add: cache_simps)
  have "b_next (buf ?c2 HEAD) = n" using bnd l by (auto simp: cache_simps n_def)
  then have u: "link_as_most_recent b c = upd_buf HEAD (\<lambda>x. x\<lparr>b_next := b\<rparr>) ?c3"
    by (simp add: link_as_most_recent_def n_def)
  have nxt': "nxt (link_as_most_recent b c) = (nxt c)(b := nxt c HEAD, HEAD := b)"
    unfolding u nxt_upd_next [OF l(3)] nxt_upd_prev [OF l(2)] nxt_upd_prev [OF l(1)]
      nxt_upd_next [OF bnd(2)] using n_def by simp
  have prv': "prv (link_as_most_recent b c) = (prv c)(b := HEAD, last (HEAD # rev xs) := b)"
    unfolding u prv_upd_next [OF l(3)] prv_upd_prev [OF l(2)] prv_upd_prev [OF l(1)]
      prv_upd_next [OF bnd(2)] using n by simp
  have "chain (nxt (link_as_most_recent b c)) HEAD (b # xs) HEAD"
    unfolding nxt' using dist nx by (cases xs) (auto simp: chain_upd_other)
  moreover have "chain ((prv c)(b := HEAD, last (HEAD # rev xs) := b)) HEAD (rev xs) b"
  proof (rule chain_snoc_upd)
    show "chain ((prv c)(b := HEAD)) HEAD (rev xs) HEAD" using pv dist by (subst chain_upd_other) auto
  qed (use dist in auto)
  moreover have "last (HEAD # rev xs) \<noteq> b" using last_in_set [of "HEAD # rev xs"] dist by auto
  ultimately have "chain (nxt (link_as_most_recent b c)) HEAD (b # xs) HEAD"
    "chain (prv (link_as_most_recent b c)) HEAD (rev (b # xs)) HEAD"
    unfolding prv' by (auto simp: chain_append)
  moreover show rel: "relinked c (link_as_most_recent b c)"
    unfolding u using bnd l relinked_upd_next relinked_upd_prev relinked_trans by metis
  ultimately show "dll (link_as_most_recent b c) (b # xs)"
    using assms len relinkedD(6) [OF rel] by (auto simp: dll_def)
qed

lemma dll_cong:
  assumes "\<And>b. b_next (buf c' b) = b_next (buf c b)" "\<And>b. b_prev (buf c' b) = b_prev (buf c b)"
    and "length (nodes c') = length (nodes c)"
  shows "dll c' xs = dll c xs"
  using assms by (simp add: dll_def)

section \<open>Device contract, invariant and abstraction\<close>

text \<open>
  What the cache relies on of a device whose medium is \<open>contents d\<close>: a successful read delivers
  the sector, a successful write stores it, a failed call changes no sector, and a call returns
  only when it is finished. Both calls may fail at any time.
\<close>

definition device_contract :: "'d BlockDevice \<Rightarrow> ('d \<Rightarrow> u64 \<Rightarrow> bytes) \<Rightarrow> bool" where
  "device_contract dv contents \<longleftrightarrow>
     dv_read_block dv \<noteq> None \<and> dv_write_block dv \<noteq> None \<and>
     (\<forall>d n. length (contents d n) = BLOCK_SIZE) \<and>
     (\<forall>n b d ok b' d'. length b = BLOCK_SIZE \<longrightarrow> dev_read dv n b d = (ok, b', d') \<longrightarrow>
        contents d' = contents d \<and> length b' = BLOCK_SIZE \<and> (ok \<longrightarrow> b' = contents d n)) \<and>
     (\<forall>n b d ok d'. length b = BLOCK_SIZE \<longrightarrow> dev_write dv n b d = (ok, d') \<longrightarrow>
        contents d' = (if ok then (contents d)(n := b) else contents d))"

text \<open>A device that answers every request on the sectors \<open>good\<close> and rejects all others.\<close>

definition reliable_on :: "'d BlockDevice \<Rightarrow> (u64 \<Rightarrow> bool) \<Rightarrow> bool" where
  "reliable_on dv good \<longleftrightarrow>
     (\<forall>n b d. fst (dev_read dv n b d) = good n) \<and> (\<forall>n b d. length b = BLOCK_SIZE \<longrightarrow> fst (dev_write dv n b d) = good n)"

definition buffer_ok :: "('d \<Rightarrow> u64 \<Rightarrow> bytes) \<Rightarrow> 'd cache \<Rightarrow> nat \<Rightarrow> bool" where
  "buffer_ok contents c b \<longleftrightarrow>
     length (b_data (buf c b)) = BLOCK_SIZE \<and> 0 \<le> b_refcnt (buf c b) \<and>
     (b_dirty (buf c b) \<longrightarrow> b_valid (buf c b)) \<and> (0 < b_refcnt (buf c b) \<longrightarrow> b_valid (buf c b)) \<and>
     (b_valid (buf c b) \<and> \<not> b_dirty (buf c b) \<and> b_refcnt (buf c b) = 0 \<longrightarrow>
        b_data (buf c b) = contents (hw c) (ucast (b_block (buf c b))))"

definition unique_blocks :: "'d cache \<Rightarrow> bool" where
  "unique_blocks c \<longleftrightarrow>
     (\<forall>a < NBUF. \<forall>b < NBUF. b_valid (buf c a) \<longrightarrow> b_valid (buf c b) \<longrightarrow>
        b_block (buf c a) = b_block (buf c b) \<longrightarrow> a = b)"

definition lru_complete :: "'d cache \<Rightarrow> bool" where
  "lru_complete c \<longleftrightarrow> (\<exists>xs. dll c xs \<and> set xs = {..<NBUF})"

definition cache_core :: "('d \<Rightarrow> u64 \<Rightarrow> bytes) \<Rightarrow> 'd cache \<Rightarrow> bool" where
  "cache_core contents c \<longleftrightarrow>
     initialized c \<and> device_contract (device c) contents \<and> lru_complete c \<and> unique_blocks c"

definition cache_inv :: "('d \<Rightarrow> u64 \<Rightarrow> bytes) \<Rightarrow> 'd cache \<Rightarrow> bool" where
  "cache_inv contents c \<longleftrightarrow> cache_core contents c \<and> (\<forall>b < NBUF. buffer_ok contents c b)"

text \<open>The flat array of blocks the cache stands for.\<close>

definition slot_of :: "'d cache \<Rightarrow> u32 \<Rightarrow> nat option" where
  "slot_of c n = find (\<lambda>b. b_valid (buf c b) \<and> b_block (buf c b) = n) [0..<NBUF]"

definition cache_view :: "('d \<Rightarrow> u64 \<Rightarrow> bytes) \<Rightarrow> 'd cache \<Rightarrow> u32 \<Rightarrow> bytes" where
  "cache_view contents c n =
     (case slot_of c n of Some b \<Rightarrow> b_data (buf c b) | None \<Rightarrow> contents (hw c) (ucast n))"

definition cache_refs :: "'d cache \<Rightarrow> u32 \<Rightarrow> nat" where
  "cache_refs c n = (case slot_of c n of Some b \<Rightarrow> nat (b_refcnt (buf c b)) | None \<Rightarrow> 0)"

definition cache_loc :: "'d cache \<Rightarrow> u32 \<Rightarrow> nat" where
  "cache_loc c n = the (slot_of c n)"

definition cache_synced :: "('d \<Rightarrow> u64 \<Rightarrow> bytes) \<Rightarrow> 'd cache \<Rightarrow> u32 \<Rightarrow> bool" where
  "cache_synced contents c n \<longleftrightarrow>
     (case slot_of c n of
        Some b \<Rightarrow> b_dirty (buf c b) \<or> b_data (buf c b) = contents (hw c) (ucast n)
      | None \<Rightarrow> True)"

lemma ucast_block_inj [simp]: "(ucast (a :: u32) :: u64) = ucast b \<longleftrightarrow> a = b"
proof
  assume "(ucast a :: u64) = ucast b"
  then have "bit (ucast a :: u64) k = bit (ucast b :: u64) k" for k by simp
  then have "k < 64 \<Longrightarrow> bit a k = bit b k" for k by (simp add: bit_ucast_iff) metis
  then show "a = b" by (intro bit_word_eqI) simp
qed simp

lemma slot_of_None: "slot_of c n = None \<longleftrightarrow> (\<forall>b < NBUF. b_valid (buf c b) \<longrightarrow> b_block (buf c b) \<noteq> n)"
  by (auto simp: slot_of_def find_None_props)

lemma slot_of_Some:
  "unique_blocks c \<Longrightarrow>
     slot_of c n = Some b \<longleftrightarrow> b < NBUF \<and> b_valid (buf c b) \<and> b_block (buf c b) = n"
  unfolding slot_of_def
  by (rule iffI, force dest: find_Some_props, rule find_unique) (auto simp: unique_blocks_def)

lemma cache_coreD:
  assumes "cache_core contents c"
  shows "initialized c" "device_contract (device c) contents" "unique_blocks c" "lru_complete c"
    "length (nodes c) = Suc NBUF" "b < NBUF \<Longrightarrow> b < length (nodes c)"
  using assms by (auto simp: cache_core_def lru_complete_def dll_def)

lemma cache_invD:
  assumes "cache_inv contents c"
  shows "cache_core contents c" "b < NBUF \<Longrightarrow> buffer_ok contents c b"
  using assms by (auto simp: cache_inv_def)

lemma lookup_slot:
  assumes "lru_complete c" "unique_blocks c"
  shows "lookup n c = slot_of c n"
proof -
  from assms(1) obtain xs where xs: "dll c xs" "set xs = {..<NBUF}" by (auto simp: lru_complete_def)
  let ?P = "\<lambda>b. b_valid (buf c b) \<and> b_block (buf c b) = n"
  have "lookup n c = find ?P xs"
    unfolding lookup_def using xs(1) dll_distinct [OF xs(1)] dll_length [OF xs(1)]
    by (intro walk_chain) (auto simp: dll_def)
  also have "\<dots> = slot_of c n"
  proof (cases "slot_of c n")
    case None
    then have "find ?P xs = None" using xs(2) by (auto simp: slot_of_None find_None_props)
    with None show ?thesis by simp
  next
    case (Some b)
    then have "b \<in> set xs" "?P b" using xs(2) slot_of_Some [OF assms(2)] by auto
    then have "find ?P xs = Some b"
      by (rule find_unique) (use assms(2) xs(2) \<open>b \<in> set xs\<close> \<open>?P b\<close> in \<open>auto simp: unique_blocks_def\<close>)
    with Some show ?thesis by simp
  qed
  finally show ?thesis .
qed

lemma find_unused_complete:
  assumes "lru_complete c"
  shows "find_unused c = Some b \<Longrightarrow> b < NBUF \<and> b_refcnt (buf c b) = 0"
    and "find_unused c = None \<Longrightarrow> a < NBUF \<Longrightarrow> b_refcnt (buf c a) \<noteq> 0"
proof -
  from assms obtain xs where xs: "dll c xs" "set xs = {..<NBUF}" by (auto simp: lru_complete_def)
  let ?P = "\<lambda>b. \<not> b_refcnt (buf c b) \<noteq> 0"
  have eq: "find_unused c = find ?P (rev xs)"
    unfolding find_unused_def using xs(1) dll_distinct [OF xs(1)] dll_length [OF xs(1)]
    by (intro walk_chain) (auto simp: dll_def)
  show "find_unused c = Some b \<Longrightarrow> b < NBUF \<and> b_refcnt (buf c b) = 0"
    using find_Some_props [of ?P "rev xs" b] xs(2) unfolding eq by auto
  show "find_unused c = None \<Longrightarrow> a < NBUF \<Longrightarrow> b_refcnt (buf c a) \<noteq> 0"
    using find_None_props [of ?P "rev xs"] xs(2) unfolding eq by auto
qed

text \<open>The structural part survives everything that leaves the links alone.\<close>

lemma lru_complete_cong:
  assumes "\<And>b. b_next (buf c' b) = b_next (buf c b)" "\<And>b. b_prev (buf c' b) = b_prev (buf c b)"
    and "length (nodes c') = length (nodes c)"
  shows "lru_complete c' = lru_complete c"
  using dll_cong [OF assms] by (simp add: lru_complete_def)

lemma view_cached:
  "unique_blocks c \<Longrightarrow> b < NBUF \<Longrightarrow> b_valid (buf c b) \<Longrightarrow>
     cache_view contents c (b_block (buf c b)) = b_data (buf c b)"
  using slot_of_Some [of c "b_block (buf c b)" b] by (simp add: cache_view_def)

lemma view_uncached:
  "(\<forall>b < NBUF. b_valid (buf c b) \<longrightarrow> b_block (buf c b) \<noteq> n) \<Longrightarrow>
     cache_view contents c n = contents (hw c) (ucast n)"
  using slot_of_None [of c n] by (simp add: cache_view_def)

lemma view_eqI:
  assumes "unique_blocks c"
    and "\<And>b. b < NBUF \<Longrightarrow> b_valid (buf c b) \<Longrightarrow> b_block (buf c b) = n \<Longrightarrow> b_data (buf c b) = v"
    and "(\<And>b. b < NBUF \<Longrightarrow> b_valid (buf c b) \<Longrightarrow> b_block (buf c b) \<noteq> n) \<Longrightarrow>
           contents (hw c) (ucast n) = v"
  shows "cache_view contents c n = v"
proof (cases "slot_of c n")
  case None
  then have "contents (hw c) (ucast n) = v" using assms(3) by (simp add: slot_of_None)
  with None show ?thesis by (simp add: cache_view_def)
next
  case (Some b)
  then have "b_data (buf c b) = v" using assms(2) slot_of_Some [OF assms(1)] by blast
  with Some show ?thesis by (simp add: cache_view_def)
qed


section \<open>Effect of each operation\<close>

text \<open>
  \<open>retagged c c'\<close>: validity, block number and reference count of every buffer are unchanged, so
  every notion derived from the slots is.
\<close>

lemma slot_of_cong:
  assumes "\<And>b. b < NBUF \<Longrightarrow> b_valid (buf c' b) = b_valid (buf c b)"
    and "\<And>b. b < NBUF \<Longrightarrow> b_valid (buf c b) \<Longrightarrow> b_block (buf c' b) = b_block (buf c b)"
  shows "slot_of c' = slot_of c"
  unfolding slot_of_def fun_eq_iff using assms by (intro allI find_cong) auto

lemma unique_blocks_cong:
  assumes "\<And>b. b < NBUF \<Longrightarrow> b_valid (buf c' b) = b_valid (buf c b)"
    and "\<And>b. b < NBUF \<Longrightarrow> b_valid (buf c b) \<Longrightarrow> b_block (buf c' b) = b_block (buf c b)"
  shows "unique_blocks c' = unique_blocks c"
  using assms by (auto simp: unique_blocks_def)

lemma write_back_effect:
  assumes "cache_core contents c" "b < NBUF" "length (b_data (buf c b)) = BLOCK_SIZE"
    and "write_back b c = (ok, c')"
  shows "contents (hw c') =
      (if ok then (contents (hw c))(ucast (b_block (buf c b)) := b_data (buf c b)) else contents (hw c))"
    and "buf c' j = (if ok \<and> j = b then (buf c j)\<lparr>b_dirty := False\<rparr> else buf c j)"
    and "length (nodes c') = length (nodes c)" "device c' = device c" "initialized c' = initialized c"
proof -
  have b: "b < length (nodes c)" using cache_coreD(6) [OF assms(1,2)] .
  obtain ok' d where w: "dev_write (device c) (ucast (b_block (buf c b))) (b_data (buf c b)) (hw c) = (ok', d)"
    by (cases "dev_write (device c) (ucast (b_block (buf c b))) (b_data (buf c b)) (hw c)") auto
  with cache_coreD(2) [OF assms(1)] assms(3)
  have d: "contents d = (if ok' then (contents (hw c))(ucast (b_block (buf c b)) := b_data (buf c b))
              else contents (hw c))"
    unfolding device_contract_def by blast
  from assms(4) w have ok: "ok = ok'" and c': "c' = (if ok' then upd_stats (\<lambda>t. t\<lparr>writebacks := writebacks t + 1\<rparr>)
      (upd_buf b (\<lambda>x. x\<lparr>b_dirty := False\<rparr>) (c\<lparr>hw := d\<rparr>)) else c\<lparr>hw := d\<rparr>)"
    by (auto simp: write_back_def split: if_splits)
  show "contents (hw c') =
      (if ok then (contents (hw c))(ucast (b_block (buf c b)) := b_data (buf c b)) else contents (hw c))"
    using d ok c' by (simp add: cache_simps)
  show "buf c' j = (if ok \<and> j = b then (buf c j)\<lparr>b_dirty := False\<rparr> else buf c j)"
    using b ok c' by (simp add: cache_simps)
  show "length (nodes c') = length (nodes c)" "device c' = device c" "initialized c' = initialized c"
    using c' by (auto simp: cache_simps)
qed

text \<open>Writing a cached block back never changes what clients see.\<close>

lemma write_back_invisible:
  assumes "cache_core contents c" "b < NBUF" "length (b_data (buf c b)) = BLOCK_SIZE"
    and "b_valid (buf c b)" "write_back b c = (ok, c')"
  shows "cache_core contents c'" "cache_view contents c' = cache_view contents c"
    "slot_of c' = slot_of c"
proof -
  note e = write_back_effect [OF assms(1-3,5)]
  show slot: "slot_of c' = slot_of c" by (rule slot_of_cong) (simp_all add: e(2))
  have uniq: "unique_blocks c'" "unique_blocks c"
    using unique_blocks_cong [of c' c] cache_coreD(3) [OF assms(1)] by (auto simp: e(2))
  have "lru_complete c'"
    using cache_coreD(4) [OF assms(1)] lru_complete_cong [of c' c] e by simp
  with uniq assms(1) e show "cache_core contents c'" by (simp add: cache_core_def)
  have same: "b_valid (buf c' j) = b_valid (buf c j)" "b_block (buf c' j) = b_block (buf c j)"
    "b_data (buf c' j) = b_data (buf c j)" for j by (simp_all add: e(2))
  show "cache_view contents c' = cache_view contents c"
  proof (rule ext, rule view_eqI [OF uniq(1)])
    fix n j
    assume "j < NBUF" "b_valid (buf c' j)" "b_block (buf c' j) = n"
    then show "b_data (buf c' j) = cache_view contents c n"
      using view_cached [OF uniq(2), of j contents] by (auto simp: same)
  next
    fix n
    assume "\<And>j. j < NBUF \<Longrightarrow> b_valid (buf c' j) \<Longrightarrow> b_block (buf c' j) \<noteq> n"
    then have un: "\<forall>j < NBUF. b_valid (buf c j) \<longrightarrow> b_block (buf c j) \<noteq> n" by (simp add: same)
    with assms(2,4) have "n \<noteq> b_block (buf c b)" by blast
    with un show "contents (hw c') (ucast n) = cache_view contents c n"
      by (simp add: e(1) view_uncached)
  qed
qed

text \<open>\<open>release\<close>: one reference fewer; the last one moves the buffer to the most recent end.\<close>

lemma release_effect:
  assumes "lru_complete c" "b < NBUF" "0 < b_refcnt (buf c b)" "c' = release_buffer (Some b) c"
  shows "lru_complete c'"
    and "payload (buf c' j) = payload (if j = b then (buf c j)\<lparr>b_refcnt := b_refcnt (buf c j) - 1\<rparr> else buf c j)"
    and "hw c' = hw c" "device c' = device c" "initialized c' = initialized c"
    and "b_refcnt (buf c b) = 1 \<Longrightarrow> nxt c' HEAD = b"
proof -
  define c1 where "c1 = upd_buf b (\<lambda>x. x\<lparr>b_refcnt := b_refcnt x - 1\<rparr>) c"
  from assms(1) obtain xs where xs: "dll c xs" "set xs = {..<NBUF}" by (auto simp: lru_complete_def)
  then have len: "b < length (nodes c)" using assms(2) by (simp add: dll_def)
  have b1: "buf c1 j = (if j = b then (buf c j)\<lparr>b_refcnt := b_refcnt (buf c j) - 1\<rparr> else buf c j)" for j
    using len by (simp add: c1_def cache_simps)
  have f1: "hw c1 = hw c" "device c1 = device c" "initialized c1 = initialized c"
    "length (nodes c1) = length (nodes c)" by (simp_all add: c1_def cache_simps)
  have d1: "dll c1 xs" using xs(1) dll_cong [of c1 c xs] b1 f1 by simp
  have rel: "lru_complete c' \<and> relinked c1 c' \<and> (b_refcnt (buf c b) = 1 \<longrightarrow> nxt c' HEAD = b)"
  proof (cases "b_refcnt (buf c1 b) > 0")
    case True
    then have "c' = c1" using assms(3,4) by (simp add: release_buffer_def c1_def Let_def)
    with d1 xs(2) True b1 show ?thesis by (auto simp: lru_complete_def relinked_def)
  next
    case False
    then have c': "c' = link_as_most_recent b (unlink b c1)"
      using assms(3,4) by (simp add: release_buffer_def c1_def Let_def)
    from xs(2) assms(2) obtain as bs where split: "xs = as @ b # bs" by (metis lessThan_iff split_list)
    note un = dll_unlink [OF d1 [unfolded split]]
    have nin: "b \<notin> set (as @ bs)" using d1 by (simp add: split dll_def)
    note ln = dll_link [OF un(1) assms(2) nin]
    have "set (b # as @ bs) = {..<NBUF}" using xs(2) by (simp add: split)
    moreover have "nxt c' HEAD = b" using ln(1) by (simp add: c' dll_def)
    ultimately show ?thesis using ln un(2) relinked_trans c' by (auto simp: lru_complete_def)
  qed
  show "lru_complete c'" using rel by simp
  show "payload (buf c' j) = payload (if j = b then (buf c j)\<lparr>b_refcnt := b_refcnt (buf c j) - 1\<rparr> else buf c j)"
    using rel b1 by (simp add: relinked_def)
  show "hw c' = hw c" "device c' = device c" "initialized c' = initialized c"
    using rel f1 by (simp_all add: relinked_def)
  show "b_refcnt (buf c b) = 1 \<Longrightarrow> nxt c' HEAD = b" using rel by simp
qed

lemma payloadD:
  assumes "payload x = payload y"
  shows "b_block x = b_block y" "b_valid x = b_valid y" "b_dirty x = b_dirty y"
    "b_refcnt x = b_refcnt y" "b_data x = b_data y"
  using assms by (auto simp: payload_def)

text \<open>
  Reusing an idle clean buffer \<open>b\<close> for block \<open>n\<close>: \<open>v\<close> tells whether the device delivered the block.
\<close>

lemma reuse_buffer:
  assumes inv: "cache_inv contents c" and unc: "slot_of c n = None"
    and b: "b < NBUF" "b_refcnt (buf c b) = 0" "\<not> b_dirty (buf c b)"
    and frame: "\<And>j. j \<noteq> b \<Longrightarrow> payload (buf c' j) = payload (buf c j)"
    and new: "b_block (buf c' b) = n" "b_valid (buf c' b) = v" "\<not> b_dirty (buf c' b)"
      "b_refcnt (buf c' b) = (if v then 1 else 0)" "length (b_data (buf c' b)) = BLOCK_SIZE"
      "v \<Longrightarrow> b_data (buf c' b) = contents (hw c) (ucast n)"
    and dev: "contents (hw c') = contents (hw c)" "device c' = device c" "initialized c' = initialized c"
    and lru: "lru_complete c'"
  shows "cache_inv contents c'" and "cache_view contents c' = cache_view contents c"
    and "slot_of c' m = (if m = n then (if v then Some b else None)
           else if slot_of c m = Some b then None else slot_of c m)"
proof -
  note same = payloadD [OF frame]
  have uniq: "unique_blocks c" using cache_coreD(3) [OF cache_invD(1) [OF inv]] .
  have unc': "\<And>j. j < NBUF \<Longrightarrow> b_valid (buf c j) \<Longrightarrow> b_block (buf c j) \<noteq> n"
    using unc by (simp add: slot_of_None)
  have uniq': "unique_blocks c'"
    using uniq unc' new(1) same unfolding unique_blocks_def by metis
  have clean: "b_valid (buf c b) \<Longrightarrow> b_data (buf c b) = contents (hw c) (ucast (b_block (buf c b)))"
    using cache_invD(2) [OF inv b(1)] b by (simp add: buffer_ok_def)
  have "buffer_ok contents c' j" if "j < NBUF" for j
  proof (cases "j = b")
    case True
    with new dev show ?thesis by (auto simp: buffer_ok_def)
  next
    case False
    with cache_invD(2) [OF inv that] show ?thesis by (simp add: buffer_ok_def same dev)
  qed
  moreover have "cache_core contents c'"
    using uniq' lru dev cache_invD(1) [OF inv] by (simp add: cache_core_def)
  ultimately show "cache_inv contents c'" by (simp add: cache_inv_def)
  show "slot_of c' m = (if m = n then (if v then Some b else None)
           else if slot_of c m = Some b then None else slot_of c m)"
  proof (cases "slot_of c' m")
    case None
    then have "\<And>j. j < NBUF \<Longrightarrow> b_valid (buf c' j) \<Longrightarrow> b_block (buf c' j) \<noteq> m"
      by (simp add: slot_of_None)
    then have "slot_of c m = None \<or> slot_of c m = Some b" and "m = n \<longrightarrow> \<not> v"
      using slot_of_Some [OF uniq, of m] same b(1) new(1,2) by (metis not_Some_eq, blast)
    with None show ?thesis using unc by auto
  next
    case (Some j)
    then have j: "j < NBUF" "b_valid (buf c' j)" "b_block (buf c' j) = m"
      using slot_of_Some [OF uniq'] by auto
    show ?thesis
    proof (cases "j = b")
      case True
      with j new Some show ?thesis by simp
    next
      case False
      then have "slot_of c m = Some j" using j same slot_of_Some [OF uniq] by simp
      with False Some unc show ?thesis by auto
    qed
  qed
  note slot = this
  show "cache_view contents c' = cache_view contents c"
  proof
    fix m
    consider "slot_of c' m = Some b" | j where "slot_of c' m = Some j" "j \<noteq> b" | "slot_of c' m = None"
      by fastforce
    then show "cache_view contents c' m = cache_view contents c m"
    proof cases
      case 1
      then have "m = n" "v" using slot slot_of_Some [OF uniq'] new by (auto split: if_splits)
      with 1 unc new(6) show ?thesis by (simp add: cache_view_def)
    next
      case 2
      then have "b_block (buf c' j) = m" "b_valid (buf c' j)" "j < NBUF" using slot_of_Some [OF uniq'] by auto
      then have "slot_of c m = Some j" using 2 same slot_of_Some [OF uniq] by simp
      with 2 show ?thesis by (simp add: cache_view_def same)
    next
      case 3
      show ?thesis
      proof (cases "slot_of c m")
        case None
        with 3 show ?thesis by (simp add: cache_view_def dev)
      next
        case (Some j)
        then have j: "j < NBUF" "b_valid (buf c j)" "b_block (buf c j) = m" using slot_of_Some [OF uniq] by auto
        have "j = b"
        proof (rule ccontr)
          assume "j \<noteq> b"
          then have "slot_of c' m = Some j" using j same slot_of_Some [OF uniq'] by simp
          with 3 show False by simp
        qed
        with 3 Some j clean show ?thesis by (auto simp: cache_view_def dev)
      qed
    qed
  qed
qed

text \<open>A cache hit only counts.\<close>

lemma read_hit:
  assumes inv: "cache_inv contents c" and slot: "slot_of c n = Some b"
  shows "\<exists>c'. cache_read n c = (Some b, c') \<and> cache_inv contents c' \<and> hw c' = hw c \<and>
    (\<forall>j. buf c' j = (if j = b then (buf c j)\<lparr>b_refcnt := b_refcnt (buf c j) + 1\<rparr> else buf c j)) \<and>
    slot_of c' = slot_of c \<and> device c' = device c"
proof -
  note core = cache_invD(1) [OF inv]
  have b: "b < NBUF" "b_valid (buf c b)" "b < length (nodes c)"
    using slot slot_of_Some [OF cache_coreD(3) [OF core]] cache_coreD(6) [OF core] by auto
  define c1 where "c1 = upd_buf b (\<lambda>x. x\<lparr>b_refcnt := b_refcnt x + 1\<rparr>) c"
  define c' where "c' = upd_stats (\<lambda>t. t\<lparr>hits := hits t + 1\<rparr>) c1"
  have "lookup n c = Some b"
    using slot lookup_slot [OF cache_coreD(4,3) [OF core]] by simp
  then have r: "cache_read n c = (Some b, c')"
    using b by (simp add: cache_read_def find_cached_def c1_def c'_def cache_simps)
  have bf: "buf c' j = (if j = b then (buf c j)\<lparr>b_refcnt := b_refcnt (buf c j) + 1\<rparr> else buf c j)" for j
    using b by (simp add: c'_def c1_def cache_simps)
  have fs: "hw c' = hw c" "device c' = device c" "initialized c' = initialized c"
    "length (nodes c') = length (nodes c)" by (simp_all add: c'_def c1_def cache_simps)
  have sl: "slot_of c' = slot_of c" by (rule slot_of_cong) (simp_all add: bf)
  have "unique_blocks c'" using cache_coreD(3) [OF core] unique_blocks_cong [of c' c] by (simp add: bf)
  moreover have "lru_complete c'"
    using cache_coreD(4) [OF core] lru_complete_cong [of c' c] by (simp add: bf fs)
  ultimately have "cache_core contents c'" using core by (simp add: cache_core_def fs)
  moreover have "buffer_ok contents c' j" if "j < NBUF" for j
    using cache_invD(2) [OF inv that] b(2) by (auto simp: buffer_ok_def bf fs)
  ultimately show ?thesis using r bf fs sl by (auto simp: cache_inv_def)
qed

text \<open>The part of a miss after the victim is known to be clean.\<close>

definition fill :: "nat \<Rightarrow> u32 \<Rightarrow> 'd cache \<Rightarrow> nat option \<times> 'd cache" where
  "fill b n c =
     (let c1 = snd (recycle b n c);
          c2 = upd_stats (\<lambda>t. t\<lparr>misses := misses t + 1\<rparr>) c1
      in (case dev_read (device c2) (ucast n) (b_data (buf c2 b)) (hw c2) of
            (ok, bytes, d) \<Rightarrow>
              let c3 = upd_buf b (\<lambda>x. x\<lparr>b_data := bytes\<rparr>) (c2\<lparr>hw := d\<rparr>)
              in if \<not> ok then (None, release_buffer (Some b) c3)
                 else (Some b, upd_buf b (\<lambda>x. x\<lparr>b_valid := True\<rparr>) c3)))"

lemma read_miss:
  assumes "lookup n c = None" "length (nodes c) = Suc NBUF"
  shows "find_unused c = None \<Longrightarrow> cache_read n c = (None, c)"
    and "find_unused c = Some b \<Longrightarrow> b < NBUF \<Longrightarrow> \<not> b_dirty (buf c b) \<Longrightarrow> cache_read n c = fill b n c"
    and "find_unused c = Some b \<Longrightarrow> b_dirty (buf c b) \<Longrightarrow> write_back b c = (False, c1) \<Longrightarrow>
           cache_read n c = (None, c1)"
    and "find_unused c = Some b \<Longrightarrow> b < NBUF \<Longrightarrow> b_dirty (buf c b) \<Longrightarrow> write_back b c = (True, c1) \<Longrightarrow>
           length (nodes c1) = Suc NBUF \<Longrightarrow> cache_read n c = fill b n c1"
  using assms
  by (simp_all add: cache_read_def find_cached_def fill_def recycle_def Let_def cache_simps)

lemma fill_effect:
  assumes inv: "cache_inv contents c" and unc: "slot_of c n = None"
    and b: "b < NBUF" "b_refcnt (buf c b) = 0" "\<not> b_dirty (buf c b)"
    and f: "fill b n c = (r, c')"
  shows "cache_inv contents c'" and "cache_view contents c' = cache_view contents c"
    and "r = None \<or> r = Some b" and "contents (hw c') = contents (hw c)"
    and "\<And>j. j \<noteq> b \<Longrightarrow> payload (buf c' j) = payload (buf c j)"
    and "slot_of c' m = (if m = n then r else if slot_of c m = Some b then None else slot_of c m)"
    and "r = Some b \<Longrightarrow> b_refcnt (buf c' b) = 1 \<and> \<not> b_dirty (buf c' b) \<and>
           b_data (buf c' b) = contents (hw c) (ucast n)"
    and "device c' = device c"
    and "r \<noteq> None \<longleftrightarrow> fst (dev_read (device c) (ucast n) (b_data (buf c b)) (hw c))"
proof -
  note core = cache_invD(1) [OF inv]
  have len: "b < length (nodes c)" using cache_coreD(6) [OF core b(1)] .
  define c2 where "c2 = upd_stats (\<lambda>t. t\<lparr>misses := misses t + 1\<rparr>) (snd (recycle b n c))"
  have b2: "buf c2 j = (if j = b then (buf c j)\<lparr>b_block := n, b_valid := False, b_dirty := False, b_refcnt := 1\<rparr>
      else buf c j)" for j
    using len by (simp add: c2_def recycle_def Let_def cache_simps)
  have f2: "hw c2 = hw c" "device c2 = device c" "initialized c2 = initialized c"
    "length (nodes c2) = length (nodes c)"
    by (simp_all add: c2_def recycle_def Let_def cache_simps)
  obtain ok bytes d where dr: "dev_read (device c) (ucast n) (b_data (buf c b)) (hw c) = (ok, bytes, d)"
    by (cases "dev_read (device c) (ucast n) (b_data (buf c b)) (hw c)") auto
  have "length (b_data (buf c b)) = BLOCK_SIZE"
    using cache_invD(2) [OF inv b(1)] by (simp add: buffer_ok_def)
  then have cd: "contents d = contents (hw c)" "length bytes = BLOCK_SIZE" "ok \<Longrightarrow> bytes = contents (hw c) (ucast n)"
    using cache_coreD(2) [OF core] dr unfolding device_contract_def by (metis, metis, metis)
  define c3 where "c3 = upd_buf b (\<lambda>x. x\<lparr>b_data := bytes\<rparr>) (c2\<lparr>hw := d\<rparr>)"
  have b3: "buf c3 j = (if j = b then (buf c2 j)\<lparr>b_data := bytes\<rparr> else buf c2 j)" for j
    using len by (simp add: c3_def cache_simps f2)
  have f3: "hw c3 = d" "device c3 = device c" "initialized c3 = initialized c"
    "length (nodes c3) = length (nodes c)" by (simp_all add: c3_def cache_simps f2)
  have lru3: "lru_complete c3"
    using cache_coreD(4) [OF core] lru_complete_cong [of c3 c] b3 b2 f3 by simp
  have res: "(r, c') = (if \<not> ok then (None, release_buffer (Some b) c3)
                        else (Some b, upd_buf b (\<lambda>x. x\<lparr>b_valid := True\<rparr>) c3))"
    using f dr unfolding fill_def Let_def c2_def [symmetric] by (auto simp add: c3_def b2 f2)
  have sum: "(\<forall>j. j \<noteq> b \<longrightarrow> payload (buf c' j) = payload (buf c j)) \<and>
    b_block (buf c' b) = n \<and> b_valid (buf c' b) = ok \<and> \<not> b_dirty (buf c' b) \<and>
    b_refcnt (buf c' b) = (if ok then 1 else 0) \<and> b_data (buf c' b) = bytes \<and>
    contents (hw c') = contents (hw c) \<and> device c' = device c \<and> initialized c' = initialized c \<and>
    lru_complete c' \<and> r = (if ok then Some b else None)"
  proof (cases ok)
    case True
    then have c': "c' = upd_buf b (\<lambda>x. x\<lparr>b_valid := True\<rparr>) c3" and r: "r = Some b" using res by auto
    have bf: "buf c' j = (if j = b then (buf c3 j)\<lparr>b_valid := True\<rparr> else buf c3 j)" for j
      using len by (simp add: c' cache_simps f3)
    have "lru_complete c'" using lru3 lru_complete_cong [of c' c3] by (simp add: bf) (simp add: c' cache_simps)
    moreover have "hw c' = d" "device c' = device c" "initialized c' = initialized c"
      by (simp_all add: c' cache_simps f3)
    ultimately show ?thesis using True r by (simp add: bf b3 b2 cd)
  next
    case False
    then have c': "c' = release_buffer (Some b) c3" and r: "r = None" using res by auto
    have pos: "0 < b_refcnt (buf c3 b)" by (simp add: b3 b2)
    note rel = release_effect [OF lru3 b(1) pos c']
    show ?thesis using rel(1,3-5) False r payloadD [OF rel(2)] rel(2) by (simp add: b3 b2 cd f3)
  qed
  have data: "length (b_data (buf c' b)) = BLOCK_SIZE" "ok \<Longrightarrow> b_data (buf c' b) = contents (hw c) (ucast n)"
    using sum cd by auto
  from sum have new: "\<And>j. j \<noteq> b \<Longrightarrow> payload (buf c' j) = payload (buf c j)" "b_block (buf c' b) = n"
      "b_valid (buf c' b) = ok" "\<not> b_dirty (buf c' b)" "b_refcnt (buf c' b) = (if ok then 1 else 0)"
    and dev: "contents (hw c') = contents (hw c)" "device c' = device c" "initialized c' = initialized c"
      "lru_complete c'" by blast+
  note re = reuse_buffer [OF inv unc b new data dev]
  show "cache_inv contents c'" by (rule re(1))
  show "cache_view contents c' = cache_view contents c" by (rule re(2))
  show "slot_of c' m = (if m = n then r else if slot_of c m = Some b then None else slot_of c m)"
    using re(3) sum by simp
  show "r = None \<or> r = Some b" "contents (hw c') = contents (hw c)" "device c' = device c" using sum by auto
  show "\<And>j. j \<noteq> b \<Longrightarrow> payload (buf c' j) = payload (buf c j)" using sum by blast
  show "r = Some b \<Longrightarrow> b_refcnt (buf c' b) = 1 \<and> \<not> b_dirty (buf c' b) \<and>
           b_data (buf c' b) = contents (hw c) (ucast n)"
    using sum data by (auto split: if_splits)
  show "r \<noteq> None \<longleftrightarrow> fst (dev_read (device c) (ucast n) (b_data (buf c b)) (hw c))"
    using sum dr by simp
qed


abbreviation same_cache_pins :: "('d \<Rightarrow> u64 \<Rightarrow> bytes) \<Rightarrow> 'd cache \<Rightarrow> 'd cache \<Rightarrow> bool" where
  "same_cache_pins contents \<equiv> same_pins cache_refs cache_loc (cache_synced contents)"

lemma write_back_pins:
  assumes inv: "cache_inv contents c" and b: "b < NBUF" "b_valid (buf c b)"
    and w: "write_back b c = (ok, c')"
  shows "cache_inv contents c'" "cache_refs c' = cache_refs c" "cache_loc c' = cache_loc c"
    "m \<noteq> b_block (buf c b) \<Longrightarrow> cache_synced contents c' m = cache_synced contents c m"
    "cache_synced contents c m \<Longrightarrow> cache_synced contents c' m"
    "ok \<Longrightarrow> cache_synced contents c' (b_block (buf c b))"
proof -
  note core = cache_invD(1) [OF inv]
  have l: "length (b_data (buf c b)) = BLOCK_SIZE" using cache_invD(2) [OF inv b(1)] by (simp add: buffer_ok_def)
  note e = write_back_effect [OF core b(1) l w]
  note i = write_back_invisible [OF core b(1) l b(2) w]
  have uniq: "unique_blocks c" using cache_coreD(3) [OF core] .
  have "buffer_ok contents c' j" if "j < NBUF" for j
    using cache_invD(2) [OF inv that] uniq b that
    by (auto simp: buffer_ok_def e unique_blocks_def)
  with i(1) show "cache_inv contents c'" by (simp add: cache_inv_def)
  show "cache_refs c' = cache_refs c" "cache_loc c' = cache_loc c"
    by (auto simp: cache_refs_def cache_loc_def i(3) e(2) fun_eq_iff split: option.splits)
  have slot: "slot_of c m = Some j \<Longrightarrow> b_block (buf c j) = m" for j m using slot_of_Some [OF uniq] by blast
  show "m \<noteq> b_block (buf c b) \<Longrightarrow> cache_synced contents c' m = cache_synced contents c m"
    using slot [of m] by (auto simp: cache_synced_def i(3) e(1,2) split: option.splits)
  show sb: "ok \<Longrightarrow> cache_synced contents c' (b_block (buf c b))"
    using slot_of_Some [OF uniq, of "b_block (buf c b)" b] b by (simp add: cache_synced_def i(3) e(1,2))
  show "cache_synced contents c m \<Longrightarrow> cache_synced contents c' m"
    using sb slot [of m] by (cases ok) (auto simp: cache_synced_def i(3) e(1,2) split: option.splits)
qed

text \<open>
  Transparency of \<open>read\<close> on every path (hit, miss, eviction with or without write-back, device
  failure), for a device that may fail at any time.
\<close>

definition read_post :: "('d \<Rightarrow> u64 \<Rightarrow> bytes) \<Rightarrow> u32 \<Rightarrow> 'd cache \<Rightarrow> nat option \<Rightarrow> 'd cache \<Rightarrow> bool" where
  "read_post contents n c r c' \<longleftrightarrow>
     cache_inv contents c' \<and> cache_view contents c' = cache_view contents c \<and> device c' = device c \<and>
     (\<forall>m. slot_of c' m \<noteq> None \<longrightarrow> slot_of c m \<noteq> None \<or>
        m = n \<and> (\<exists>b d. fst (dev_read (device c) (ucast n) b d))) \<and>
     (r = None \<longrightarrow> same_cache_pins contents c c') \<and>
     (\<forall>b. r = Some b \<longrightarrow> slot_of c' n = Some b \<and>
        cache_refs c' = (cache_refs c)(n := Suc (cache_refs c n)) \<and>
        (cache_refs c n = 0 \<longrightarrow> cache_synced contents c' n) \<and>
        (\<forall>m. 0 < cache_refs c m \<longrightarrow> cache_loc c' m = cache_loc c m \<and>
             cache_synced contents c' m = cache_synced contents c m))"

lemma fill_post:
  assumes inv: "cache_inv contents c" and unc: "slot_of c n = None"
    and b: "b < NBUF" "b_refcnt (buf c b) = 0" "\<not> b_dirty (buf c b)"
    and f: "fill b n c = (r, c')"
  shows "read_post contents n c r c'"
proof -
  note e = fill_effect [OF inv unc b f]
  have slot: "slot_of c' m = (if m = n then r else if slot_of c m = Some b then None else slot_of c m)" for m
    by (rule fill_effect(6) [OF inv unc b f])
  have refs: "cache_refs c' m = (if m = n \<and> r \<noteq> None then 1 else cache_refs c m)" for m
  proof (cases "m = n")
    case True
    with slot unc e(3,7) show ?thesis by (auto simp: cache_refs_def)
  next
    case False
    show ?thesis
    proof (cases "slot_of c m")
      case None
      with False slot [of m] show ?thesis by (simp add: cache_refs_def)
    next
      case (Some j)
      with False slot [of m] b(2) payloadD(4) [OF e(5), of j] show ?thesis
        by (cases "j = b") (simp_all add: cache_refs_def)
    qed
  qed
  have held: "cache_loc c' m = cache_loc c m \<and> cache_synced contents c' m = cache_synced contents c m"
    if "0 < cache_refs c m" for m
  proof -
    from that obtain j where j: "slot_of c m = Some j" "0 < b_refcnt (buf c j)"
      by (auto simp: cache_refs_def split: option.splits)
    then have "j \<noteq> b" "m \<noteq> n" using b(2) unc by auto
    then have "slot_of c' m = Some j" "payload (buf c' j) = payload (buf c j)" using slot [of m] j e(5) by auto
    with j payloadD [of "buf c' j" "buf c j"] show ?thesis by (simp add: cache_loc_def cache_synced_def e(4))
  qed
  show ?thesis
    unfolding read_post_def same_pins_def
  proof (intro conjI allI impI)
    fix b' assume r: "r = Some b'"
    then have "b' = b" using e(3) by simp
    then show "slot_of c' n = Some b'" "cache_refs c n = 0 \<Longrightarrow> cache_synced contents c' n"
      using slot [of n] r e(4,7) by (auto simp: cache_synced_def)
    have "cache_refs c n = 0" using unc by (simp add: cache_refs_def)
    then show "cache_refs c' = (cache_refs c)(n := Suc (cache_refs c n))" using refs r by (auto simp: fun_eq_iff)
  next
    fix m assume "slot_of c' m \<noteq> None"
    then show "slot_of c m \<noteq> None \<or> m = n \<and> (\<exists>b d. fst (dev_read (device c) (ucast n) b d))"
      using slot [of m] e(9) by (auto split: if_splits)
  qed (use e(1,2,8) refs held in auto)
qed

lemma read_transparent:
  assumes inv: "cache_inv contents c" and r: "cache_read n c = (r, c')"
  shows "read_post contents n c r c'"
proof (cases "slot_of c n")
  case (Some b)
  from read_hit [OF inv Some] obtain c'' where h: "cache_read n c = (Some b, c'')" "cache_inv contents c''"
    "hw c'' = hw c" "slot_of c'' = slot_of c" "device c'' = device c"
    and bf: "\<And>j. buf c'' j = (if j = b then (buf c j)\<lparr>b_refcnt := b_refcnt (buf c j) + 1\<rparr> else buf c j)"
    by blast
  have eq: "r = Some b" "c' = c''" using h(1) r by auto
  have uniq: "unique_blocks c" using cache_coreD(3) [OF cache_invD(1) [OF inv]] .
  have b: "b < NBUF" "buffer_ok contents c b" using Some slot_of_Some [OF uniq] cache_invD(2) [OF inv] by auto
  have other: "slot_of c m = Some j \<Longrightarrow> m \<noteq> n \<Longrightarrow> j \<noteq> b" for m j
    using Some slot_of_Some [OF uniq] by auto
  have "cache_view contents c'' = cache_view contents c"
    by (auto simp: cache_view_def h bf fun_eq_iff split: option.splits)
  moreover have "cache_refs c'' = (cache_refs c)(n := Suc (cache_refs c n))"
    using b(2) Some other by (auto simp: cache_refs_def h bf fun_eq_iff buffer_ok_def nat_add_distrib split: option.splits)
  moreover have "cache_synced contents c'' m = cache_synced contents c m" for m
    by (auto simp: cache_synced_def h bf split: option.splits)
  moreover have "cache_refs c n = 0 \<longrightarrow> cache_synced contents c n"
    using b(2) Some slot_of_Some [OF uniq, of n b]
    by (auto simp: cache_refs_def cache_synced_def buffer_ok_def)
  ultimately show ?thesis
    unfolding read_post_def eq using h Some by (simp add: cache_loc_def)
next
  case None
  note core = cache_invD(1) [OF inv]
  have lk: "lookup n c = None" using None lookup_slot [OF cache_coreD(4,3) [OF core]] by simp
  note miss = read_miss [OF lk cache_coreD(5) [OF core]]
  show ?thesis
  proof (cases "find_unused c")
    case None
    with miss(1) r inv show ?thesis by (simp add: read_post_def)
  next
    case (Some b)
    then have b: "b < NBUF" "b_refcnt (buf c b) = 0"
      using find_unused_complete(1) [OF cache_coreD(4) [OF core]] by auto
    show ?thesis
    proof (cases "b_dirty (buf c b)")
      case False
      with miss(2) [OF Some b(1)] r fill_post [OF inv \<open>slot_of c n = None\<close> b] show ?thesis by simp
    next
      case True
      then have v: "b_valid (buf c b)" "length (b_data (buf c b)) = BLOCK_SIZE"
        using cache_invD(2) [OF inv b(1)] by (auto simp: buffer_ok_def)
      obtain ok c1 where w: "write_back b c = (ok, c1)" by (cases "write_back b c") auto
      note wp = write_back_pins [OF inv b(1) v(1) w]
      note wi = write_back_invisible [OF core b(1) v(2,1) w]
      note we = write_back_effect [OF core b(1) v(2) w]
      have unheld: "cache_refs c (b_block (buf c b)) = 0"
        using slot_of_Some [OF cache_coreD(3) [OF core], of "b_block (buf c b)" b] b v
        by (simp add: cache_refs_def)
      have pins: "same_cache_pins contents c c1"
        unfolding same_pins_def using wp(2-4) unheld by (metis less_irrefl)
      show ?thesis
      proof (cases ok)
        case False
        with miss(3) [OF Some True] w r have "r = None" "c' = c1" by auto
        with wp(1) wi(2,3) we(4) pins show ?thesis by (simp add: read_post_def)
      next
        case ok: True
        with miss(4) [OF Some b(1) True] w r we(3) cache_coreD(5) [OF core]
        have f: "fill b n c1 = (r, c')" by simp
        have "read_post contents n c1 r c'"
          using we(2) ok b by (intro fill_post [OF wp(1) _ b(1) _ _ f]) (simp_all add: wi(3) None)
        moreover have "slot_of c n = None" by fact
        then have "cache_refs c n = 0" by (simp add: cache_refs_def)
        ultimately show ?thesis
          using wi(2,3) we(4) pins by (auto simp: read_post_def same_pins_def)
      qed
    qed
  qed
qed

text \<open>\<open>release\<close> keeps the invariant when the last holder leaves the block in step with the medium.\<close>

lemma release_transparent:
  assumes inv: "cache_inv contents c" and slot: "slot_of c n = Some b"
    and pos: "0 < cache_refs c n" and syn: "cache_refs c n = 1 \<longrightarrow> cache_synced contents c n"
    and rel: "c' = release_buffer (Some b) c"
  shows "cache_inv contents c'" "cache_view contents c' = cache_view contents c"
    "slot_of c' = slot_of c" "cache_refs c' = (cache_refs c)(n := cache_refs c n - 1)"
    "cache_synced contents c' = cache_synced contents c" "device c' = device c" "hw c' = hw c"
proof -
  note core = cache_invD(1) [OF inv]
  have uniq: "unique_blocks c" using cache_coreD(3) [OF core] .
  have b: "b < NBUF" "b_valid (buf c b)" "b_block (buf c b) = n" using slot slot_of_Some [OF uniq] by auto
  have ref: "0 < b_refcnt (buf c b)" using pos slot by (simp add: cache_refs_def)
  note e = release_effect [OF cache_coreD(4) [OF core] b(1) ref rel]
  have p: "b_block (buf c' j) = b_block (buf c j)" "b_valid (buf c' j) = b_valid (buf c j)"
    "b_dirty (buf c' j) = b_dirty (buf c j)" "b_data (buf c' j) = b_data (buf c j)"
    "b_refcnt (buf c' j) = (if j = b then b_refcnt (buf c j) - 1 else b_refcnt (buf c j))" for j
    using e(2) [of j] by (simp_all add: payload_def split: if_splits)
  show slot': "slot_of c' = slot_of c" by (rule slot_of_cong) (simp_all add: p)
  have "unique_blocks c'" using uniq unique_blocks_cong [of c' c] by (simp add: p)
  then have "cache_core contents c'" using core e(1,3-5) by (simp add: cache_core_def)
  moreover have "buffer_ok contents c' j" if "j < NBUF" for j
    using cache_invD(2) [OF inv that] ref slot b syn
    by (auto simp: buffer_ok_def p e(3) cache_refs_def cache_synced_def)
  ultimately show "cache_inv contents c'" by (simp add: cache_inv_def)
  show "cache_view contents c' = cache_view contents c"
    by (simp add: cache_view_def slot' p e(3) fun_eq_iff split: option.splits)
  show "cache_synced contents c' = cache_synced contents c"
    by (auto simp: cache_synced_def slot' p e(3) fun_eq_iff split: option.splits)
  show "cache_refs c' = (cache_refs c)(n := cache_refs c n - 1)"
  proof
    fix m
    have "slot_of c m = Some b \<Longrightarrow> m = n" using b(3) slot_of_Some [OF uniq, of m b] by simp
    then show "cache_refs c' m = ((cache_refs c)(n := cache_refs c n - 1)) m"
      using slot ref by (cases "slot_of c m") (auto simp: cache_refs_def slot' p nat_diff_distrib)
  qed
  show "device c' = device c" "hw c' = hw c" using e by auto
qed


section \<open>The cache as a block store\<close>

definition store_inv :: "('d \<Rightarrow> u64 \<Rightarrow> bytes) \<Rightarrow> (u64 \<Rightarrow> bool) \<Rightarrow> 'd cache \<Rightarrow> bool" where
  "store_inv contents good c \<longleftrightarrow>
     cache_inv contents c \<and> reliable_on (device c) good \<and>
     (\<forall>m. slot_of c m \<noteq> None \<longrightarrow> good (ucast m))"

lemma store_invD:
  assumes "store_inv contents good c"
  shows "cache_inv contents c" "reliable_on (device c) good" "unique_blocks c" "lru_complete c"
    "slot_of c m = Some b \<Longrightarrow> good (ucast m)" "b < NBUF \<Longrightarrow> b < length (nodes c)"
    "cache_core contents c"
proof -
  show inv: "cache_inv contents c" "reliable_on (device c) good" "slot_of c m = Some b \<Longrightarrow> good (ucast m)"
    using assms by (simp_all add: store_inv_def)
  show core: "cache_core contents c" using cache_invD(1) [OF inv(1)] .
  show "unique_blocks c" "lru_complete c" "b < NBUF \<Longrightarrow> b < length (nodes c)"
    using cache_coreD(3,4,6) [OF core] by simp_all
qed

lemma held_slots:
  assumes "unique_blocks c"
  shows "held cache_refs c = (\<lambda>b. b_block (buf c b)) ` {b. b < NBUF \<and> b_valid (buf c b) \<and> 0 < b_refcnt (buf c b)}"
proof (intro set_eqI iffI)
  fix n assume "n \<in> held cache_refs c"
  then obtain b where s: "slot_of c n = Some b" and r: "0 < b_refcnt (buf c b)"
    by (auto simp: held_def cache_refs_def split: option.splits)
  from s have "b < NBUF" "b_valid (buf c b)" "b_block (buf c b) = n" using slot_of_Some [OF assms] by simp_all
  with r show "n \<in> (\<lambda>b. b_block (buf c b)) ` {b. b < NBUF \<and> b_valid (buf c b) \<and> 0 < b_refcnt (buf c b)}" by blast
next
  fix n assume "n \<in> (\<lambda>b. b_block (buf c b)) ` {b. b < NBUF \<and> b_valid (buf c b) \<and> 0 < b_refcnt (buf c b)}"
  then obtain b where b: "b < NBUF" "b_valid (buf c b)" "0 < b_refcnt (buf c b)" "n = b_block (buf c b)" by auto
  then have "slot_of c n = Some b" using slot_of_Some [OF assms] by simp
  with b show "n \<in> held cache_refs c" by (simp add: held_def cache_refs_def)
qed

text \<open>While fewer than \<open>NBUF\<close> blocks are held, a buffer can be reused.\<close>

lemma unused_exists:
  assumes inv: "cache_inv contents c" and "card (held cache_refs c) < NBUF"
  shows "find_unused c \<noteq> None"
proof
  note core = cache_invD(1) [OF inv]
  assume "find_unused c = None"
  then have "b_refcnt (buf c a) \<noteq> 0" if "a < NBUF" for a
    using find_unused_complete(2) [OF cache_coreD(4) [OF core]] that by blast
  then have all: "b_valid (buf c a) \<and> 0 < b_refcnt (buf c a)" if "a < NBUF" for a
    using cache_invD(2) [OF inv that] that by (fastforce simp: buffer_ok_def)
  then have "{b. b < NBUF \<and> b_valid (buf c b) \<and> 0 < b_refcnt (buf c b)} = {..<NBUF}" by auto
  moreover have "inj_on (\<lambda>b. b_block (buf c b)) {..<NBUF}"
    using cache_coreD(3) [OF core] all by (auto simp: inj_on_def unique_blocks_def)
  ultimately have "card (held cache_refs c) = NBUF"
    using held_slots [OF cache_coreD(3) [OF core]] by (simp add: card_image)
  with assms(2) show False by simp
qed

lemma read_succeeds:
  assumes inv: "store_inv contents good c" and n: "good (ucast n)" and room: "card (held cache_refs c) < NBUF"
  shows "fst (cache_read n c) \<noteq> None"
proof (cases "slot_of c n")
  case (Some b)
  with read_hit [OF store_invD(1) [OF inv] Some] show ?thesis by auto
next
  case None
  note cinv = store_invD(1) [OF inv] and core = store_invD(7) [OF inv]
  have lk: "lookup n c = None" using None lookup_slot [OF cache_coreD(4,3) [OF core]] by simp
  note miss = read_miss [OF lk cache_coreD(5) [OF core]]
  from unused_exists [OF cinv room] obtain b where fu: "find_unused c = Some b" by auto
  then have b: "b < NBUF" "b_refcnt (buf c b) = 0"
    using find_unused_complete(1) [OF cache_coreD(4) [OF core]] by auto
  have filled: "fst (fill b n c1) \<noteq> None"
    if "cache_inv contents c1" "slot_of c1 n = None" "b_refcnt (buf c1 b) = 0" "\<not> b_dirty (buf c1 b)"
      "device c1 = device c" for c1
    using fill_effect(9) [OF that(1,2) b(1) that(3,4), of "fst (fill b n c1)" "snd (fill b n c1)"]
      store_invD(2) [OF inv] n that(5) by (simp add: reliable_on_def)
  show ?thesis
  proof (cases "b_dirty (buf c b)")
    case False
    with miss(2) [OF fu b(1)] filled [OF cinv None b(2)] show ?thesis by simp
  next
    case True
    then have v: "b_valid (buf c b)" "length (b_data (buf c b)) = BLOCK_SIZE"
      using cache_invD(2) [OF cinv b(1)] by (auto simp: buffer_ok_def)
    have "slot_of c (b_block (buf c b)) = Some b" using slot_of_Some [OF store_invD(3) [OF inv]] b v by simp
    then have good: "good (ucast (b_block (buf c b)))" by (rule store_invD(5) [OF inv])
    then have "fst (write_back b c)"
      using store_invD(2) [OF inv] v(2) by (auto simp: write_back_def reliable_on_def split: prod.splits dest: spec)
        (metis fst_conv)
    then obtain c1 where w: "write_back b c = (True, c1)" by (cases "write_back b c") auto
    note we = write_back_effect [OF core b(1) v(2) w]
    have "fst (fill b n c1) \<noteq> None"
      using write_back_pins(1) [OF cinv b(1) v(1) w] write_back_invisible(3) [OF core b(1) v(2,1) w] None we b
      by (intro filled) simp_all
    with miss(4) [OF fu b(1) True w] we(3) cache_coreD(5) [OF core] show ?thesis by simp
  qed
qed

lemma store_acquire_some:
  assumes inv: "store_inv contents good c" and a: "BlockStore_acquire n c = (r, c')" and r: "\<not> BlockRef_not r"
  shows "r = \<lparr>br_number = n, br_has_store = True, br_data = Some (cache_loc c' n)\<rparr>"
    and "store_inv contents good c'" "cache_view contents c' = cache_view contents c"
    and "cache_refs c' = (cache_refs c)(n := Suc (cache_refs c n))"
    and "cache_refs c n = 0 \<longrightarrow> cache_synced contents c' n"
    and "\<forall>m. 0 < cache_refs c m \<longrightarrow> cache_loc c' m = cache_loc c m \<and>
           cache_synced contents c' m = cache_synced contents c m"
proof -
  obtain p where rd: "cache_read n c = (p, c')" and rp: "r = \<lparr>br_number = n, br_has_store = True, br_data = p\<rparr>"
    using a by (auto simp: BlockStore_acquire_def split: prod.splits)
  with r obtain b where p: "p = Some b" by (auto simp: BlockRef_not_def)
  note post = read_transparent [OF store_invD(1) [OF inv] rd, unfolded read_post_def p]
  show "r = \<lparr>br_number = n, br_has_store = True, br_data = Some (cache_loc c' n)\<rparr>"
    using post rp p by (simp add: cache_loc_def)
  have "good (ucast m)" if "slot_of c' m \<noteq> None" for m
  proof -
    from post that have "slot_of c m \<noteq> None \<or> m = n \<and> (\<exists>b d. fst (dev_read (device c) (ucast n) b d))"
      by blast
    then show ?thesis
      using store_invD(2,5) [OF inv] by (auto simp: reliable_on_def)
  qed
  then show "store_inv contents good c'" using post store_invD(2) [OF inv] by (simp add: store_inv_def)
  show "cache_view contents c' = cache_view contents c"
    "cache_refs c' = (cache_refs c)(n := Suc (cache_refs c n))"
    "cache_refs c n = 0 \<longrightarrow> cache_synced contents c' n"
    "\<forall>m. 0 < cache_refs c m \<longrightarrow> cache_loc c' m = cache_loc c m \<and>
           cache_synced contents c' m = cache_synced contents c m"
    using post by simp_all
qed

lemma store_acquire_none:
  assumes inv: "store_inv contents good c" and a: "BlockStore_acquire n c = (r, c')" and r: "BlockRef_not r"
  shows "store_inv contents good c' \<and> cache_view contents c' = cache_view contents c \<and>
    same_cache_pins contents c c'"
proof -
  have rd: "cache_read n c = (None, c')"
    using a r by (auto simp: BlockStore_acquire_def BlockRef_not_def split: prod.splits)
  note post = read_transparent [OF store_invD(1) [OF inv] rd, unfolded read_post_def]
  have "good (ucast m)" if "slot_of c' m \<noteq> None" for m
  proof -
    from post that have "slot_of c m \<noteq> None \<or> m = n \<and> (\<exists>b d. fst (dev_read (device c) (ucast n) b d))"
      by blast
    then show ?thesis
      using store_invD(2,5) [OF inv] by (auto simp: reliable_on_def)
  qed
  with post store_invD(2) [OF inv] show ?thesis by (simp add: store_inv_def)
qed

lemma held_slot:
  assumes "0 < cache_refs c n"
  obtains b where "slot_of c n = Some b" "cache_loc c n = b" "0 < b_refcnt (buf c b)"
  using assms by (auto simp: cache_refs_def cache_loc_def split: option.splits)

lemma store_store_held:
  assumes inv: "store_inv contents good c" and h: "0 < cache_refs c n" and d: "length d = BLOCK_SIZE"
    and c': "c' = upd_buf (cache_loc c n) (\<lambda>x. x\<lparr>b_data := d\<rparr>) c"
  shows "store_inv contents good c'" "cache_view contents c' = (cache_view contents c)(n := d)"
    "cache_refs c' = cache_refs c" "cache_loc c' = cache_loc c"
    "m \<noteq> n \<Longrightarrow> cache_synced contents c' m = cache_synced contents c m"
proof -
  note cinv = store_invD(1) [OF inv] and core = store_invD(7) [OF inv] and uniq = store_invD(3) [OF inv]
  from h obtain b where slot: "slot_of c n = Some b" and b: "cache_loc c n = b" and ref: "0 < b_refcnt (buf c b)"
    by (rule held_slot)
  have bb: "b < NBUF" "b_valid (buf c b)" "b_block (buf c b) = n" using slot slot_of_Some [OF uniq] by simp_all
  have bf: "buf c' j = (if j = b then (buf c j)\<lparr>b_data := d\<rparr> else buf c j)" for j
    using cache_coreD(6) [OF core bb(1)] by (simp add: c' b cache_simps)
  have fs: "hw c' = hw c" "device c' = device c" "initialized c' = initialized c"
    "length (nodes c') = length (nodes c)" by (simp_all add: c' cache_simps)
  have slot': "slot_of c' = slot_of c" by (rule slot_of_cong) (simp_all add: bf)
  have "unique_blocks c'" using uniq unique_blocks_cong [of c' c] by (simp add: bf)
  moreover have "lru_complete c'"
    using store_invD(4) [OF inv] lru_complete_cong [of c' c] by (simp add: bf fs)
  ultimately have "cache_core contents c'" using core by (simp add: cache_core_def fs)
  moreover have "buffer_ok contents c' j" if "j < NBUF" for j
    using cache_invD(2) [OF cinv that] d ref by (auto simp: buffer_ok_def bf fs)
  ultimately show "store_inv contents good c'"
    using store_invD(2,5) [OF inv] by (auto simp: store_inv_def cache_inv_def slot' fs)
  have only: "slot_of c m = Some b \<Longrightarrow> m = n" for m using bb slot_of_Some [OF uniq, of m b] by simp
  show "cache_view contents c' = (cache_view contents c)(n := d)"
  proof
    fix m
    show "cache_view contents c' m = ((cache_view contents c)(n := d)) m"
      using slot only [of m] by (cases "slot_of c m") (auto simp: cache_view_def slot' bf fs)
  qed
  show "cache_refs c' = cache_refs c" "cache_loc c' = cache_loc c"
    by (auto simp: cache_refs_def cache_loc_def slot' bf fun_eq_iff split: option.splits)
  show "m \<noteq> n \<Longrightarrow> cache_synced contents c' m = cache_synced contents c m"
    using only [of m] by (auto simp: cache_synced_def slot' bf fs split: option.splits)
qed

lemma store_write_back_held:
  assumes inv: "store_inv contents good c" and h: "0 < cache_refs c n" and w: "BlockStore_write_back n c = (ok, c')"
  shows "ok" "store_inv contents good c'" "cache_view contents c' = cache_view contents c"
    "cache_refs c' = cache_refs c" "cache_synced contents c' n" "cache_loc c' = cache_loc c"
    "m \<noteq> n \<Longrightarrow> cache_synced contents c' m = cache_synced contents c m"
proof -
  note cinv = store_invD(1) [OF inv] and core = store_invD(7) [OF inv] and uniq = store_invD(3) [OF inv]
  from h obtain b where slot: "slot_of c n = Some b" by (rule held_slot)
  have bb: "b < NBUF" "b_valid (buf c b)" "b_block (buf c b) = n" using slot slot_of_Some [OF uniq] by simp_all
  have wb: "write_back b c = (ok, c')"
    using w slot bb lookup_slot [OF store_invD(4,3) [OF inv]] by (simp add: BlockStore_write_back_def cache_write_def)
  have l: "length (b_data (buf c b)) = BLOCK_SIZE" using cache_invD(2) [OF cinv bb(1)] by (simp add: buffer_ok_def)
  note wp = write_back_pins [OF cinv bb(1,2) wb]
  note wi = write_back_invisible [OF core bb(1) l bb(2) wb]
  note we = write_back_effect [OF core bb(1) l wb]
  have "good (ucast n)" by (rule store_invD(5) [OF inv slot])
  then have "fst (dev_write (device c) (ucast n) (b_data (buf c b)) (hw c))"
    using store_invD(2) [OF inv] l by (simp add: reliable_on_def)
  then show ok: "ok" using wb bb by (auto simp: write_back_def split: prod.splits if_splits)
  have "\<forall>m. slot_of c m \<noteq> None \<longrightarrow> good (ucast m)" "reliable_on (device c) good"
    using inv by (simp_all add: store_inv_def)
  with wp(1) show "store_inv contents good c'" by (simp add: store_inv_def wi(3) we(4))
  show "cache_view contents c' = cache_view contents c" "cache_refs c' = cache_refs c"
    "cache_loc c' = cache_loc c" using wi wp by simp_all
  show "cache_synced contents c' n" using wp(6) [OF ok] bb by simp
  show "m \<noteq> n \<Longrightarrow> cache_synced contents c' m = cache_synced contents c m" using wp(4) bb by simp
qed

lemma store_release_held:
  assumes inv: "store_inv contents good c" and h: "0 < cache_refs c n"
    and syn: "cache_refs c n = 1 \<longrightarrow> cache_synced contents c n" and c': "c' = BlockStore_release n c"
  shows "store_inv contents good c'" "cache_view contents c' = cache_view contents c"
    "cache_refs c' = (cache_refs c)(n := cache_refs c n - 1)"
    "cache_loc c' = cache_loc c" "cache_synced contents c' = cache_synced contents c"
proof -
  from h obtain b where slot: "slot_of c n = Some b" by (rule held_slot)
  have rel: "c' = release_buffer (Some b) c"
    using c' slot lookup_slot [OF store_invD(4,3) [OF inv]] by (simp add: BlockStore_release_def)
  note e = release_transparent [OF store_invD(1) [OF inv] slot h syn rel]
  show "store_inv contents good c'"
    using e store_invD(2,5) [OF inv] by (auto simp: store_inv_def)
  show "cache_view contents c' = cache_view contents c"
    "cache_refs c' = (cache_refs c)(n := cache_refs c n - 1)"
    "cache_loc c' = cache_loc c" "cache_synced contents c' = cache_synced contents c"
    using e by (simp_all add: cache_loc_def fun_eq_iff)
qed

lemma BlockStore_fields [simp]:
  "st_acquire BlockStore = BlockStore_acquire" "st_write_back BlockStore = BlockStore_write_back"
  "st_release BlockStore = BlockStore_release" "st_load BlockStore p c = b_data (buf c p)"
  "st_store BlockStore p d c = upd_buf p (\<lambda>x. x\<lparr>b_data := d\<rparr>) c"
  by (simp_all add: BlockStore_def)

interpretation bc: store_contract BlockStore "store_inv contents good" "cache_view contents" cache_refs
    cache_loc "cache_synced contents" "\<lambda>n. good (ucast n)" NBUF
  for contents :: "'d \<Rightarrow> u64 \<Rightarrow> bytes" and good :: "u64 \<Rightarrow> bool"
proof (unfold_locales, goal_cases)
  case (1 s n)
  with read_succeeds [of contents good s n] show ?case
    by (auto simp: BlockStore_acquire_def BlockRef_not_def split: prod.splits)
next
  case (2 s n r s')
  from 2(2) have "BlockStore_acquire n s = (r, s')" by simp
  note a = store_acquire_some [OF 2(1) this 2(3)]
  show ?case by (intro conjI a)
next
  case (3 s n r s')
  then show ?case using store_acquire_none [of contents good s n r s'] by simp
next
  case (4 s n)
  from 4(2) obtain b where "slot_of s n = Some b" "cache_loc s n = b" by (rule held_slot)
  then show ?case by (simp add: cache_view_def)
next
  case (5 s n)
  show ?case
  proof (cases "slot_of s n")
    case None
    have "device_contract (device s) contents" using cache_coreD(2) [OF store_invD(7) [OF 5]] .
    with None show ?thesis by (simp add: cache_view_def device_contract_def BLOCK_SIZE_def)
  next
    case (Some b)
    then have "b < NBUF" using slot_of_Some [OF store_invD(3) [OF 5]] by simp
    with cache_invD(2) [OF store_invD(1) [OF 5]] Some show ?thesis
      by (auto simp: cache_view_def buffer_ok_def BLOCK_SIZE_def)
  qed
next
  case (6 s)
  then show ?case by (simp add: held_slots [OF store_invD(3)])
next
  case (7 s n d s')
  then show ?case using store_store_held [of contents good s n d s'] by (simp add: BLOCK_SIZE_def)
next
  case (8 s n ok s')
  then show ?case using store_write_back_held [of contents good s n ok s'] by simp
next
  case (9 s n s')
  then show ?case using store_release_held [of contents good s n s'] by simp
qed


section \<open>Initialisation\<close>

lemma init_buffer_effect:
  assumes "dll c xs" "b < NBUF" "b \<notin> set xs"
  shows "dll (init_buffer b c) (b # xs)"
    and "payload (buf (init_buffer b c) j) =
           payload (if j = b then (buf c j)\<lparr>b_block := 0, b_valid := False, b_dirty := False, b_refcnt := 0\<rparr> else buf c j)"
    and "hw (init_buffer b c) = hw c" "device (init_buffer b c) = device c"
proof -
  let ?c1 = "upd_buf b (\<lambda>x. x\<lparr>b_block := 0, b_valid := False, b_dirty := False, b_refcnt := 0\<rparr>) c"
  have len: "b < length (nodes c)" using assms by (simp add: dll_def)
  have d1: "dll ?c1 xs" using assms(1) len by (subst dll_cong [where c = c]) (simp_all add: cache_simps)
  note l = dll_link [OF d1 assms(2,3)]
  show "dll (init_buffer b c) (b # xs)" using l(1) by (simp add: init_buffer_def)
  show "payload (buf (init_buffer b c) j) =
           payload (if j = b then (buf c j)\<lparr>b_block := 0, b_valid := False, b_dirty := False, b_refcnt := 0\<rparr> else buf c j)"
    using l(2) len by (simp add: init_buffer_def relinked_def cache_simps)
  show "hw (init_buffer b c) = hw c" "device (init_buffer b c) = device c"
    using l(2) by (simp_all add: init_buffer_def relinked_def cache_simps)
qed

lemma init_buffers:
  assumes "dll c []" "k \<le> NBUF"
  shows "dll (fold init_buffer [0..<k] c) (rev [0..<k]) \<and>
    (\<forall>j. b_data (buf (fold init_buffer [0..<k] c) j) = b_data (buf c j)) \<and>
    (\<forall>j < k. \<not> b_valid (buf (fold init_buffer [0..<k] c) j) \<and> \<not> b_dirty (buf (fold init_buffer [0..<k] c) j) \<and>
       b_refcnt (buf (fold init_buffer [0..<k] c) j) = 0) \<and>
    hw (fold init_buffer [0..<k] c) = hw c \<and> device (fold init_buffer [0..<k] c) = device c"
  using assms(2)
proof (induction k)
  case 0
  with assms(1) show ?case by simp
next
  case (Suc k)
  define c1 where "c1 = fold init_buffer [0..<k] c"
  have IH: "dll c1 (rev [0..<k])" "\<forall>j. b_data (buf c1 j) = b_data (buf c j)" "hw c1 = hw c" "device c1 = device c"
    "\<forall>j < k. \<not> b_valid (buf c1 j) \<and> \<not> b_dirty (buf c1 j) \<and> b_refcnt (buf c1 j) = 0"
    using Suc by (simp_all add: c1_def)
  have step: "fold init_buffer [0..<Suc k] c = init_buffer k c1" by (simp add: c1_def)
  have k: "k < NBUF" "k \<notin> set (rev [0..<k])" using Suc by auto
  note e = init_buffer_effect [OF IH(1) k]
  have f: "b_data (buf (init_buffer k c1) j) = b_data (buf c1 j)"
    "b_valid (buf (init_buffer k c1) j) = (j \<noteq> k \<and> b_valid (buf c1 j))"
    "b_dirty (buf (init_buffer k c1) j) = (j \<noteq> k \<and> b_dirty (buf c1 j))"
    "b_refcnt (buf (init_buffer k c1) j) = (if j = k then 0 else b_refcnt (buf c1 j))" for j
    using e(2) [of j] by (simp_all add: payload_def split: if_splits)
  show ?case unfolding step using e IH f by (auto simp add: less_Suc_eq)
qed

lemma cache_initialize_static:
  assumes dv: "device_contract dv contents"
  obtains c where "cache_initialize dv (static_cache d) = (True, c)" "cache_inv contents c"
    "hw c = d" "device c = dv" "stats c = no_stats" "\<And>n. slot_of c n = None" "initialized c"
    "dll c (rev [0..<NBUF])"
proof -
  define c2 where "c2 = upd_buf HEAD (\<lambda>x. x\<lparr>b_prev := HEAD\<rparr>) (upd_buf HEAD (\<lambda>x. x\<lparr>b_next := HEAD\<rparr>)
    ((static_cache d)\<lparr>device := dv\<rparr>))"
  define c3 where "c3 = fold init_buffer [0..<NBUF] c2"
  define c where "c = c3\<lparr>stats := no_stats, initialized := True\<rparr>"
  have len: "length (nodes (static_cache d)) = Suc NBUF" by (simp add: static_cache_def)
  have dat: "j < NBUF \<Longrightarrow> length (b_data (buf (static_cache d) j)) = BLOCK_SIZE" for j
    by (simp add: static_cache_def buf_def nth_append)
  have b2: "buf c2 j = (if j = HEAD then (buf (static_cache d) j)\<lparr>b_next := HEAD, b_prev := HEAD\<rparr>
      else buf (static_cache d) j)" for j
    using len by (simp add: c2_def cache_simps)
  have d2: "dll c2 []" "hw c2 = d" "device c2 = dv" "\<And>j. j < NBUF \<Longrightarrow> length (b_data (buf c2 j)) = BLOCK_SIZE"
    using dat by (simp_all add: b2 dll_def) (simp_all add: c2_def cache_simps static_cache_def)
  note i = init_buffers [OF d2(1) order_refl, folded c3_def]
  have bc: "buf c = buf c3" "hw c = d" "device c = dv" "initialized c" "stats c = no_stats"
    using i d2 by (simp_all add: c_def cache_simps)
  have dll: "dll c (rev [0..<NBUF])" using i by (subst dll_cong [where c = c3]) (simp_all add: c_def cache_simps)
  from this have lru: "lru_complete c" unfolding lru_complete_def
    by (intro exI [of _ "rev [0..<NBUF]"]) auto
  have "unique_blocks c" using i by (simp add: unique_blocks_def bc)
  moreover have "buffer_ok contents c j" if "j < NBUF" for j
    using i d2(4) that by (simp add: buffer_ok_def bc)
  ultimately have inv: "cache_inv contents c"
    using dv lru by (simp add: cache_inv_def cache_core_def bc)
  have "cache_initialize dv (static_cache d) = (True, c)"
    using dv by (simp add: cache_initialize_def c_def c3_def c2_def Let_def static_cache_def device_contract_def)
  moreover have "slot_of c n = None" for n using i by (simp add: slot_of_None bc)
  ultimately show ?thesis using inv bc dll that by blast
qed


section \<open>Flush\<close>

lemma flush_from_effect:
  assumes "cache_inv contents c" "set bs \<subseteq> {..<NBUF}" "flush_from bs acc c = (ok, c')"
  shows "cache_inv contents c' \<and> cache_view contents c' = cache_view contents c \<and>
    cache_refs c' = cache_refs c \<and> (\<forall>m. cache_synced contents c m \<longrightarrow> cache_synced contents c' m) \<and>
    slot_of c' = slot_of c \<and> (ok \<longrightarrow> acc) \<and>
    (\<forall>j. b_dirty (buf c' j) \<longrightarrow> b_dirty (buf c j)) \<and> (ok \<longrightarrow> (\<forall>j \<in> set bs. \<not> b_dirty (buf c' j)))"
  using assms
proof (induction bs arbitrary: acc c)
  case Nil
  then show ?case by simp
next
  case (Cons b bs)
  have b: "b < NBUF" "set bs \<subseteq> {..<NBUF}" using Cons.prems(2) by auto
  note inv = Cons.prems(1) and core = cache_invD(1) [OF Cons.prems(1)]
  have ok_b: "buffer_ok contents c b" using cache_invD(2) [OF inv b(1)] .
  show ?case
  proof (cases "b_valid (buf c b) \<and> b_dirty (buf c b)")
    case False
    with Cons.prems(3) have f: "flush_from bs acc c = (ok, c')" by simp
    have "\<not> b_dirty (buf c b)" using False ok_b by (auto simp: buffer_ok_def)
    with Cons.IH [OF inv b(2) f] show ?thesis by auto
  next
    case True
    obtain ok1 c1 where w: "write_back b c = (ok1, c1)" by (cases "write_back b c") auto
    with Cons.prems(3) True have f: "flush_from bs (if \<not> ok1 then False else acc) c1 = (ok, c')" by simp
    have v: "b_valid (buf c b)" "length (b_data (buf c b)) = BLOCK_SIZE"
      using True ok_b by (auto simp: buffer_ok_def)
    note wp = write_back_pins [OF inv b(1) v(1) w]
    note we = write_back_effect [OF core b(1) v(2) w]
    note wi = write_back_invisible [OF core b(1) v(2,1) w]
    note IH = Cons.IH [OF wp(1) b(2) f]
    have "b_dirty (buf c' j) \<longrightarrow> b_dirty (buf c j)" for j using IH we(2) [of j] by (auto split: if_splits)
    moreover have "ok \<longrightarrow> \<not> b_dirty (buf c' b)" using IH we(2) [of b] by (auto split: if_splits)
    ultimately show ?thesis using IH wp(2,5) wi(2,3) by (auto split: if_splits)
  qed
qed

section \<open>The LRU order\<close>

text \<open>\<open>lru_list c\<close> is the order of the buffers from the most to the least recently used.\<close>

fun collect :: "('p \<Rightarrow> 'p) \<Rightarrow> 'p \<Rightarrow> nat \<Rightarrow> 'p \<Rightarrow> 'p list" where
  "collect nx stop 0 b = []"
| "collect nx stop (Suc fuel) b = (if b = stop then [] else b # collect nx stop fuel (nx b))"

lemma collect_chain:
  "chain nx a xs stop \<Longrightarrow> stop \<notin> set xs \<Longrightarrow> length xs < fuel \<Longrightarrow> collect nx stop fuel (nx a) = xs"
proof (induction xs arbitrary: a fuel)
  case Nil
  then show ?case by (cases fuel) auto
next
  case (Cons x xs)
  then obtain f where "fuel = Suc f" by (cases fuel) auto
  with Cons show ?case by auto
qed

definition lru_list :: "'d cache \<Rightarrow> nat list" where
  "lru_list c = collect (nxt c) HEAD (Suc NBUF) (nxt c HEAD)"

lemma lru_list_dll: "dll c xs \<Longrightarrow> lru_list c = xs"
  unfolding lru_list_def
  using dll_distinct [of c xs] dll_length [of c xs] by (intro collect_chain) (auto simp: dll_def)

lemma release_last_order:
  assumes "lru_complete c" "b < NBUF" "b_refcnt (buf c b) = 1"
  shows "lru_list (release_buffer (Some b) c) = b # remove1 b (lru_list c)"
proof -
  define c1 where "c1 = upd_buf b (\<lambda>x. x\<lparr>b_refcnt := b_refcnt x - 1\<rparr>) c"
  from assms(1) obtain xs where xs: "dll c xs" "set xs = {..<NBUF}" by (auto simp: lru_complete_def)
  have b: "b < length (nodes c)" using xs(1) assms(2) by (simp add: dll_def)
  have d1: "dll c1 xs" using xs(1) dll_cong [of c1 c xs] b by (simp add: c1_def cache_simps)
  have rel: "release_buffer (Some b) c = link_as_most_recent b (unlink b c1)"
    using assms(3) b by (simp add: release_buffer_def c1_def Let_def cache_simps)
  from xs(2) assms(2) obtain as bs where s: "xs = as @ b # bs" by (metis lessThan_iff split_list)
  have nin: "b \<notin> set as" "b \<notin> set (as @ bs)" using xs(1) by (auto simp: s dll_def)
  have "dll (link_as_most_recent b (unlink b c1)) (b # as @ bs)"
    using dll_link(1) [OF dll_unlink(1) [OF d1 [unfolded s]] assms(2) nin(2)] .
  then show ?thesis using lru_list_dll xs(1) rel nin(1) by (simp add: lru_list_dll s remove1_append)
qed

lemma find_unused_order:
  assumes "lru_complete c"
  shows "find_unused c = find (\<lambda>b. b_refcnt (buf c b) = 0) (rev (lru_list c))"
proof -
  from assms obtain xs where xs: "dll c xs" by (auto simp: lru_complete_def)
  have "find_unused c = find (\<lambda>b. \<not> b_refcnt (buf c b) \<noteq> 0) (rev xs)"
    unfolding find_unused_def using xs dll_distinct [OF xs] dll_length [OF xs]
    by (intro walk_chain) (auto simp: dll_def)
  then show ?thesis by (simp add: lru_list_dll [OF xs])
qed

section \<open>A RAM disk\<close>

text \<open>A concrete device of 2048 sectors, used to show that the hypotheses can be met.\<close>

definition ram_contents :: "(u64 \<Rightarrow> bytes) \<Rightarrow> u64 \<Rightarrow> bytes" where
  "ram_contents d n = take BLOCK_SIZE (d n @ replicate BLOCK_SIZE 0)"

definition ram_good :: "u64 \<Rightarrow> bool" where
  "ram_good n \<longleftrightarrow> n < 2048"

definition ram_device :: "(u64 \<Rightarrow> bytes) BlockDevice" where
  "ram_device =
     \<lparr>dv_read_block = Some (\<lambda>n b d. if ram_good n then (True, ram_contents d n, d) else (False, b, d)),
      dv_write_block = Some (\<lambda>n b d. if ram_good n then (True, d(n := b)) else (False, d))\<rparr>"

lemma ram_contract: "device_contract ram_device ram_contents"
  by (auto simp: device_contract_def ram_device_def dev_read_def dev_write_def ram_contents_def fun_eq_iff
      split: if_splits)

lemma ram_reliable: "reliable_on ram_device ram_good"
  by (simp add: reliable_on_def ram_device_def dev_read_def dev_write_def)

definition ram_cache :: "(u64 \<Rightarrow> bytes) cache" where
  "ram_cache = snd (cache_initialize ram_device (static_cache (\<lambda>_. replicate BLOCK_SIZE 0)))"

lemma ram_cache_props:
  shows "cache_inv ram_contents ram_cache" "store_inv ram_contents ram_good ram_cache"
    "cache_refs ram_cache n = 0" "slot_of ram_cache n = None" "hw ram_cache = (\<lambda>_. replicate BLOCK_SIZE 0)"
    "cache_view ram_contents ram_cache n = replicate BLOCK_SIZE 0"
proof -
  obtain c where c: "cache_initialize ram_device (static_cache (\<lambda>_. replicate BLOCK_SIZE 0)) = (True, c)"
    "cache_inv ram_contents c" "hw c = (\<lambda>_. replicate BLOCK_SIZE 0)" "device c = ram_device"
    "\<And>n. slot_of c n = None"
    using cache_initialize_static [OF ram_contract] by metis
  then have eq: "ram_cache = c" by (simp add: ram_cache_def)
  show "cache_inv ram_contents ram_cache" "slot_of ram_cache n = None" "hw ram_cache = (\<lambda>_. replicate BLOCK_SIZE 0)"
    using c eq by simp_all
  show "store_inv ram_contents ram_good ram_cache"
    using c eq ram_reliable by (simp add: store_inv_def)
  show "cache_refs ram_cache n = 0" "cache_view ram_contents ram_cache n = replicate BLOCK_SIZE 0"
    using c eq by (simp_all add: cache_refs_def cache_view_def ram_contents_def)
qed

section \<open>Properties\<close>

text \<open>
  C2. The buffer cache is transparent. Whatever path \<open>BufferCache::read\<close> takes (hit, reuse of an
  idle buffer, eviction of a dirty buffer with write-back, failed write-back, failed device read,
  all buffers in use), the contents every client sees are unchanged and the invariant is kept; when
  it returns a buffer, that buffer is valid, belongs to the requested block and holds its current
  contents, and its reference count went up by one. The device may fail at any call.
\<close>

theorem cache_read_transparent:
  assumes "cache_inv contents c" and "cache_read n c = (r, c')"
  shows "cache_inv contents c' \<and> cache_view contents c' = cache_view contents c \<and>
    (case r of
       None \<Rightarrow> cache_refs c' = cache_refs c
     | Some b \<Rightarrow> b < NBUF \<and> b_valid (buf c' b) \<and> b_block (buf c' b) = n \<and>
         b_data (buf c' b) = cache_view contents c n \<and>
         cache_refs c' = (cache_refs c)(n := Suc (cache_refs c n)))"
proof -
  note post = read_transparent [OF assms, unfolded read_post_def]
  have inv: "cache_inv contents c'" and view: "cache_view contents c' = cache_view contents c"
    using post by simp_all
  have uniq: "unique_blocks c'" using cache_coreD(3) [OF cache_invD(1) [OF inv]] .
  show ?thesis
  proof (cases r)
    case None
    with post inv view show ?thesis by (simp add: same_pins_def)
  next
    case (Some b)
    then have s: "slot_of c' n = Some b" and refs: "cache_refs c' = (cache_refs c)(n := Suc (cache_refs c n))"
      using post by simp_all
    have "cache_view contents c' n = b_data (buf c' b)" using s by (simp add: cache_view_def)
    with Some refs view inv s slot_of_Some [OF uniq, of n b] show ?thesis by simp
  qed
qed

theorem cache_read_transparent_witness:
  "cache_inv ram_contents ram_cache \<and>
   cache_view ram_contents (snd (cache_read 7 ram_cache)) = cache_view ram_contents ram_cache \<and>
   cache_inv ram_contents (snd (cache_read 7 ram_cache))"
  using cache_read_transparent [OF ram_cache_props(1), of 7 "fst (cache_read 7 ram_cache)" "snd (cache_read 7 ram_cache)"]
    ram_cache_props(1) by simp

text \<open>
  \<open>BufferCache::initialize\<close> on the statically initialised cache succeeds exactly when both
  function pointers are set; it then establishes the invariant over the unchanged medium with no
  block cached or referenced, and every later call is refused and changes nothing.
\<close>

theorem cache_initialize_correct:
  assumes "device_contract dv contents"
  shows "\<exists>c. cache_initialize dv (static_cache d) = (True, c) \<and> cache_inv contents c \<and>
    (\<forall>n. cache_view contents c n = contents d (ucast n)) \<and> (\<forall>n. cache_refs c n = 0) \<and>
    stats c = no_stats \<and> lru_list c = rev [0..<NBUF] \<and>
    (\<forall>dv'. cache_initialize dv' c = (False, c))"
proof -
  obtain c where c: "cache_initialize dv (static_cache d) = (True, c)" "cache_inv contents c"
    "hw c = d" "device c = dv" "stats c = no_stats" "\<And>n. slot_of c n = None" "initialized c"
    "dll c (rev [0..<NBUF])"
    using cache_initialize_static [OF assms, of d] by metis
  then have "\<forall>n. cache_view contents c n = contents d (ucast n)" "\<forall>n. cache_refs c n = 0"
    by (simp_all add: cache_view_def cache_refs_def)
  with c show ?thesis by (intro exI [of _ c]) (simp add: cache_initialize_def lru_list_dll)
qed

theorem cache_initialize_correct_witness:
  "\<exists>c. cache_initialize ram_device (static_cache (\<lambda>_. [])) = (True, c) \<and> cache_inv ram_contents c"
  using cache_initialize_correct [OF ram_contract, of "\<lambda>_. []"] by auto

text \<open>
  C3. Durability of \<open>BufferCache::flush\<close>: it never changes what clients see, and when it returns
  true no buffer is dirty any more, so every block whose cached bytes were either marked dirty or in
  step with the medium is on the medium exactly as the clients see it.
\<close>

theorem flush_durable:
  assumes "cache_inv contents c" and "flush c = (ok, c')"
  shows "cache_inv contents c' \<and> cache_view contents c' = cache_view contents c \<and>
    cache_refs c' = cache_refs c \<and>
    (ok \<longrightarrow> (\<forall>b < NBUF. \<not> b_dirty (buf c' b)) \<and>
       (\<forall>n. cache_synced contents c n \<longrightarrow> contents (hw c') (ucast n) = cache_view contents c n))"
proof -
  have f: "flush_from [0..<NBUF] True c = (ok, c')" using assms(2) by (simp add: flush_def)
  have sub: "set [0..<NBUF] \<subseteq> {..<NBUF}" by auto
  note e = flush_from_effect [OF assms(1) sub f]
  have e': "cache_inv contents c'" "cache_view contents c' = cache_view contents c" "cache_refs c' = cache_refs c"
    "\<And>m. cache_synced contents c m \<Longrightarrow> cache_synced contents c' m" "ok \<Longrightarrow> \<forall>j < NBUF. \<not> b_dirty (buf c' j)"
    using e by auto
  have "contents (hw c') (ucast n) = cache_view contents c n" if "ok" "cache_synced contents c n" for n
  proof (cases "slot_of c' n")
    case None
    then show ?thesis using e'(2) by (metis cache_view_def option.simps(4))
  next
    case (Some b)
    then have "b < NBUF" using slot_of_Some [OF cache_coreD(3) [OF cache_invD(1) [OF e'(1)]]] by simp
    then have "\<not> b_dirty (buf c' b)" using e'(5) that by simp
    with e'(4) [OF that(2)] Some have "contents (hw c') (ucast n) = cache_view contents c' n"
      by (simp add: cache_synced_def cache_view_def)
    then show ?thesis by (simp add: e'(2))
  qed
  with e' show ?thesis by blast
qed

theorem flush_durable_witness:
  "cache_inv ram_contents ram_cache \<and>
   cache_view ram_contents (snd (flush ram_cache)) = cache_view ram_contents ram_cache"
  using flush_durable [OF ram_cache_props(1), of "fst (flush ram_cache)" "snd (flush ram_cache)"]
    ram_cache_props(1) by simp

text \<open>
  C4. The pointer-linked list implements least-recently-used replacement: the last release of a
  buffer moves it to the front of the order and shifts the others without reordering them, and the
  buffer reused on a miss is the idle one that comes last in the order.
\<close>

theorem lru_policy:
  assumes "cache_inv contents c" and "b < NBUF"
  shows "(b_refcnt (buf c b) = 1 \<longrightarrow>
      lru_list (release_buffer (Some b) c) = b # remove1 b (lru_list c)) \<and>
    (b_refcnt (buf c b) > 1 \<longrightarrow> lru_list (release_buffer (Some b) c) = lru_list c) \<and>
    find_unused c = find (\<lambda>j. b_refcnt (buf c j) = 0) (rev (lru_list c)) \<and>
    distinct (lru_list c) \<and> set (lru_list c) = {..<NBUF}"
proof -
  have lru: "lru_complete c" and len: "b < length (nodes c)"
    using cache_coreD(4,6) [OF cache_invD(1) [OF assms(1)]] assms(2) by auto
  then obtain xs where xs: "dll c xs" "set xs = {..<NBUF}" by (auto simp: lru_complete_def)
  have "b_refcnt (buf c b) > 1 \<Longrightarrow> dll (release_buffer (Some b) c) xs"
    using xs(1) len
    by (subst dll_cong [where c = c]) (simp_all add: release_buffer_def Let_def cache_simps)
  then show ?thesis
    using release_last_order [OF lru assms(2)] find_unused_order [OF lru] xs lru_list_dll
    by (auto simp: lru_list_dll [OF xs(1)] dll_def)
qed

theorem lru_policy_witness:
  "find_unused ram_cache = find (\<lambda>j. b_refcnt (buf ram_cache j) = 0) (rev (lru_list ram_cache)) \<and>
   set (lru_list ram_cache) = {..<NBUF}"
  using lru_policy [OF ram_cache_props(1), of 0] by (simp add: NBUF_def)

section \<open>Owning references to buffers\<close>

text \<open>
  \<open>BufferRef\<close>, the owner of one reference to a buffer: a pointer, \<open>None\<close> when empty. \<open>BufferRef_assign\<close> is the
  move assignment; \<open>self\<close> says that both sides are the same object.
\<close>

type_synonym BufferRef = "nat option"

definition BufferRef_reset :: "BufferRef \<Rightarrow> 'd cache \<Rightarrow> BufferRef \<times> 'd cache" where
  "BufferRef_reset r c = (case r of None \<Rightarrow> (None, c) | Some b \<Rightarrow> (None, release_buffer (Some b) c))"

definition BufferRef_move :: "BufferRef \<Rightarrow> BufferRef \<times> BufferRef" where
  "BufferRef_move other = (other, None)"

definition BufferRef_assign :: "bool \<Rightarrow> BufferRef \<Rightarrow> BufferRef \<Rightarrow> 'd cache \<Rightarrow> BufferRef \<times> BufferRef \<times> 'd cache" where
  "BufferRef_assign self r other c =
     (if self then (r, other, c) else (case BufferRef_reset r c of (_, c1) \<Rightarrow> case BufferRef_move other of (r1, other1) \<Rightarrow> (r1, other1, c1)))"

definition BufferRef_acquire :: "u32 \<Rightarrow> 'd cache \<Rightarrow> BufferRef \<times> 'd cache" where
  "BufferRef_acquire n c = cache_read n c"

text \<open>A reference that is taken and dropped leaves no trace but in the cache itself, and a second drop does nothing.\<close>

lemma BufferRef_balanced:
  assumes inv: "cache_inv contents c" and a: "BufferRef_acquire n c = (Some b, c1)" and free: "cache_refs c n = 0"
    and r: "BufferRef_reset (Some b) c1 = (r, c2)"
  shows "r = None" "cache_inv contents c2" "cache_refs c2 = cache_refs c" "cache_view contents c2 = cache_view contents c"
    "BufferRef_reset r c2 = (None, c2)"
proof -
  note post = read_transparent [OF inv a [unfolded BufferRef_acquire_def], unfolded read_post_def]
  have slot: "slot_of c1 n = Some b" "cache_inv contents c1" "cache_refs c1 = (cache_refs c)(n := Suc (cache_refs c n))"
    "cache_view contents c1 = cache_view contents c" "cache_refs c n = 0 \<longrightarrow> cache_synced contents c1 n" using post by simp_all
  have rel: "c2 = release_buffer (Some b) c1" and rn: "r = None" using r by (simp_all add: BufferRef_reset_def)
  have "0 < cache_refs c1 n" "cache_refs c1 n = 1 \<longrightarrow> cache_synced contents c1 n" using slot(3,5) free by simp_all
  note e = release_transparent [OF slot(2,1) this rel]
  show "r = None" "BufferRef_reset r c2 = (None, c2)" using rn by (simp_all add: BufferRef_reset_def)
  show "cache_inv contents c2" "cache_view contents c2 = cache_view contents c" using e(1,2) slot(4) by simp_all
  show "cache_refs c2 = cache_refs c" using e(4) slot(3) by simp
qed

end
