(* ===== verification/File_System.thy ===== *)
theory File_System
  imports Buffer_Cache
begin

text \<open>
  The file-system core (\<open>include/file_system.hpp\<close>, \<open>include/file_system.cpp\<close>,
  \<open>include/file_system_internal.cpp\<close>): the on-disk structures and their byte layout, the superblock,
  the block bitmap with \<open>allocate_block\<close> and \<open>free_block\<close>, the disk inodes, \<open>format\<close> and \<open>initialize\<close>.
  The client lemmas are proved once in \<open>store_contract\<close>; the properties are their instances on the
  buffer cache.
\<close>

section \<open>On-disk data\<close>

definition FS_MAGIC :: u32 where "FS_MAGIC = 0x10203040"
definition FSBLOCK_SIZE :: u32 where "FSBLOCK_SIZE = 512"
definition NDIRECT :: u32 where "NDIRECT = 12"
definition INDIRECT_INDEX :: nat where "INDIRECT_INDEX = 12"
definition NINDIRECT :: u32 where "NINDIRECT = FSBLOCK_SIZE div 4"
definition MAXFILE :: u32 where "MAXFILE = NDIRECT + NINDIRECT"
definition DIRECTORY_NAME_SIZE :: nat where "DIRECTORY_NAME_SIZE = 14"
definition INODES_PER_BLOCK :: u32 where "INODES_PER_BLOCK = FSBLOCK_SIZE div 64"
definition BITS_PER_BYTE :: u32 where "BITS_PER_BYTE = 8"
definition BLOCKS_PER_BITMAP_BLOCK :: u32 where "BLOCKS_PER_BITMAP_BLOCK = FSBLOCK_SIZE * BITS_PER_BYTE"
definition ROOT_INODE :: u32 where "ROOT_INODE = 1"

named_theorems fs_consts \<open>the numeric constants of the file system\<close>
lemmas [fs_consts] =
  FS_MAGIC_def FSBLOCK_SIZE_def NDIRECT_def INDIRECT_INDEX_def NINDIRECT_def MAXFILE_def
  DIRECTORY_NAME_SIZE_def INODES_PER_BLOCK_def BITS_PER_BYTE_def BLOCKS_PER_BITMAP_BLOCK_def ROOT_INODE_def

text \<open>
  \<open>enum class InodeType : uint16_t\<close>: every 16-bit value is a value of the type (a damaged disk may
  hold one), so the type is the word and the enumerators are names.
\<close>

type_synonym InodeType = u16
definition kUnused :: InodeType where "kUnused = 0"
definition kDirectory :: InodeType where "kDirectory = 1"
definition kFile :: InodeType where "kFile = 2"

record SuperBlock =
  sb_magic :: u32
  sb_size :: u32
  sb_nblocks :: u32
  sb_ninodes :: u32
  sb_inode_start :: u32
  sb_bitmap_start :: u32

record DiskInode =
  di_type :: InodeType
  di_major :: u16
  di_minor :: u16
  di_nlink :: u16
  di_size :: u32
  di_addrs :: "u32 list"

record DirectoryEntry =
  de_inode_number :: u16
  de_name :: bytes

text \<open>Byte layout: the \<open>reinterpret_cast\<close>s of the sources, in both directions.\<close>

definition SuperBlock_at :: "bytes \<Rightarrow> SuperBlock" where
  "SuperBlock_at d =
     \<lparr>sb_magic = le_word (slice 0 4 d), sb_size = le_word (slice 4 4 d), sb_nblocks = le_word (slice 8 4 d),
      sb_ninodes = le_word (slice 12 4 d), sb_inode_start = le_word (slice 16 4 d),
      sb_bitmap_start = le_word (slice 20 4 d)\<rparr>"

definition SuperBlock_bytes :: "SuperBlock \<Rightarrow> bytes" where
  "SuperBlock_bytes b =
     le_bytes 4 (sb_magic b) @ le_bytes 4 (sb_size b) @ le_bytes 4 (sb_nblocks b) @
     le_bytes 4 (sb_ninodes b) @ le_bytes 4 (sb_inode_start b) @ le_bytes 4 (sb_bitmap_start b)"

definition DiskInode_at :: "nat \<Rightarrow> bytes \<Rightarrow> DiskInode" where
  "DiskInode_at off d =
     \<lparr>di_type = le_word (slice off 2 d), di_major = le_word (slice (off + 2) 2 d),
      di_minor = le_word (slice (off + 4) 2 d), di_nlink = le_word (slice (off + 6) 2 d),
      di_size = le_word (slice (off + 8) 4 d),
      di_addrs = map (\<lambda>i. le_word (slice (off + 12 + 4 * i) 4 d)) [0..<13]\<rparr>"

definition DiskInode_bytes :: "DiskInode \<Rightarrow> bytes" where
  "DiskInode_bytes i =
     le_bytes 2 (di_type i) @ le_bytes 2 (di_major i) @ le_bytes 2 (di_minor i) @ le_bytes 2 (di_nlink i) @
     le_bytes 4 (di_size i) @ concat (map (le_bytes 4) (di_addrs i))"

definition DirectoryEntry_at :: "nat \<Rightarrow> bytes \<Rightarrow> DirectoryEntry" where
  "DirectoryEntry_at off d = \<lparr>de_inode_number = le_word (slice off 2 d), de_name = slice (off + 2) 14 d\<rparr>"

definition DirectoryEntry_bytes :: "DirectoryEntry \<Rightarrow> bytes" where
  "DirectoryEntry_bytes e = le_bytes 2 (de_inode_number e) @ de_name e"

definition DiskInode_zero :: DiskInode where
  "DiskInode_zero =
     \<lparr>di_type = kUnused, di_major = 0, di_minor = 0, di_nlink = 0, di_size = 0, di_addrs = replicate 13 0\<rparr>"

section \<open>State and operations\<close>

text \<open>
  \<open>State fs\<close>. The store behind the pointer has its state in \<open>fs_st\<close>; \<open>fs_console\<close> says whether a
  console was given and \<open>fs_log\<close> is what was printed on it. \<open>fs_diverged\<close> is not a variable of the
  program: it records that the scan of \<open>allocate_block\<close> stepped past \<open>2 ^ 32\<close> and so starts over
  without end, which the properties exclude.
\<close>

record 's fs =
  fs_store :: "'s IBlockStore"
  fs_st :: 's
  fs_sb :: SuperBlock
  fs_console :: bool
  fs_log :: "string list"
  fs_diverged :: bool

definition lift_store :: "('s IBlockStore \<Rightarrow> 's \<Rightarrow> 'a \<times> 's) \<Rightarrow> 's fs \<Rightarrow> 'a \<times> 's fs" where
  "lift_store f s = (case f (fs_store s) (fs_st s) of (r, t) \<Rightarrow> (r, s\<lparr>fs_st := t\<rparr>))"

definition bitmap_block :: "SuperBlock \<Rightarrow> u32 \<Rightarrow> u32" where
  "bitmap_block sb block_number = sb_bitmap_start sb + block_number div BLOCKS_PER_BITMAP_BLOCK"

definition inode_block :: "SuperBlock \<Rightarrow> u32 \<Rightarrow> u32" where
  "inode_block sb inode_number = sb_inode_start sb + inode_number div INODES_PER_BLOCK"

definition load_superblock :: "'s fs \<Rightarrow> bool \<times> 's fs" where
  "load_superblock s =
     (case lift_store (\<lambda>bs. scoped_read bs 1) s of
        (None, s1) \<Rightarrow> (False, s1)
      | (Some d, s1) \<Rightarrow>
          let s2 = s1\<lparr>fs_sb := SuperBlock_at d\<rparr>
          in (sb_magic (fs_sb s2) = FS_MAGIC, s2))"

definition zero_block :: "u32 \<Rightarrow> 's fs \<Rightarrow> bool \<times> 's fs" where
  "zero_block block_number = lift_store (\<lambda>bs. scoped_update bs block_number (\<lambda>_. replicate (unat FSBLOCK_SIZE) 0))"

definition bit_mask :: "u32 \<Rightarrow> u8" where
  "bit_mask bit_index = push_bit (unat (bit_index mod BITS_PER_BYTE)) 1"

definition set_bit_at :: "u32 \<Rightarrow> bytes \<Rightarrow> bytes" where
  "set_bit_at bit_index d = upd_at (unat (bit_index div BITS_PER_BYTE)) (\<lambda>x. x OR bit_mask bit_index) d"

definition clear_bit_at :: "u32 \<Rightarrow> bytes \<Rightarrow> bytes" where
  "clear_bit_at bit_index d = upd_at (unat (bit_index div BITS_PER_BYTE)) (\<lambda>x. x AND NOT (bit_mask bit_index)) d"

definition mark_block_used :: "u32 \<Rightarrow> 's fs \<Rightarrow> bool \<times> 's fs" where
  "mark_block_used block_number s =
     lift_store (\<lambda>bs. scoped_update bs (bitmap_block (fs_sb s) block_number)
       (set_bit_at (block_number mod BLOCKS_PER_BITMAP_BLOCK))) s"

definition write_disk_inode :: "u32 \<Rightarrow> DiskInode \<Rightarrow> 's fs \<Rightarrow> bool \<times> 's fs" where
  "write_disk_inode inode_number inode s =
     lift_store (\<lambda>bs. scoped_update bs (inode_block (fs_sb s) inode_number)
       (splice (unat (inode_number mod INODES_PER_BLOCK) * 64) (DiskInode_bytes inode))) s"

definition get_disk_inode :: "u32 \<Rightarrow> 's fs \<Rightarrow> DiskInode option \<times> 's fs" where
  "get_disk_inode inode_number s =
     (case lift_store (\<lambda>bs. scoped_read bs (inode_block (fs_sb s) inode_number)) s of
        (None, s1) \<Rightarrow> (None, s1)
      | (Some d, s1) \<Rightarrow> (Some (DiskInode_at (unat (inode_number mod INODES_PER_BLOCK) * 64) d), s1))"

text \<open>The inner loop of \<open>allocate_block\<close>: the first clear bit of one bitmap block.\<close>

function first_free :: "bytes \<Rightarrow> u32 \<Rightarrow> u32 \<Rightarrow> u32 \<Rightarrow> u32 option" where
  "first_free bitmap base sz offset =
     (if offset < BLOCKS_PER_BITMAP_BLOCK \<and> base + offset < sz
      then if bitmap ! unat (offset div BITS_PER_BYTE) AND bit_mask offset = 0 then Some offset
           else first_free bitmap base sz (offset + 1)
      else None)"
  by pat_completeness auto
termination
  by (relation "measure (\<lambda>(_, _, _, offset). unat BLOCKS_PER_BITMAP_BLOCK - unat offset)") auto

declare first_free.simps [simp del]

text \<open>
  The body of the outer loop once \<open>block\<close> is acquired: \<open>Inl\<close> is a \<open>return\<close>, \<open>Inr\<close> goes on with the
  next bitmap block; the destructor of \<open>block\<close> runs on every way out.
\<close>

definition allocate_in_block :: "u32 \<Rightarrow> 's fs \<Rightarrow> (u32 option + unit) \<times> 's fs" where
  "allocate_in_block base s =
     (let bs = fs_store s in
      case st_acquire bs (bitmap_block (fs_sb s) base) (fs_st s) of
        (block, t1) \<Rightarrow>
          if BlockRef_not block then (Inl None, s\<lparr>fs_st := BlockRef_destroy bs block t1\<rparr>)
          else
            (case first_free (block_data bs block t1) base (sb_size (fs_sb s)) 0 of
               None \<Rightarrow> (Inr (), s\<lparr>fs_st := BlockRef_destroy bs block t1\<rparr>)
             | Some offset \<Rightarrow>
                 let t2 = set_block_data bs block (set_bit_at offset (block_data bs block t1)) t1
                 in (case BlockRef_write_back bs block t2 of
                       (False, t3) \<Rightarrow> (Inl None, s\<lparr>fs_st := BlockRef_destroy bs block t3\<rparr>)
                     | (True, t3) \<Rightarrow>
                         let (block', t4) = BlockRef_reset bs block t3
                         in (case zero_block (base + offset) (s\<lparr>fs_st := t4\<rparr>) of
                               (zeroed, s5) \<Rightarrow>
                                 (Inl (if \<not> zeroed then None else Some (base + offset)),
                                  s5\<lparr>fs_st := BlockRef_destroy bs block' (fs_st s5)\<rparr>)))))"

text \<open>
  The outer loop, \<open>base.value += BLOCKS_PER_BITMAP_BLOCK\<close> on 32 bits. When the sum wraps, the
  program is back at \<open>base = 0\<close>; the model stops there and raises \<open>fs_diverged\<close>.
\<close>

function allocate_from :: "u32 \<Rightarrow> 's fs \<Rightarrow> u32 option \<times> 's fs" where
  "allocate_from base s =
     (if base < sb_size (fs_sb s)
      then (case allocate_in_block base s of
              (Inl r, s1) \<Rightarrow> (r, s1)
            | (Inr _, s1) \<Rightarrow>
                if base < base + BLOCKS_PER_BITMAP_BLOCK
                then allocate_from (base + BLOCKS_PER_BITMAP_BLOCK) s1
                else (None, s1\<lparr>fs_diverged := True\<rparr>))
      else (None, s))"
  by pat_completeness auto
termination
  by (relation "measure (\<lambda>(base, _). 2 ^ 32 - unat base)")
    (use word_less_top_measure [where 'a = 32] in auto)

declare allocate_from.simps [simp del]

definition allocate_block :: "'s fs \<Rightarrow> u32 option \<times> 's fs" where
  "allocate_block = allocate_from 0"

definition free_block :: "u32 \<Rightarrow> 's fs \<Rightarrow> 's fs" where
  "free_block block_number s =
     snd (lift_store (\<lambda>bs. scoped_update bs (bitmap_block (fs_sb s) block_number)
       (clear_bit_at (block_number mod BLOCKS_PER_BITMAP_BLOCK))) s)"

text \<open>
  \<open>memset(name, 0, 14); memcpy(name, source, length)\<close> with \<open>length = min(strlen(source), 14)\<close>. A C string
  is the list of its bytes before the terminator.
\<close>

definition pad_name :: "bytes \<Rightarrow> bytes" where
  "pad_name name =
     (let len = min (length name) DIRECTORY_NAME_SIZE
      in splice 0 (take len name) (replicate DIRECTORY_NAME_SIZE 0))"

definition add_root_entry :: "DiskInode \<Rightarrow> u32 \<Rightarrow> bytes \<Rightarrow> 's fs \<Rightarrow> bool \<times> DiskInode \<times> 's fs" where
  "add_root_entry root inode_number name s =
     (case (if di_addrs root ! 0 = 0
            then (case allocate_block s of
                    (None, s1) \<Rightarrow> (None, s1)
                  | (Some b, s1) \<Rightarrow> (Some (root\<lparr>di_addrs := (di_addrs root)[0 := b]\<rparr>), s1))
            else (Some root, s)) of
        (None, s1) \<Rightarrow> (False, root, s1)
      | (Some root1, s1) \<Rightarrow>
          let bs = fs_store s1 in
          (case st_acquire bs (di_addrs root1 ! 0) (fs_st s1) of
             (block, t1) \<Rightarrow>
               if BlockRef_not block then (False, root1, s1\<lparr>fs_st := BlockRef_destroy bs block t1\<rparr>)
               else
                 let d = block_data bs block t1;
                     capacity = unat FSBLOCK_SIZE div 16
                 in (case find (\<lambda>i. de_inode_number (DirectoryEntry_at (16 * i) d) = 0) [0..<capacity] of
                       None \<Rightarrow> (False, root1, s1\<lparr>fs_st := BlockRef_destroy bs block t1\<rparr>)
                     | Some i \<Rightarrow>
                         let e = \<lparr>de_inode_number = ucast inode_number, de_name = pad_name name\<rparr>;
                             t2 = set_block_data bs block (splice (16 * i) (DirectoryEntry_bytes e) d) t1
                         in (case BlockRef_write_back bs block t2 of
                               (False, t3) \<Rightarrow> (False, root1, s1\<lparr>fs_st := BlockRef_destroy bs block t3\<rparr>)
                             | (True, t3) \<Rightarrow>
                                 (True, root1\<lparr>di_size := di_size root1 + 16\<rparr>,
                                  s1\<lparr>fs_st := BlockRef_destroy bs block t3\<rparr>)))))"

text \<open>\<open>for (b = from; b < to; b++) if (!f(b)) return false;\<close>\<close>

function for_blocks :: "(u32 \<Rightarrow> 's \<Rightarrow> bool \<times> 's) \<Rightarrow> u32 \<Rightarrow> u32 \<Rightarrow> 's \<Rightarrow> bool \<times> 's" where
  "for_blocks f b to s =
     (if b < to
      then (case f b s of (False, s1) \<Rightarrow> (False, s1) | (True, s1) \<Rightarrow> for_blocks f (b + 1) to s1)
      else (True, s))"
  by pat_completeness auto
termination
  by (relation "measure (\<lambda>(_, b, to, _). unat to - unat b)") (auto simp: word_less_nat_alt)

declare for_blocks.simps [simp del]

definition NUM_INODES :: u32 where "NUM_INODES = 200"

definition format_superblock :: "u32 \<Rightarrow> SuperBlock \<times> u32" where
  "format_superblock total_blocks =
     (let inode_blocks = (NUM_INODES + INODES_PER_BLOCK - 1) div INODES_PER_BLOCK;
          bitmap_blocks = (total_blocks + BLOCKS_PER_BITMAP_BLOCK - 1) div BLOCKS_PER_BITMAP_BLOCK;
          bitmap_start = 2 + inode_blocks;
          data_start = bitmap_start + bitmap_blocks
      in (\<lparr>sb_magic = FS_MAGIC, sb_size = total_blocks, sb_nblocks = total_blocks - data_start,
           sb_ninodes = NUM_INODES, sb_inode_start = 2, sb_bitmap_start = bitmap_start\<rparr>, data_start))"

definition write_superblock :: "'s fs \<Rightarrow> bool \<times> 's fs" where
  "write_superblock s =
     lift_store (\<lambda>bs. scoped_update bs 1
       (\<lambda>_. splice 0 (SuperBlock_bytes (fs_sb s)) (replicate (unat FSBLOCK_SIZE) 0))) s"

definition DOT :: bytes where "DOT = [46]"
definition DOTDOT :: bytes where "DOTDOT = [46, 46]"

definition root_template :: DiskInode where
  "root_template =
     \<lparr>di_type = kDirectory, di_major = 0, di_minor = 0, di_nlink = 1, di_size = 0, di_addrs = replicate 13 0\<rparr>"

definition format_root :: "'s fs \<Rightarrow> bool \<times> 's fs" where
  "format_root s =
     (case add_root_entry root_template ROOT_INODE DOT s of
        (False, _, s1) \<Rightarrow> (False, s1)
      | (True, root1, s1) \<Rightarrow>
          (case add_root_entry root1 ROOT_INODE DOTDOT s1 of
             (False, _, s2) \<Rightarrow> (False, s2)
           | (True, root2, s2) \<Rightarrow> write_disk_inode ROOT_INODE root2 s2))"

definition format :: "u32 \<Rightarrow> 's fs \<Rightarrow> bool \<times> 's fs" where
  "format total_blocks s =
     (let (sb, data_start) = format_superblock total_blocks;
          s0 = s\<lparr>fs_sb := sb\<rparr>
      in (case for_blocks zero_block (sb_inode_start sb) data_start s0 of
            (False, s1) \<Rightarrow> (False, s1)
          | (True, s1) \<Rightarrow>
              (case for_blocks mark_block_used 0 data_start s1 of
                 (False, s2) \<Rightarrow> (False, s2)
               | (True, s2) \<Rightarrow>
                   (case write_superblock s2 of
                      (False, s3) \<Rightarrow> (False, s3)
                    | (True, s3) \<Rightarrow> format_root s3))))"

definition not_formatted_message :: string where
  "not_formatted_message = ''[FS]   not formatted, creating filesystem...'' @ [CHR 0x0A]"

definition fs_initialize :: "u32 \<Rightarrow> 's IBlockStore option \<Rightarrow> bool \<Rightarrow> 's fs \<Rightarrow> bool \<times> 's fs" where
  "fs_initialize total_blocks block_store console s =
     (let s0 = s\<lparr>fs_store := (case block_store of Some bs \<Rightarrow> bs | None \<Rightarrow> NullBlockStore),
                 fs_console := console\<rparr>
      in (case load_superblock s0 of
            (True, s1) \<Rightarrow> (True, s1)
          | (False, s1) \<Rightarrow>
              let s2 = (if fs_console s1 then s1\<lparr>fs_log := fs_log s1 @ [not_formatted_message]\<rparr> else s1)
              in (case format total_blocks s2 of
                    (False, s3) \<Rightarrow> (False, s3)
                  | (True, s3) \<Rightarrow> load_superblock s3)))"

section \<open>Byte layout round trips\<close>

lemma concat_le_bytes_length: "length (concat (map (le_bytes k) ws)) = k * length ws"
  by (induction ws) auto

lemma slice_concat_le_bytes:
  "i < length ws \<Longrightarrow> slice (k * i) k (concat (map (le_bytes k) ws)) = le_bytes k (ws ! i)"
proof (induction ws arbitrary: i)
  case (Cons w ws)
  show ?case
  proof (cases i)
    case 0
    then show ?thesis by (simp add: slice_def)
  next
    case (Suc j)
    then show ?thesis using Cons by (simp add: slice_def)
  qed
qed simp

lemma SuperBlock_bytes_length [simp]: "length (SuperBlock_bytes b) = 24"
  by (simp add: SuperBlock_bytes_def)

lemma DiskInode_bytes_length [simp]: "length (di_addrs i) = 13 \<Longrightarrow> length (DiskInode_bytes i) = 64"
  by (simp add: DiskInode_bytes_def concat_le_bytes_length)

lemma DirectoryEntry_bytes_length [simp]: "length (de_name e) = 14 \<Longrightarrow> length (DirectoryEntry_bytes e) = 16"
  by (simp add: DirectoryEntry_bytes_def)

lemma slice_take: "off + n \<le> m \<Longrightarrow> slice off n (take m d) = slice off n d"
  by (simp add: slice_def drop_take min_def)

lemma SuperBlock_roundtrip: "SuperBlock_at (SuperBlock_bytes b @ rest) = b"
  by (cases b) (simp add: SuperBlock_at_def SuperBlock_bytes_def slice_def le_word_le_bytes)

lemma DiskInode_at_slice:
  "off + 64 \<le> length d \<Longrightarrow> DiskInode_at off d = DiskInode_at 0 (slice off 64 d)"
  unfolding DiskInode_at_def by (simp add: slice_slice add.assoc)

lemma DiskInode_roundtrip0:
  assumes "length (di_addrs i) = 13"
  shows "DiskInode_at 0 (DiskInode_bytes i) = i"
proof -
  have addr: "slice (12 + 4 * k) 4 (DiskInode_bytes i) = le_bytes 4 (di_addrs i ! k)" if "k < 13" for k
    using slice_concat_le_bytes [of k "di_addrs i" 4] that assms
    by (simp add: DiskInode_bytes_def slice_def)
  have "map (\<lambda>k. le_word (slice (12 + 4 * k) 4 (DiskInode_bytes i))) [0..<13] = di_addrs i"
    using assms by (intro nth_equalityI) (simp_all add: addr le_word_le_bytes)
  moreover have "slice 0 2 (DiskInode_bytes i) = le_bytes 2 (di_type i)"
    "slice 2 2 (DiskInode_bytes i) = le_bytes 2 (di_major i)"
    "slice 4 2 (DiskInode_bytes i) = le_bytes 2 (di_minor i)"
    "slice 6 2 (DiskInode_bytes i) = le_bytes 2 (di_nlink i)"
    "slice 8 4 (DiskInode_bytes i) = le_bytes 4 (di_size i)"
    by (simp_all add: DiskInode_bytes_def slice_def)
  ultimately show ?thesis by (simp add: DiskInode_at_def le_word_le_bytes flip: numeral_2_eq_2)
qed

lemma DiskInode_roundtrip:
  assumes "length (di_addrs i) = 13" "off + 64 \<le> length d"
  shows "DiskInode_at off (splice off (DiskInode_bytes i) d) = i"
  using assms by (simp add: DiskInode_at_slice [of off] slice_splice_same DiskInode_roundtrip0)

lemma DiskInode_at_other:
  assumes "length (di_addrs i) = 13" "off + 64 \<le> length d" "off' + 64 \<le> length d"
    and "off' + 64 \<le> off \<or> off + 64 \<le> off'"
  shows "DiskInode_at off' (splice off (DiskInode_bytes i) d) = DiskInode_at off' d"
  using assms by (simp add: DiskInode_at_slice [of off'] slice_splice_disjoint)

lemma DiskInode_at_addrs [simp]: "length (di_addrs (DiskInode_at off d)) = 13"
  by (simp add: DiskInode_at_def)

lemma DiskInode_at_zero: "off + 64 \<le> n \<Longrightarrow> DiskInode_at off (replicate n 0) = DiskInode_zero"
  by (simp add: DiskInode_at_def DiskInode_zero_def slice_def kUnused_def map_replicate_const min_def
      cong: map_cong)

lemma DirectoryEntry_at_slice:
  "off + 16 \<le> length d \<Longrightarrow> DirectoryEntry_at off d = DirectoryEntry_at 0 (slice off 16 d)"
  by (simp add: DirectoryEntry_at_def slice_slice)

lemma DirectoryEntry_roundtrip0:
  "length (de_name e) = 14 \<Longrightarrow> DirectoryEntry_at 0 (DirectoryEntry_bytes e) = e"
  by (simp add: DirectoryEntry_at_def DirectoryEntry_bytes_def slice_def le_word_le_bytes)

lemma DirectoryEntry_roundtrip:
  assumes "length (de_name e) = 14" "off + 16 \<le> length d"
  shows "DirectoryEntry_at off (splice off (DirectoryEntry_bytes e) d) = e"
  using assms by (simp add: DirectoryEntry_at_slice [of off] slice_splice_same DirectoryEntry_roundtrip0)

lemma DirectoryEntry_at_other:
  assumes "length (de_name e) = 14" "off + 16 \<le> length d" "off' + 16 \<le> length d"
    and "off' + 16 \<le> off \<or> off + 16 \<le> off'"
  shows "DirectoryEntry_at off' (splice off (DirectoryEntry_bytes e) d) = DirectoryEntry_at off' d"
  using assms by (simp add: DirectoryEntry_at_slice [of off'] slice_splice_disjoint)

lemma pad_name_length [simp]: "length (pad_name name) = 14"
  by (simp add: pad_name_def Let_def fs_consts)

section \<open>The block bitmap\<close>

definition bm :: "bytes \<Rightarrow> nat \<Rightarrow> bool" where
  "bm d k \<longleftrightarrow> bit (d ! (k div 8)) (k mod 8)"

lemma bit_bit_mask: "bit (bit_mask k) j \<longleftrightarrow> j = unat k mod 8"
  using mod_less_divisor [of 8 "unat k"]
  by (auto simp: bit_exp_iff bit_mask_def unat_mod fs_consts)

lemma and_mask_zero: "x AND bit_mask k = 0 \<longleftrightarrow> \<not> bit x (unat k mod 8)"
proof
  assume "x AND bit_mask k = 0"
  then have "\<not> bit (x AND bit_mask k) (unat k mod 8)" by simp
  then show "\<not> bit x (unat k mod 8)" by (simp add: bit_and_iff bit_bit_mask)
next
  assume "\<not> bit x (unat k mod 8)"
  then show "x AND bit_mask k = 0" by (intro bit_word_eqI) (auto simp: bit_and_iff bit_bit_mask)
qed

lemma unat_div_bits: "unat (k div BITS_PER_BYTE) = unat k div 8"
  by (simp add: unat_div fs_consts)

lemma bm_index: "k < 4096 \<Longrightarrow> length (d :: bytes) = 512 \<Longrightarrow> k div 8 < length d"
  by simp

lemma bm_set_bit:
  assumes "length d = 512" "unat b < 4096" "k < 4096"
  shows "bm (set_bit_at b d) k \<longleftrightarrow> k = unat b \<or> bm d k"
proof -
  have "k = unat b \<longleftrightarrow> unat b div 8 = k div 8 \<and> unat b mod 8 = k mod 8"
    by (metis div_mult_mod_eq)
  then show ?thesis using bm_index [OF assms(3,1)]
    by (auto simp: bm_def set_bit_at_def nth_upd_at unat_div_bits bit_or_iff bit_bit_mask)
qed

lemma bm_clear_bit:
  assumes "length d = 512" "unat b < 4096" "k < 4096"
  shows "bm (clear_bit_at b d) k \<longleftrightarrow> k \<noteq> unat b \<and> bm d k"
proof -
  have "k = unat b \<longleftrightarrow> unat b div 8 = k div 8 \<and> unat b mod 8 = k mod 8"
    by (metis div_mult_mod_eq)
  moreover have "k mod 8 < 8" by simp
  ultimately show ?thesis using bm_index [OF assms(3,1)]
    by (auto simp: bm_def clear_bit_at_def nth_upd_at unat_div_bits bit_and_iff bit_not_iff bit_bit_mask)
qed

lemma length_set_bit [simp]: "length (set_bit_at b d) = length d"
  and length_clear_bit [simp]: "length (clear_bit_at b d) = length d"
  by (simp_all add: set_bit_at_def clear_bit_at_def)

text \<open>
  \<open>first_free\<close> returns the least clear bit in range, and \<open>None\<close> exactly when there is none.
\<close>

lemma first_free_Some:
  "first_free d base sz off = Some k \<Longrightarrow>
     unat k < 4096 \<and> base + k < sz \<and> unat off \<le> unat k \<and> \<not> bm d (unat k) \<and>
     (\<forall>j. unat off \<le> j \<and> j < unat k \<longrightarrow> bm d j)"
proof (induction d base sz off rule: first_free.induct)
  case (1 d base sz off)
  show ?case
  proof (cases "off < BLOCKS_PER_BITMAP_BLOCK \<and> base + off < sz")
    case in_range: True
    then have lt: "unat off < 4096" by (simp add: word_less_nat_alt fs_consts)
    have test: "d ! unat (off div BITS_PER_BYTE) AND bit_mask off = 0 \<longleftrightarrow> \<not> bm d (unat off)"
      by (simp add: and_mask_zero unat_div_bits bm_def)
    show ?thesis
    proof (cases "bm d (unat off)")
      case False
      then show ?thesis using "1.prems" in_range test lt by (subst (asm) first_free.simps) auto
    next
      case True
      then have "first_free d base sz (off + 1) = Some k"
        using "1.prems" in_range test by (subst (asm) first_free.simps) simp
      then have IH: "unat k < 4096 \<and> base + k < sz \<and> Suc (unat off) \<le> unat k \<and> \<not> bm d (unat k) \<and>
          (\<forall>j. Suc (unat off) \<le> j \<and> j < unat k \<longrightarrow> bm d j)"
        using "1.IH" [OF in_range] test True word_less_Suc_bound [OF conjunct1 [OF in_range]] by simp
      have "bm d j" if "unat off \<le> j" "j < unat k" for j
        using IH True that by (cases "j = unat off") auto
      then show ?thesis using IH by simp
    qed
  next
    case False
    then show ?thesis using "1.prems" by (subst (asm) first_free.simps) auto
  qed
qed

lemma first_free_None:
  "first_free d base sz off = None \<Longrightarrow> unat off \<le> j \<Longrightarrow> j < 4096 \<Longrightarrow>
     (\<forall>i. unat off \<le> i \<and> i \<le> j \<longrightarrow> base + of_nat i < sz) \<Longrightarrow> bm d j"
proof (induction d base sz off rule: first_free.induct)
  case (1 d base sz off)
  have range: "off < BLOCKS_PER_BITMAP_BLOCK \<and> base + off < sz"
    using "1.prems"(2,3) "1.prems"(4) [rule_format, of "unat off"]
    by (simp add: word_less_nat_alt fs_consts)
  have test: "d ! unat (off div BITS_PER_BYTE) AND bit_mask off = 0 \<longleftrightarrow> \<not> bm d (unat off)"
    by (simp add: and_mask_zero unat_div_bits bm_def)
  have bit: "bm d (unat off)" and rest: "first_free d base sz (off + 1) = None"
    using "1.prems"(1) range test by (subst (asm) first_free.simps; simp split: if_splits)+
  show ?case
  proof (cases "j = unat off")
    case True
    then show ?thesis using bit by simp
  next
    case False
    then show ?thesis using "1.IH" [OF range _ rest] test bit "1.prems" word_less_Suc_bound [OF conjunct1 [OF range]] by simp
  qed
qed

section \<open>Layout of the disk\<close>

definition data_start :: "SuperBlock \<Rightarrow> nat" where
  "data_start sb = unat (sb_bitmap_start sb) + (unat (sb_size sb) + 4095) div 4096"

definition sb_wf :: "SuperBlock \<Rightarrow> bool" where
  "sb_wf sb \<longleftrightarrow>
     sb_magic sb = FS_MAGIC \<and> 2 \<le> unat (sb_inode_start sb) \<and>
     unat (sb_inode_start sb) + (unat (sb_ninodes sb) + 7) div 8 \<le> unat (sb_bitmap_start sb) \<and>
     data_start sb \<le> unat (sb_size sb) \<and> unat (sb_size sb) \<le> 2 ^ 32 - 4096"

definition block_used :: "SuperBlock \<Rightarrow> (u32 \<Rightarrow> bytes) \<Rightarrow> u32 \<Rightarrow> bool" where
  "block_used sb v n \<longleftrightarrow> bm (v (bitmap_block sb n)) (unat n mod 4096)"

definition disk_inode :: "SuperBlock \<Rightarrow> (u32 \<Rightarrow> bytes) \<Rightarrow> u32 \<Rightarrow> DiskInode" where
  "disk_inode sb v i = DiskInode_at (unat (i mod INODES_PER_BLOCK) * 64) (v (inode_block sb i))"

text \<open>Every block before the data area is marked used.\<close>

definition meta_used :: "SuperBlock \<Rightarrow> (u32 \<Rightarrow> bytes) \<Rightarrow> bool" where
  "meta_used sb v \<longleftrightarrow> (\<forall>b. unat b < data_start sb \<longrightarrow> block_used sb v b)"

lemma sb_wfD:
  assumes "sb_wf sb"
  shows "data_start sb \<le> unat (sb_size sb)" "unat (sb_size sb) \<le> 4294963200"
    "unat (sb_inode_start sb) + (unat (sb_ninodes sb) + 7) div 8 \<le> unat (sb_bitmap_start sb)"
    "unat (sb_bitmap_start sb) \<le> data_start sb" "2 \<le> unat (sb_inode_start sb)"
  using assms by (simp_all add: sb_wf_def data_start_def)

lemma unat_bitmap_block:
  assumes "sb_wf sb" "b < sb_size sb"
  shows "unat (bitmap_block sb b) = unat (sb_bitmap_start sb) + unat b div 4096"
    and "unat (bitmap_block sb b) < data_start sb"
proof -
  have d: "unat (b div BLOCKS_PER_BITMAP_BLOCK) = unat b div 4096" by (simp add: unat_div fs_consts)
  have lt: "unat b < unat (sb_size sb)" using assms(2) by (simp add: word_less_nat_alt)
  then have q: "unat b div 4096 < (unat (sb_size sb) + 4095) div 4096" by linarith
  then have "unat (sb_bitmap_start sb) + unat b div 4096 < data_start sb" by (simp add: data_start_def)
  moreover from this have "unat (sb_bitmap_start sb) + unat b div 4096 < 2 ^ 32"
    using sb_wfD [OF assms(1)] by simp
  ultimately show "unat (bitmap_block sb b) = unat (sb_bitmap_start sb) + unat b div 4096"
    and "unat (bitmap_block sb b) < data_start sb"
    by (simp_all add: bitmap_block_def unat_word_ariths(1) d)
qed

lemma unat_inode_block:
  assumes "sb_wf sb" "i < sb_ninodes sb"
  shows "unat (inode_block sb i) = unat (sb_inode_start sb) + unat i div 8"
    and "unat (inode_block sb i) < unat (sb_bitmap_start sb)"
proof -
  have d: "unat (i div INODES_PER_BLOCK) = unat i div 8" by (simp add: unat_div fs_consts)
  have lt: "unat i < unat (sb_ninodes sb)" using assms(2) by (simp add: word_less_nat_alt)
  then have q: "unat i div 8 < (unat (sb_ninodes sb) + 7) div 8" by linarith
  then have "unat (sb_inode_start sb) + unat i div 8 < unat (sb_bitmap_start sb)"
    using sb_wfD(3) [OF assms(1)] by linarith
  moreover from this have "unat (sb_inode_start sb) + unat i div 8 < 2 ^ 32"
    using sb_wfD [OF assms(1)] by simp
  ultimately show "unat (inode_block sb i) = unat (sb_inode_start sb) + unat i div 8"
    and "unat (inode_block sb i) < unat (sb_bitmap_start sb)"
    by (simp_all add: inode_block_def unat_word_ariths(1) d)
qed

lemma bitmap_block_size:
  "sb_wf sb \<Longrightarrow> b < sb_size sb \<Longrightarrow> bitmap_block sb b < sb_size sb"
  using unat_bitmap_block [of sb b] sb_wfD [of sb] by (simp add: word_less_nat_alt)

lemma inode_block_size:
  "sb_wf sb \<Longrightarrow> i < sb_ninodes sb \<Longrightarrow> inode_block sb i < sb_size sb"
  using unat_inode_block [of sb i] sb_wfD [of sb] by (simp add: word_less_nat_alt)

lemma bitmap_block_eq:
  "sb_wf sb \<Longrightarrow> b < sb_size sb \<Longrightarrow> c < sb_size sb \<Longrightarrow>
     bitmap_block sb b = bitmap_block sb c \<longleftrightarrow> unat b div 4096 = unat c div 4096"
  using unat_bitmap_block(1) [of sb b] unat_bitmap_block(1) [of sb c]
  by (metis add_left_cancel word_unat_eq_iff)

text \<open>Marking and freeing one block changes the status of that block only.\<close>

lemma block_eq_div_mod: "b = c \<longleftrightarrow> unat b div 4096 = unat c div 4096 \<and> unat b mod 4096 = unat c mod 4096"
  for b c :: u32
  by (metis div_mult_mod_eq word_unat_eq_iff)

lemma block_used_set:
  assumes "sb_wf sb" "b < sb_size sb" "c < sb_size sb" "length (v (bitmap_block sb b)) = 512"
    and "unat k = unat b mod 4096"
  shows "block_used sb (v(bitmap_block sb b := set_bit_at k (v (bitmap_block sb b)))) c \<longleftrightarrow>
    c = b \<or> block_used sb v c"
  using assms bm_set_bit [of "v (bitmap_block sb b)" k "unat c mod 4096"] bitmap_block_eq [of sb c b]
  by (auto simp: block_used_def block_eq_div_mod [of c b])

lemma block_used_clear:
  assumes "sb_wf sb" "b < sb_size sb" "c < sb_size sb" "length (v (bitmap_block sb b)) = 512"
    and "unat k = unat b mod 4096"
  shows "block_used sb (v(bitmap_block sb b := clear_bit_at k (v (bitmap_block sb b)))) c \<longleftrightarrow>
    c \<noteq> b \<and> block_used sb v c"
  using assms bm_clear_bit [of "v (bitmap_block sb b)" k "unat c mod 4096"] bitmap_block_eq [of sb c b]
  by (auto simp: block_used_def block_eq_div_mod [of c b])

text \<open>Writing a data block leaves the bitmap and the inodes alone.\<close>

lemma block_used_data:
  assumes "sb_wf sb" "c < sb_size sb" "data_start sb \<le> unat n"
  shows "block_used sb (v(n := d)) c = block_used sb v c"
  using unat_bitmap_block(2) [OF assms(1,2)] assms(3) by (auto simp: block_used_def)

lemma disk_inode_data:
  assumes "sb_wf sb" "i < sb_ninodes sb" "unat (sb_bitmap_start sb) \<le> unat n"
  shows "disk_inode sb (v(n := d)) i = disk_inode sb v i"
  using unat_inode_block(2) [OF assms(1,2)] assms(3) by (auto simp: disk_inode_def)

text \<open>
  The scan of one bitmap block in terms of \<open>block_used\<close>: the group of 4096 blocks from \<open>base\<close> on is
  full, or \<open>n\<close> is its first free block. \<open>alloc_view\<close> is the disk after \<open>n\<close> was marked and zeroed.
\<close>

definition group_full :: "SuperBlock \<Rightarrow> (u32 \<Rightarrow> bytes) \<Rightarrow> u32 \<Rightarrow> bool" where
  "group_full sb v base \<longleftrightarrow>
     (\<forall>n. n < sb_size sb \<and> unat base \<le> unat n \<and> unat n < unat base + 4096 \<longrightarrow> block_used sb v n)"

definition group_first :: "SuperBlock \<Rightarrow> (u32 \<Rightarrow> bytes) \<Rightarrow> u32 \<Rightarrow> u32 \<Rightarrow> bool" where
  "group_first sb v base n \<longleftrightarrow>
     n < sb_size sb \<and> \<not> block_used sb v n \<and> base \<le> n \<and> (\<forall>m. base \<le> m \<and> m < n \<longrightarrow> block_used sb v m)"

definition alloc_view :: "SuperBlock \<Rightarrow> (u32 \<Rightarrow> bytes) \<Rightarrow> u32 \<Rightarrow> u32 \<Rightarrow> bytes" where
  "alloc_view sb v n =
     v(bitmap_block sb n := set_bit_at (n mod BLOCKS_PER_BITMAP_BLOCK) (v (bitmap_block sb n)),
       n := replicate 512 0)"

lemma group_bitmap:
  assumes "sb_wf sb" "base < sb_size sb" "unat base mod 4096 = 0"
    and n: "n < sb_size sb" "unat base \<le> unat n" "unat n < unat base + 4096"
  shows "bitmap_block sb n = bitmap_block sb base"
    and "block_used sb v n = bm (v (bitmap_block sb base)) (unat n - unat base)"
proof -
  have dm: "unat n div 4096 = unat base div 4096 \<and> unat n mod 4096 = unat n - unat base"
    using aligned_div_mod [OF assms(3) n(2,3)] by simp
  then show "bitmap_block sb n = bitmap_block sb base" using bitmap_block_eq [OF assms(1) n(1) assms(2)] by simp
  then show "block_used sb v n = bm (v (bitmap_block sb base)) (unat n - unat base)"
    using dm by (simp add: block_used_def)
qed

lemma scan_None:
  assumes "sb_wf sb" "base < sb_size sb" "unat base mod 4096 = 0"
    and none: "first_free (v (bitmap_block sb base)) base (sb_size sb) 0 = None"
  shows "group_full sb v base"
  unfolding group_full_def
proof (intro allI impI, elim conjE)
  fix n assume n: "n < sb_size sb" "unat base \<le> unat n" "unat n < unat base + 4096"
  define j where "j = unat n - unat base"
  have j: "j < 4096" "unat base + j < unat (sb_size sb)" using n by (auto simp: j_def word_less_nat_alt)
  have "\<forall>i. unat (0::u32) \<le> i \<and> i \<le> j \<longrightarrow> base + of_nat i < sb_size sb"
    using j sb_wfD(2) [OF assms(1)] by (auto simp: word_less_nat_alt unat_word_ariths(1) unat_of_nat)
  then have "bm (v (bitmap_block sb base)) j" using first_free_None [OF none, of j] j by simp
  then show "block_used sb v n" using group_bitmap(2) [OF assms(1-3) n] by (simp add: j_def)
qed

lemma scan_Some:
  assumes "sb_wf sb" "base < sb_size sb" "unat base mod 4096 = 0"
    and some: "first_free (v (bitmap_block sb base)) base (sb_size sb) 0 = Some off"
  shows "group_first sb v base (base + off)" "bitmap_block sb (base + off) = bitmap_block sb base"
    "off = (base + off) mod BLOCKS_PER_BITMAP_BLOCK"
proof -
  note ff = first_free_Some [OF some]
  have nowrap: "unat (base + off) = unat base + unat off"
    using assms(2) ff sb_wfD(2) [OF assms(1)] by (simp add: word_less_nat_alt unat_word_ariths(1))
  have nsz: "base + off < sb_size sb" using ff by simp
  note g = group_bitmap [OF assms(1-3)]
  show "bitmap_block sb (base + off) = bitmap_block sb base" using g(1) [OF nsz] nowrap ff by simp
  have "block_used sb v m" if "base \<le> m" "m < base + off" for m
  proof -
    have "m < sb_size sb" using that(2) nsz by (rule order.strict_trans)
    then show ?thesis using g(2) [of m v] that ff nowrap by (simp add: word_less_nat_alt word_le_nat_alt)
  qed
  moreover have "\<not> block_used sb v (base + off)" using g(2) [OF nsz, of v] ff nowrap by simp
  ultimately show "group_first sb v base (base + off)"
    using nsz nowrap by (simp add: group_first_def word_le_nat_alt)
  show "off = (base + off) mod BLOCKS_PER_BITMAP_BLOCK"
  proof -
    have "(unat base + unat off) mod 4096 = unat off"
      using ff aligned_div_mod(2) [OF assms(3), of "unat base + unat off"] by simp
    then show ?thesis using nowrap by (simp add: word_unat_eq_iff unat_mod fs_consts)
  qed
qed

lemma free_is_data: "meta_used sb v \<Longrightarrow> \<not> block_used sb v n \<Longrightarrow> data_start sb \<le> unat n"
  by (meson meta_used_def not_le)

lemma block_used_alloc:
  assumes "sb_wf sb" "n < sb_size sb" "c < sb_size sb" "length (v (bitmap_block sb n)) = 512"
    and "data_start sb \<le> unat n"
  shows "block_used sb (alloc_view sb v n) c \<longleftrightarrow> c = n \<or> block_used sb v c"
  unfolding alloc_view_def
  using block_used_set [where v = v, OF assms(1-4), of "n mod BLOCKS_PER_BITMAP_BLOCK"] block_used_data [OF assms(1,3,5)]
  by (simp add: unat_mod fs_consts)

lemma meta_used_alloc:
  assumes "sb_wf sb" "n < sb_size sb" "length (v (bitmap_block sb n)) = 512" "data_start sb \<le> unat n" "meta_used sb v"
  shows "meta_used sb (alloc_view sb v n)"
  unfolding meta_used_def
proof (intro allI impI)
  fix b :: u32 assume b: "unat b < data_start sb"
  then have "b < sb_size sb" using sb_wfD(1) [OF assms(1)] by (simp add: word_less_nat_alt)
  then show "block_used sb (alloc_view sb v n) b"
    using block_used_alloc [where v = v, OF assms(1,2) _ assms(3,4)] assms(5) b by (simp add: meta_used_def)
qed

lemma alloc_view_other:
  assumes "sb_wf sb" "n < sb_size sb" "m \<noteq> n"
    and "unat m < unat (sb_bitmap_start sb) \<or> data_start sb \<le> unat m"
  shows "alloc_view sb v n m = v m"
  using unat_bitmap_block [OF assms(1,2)] assms(3,4) by (auto simp: alloc_view_def)

lemma disk_inode_alloc:
  assumes "sb_wf sb" "n < sb_size sb" "data_start sb \<le> unat n" "i < sb_ninodes sb"
  shows "disk_inode sb (alloc_view sb v n) i = disk_inode sb v i"
  unfolding alloc_view_def
  using disk_inode_data [OF assms(1,4)] unat_bitmap_block(1) [OF assms(1,2)] sb_wfD(4) [OF assms(1)] assms(3)
  by simp

section \<open>The freshly formatted disk\<close>

definition root_inode :: "u32 \<Rightarrow> DiskInode" where
  "root_inode b = root_template\<lparr>di_size := 32, di_addrs := b # replicate 12 0\<rparr>"

definition dot_entry :: "bytes \<Rightarrow> DirectoryEntry" where
  "dot_entry name = \<lparr>de_inode_number = 1, de_name = pad_name name\<rparr>"

definition root_block :: bytes where
  "root_block = DirectoryEntry_bytes (dot_entry DOT) @ DirectoryEntry_bytes (dot_entry DOTDOT) @ replicate 480 0"

text \<open>
  \<open>formatted\<close>: the superblock is on block 1, exactly the metadata blocks and the root directory's
  block are in use, inode 1 is the root directory with its two entries and the others are unused.
\<close>

definition formatted :: "SuperBlock \<Rightarrow> (u32 \<Rightarrow> bytes) \<Rightarrow> bool" where
  "formatted sb v \<longleftrightarrow>
     SuperBlock_at (v 1) = sb \<and>
     (\<forall>c < sb_size sb. block_used sb v c \<longleftrightarrow> unat c \<le> data_start sb) \<and>
     disk_inode sb v ROOT_INODE = root_inode (of_nat (data_start sb)) \<and>
     (\<forall>i < sb_ninodes sb. i \<noteq> ROOT_INODE \<longrightarrow> disk_inode sb v i = DiskInode_zero) \<and>
     v (of_nat (data_start sb)) = root_block"

definition formattable :: "u32 \<Rightarrow> bool" where
  "formattable total_blocks \<longleftrightarrow>
     27 + (unat total_blocks + 4095) div 4096 < unat total_blocks \<and> unat total_blocks \<le> 2 ^ 32 - 4096"

lemma format_superblock_props:
  assumes "formattable nb" "format_superblock nb = (sb, ds)"
  shows "sb_wf sb" "unat ds = data_start sb" "sb_size sb = nb" "sb_ninodes sb = 200" "sb_inode_start sb = 2"
    "sb_bitmap_start sb = 27" "data_start sb < unat nb" "ds = of_nat (data_start sb)"
proof -
  have t: "unat nb \<le> 4294963200" using assms(1) by (simp add: formattable_def)
  then have "unat (4095 + nb) = unat nb + 4095" by (simp add: unat_word_ariths(1))
  then have d: "unat ((4095 + nb) div 4096) = (unat nb + 4095) div 4096" by (simp add: unat_div)
  have sb: "sb = \<lparr>sb_magic = FS_MAGIC, sb_size = nb, sb_nblocks = nb - ds, sb_ninodes = 200,
      sb_inode_start = 2, sb_bitmap_start = 27\<rparr>" and ds: "ds = 27 + (4095 + nb) div 4096"
    using assms(2) by (auto simp: format_superblock_def Let_def fs_consts NUM_INODES_def)
  show u: "unat ds = data_start sb"
    using ds sb d t by (simp add: data_start_def unat_word_ariths(1))
  then show "ds = of_nat (data_start sb)" by (simp flip: u)
  show lt: "data_start sb < unat nb" using assms(1) sb by (simp add: formattable_def data_start_def)
  show "sb_wf sb" using lt t sb by (simp add: sb_wf_def data_start_def)
  show "sb_size sb = nb" "sb_ninodes sb = 200" "sb_inode_start sb = 2" "sb_bitmap_start sb = 27"
    using sb by simp_all
qed

section \<open>The operations on a contract-abiding store\<close>

text \<open>
  \<open>fs_keeps\<close>: an operation changed the store only, and returned every handle. \<open>fs_env k\<close>: a mounted
  file system whose superblock is sane, whose blocks the store can all serve, with room to hold
  \<open>k\<close> more blocks.
\<close>

definition fs_keeps ::
    "('s \<Rightarrow> bool) \<Rightarrow> ('s \<Rightarrow> u32 \<Rightarrow> nat) \<Rightarrow> ('s \<Rightarrow> u32 \<Rightarrow> nat) \<Rightarrow> ('s \<Rightarrow> u32 \<Rightarrow> bool) \<Rightarrow> 's fs \<Rightarrow> 's fs \<Rightarrow> bool" where
  "fs_keeps I refs loc synced s s' \<longleftrightarrow>
     s' = s\<lparr>fs_st := fs_st s'\<rparr> \<and> keeps I refs loc synced (fs_st s) (fs_st s')"

definition fs_env ::
    "'s IBlockStore \<Rightarrow> ('s \<Rightarrow> bool) \<Rightarrow> ('s \<Rightarrow> u32 \<Rightarrow> nat) \<Rightarrow> ('s \<Rightarrow> u32 \<Rightarrow> bool) \<Rightarrow> (u32 \<Rightarrow> bool) \<Rightarrow> nat \<Rightarrow> nat \<Rightarrow> 's fs \<Rightarrow> bool" where
  "fs_env bs I refs synced usable cap k s \<longleftrightarrow>
     fs_store s = bs \<and> settled I refs synced (fs_st s) \<and> card (held refs (fs_st s)) + k \<le> cap \<and>
     (\<forall>n. n < sb_size (fs_sb s) \<longrightarrow> usable n) \<and> sb_wf (fs_sb s)"

lemma fs_keeps_fields:
  assumes "fs_keeps I refs loc synced s s'"
  shows "fs_store s' = fs_store s" "fs_sb s' = fs_sb s" "fs_console s' = fs_console s" "fs_log s' = fs_log s"
    "fs_diverged s' = fs_diverged s" "refs (fs_st s') = refs (fs_st s)" "settled I refs synced (fs_st s')"
proof -
  have e: "s' = s\<lparr>fs_st := fs_st s'\<rparr>" and k: "keeps I refs loc synced (fs_st s) (fs_st s')"
    using assms by (auto simp: fs_keeps_def)
  show "fs_store s' = fs_store s" "fs_sb s' = fs_sb s" "fs_console s' = fs_console s" "fs_log s' = fs_log s"
    "fs_diverged s' = fs_diverged s" by (subst e, simp)+
  show "refs (fs_st s') = refs (fs_st s)" "settled I refs synced (fs_st s')"
    using k by (simp_all add: keeps_def)
qed

lemma fs_keeps_trans [trans]:
  assumes "fs_keeps I refs loc synced s t" "fs_keeps I refs loc synced t u"
  shows "fs_keeps I refs loc synced s u"
proof -
  have "u = s\<lparr>fs_st := fs_st u\<rparr>"
    using assms unfolding fs_keeps_def by (cases s, cases t, cases u) auto
  moreover have "keeps I refs loc synced (fs_st s) (fs_st u)"
    using assms by (auto simp: fs_keeps_def intro: keeps_trans)
  ultimately show ?thesis unfolding fs_keeps_def by (rule conjI)
qed

lemma fs_keeps_refl: "settled I refs synced (fs_st s) \<Longrightarrow> fs_keeps I refs loc synced s s"
  by (simp add: fs_keeps_def keeps_refl)

lemma fs_env_keeps:
  assumes "fs_env bs I refs synced usable cap k s" "fs_keeps I refs loc synced s s'"
  shows "fs_env bs I refs synced usable cap k s'"
  using assms(1) fs_keeps_fields [OF assms(2)] by (simp add: fs_env_def held_def)

lemma fs_env_mono: "fs_env bs I refs synced usable cap k s \<Longrightarrow> j \<le> k \<Longrightarrow> fs_env bs I refs synced usable cap j s"
  by (simp add: fs_env_def)

lemma fs_envD:
  assumes "fs_env bs I refs synced usable cap k s"
  shows "fs_store s = bs" "settled I refs synced (fs_st s)" "card (held refs (fs_st s)) + k \<le> cap"
    "n < sb_size (fs_sb s) \<Longrightarrow> usable n" "sb_wf (fs_sb s)"
  using assms by (simp_all add: fs_env_def)

context store_contract
begin

abbreviation fk where "fk \<equiv> fs_keeps inv refs loc synced"
abbreviation env where "env \<equiv> fs_env bs inv refs synced usable cap"
abbreviation vw where "vw s \<equiv> view (fs_st s)"

lemma lift_read:
  assumes "fs_store s = bs" "ok (fs_st s)" "lift_store (\<lambda>b. scoped_read b n) s = (r, s')"
  shows "fk s s'" and "vw s' = vw s" and "r = Some d \<Longrightarrow> d = vw s n"
    and "usable n \<Longrightarrow> card (held refs (fs_st s)) < cap \<Longrightarrow> r = Some (vw s n)"
proof -
  obtain t where t: "scoped_read bs n (fs_st s) = (r, t)" "s' = s\<lparr>fs_st := t\<rparr>"
    using assms(1,3) by (auto simp: lift_store_def split: prod.splits)
  note e = scoped_read_effect [OF assms(2) t(1)]
  show "fk s s'" "vw s' = vw s" "r = Some d \<Longrightarrow> d = vw s n"
    "usable n \<Longrightarrow> card (held refs (fs_st s)) < cap \<Longrightarrow> r = Some (vw s n)"
    using e t(2) by (simp_all add: fs_keeps_def)
qed

lemma lift_update:
  assumes "fs_store s = bs" "ok (fs_st s)" "lift_store (\<lambda>b. scoped_update b n f) s = (r, s')"
    and "length (f (vw s n)) = 512"
  shows "fk s s'" and "vw s' = (if r then (vw s)(n := f (vw s n)) else vw s)"
    and "usable n \<Longrightarrow> card (held refs (fs_st s)) < cap \<Longrightarrow> r"
proof -
  obtain t where t: "scoped_update bs n f (fs_st s) = (r, t)" "s' = s\<lparr>fs_st := t\<rparr>"
    using assms(1,3) by (auto simp: lift_store_def split: prod.splits)
  note e = scoped_update_effect [OF assms(2) t(1) assms(4)]
  show "fk s s'" "vw s' = (if r then (vw s)(n := f (vw s n)) else vw s)"
    "usable n \<Longrightarrow> card (held refs (fs_st s)) < cap \<Longrightarrow> r"
    using e t(2) by (simp_all add: fs_keeps_def)
qed

lemma env_update:
  assumes "env k s" "0 < k" "n < sb_size (fs_sb s)" "lift_store (\<lambda>b. scoped_update b n f) s = (r, s')"
    and "length (f (vw s n)) = 512"
  shows "r" "fk s s'" "vw s' = (vw s)(n := f (vw s n))"
proof -
  note u = lift_update [OF fs_envD(1,2) [OF assms(1)] assms(4,5)]
  show "r" using u(3) fs_envD(3,4) [OF assms(1)] assms(2,3) by simp
  then show "fk s s'" "vw s' = (vw s)(n := f (vw s n))" using u by simp_all
qed

lemma env_read:
  assumes "env k s" "0 < k" "n < sb_size (fs_sb s)" "lift_store (\<lambda>b. scoped_read b n) s = (r, s')"
  shows "r = Some (vw s n)" "fk s s'" "vw s' = vw s"
  using lift_read [OF fs_envD(1,2) [OF assms(1)] assms(4)] fs_envD(3,4) [OF assms(1)] assms(2,3) by simp_all

lemma env_length: "env k s \<Longrightarrow> length (vw s n) = 512"
  using fs_envD(2) [of bs inv refs synced] by simp

lemma zero_block_effect:
  assumes "env k s" "0 < k" "n < sb_size (fs_sb s)" "zero_block n s = (r, s')"
  shows "r" "fk s s'" "vw s' = (vw s)(n := replicate 512 0)"
  using env_update [OF assms(1-3) assms(4) [unfolded zero_block_def]] by (simp_all add: fs_consts)

lemma mark_block_used_effect:
  assumes "env k s" "0 < k" "n < sb_size (fs_sb s)" "mark_block_used n s = (r, s')"
  shows "r" "fk s s'" "vw s' = (vw s)(bitmap_block (fs_sb s) n :=
      set_bit_at (n mod BLOCKS_PER_BITMAP_BLOCK) (vw s (bitmap_block (fs_sb s) n)))"
  using env_update [OF assms(1,2) _ assms(4) [unfolded mark_block_used_def]]
    bitmap_block_size [OF fs_envD(5) [OF assms(1)] assms(3)] env_length [OF assms(1)] by simp_all

lemma free_block_effect:
  assumes "env k s" "0 < k" "n < sb_size (fs_sb s)" "free_block n s = s'"
  shows "fk s s'" "vw s' = (vw s)(bitmap_block (fs_sb s) n :=
      clear_bit_at (n mod BLOCKS_PER_BITMAP_BLOCK) (vw s (bitmap_block (fs_sb s) n)))"
proof -
  define b where "b = bitmap_block (fs_sb s) n"
  obtain r where r: "lift_store (\<lambda>bs. scoped_update bs b (clear_bit_at (n mod BLOCKS_PER_BITMAP_BLOCK))) s = (r, s')"
    using assms(4) by (auto simp: free_block_def b_def prod_eq_iff)
  note u = env_update [OF assms(1,2) _ r]
  show "fk s s'" "vw s' = (vw s)(bitmap_block (fs_sb s) n :=
      clear_bit_at (n mod BLOCKS_PER_BITMAP_BLOCK) (vw s (bitmap_block (fs_sb s) n)))"
    using u bitmap_block_size [OF fs_envD(5) [OF assms(1)] assms(3)] env_length [OF assms(1)]
    by (simp_all add: b_def)
qed

lemma inode_offset: "unat (i mod INODES_PER_BLOCK) * 64 + 64 \<le> 512"
proof -
  have "unat (i mod INODES_PER_BLOCK) < 8" by (simp add: unat_mod fs_consts)
  then show ?thesis by simp
qed

lemma write_disk_inode_effect:
  assumes "env k s" "0 < k" "i < sb_ninodes (fs_sb s)" "length (di_addrs ino) = 13"
    and "write_disk_inode i ino s = (r, s')"
  shows "r" "fk s s'" "vw s' = (vw s)(inode_block (fs_sb s) i :=
      splice (unat (i mod INODES_PER_BLOCK) * 64) (DiskInode_bytes ino) (vw s (inode_block (fs_sb s) i)))"
  using env_update [OF assms(1,2) _ assms(5) [unfolded write_disk_inode_def]]
    inode_block_size [OF fs_envD(5) [OF assms(1)] assms(3)] env_length [OF assms(1)] inode_offset [of i] assms(4)
  by simp_all

lemma get_disk_inode_effect:
  assumes "env k s" "0 < k" "i < sb_ninodes (fs_sb s)" "get_disk_inode i s = (r, s')"
  shows "r = Some (disk_inode (fs_sb s) (vw s) i)" "fk s s'" "vw s' = vw s"
proof -
  define b where "b = inode_block (fs_sb s) i"
  obtain q s1 where q: "lift_store (\<lambda>bs. scoped_read bs b) s = (q, s1)"
    by (cases "lift_store (\<lambda>bs. scoped_read bs b) s")
  note e = env_read [OF assms(1,2) _ q]
  then show "r = Some (disk_inode (fs_sb s) (vw s) i)" "fk s s'" "vw s' = vw s"
    using inode_block_size [OF fs_envD(5) [OF assms(1)] assms(3)] assms(4) q
    by (auto simp: get_disk_inode_def b_def disk_inode_def)
qed

lemma env_acquire:
  assumes "env k s" "0 < k" "n < sb_size (fs_sb s)" "st_acquire bs n (fs_st s) = (blk, t1)"
  shows "\<not> BlockRef_not blk" "block_data bs blk t1 = vw s n"
proof -
  have I: "inv (fs_st s)" using fs_envD(2) [OF assms(1)] by (simp add: settled_def)
  show nb: "\<not> BlockRef_not blk"
    using acquire_ok [OF I, of n] fs_envD(3,4) [OF assms(1)] assms(2-4) by simp
  show "block_data bs blk t1 = vw s n"
    using acquire_some [OF I assms(4) nb] load_held [of t1 n] by (simp add: block_data_def)
qed

text \<open>A handle taken, written through and dropped, and a handle taken and dropped.\<close>

lemma env_acquire_drop:
  assumes "env k s" "0 < k" "n < sb_size (fs_sb s)" "st_acquire bs n (fs_st s) = (blk, t1)"
  shows "fk s (s\<lparr>fs_st := BlockRef_destroy bs blk t1\<rparr>)" "view (BlockRef_destroy bs blk t1) = vw s"
proof -
  have "lift_store (\<lambda>b. scoped_read b n) s = (Some (vw s n), s\<lparr>fs_st := BlockRef_destroy bs blk t1\<rparr>)"
    using env_acquire [OF assms] assms(4) fs_envD(1) [OF assms(1)] by (simp add: lift_store_def scoped_read_def)
  note r = env_read [OF assms(1-3) this]
  show "fk s (s\<lparr>fs_st := BlockRef_destroy bs blk t1\<rparr>)" by (rule r(2))
  show "view (BlockRef_destroy bs blk t1) = vw s" using r(3) by simp
qed

lemma env_acquire_write:
  assumes "env k s" "0 < k" "n < sb_size (fs_sb s)" "st_acquire bs n (fs_st s) = (blk, t1)"
    and "BlockRef_write_back bs blk (set_block_data bs blk d t1) = (r, t3)" "length d = 512"
  shows "r" "fk s (s\<lparr>fs_st := BlockRef_destroy bs blk t3\<rparr>)" "view (BlockRef_destroy bs blk t3) = (vw s)(n := d)"
proof -
  have "lift_store (\<lambda>b. scoped_update b n (\<lambda>_. d)) s = (r, s\<lparr>fs_st := BlockRef_destroy bs blk t3\<rparr>)"
    using env_acquire [OF assms(1-4)] assms(4,5) fs_envD(1) [OF assms(1)]
    by (simp add: lift_store_def scoped_update_def)
  note u = env_update [OF assms(1-3) this assms(6)]
  show "r" by (rule u(1))
  show "fk s (s\<lparr>fs_st := BlockRef_destroy bs blk t3\<rparr>)" by (rule u(2))
  show "view (BlockRef_destroy bs blk t3) = (vw s)(n := d)" using u(3) by simp
qed

lemma allocate_in_block_effect:
  assumes e: "env k s" "0 < k" and base: "base < sb_size (fs_sb s)" "unat base mod 4096 = 0"
    and a: "allocate_in_block base s = (r, s')"
  shows "fk s s' \<and> (r = Inr () \<and> vw s' = vw s \<and> group_full (fs_sb s) (vw s) base \<or>
    (\<exists>n. r = Inl (Some n) \<and> group_first (fs_sb s) (vw s) base n \<and> vw s' = alloc_view (fs_sb s) (vw s) n))"
proof -
  define b where "b = bitmap_block (fs_sb s) base"
  define d where "d = vw s b"
  have wf: "sb_wf (fs_sb s)" and st: "fs_store s = bs" using fs_envD(1,5) [OF e(1)] by auto
  have bsz: "b < sb_size (fs_sb s)" using bitmap_block_size [OF wf base(1)] by (simp add: b_def)
  obtain blk t1 where acq: "st_acquire bs b (fs_st s) = (blk, t1)" by (cases "st_acquire bs b (fs_st s)")
  note nb = env_acquire [OF e bsz acq]
  show ?thesis
  proof (cases "first_free d base (sb_size (fs_sb s)) 0")
    case None
    have "r = Inr ()" "s' = s\<lparr>fs_st := BlockRef_destroy bs blk t1\<rparr>"
      using a acq nb None by (simp_all add: allocate_in_block_def Let_def st b_def d_def)
    then show ?thesis
      using env_acquire_drop [OF e bsz acq] scan_None [where v = "vw s", OF wf base None [unfolded d_def b_def]] by simp
  next
    case (Some off)
    note sc = scan_Some [where v = "vw s", OF wf base Some [unfolded d_def b_def]]
    obtain o' t3 where w: "BlockRef_write_back bs blk (set_block_data bs blk (set_bit_at off d) t1) = (o', t3)"
      by (cases "BlockRef_write_back bs blk (set_block_data bs blk (set_bit_at off d) t1)")
    have len: "length (set_bit_at off d) = 512" using env_length [OF e(1)] by (simp add: d_def)
    note u = env_acquire_write [OF e bsz acq w len]
    define s4 where "s4 = s\<lparr>fs_st := BlockRef_destroy bs blk t3\<rparr>"
    obtain z s5 where z: "zero_block (base + off) s4 = (z, s5)" by (cases "zero_block (base + off) s4")
    have nsz: "base + off < sb_size (fs_sb s4)" using sc(1) by (simp add: s4_def group_first_def)
    note ze = zero_block_effect [OF fs_env_keeps [OF e(1) u(2), folded s4_def] e(2) nsz z]
    have "BlockRef_destroy bs (fst (BlockRef_reset bs blk t3)) x = x" for x by simp
    then have res: "r = Inl (Some (base + off))" "s' = s5"
      using a acq nb Some w z ze(1) u(1)
      by (simp_all add: allocate_in_block_def Let_def st b_def d_def s4_def BlockRef_destroy_def split_beta)
    have "vw s5 = alloc_view (fs_sb s) (vw s) (base + off)"
      using ze(3) u(3) sc(2,3) by (simp add: s4_def alloc_view_def b_def d_def)
    moreover have "fk s s5" using u(2) ze(2) unfolding s4_def by (rule fs_keeps_trans)
    ultimately show ?thesis using res sc(1) by blast
  qed
qed

text \<open>The whole search: the first free block of the disk, or none when every block is in use.\<close>

lemma allocate_from_effect:
  "env k s \<Longrightarrow> 0 < k \<Longrightarrow> unat base mod 4096 = 0 \<Longrightarrow>
   (\<forall>m. m < sb_size (fs_sb s) \<and> m < base \<longrightarrow> block_used (fs_sb s) (vw s) m) \<Longrightarrow> allocate_from base s = (r, s') \<Longrightarrow>
   fk s s' \<and> (r = None \<and> vw s' = vw s \<and> (\<forall>m < sb_size (fs_sb s). block_used (fs_sb s) (vw s) m) \<or>
     (\<exists>n. r = Some n \<and> group_first (fs_sb s) (vw s) 0 n \<and> vw s' = alloc_view (fs_sb s) (vw s) n))"
proof (induction base s rule: allocate_from.induct)
  case (1 base s)
  note e = "1.prems"(1,2) and al = "1.prems"(3) and below = "1.prems"(4)
  show ?case
  proof (cases "base < sb_size (fs_sb s)")
    case False
    then have "r = None" "s' = s" using "1.prems"(5) by (subst (asm) allocate_from.simps; simp)+
    moreover have "block_used (fs_sb s) (vw s) m" if "m < sb_size (fs_sb s)" for m
      using below that False by (meson not_less order.strict_trans2)
    ultimately show ?thesis using fs_keeps_refl [OF fs_envD(2) [OF e(1)]] by simp
  next
    case True
    obtain q s1 where a: "allocate_in_block base s = (q, s1)" by (cases "allocate_in_block base s")
    note ib = allocate_in_block_effect [OF e True al a]
    have nowrap: "unat (base + BLOCKS_PER_BITMAP_BLOCK) = unat base + 4096"
      using True sb_wfD(2) [OF fs_envD(5) [OF e(1)]]
      by (simp add: word_less_nat_alt unat_word_ariths(1) fs_consts)
    then have lt: "base < base + BLOCKS_PER_BITMAP_BLOCK" by (simp add: word_less_nat_alt)
    show ?thesis
    proof (cases q)
      case (Inl p)
      then obtain n where n: "p = Some n" "group_first (fs_sb s) (vw s) base n"
        "vw s1 = alloc_view (fs_sb s) (vw s) n" using ib by auto
      have "group_first (fs_sb s) (vw s) 0 n"
        using n(2) below by (auto simp: group_first_def intro: order.strict_trans dest: not_less [THEN iffD1])
      moreover have "r = p" "s' = s1" using "1.prems"(5) True a Inl by (subst (asm) allocate_from.simps; simp)+
      ultimately show ?thesis using n ib by auto
    next
      case (Inr p)
      then have v: "vw s1 = vw s" and full: "group_full (fs_sb s) (vw s) base" and k1: "fk s s1" using ib by auto
      have sb: "fs_sb s1 = fs_sb s" using fs_keeps_fields(2) [OF k1] .
      have rest: "allocate_from (base + BLOCKS_PER_BITMAP_BLOCK) s1 = (r, s')"
        using "1.prems"(5) True a Inr lt by (subst (asm) allocate_from.simps) simp
      have al': "unat (base + BLOCKS_PER_BITMAP_BLOCK) mod 4096 = 0" using al nowrap by simp
      have below': "\<forall>m. m < sb_size (fs_sb s1) \<and> m < base + BLOCKS_PER_BITMAP_BLOCK \<longrightarrow> block_used (fs_sb s1) (vw s1) m"
        using below full nowrap unfolding group_full_def sb v by (metis not_less word_less_nat_alt word_le_nat_alt)
      have k2: "fk s1 s'" and res: "r = None \<and> vw s' = vw s \<and> (\<forall>m < sb_size (fs_sb s). block_used (fs_sb s) (vw s) m) \<or>
          (\<exists>n. r = Some n \<and> group_first (fs_sb s) (vw s) 0 n \<and> vw s' = alloc_view (fs_sb s) (vw s) n)"
        using "1.IH" [OF True a [symmetric] Inr lt fs_env_keeps [OF e(1) k1] e(2) al' below' rest]
        unfolding sb v by auto
      show ?thesis using fs_keeps_trans [OF k1 k2] res by blast
    qed
  qed
qed

lemma allocate_block_effect:
  assumes "env k s" "0 < k" "allocate_block s = (r, s')"
  shows "fk s s'"
    and "r = None \<Longrightarrow> vw s' = vw s \<and> (\<forall>m < sb_size (fs_sb s). block_used (fs_sb s) (vw s) m)"
    and "r = Some n \<Longrightarrow> group_first (fs_sb s) (vw s) 0 n \<and> vw s' = alloc_view (fs_sb s) (vw s) n"
  using allocate_from_effect [OF assms(1,2) _ _ assms(3) [unfolded allocate_block_def]] by auto

lemma for_blocks_step:
  "b < to \<Longrightarrow> f b s = (True, s1) \<Longrightarrow> for_blocks f b to s = for_blocks f (b + 1) to s1"
  by (subst for_blocks.simps) simp

lemma for_blocks_done: "\<not> b < to \<Longrightarrow> for_blocks f b to s = (True, s)"
  by (subst for_blocks.simps) simp

lemma word_range_step: "(b :: u32) < to \<Longrightarrow> b \<le> m \<and> m < to \<longleftrightarrow> m = b \<or> b + 1 \<le> m \<and> m < to"
  using word_less_Suc_bound [of b to]
  by (auto simp: word_le_nat_alt word_less_nat_alt word_unat_eq_iff)

lemma zero_blocks_effect:
  "env k s \<Longrightarrow> 0 < k \<Longrightarrow> to \<le> sb_size (fs_sb s) \<Longrightarrow> for_blocks zero_block b to s = (r, s') \<Longrightarrow>
   r \<and> fk s s' \<and> vw s' = (\<lambda>m. if b \<le> m \<and> m < to then replicate 512 0 else vw s m)"
proof (induction "zero_block :: u32 \<Rightarrow> 's fs \<Rightarrow> bool \<times> 's fs" b to s rule: for_blocks.induct)
  case (1 b to s)
  show ?case
  proof (cases "b < to")
    case False
    then have "r" "s' = s" using "1.prems"(4) by (simp_all add: for_blocks_done)
    then show ?thesis using False fs_keeps_refl [OF fs_envD(2) [OF "1.prems"(1)]] by (auto simp: fun_eq_iff)
  next
    case True
    obtain z s1 where z: "zero_block b s = (z, s1)" by (cases "zero_block b s")
    have bsz: "b < sb_size (fs_sb s)" using True "1.prems"(3) by (rule order.strict_trans2)
    note ze = zero_block_effect [OF "1.prems"(1,2) bsz z]
    have z1: "zero_block b s = (True, s1)" using z ze(1) by simp
    have rest: "for_blocks zero_block (b + 1) to s1 = (r, s')"
      using "1.prems"(4) for_blocks_step [where f = zero_block, OF True z1] by simp
    have IH: "r \<and> fk s1 s' \<and> vw s' = (\<lambda>m. if b + 1 \<le> m \<and> m < to then replicate 512 0 else vw s1 m)"
      using "1.hyps" [OF True z1 [symmetric] refl fs_env_keeps [OF "1.prems"(1) ze(2)] "1.prems"(2) _ rest]
        fs_keeps_fields(2) [OF ze(2)] "1.prems"(3) by simp
    have "vw s' = (\<lambda>m. if b \<le> m \<and> m < to then replicate 512 0 else vw s m)"
      using IH ze(3) word_range_step [OF True] by (auto simp: fun_eq_iff)
    then show ?thesis using IH fs_keeps_trans [OF ze(2)] by simp
  qed
qed

lemma mark_blocks_effect:
  "env k s \<Longrightarrow> 0 < k \<Longrightarrow> to \<le> sb_size (fs_sb s) \<Longrightarrow> for_blocks mark_block_used b to s = (r, s') \<Longrightarrow>
   r \<and> fk s s' \<and>
   (\<forall>c < sb_size (fs_sb s). block_used (fs_sb s) (vw s') c \<longleftrightarrow> b \<le> c \<and> c < to \<or> block_used (fs_sb s) (vw s) c) \<and>
   (\<forall>m. unat m < unat (sb_bitmap_start (fs_sb s)) \<or> data_start (fs_sb s) \<le> unat m \<longrightarrow> vw s' m = vw s m)"
proof (induction "mark_block_used :: u32 \<Rightarrow> 's fs \<Rightarrow> bool \<times> 's fs" b to s rule: for_blocks.induct)
  case (1 b to s)
  show ?case
  proof (cases "b < to")
    case False
    then have "r" "s' = s" using "1.prems"(4) by (simp_all add: for_blocks_done)
    then show ?thesis using False fs_keeps_refl [OF fs_envD(2) [OF "1.prems"(1)]] by auto
  next
    case True
    obtain z s1 where z: "mark_block_used b s = (z, s1)" by (cases "mark_block_used b s")
    have bsz: "b < sb_size (fs_sb s)" using True "1.prems"(3) by (rule order.strict_trans2)
    note ze = mark_block_used_effect [OF "1.prems"(1,2) bsz z]
    have z1: "mark_block_used b s = (True, s1)" using z ze(1) by simp
    have wf: "sb_wf (fs_sb s)" using fs_envD(5) [OF "1.prems"(1)] .
    have sb: "fs_sb s1 = fs_sb s" using fs_keeps_fields(2) [OF ze(2)] .
    have rest: "for_blocks mark_block_used (b + 1) to s1 = (r, s')"
      using "1.prems"(4) for_blocks_step [where f = mark_block_used, OF True z1] by simp
    note IH = "1.hyps" [OF True z1 [symmetric] refl fs_env_keeps [OF "1.prems"(1) ze(2)] "1.prems"(2) _ rest,
        unfolded sb, OF "1.prems"(3)]
    have one: "block_used (fs_sb s) (vw s1) c \<longleftrightarrow> c = b \<or> block_used (fs_sb s) (vw s) c" if "c < sb_size (fs_sb s)" for c
      unfolding ze(3) using block_used_set [where v = "vw s", OF wf bsz that env_length [OF "1.prems"(1)]]
      by (simp add: unat_mod fs_consts)
    have same: "vw s1 m = vw s m" if "unat m < unat (sb_bitmap_start (fs_sb s)) \<or> data_start (fs_sb s) \<le> unat m" for m
      using unat_bitmap_block [OF wf bsz] that by (auto simp: ze(3))
    show ?thesis
      using IH one same word_range_step [OF True] fs_keeps_trans [OF ze(2)] by auto
  qed
qed

lemma add_root_entry_present:
  assumes e: "env k s" "0 < k" and b: "di_addrs root ! 0 = b" "b \<noteq> 0" "b < sb_size (fs_sb s)"
    and slot: "find (\<lambda>i. de_inode_number (DirectoryEntry_at (16 * i) (vw s b)) = 0) [0..<32] = Some i"
    and a: "add_root_entry root ino name s = (r, root', s')"
  shows "r" "root' = root\<lparr>di_size := di_size root + 16\<rparr>" "fk s s'"
    "vw s' = (vw s)(b := splice (16 * i)
       (DirectoryEntry_bytes \<lparr>de_inode_number = ucast ino, de_name = pad_name name\<rparr>) (vw s b))"
proof -
  have st: "fs_store s = bs" using fs_envD(1) [OF e(1)] .
  obtain blk t1 where acq: "st_acquire bs b (fs_st s) = (blk, t1)" by (cases "st_acquire bs b (fs_st s)")
  note nb = env_acquire [OF e b(3) acq]
  define d where "d = splice (16 * i) (DirectoryEntry_bytes \<lparr>de_inode_number = ucast ino, de_name = pad_name name\<rparr>) (vw s b)"
  have "i < 32" using find_Some_props [OF slot] by simp
  then have len: "length d = 512" using env_length [OF e(1)] by (simp add: d_def)
  obtain o' t3 where w: "BlockRef_write_back bs blk (set_block_data bs blk d t1) = (o', t3)"
    by (cases "BlockRef_write_back bs blk (set_block_data bs blk d t1)")
  note u = env_acquire_write [OF e b(3) acq w len]
  have cap: "unat FSBLOCK_SIZE div 16 = 32" by (simp add: fs_consts)
  have "r \<and> root' = root\<lparr>di_size := di_size root + 16\<rparr> \<and> s' = s\<lparr>fs_st := BlockRef_destroy bs blk t3\<rparr>"
    using a b(1,2) st acq nb slot w u(1) by (simp add: add_root_entry_def Let_def cap d_def)
  then show "r" "root' = root\<lparr>di_size := di_size root + 16\<rparr>" "fk s s'" "vw s' = (vw s)(b := splice (16 * i)
       (DirectoryEntry_bytes \<lparr>de_inode_number = ucast ino, de_name = pad_name name\<rparr>) (vw s b))"
    using u(2,3) by (simp_all add: d_def)
qed

lemma add_root_entry_allocate:
  assumes "di_addrs root ! 0 = 0" "di_addrs root \<noteq> []" "allocate_block s = (Some b, s1)" "b \<noteq> 0"
  shows "add_root_entry root ino name s = add_root_entry (root\<lparr>di_addrs := (di_addrs root)[0 := b]\<rparr>) ino name s1"
  unfolding add_root_entry_def using assms by simp

end

lemma root_slots:
  "find (\<lambda>i. de_inode_number (DirectoryEntry_at (16 * i) (replicate 512 0)) = 0) [0..<32] = Some 0"
  "find (\<lambda>i. de_inode_number (DirectoryEntry_at (16 * i)
     (splice 0 (DirectoryEntry_bytes (dot_entry DOT)) (replicate 512 0))) = 0) [0..<32] = Some 1"
proof -
  have split: "[0..<32] = 0 # 1 # [2..<32::nat]" by (simp add: upt_conv_Cons)
  have z: "DirectoryEntry_at (16 * i) (replicate 512 0) = \<lparr>de_inode_number = 0, de_name = replicate 14 0\<rparr>"
    if "i < 32" for i
    using that by (simp add: DirectoryEntry_at_def slice_def)
  show "find (\<lambda>i. de_inode_number (DirectoryEntry_at (16 * i) (replicate 512 0)) = 0) [0..<32] = Some 0"
    using z [of 0] by (simp add: split)
  have n: "length (de_name (dot_entry DOT)) = 14" by (simp add: dot_entry_def)
  have "DirectoryEntry_at 0 (splice 0 (DirectoryEntry_bytes (dot_entry DOT)) (replicate 512 0)) = dot_entry DOT"
    by (rule DirectoryEntry_roundtrip [OF n]) simp
  moreover have "DirectoryEntry_at 16 (splice 0 (DirectoryEntry_bytes (dot_entry DOT)) (replicate 512 0)) =
      DirectoryEntry_at 16 (replicate 512 0)"
    by (rule DirectoryEntry_at_other [OF n]) simp_all
  ultimately show "find (\<lambda>i. de_inode_number (DirectoryEntry_at (16 * i)
     (splice 0 (DirectoryEntry_bytes (dot_entry DOT)) (replicate 512 0))) = 0) [0..<32] = Some 1"
    using z [of 1] by (simp add: split dot_entry_def)
qed

lemma root_block_splice:
  "splice 16 (DirectoryEntry_bytes (dot_entry DOTDOT))
     (splice 0 (DirectoryEntry_bytes (dot_entry DOT)) (replicate 512 0)) = root_block"
  by (simp add: splice_def root_block_def dot_entry_def)

context store_contract
begin

text \<open>When exactly the metadata is in use, the first block given out is the first data block.\<close>

lemma allocate_first_data:
  assumes e: "env k s" "0 < k" and d: "unat d = data_start (fs_sb s)" "d < sb_size (fs_sb s)"
    and used: "\<forall>c < sb_size (fs_sb s). block_used (fs_sb s) (vw s) c \<longleftrightarrow> unat c < data_start (fs_sb s)"
  obtains s1 where "allocate_block s = (Some d, s1)" "fk s s1" "vw s1 = alloc_view (fs_sb s) (vw s) d"
proof -
  obtain q s1 where a: "allocate_block s = (q, s1)" by (cases "allocate_block s")
  note al = allocate_block_effect [OF e a]
  have free: "\<not> block_used (fs_sb s) (vw s) d" using used d by simp
  have "q = Some d"
  proof (cases q)
    case None
    then show ?thesis using al(2) d(2) free by blast
  next
    case (Some n)
    then have "n < sb_size (fs_sb s)" "\<not> block_used (fs_sb s) (vw s) n"
      "\<And>m. m < n \<Longrightarrow> block_used (fs_sb s) (vw s) m"
      using al(3) by (auto simp: group_first_def)
    moreover from this have "data_start (fs_sb s) \<le> unat n" using used by auto
    ultimately have "n = d" using free d(1) by (metis linorder_less_linear not_le word_less_nat_alt)
    then show ?thesis using Some by simp
  qed
  then show ?thesis using that a al by simp
qed

lemma format_root_effect:
  assumes e: "env k s" "0 < k" and ds: "d = of_nat (data_start (fs_sb s))" "data_start (fs_sb s) < unat (sb_size (fs_sb s))"
    and used: "\<forall>c < sb_size (fs_sb s). block_used (fs_sb s) (vw s) c \<longleftrightarrow> unat c < data_start (fs_sb s)"
    and ni: "ROOT_INODE < sb_ninodes (fs_sb s)"
    and f: "format_root s = (r, s')"
  shows "r" "fk s s'" "vw s' = (let v = (alloc_view (fs_sb s) (vw s) d)(d := root_block); b = inode_block (fs_sb s) ROOT_INODE
     in v(b := splice 64 (DiskInode_bytes (root_inode d)) (v b)))"
proof -
  have wf: "sb_wf (fs_sb s)" using fs_envD(5) [OF e(1)] .
  have ud: "unat d = data_start (fs_sb s)"
    using ds sb_wfD(2) [OF wf] by (simp add: unat_of_nat)
  have d0: "d \<noteq> 0" "d < sb_size (fs_sb s)" using ud ds(2) sb_wfD(4,5,3) [OF wf] by (auto simp: word_less_nat_alt)
  obtain s1 where a: "allocate_block s = (Some d, s1)" "fk s s1" and v1: "vw s1 = alloc_view (fs_sb s) (vw s) d"
    using allocate_first_data [OF e ud d0(2) used] .
  have sb1: "fs_sb s1 = fs_sb s" and env1: "env k s1"
    using fs_keeps_fields(2) [OF a(2)] fs_env_keeps [OF e(1) a(2)] by auto
  have vd: "vw s1 d = replicate 512 0" by (simp add: v1 alloc_view_def)
  define root0 where "root0 = root_template\<lparr>di_addrs := d # replicate 12 0\<rparr>"
  have alloc: "add_root_entry root_template ROOT_INODE DOT s = add_root_entry root0 ROOT_INODE DOT s1"
    using add_root_entry_allocate [OF _ _ a(1) d0(1), of root_template]
    by (simp add: root_template_def root0_def numeral_eq_Suc)
  obtain r1 root1 s2 where e1: "add_root_entry root0 ROOT_INODE DOT s1 = (r1, root1, s2)" by (metis prod_cases3)
  note p1 = add_root_entry_present [OF env1 e(2) _ d0(1) _ _ e1, unfolded vd sb1, OF _ d0(2) root_slots(1)]
  have c1: "ucast ROOT_INODE = (1 :: u16)" by (simp add: fs_consts)
  have v2: "vw s2 = (vw s1)(d := splice 0 (DirectoryEntry_bytes (dot_entry DOT)) (replicate 512 0))"
    and r1: "r1" "root1 = root0\<lparr>di_size := 16\<rparr>" "fk s1 s2"
    using p1 by (simp_all add: root0_def root_template_def dot_entry_def c1)
  have sb2: "fs_sb s2 = fs_sb s" and env2: "env k s2"
    using fs_keeps_fields(2) [OF r1(3)] sb1 fs_env_keeps [OF env1 r1(3)] by auto
  obtain r2 root2 s3 where e2: "add_root_entry root1 ROOT_INODE DOTDOT s2 = (r2, root2, s3)" by (metis prod_cases3)
  have vd2: "vw s2 d = splice 0 (DirectoryEntry_bytes (dot_entry DOT)) (replicate 512 0)" by (simp add: v2)
  note p2 = add_root_entry_present [OF env2 e(2) _ d0(1) _ _ e2, unfolded vd2 sb2, OF _ d0(2) root_slots(2)]
  have v3: "vw s3 = (vw s1)(d := root_block)" and r2: "r2" "root2 = root_inode d" "fk s2 s3"
    using p2 r1(2) root_block_splice v2 by (simp_all add: root0_def root_template_def root_inode_def dot_entry_def c1)
  have sb3: "fs_sb s3 = fs_sb s" and env3: "env k s3"
    using fs_keeps_fields(2) [OF r2(3)] sb2 fs_env_keeps [OF env2 r2(3)] by auto
  have w: "write_disk_inode ROOT_INODE (root_inode d) s3 = (r, s')"
    using f alloc e1 e2 r1 r2 by (simp add: format_root_def)
  have la: "length (di_addrs (root_inode d)) = 13" by (simp add: root_inode_def)
  note we = write_disk_inode_effect [OF env3 e(2) _ la w, unfolded sb3, OF ni]
  show "r" by (rule we(1))
  show "fk s s'" using a(2) r1(3) r2(3) we(2) by (blast intro: fs_keeps_trans)
  show "vw s' = (let v = (alloc_view (fs_sb s) (vw s) d)(d := root_block); b = inode_block (fs_sb s) ROOT_INODE
     in v(b := splice 64 (DiskInode_bytes (root_inode d)) (v b)))"
    using we(3) by (simp add: v3 v1 Let_def fs_consts)
qed

end

text \<open>The writes of \<open>format\<close> put together.\<close>

lemma root_inode_block:
  assumes "j < 8"
  shows "DiskInode_at (j * 64) (splice 64 (DiskInode_bytes (root_inode d)) (replicate 512 0)) =
    (if j = 1 then root_inode d else DiskInode_zero)"
proof -
  have la: "length (di_addrs (root_inode d)) = 13" by (simp add: root_inode_def)
  have "DiskInode_at 64 (splice 64 (DiskInode_bytes (root_inode d)) (replicate 512 0)) = root_inode d"
    by (rule DiskInode_roundtrip [OF la]) simp
  moreover have "DiskInode_at (j * 64) (splice 64 (DiskInode_bytes (root_inode d)) (replicate 512 0)) = DiskInode_zero"
    if "j \<noteq> 1"
    using DiskInode_at_other [OF la, of 64 "replicate 512 0" "j * 64"] DiskInode_at_zero [of "j * 64" 512] assms that
    by (cases "j = 0") auto
  ultimately show ?thesis by auto
qed

lemma formatted_final:
  assumes fmt: "formattable nb" "format_superblock nb = (sb, d)" and len: "\<And>m. length (v m) = 512"
    and one: "SuperBlock_at (v 1) = sb"
    and used: "\<forall>c < sb_size sb. block_used sb v c \<longleftrightarrow> unat c < data_start sb"
    and zero: "\<And>m. 2 \<le> unat m \<Longrightarrow> unat m < 27 \<Longrightarrow> v m = replicate 512 0"
    and v': "v' = (let v1 = (alloc_view sb v d)(d := root_block); b = inode_block sb ROOT_INODE
      in v1(b := splice 64 (DiskInode_bytes (root_inode d)) (v1 b)))"
  shows "formatted sb v'"
proof -
  note p = format_superblock_props [OF fmt]
  have dsz: "d < sb_size sb" and dd: "27 \<le> unat d" "data_start sb \<le> unat d"
    using p sb_wfD(4) [OF p(1)] by (auto simp: word_less_nat_alt)
  define b where "b = inode_block sb ROOT_INODE"
  have b: "b = 2" by (simp add: b_def inode_block_def p fs_consts)
  have d2: "d \<noteq> 2" "d \<noteq> 1" "b \<noteq> d" using dd by (auto simp: b)
  have av: "alloc_view sb v d m = v m" if "unat m < 27" for m
    using alloc_view_other [OF p(1) dsz, of m v] that dd p(6) by (cases "m = d") auto
  have v'b: "v' = (alloc_view sb v d)(d := root_block, 2 := splice 64 (DiskInode_bytes (root_inode d)) (replicate 512 0))"
    using d2 av [of 2] zero [of 2] by (simp add: v' Let_def b [unfolded b_def])
  have used': "block_used sb v' c \<longleftrightarrow> unat c \<le> data_start sb" if c: "c < sb_size sb" for c
  proof -
    have "block_used sb v' c = block_used sb (alloc_view sb v d) c"
      using block_used_data [OF p(1) c dd(2)] unat_bitmap_block(1) [OF p(1) c] p(6)
      by (auto simp: v'b block_used_def)
    then show ?thesis
      using block_used_alloc [where v = v, OF p(1) dsz c len dd(2)] used c p(2) by (auto simp: word_unat_eq_iff)
  qed
  have inode: "disk_inode sb v' i = (if i = ROOT_INODE then root_inode d else DiskInode_zero)" if i: "i < sb_ninodes sb" for i
  proof (cases "inode_block sb i = 2")
    case True
    then have i8: "unat i < 8" using unat_inode_block(1) [OF p(1) i] p by (simp add: div_eq_0_iff)
    have off: "unat (i mod INODES_PER_BLOCK) = unat i" using i8 by (simp add: unat_mod fs_consts)
    show ?thesis using root_inode_block [OF i8] off True by (auto simp: disk_inode_def v'b fs_consts word_unat_eq_iff)
  next
    case False
    have bi: "unat (inode_block sb i) = 2 + unat i div 8" "unat (inode_block sb i) < 27"
      using unat_inode_block [OF p(1) i] p by simp_all
    have "i \<noteq> ROOT_INODE" using False by (auto simp: inode_block_def p fs_consts)
    moreover have "v' (inode_block sb i) = replicate 512 0"
      using False bi dd av [of "inode_block sb i"] zero [of "inode_block sb i"] by (auto simp: v'b)
    moreover have "unat (i mod INODES_PER_BLOCK) < 8" by (simp add: unat_mod fs_consts)
    ultimately show ?thesis by (simp add: disk_inode_def DiskInode_at_zero)
  qed
  have "v' 1 = v 1" using d2 av [of 1] by (simp add: v'b)
  moreover have "v' d = root_block" using d2 by (simp add: v'b)
  moreover have "ROOT_INODE < sb_ninodes sb" by (simp add: p fs_consts)
  ultimately show ?thesis using one used' inode p(8) by (simp add: formatted_def)
qed

lemma block_used_zero:
  "v (bitmap_block sb c) = replicate 512 0 \<Longrightarrow> \<not> block_used sb v c"
proof -
  have "unat c mod 4096 div 8 < 512" by (simp add: less_mult_imp_div_less)
  then show "v (bitmap_block sb c) = replicate 512 0 \<Longrightarrow> \<not> block_used sb v c"
    by (simp add: block_used_def bm_def)
qed

context store_contract
begin

lemma format_effect:
  assumes st: "fs_store s = bs" "ok (fs_st s)" "card (held refs (fs_st s)) < cap" "\<And>n. n < nb \<Longrightarrow> usable n"
    and fmt: "formattable nb" "format_superblock nb = (sb, d)" and f: "format nb s = (r, s')"
  shows "r" "fk (s\<lparr>fs_sb := sb\<rparr>) s'" "formatted sb (vw s')"
proof -
  note p = format_superblock_props [OF fmt]
  define s0 where "s0 = s\<lparr>fs_sb := sb\<rparr>"
  have e0: "env 1 s0" using st p by (simp add: s0_def fs_env_def)
  have sb0: "fs_sb s0 = sb" by (simp add: s0_def)
  have dle: "d \<le> sb_size sb" using p by (simp add: word_le_nat_alt)
  obtain r1 s1 where z: "for_blocks zero_block 2 d s0 = (r1, s1)" by (cases "for_blocks zero_block 2 d s0")
  note z1 = zero_blocks_effect [OF e0 _ _ z, unfolded sb0, OF _ dle]
  have k1: "fk s0 s1" and e1: "env 1 s1" using z1 fs_env_keeps [OF e0] by auto
  have sb1: "fs_sb s1 = sb" using fs_keeps_fields(2) [OF k1] sb0 by simp
  obtain r2 s2 where m: "for_blocks mark_block_used 0 d s1 = (r2, s2)" by (cases "for_blocks mark_block_used 0 d s1")
  note m1 = mark_blocks_effect [OF e1 _ _ m, unfolded sb1, OF _ dle]
  have k2: "fk s1 s2" and e2: "env 1 s2" using m1 fs_env_keeps [OF e1] by auto
  have sb2: "fs_sb s2 = sb" using fs_keeps_fields(2) [OF k2] sb1 by simp
  obtain r3 s3 where w: "write_superblock s2 = (r3, s3)" by (cases "write_superblock s2")
  have "1 < sb_size (fs_sb s2)" using p sb2 fmt(1) by (simp add: word_less_nat_alt formattable_def)
  note w1 = env_update [OF e2 _ this w [unfolded write_superblock_def]]
  have w3: "r3" "fk s2 s3" "vw s3 = (vw s2)(1 := SuperBlock_bytes sb @ replicate 488 0)"
    using w1 by (simp_all add: fs_consts sb2 splice_def)
  have e3: "env 1 s3" and sb3: "fs_sb s3 = sb"
    using fs_env_keeps [OF e2 w3(2)] fs_keeps_fields(2) [OF w3(2)] sb2 by auto
  have root: "format_root s3 = (r, s')"
    using f fmt(2) z m w z1 m1 w3 p by (simp add: format_def s0_def)
  have used: "block_used sb (vw s3) c \<longleftrightarrow> unat c < data_start sb" if c: "c < sb_size sb" for c
  proof -
    have b: "27 \<le> unat (bitmap_block sb c)" "unat (bitmap_block sb c) < data_start sb"
      using unat_bitmap_block [OF p(1) c] p(6) by simp_all
    then have "vw s1 (bitmap_block sb c) = replicate 512 0"
      using z1 p(2) by (simp add: word_le_nat_alt word_less_nat_alt)
    then have "\<not> block_used sb (vw s1) c" by (rule block_used_zero)
    moreover have "block_used sb (vw s3) c = block_used sb (vw s2) c"
      using b by (auto simp: block_used_def w3(3))
    ultimately show ?thesis using m1 c p(2) by (simp add: word_less_nat_alt)
  qed
  have zero: "vw s3 m = replicate 512 0" if "2 \<le> unat m" "unat m < 27" for m
    using that z1 m1 p(2,6) sb_wfD(4) [OF p(1)] by (auto simp: w3(3) word_le_nat_alt word_less_nat_alt)
  have lt: "data_start (fs_sb s3) < unat (sb_size (fs_sb s3))" "d = of_nat (data_start (fs_sb s3))"
    "ROOT_INODE < sb_ninodes (fs_sb s3)"
    using p by (simp_all add: sb3 fs_consts)
  note fr = format_root_effect [OF e3 _ lt(2,1) _ lt(3) root, unfolded sb3]
  show "r" using fr(1) used by simp
  have "fk s3 s'" using fr(2) used by simp
  then show "fk (s\<lparr>fs_sb := sb\<rparr>) s'"
    using fs_keeps_trans [OF fs_keeps_trans [OF fs_keeps_trans [OF k1 k2] w3(2)]] by (simp add: s0_def)
  show "formatted sb (vw s')"
    using formatted_final [where v = "vw s3", OF fmt _ _ _ zero fr(3)] used env_length [OF e3]
    by (simp add: w3(3) SuperBlock_roundtrip)
qed

lemma load_superblock_effect:
  assumes "fs_store s = bs" "ok (fs_st s)" "card (held refs (fs_st s)) < cap" "usable 1" "load_superblock s = (r, s')"
  shows "r \<longleftrightarrow> sb_magic (SuperBlock_at (vw s 1)) = FS_MAGIC" "vw s' = vw s"
    "fk (s\<lparr>fs_sb := SuperBlock_at (vw s 1)\<rparr>) s'"
proof -
  obtain q s1 where q: "lift_store (\<lambda>bs. scoped_read bs 1) s = (q, s1)"
    by (cases "lift_store (\<lambda>bs. scoped_read bs 1) s")
  note l = lift_read [OF assms(1,2) q]
  have res: "r \<longleftrightarrow> sb_magic (SuperBlock_at (vw s 1)) = FS_MAGIC" "s' = s1\<lparr>fs_sb := SuperBlock_at (vw s 1)\<rparr>"
    using assms(5) q l(4) assms(3,4) by (auto simp: load_superblock_def Let_def)
  then show "r \<longleftrightarrow> sb_magic (SuperBlock_at (vw s 1)) = FS_MAGIC" "vw s' = vw s" using l(2) by simp_all
  show "fk (s\<lparr>fs_sb := SuperBlock_at (vw s 1)\<rparr>) s'"
    using l(1) res(2) by (cases s; cases s1) (simp add: fs_keeps_def)
qed

lemma initialize_effect:
  assumes st: "ok (fs_st s)" "card (held refs (fs_st s)) < cap" "\<And>n. n < nb \<Longrightarrow> usable n"
    and fmt: "formattable nb" and i: "fs_initialize nb (Some bs) con s = (r, s')"
  shows "r" "fs_store s' = bs" "kp (fs_st s) (fs_st s')" "fs_diverged s' = fs_diverged s"
    "sb_magic (SuperBlock_at (vw s 1)) = FS_MAGIC \<Longrightarrow> vw s' = vw s \<and> fs_sb s' = SuperBlock_at (vw s 1)"
    "sb_magic (SuperBlock_at (vw s 1)) \<noteq> FS_MAGIC \<Longrightarrow>
       fs_sb s' = fst (format_superblock nb) \<and> formatted (fs_sb s') (vw s')"
proof -
  define s0 where "s0 = s\<lparr>fs_store := bs, fs_console := con\<rparr>"
  obtain r1 s1 where l: "load_superblock s0 = (r1, s1)" by (cases "load_superblock s0")
  have one: "usable 1" using st(3) fmt by (simp add: formattable_def word_less_nat_alt)
  have s0: "fs_store s0 = bs" "ok (fs_st s0)" "card (held refs (fs_st s0)) < cap" using st by (simp_all add: s0_def)
  note le = load_superblock_effect [OF s0 one l]
  have vw0: "vw s0 = vw s" by (simp add: s0_def)
  have k1: "kp (fs_st s) (fs_st s1)" and f1: "fs_store s1 = bs" "fs_diverged s1 = fs_diverged s"
    "fs_sb s1 = SuperBlock_at (vw s 1)"
    using le(3) fs_keeps_fields [OF le(3)] vw0 by (simp_all add: fs_keeps_def s0_def)
  define mag where "mag \<longleftrightarrow> sb_magic (SuperBlock_at (vw s 1)) = FS_MAGIC"
  have "r \<and> fs_store s' = bs \<and> kp (fs_st s) (fs_st s') \<and> fs_diverged s' = fs_diverged s \<and>
    (mag \<longrightarrow> vw s' = vw s \<and> fs_sb s' = SuperBlock_at (vw s 1)) \<and>
    (\<not> mag \<longrightarrow> fs_sb s' = fst (format_superblock nb) \<and> formatted (fs_sb s') (vw s'))"
  proof (cases mag)
    case True
    then have "r" "s' = s1" using i l le(1) vw0 by (simp_all add: fs_initialize_def s0_def mag_def)
    then show ?thesis using k1 f1 le(2) vw0 True by simp
  next
    case False
    define s2 where "s2 = (if fs_console s1 then s1\<lparr>fs_log := fs_log s1 @ [not_formatted_message]\<rparr> else s1)"
    have f2: "fs_store s2 = bs" "fs_st s2 = fs_st s1" "fs_diverged s2 = fs_diverged s" using f1 by (simp_all add: s2_def)
    have h2: "held refs (fs_st s1) = held refs (fs_st s)" "ok (fs_st s1)"
      using k1 keeps_held [OF k1] keeps_settled [OF k1] by auto
    obtain sb d where sb: "format_superblock nb = (sb, d)" by (cases "format_superblock nb")
    obtain r3 s3 where f: "format nb s2 = (r3, s3)" by (cases "format nb s2")
    note fe = format_effect [OF f2(1) _ _ st(3) fmt sb f, unfolded f2(2) h2(1), OF h2(2) st(2)]
    note ff = fs_keeps_fields [OF fe(2)]
    have k3: "kp (fs_st s) (fs_st s3)"
      using fe(2) f2(2) k1 by (auto simp: fs_keeps_def intro: keeps_trans)
    have l3: "load_superblock s3 = (r, s')"
      using i l le(1) vw0 False f fe(1) by (simp add: fs_initialize_def s0_def s2_def [symmetric] mag_def)
    have "held refs (fs_st s3) = held refs (fs_st s)" using keeps_held [OF k3] .
    note l4 = load_superblock_effect [OF _ _ _ one l3, unfolded this, OF _ keeps_settled [OF k3] st(2)]
    have sb1: "SuperBlock_at (vw s3 1) = sb" using fe(3) by (simp add: formatted_def)
    have st3: "fs_store s3 = bs" "fs_diverged s3 = fs_diverged s" using ff f2 by simp_all
    have k4: "kp (fs_st s3) (fs_st s')" "fs_store s' = bs" "fs_diverged s' = fs_diverged s" "fs_sb s' = sb"
      using l4(3) fs_keeps_fields [OF l4(3)] st3 sb1 by (simp_all add: fs_keeps_def)
    have "sb_magic sb = FS_MAGIC" using format_superblock_props(1) [OF fmt sb] by (simp add: sb_wf_def)
    then show ?thesis
      using l4(1,2) st3 sb1 k4 keeps_trans [OF k3 k4(1)] fe(3) sb False by simp
  qed
  then show "r" "fs_store s' = bs" "kp (fs_st s) (fs_st s')" "fs_diverged s' = fs_diverged s"
    "sb_magic (SuperBlock_at (vw s 1)) = FS_MAGIC \<Longrightarrow> vw s' = vw s \<and> fs_sb s' = SuperBlock_at (vw s 1)"
    "sb_magic (SuperBlock_at (vw s 1)) \<noteq> FS_MAGIC \<Longrightarrow>
       fs_sb s' = fst (format_superblock nb) \<and> formatted (fs_sb s') (vw s')"
    unfolding mag_def by blast+
qed

end

section \<open>A file system mounted on the buffer cache\<close>

definition mounted :: "('d \<Rightarrow> u64 \<Rightarrow> bytes) \<Rightarrow> (u64 \<Rightarrow> bool) \<Rightarrow> 'd cache fs \<Rightarrow> bool" where
  "mounted contents good s \<longleftrightarrow>
     fs_store s = BlockStore \<and> store_inv contents good (fs_st s) \<and> (\<forall>n. cache_refs (fs_st s) n = 0) \<and>
     (\<forall>n < sb_size (fs_sb s). good (ucast n)) \<and> sb_wf (fs_sb s)"

abbreviation fs_view :: "('d \<Rightarrow> u64 \<Rightarrow> bytes) \<Rightarrow> 'd cache fs \<Rightarrow> u32 \<Rightarrow> bytes" where
  "fs_view contents s \<equiv> cache_view contents (fs_st s)"

lemma mounted_env:
  assumes "mounted contents good s" "k \<le> NBUF"
  shows "fs_env BlockStore (store_inv contents good) cache_refs (cache_synced contents) (\<lambda>n. good (ucast n)) NBUF k s"
  using assms by (simp add: mounted_def fs_env_def settled_def held_def)

lemma mounted_keeps:
  assumes "mounted contents good s" "fs_keeps (store_inv contents good) cache_refs cache_loc (cache_synced contents) s s'"
  shows "mounted contents good s'"
  using assms(1) fs_keeps_fields [OF assms(2)] by (simp add: mounted_def settled_def)

lemma formatted_meta_used:
  assumes "sb_wf sb" "formatted sb v"
  shows "meta_used sb v"
  using assms sb_wfD(1) [OF assms(1)] by (auto simp: meta_used_def formatted_def word_less_nat_alt)

text \<open>A file system made on the RAM disk, for the witnesses.\<close>

definition fresh_fs :: "'s \<Rightarrow> 's fs" where
  "fresh_fs st =
     \<lparr>fs_store = NullBlockStore, fs_st = st,
      fs_sb = \<lparr>sb_magic = 0, sb_size = 0, sb_nblocks = 0, sb_ninodes = 0, sb_inode_start = 0, sb_bitmap_start = 0\<rparr>,
      fs_console = False, fs_log = [], fs_diverged = False\<rparr>"

definition ram_fs :: "(u64 \<Rightarrow> bytes) cache fs" where
  "ram_fs = snd (fs_initialize 2048 (Some BlockStore) True (fresh_fs ram_cache))"

lemma formattable_2048 [simp]: "formattable 2048"
  by (simp add: formattable_def)

lemma cache_initialize_fs:
  assumes "store_inv contents good (fs_st s)" "\<And>n. cache_refs (fs_st s) n = 0"
    and "\<And>n. n < nb \<Longrightarrow> good (ucast n)" "formattable nb" "fs_initialize nb (Some BlockStore) con s = (r, s')"
  shows "r" "store_inv contents good (fs_st s')" "cache_refs (fs_st s') n = 0" "fs_store s' = BlockStore"
    "fs_diverged s' = fs_diverged s"
    "sb_magic (SuperBlock_at (fs_view contents s 1)) = FS_MAGIC \<Longrightarrow>
       fs_view contents s' = fs_view contents s \<and> fs_sb s' = SuperBlock_at (fs_view contents s 1)"
    "sb_magic (SuperBlock_at (fs_view contents s 1)) \<noteq> FS_MAGIC \<Longrightarrow>
       fs_sb s' = fst (format_superblock nb) \<and> formatted (fs_sb s') (fs_view contents s') \<and> mounted contents good s'"
proof -
  have "settled (store_inv contents good) cache_refs (cache_synced contents) (fs_st s)"
    and "card (held cache_refs (fs_st s)) < NBUF"
    using assms(1,2) by (simp_all add: settled_def held_def NBUF_def)
  note ie = bc.initialize_effect [OF this assms(3,4,5), rotated]
  obtain sb d where sb: "format_superblock nb = (sb, d)" by (cases "format_superblock nb")
  note p = format_superblock_props [OF assms(4) sb]
  show "r" "fs_store s' = BlockStore" "fs_diverged s' = fs_diverged s"
    "store_inv contents good (fs_st s')" "cache_refs (fs_st s') n = 0"
    "sb_magic (SuperBlock_at (fs_view contents s 1)) = FS_MAGIC \<Longrightarrow>
       fs_view contents s' = fs_view contents s \<and> fs_sb s' = SuperBlock_at (fs_view contents s 1)"
    using ie assms(2,3) by (simp_all add: keeps_def settled_def)
  then show "sb_magic (SuperBlock_at (fs_view contents s 1)) \<noteq> FS_MAGIC \<Longrightarrow>
       fs_sb s' = fst (format_superblock nb) \<and> formatted (fs_sb s') (fs_view contents s') \<and> mounted contents good s'"
    using ie(6) ie(3) assms(2,3) p sb by (auto simp: mounted_def keeps_def settled_def)
qed

lemma ram_magic: "sb_magic (SuperBlock_at (fs_view ram_contents (fresh_fs ram_cache) 1)) \<noteq> FS_MAGIC"
  by (simp add: fresh_fs_def ram_cache_props(6) SuperBlock_at_def slice_def BLOCK_SIZE_def fs_consts)

lemma ram_fs_props:
  "mounted ram_contents ram_good ram_fs" "formatted (fs_sb ram_fs) (fs_view ram_contents ram_fs)"
  "meta_used (fs_sb ram_fs) (fs_view ram_contents ram_fs)" "fs_sb ram_fs = fst (format_superblock 2048)"
  "sb_size (fs_sb ram_fs) = 2048" "sb_ninodes (fs_sb ram_fs) = 200" "data_start (fs_sb ram_fs) = 28"
proof -
  have good: "\<And>n. n < 2048 \<Longrightarrow> ram_good (ucast (n :: u32))"
    by (simp add: ram_good_def word_less_nat_alt unsigned_ucast_eq take_bit_nat_eq_self)
  have st: "store_inv ram_contents ram_good (fs_st (fresh_fs ram_cache))" "\<And>n. cache_refs (fs_st (fresh_fs ram_cache)) n = 0"
    using ram_cache_props by (simp_all add: fresh_fs_def)
  obtain r where i: "fs_initialize 2048 (Some BlockStore) True (fresh_fs ram_cache) = (r, ram_fs)"
    by (metis ram_fs_def prod.collapse)
  note p = cache_initialize_fs(7) [OF st good formattable_2048 i ram_magic]
  then show m: "mounted ram_contents ram_good ram_fs" "formatted (fs_sb ram_fs) (fs_view ram_contents ram_fs)"
    and sb: "fs_sb ram_fs = fst (format_superblock 2048)" by auto
  then show "meta_used (fs_sb ram_fs) (fs_view ram_contents ram_fs)"
    using formatted_meta_used by (auto simp: mounted_def)
  have "format_superblock 2048 = (fs_sb ram_fs, snd (format_superblock 2048))" using sb by simp
  note q = format_superblock_props [OF formattable_2048 this]
  then show "sb_size (fs_sb ram_fs) = 2048" "sb_ninodes (fs_sb ram_fs) = 200" "data_start (fs_sb ram_fs) = 28"
    by (simp_all add: data_start_def)
qed

section \<open>Properties\<close>

text \<open>
  C5. \<open>initialize\<close> on the buffer cache succeeds on every device large enough to be formatted. A disk with the
  right magic is mounted unchanged; any other disk is formatted: the superblock read back describes
  disjoint areas, exactly the metadata and the root directory's block are in use, inode 1 is
  the root directory holding \<open>.\<close> and \<open>..\<close>, and every other inode is unused. Without a store,
  \<open>initialize\<close> fails and touches nothing.
\<close>

theorem fs_initialize_correct:
  assumes "store_inv contents good (fs_st s)" and "\<And>n. cache_refs (fs_st s) n = 0"
    and "\<And>n. n < total_blocks \<Longrightarrow> good (ucast n)" and "formattable total_blocks"
    and "fs_initialize total_blocks (Some BlockStore) con s = (r, s')"
  shows "r \<and> store_inv contents good (fs_st s') \<and> (\<forall>n. cache_refs (fs_st s') n = 0) \<and>
    (if sb_magic (SuperBlock_at (fs_view contents s 1)) = FS_MAGIC
     then fs_view contents s' = fs_view contents s \<and> fs_sb s' = SuperBlock_at (fs_view contents s 1)
     else mounted contents good s' \<and> fs_sb s' = fst (format_superblock total_blocks) \<and>
       formatted (fs_sb s') (fs_view contents s')) \<and>
    fst (fs_initialize total_blocks None con s) = False \<and>
    fs_st (snd (fs_initialize total_blocks None con s)) = fs_st s"
proof -
  have "fst (fs_initialize total_blocks None con s) = False \<and>
      fs_st (snd (fs_initialize total_blocks None con s)) = fs_st s"
  proof -
    obtain sb d where sb: "format_superblock total_blocks = (sb, d)" by (cases "format_superblock total_blocks")
    have "2 < d" "sb_inode_start sb = 2"
      using format_superblock_props(2,4,6) [OF assms(4) sb] sb_wfD(4) [OF format_superblock_props(1) [OF assms(4) sb]]
        format_superblock_props(5) [OF assms(4) sb] by (simp_all add: word_less_nat_alt)
    then have "for_blocks zero_block 2 d x = (False, x)" if "fs_store x = NullBlockStore" for x :: "'a cache fs"
      using that by (subst for_blocks.simps) (simp add: zero_block_def lift_store_def)
    then show ?thesis using sb \<open>sb_inode_start sb = 2\<close>
      by (simp add: fs_initialize_def load_superblock_def lift_store_def format_def Let_def)
  qed
  then show ?thesis using cache_initialize_fs [OF assms] by auto
qed

theorem fs_initialize_correct_witness:
  "mounted ram_contents ram_good ram_fs \<and> formatted (fs_sb ram_fs) (fs_view ram_contents ram_fs) \<and>
   fst (fs_initialize 2048 (Some BlockStore) True (fresh_fs ram_cache))"
proof -
  have good: "\<And>n. n < 2048 \<Longrightarrow> ram_good (ucast (n :: u32))"
    by (simp add: ram_good_def word_less_nat_alt unsigned_ucast_eq take_bit_nat_eq_self)
  have st: "store_inv ram_contents ram_good (fs_st (fresh_fs ram_cache))" "\<And>n. cache_refs (fs_st (fresh_fs ram_cache)) n = 0"
    using ram_cache_props by (simp_all add: fresh_fs_def)
  obtain r where i: "fs_initialize 2048 (Some BlockStore) True (fresh_fs ram_cache) = (r, ram_fs)"
    by (metis ram_fs_def prod.collapse)
  show ?thesis using fs_initialize_correct [OF st good formattable_2048 i] ram_magic i by auto
qed

text \<open>
  C6. \<open>allocate_block\<close> on a mounted file system: it returns the lowest block that was free, which lies in the
  data area, marks exactly that block used, hands it out filled with zeros and changes neither an
  inode nor another block outside the bitmap; it fails exactly when every block is in use, and
  then changes nothing.
\<close>

theorem allocate_block_correct:
  assumes "mounted contents good s" and "meta_used (fs_sb s) (fs_view contents s)"
    and "allocate_block s = (r, s')"
  shows "mounted contents good s' \<and> fs_sb s' = fs_sb s \<and> fs_diverged s' = fs_diverged s \<and>
    meta_used (fs_sb s) (fs_view contents s') \<and>
    (case r of
       None \<Rightarrow> fs_view contents s' = fs_view contents s \<and>
         (\<forall>c < sb_size (fs_sb s). block_used (fs_sb s) (fs_view contents s) c)
     | Some n \<Rightarrow> data_start (fs_sb s) \<le> unat n \<and> n < sb_size (fs_sb s) \<and>
         \<not> block_used (fs_sb s) (fs_view contents s) n \<and>
         (\<forall>c < n. block_used (fs_sb s) (fs_view contents s) c) \<and>
         (\<forall>c < sb_size (fs_sb s). block_used (fs_sb s) (fs_view contents s') c \<longleftrightarrow>
            c = n \<or> block_used (fs_sb s) (fs_view contents s) c) \<and>
         fs_view contents s' n = replicate 512 0 \<and>
         (\<forall>m. m \<noteq> n \<and> (unat m < unat (sb_bitmap_start (fs_sb s)) \<or> data_start (fs_sb s) \<le> unat m) \<longrightarrow>
            fs_view contents s' m = fs_view contents s m))"
proof -
  have env: "fs_env BlockStore (store_inv contents good) cache_refs (cache_synced contents) (\<lambda>n. good (ucast n)) NBUF 1 s"
    using mounted_env [OF assms(1)] by (simp add: NBUF_def)
  note a = bc.allocate_block_effect [OF env zero_less_one assms(3)]
  have wf: "sb_wf (fs_sb s)" using fs_envD(5) [OF env] .
  have base: "mounted contents good s'" "fs_sb s' = fs_sb s" "fs_diverged s' = fs_diverged s"
    using mounted_keeps [OF assms(1) a(1)] fs_keeps_fields(2,5) [OF a(1)] by auto
  show ?thesis
  proof (cases r)
    case None
    then show ?thesis using base a(2) assms(2) by simp
  next
    case (Some n)
    then have gf: "group_first (fs_sb s) (fs_view contents s) 0 n"
      and v: "fs_view contents s' = alloc_view (fs_sb s) (fs_view contents s) n" using a(3) by auto
    have n: "n < sb_size (fs_sb s)" "\<not> block_used (fs_sb s) (fs_view contents s) n" using gf by (auto simp: group_first_def)
    have dn: "data_start (fs_sb s) \<le> unat n" using free_is_data [OF assms(2) n(2)] .
    have len: "length (fs_view contents s (bitmap_block (fs_sb s) n)) = 512"
      using bc.env_length [OF env] by simp
    show ?thesis
      using base Some gf n dn block_used_alloc [where v = "fs_view contents s", OF wf n(1) _ len dn]
        meta_used_alloc [where v = "fs_view contents s", OF wf n(1) len dn assms(2)]
        alloc_view_other [where v = "fs_view contents s", OF wf n(1)]
      unfolding v by (simp add: group_first_def) (simp add: alloc_view_def)
  qed
qed

theorem allocate_block_correct_witness:
  "mounted ram_contents ram_good (snd (allocate_block ram_fs)) \<and> fst (allocate_block ram_fs) = Some 29"
proof -
  note p = ram_fs_props
  obtain r s' where a: "allocate_block ram_fs = (r, s')" by (cases "allocate_block ram_fs")
  note c = allocate_block_correct [OF p(1,3) a]
  have used: "block_used (fs_sb ram_fs) (fs_view ram_contents ram_fs) m \<longleftrightarrow> unat m \<le> 28" if "m < 2048" for m
    using p(2,5,7) that by (simp add: formatted_def)
  have "r = Some 29"
  proof (cases r)
    case None
    then show ?thesis using c used [of 29] p(5) by simp
  next
    case (Some n)
    then have n: "n < 2048" "\<not> unat n \<le> 28" "\<forall>m < n. unat m \<le> 28"
      using c p(5) used by (auto dest: order.strict_trans)
    then have "\<not> 29 < n" by (auto dest: spec [of _ 29])
    then have "n = 29" using n(2) by (simp add: word_less_nat_alt word_unat_eq_iff)
    then show ?thesis using Some by simp
  qed
  then show ?thesis using a c by simp
qed

text \<open>
  C7. \<open>free_block\<close> makes exactly the given block free, keeps every other status and every block outside the
  bitmap, and the next \<open>allocate_block\<close> succeeds with a block that is at or below the freed one.
\<close>

theorem free_block_correct:
  assumes "mounted contents good s" and "n < sb_size (fs_sb s)" and "s' = free_block n s"
    and "allocate_block s' = (r, s'')"
  shows "mounted contents good s' \<and> fs_sb s' = fs_sb s \<and>
    (\<forall>c < sb_size (fs_sb s). block_used (fs_sb s) (fs_view contents s') c \<longleftrightarrow>
       c \<noteq> n \<and> block_used (fs_sb s) (fs_view contents s) c) \<and>
    (\<forall>m. unat m < unat (sb_bitmap_start (fs_sb s)) \<or> data_start (fs_sb s) \<le> unat m \<longrightarrow>
       fs_view contents s' m = fs_view contents s m) \<and>
    (\<exists>k. r = Some k \<and> k \<le> n)"
proof -
  have env: "fs_env BlockStore (store_inv contents good) cache_refs (cache_synced contents) (\<lambda>n. good (ucast n)) NBUF 1 s"
    using mounted_env [OF assms(1)] by (simp add: NBUF_def)
  note f = bc.free_block_effect [OF env zero_less_one assms(2) assms(3) [symmetric]]
  have wf: "sb_wf (fs_sb s)" using fs_envD(5) [OF env] .
  note env' = fs_env_keeps [OF env f(1)]
  note a = bc.allocate_block_effect [OF env' zero_less_one assms(4)]
  have sb: "fs_sb s' = fs_sb s" using fs_keeps_fields(2) [OF f(1)] .
  have used: "block_used (fs_sb s) (fs_view contents s') c \<longleftrightarrow> c \<noteq> n \<and> block_used (fs_sb s) (fs_view contents s) c"
    if "c < sb_size (fs_sb s)" for c
    unfolding f(2) using block_used_clear [where v = "fs_view contents s", OF wf assms(2) that bc.env_length [OF env]]
    by (simp add: unat_mod fs_consts)
  have same: "fs_view contents s' m = fs_view contents s m"
    if "unat m < unat (sb_bitmap_start (fs_sb s)) \<or> data_start (fs_sb s) \<le> unat m" for m
    using unat_bitmap_block [OF wf assms(2)] that by (auto simp: f(2))
  have "\<exists>k. r = Some k \<and> k \<le> n"
  proof (cases r)
    case None
    then show ?thesis using a(2) used assms(2) sb by auto
  next
    case (Some k)
    then show ?thesis using a(3) used assms(2) sb by (auto simp: group_first_def not_le [symmetric])
  qed
  then show ?thesis using mounted_keeps [OF assms(1) f(1)] sb used same by blast
qed

theorem free_block_correct_witness:
  "mounted ram_contents ram_good (free_block 28 ram_fs) \<and>
   \<not> block_used (fs_sb ram_fs) (fs_view ram_contents (free_block 28 ram_fs)) 28"
  using free_block_correct [OF ram_fs_props(1) _ refl, of 28 "fst (allocate_block (free_block 28 ram_fs))"
      "snd (allocate_block (free_block 28 ram_fs))"] ram_fs_props(5) by simp

text \<open>
  Disk inodes: what \<open>write_disk_inode\<close> stores, \<open>get_disk_inode\<close> returns, for every inode number of the
  superblock; the other inodes and the bitmap keep their values, and the data area its bytes.
\<close>

theorem disk_inode_roundtrip:
  assumes "mounted contents good s" and "i < sb_ninodes (fs_sb s)" and "length (di_addrs inode) = 13"
    and "write_disk_inode i inode s = (r, s')"
  shows "r \<and> mounted contents good s' \<and> fst (get_disk_inode i s') = Some inode \<and>
    (\<forall>j < sb_ninodes (fs_sb s). j \<noteq> i \<longrightarrow> fst (get_disk_inode j s') = fst (get_disk_inode j s)) \<and>
    (\<forall>m. unat (sb_bitmap_start (fs_sb s)) \<le> unat m \<longrightarrow> fs_view contents s' m = fs_view contents s m)"
proof -
  have env: "fs_env BlockStore (store_inv contents good) cache_refs (cache_synced contents) (\<lambda>n. good (ucast n)) NBUF 1 s"
    using mounted_env [OF assms(1)] by (simp add: NBUF_def)
  note w = bc.write_disk_inode_effect [OF env zero_less_one assms(2-4)]
  have wf: "sb_wf (fs_sb s)" using fs_envD(5) [OF env] .
  have sb: "fs_sb s' = fs_sb s" using fs_keeps_fields(2) [OF w(2)] .
  note env' = fs_env_keeps [OF env w(2)]
  have len: "length (fs_view contents s (inode_block (fs_sb s) i)) = 512" using bc.env_length [OF env] by simp
  have get: "fst (get_disk_inode j s') = Some (disk_inode (fs_sb s) (fs_view contents s') j)"
    "fst (get_disk_inode j s) = Some (disk_inode (fs_sb s) (fs_view contents s) j)" if "j < sb_ninodes (fs_sb s)" for j
    using bc.get_disk_inode_effect(1) [OF env' zero_less_one, unfolded sb, OF that, of _ "snd (get_disk_inode j s')"]
      bc.get_disk_inode_effect(1) [OF env zero_less_one that, of _ "snd (get_disk_inode j s)"] by simp_all
  have "disk_inode (fs_sb s) (fs_view contents s') i = inode"
    using DiskInode_roundtrip [OF assms(3), of "unat (i mod INODES_PER_BLOCK) * 64"] bc.inode_offset [of i] len
    by (simp add: disk_inode_def w(3))
  moreover have "disk_inode (fs_sb s) (fs_view contents s') j = disk_inode (fs_sb s) (fs_view contents s) j"
    if j: "j < sb_ninodes (fs_sb s)" "j \<noteq> i" for j
  proof (cases "inode_block (fs_sb s) j = inode_block (fs_sb s) i")
    case True
    then have "unat j div 8 = unat i div 8"
      using unat_inode_block(1) [OF wf j(1)] unat_inode_block(1) [OF wf assms(2)] by simp
    then have "unat j mod 8 \<noteq> unat i mod 8" using j(2) by (metis div_mult_mod_eq word_unat_eq_iff)
    then have "unat j mod 8 * 64 + 64 \<le> unat i mod 8 * 64 \<or> unat i mod 8 * 64 + 64 \<le> unat j mod 8 * 64" by arith
    then show ?thesis
      using DiskInode_at_other [OF assms(3), of "unat (i mod INODES_PER_BLOCK) * 64" _ "unat (j mod INODES_PER_BLOCK) * 64"]
        bc.inode_offset [of i] bc.inode_offset [of j] len True
      by (auto simp: disk_inode_def w(3) unat_mod fs_consts)
  qed (simp add: disk_inode_def w(3))
  moreover have "fs_view contents s' m = fs_view contents s m" if "unat (sb_bitmap_start (fs_sb s)) \<le> unat m" for m
    using unat_inode_block(2) [OF wf assms(2)] that by (auto simp: w(3))
  ultimately show ?thesis using w(1) mounted_keeps [OF assms(1) w(2)] get assms(2) by simp
qed

theorem disk_inode_roundtrip_witness:
  "fst (get_disk_inode 7 (snd (write_disk_inode 7 (root_inode 99) ram_fs))) = Some (root_inode 99)"
  using disk_inode_roundtrip [OF ram_fs_props(1), of 7 "root_inode 99" "fst (write_disk_inode 7 (root_inode 99) ram_fs)"]
    ram_fs_props(6) by (simp add: root_inode_def)

end
