(* ===== verification/Inode_Layer.thy ===== *)
theory Inode_Layer
  imports File_System
begin

text \<open>
  The inode layer (\<open>include/inode.hpp\<close>, \<open>include/inode.cpp\<close>): the in-memory inode table with its
  reference counts, the map from the logical blocks of a file to disk blocks (twelve direct
  blocks and one indirect block), and \<open>read_data\<close> / \<open>write_data\<close>. The lemmas relate them to a
  file seen as an array of bytes.
\<close>

section \<open>Data\<close>

definition NUM_INODE :: nat where "NUM_INODE = 10"

record Inode =
  in_number :: u32
  in_refcnt :: int
  in_valid :: bool
  in_disk :: DiskInode

text \<open>
  The static \<open>inode_table\<close> beside the file-system state. \<open>Inode *\<close> is an index into the table and
  \<open>InodeRef\<close> an optional index, \<open>None\<close> being the null handle.
\<close>

record 's fsys =
  fsys_fs :: "'s fs"
  inode_table :: "Inode list"

type_synonym InodeRef = "nat option"

definition static_inode_table :: "Inode list" where
  "static_inode_table = replicate NUM_INODE \<lparr>in_number = 0, in_refcnt = 0, in_valid = False, in_disk = DiskInode_zero\<rparr>"

definition copy_from_disk :: "Inode \<Rightarrow> DiskInode \<Rightarrow> Inode" where
  "copy_from_disk inode disk = inode\<lparr>in_disk := disk\<rparr>"

definition to_disk :: "Inode \<Rightarrow> DiskInode" where
  "to_disk inode = in_disk inode"

section \<open>The inode table\<close>

definition lift_fs :: "('s fs \<Rightarrow> 'a \<times> 's fs) \<Rightarrow> 's fsys \<Rightarrow> 'a \<times> 's fsys" where
  "lift_fs f s = (case f (fsys_fs s) of (r, t) \<Rightarrow> (r, s\<lparr>fsys_fs := t\<rparr>))"

definition upd_inode :: "nat \<Rightarrow> (Inode \<Rightarrow> Inode) \<Rightarrow> 's fsys \<Rightarrow> 's fsys" where
  "upd_inode i f s = s\<lparr>inode_table := upd_at i f (inode_table s)\<rparr>"

definition get_inode :: "u32 \<Rightarrow> 's fsys \<Rightarrow> InodeRef \<times> 's fsys" where
  "get_inode inode_number s =
     (let table = inode_table s in
      case find (\<lambda>i. in_refcnt (table ! i) > 0 \<and> in_number (table ! i) = inode_number) [0..<length table] of
        Some i \<Rightarrow> (Some i, upd_inode i (\<lambda>x. x\<lparr>in_refcnt := in_refcnt x + 1\<rparr>) s)
      | None \<Rightarrow>
          (case find (\<lambda>i. in_refcnt (table ! i) = 0) [0..<length table] of
             None \<Rightarrow> (None, s)
           | Some i \<Rightarrow>
               (case lift_fs (get_disk_inode inode_number) s of
                  (None, s1) \<Rightarrow> (None, s1)
                | (Some disk, s1) \<Rightarrow>
                    (Some i, upd_inode i (\<lambda>x. copy_from_disk
                       (x\<lparr>in_number := inode_number, in_refcnt := 1, in_valid := True\<rparr>) disk) s1))))"

text \<open>The search of \<open>allocate_inode\<close>: \<open>Inl\<close> is a failed read, \<open>Inr None\<close> that no inode is free.\<close>

function find_unused_inode :: "u32 \<Rightarrow> u32 \<Rightarrow> 's fs \<Rightarrow> (unit + u32 option) \<times> 's fs" where
  "find_unused_inode n ninodes s =
     (if n < ninodes
      then (case get_disk_inode n s of
              (None, s1) \<Rightarrow> (Inl (), s1)
            | (Some disk, s1) \<Rightarrow>
                if di_type disk \<noteq> kUnused then find_unused_inode (n + 1) ninodes s1
                else (Inr (Some n), s1))
      else (Inr None, s))"
  by pat_completeness auto
termination
  by (relation "measure (\<lambda>(n, ninodes, _). unat ninodes - unat n)") (auto simp: word_less_nat_alt)

declare find_unused_inode.simps [simp del]

definition allocate_inode :: "InodeType \<Rightarrow> 's fsys \<Rightarrow> InodeRef \<times> 's fsys" where
  "allocate_inode type s =
     (if type = kUnused then (None, s)
      else
        (case lift_fs (find_unused_inode 1 (sb_ninodes (fs_sb (fsys_fs s)))) s of
           (Inl _, s1) \<Rightarrow> (None, s1)
         | (Inr None, s1) \<Rightarrow> (None, s1)
         | (Inr (Some n), s1) \<Rightarrow>
             (case lift_fs (write_disk_inode n (DiskInode_zero\<lparr>di_type := type\<rparr>)) s1 of
                (False, s2) \<Rightarrow> (None, s2)
              | (True, s2) \<Rightarrow> get_inode n s2)))"

definition put_inode :: "nat \<Rightarrow> 's fsys \<Rightarrow> 's fsys" where
  "put_inode i s =
     (if in_refcnt (inode_table s ! i) > 0 then upd_inode i (\<lambda>x. x\<lparr>in_refcnt := in_refcnt x - 1\<rparr>) s else s)"

text \<open>\<open>InodeRef::reset\<close>, also run by the destructor.\<close>

definition InodeRef_reset :: "InodeRef \<Rightarrow> 's fsys \<Rightarrow> 's fsys" where
  "InodeRef_reset r s = (case r of None \<Rightarrow> s | Some i \<Rightarrow> put_inode i s)"

definition InodeRef_move :: "InodeRef \<Rightarrow> InodeRef \<times> InodeRef" where
  "InodeRef_move other = (other, None)"

text \<open>\<open>a = std::move(b)\<close>: the new value of \<open>a\<close>, of \<open>b\<close>, and the state.\<close>

definition InodeRef_move_assign :: "InodeRef \<Rightarrow> InodeRef \<Rightarrow> 's fsys \<Rightarrow> InodeRef \<times> InodeRef \<times> 's fsys" where
  "InodeRef_move_assign this other s = (other, None, InodeRef_reset this s)"

section \<open>Blocks of a file\<close>

definition containing :: "u32 \<Rightarrow> u32" where
  "containing byte_offset = byte_offset div FSBLOCK_SIZE"

definition table_entry :: "bytes \<Rightarrow> u32 \<Rightarrow> u32" where
  "table_entry d k = le_word (slice (4 * unat k) 4 d)"

definition find_block :: "Inode \<Rightarrow> u32 \<Rightarrow> 's fs \<Rightarrow> u32 option \<times> 's fs" where
  "find_block inode logical s =
     (let addrs = di_addrs (in_disk inode) in
      if logical < NDIRECT
      then (if addrs ! unat logical = 0 then (None, s) else (Some (addrs ! unat logical), s))
      else
        let indirect_index = logical - NDIRECT in
        if NINDIRECT \<le> indirect_index then (None, s)
        else if addrs ! INDIRECT_INDEX = 0 then (None, s)
        else
          (case lift_store (\<lambda>bs. scoped_read bs (addrs ! INDIRECT_INDEX)) s of
             (None, s1) \<Rightarrow> (None, s1)
           | (Some d, s1) \<Rightarrow>
               if table_entry d indirect_index = 0 then (None, s1)
               else (Some (table_entry d indirect_index), s1)))"

definition set_addr :: "nat \<Rightarrow> u32 \<Rightarrow> Inode \<Rightarrow> Inode" where
  "set_addr i b inode = inode\<lparr>in_disk := (in_disk inode)\<lparr>di_addrs := (di_addrs (in_disk inode))[i := b]\<rparr>\<rparr>"

text \<open>The second half of \<open>allocate_or_find_block\<close>, from the \<open>acquire\<close> of the indirect block on.\<close>

definition indirect_entry :: "u32 \<Rightarrow> u32 \<Rightarrow> 's fs \<Rightarrow> u32 option \<times> 's fs" where
  "indirect_entry table indirect_index s =
     (let bs = fs_store s in
      case st_acquire bs table (fs_st s) of
        (block, t1) \<Rightarrow>
          if BlockRef_not block then (None, s\<lparr>fs_st := BlockRef_destroy bs block t1\<rparr>)
          else if table_entry (block_data bs block t1) indirect_index = 0
          then
            (case allocate_block (s\<lparr>fs_st := t1\<rparr>) of
               (None, s2) \<Rightarrow> (None, s2\<lparr>fs_st := BlockRef_destroy bs block (fs_st s2)\<rparr>)
             | (Some b, s2) \<Rightarrow>
                 let t3 = set_block_data bs block
                       (splice (4 * unat indirect_index) (le_bytes 4 b) (block_data bs block (fs_st s2))) (fs_st s2)
                 in (case BlockRef_write_back bs block t3 of
                       (False, t4) \<Rightarrow> (None, s2\<lparr>fs_st := BlockRef_destroy bs block t4\<rparr>)
                     | (True, t4) \<Rightarrow>
                         (Some (table_entry (block_data bs block t4) indirect_index),
                          s2\<lparr>fs_st := BlockRef_destroy bs block t4\<rparr>)))
          else (Some (table_entry (block_data bs block t1) indirect_index), s\<lparr>fs_st := BlockRef_destroy bs block t1\<rparr>))"

definition allocate_or_find_block :: "Inode \<Rightarrow> u32 \<Rightarrow> 's fs \<Rightarrow> u32 option \<times> Inode \<times> 's fs" where
  "allocate_or_find_block inode logical s =
     (let addrs = di_addrs (in_disk inode) in
      if logical < NDIRECT
      then
        if addrs ! unat logical = 0
        then (case allocate_block s of
                (None, s1) \<Rightarrow> (None, inode, s1)
              | (Some b, s1) \<Rightarrow> (Some b, set_addr (unat logical) b inode, s1))
        else (Some (addrs ! unat logical), inode, s)
      else
        let indirect_index = logical - NDIRECT in
        if NINDIRECT \<le> indirect_index then (None, inode, s)
        else
          (case (if addrs ! INDIRECT_INDEX = 0
                 then (case allocate_block s of
                         (None, s1) \<Rightarrow> (None, s1)
                       | (Some b, s1) \<Rightarrow> (Some (set_addr INDIRECT_INDEX b inode), s1))
                 else (Some inode, s)) of
             (None, s1) \<Rightarrow> (None, inode, s1)
           | (Some inode1, s1) \<Rightarrow>
               (case indirect_entry (di_addrs (in_disk inode1) ! INDIRECT_INDEX) indirect_index s1 of
                  (r, s2) \<Rightarrow> (r, inode1, s2))))"

definition update_inode :: "Inode \<Rightarrow> 's fs \<Rightarrow> bool \<times> 's fs" where
  "update_inode inode = write_disk_inode (in_number inode) (in_disk inode)"

section \<open>Reading and writing\<close>

definition chunk_size :: "u32 \<Rightarrow> u32 \<Rightarrow> u32 \<Rightarrow> u32" where
  "chunk_size pos count done = min (count - done) (FSBLOCK_SIZE - pos mod FSBLOCK_SIZE)"

lemma unat_mod_block: "unat (pos mod FSBLOCK_SIZE) = unat pos mod 512"
  by (simp add: unat_mod fs_consts)

lemma unat_chunk:
  assumes "done < count"
  shows "unat (chunk_size pos count done) = min (unat count - unat done) (512 - unat pos mod 512)"
    and "unat (done + chunk_size pos count done) = unat done + min (unat count - unat done) (512 - unat pos mod 512)"
proof -
  have le: "unat done < unat count" using assms by (simp add: word_less_nat_alt)
  have a: "unat (count - done) = unat count - unat done"
    using assms by (simp add: unat_sub less_imp_le)
  have "pos mod FSBLOCK_SIZE \<le> FSBLOCK_SIZE"
    by (simp add: word_le_nat_alt unat_mod_block) (simp add: fs_consts order.strict_implies_order)
  then have b: "unat (FSBLOCK_SIZE - pos mod FSBLOCK_SIZE) = 512 - unat pos mod 512"
    by (simp add: unat_sub unat_mod_block) (simp add: fs_consts)
  show c: "unat (chunk_size pos count done) = min (unat count - unat done) (512 - unat pos mod 512)"
    using a b by (auto simp: chunk_size_def min_def word_le_nat_alt)
  have "unat done + min (unat count - unat done) (512 - unat pos mod 512) < 2 ^ 32"
    using le unsigned_less [of count, where 'a = nat] min.cobounded1 [of "unat count - unat done" "512 - unat pos mod 512"]
    by (simp del: min.cobounded1)
  then show "unat (done + chunk_size pos count done) = unat done + min (unat count - unat done) (512 - unat pos mod 512)"
    using c by (simp add: unat_word_ariths(1))
qed

lemma chunk_bounds:
  assumes "done < count" "c = chunk_size pos count done"
  shows "unat done + unat c \<le> unat count" "unat pos mod 512 + unat c \<le> 512" "0 < unat c"
    "unat (done + c) = unat done + unat c"
proof -
  obtain r where r: "unat pos mod 512 = r" "r < 512" by simp
  have lt: "unat done < unat count" using assms(1) by (simp add: word_less_nat_alt)
  have c: "unat c = min (unat count - unat done) (512 - r)" "unat (done + c) = unat done + min (unat count - unat done) (512 - r)"
    using unat_chunk [OF assms(1), of pos] by (simp_all add: assms(2) r(1))
  show "unat done + unat c \<le> unat count" "unat pos mod 512 + unat c \<le> 512" "0 < unat c"
    "unat (done + c) = unat done + unat c"
    unfolding r(1) c using lt r(2) by linarith+
qed

lemma chunk_progress:
  "done < count \<Longrightarrow> unat count - unat (done + chunk_size pos count done) < unat count - unat done"
  by (simp add: unat_chunk word_less_nat_alt)

text \<open>The loop of \<open>read_data\<close>; the bytes stored at \<open>dest\<close> so far are returned with the result.\<close>

function read_loop :: "Inode \<Rightarrow> u32 \<Rightarrow> u32 \<Rightarrow> u32 \<Rightarrow> bytes \<Rightarrow> 's fs \<Rightarrow> u32 option \<times> bytes \<times> 's fs" where
  "read_loop inode offset count done dest s =
     (if done < count
      then
        let pos = offset + done in
        (case find_block inode (containing pos) s of
           (None, s1) \<Rightarrow> (None, dest, s1)
         | (Some block_number, s1) \<Rightarrow>
             (case lift_store (\<lambda>bs. scoped_read bs block_number) s1 of
                (None, s2) \<Rightarrow> (None, dest, s2)
              | (Some d, s2) \<Rightarrow>
                  let in_block = pos mod FSBLOCK_SIZE;
                      chunk = chunk_size pos count done
                  in read_loop inode offset count (done + chunk)
                       (dest @ slice (unat in_block) (unat chunk) d) s2))
      else (Some done, dest, s))"
  by pat_completeness auto
termination
  by (relation "measure (\<lambda>(_, _, count, done, _). unat count - unat done)") (auto simp: chunk_progress)

declare read_loop.simps [simp del]

definition read_data :: "Inode \<Rightarrow> u32 \<Rightarrow> u32 \<Rightarrow> 's fs \<Rightarrow> u32 option \<times> bytes \<times> 's fs" where
  "read_data inode offset count s =
     (let size = di_size (in_disk inode) in
      if size < offset then (None, [], s)
      else read_loop inode offset (if size - offset < count then size - offset else count) 0 [] s)"

function write_loop :: "Inode \<Rightarrow> bytes \<Rightarrow> u32 \<Rightarrow> u32 \<Rightarrow> u32 \<Rightarrow> 's fs \<Rightarrow> u32 \<times> Inode \<times> 's fs" where
  "write_loop inode source offset count done s =
     (if done < count
      then
        let pos = offset + done in
        (case allocate_or_find_block inode (containing pos) s of
           (None, inode1, s1) \<Rightarrow> (done, inode1, s1)
         | (Some block_number, inode1, s1) \<Rightarrow>
             let in_block = pos mod FSBLOCK_SIZE;
                 chunk = chunk_size pos count done
             in (case lift_store (\<lambda>bs. scoped_update bs block_number
                       (splice (unat in_block) (slice (unat done) (unat chunk) source))) s1 of
                   (False, s2) \<Rightarrow> (done, inode1, s2)
                 | (True, s2) \<Rightarrow> write_loop inode1 source offset count (done + chunk) s2))
      else (done, inode, s))"
  by pat_completeness auto
termination
  by (relation "measure (\<lambda>(_, _, _, count, done, _). unat count - unat done)") (auto simp: chunk_progress)

declare write_loop.simps [simp del]

definition max_bytes :: u32 where "max_bytes = MAXFILE * FSBLOCK_SIZE"

definition write_data :: "Inode \<Rightarrow> bytes \<Rightarrow> u32 \<Rightarrow> u32 \<Rightarrow> 's fs \<Rightarrow> u32 option \<times> Inode \<times> 's fs" where
  "write_data inode source offset count s =
     (if di_size (in_disk inode) < offset then (None, inode, s)
      else if max_bytes < offset \<or> max_bytes - offset < count then (None, inode, s)
      else
        (case write_loop inode source offset count 0 s of
           (done, inode1, s1) \<Rightarrow>
             let inode2 = (if di_size (in_disk inode1) < offset + done
                           then inode1\<lparr>in_disk := (in_disk inode1)\<lparr>di_size := offset + done\<rparr>\<rparr> else inode1)
             in (case update_inode inode2 s1 of
                   (False, s2) \<Rightarrow> (None, inode2, s2)
                 | (True, s2) \<Rightarrow> (Some done, inode2, s2))))"

section \<open>A file as an array of blocks\<close>

text \<open>
  \<open>lblk v di i\<close> is the disk block of logical block \<open>i\<close> (0 when there is none), \<open>ptrs\<close> every block the
  inode refers to, \<open>file_ok\<close> that they are distinct blocks of the data area, all in use.
\<close>

definition lblk :: "(u32 \<Rightarrow> bytes) \<Rightarrow> DiskInode \<Rightarrow> nat \<Rightarrow> u32" where
  "lblk v di i =
     (if i < 12 then di_addrs di ! i
      else if i < 140 \<and> di_addrs di ! 12 \<noteq> 0 then le_word (slice (4 * (i - 12)) 4 (v (di_addrs di ! 12)))
      else 0)"

definition ptrs :: "(u32 \<Rightarrow> bytes) \<Rightarrow> DiskInode \<Rightarrow> u32 set" where
  "ptrs v di = {b. b \<noteq> 0 \<and> (b = di_addrs di ! 12 \<or> (\<exists>i < 140. b = lblk v di i))}"

definition in_data :: "SuperBlock \<Rightarrow> (u32 \<Rightarrow> bytes) \<Rightarrow> u32 \<Rightarrow> bool" where
  "in_data sb v b \<longleftrightarrow> data_start sb \<le> unat b \<and> b < sb_size sb \<and> block_used sb v b"

definition file_ok :: "SuperBlock \<Rightarrow> (u32 \<Rightarrow> bytes) \<Rightarrow> DiskInode \<Rightarrow> bool" where
  "file_ok sb v di \<longleftrightarrow>
     length (di_addrs di) = 13 \<and> (\<forall>b \<in> ptrs v di. in_data sb v b) \<and>
     (\<forall>i < 140. \<forall>j < 140. lblk v di i \<noteq> 0 \<and> lblk v di i = lblk v di j \<longrightarrow> i = j) \<and>
     (\<forall>i < 140. lblk v di i \<noteq> 0 \<longrightarrow> lblk v di i \<noteq> di_addrs di ! 12)"

text \<open>
  \<open>extends\<close>: the file grew. Its blocks stay where they were, no block in use is given up, the used
  data blocks that are not its own keep their bytes and stay foreign, the inode area is untouched,
  and a block that came into use is the file's: none is lost.
\<close>

definition extends :: "SuperBlock \<Rightarrow> (u32 \<Rightarrow> bytes) \<Rightarrow> DiskInode \<Rightarrow> (u32 \<Rightarrow> bytes) \<Rightarrow> DiskInode \<Rightarrow> bool" where
  "extends sb v di v' di' \<longleftrightarrow>
     file_ok sb v' di' \<and> di' = di\<lparr>di_addrs := di_addrs di'\<rparr> \<and>
     (\<forall>i < 140. lblk v di i \<noteq> 0 \<longrightarrow> lblk v' di' i = lblk v di i) \<and>
     (\<forall>c < sb_size sb. block_used sb v c \<longrightarrow> block_used sb v' c) \<and>
     (\<forall>m. in_data sb v m \<and> m \<notin> ptrs v di \<longrightarrow> v' m = v m \<and> m \<notin> ptrs v' di') \<and>
     (\<forall>m. unat m < unat (sb_bitmap_start sb) \<longrightarrow> v' m = v m) \<and> meta_used sb v' \<and>
     ptrs v di \<subseteq> ptrs v' di' \<and> (\<forall>c < sb_size sb. block_used sb v' c \<longrightarrow> block_used sb v c \<or> c \<in> ptrs v' di')"

lemma file_okD:
  assumes "file_ok sb v di"
  shows "length (di_addrs di) = 13" "b \<in> ptrs v di \<Longrightarrow> in_data sb v b"
    "i < 140 \<Longrightarrow> lblk v di i \<noteq> 0 \<Longrightarrow> in_data sb v (lblk v di i)"
    "di_addrs di ! 12 \<noteq> 0 \<Longrightarrow> in_data sb v (di_addrs di ! 12)"
    "i < 140 \<Longrightarrow> j < 140 \<Longrightarrow> lblk v di i \<noteq> 0 \<Longrightarrow> lblk v di i = lblk v di j \<Longrightarrow> i = j"
    "i < 140 \<Longrightarrow> lblk v di i \<noteq> 0 \<Longrightarrow> lblk v di i \<noteq> di_addrs di ! 12"
  using assms unfolding file_ok_def ptrs_def by blast+

lemma extendsD:
  assumes "extends sb v di v' di'"
  shows "file_ok sb v' di'" "di' = di\<lparr>di_addrs := di_addrs di'\<rparr>"
    "i < 140 \<Longrightarrow> lblk v di i \<noteq> 0 \<Longrightarrow> lblk v' di' i = lblk v di i"
    "c < sb_size sb \<Longrightarrow> block_used sb v c \<Longrightarrow> block_used sb v' c"
    "in_data sb v m \<Longrightarrow> m \<notin> ptrs v di \<Longrightarrow> v' m = v m \<and> m \<notin> ptrs v' di'"
    "unat m < unat (sb_bitmap_start sb) \<Longrightarrow> v' m = v m" "meta_used sb v'"
    "in_data sb v c \<Longrightarrow> in_data sb v' c" "ptrs v di \<subseteq> ptrs v' di'"
    "c < sb_size sb \<Longrightarrow> block_used sb v' c \<Longrightarrow> block_used sb v c \<or> c \<in> ptrs v' di'"
  using assms unfolding extends_def in_data_def by blast+

lemma extends_refl: "file_ok sb v di \<Longrightarrow> meta_used sb v \<Longrightarrow> extends sb v di v di"
  by (simp add: extends_def)

lemma extends_trans [trans]:
  assumes "extends sb v di v1 di1" "extends sb v1 di1 v2 di2"
  shows "extends sb v di v2 di2"
proof -
  note a = extendsD [OF assms(1)] and b = extendsD [OF assms(2)]
  have "di2 = di\<lparr>di_addrs := di_addrs di2\<rparr>" using a(2) b(2) by (cases di; cases di1; cases di2) simp
  moreover have "lblk v2 di2 i = lblk v di i" if "i < 140" "lblk v di i \<noteq> 0" for i
    using a(3) b(3) that by simp
  moreover have "v2 m = v m \<and> m \<notin> ptrs v2 di2" if "in_data sb v m" "m \<notin> ptrs v di" for m
    using a(5) [OF that] a(8) [OF that(1)] b(5) [of m] by simp
  moreover have "\<forall>c < sb_size sb. block_used sb v c \<longrightarrow> block_used sb v2 c" using a(4) b(4) by blast
  moreover have "\<forall>c < sb_size sb. block_used sb v2 c \<longrightarrow> block_used sb v c \<or> c \<in> ptrs v2 di2" using a(10) b(9,10) by blast
  ultimately show ?thesis using a(6,9) b(1,6,7,9) by (auto simp: extends_def)
qed

text \<open>A fresh block becomes logical block \<open>i\<close>, or the indirect block.\<close>

lemma file_ok_add:
  assumes f: "file_ok sb v di" and n: "\<not> block_used sb v n" "data_start sb \<le> unat n" "n < sb_size sb" "n \<noteq> 0"
    and used: "\<And>c. c < sb_size sb \<Longrightarrow> block_used sb v' c \<longleftrightarrow> c = n \<or> block_used sb v c"
    and len: "length (di_addrs di') = 13" and ind: "di_addrs di' ! 12 = di_addrs di ! 12" and i: "i < 140" "lblk v di i = 0"
    and l: "\<And>j. j < 140 \<Longrightarrow> lblk v' di' j = (if j = i then n else lblk v di j)"
  shows "file_ok sb v' di'" "ptrs v' di' = insert n (ptrs v di)"
proof -
  have nin: "\<not> in_data sb v n" using n(1) by (simp add: in_data_def)
  have "b \<in> ptrs v' di' \<longleftrightarrow> b = n \<or> b \<in> ptrs v di" for b
    using l i ind n(4) unfolding ptrs_def by (auto split: if_splits)
  then show p: "ptrs v' di' = insert n (ptrs v di)" by auto
  have old: "in_data sb v' b" if "in_data sb v b" for b using that used by (simp add: in_data_def)
  have new: "in_data sb v' n" using n used by (simp add: in_data_def)
  have ne: "lblk v di j \<noteq> n" if "j < 140" for j using file_okD(3) [OF f that] nin n(4) by metis
  have "n \<noteq> di_addrs di ! 12" using file_okD(4) [OF f] nin n(4) by metis
  then have "\<forall>j < 140. lblk v' di' j \<noteq> 0 \<longrightarrow> lblk v' di' j \<noteq> di_addrs di' ! 12"
    using l ind file_okD(6) [OF f] by simp
  moreover have "\<forall>j < 140. \<forall>k < 140. lblk v' di' j \<noteq> 0 \<and> lblk v' di' j = lblk v' di' k \<longrightarrow> j = k"
    using l ne file_okD(5) [OF f] by (simp split: if_splits) metis
  ultimately show "file_ok sb v' di'"
    using p old new len file_okD(2) [OF f] by (simp add: file_ok_def)
qed

lemma file_ok_add_indirect:
  assumes f: "file_ok sb v di" and n: "\<not> block_used sb v n" "data_start sb \<le> unat n" "n < sb_size sb" "n \<noteq> 0"
    and used: "\<And>c. c < sb_size sb \<Longrightarrow> block_used sb v' c \<longleftrightarrow> c = n \<or> block_used sb v c"
    and len: "length (di_addrs di') = 13" and ind: "di_addrs di' ! 12 = n" "di_addrs di ! 12 = 0"
    and l: "\<And>j. j < 140 \<Longrightarrow> lblk v' di' j = lblk v di j"
  shows "file_ok sb v' di'" "ptrs v' di' = insert n (ptrs v di)"
proof -
  have nin: "\<not> in_data sb v n" using n(1) by (simp add: in_data_def)
  have "b \<in> ptrs v' di' \<longleftrightarrow> b = n \<or> b \<in> ptrs v di" for b
    using l ind n(4) unfolding ptrs_def by auto
  then show p: "ptrs v' di' = insert n (ptrs v di)" by auto
  have old: "in_data sb v' b" if "in_data sb v b" for b using that used by (simp add: in_data_def)
  have new: "in_data sb v' n" using n used by (simp add: in_data_def)
  have ne: "lblk v di j \<noteq> n" if "j < 140" for j using file_okD(3) [OF f that] nin n(4) by metis
  then show "file_ok sb v' di'"
    using p old new len l ind(1) file_okD(2,5) [OF f] by (simp add: file_ok_def) metis
qed

text \<open>The three ways in which \<open>allocate_or_find_block\<close> extends a file by the free block \<open>n\<close>.\<close>

definition kept :: "(u32 \<Rightarrow> bytes) \<Rightarrow> DiskInode \<Rightarrow> (u32 \<Rightarrow> bytes) \<Rightarrow> bool" where
  "kept v di v' \<longleftrightarrow> (\<forall>i < 140. lblk v di i \<noteq> 0 \<longrightarrow> v' (lblk v di i) = v (lblk v di i))"

definition free_data :: "SuperBlock \<Rightarrow> (u32 \<Rightarrow> bytes) \<Rightarrow> u32 \<Rightarrow> bool" where
  "free_data sb v n \<longleftrightarrow> \<not> block_used sb v n \<and> data_start sb \<le> unat n \<and> n < sb_size sb"

lemma group_first_free_data: "meta_used sb v \<Longrightarrow> group_first sb v 0 n \<Longrightarrow> free_data sb v n"
  using free_is_data by (auto simp: group_first_def free_data_def)

lemma free_data_alloc:
  assumes "sb_wf sb" "meta_used sb v" "free_data sb v n" "\<And>m. length (v m) = 512"
  shows "n \<noteq> 0" "c < sb_size sb \<Longrightarrow> block_used sb (alloc_view sb v n) c \<longleftrightarrow> c = n \<or> block_used sb v c"
    "meta_used sb (alloc_view sb v n)" "in_data sb v m \<Longrightarrow> alloc_view sb v n m = v m"
    "unat m < unat (sb_bitmap_start sb) \<Longrightarrow> alloc_view sb v n m = v m" "alloc_view sb v n n = replicate 512 0"
    "in_data sb v m \<Longrightarrow> m \<noteq> n"
proof -
  have n: "\<not> block_used sb v n" "data_start sb \<le> unat n" "n < sb_size sb" using assms(3) by (auto simp: free_data_def)
  show ne: "in_data sb v m \<Longrightarrow> m \<noteq> n" for m using n(1) by (auto simp: in_data_def)
  show "n \<noteq> 0" using n(2) sb_wfD [OF assms(1)] by auto
  show "c < sb_size sb \<Longrightarrow> block_used sb (alloc_view sb v n) c \<longleftrightarrow> c = n \<or> block_used sb v c"
    using block_used_alloc [where v = v, OF assms(1) n(3) _ assms(4) n(2)] by simp
  show "meta_used sb (alloc_view sb v n)"
    using meta_used_alloc [where v = v, OF assms(1) n(3) assms(4) n(2) assms(2)] by simp
  show "in_data sb v m \<Longrightarrow> alloc_view sb v n m = v m"
    using alloc_view_other [OF assms(1) n(3), of m v] ne by (simp add: in_data_def)
  show "unat m < unat (sb_bitmap_start sb) \<Longrightarrow> alloc_view sb v n m = v m"
    using alloc_view_other [OF assms(1) n(3), of m v] n(2) sb_wfD(4) [OF assms(1)] by (cases "m = n") auto
  show "alloc_view sb v n n = replicate 512 0" by (simp add: alloc_view_def)
qed

lemma lblk_cong:
  assumes "di_addrs di' ! 12 \<noteq> 0 \<Longrightarrow> v' (di_addrs di ! 12) = v (di_addrs di ! 12)" "di_addrs di' ! 12 = di_addrs di ! 12"
    and "j < 12 \<Longrightarrow> di_addrs di' ! j = di_addrs di ! j"
  shows "lblk v' di' j = lblk v di j"
  using assms by (simp add: lblk_def)

lemma extend_direct:
  assumes f: "file_ok sb v di" and s: "sb_wf sb" "meta_used sb v" "free_data sb v n" "\<And>m. length (v m) = 512"
    and i: "i < 12" "di_addrs di ! i = 0" and d: "di' = di\<lparr>di_addrs := (di_addrs di)[i := n]\<rparr>"
  shows "extends sb v di (alloc_view sb v n) di'" "kept v di (alloc_view sb v n)"
    "lblk (alloc_view sb v n) di' i = n"
proof -
  define v' where "v' = alloc_view sb v n"
  note a = free_data_alloc [OF s] and fo = file_okD [OF f]
  have n: "\<not> block_used sb v n" "data_start sb \<le> unat n" "n < sb_size sb" using s(3) by (auto simp: free_data_def)
  have ind: "di_addrs di' ! 12 = di_addrs di ! 12" "length (di_addrs di') = 13" using d i fo(1) by simp_all
  have l: "lblk v' di' j = (if j = i then n else lblk v di j)" if "j < 140" for j
  proof (cases "j = i")
    case True
    then show ?thesis using i d fo(1) by (simp add: lblk_def)
  next
    case False
    then show ?thesis using lblk_cong [of di' v' di v j] a(4) fo(4) ind d by (simp add: v'_def)
  qed
  have i0: "i < 140" "lblk v di i = 0" using i by (simp_all add: lblk_def)
  note fa = file_ok_add [OF f n a(1) a(2) ind(2,1) i0 l [unfolded v'_def]]
  show "kept v di (alloc_view sb v n)" using a(4) fo(3) by (simp add: kept_def)
  show "lblk (alloc_view sb v n) di' i = n" using l [OF i0(1)] by (simp add: v'_def)
  have "\<forall>j < 140. lblk v di j \<noteq> 0 \<longrightarrow> lblk v' di' j = lblk v di j" using l i0(2) by auto
  then show "extends sb v di (alloc_view sb v n) di'"
    using fa a(2-5,7) d unfolding extends_def v'_def by auto
qed

lemma extend_indirect:
  assumes f: "file_ok sb v di" and s: "sb_wf sb" "meta_used sb v" "free_data sb v n" "\<And>m. length (v m) = 512"
    and i: "di_addrs di ! 12 = 0" and d: "di' = di\<lparr>di_addrs := (di_addrs di)[12 := n]\<rparr>"
  shows "extends sb v di (alloc_view sb v n) di'" "kept v di (alloc_view sb v n)"
    "12 \<le> j \<Longrightarrow> lblk (alloc_view sb v n) di' j = 0" "di_addrs di' ! 12 = n" "n \<noteq> 0"
proof -
  define v' where "v' = alloc_view sb v n"
  note a = free_data_alloc [OF s] and fo = file_okD [OF f]
  show "n \<noteq> 0" by (rule a(1))
  have n: "\<not> block_used sb v n" "data_start sb \<le> unat n" "n < sb_size sb" using s(3) by (auto simp: free_data_def)
  show ind: "di_addrs di' ! 12 = n" using d fo(1) by simp
  have len: "length (di_addrs di') = 13" using d fo(1) by simp
  have z: "le_word (slice k 4 (replicate 512 0 :: bytes)) = (0 :: u32)" for k
    by (simp add: slice_def)
  have l: "lblk v' di' j = lblk v di j" for j
  proof (cases "j < 12")
    case True
    then show ?thesis using d by (simp add: lblk_def)
  next
    case False
    then show ?thesis using ind i a(6) by (simp add: lblk_def v'_def z)
  qed
  note fa = file_ok_add_indirect [OF f n a(1) a(2) len ind i l [unfolded v'_def]]
  show "kept v di (alloc_view sb v n)" using a(4) fo(3) by (simp add: kept_def)
  show "12 \<le> j \<Longrightarrow> lblk (alloc_view sb v n) di' j = 0" using l [of j] i by (simp add: v'_def) (simp add: lblk_def)
  show "extends sb v di (alloc_view sb v n) di'"
    using fa a(2-5,7) d l unfolding extends_def v'_def by auto
qed

lemma table_entry_splice:
  assumes "length d = 512" "k < 128" "j < 128"
  shows "le_word (slice (4 * j) 4 (splice (4 * k) (le_bytes 4 n) d)) =
    (if j = k then n else le_word (slice (4 * j) 4 d) :: u32)"
proof (cases "j = k")
  case True
  then show ?thesis using assms by (simp add: slice_splice_same le_word_le_bytes)
next
  case False
  then have "4 * j + 4 \<le> 4 * k \<or> 4 * k + 4 \<le> 4 * j" by arith
  then show ?thesis using assms False by (simp add: slice_splice_disjoint)
qed

lemma extend_entry:
  assumes f: "file_ok sb v di" and s: "sb_wf sb" "meta_used sb v" "free_data sb v n" "\<And>m. length (v m) = 512"
    and t: "di_addrs di ! 12 = t" "t \<noteq> 0" and k: "k < 128" "lblk v di (12 + k) = 0"
    and v': "v' = (alloc_view sb v n)(t := splice (4 * k) (le_bytes 4 n) (v t))"
  shows "extends sb v di v' di" "kept v di v'" "lblk v' di (12 + k) = n" "n \<noteq> 0"
proof -
  note a = free_data_alloc [OF s] and fo = file_okD [OF f]
  show n0: "n \<noteq> 0" by (rule a(1))
  have n: "\<not> block_used sb v n" "data_start sb \<le> unat n" "n < sb_size sb" using s(3) by (auto simp: free_data_def)
  have td: "in_data sb v t" using fo(4) t by simp
  then have tn: "t \<noteq> n" and tds: "data_start sb \<le> unat t" using a(7) by (auto simp: in_data_def)
  have used: "block_used sb v' c \<longleftrightarrow> c = n \<or> block_used sb v c" if "c < sb_size sb" for c
    using a(2) [OF that] block_used_data [OF s(1) that tds] by (simp add: v')
  have l: "lblk v' di j = (if j = 12 + k then n else lblk v di j)" if "j < 140" for j
  proof (cases "j < 12")
    case False
    then have "j - 12 < 128" "j - 12 = k \<longleftrightarrow> j = 12 + k" using that by auto
    then show ?thesis using False that t table_entry_splice [where d = "v t" and n = n, OF s(4) k(1), of "j - 12"]
      by (cases "j = 12 + k") (simp_all add: lblk_def v')
  qed (simp add: lblk_def)
  have i: "12 + k < 140" using k(1) by simp
  note fa = file_ok_add [OF f n n0 used fo(1) refl i k(2) l]
  show "lblk v' di (12 + k) = n" using l [OF i] by simp
  show "kept v di v'" using a(4) fo(3,6) t by (simp add: kept_def v')
  have "meta_used sb v'" unfolding meta_used_def
  proof (intro allI impI)
    fix b :: u32 assume b: "unat b < data_start sb"
    then have "b < sb_size sb" using sb_wfD(1) [OF s(1)] by (simp add: word_less_nat_alt)
    then show "block_used sb v' b" using used s(2) b by (simp add: meta_used_def)
  qed
  moreover have "v' m = v m \<and> m \<notin> ptrs v' di" if "in_data sb v m" "m \<notin> ptrs v di" for m
    using that t a(4,7) fa(2) by (auto simp: v' ptrs_def)
  moreover have "v' m = v m" if "unat m < unat (sb_bitmap_start sb)" for m
    using that a(5) tds sb_wfD(4) [OF s(1)] by (auto simp: v')
  moreover have "\<forall>j < 140. lblk v di j \<noteq> 0 \<longrightarrow> lblk v' di j = lblk v di j" using l k(2) by auto
  ultimately show "extends sb v di v' di" using fa used by (auto simp: extends_def)
qed

context store_contract
begin

text \<open>A handle kept across other operations.\<close>

lemma env_acquire_held:
  assumes "env (Suc k) s" "n < sb_size (fs_sb s)" "st_acquire bs n (fs_st s) = (blk, t1)"
  shows "blk = \<lparr>br_number = n, br_has_store = True, br_data = Some (loc t1 n)\<rparr>" "env k (s\<lparr>fs_st := t1\<rparr>)"
    "view t1 = vw s" "refs t1 = (refs (fs_st s))(n := Suc (refs (fs_st s) n))"
    "0 < refs (fs_st s) m \<Longrightarrow> loc t1 m = loc (fs_st s) m"
proof -
  have I: "inv (fs_st s)" and syn: "\<And>m. 0 < refs (fs_st s) m \<Longrightarrow> synced (fs_st s) m"
    using fs_envD(2) [OF assms(1)] by (auto simp: settled_def)
  note nb = env_acquire(1) [OF assms(1) _ assms(2,3)]
  note a = acquire_some [OF I assms(3) nb]
  then show "blk = \<lparr>br_number = n, br_has_store = True, br_data = Some (loc t1 n)\<rparr>"
    "view t1 = vw s" "refs t1 = (refs (fs_st s))(n := Suc (refs (fs_st s) n))"
    "0 < refs (fs_st s) m \<Longrightarrow> loc t1 m = loc (fs_st s) m" by auto
  have "held refs t1 = insert n (held refs (fs_st s))" using a by (auto simp: held_def)
  then have "card (held refs t1) \<le> Suc (card (held refs (fs_st s)))"
    using finite_held [OF I] by (simp add: card_insert_if)
  moreover have "synced t1 m" if "0 < refs t1 m" for m
  proof (cases "0 < refs (fs_st s) m")
    case True
    then show ?thesis using a syn by simp
  next
    case False
    then show ?thesis using a that by (cases "m = n") auto
  qed
  ultimately show "env k (s\<lparr>fs_st := t1\<rparr>)"
    using assms(1) a by (simp add: fs_env_def settled_def)
qed

lemma held_update:
  assumes "ok u" "0 < refs u n" "blk = \<lparr>br_number = n, br_has_store = True, br_data = Some (loc u n)\<rparr>" "length d = 512"
    and "BlockRef_write_back bs blk (set_block_data bs blk d u) = (r, w)"
  shows "r" "kp u w" "view w = (view u)(n := d)"
proof -
  have I: "inv u" using assms(1) by (simp add: settled_def)
  define u1 where "u1 = st_store bs (loc u n) d u"
  note st = store_held [OF I assms(2,4) u1_def]
  have wb: "st_write_back bs n u1 = (r, w)"
    using assms(5) by (simp add: assms(3) BlockRef_write_back_def set_block_data_def u1_def)
  have "inv u1" "0 < refs u1 n" using st assms(2) by auto
  note w = write_back_held [OF this wb]
  show "r" "view w = (view u)(n := d)" using w st by auto
  have "synced w m" if "0 < refs w m" for m
    using w st assms(1) that unfolding settled_def by (cases "m = n") auto
  then show "kp u w" using w st by (auto simp: keeps_def settled_def)
qed

lemma held_drop:
  assumes "ok u" "0 < refs u n" "blk = \<lparr>br_number = n, br_has_store = True, br_data = Some (loc u n)\<rparr>"
  shows "ok (BlockRef_destroy bs blk u)" "view (BlockRef_destroy bs blk u) = view u"
    "refs (BlockRef_destroy bs blk u) = (refs u)(n := refs u n - 1)"
    "0 < refs (BlockRef_destroy bs blk u) m \<Longrightarrow> loc (BlockRef_destroy bs blk u) m = loc u m"
proof -
  have I: "inv u" and syn: "\<And>m. 0 < refs u m \<Longrightarrow> synced u m" using assms(1) by (auto simp: settled_def)
  have d: "BlockRef_destroy bs blk u = st_release bs n u" using assms(3) by (simp add: BlockRef_owns_def)
  note r = release_held [OF I assms(2) _ d]
  show "view (BlockRef_destroy bs blk u) = view u" "refs (BlockRef_destroy bs blk u) = (refs u)(n := refs u n - 1)"
    "0 < refs (BlockRef_destroy bs blk u) m \<Longrightarrow> loc (BlockRef_destroy bs blk u) m = loc u m"
    using r syn assms(2) by auto
  show "ok (BlockRef_destroy bs blk u)"
    using r syn assms(2) unfolding settled_def by (auto split: if_splits)
qed

text \<open>
  The bracket \<open>{ auto block = acquire(n); ... }\<close> around operations that themselves return every
  handle they take: afterwards the store is as if the handle had never been taken.
\<close>

lemma held_bracket:
  assumes e: "env (Suc k) s" "n < sb_size (fs_sb s)" "st_acquire bs n (fs_st s) = (blk, t1)"
    and u: "fk (s\<lparr>fs_st := t1\<rparr>) s2"
  shows "blk = \<lparr>br_number = n, br_has_store = True, br_data = Some (loc (fs_st s2) n)\<rparr>"
    "0 < refs (fs_st s2) n" "block_data bs blk (fs_st s2) = vw s2 n"
    "fk s (s2\<lparr>fs_st := BlockRef_destroy bs blk (fs_st s2)\<rparr>)"
    "view (BlockRef_destroy bs blk (fs_st s2)) = vw s2"
proof -
  note a = env_acquire_held [OF e]
  have k: "kp t1 (fs_st s2)" and s2: "s2 = s\<lparr>fs_st := fs_st s2\<rparr>"
    using u by (simp_all add: fs_keeps_def)
  have okk: "ok (fs_st s2)" and refs2: "refs (fs_st s2) = refs t1" using k by (simp_all add: keeps_def)
  have pos1: "0 < refs t1 n" using a(4) by simp
  then show pos: "0 < refs (fs_st s2) n" using refs2 by simp
  have loc2: "0 < refs t1 m \<Longrightarrow> loc (fs_st s2) m = loc t1 m" for m using k by (simp add: keeps_def)
  show blk: "blk = \<lparr>br_number = n, br_has_store = True, br_data = Some (loc (fs_st s2) n)\<rparr>"
    using a(1) loc2 [OF pos1] by simp
  show "block_data bs blk (fs_st s2) = vw s2 n"
    using load_held [of "fs_st s2" n] okk pos by (simp add: blk block_data_def settled_def)
  note d = held_drop [OF okk pos blk]
  show "view (BlockRef_destroy bs blk (fs_st s2)) = vw s2" by (rule d(2))
  have r: "refs (BlockRef_destroy bs blk (fs_st s2)) = refs (fs_st s)" using d(3) refs2 a(4) by simp
  moreover have "loc (BlockRef_destroy bs blk (fs_st s2)) m = loc (fs_st s) m" if "0 < refs (fs_st s) m" for m
    using d(4) [of m] r that loc2 [of m] a(4,5) by simp
  moreover have "s2\<lparr>fs_st := x\<rparr> = s\<lparr>fs_st := x\<rparr>" for x by (subst s2) simp
  ultimately show "fk s (s2\<lparr>fs_st := BlockRef_destroy bs blk (fs_st s2)\<rparr>)"
    using d(1) by (simp add: fs_keeps_def keeps_def)
qed

lemma find_block_effect:
  assumes e: "env k s" "0 < k" and f: "file_ok (fs_sb s) (vw s) (in_disk inode)"
    and b: "find_block inode logical s = (r, s')"
  shows "fk s s'" "vw s' = vw s"
    "r = (let b = lblk (vw s) (in_disk inode) (unat logical) in if b = 0 then None else Some b)"
proof -
  define di where "di = in_disk inode"
  have refl: "fk s s" using fs_keeps_refl [OF fs_envD(2) [OF e(1)]] .
  have idx: "unat logical < 12 \<longleftrightarrow> logical < NDIRECT"
    "\<not> unat logical < 12 \<Longrightarrow> unat (logical - NDIRECT) = unat logical - 12"
    by (simp_all add: fs_consts word_less_nat_alt unat_sub word_le_nat_alt)
  then have big: "\<not> unat logical < 12 \<Longrightarrow> NINDIRECT \<le> logical - NDIRECT \<longleftrightarrow> \<not> unat logical < 140"
    by (auto simp: fs_consts word_le_nat_alt)
  consider (direct) "unat logical < 12" | (far) "\<not> unat logical < 140" | (none) "\<not> unat logical < 12" "di_addrs di ! 12 = 0"
    | (ind) "\<not> unat logical < 12" "unat logical < 140" "di_addrs di ! 12 \<noteq> 0" by blast
  then have "fk s s' \<and> vw s' = vw s \<and> r = (let b = lblk (vw s) di (unat logical) in if b = 0 then None else Some b)"
  proof cases
    case direct
    then show ?thesis using b refl idx by (auto simp: find_block_def Let_def lblk_def di_def split: if_splits)
  next
    case far
    then show ?thesis using b refl idx big by (auto simp: find_block_def Let_def lblk_def di_def split: if_splits)
  next
    case none
    then show ?thesis using b refl idx big by (auto simp: find_block_def Let_def lblk_def di_def INDIRECT_INDEX_def split: if_splits)
  next
    case ind
    have t: "di_addrs di ! 12 < sb_size (fs_sb s)" using file_okD(4) [OF f [folded di_def] ind(3)] by (simp add: in_data_def)
    obtain q s1 where q: "lift_store (\<lambda>bs. scoped_read bs (di_addrs di ! 12)) s = (q, s1)"
      by (cases "lift_store (\<lambda>bs. scoped_read bs (di_addrs di ! 12)) s")
    note rd = env_read [OF e t q]
    have "table_entry (vw s (di_addrs di ! 12)) (logical - NDIRECT) = lblk (vw s) di (unat logical)"
      using ind idx(2) by (simp add: table_entry_def lblk_def)
    then show ?thesis using b rd q ind idx(1) big
      by (auto simp: find_block_def Let_def di_def INDIRECT_INDEX_def split: if_splits)
  qed
  then show "fk s s'" "vw s' = vw s" "r = (let b = lblk (vw s) (in_disk inode) (unat logical) in if b = 0 then None else Some b)"
    by (simp_all add: di_def)
qed

definition disk_full :: "'s fs \<Rightarrow> bool" where
  "disk_full s \<longleftrightarrow> (\<forall>m < sb_size (fs_sb s). block_used (fs_sb s) (vw s) m)"

text \<open>
  The postcondition shared by the branches of \<open>allocate_or_find_block\<close>: the file is extended, the data
  of its blocks is kept, and on success logical block \<open>i\<close> is block \<open>b\<close>, zeroed if it is new.
\<close>

definition grown :: "nat \<Rightarrow> 's fs \<Rightarrow> DiskInode \<Rightarrow> u32 option \<Rightarrow> DiskInode \<Rightarrow> 's fs \<Rightarrow> bool" where
  "grown i s di r di' s' \<longleftrightarrow>
     fk s s' \<and> extends (fs_sb s) (vw s) di (vw s') di' \<and> kept (vw s) di (vw s') \<and>
     (case r of
        None \<Rightarrow> disk_full s'
      | Some b \<Rightarrow> b \<noteq> 0 \<and> lblk (vw s') di' i = b \<and> (lblk (vw s) di i = 0 \<longrightarrow> vw s' b = replicate 512 0))"

lemma indirect_entry_effect:
  assumes e: "env 2 s" and f: "file_ok (fs_sb s) (vw s) di" and m: "meta_used (fs_sb s) (vw s)"
    and t: "di_addrs di ! 12 = t" "t \<noteq> 0" and k: "unat k < 128" and r: "indirect_entry t k s = (r, s')"
  shows "grown (12 + unat k) s di r di s'"
proof -
  define l where "l = lblk (vw s) di (12 + unat k)"
  have st: "fs_store s = bs" and wf: "sb_wf (fs_sb s)" using fs_envD(1,5) [OF e] by auto
  have e2: "env (Suc 1) s" using e by (simp add: numeral_2_eq_2)
  have tsz: "t < sb_size (fs_sb s)" using file_okD(4) [OF f] t by (simp add: in_data_def)
  obtain blk t1 where acq: "st_acquire bs t (fs_st s) = (blk, t1)" by (cases "st_acquire bs t (fs_st s)")
  note nb = env_acquire [OF e _ tsz acq] and a = env_acquire_held [OF e2 tsz acq]
  have ent: "table_entry (vw s t) k = l" using t k by (simp add: table_entry_def l_def lblk_def)
  note ex = extends_refl [OF f m]
  show ?thesis
  proof (cases "l = 0")
    case False
    then have "r = Some l" "s' = s\<lparr>fs_st := BlockRef_destroy bs blk t1\<rparr>"
      using r acq nb ent by (simp_all add: indirect_entry_def Let_def st)
    then show ?thesis using env_acquire_drop [OF e _ tsz acq] ex False by (simp add: grown_def kept_def l_def)
  next
    case True
    define s1 where "s1 = s\<lparr>fs_st := t1\<rparr>"
    obtain q s2 where al: "allocate_block s1 = (q, s2)" by (cases "allocate_block s1")
    have s1: "fs_sb s1 = fs_sb s" "vw s1 = vw s" using a(3) by (simp_all add: s1_def)
    note ae = allocate_block_effect [OF a(2) [folded s1_def] zero_less_one al, unfolded s1]
    note br = held_bracket [OF e2 tsz acq ae(1) [unfolded s1_def]]
    have sb2: "fs_sb s2 = fs_sb s" using fs_keeps_fields(2) [OF ae(1)] s1 by simp
    show ?thesis
    proof (cases q)
      case None
      then have "r = None" "s' = s2\<lparr>fs_st := BlockRef_destroy bs blk (fs_st s2)\<rparr>"
        using r acq nb ent True al by (simp_all add: indirect_entry_def Let_def st s1_def)
      then show ?thesis using br ae(2) None ex sb2 by (simp add: grown_def kept_def disk_full_def)
    next
      case (Some n)
      then have fd: "free_data (fs_sb s) (vw s) n" and v2: "vw s2 = alloc_view (fs_sb s) (vw s) n"
        using ae(3) group_first_free_data [OF m] by auto
      note fa = free_data_alloc [OF wf m fd env_length [OF e]]
      have t2: "vw s2 t = vw s t" using fa(4) file_okD(4) [OF f] t by (simp add: v2)
      define d where "d = splice (4 * unat k) (le_bytes 4 n) (vw s t)"
      have len: "length d = 512" using env_length [OF e] k by (simp add: d_def)
      obtain o' t4 where w: "BlockRef_write_back bs blk (set_block_data bs blk d (fs_st s2)) = (o', t4)"
        by (cases "BlockRef_write_back bs blk (set_block_data bs blk d (fs_st s2))")
      note hu = held_update [OF fs_keeps_fields(7) [OF ae(1)] br(2,1) len w]
      have "fk s2 (s2\<lparr>fs_st := t4\<rparr>)" using hu(2) by (simp add: fs_keeps_def)
      then have "fk s1 (s2\<lparr>fs_st := t4\<rparr>)" using ae(1) by (blast intro: fs_keeps_trans)
      note br4 = held_bracket [OF e2 tsz acq this [unfolded s1_def], simplified]
      have v4: "view t4 = (alloc_view (fs_sb s) (vw s) n)(t := d)" using hu(3) v2 by simp
      note xe = extend_entry [OF f wf m fd env_length [OF e] t k True [unfolded l_def] v4 [unfolded d_def]]
      have "le_word (slice (4 * unat k) 4 d) = n" using table_entry_splice [of "vw s t" "unat k" "unat k" n] k env_length [OF e] by (simp add: d_def)
      then have "r = Some n" "s' = s2\<lparr>fs_st := BlockRef_destroy bs blk t4\<rparr>"
        using r acq nb ent True al Some w hu(1) br(3) br4(3) t2 v4
        by (simp_all add: indirect_entry_def Let_def st s1_def table_entry_def d_def)
      moreover have "n \<noteq> t" using fa(7) file_okD(4) [OF f] t by metis
      ultimately show ?thesis using br4(4,5) xe v4 fa(6) by (simp add: grown_def)
    qed
  qed
qed

lemma grown_trans:
  assumes "fk s s1" "extends (fs_sb s) (vw s) di (vw s1) di1" "kept (vw s) di (vw s1)"
    and "lblk (vw s1) di1 i = 0" "grown i s1 di1 r di' s'"
  shows "grown i s di r di' s'"
proof -
  have sb: "fs_sb s1 = fs_sb s" using fs_keeps_fields(2) [OF assms(1)] .
  have k: "kept (vw s) di (vw s')"
    using assms(3,5) extendsD(3) [OF assms(2)] unfolding kept_def grown_def by metis
  have "extends (fs_sb s) (vw s) di (vw s') di'"
    using extends_trans [OF assms(2)] assms(5) sb by (simp add: grown_def)
  then show ?thesis using assms k fs_keeps_trans [OF assms(1)] by (auto simp: grown_def split: option.splits)
qed

lemma alloc_grown:
  assumes e: "env 2 s" and m: "meta_used (fs_sb s) (vw s)" and a: "allocate_block s = (q, s1)"
  shows "fk s s1" "q = None \<Longrightarrow> disk_full s1 \<and> vw s1 = vw s"
    "q = Some n \<Longrightarrow> free_data (fs_sb s) (vw s) n \<and> vw s1 = alloc_view (fs_sb s) (vw s) n"
  using allocate_block_effect [OF e _ a] fs_keeps_fields(2) [of inv refs loc synced s s1] group_first_free_data [OF m]
  by (auto simp: disk_full_def)

lemma allocate_or_find_direct:
  assumes e: "env 2 s" and f: "file_ok (fs_sb s) (vw s) (in_disk inode)" and m: "meta_used (fs_sb s) (vw s)"
    and l: "unat logical < 12" and r: "allocate_or_find_block inode logical s = (r, inode', s')"
  shows "grown (unat logical) s (in_disk inode) r (in_disk inode') s' \<and> inode' = inode\<lparr>in_disk := in_disk inode'\<rparr>"
proof -
  define di where "di = in_disk inode"
  note ex = extends_refl [OF f [folded di_def] m]
  have wf: "sb_wf (fs_sb s)" and refl: "fk s s" using fs_envD(5) [OF e] fs_keeps_refl [OF fs_envD(2) [OF e]] by auto
  have len: "length (di_addrs di) = 13" using file_okD(1) [OF f] by (simp add: di_def)
  obtain q s1 where al: "allocate_block s = (q, s1)" by (cases "allocate_block s")
  note ag = alloc_grown [OF e m al]
  have lt: "logical < NDIRECT" using l by (simp add: fs_consts word_less_nat_alt)
  have lb: "lblk (vw s) di (unat logical) = di_addrs di ! unat logical" using l by (simp add: lblk_def)
  show ?thesis
  proof (cases "di_addrs di ! unat logical = 0")
    case False
    then have "r = Some (di_addrs di ! unat logical)" "inode' = inode" "s' = s"
      using r lt by (auto simp: allocate_or_find_block_def Let_def di_def)
    then show ?thesis using refl ex False lb by (simp add: grown_def di_def [symmetric] kept_def)
  next
    case zero: True
    show ?thesis
    proof (cases q)
      case None
      then have "r = None" "inode' = inode" "s' = s1"
        using r lt zero al by (auto simp: allocate_or_find_block_def Let_def di_def)
      then show ?thesis using ag None ex by (simp add: grown_def di_def [symmetric] kept_def)
    next
      case (Some n)
      then have res: "r = Some n" "inode' = set_addr (unat logical) n inode" "s' = s1"
        using r lt zero al by (auto simp: allocate_or_find_block_def Let_def di_def)
      have fd: "free_data (fs_sb s) (vw s) n" and v1: "vw s1 = alloc_view (fs_sb s) (vw s) n" using ag(3) Some by auto
      note x = extend_direct [OF f [folded di_def] wf m fd env_length [OF e] l zero HOL.refl]
      have "in_disk inode' = di\<lparr>di_addrs := (di_addrs di)[unat logical := n]\<rparr>"
        by (simp add: res(2) set_addr_def di_def)
      then show ?thesis
        using x ag(1) res(1,3) v1 free_data_alloc(1,6) [OF wf m fd env_length [OF e]]
        by (simp add: grown_def di_def [symmetric]) (simp add: res(2) set_addr_def)
    qed
  qed
qed

lemma allocate_or_find_indirect:
  assumes e: "env 2 s" and f: "file_ok (fs_sb s) (vw s) (in_disk inode)" and m: "meta_used (fs_sb s) (vw s)"
    and l: "12 \<le> unat logical \<and> unat logical < 140" and r: "allocate_or_find_block inode logical s = (r, inode', s')"
  shows "grown (unat logical) s (in_disk inode) r (in_disk inode') s' \<and> inode' = inode\<lparr>in_disk := in_disk inode'\<rparr>"
proof -
  define di where "di = in_disk inode"
  note ex = extends_refl [OF f [folded di_def] m]
  have wf: "sb_wf (fs_sb s)" and refl: "fk s s" using fs_envD(5) [OF e] fs_keeps_refl [OF fs_envD(2) [OF e]] by auto
  have len: "length (di_addrs di) = 13" using file_okD(1) [OF f] by (simp add: di_def)
  obtain q s1 where al: "allocate_block s = (q, s1)" by (cases "allocate_block s")
  note ag = alloc_grown [OF e m al]
  have lt: "\<not> logical < NDIRECT" and k: "unat (logical - NDIRECT) = unat logical - 12"
    using l by (simp_all add: fs_consts word_less_nat_alt unat_sub word_le_nat_alt)
  then have k128: "unat (logical - NDIRECT) < 128" "12 + unat (logical - NDIRECT) = unat logical" using l by auto
  then have ge: "\<not> NINDIRECT \<le> logical - NDIRECT" by (simp add: fs_consts word_le_nat_alt)
  show ?thesis
  proof (cases "di_addrs di ! 12 = 0")
    case nz: False
    have res: "indirect_entry (di_addrs di ! 12) (logical - NDIRECT) s = (r, s')" "inode' = inode"
      using r lt ge nz by (auto simp: allocate_or_find_block_def Let_def di_def INDIRECT_INDEX_def split: prod.splits)
    then show ?thesis
      using indirect_entry_effect [OF e f m HOL.refl _ k128(1), of r s'] nz k128(2) by (simp add: di_def)
  next
    case zero: True
    show ?thesis
    proof (cases q)
      case None
      then have "r = None" "inode' = inode" "s' = s1"
        using r lt ge zero al by (auto simp: allocate_or_find_block_def Let_def di_def INDIRECT_INDEX_def)
      then show ?thesis using ag None ex by (simp add: grown_def di_def [symmetric] kept_def)
    next
      case (Some n)
      define di1 where "di1 = di\<lparr>di_addrs := (di_addrs di)[12 := n]\<rparr>"
      have res: "indirect_entry n (logical - NDIRECT) s1 = (r, s')" "inode' = set_addr 12 n inode"
        using r lt ge zero al Some len
        by (auto simp: allocate_or_find_block_def Let_def di_def INDIRECT_INDEX_def set_addr_def split: prod.splits)
      have fd: "free_data (fs_sb s) (vw s) n" and v1: "vw s1 = alloc_view (fs_sb s) (vw s) n" using ag(3) Some by auto
      note x = extend_indirect [OF f [folded di_def] wf m fd env_length [OF e] zero di1_def, folded v1]
      have d1: "in_disk inode' = di1" by (simp add: res(2) set_addr_def di1_def di_def)
      have sb1: "fs_sb s1 = fs_sb s" using fs_keeps_fields(2) [OF ag(1)] .
      have g: "grown (unat logical) s1 di1 r di1 s'"
        using indirect_entry_effect [OF fs_env_keeps [OF e ag(1)] _ _ x(4,5) k128(1) res(1)] extendsD(1,7) [OF x(1)]
          sb1 k128(2) by simp
      have "lblk (vw s1) di1 (unat logical) = 0" using x(3) l by simp
      then show ?thesis using grown_trans [OF ag(1) x(1,2) _ g] d1 by (simp add: di_def) (simp add: res(2) set_addr_def)
    qed
  qed
qed

lemmas allocate_or_find_cases = allocate_or_find_direct allocate_or_find_indirect

lemma allocate_or_find_block_effect:
  assumes e: "env 2 s" and f: "file_ok (fs_sb s) (vw s) (in_disk inode)" and m: "meta_used (fs_sb s) (vw s)"
    and l: "unat logical < 140" and r: "allocate_or_find_block inode logical s = (r, inode', s')"
  shows "grown (unat logical) s (in_disk inode) r (in_disk inode') s' \<and> inode' = inode\<lparr>in_disk := in_disk inode'\<rparr>"
  using allocate_or_find_cases [OF e f m _ r] l by (cases "unat logical < 12") auto

end

section \<open>A file as an array of bytes\<close>

definition fbyte :: "(u32 \<Rightarrow> bytes) \<Rightarrow> DiskInode \<Rightarrow> nat \<Rightarrow> u8" where
  "fbyte v di p = v (lblk v di (p div 512)) ! (p mod 512)"

definition file_bytes :: "(u32 \<Rightarrow> bytes) \<Rightarrow> DiskInode \<Rightarrow> bytes" where
  "file_bytes v di = map (fbyte v di) [0..<unat (di_size di)]"

text \<open>A file without holes, no longer than \<open>MAXFILE\<close> blocks.\<close>

definition file_wf :: "SuperBlock \<Rightarrow> (u32 \<Rightarrow> bytes) \<Rightarrow> DiskInode \<Rightarrow> bool" where
  "file_wf sb v di \<longleftrightarrow>
     file_ok sb v di \<and> unat (di_size di) \<le> 71680 \<and> (\<forall>p < unat (di_size di). lblk v di (p div 512) \<noteq> 0)"

lemma div_mod_within:
  fixes p q m :: nat
  assumes "p mod m + q < m"
  shows "(p + q) div m = p div m" "(p + q) mod m = p mod m + q"
proof -
  have "q < m" using assms by simp
  then show "(p + q) div m = p div m" using assms by (subst div_add1_eq) simp
  show "(p + q) mod m = p mod m + q" using assms by (metis mod_add_left_eq mod_less)
qed

lemma chunk_slice:
  assumes "length (v (lblk v di (p div 512))) = 512" "p mod 512 + c \<le> 512"
  shows "slice (p mod 512) c (v (lblk v di (p div 512))) = map (fbyte v di) [p..<p + c]"
  using assms div_mod_within [of p 512] by (intro nth_equalityI) (simp_all add: nth_slice fbyte_def)

lemma file_bytes_slice:
  "off + n \<le> unat (di_size di) \<Longrightarrow> slice off n (file_bytes v di) = map (fbyte v di) [off..<off + n]"
  by (simp add: file_bytes_def slice_def take_map drop_map)

lemma unat_plus_le: "unat (a :: u32) + unat b < 2 ^ 32 \<Longrightarrow> unat (a + b) = unat a + unat b"
  by (simp add: unat_word_ariths(1))

lemma unat_containing: "unat (containing p) = unat p div 512"
  by (simp add: containing_def unat_div fs_consts)

context store_contract
begin

lemma read_loop_step:
  assumes e: "env 1 s" and fw: "file_wf (fs_sb s) (vw s) (in_disk inode)" and lt: "done < count"
    and bound: "unat offset + unat count \<le> unat (di_size (in_disk inode))"
  obtains s2 c where "fk s s2" "vw s2 = vw s" "unat (done + c) = unat done + unat c" "0 < unat c" "unat done + unat c \<le> unat count"
    "read_loop inode offset count done dest s = read_loop inode offset count (done + c)
       (dest @ map (fbyte (vw s) (in_disk inode)) [unat offset + unat done..<unat offset + unat done + unat c]) s2"
proof -
  define pos where "pos = offset + done"
  define di where "di = in_disk inode"
  define chunk where "chunk = chunk_size pos count done"
  have dc: "unat done < unat count" using lt by (simp add: word_less_nat_alt)
  have sz: "unat (di_size di) \<le> 71680" and ok': "file_ok (fs_sb s) (vw s) di" using fw by (simp_all add: file_wf_def di_def)
  have pos: "unat pos = unat offset + unat done" using dc bound sz by (simp add: pos_def di_def unat_plus_le)
  define b where "b = lblk (vw s) di (unat pos div 512)"
  have inb: "unat pos div 512 < 140" "b \<noteq> 0"
    using fw dc bound sz pos by (auto simp: file_wf_def di_def b_def)
  obtain q s1 where fb: "find_block inode (containing pos) s = (q, s1)" by (cases "find_block inode (containing pos) s")
  note f = find_block_effect [OF e zero_less_one ok' [unfolded di_def] fb]
  have q: "q = Some b" using f(3) inb by (simp add: unat_containing di_def b_def Let_def)
  have bsz: "b < sb_size (fs_sb s1)"
    using file_okD(3) [OF ok' inb(1)] inb(2) fs_keeps_fields(2) [OF f(1)] by (simp add: in_data_def b_def)
  obtain q2 s2 where rd: "lift_store (\<lambda>bs. scoped_read bs b) s1 = (q2, s2)"
    by (cases "lift_store (\<lambda>bs. scoped_read bs b) s1")
  note r2 = env_read [OF fs_env_keeps [OF e f(1)] zero_less_one bsz rd]
  note ch = chunk_bounds [OF lt chunk_def]
  have sl: "slice (unat (pos mod FSBLOCK_SIZE)) (unat chunk) (vw s b) =
      map (fbyte (vw s) di) [unat offset + unat done..<unat offset + unat done + unat chunk]"
    using chunk_slice [of "vw s" di "unat pos" "unat chunk"] env_length [OF e] ch(2)
    by (simp add: b_def unat_mod_block pos)
  have "read_loop inode offset count done dest s = read_loop inode offset count (done + chunk)
      (dest @ slice (unat (pos mod FSBLOCK_SIZE)) (unat chunk) (vw s b)) s2"
    using lt fb q rd r2(1) f(2) by (subst read_loop.simps) (simp add: pos_def chunk_def Let_def)
  then show ?thesis
    using that ch fs_keeps_trans [OF f(1) r2(2)] r2(3) f(2) sl by (simp add: di_def)
qed

lemma read_loop_effect:
  assumes "env 1 s" "file_wf (fs_sb s) (vw s) (in_disk inode)" "unat done \<le> unat count"
    and "unat offset + unat count \<le> unat (di_size (in_disk inode))"
    and "read_loop inode offset count done dest s = (r, out, s')"
  shows "r = Some count \<and> fk s s' \<and> vw s' = vw s \<and>
    out = dest @ map (fbyte (vw s) (in_disk inode)) [unat offset + unat done..<unat offset + unat count]"
  using assms
proof (induction "unat count - unat done" arbitrary: "done" dest s rule: less_induct)
  case less
  note e = less.prems(1) and fw = less.prems(2) and bound = less.prems(4)
  show ?case
  proof (cases "done < count")
    case False
    then have "unat done = unat count" using less.prems(3) by (simp add: word_less_nat_alt)
    moreover from this have "done = count" by (simp add: word_unat_eq_iff)
    moreover have "r = Some done" "out = dest" "s' = s" using less.prems(5) False by (subst (asm) read_loop.simps; simp)+
    ultimately show ?thesis using fs_keeps_refl [OF fs_envD(2) [OF e]] by simp
  next
    case True
    obtain s2 c where st: "fk s s2" "vw s2 = vw s" "unat (done + c) = unat done + unat c" "0 < unat c" "unat done + unat c \<le> unat count"
      "read_loop inode offset count done dest s = read_loop inode offset count (done + c)
         (dest @ map (fbyte (vw s) (in_disk inode)) [unat offset + unat done..<unat offset + unat done + unat c]) s2"
      using read_loop_step [OF e fw True bound] .
    have sb: "fs_sb s2 = fs_sb s" using fs_keeps_fields(2) [OF st(1)] .
    have "r = Some count \<and> fk s2 s' \<and> vw s' = vw s2 \<and>
        out = (dest @ map (fbyte (vw s) (in_disk inode)) [unat offset + unat done..<unat offset + unat done + unat c]) @
          map (fbyte (vw s2) (in_disk inode)) [unat offset + unat (done + c)..<unat offset + unat count]"
      using st less.prems(3,5) fw bound sb fs_env_keeps [OF e st(1)] by (intro less.hyps) simp_all
    moreover have "[unat offset + unat done..<unat offset + unat count] =
        [unat offset + unat done..<unat offset + unat done + unat c] @ [unat offset + unat (done + c)..<unat offset + unat count]"
      using st(3,5) upt_add_eq_append [of "unat offset + unat done" "unat offset + unat done + unat c" "unat count - (unat done + unat c)"]
      by (simp add: add.assoc)
    ultimately show ?thesis using st(2) fs_keeps_trans [OF st(1)] by simp
  qed
qed

lemma read_data_effect:
  assumes e: "env 1 s" "file_wf (fs_sb s) (vw s) (in_disk inode)" and r: "read_data inode offset count s = (r, out, s')"
  shows "fk s s'" "vw s' = vw s"
    "di_size (in_disk inode) < offset \<Longrightarrow> r = None \<and> out = []"
    "offset \<le> di_size (in_disk inode) \<Longrightarrow>
       \<exists>n. r = Some n \<and> unat n = min (unat count) (unat (di_size (in_disk inode)) - unat offset) \<and>
         out = slice (unat offset) (unat n) (file_bytes (vw s) (in_disk inode))"
proof -
  define sz where "sz = di_size (in_disk inode)"
  define n where "n = (if sz - offset < count then sz - offset else count)"
  have refl: "fk s s" using fs_keeps_refl [OF fs_envD(2) [OF e(1)]] .
  have n: "unat n = min (unat count) (unat sz - unat offset)" if "offset \<le> sz"
    using that by (auto simp: n_def word_less_nat_alt unat_sub min_def)
  have R: "read_loop inode offset n 0 [] s = (r, out, s')" if "\<not> sz < offset"
    using r that unfolding read_data_def Let_def n_def sz_def by (simp split del: if_split)
  have le: "unat offset + unat n \<le> unat sz" if "offset \<le> sz"
    using n [OF that] that by (simp add: word_le_nat_alt)
  note L = read_loop_effect [OF e _ _ R, unfolded sz_def [symmetric]]
  show "fk s s'" "vw s' = vw s"
    using r refl L le by (cases "sz < offset"; simp add: read_data_def sz_def [symmetric] not_less)+
  show "di_size (in_disk inode) < offset \<Longrightarrow> r = None \<and> out = []" using r by (simp add: read_data_def)
  show "offset \<le> di_size (in_disk inode) \<Longrightarrow>
       \<exists>n. r = Some n \<and> unat n = min (unat count) (unat (di_size (in_disk inode)) - unat offset) \<and>
         out = slice (unat offset) (unat n) (file_bytes (vw s) (in_disk inode))"
    using L le n file_bytes_slice [of "unat offset" "unat n" "in_disk inode" "vw s"]
    by (auto simp: sz_def not_less)
qed

end

text \<open>
  One pass of the write loop: \<open>c\<close> bytes of \<open>src\<close> land at position \<open>p\<close> inside logical block \<open>p div 512\<close>.
\<close>

lemma lblk_write_data_block:
  assumes f: "file_ok sb v di" and i: "i < 140" "lblk v di i \<noteq> 0"
  shows "lblk (v(lblk v di i := d)) di j = lblk v di j"
  using file_okD(6) [OF f i] by (intro lblk_cong) auto

lemma extends_write:
  assumes wf: "sb_wf sb" and f: "file_ok sb v di" and m: "meta_used sb v" and i: "i < 140" "lblk v di i \<noteq> 0"
  shows "extends sb v di (v(lblk v di i := d)) di"
proof -
  define b where "b = lblk v di i"
  have bd: "in_data sb v b" using file_okD(3) [OF f i] by (simp add: b_def)
  have ds: "data_start sb \<le> unat b" using bd by (simp add: in_data_def)
  have l: "lblk (v(b := d)) di j = lblk v di j" for j using lblk_write_data_block [OF f i] by (simp add: b_def)
  have p: "ptrs (v(b := d)) di = ptrs v di" by (simp add: ptrs_def l)
  have u: "block_used sb (v(b := d)) c = block_used sb v c" if "c < sb_size sb" for c
    using block_used_data [OF wf that ds] .
  have id: "in_data sb (v(b := d)) c = in_data sb v c" for c using u by (auto simp: in_data_def)
  have "file_ok sb (v(b := d)) di" using f unfolding file_ok_def l p id .
  moreover have "m \<noteq> b" if "m \<notin> ptrs v di" for m using that i by (auto simp: ptrs_def b_def)
  moreover have "meta_used sb (v(b := d))"
    using m u sb_wfD(1) [OF wf] by (simp add: meta_used_def word_less_nat_alt)
  moreover have "unat m < unat (sb_bitmap_start sb) \<Longrightarrow> m \<noteq> b" for m using ds sb_wfD(4) [OF wf] by auto
  ultimately show ?thesis using l p u by (simp add: extends_def b_def [symmetric])
qed

lemma fbyte_write:
  assumes f: "file_ok sb v di" and i: "p div 512 < 140" "lblk v di (p div 512) \<noteq> 0"
    and len: "length (v (lblk v di (p div 512))) = 512" and c: "p mod 512 + length src \<le> 512"
    and v': "v' = v(lblk v di (p div 512) := splice (p mod 512) src (v (lblk v di (p div 512))))"
    and q: "q div 512 < 140" "lblk v di (q div 512) \<noteq> 0"
  shows "fbyte v' di q = (if p \<le> q \<and> q < p + length src then src ! (q - p) else fbyte v di q)"
proof -
  have l: "lblk v' di j = lblk v di j" for j using lblk_write_data_block [OF f i] by (simp add: v')
  show ?thesis
  proof (cases "q div 512 = p div 512")
    case False
    then have "lblk v di (q div 512) \<noteq> lblk v di (p div 512)" using file_okD(5) [OF f q(1) i(1) q(2)] by blast
    moreover have "\<not> (p \<le> q \<and> q < p + length src)"
    proof
      assume "p \<le> q \<and> q < p + length src"
      then have "p mod 512 + (q - p) < 512" using c by linarith
      then have "(p + (q - p)) div 512 = p div 512" by (rule div_mod_within)
      then show False using False \<open>p \<le> q \<and> q < p + length src\<close> by simp
    qed
    ultimately show ?thesis unfolding fbyte_def l by (auto simp: v')
  next
    case True
    have "p = 512 * (p div 512) + p mod 512" "q = 512 * (p div 512) + q mod 512" using True by (metis mult_div_mod_eq)+
    then have in': "p \<le> q \<longleftrightarrow> p mod 512 \<le> q mod 512" "q < p + length src \<longleftrightarrow> q mod 512 < p mod 512 + length src"
      "q - p = q mod 512 - p mod 512" by linarith+
    have "fbyte v' di q = splice (p mod 512) src (v (lblk v di (p div 512))) ! (q mod 512)"
      unfolding fbyte_def l by (simp add: True v')
    also have "\<dots> = (if q mod 512 < p mod 512 then v (lblk v di (p div 512)) ! (q mod 512)
        else if q mod 512 < p mod 512 + length src then src ! (q mod 512 - p mod 512)
        else v (lblk v di (p div 512)) ! (q mod 512))"
      using c len by (intro nth_splice) simp_all
    finally show ?thesis using in' True by (auto simp: fbyte_def)
  qed
qed

text \<open>
  The effect of a prefix of the write loop on the file: the bytes \<open>[a, b)\<close> come from \<open>src\<close> (which starts
  at position \<open>o\<close> of the file), every other byte that had a block keeps its value.
\<close>

definition wrote :: "(u32 \<Rightarrow> bytes) \<Rightarrow> DiskInode \<Rightarrow> (u32 \<Rightarrow> bytes) \<Rightarrow> DiskInode \<Rightarrow> bytes \<Rightarrow> nat \<Rightarrow> nat \<Rightarrow> nat \<Rightarrow> bool" where
  "wrote v di v' di' src off a b \<longleftrightarrow>
     (\<forall>q. a \<le> q \<and> q < b \<longrightarrow> lblk v' di' (q div 512) \<noteq> 0 \<and> fbyte v' di' q = src ! (q - off)) \<and>
     (\<forall>q. q div 512 < 140 \<and> lblk v di (q div 512) \<noteq> 0 \<and> \<not> (a \<le> q \<and> q < b) \<longrightarrow> fbyte v' di' q = fbyte v di q)"

lemma wrote_trans:
  assumes w: "wrote v di v1 di1 src off a b" "wrote v1 di1 v2 di2 src off b c"
    and e: "extends sb v di v1 di1" "extends sb v1 di1 v2 di2" and le: "a \<le> b" "b \<le> c" "b \<le> 71680"
  shows "wrote v di v2 di2 src off a c"
proof -
  note e1 = extendsD(3) [OF e(1)] and e2 = extendsD(3) [OF e(2)]
  have "lblk v2 di2 (q div 512) \<noteq> 0 \<and> fbyte v2 di2 q = src ! (q - off)" if q: "a \<le> q" "q < c" for q
  proof (cases "q < b")
    case True
    then have "q div 512 < 140" using le(3) by linarith
    then show ?thesis using w q True e2 [of "q div 512"] by (auto simp: wrote_def)
  next
    case False
    then show ?thesis using w(2) q by (simp add: wrote_def)
  qed
  moreover have "fbyte v2 di2 q = fbyte v di q"
    if q: "q div 512 < 140" "lblk v di (q div 512) \<noteq> 0" "\<not> (a \<le> q \<and> q < c)" for q
  proof -
    have n: "\<not> (a \<le> q \<and> q < b)" "\<not> (b \<le> q \<and> q < c)" using q(3) le by auto
    have "fbyte v1 di1 q = fbyte v di q" using w(1) q(1,2) n(1) by (simp add: wrote_def)
    moreover have "fbyte v2 di2 q = fbyte v1 di1 q" using w(2) q(1,2) n(2) e1 [OF q(1,2)] by (simp add: wrote_def)
    ultimately show ?thesis by simp
  qed
  ultimately show ?thesis by (simp add: wrote_def)
qed

lemma wrote_chunk:
  assumes wf: "sb_wf sb" and m: "meta_used sb v1" and x: "extends sb v di v1 di1" "kept v di v1"
    and b: "p div 512 < 140" "lblk v1 di1 (p div 512) \<noteq> 0" "length (v1 (lblk v1 di1 (p div 512))) = 512"
    and c: "p mod 512 + length cs \<le> 512" "cs = slice (p - off) (length cs) src" "p - off + length cs \<le> length src" "off \<le> p"
    and v2: "v2 = v1(lblk v1 di1 (p div 512) := splice (p mod 512) cs (v1 (lblk v1 di1 (p div 512))))"
  shows "wrote v di v2 di1 src off p (p + length cs)" "extends sb v1 di1 v2 di1"
proof -
  note f = extendsD(1) [OF x(1)] and e = extendsD(3) [OF x(1)]
  show "extends sb v1 di1 v2 di1" using extends_write [OF wf f m b(1,2)] by (simp add: v2)
  note fw = fbyte_write [OF f b c(1) v2]
  have l2: "lblk v2 di1 j = lblk v1 di1 j" for j using lblk_write_data_block [OF f b(1,2)] by (simp add: v2)
  have "lblk v2 di1 (q div 512) \<noteq> 0 \<and> fbyte v2 di1 q = src ! (q - off)" if q: "p \<le> q" "q < p + length cs" for q
  proof -
    have "p mod 512 + (q - p) < 512" using q c(1) by linarith
    then have "(p + (q - p)) div 512 = p div 512" by (rule div_mod_within)
    then have d: "q div 512 = p div 512" using q by simp
    have "cs ! (q - p) = src ! (p - off + (q - p))"
      using q c(3) by (subst c(2)) (simp add: nth_slice)
    then show ?thesis using fw [of q] q b d c(4) l2 by simp
  qed
  moreover have "fbyte v2 di1 q = fbyte v di q"
    if q: "q div 512 < 140" "lblk v di (q div 512) \<noteq> 0" "\<not> (p \<le> q \<and> q < p + length cs)" for q
  proof -
    have "fbyte v2 di1 q = fbyte v1 di1 q" using fw [of q] q e [OF q(1,2)] by simp
    also have "\<dots> = fbyte v di q" using e [OF q(1,2)] x(2) q(1,2) by (simp add: fbyte_def kept_def)
    finally show ?thesis .
  qed
  ultimately show "wrote v di v2 di1 src off p (p + length cs)" by (simp add: wrote_def)
qed

lemma kept_wrote_nothing: "extends sb v di v' di' \<Longrightarrow> kept v di v' \<Longrightarrow> wrote v di v' di' src off a a"
proof -
  assume x: "extends sb v di v' di'" "kept v di v'"
  have "fbyte v' di' q = fbyte v di q" if "q div 512 < 140" "lblk v di (q div 512) \<noteq> 0" for q
    using extendsD(3) [OF x(1) that] x(2) that by (simp add: fbyte_def kept_def)
  then show ?thesis by (auto simp: wrote_def)
qed

context store_contract
begin

text \<open>The state of the loop: what has been written up to \<open>d'\<close> and what was kept.\<close>

definition write_post :: "'s fs \<Rightarrow> Inode \<Rightarrow> bytes \<Rightarrow> nat \<Rightarrow> nat \<Rightarrow> nat \<Rightarrow> Inode \<Rightarrow> 's fs \<Rightarrow> bool" where
  "write_post s inode src off a b inode' s' \<longleftrightarrow>
     fk s s' \<and> inode' = inode\<lparr>in_disk := in_disk inode'\<rparr> \<and>
     extends (fs_sb s) (vw s) (in_disk inode) (vw s') (in_disk inode') \<and>
     wrote (vw s) (in_disk inode) (vw s') (in_disk inode') src off a b"

lemma write_loop_step:
  assumes e: "env 2 s" and f: "file_ok (fs_sb s) (vw s) (in_disk inode)" and m: "meta_used (fs_sb s) (vw s)"
    and lt: "done < count" and bound: "unat offset + unat count \<le> 71680" "unat count \<le> length source"
  obtains (stop) inode1 s1 where "write_loop inode source offset count done s = (done, inode1, s1)" "disk_full s1"
      "write_post s inode source (unat offset) (unat offset + unat done) (unat offset + unat done) inode1 s1"
    | (go) inode1 s2 c where "write_loop inode source offset count done s = write_loop inode1 source offset count (done + c) s2"
      "unat (done + c) = unat done + unat c" "0 < unat c" "unat done + unat c \<le> unat count"
      "write_post s inode source (unat offset) (unat offset + unat done) (unat offset + unat done + unat c) inode1 s2"
      "c = chunk_size (offset + done) count done"
proof -
  define pos where "pos = offset + done"
  define chunk where "chunk = chunk_size pos count done"
  define i where "i = unat pos div 512"
  have dc: "unat done < unat count" using lt by (simp add: word_less_nat_alt)
  have pos: "unat pos = unat offset + unat done" using dc bound(1) by (simp add: pos_def unat_plus_le)
  then have i: "i < 140" "unat (containing pos) = i" using dc bound(1) by (auto simp: i_def unat_containing)
  obtain q inode1 s1 where a: "allocate_or_find_block inode (containing pos) s = (q, inode1, s1)" by (metis prod_cases3)
  note g = allocate_or_find_block_effect [OF e f m _ a, unfolded i(2), OF i(1)]
  define v di v1 di1 where "v = vw s" and "di = in_disk inode" and "v1 = vw s1" and "di1 = in_disk inode1"
  have x: "fk s s1" "extends (fs_sb s) v di v1 di1" "kept v di v1" "inode1 = inode\<lparr>in_disk := di1\<rparr>"
    using g by (simp_all add: grown_def v_def di_def v1_def di1_def)
  show ?thesis
  proof (cases q)
    case None
    then have "write_loop inode source offset count done s = (done, inode1, s1)"
      using a lt by (subst write_loop.simps) (simp add: pos_def Let_def)
    moreover have "disk_full s1" using g None by (simp add: grown_def)
    moreover have "write_post s inode source (unat offset) (unat offset + unat done) (unat offset + unat done) inode1 s1"
      unfolding write_post_def v_def [symmetric] di_def [symmetric] v1_def [symmetric] di1_def [symmetric]
      using x kept_wrote_nothing [OF x(2,3)] by blast
    ultimately show ?thesis by (rule stop)
  next
    case (Some b)
    have b: "b \<noteq> 0" "lblk v1 di1 i = b" using g Some by (simp_all add: grown_def v1_def di1_def)
    have sb1: "fs_sb s1 = fs_sb s" and e1: "env 2 s1" using fs_keeps_fields(2) [OF x(1)] fs_env_keeps [OF e x(1)] by auto
    have bsz: "b < sb_size (fs_sb s1)"
      using file_okD(3) [OF extendsD(1) [OF x(2)] i(1)] b sb1 by (simp add: in_data_def)
    note cc = chunk_bounds [OF lt chunk_def]
    define cs where "cs = slice (unat done) (unat chunk) source"
    have cs: "length cs = unat chunk" using cc(1) bound(2) by (simp add: cs_def)
    obtain w s2 where u: "lift_store (\<lambda>bs. scoped_update bs b (splice (unat (pos mod FSBLOCK_SIZE)) cs)) s1 = (w, s2)"
      by (cases "lift_store (\<lambda>bs. scoped_update bs b (splice (unat (pos mod FSBLOCK_SIZE)) cs)) s1")
    have len: "length (splice (unat (pos mod FSBLOCK_SIZE)) cs (vw s1 b)) = 512"
      using cc(2) cs env_length [OF e1] by (simp add: unat_mod_block)
    note eu = env_update [OF e1 zero_less_numeral bsz u len]
    have step: "write_loop inode source offset count done s = write_loop inode1 source offset count (done + chunk) s2"
      using a lt Some u eu(1) by (subst write_loop.simps) (simp add: pos_def Let_def cs_def chunk_def)
    have v2: "vw s2 = v1(lblk v1 di1 (unat pos div 512) :=
        splice (unat pos mod 512) cs (v1 (lblk v1 di1 (unat pos div 512))))"
      using eu(3) b(2) by (simp add: v1_def i_def unat_mod_block)
    have w2: "wrote v di (vw s2) di1 source (unat offset) (unat pos) (unat pos + length cs)"
      "extends (fs_sb s) v1 di1 (vw s2) di1"
    proof -
      have b': "unat pos div 512 < 140" "lblk v1 di1 (unat pos div 512) \<noteq> 0" "length (v1 (lblk v1 di1 (unat pos div 512))) = 512"
        using i(1) b env_length [OF e1] by (simp_all add: i_def v1_def)
      have c': "unat pos mod 512 + length cs \<le> 512" "cs = slice (unat pos - unat offset) (length cs) source"
        "unat pos - unat offset + length cs \<le> length source" "unat offset \<le> unat pos"
        using cc(1,2) cs pos bound(2) by (simp_all add: cs_def)
      note wc = wrote_chunk [OF fs_envD(5) [OF e] extendsD(7) [OF x(2)] x(2,3) b' c' v2]
      show "wrote v di (vw s2) di1 source (unat offset) (unat pos) (unat pos + length cs)" by (rule wc(1))
      show "extends (fs_sb s) v1 di1 (vw s2) di1" by (rule wc(2))
    qed
    have "write_post s inode source (unat offset) (unat offset + unat done) (unat offset + unat done + unat chunk) inode1 s2"
      unfolding write_post_def v_def [symmetric] di_def [symmetric] di1_def [symmetric]
      using w2(1) [unfolded pos cs] extends_trans [OF x(2) w2(2)] fs_keeps_trans [OF x(1) eu(2)] x(4) by blast
    then show ?thesis using go [OF step cc(4,3,1)] by (simp add: chunk_def pos_def)
  qed
qed

lemma write_loop_effect:
  assumes "env 2 s" "file_ok (fs_sb s) (vw s) (in_disk inode)" "meta_used (fs_sb s) (vw s)"
    and "unat done \<le> unat count" "unat offset + unat count \<le> 71680" "unat count \<le> length source"
    and "write_loop inode source offset count done s = (d', inode', s')"
  shows "unat done \<le> unat d' \<and> unat d' \<le> unat count \<and> (d' = count \<or> disk_full s') \<and>
    write_post s inode source (unat offset) (unat offset + unat done) (unat offset + unat d') inode' s'"
  using assms
proof (induction "unat count - unat done" arbitrary: "done" inode s rule: less_induct)
  case less
  note e = less.prems(1) and f = less.prems(2) and m = less.prems(3) and bound = less.prems(5,6)
  show ?case
  proof (cases "done < count")
    case False
    then have "unat done = unat count" using less.prems(4) by (simp add: word_less_nat_alt)
    moreover from this have "done = count" by (simp add: word_unat_eq_iff)
    moreover have "d' = done" "inode' = inode" "s' = s" using less.prems(7) False by (subst (asm) write_loop.simps; simp)+
    ultimately show ?thesis
      using fs_keeps_refl [OF fs_envD(2) [OF e]] extends_refl [OF f m] kept_wrote_nothing [OF extends_refl [OF f m]]
      by (simp add: write_post_def kept_def)
  next
    case True
    show ?thesis
    proof (cases rule: write_loop_step [OF e f m True bound, case_names stop go])
      case (stop inode1 s1)
      then show ?thesis using less.prems(4,7) by simp
    next
      case (go inode1 s2 c)
      have k: "fk s s2" and x: "extends (fs_sb s) (vw s) (in_disk inode) (vw s2) (in_disk inode1)"
        and w: "wrote (vw s) (in_disk inode) (vw s2) (in_disk inode1) source (unat offset) (unat offset + unat done) (unat offset + unat done + unat c)"
        and i1: "inode1 = inode\<lparr>in_disk := in_disk inode1\<rparr>" using go(5) by (simp_all add: write_post_def)
      have sb: "fs_sb s2 = fs_sb s" using fs_keeps_fields(2) [OF k] .
      have IH: "unat (done + c) \<le> unat d' \<and> unat d' \<le> unat count \<and> (d' = count \<or> disk_full s') \<and>
          write_post s2 inode1 source (unat offset) (unat offset + unat (done + c)) (unat offset + unat d') inode' s'"
        using go(1-4) less.prems(7) bound fs_env_keeps [OF e k] extendsD(1,7) [OF x] sb
        by (intro less.hyps) simp_all
      then have k2: "fk s2 s'" and x2: "extends (fs_sb s) (vw s2) (in_disk inode1) (vw s') (in_disk inode')"
        and w2: "wrote (vw s2) (in_disk inode1) (vw s') (in_disk inode') source (unat offset) (unat offset + unat done + unat c) (unat offset + unat d')"
        and i2: "inode' = inode1\<lparr>in_disk := in_disk inode'\<rparr>" using go(2) sb by (simp_all add: write_post_def add.assoc)
      have "wrote (vw s) (in_disk inode) (vw s') (in_disk inode') source (unat offset) (unat offset + unat done) (unat offset + unat d')"
        using wrote_trans [OF w w2 x x2] IH go(2,4) bound(1) by simp
      moreover have "inode' = inode\<lparr>in_disk := in_disk inode'\<rparr>" using i1 i2 by (metis Inode.surjective Inode.update_convs(4))
      ultimately show ?thesis
        using IH go(2) fs_keeps_trans [OF k k2] extends_trans [OF x x2] by (simp add: write_post_def)
    qed
  qed
qed

end

context store_contract
begin

text \<open>A write that stays inside one block is all or nothing.\<close>

lemma write_loop_one_block:
  assumes "env 2 s" "file_ok (fs_sb s) (vw s) (in_disk inode)" "meta_used (fs_sb s) (vw s)"
    and "unat offset + unat count \<le> 71680" "unat count \<le> length source" "unat offset mod 512 + unat count \<le> 512"
    and "write_loop inode source offset count 0 s = (d', inode', s')"
  shows "d' = 0 \<or> d' = count"
proof (cases "0 < count")
  case True
  show ?thesis
  proof (cases rule: write_loop_step [OF assms(1-3) True assms(4,5), case_names stop go])
    case (stop inode1 s1)
    then show ?thesis using assms(7) by simp
  next
    case (go inode1 s2 c)
    have "unat c = unat count" using go(6) unat_chunk(1) [OF True, of offset] assms(6) by simp
    then have "c = count" by (simp add: word_unat_eq_iff)
    then have "write_loop inode1 source offset count count s2 = (d', inode', s')" using go(1) assms(7) by simp
    then show ?thesis by (subst (asm) write_loop.simps) simp
  qed
next
  case False
  then show ?thesis using assms(7) by (subst (asm) write_loop.simps) auto
qed

end

text \<open>The file after the loop and the update of its size.\<close>

lemma lblk_size [simp]: "lblk v (di\<lparr>di_size := z\<rparr>) i = lblk v di i"
  by (simp add: lblk_def)

lemma fbyte_size [simp]: "fbyte v (di\<lparr>di_size := z\<rparr>) i = fbyte v di i"
  by (simp add: fbyte_def)

lemma file_ok_size [simp]: "file_ok sb v (di\<lparr>di_size := z\<rparr>) = file_ok sb v di"
  by (simp add: file_ok_def ptrs_def)

lemma length_file_bytes [simp]: "length (file_bytes v di) = unat (di_size di)"
  by (simp add: file_bytes_def)

lemma written_file:
  assumes w: "file_wf sb v di" and x: "extends sb v di v1 di1" "wrote v di v1 di1 src off off (off + n)"
    and b: "off \<le> unat (di_size di)" "off + n \<le> 71680" "n \<le> length src"
    and d: "di2 = di1\<lparr>di_size := z\<rparr>" "unat z = max (unat (di_size di)) (off + n)"
  shows "file_wf sb v1 di2" "file_bytes v1 di2 = splice off (take n src) (file_bytes v di)"
proof -
  have sz: "unat (di_size di) \<le> 71680" and nh: "\<And>p. p < unat (di_size di) \<Longrightarrow> lblk v di (p div 512) \<noteq> 0"
    using w by (simp_all add: file_wf_def)
  have old: "lblk v1 di1 (p div 512) \<noteq> 0" "\<not> (off \<le> p \<and> p < off + n) \<Longrightarrow> fbyte v1 di1 p = fbyte v di p"
    if "p < unat (di_size di)" for p
  proof -
    have p: "p div 512 < 140" using that sz by linarith
    show "lblk v1 di1 (p div 512) \<noteq> 0" using extendsD(3) [OF x(1) p nh [OF that]] nh [OF that] by simp
    show "\<not> (off \<le> p \<and> p < off + n) \<Longrightarrow> fbyte v1 di1 p = fbyte v di p"
      using x(2) p nh [OF that] by (simp add: wrote_def)
  qed
  have new: "lblk v1 di1 (p div 512) \<noteq> 0 \<and> fbyte v1 di1 p = src ! (p - off)" if "off \<le> p" "p < off + n" for p
    using x(2) that by (simp add: wrote_def)
  have "lblk v1 di1 (p div 512) \<noteq> 0" if "p < unat z" for p
    using old(1) new that d(2) b(1) by (cases "p < unat (di_size di)") (auto simp: max_def split: if_splits)
  then show "file_wf sb v1 di2" using extendsD(1) [OF x(1)] d b(2) sz by (simp add: file_wf_def)
  show "file_bytes v1 di2 = splice off (take n src) (file_bytes v di)"
  proof (rule nth_equalityI)
    show len: "length (file_bytes v1 di2) = length (splice off (take n src) (file_bytes v di))"
      using d b by (auto simp: splice_def max_def)
    fix p assume "p < length (file_bytes v1 di2)"
    then have p: "p < unat z" using d by simp
    have "file_bytes v1 di2 ! p = (if off \<le> p \<and> p < off + n then src ! (p - off) else fbyte v di p)"
      using p old(2) new d b(1) by (auto simp: file_bytes_def max_def split: if_splits)
    moreover have "p < off \<Longrightarrow> p < unat (di_size di)" "\<not> p < off + n \<Longrightarrow> p < unat (di_size di)"
      using p b(1) d(2) by (auto simp: max_def split: if_splits)
    ultimately show "file_bytes v1 di2 ! p = splice off (take n src) (file_bytes v di) ! p"
      using b by (auto simp: splice_def nth_append file_bytes_def min_def)
  qed
qed

text \<open>A write below the bitmap (into the inode area) is invisible to a file.\<close>

lemma inode_area_write:
  assumes wf: "sb_wf sb" and m: "unat m < unat (sb_bitmap_start sb)"
  shows "file_ok sb v di \<Longrightarrow> lblk (v(m := d)) di i = lblk v di i"
    and "file_wf sb v di \<Longrightarrow> file_wf sb (v(m := d)) di"
    and "file_wf sb v di \<Longrightarrow> file_bytes (v(m := d)) di = file_bytes v di"
    and "meta_used sb v \<Longrightarrow> meta_used sb (v(m := d))"
    and "c < sb_size sb \<Longrightarrow> block_used sb (v(m := d)) c = block_used sb v c"
proof -
  show u: "c < sb_size sb \<Longrightarrow> block_used sb (v(m := d)) c = block_used sb v c" for c
    using unat_bitmap_block(1) [OF wf, of c] m by (auto simp: block_used_def)
  then have id: "in_data sb (v(m := d)) c = in_data sb v c" for c by (auto simp: in_data_def)
  have ne: "in_data sb v c \<Longrightarrow> c \<noteq> m" for c using m sb_wfD(4) [OF wf] by (auto simp: in_data_def)
  have l: "lblk (v(m := d)) di j = lblk v di j" if "file_ok sb v di" for j
    using file_okD(4) [OF that] ne by (intro lblk_cong) auto
  then show "file_ok sb v di \<Longrightarrow> lblk (v(m := d)) di i = lblk v di i" by simp
  have f: "file_ok sb (v(m := d)) di" if "file_ok sb v di"
  proof -
    have p: "ptrs (v(m := d)) di = ptrs v di" using l [OF that] by (simp add: ptrs_def)
    show ?thesis using that unfolding file_ok_def l [OF that] id p .
  qed
  then show "file_wf sb v di \<Longrightarrow> file_wf sb (v(m := d)) di" using l by (simp add: file_wf_def)
  show "file_bytes (v(m := d)) di = file_bytes v di" if w: "file_wf sb v di"
  proof -
    have ok: "file_ok sb v di" using w by (simp add: file_wf_def)
    have "fbyte (v(m := d)) di p = fbyte v di p" if "p < unat (di_size di)" for p
    proof -
      have "p div 512 < 140" "lblk v di (p div 512) \<noteq> 0" using w that by (auto simp: file_wf_def)
      then show ?thesis using file_okD(3) [OF ok] ne l [OF ok] by (auto simp: fbyte_def)
    qed
    then show ?thesis by (simp add: file_bytes_def)
  qed
  show "meta_used sb v \<Longrightarrow> meta_used sb (v(m := d))"
    using u sb_wfD(1) [OF wf] by (simp add: meta_used_def word_less_nat_alt)
qed

text \<open>
  Everything \<open>write_data\<close> promises: \<open>n\<close> of the \<open>count\<close> bytes were written, fewer only when the disk is full;
  the file is the old one with those bytes in place, its inode on disk is the inode in memory, and
  what belongs to other files is untouched.
\<close>

definition write_done ::
    "SuperBlock \<Rightarrow> (u32 \<Rightarrow> bytes) \<Rightarrow> Inode \<Rightarrow> bytes \<Rightarrow> nat \<Rightarrow> nat \<Rightarrow> nat \<Rightarrow> (u32 \<Rightarrow> bytes) \<Rightarrow> Inode \<Rightarrow> bool" where
  "write_done sb v inode src off count n v' inode' \<longleftrightarrow>
     n \<le> count \<and> (n < count \<longrightarrow> (\<forall>c < sb_size sb. block_used sb v' c)) \<and>
     inode' = inode\<lparr>in_disk := in_disk inode'\<rparr> \<and>
     in_disk inode' = (in_disk inode)\<lparr>di_size := di_size (in_disk inode'), di_addrs := di_addrs (in_disk inode')\<rparr> \<and>
     file_wf sb v' (in_disk inode') \<and>
     file_bytes v' (in_disk inode') = splice off (take n src) (file_bytes v (in_disk inode)) \<and>
     disk_inode sb v' (in_number inode) = in_disk inode' \<and>
     (\<forall>i < sb_ninodes sb. i \<noteq> in_number inode \<longrightarrow> disk_inode sb v' i = disk_inode sb v i) \<and>
     (\<forall>m. in_data sb v m \<and> m \<notin> ptrs v (in_disk inode) \<longrightarrow> v' m = v m \<and> m \<notin> ptrs v' (in_disk inode')) \<and>
     (\<forall>c < sb_size sb. block_used sb v c \<longrightarrow> block_used sb v' c) \<and> meta_used sb v' \<and>
     (\<forall>c < sb_size sb. block_used sb v' c \<longrightarrow> block_used sb v c \<or> c \<in> ptrs v' (in_disk inode'))"

lemma write_doneD:
  assumes "write_done sb v inode src off count n v' inode'"
  shows "n \<le> count" "n < count \<Longrightarrow> \<forall>c < sb_size sb. block_used sb v' c"
    "in_number inode' = in_number inode" "in_refcnt inode' = in_refcnt inode"
    "di_type (in_disk inode') = di_type (in_disk inode)" "file_wf sb v' (in_disk inode')"
    "file_bytes v' (in_disk inode') = splice off (take n src) (file_bytes v (in_disk inode))"
    "disk_inode sb v' (in_number inode) = in_disk inode'"
    "i < sb_ninodes sb \<Longrightarrow> i \<noteq> in_number inode \<Longrightarrow> disk_inode sb v' i = disk_inode sb v i" "meta_used sb v'"
    "c < sb_size sb \<Longrightarrow> block_used sb v' c \<Longrightarrow> block_used sb v c \<or> c \<in> ptrs v' (in_disk inode')"
proof -
  have i: "inode' = inode\<lparr>in_disk := in_disk inode'\<rparr>"
    and d: "in_disk inode' = (in_disk inode)\<lparr>di_size := di_size (in_disk inode'), di_addrs := di_addrs (in_disk inode')\<rparr>"
    using assms unfolding write_done_def by blast+
  show "in_number inode' = in_number inode" "in_refcnt inode' = in_refcnt inode" by (subst i, simp)+
  show "di_type (in_disk inode') = di_type (in_disk inode)" by (subst d) simp
qed (use assms in \<open>auto simp: write_done_def\<close>)

lemma disk_inode_write:
  assumes wf: "sb_wf sb" and i: "i < sb_ninodes sb" and la: "length (di_addrs di) = 13" and len: "length (v (inode_block sb i)) = 512"
    and v': "v' = v(inode_block sb i := splice (unat (i mod INODES_PER_BLOCK) * 64) (DiskInode_bytes di) (v (inode_block sb i)))"
  shows "disk_inode sb v' i = di" "j < sb_ninodes sb \<Longrightarrow> j \<noteq> i \<Longrightarrow> disk_inode sb v' j = disk_inode sb v j"
proof -
  have off: "unat (k mod INODES_PER_BLOCK) * 64 + 64 \<le> 512" for k :: u32
  proof -
    have "unat (k mod INODES_PER_BLOCK) < 8" by (simp add: unat_mod fs_consts)
    then show ?thesis by simp
  qed
  show "disk_inode sb v' i = di"
    using DiskInode_roundtrip [OF la, of "unat (i mod INODES_PER_BLOCK) * 64"] off [of i] len by (simp add: disk_inode_def v')
  assume j: "j < sb_ninodes sb" "j \<noteq> i"
  show "disk_inode sb v' j = disk_inode sb v j"
  proof (cases "inode_block sb j = inode_block sb i")
    case True
    then have "unat j div 8 = unat i div 8"
      using unat_inode_block(1) [OF wf j(1)] unat_inode_block(1) [OF wf i] by simp
    then have "unat j mod 8 \<noteq> unat i mod 8" using j(2) by (metis div_mult_mod_eq word_unat_eq_iff)
    then have "unat j mod 8 * 64 + 64 \<le> unat i mod 8 * 64 \<or> unat i mod 8 * 64 + 64 \<le> unat j mod 8 * 64" by arith
    then show ?thesis
      using DiskInode_at_other [OF la, of "unat (i mod INODES_PER_BLOCK) * 64" _ "unat (j mod INODES_PER_BLOCK) * 64"]
        off [of i] off [of j] len True by (auto simp: disk_inode_def v' unat_mod fs_consts)
  qed (simp add: disk_inode_def v')
qed

context store_contract
begin

lemma write_data_effect:
  assumes e: "env 2 s" and w: "file_wf (fs_sb s) (vw s) (in_disk inode)" and m: "meta_used (fs_sb s) (vw s)"
    and i: "in_number inode < sb_ninodes (fs_sb s)" and src: "unat count \<le> length source"
    and b: "unat offset \<le> unat (di_size (in_disk inode))" "unat offset + unat count \<le> 71680"
    and r: "write_data inode source offset count s = (r, inode', s')"
  shows "fk s s'" "\<exists>n. r = Some n \<and>
    write_done (fs_sb s) (vw s) inode source (unat offset) (unat count) (unat n) (vw s') inode' \<and>
    (unat offset mod 512 + unat count \<le> 512 \<longrightarrow> n = 0 \<or> n = count)"
proof -
  define di where "di = in_disk inode"
  have f: "file_ok (fs_sb s) (vw s) di" and wf: "sb_wf (fs_sb s)" using w fs_envD(5) [OF e] by (auto simp: file_wf_def di_def)
  obtain n inode1 s1 where l: "write_loop inode source offset count 0 s = (n, inode1, s1)" by (metis prod_cases3)
  note L = write_loop_effect [OF e f [unfolded di_def] m _ b(2) src l, simplified]
  define di1 where "di1 = in_disk inode1"
  have k: "fk s s1" and x: "extends (fs_sb s) (vw s) di (vw s1) di1" and wr: "wrote (vw s) di (vw s1) di1 source (unat offset) (unat offset) (unat offset + unat n)"
    and i1: "inode1 = inode\<lparr>in_disk := di1\<rparr>" using L by (simp_all add: write_post_def di_def di1_def)
  have nle: "unat n \<le> unat count" and full: "n = count \<or> disk_full s1" using L by auto
  have off_n: "unat (offset + n) = unat offset + unat n" using nle b(2) by (simp add: unat_plus_le)
  have szeq: "di_size di1 = di_size di" using extendsD(2) [OF x] by (metis DiskInode.select_convs(5) DiskInode.surjective DiskInode.update_convs(6))
  define z where "z = (if di_size di < offset + n then offset + n else di_size di)"
  have z: "unat z = max (unat (di_size di)) (unat offset + unat n)"
    using off_n by (auto simp: z_def max_def word_less_nat_alt)
  define di2 where "di2 = di1\<lparr>di_size := z\<rparr>"
  define inode2 where "inode2 = inode\<lparr>in_disk := di2\<rparr>"
  have same: "di1\<lparr>di_size := di_size di\<rparr> = di1" using szeq by (metis DiskInode.surjective DiskInode.update_convs(5) DiskInode.select_convs(5))
  have upd: "(if di_size (in_disk inode1) < offset + n
      then inode1\<lparr>in_disk := (in_disk inode1)\<lparr>di_size := offset + n\<rparr>\<rparr> else inode1) = inode2"
    using i1 szeq same by (simp add: inode2_def di2_def z_def)
  have bnd: "\<not> di_size di < offset" "\<not> max_bytes < offset" "\<not> max_bytes - offset < count"
    using b by (simp_all add: di_def max_bytes_def fs_consts word_less_nat_alt unat_sub word_le_nat_alt)
  obtain u s2 where up: "update_inode inode2 s1 = (u, s2)" by (cases "update_inode inode2 s1")
  have num: "in_number inode2 = in_number inode" "in_disk inode2 = di2" by (simp_all add: inode2_def)
  have la: "length (di_addrs di2) = 13" using file_okD(1) [OF extendsD(1) [OF x]] by (simp add: di2_def)
  have e1: "env 2 s1" and sb1: "fs_sb s1 = fs_sb s" using fs_env_keeps [OF e k] fs_keeps_fields(2) [OF k] by auto
  note wd = write_disk_inode_effect [OF e1 zero_less_numeral _ la up [unfolded update_inode_def num], unfolded sb1, OF i]
  have res: "r = Some n" "inode' = inode2" "s' = s2"
    using r l bnd upd up wd(1) by (simp_all add: write_data_def di_def Let_def)
  show "fk s s'" using fs_keeps_trans [OF k wd(2)] res by simp
  note fw = written_file [OF w [folded di_def] x wr b(1) [folded di_def] _ _ di2_def z]
  have bits: "unat offset + unat n \<le> 71680" "unat n \<le> length source" using nle b(2) src by auto
  have ib: "unat (inode_block (fs_sb s) (in_number inode)) < unat (sb_bitmap_start (fs_sb s))"
    using unat_inode_block(2) [OF wf i] .
  note ia = inode_area_write [OF wf ib]
  note dw = disk_inode_write [OF wf i la env_length [OF e1] wd(3)]
  have ino: "disk_inode (fs_sb s) (vw s1) j = disk_inode (fs_sb s) (vw s) j" if "j < sb_ninodes (fs_sb s)" for j
    using extendsD(6) [OF x] unat_inode_block(2) [OF wf that] by (simp add: disk_inode_def)
  have pt: "ptrs (vw s') di2 = ptrs (vw s1) di1"
    using ia(1) [OF extendsD(1) [OF x]] by (simp add: ptrs_def res(3) wd(3) di2_def)
  have other: "vw s' p = vw s p \<and> p \<notin> ptrs (vw s') di2" if "in_data (fs_sb s) (vw s) p" "p \<notin> ptrs (vw s) di" for p
  proof -
    have "vw s1 p = vw s p \<and> p \<notin> ptrs (vw s1) di1" using extendsD(5) [OF x that] .
    moreover have "p \<noteq> inode_block (fs_sb s) (in_number inode)"
      using that(1) ib sb_wfD(4) [OF wf] by (auto simp: in_data_def)
    ultimately show ?thesis using pt by (simp add: res(3) wd(3))
  qed
  have lost: "\<forall>c < sb_size (fs_sb s). block_used (fs_sb s) (vw s') c \<longrightarrow> block_used (fs_sb s) (vw s) c \<or> c \<in> ptrs (vw s') (in_disk inode')"
    using extendsD(10) [OF x] ia(5) pt by (simp add: res(2,3) wd(3) num)
  have "unat offset mod 512 + unat count \<le> 512 \<longrightarrow> n = 0 \<or> n = count"
    using write_loop_one_block [OF e f [unfolded di_def] m b(2) src _ l] by blast
  moreover have "di2 = di\<lparr>di_size := di_size di2, di_addrs := di_addrs di2\<rparr>"
    using extendsD(2) [OF x] unfolding di2_def by (metis DiskInode.select_convs(5,6) DiskInode.surjective DiskInode.update_convs(5,6))
  then have "write_done (fs_sb s) (vw s) inode source (unat offset) (unat count) (unat n) (vw s') inode'"
    using res nle full fw [OF bits] ia dw ino other extendsD(4,7) [OF x] num lost
    by (auto simp: write_done_def wd(3) disk_full_def sb1 inode2_def di_def)
  ultimately show "\<exists>n. r = Some n \<and>
      write_done (fs_sb s) (vw s) inode source (unat offset) (unat count) (unat n) (vw s') inode' \<and>
      (unat offset mod 512 + unat count \<le> 512 \<longrightarrow> n = 0 \<or> n = count)" using res(1) by blast
qed

end

section \<open>Reading and writing files on the buffer cache\<close>

lemma mounted_env2:
  "mounted contents good s \<Longrightarrow>
   fs_env BlockStore (store_inv contents good) cache_refs (cache_synced contents) (\<lambda>n. good (ucast n)) NBUF 2 s"
  by (rule mounted_env) (simp_all add: NBUF_def)

lemma mounted_env1:
  "mounted contents good s \<Longrightarrow>
   fs_env BlockStore (store_inv contents good) cache_refs (cache_synced contents) (\<lambda>n. good (ucast n)) NBUF 1 s"
  by (rule mounted_env) (simp_all add: NBUF_def)

text \<open>A file whose blocks are disjoint from the written one.\<close>

lemma other_file_unchanged:
  assumes wd: "write_done sb v inode src off count n v' inode'" and w: "file_wf sb v di"
    and disj: "ptrs v di \<inter> ptrs v (in_disk inode) = {}"
  shows "file_wf sb v' di" "file_bytes v' di = file_bytes v di" "ptrs v' di \<inter> ptrs v' (in_disk inode') = {}"
proof -
  have f: "file_ok sb v di" using w by (simp add: file_wf_def)
  have keep: "v' b = v b \<and> b \<notin> ptrs v' (in_disk inode')" if "b \<in> ptrs v di" for b
    using wd file_okD(2) [OF f that] that disj unfolding write_done_def by blast
  have l: "lblk v' di j = lblk v di j" for j
    using keep by (intro lblk_cong) (auto simp: ptrs_def)
  have p: "ptrs v' di = ptrs v di" by (simp add: ptrs_def l)
  have id: "in_data sb v' b" if "in_data sb v b" for b using wd that by (simp add: write_done_def in_data_def)
  have "file_ok sb v' di" using f id unfolding file_ok_def l p by blast
  then show "file_wf sb v' di" using w by (simp add: file_wf_def l)
  have "fbyte v' di q = fbyte v di q" if "q < unat (di_size di)" for q
  proof -
    have "q div 512 < 140" "lblk v di (q div 512) \<noteq> 0" using w that by (auto simp: file_wf_def)
    then have "lblk v di (q div 512) \<in> ptrs v di" by (auto simp: ptrs_def)
    then show ?thesis using keep by (simp add: fbyte_def l)
  qed
  then show "file_bytes v' di = file_bytes v di" by (simp add: file_bytes_def)
  show "ptrs v' di \<inter> ptrs v' (in_disk inode') = {}" using p keep by auto
qed

text \<open>Files for the witnesses: an empty one, and the root directory of the formatted RAM disk.\<close>

definition empty_inode :: Inode where
  "empty_inode = \<lparr>in_number = 5, in_refcnt = 1, in_valid = True, in_disk = DiskInode_zero\<lparr>di_type := kFile\<rparr>\<rparr>"

definition ram_root :: Inode where
  "ram_root = \<lparr>in_number = ROOT_INODE, in_refcnt = 1, in_valid = True, in_disk = root_inode 28\<rparr>"

lemma empty_inode_file: "file_wf sb v (in_disk empty_inode)" "ptrs v (in_disk empty_inode) = {}"
proof -
  have l: "lblk v (in_disk empty_inode) i = 0" for i
    by (simp add: lblk_def empty_inode_def DiskInode_zero_def)
  show p: "ptrs v (in_disk empty_inode) = {}"
    by (auto simp: ptrs_def l) (simp add: empty_inode_def DiskInode_zero_def)
  show "file_wf sb v (in_disk empty_inode)"
    by (simp add: file_wf_def file_ok_def p l) (simp add: empty_inode_def DiskInode_zero_def)
qed

lemma ram_root_file: "file_wf (fs_sb ram_fs) (fs_view ram_contents ram_fs) (in_disk ram_root)"
proof -
  define v where "v = fs_view ram_contents ram_fs"
  have l: "lblk v (in_disk ram_root) i = (if i = 0 then 28 else 0)" for i
    by (auto simp: lblk_def ram_root_def root_inode_def nth_Cons')
  have a: "di_addrs (in_disk ram_root) = 28 # replicate 12 0" "unat (di_size (in_disk ram_root)) = 32"
    by (simp_all add: ram_root_def root_inode_def)
  have p: "ptrs v (in_disk ram_root) = {28}" by (auto simp: ptrs_def l a)
  have "in_data (fs_sb ram_fs) v 28"
    using ram_fs_props(2,5,7) by (simp add: in_data_def formatted_def v_def)
  then show ?thesis by (auto simp: file_wf_def file_ok_def p l a v_def [symmetric])
qed

section \<open>Properties of file data\<close>

text \<open>
  C8. \<open>read_data\<close> returns exactly the bytes of the file from \<open>offset\<close>, truncated at the end of the file, fails
  only when \<open>offset\<close> is past the end, always terminates with the file system unchanged and leaks no
  block handle.
\<close>

theorem read_data_correct:
  assumes "mounted contents good s" and "file_wf (fs_sb s) (fs_view contents s) (in_disk inode)"
    and "read_data inode offset count s = (r, out, s')"
  shows "mounted contents good s' \<and> fs_view contents s' = fs_view contents s \<and> fs_sb s' = fs_sb s \<and>
    (if di_size (in_disk inode) < offset then r = None \<and> out = []
     else \<exists>n. r = Some n \<and> unat n = min (unat count) (unat (di_size (in_disk inode)) - unat offset) \<and>
       out = slice (unat offset) (unat n) (file_bytes (fs_view contents s) (in_disk inode)))"
proof -
  note e = bc.read_data_effect [OF mounted_env1 [OF assms(1)] assms(2,3)]
  show ?thesis
    using mounted_keeps [OF assms(1) e(1)] fs_keeps_fields(2) [OF e(1)] e(2,3,4) by auto
qed

theorem read_data_correct_witness:
  "fst (read_data ram_root 16 100 ram_fs) = Some 16 \<and>
   fst (snd (read_data ram_root 16 100 ram_fs)) = slice 16 16 (file_bytes (fs_view ram_contents ram_fs) (root_inode 28))"
proof -
  have sz: "di_size (root_inode 28) = 32" "in_disk ram_root = root_inode 28" by (simp_all add: ram_root_def root_inode_def)
  obtain r out s' where r: "read_data ram_root 16 100 ram_fs = (r, out, s')" by (metis prod_cases3)
  obtain n where n: "r = Some n" "unat n = 16"
    "out = slice 16 16 (file_bytes (fs_view ram_contents ram_fs) (root_inode 28))"
    using read_data_correct [OF ram_fs_props(1) ram_root_file r] by (auto simp: sz)
  then have "n = 16" by (simp add: word_unat_eq_iff)
  then show ?thesis using r n by simp
qed

text \<open>
  C9. \<open>write_data\<close> of at most \<open>MAXFILE\<close> blocks at or before the end of the file writes a prefix of the source
  (all of it unless the disk is full), after which the file is the old one with that prefix in
  place, the inode on disk is the one in memory, and other inodes, the status of used blocks and
  the data blocks of other files are unchanged; every block that came into use belongs to the file,
  so none is lost. Outside these bounds it fails and changes nothing.
\<close>

theorem write_data_correct:
  assumes "mounted contents good s" and "file_wf (fs_sb s) (fs_view contents s) (in_disk inode)"
    and "meta_used (fs_sb s) (fs_view contents s)" and "in_number inode < sb_ninodes (fs_sb s)"
    and "unat count \<le> length source" and "write_data inode source offset count s = (r, inode', s')"
  shows "if unat offset \<le> unat (di_size (in_disk inode)) \<and> unat offset + unat count \<le> 71680
    then mounted contents good s' \<and> fs_sb s' = fs_sb s \<and> fs_diverged s' = fs_diverged s \<and>
      (\<exists>n. r = Some n \<and> write_done (fs_sb s) (fs_view contents s) inode source (unat offset) (unat count) (unat n)
         (fs_view contents s') inode')
    else r = None \<and> inode' = inode \<and> s' = s"
proof (cases "unat offset \<le> unat (di_size (in_disk inode)) \<and> unat offset + unat count \<le> 71680")
  case True
  note e = bc.write_data_effect [OF mounted_env2 [OF assms(1)] assms(2-5) _ _ assms(6)]
  have k: "fs_keeps (store_inv contents good) cache_refs cache_loc (cache_synced contents) s s'" using e(1) True by simp
  show ?thesis using mounted_keeps [OF assms(1) k] fs_keeps_fields(2,5) [OF k] e(2) True by auto
next
  case False
  have "unat (di_size (in_disk inode)) \<le> 71680" using assms(2) by (simp add: file_wf_def)
  then have "di_size (in_disk inode) < offset \<or> max_bytes < offset \<or> max_bytes - offset < count"
    using False by (auto simp: max_bytes_def fs_consts word_less_nat_alt unat_sub word_le_nat_alt)
  then show ?thesis using assms(6) False by (auto simp: write_data_def split: if_splits)
qed

theorem write_data_correct_witness:
  "\<exists>n. fst (write_data empty_inode (replicate 600 7) 0 600 ram_fs) = Some n"
proof -
  obtain r i' s' where r: "write_data empty_inode (replicate 600 7) 0 600 ram_fs = (r, i', s')" by (metis prod_cases3)
  have "in_number empty_inode < sb_ninodes (fs_sb ram_fs)" by (simp add: ram_fs_props(6) empty_inode_def)
  from write_data_correct [OF ram_fs_props(1) empty_inode_file(1) ram_fs_props(3) this _ r] r show ?thesis by auto
qed

lemma write_read_back:
  assumes "mounted contents good s" and "file_wf (fs_sb s) (fs_view contents s) (in_disk inode)"
    and "meta_used (fs_sb s) (fs_view contents s)" and "in_number inode < sb_ninodes (fs_sb s)"
    and "unat count \<le> length source" and "write_data inode source offset count s = (Some n, inode', s')"
  shows "mounted contents good s'" and "fs_sb s' = fs_sb s"
    and "write_done (fs_sb s) (fs_view contents s) inode source (unat offset) (unat count) (unat n) (fs_view contents s') inode'"
    and "fst (read_data inode' offset n s') = Some n"
    and "fst (snd (read_data inode' offset n s')) = take (unat n) source"
proof -
  have bnd: "unat offset \<le> unat (di_size (in_disk inode))" "unat offset + unat count \<le> 71680"
  proof -
    have "\<not> di_size (in_disk inode) < offset" "\<not> max_bytes < offset" "\<not> max_bytes - offset < count"
      using assms(6) by (auto simp: write_data_def split: if_splits)
    then show "unat offset \<le> unat (di_size (in_disk inode))" "unat offset + unat count \<le> 71680"
      by (simp_all add: max_bytes_def fs_consts word_less_nat_alt unat_sub word_le_nat_alt)
  qed
  note w = bc.write_data_effect [OF mounted_env2 [OF assms(1)] assms(2-5) bnd assms(6)]
  have m': "mounted contents good s'" and sb: "fs_sb s' = fs_sb s"
    using mounted_keeps [OF assms(1) w(1)] fs_keeps_fields(2) [OF w(1)] by auto
  have wd: "write_done (fs_sb s) (fs_view contents s) inode source (unat offset) (unat count) (unat n) (fs_view contents s') inode'"
    using w(2) by simp
  have fw: "file_wf (fs_sb s') (fs_view contents s') (in_disk inode')" and nle: "unat n \<le> unat count"
    and fb: "file_bytes (fs_view contents s') (in_disk inode') =
      splice (unat offset) (take (unat n) source) (file_bytes (fs_view contents s) (in_disk inode))"
    using wd by (simp_all add: write_done_def sb)
  have lt: "length (take (unat n) source) = unat n" using nle assms(5) by simp
  have "unat (di_size (in_disk inode')) = length (splice (unat offset) (take (unat n) source) (file_bytes (fs_view contents s) (in_disk inode)))"
    by (metis fb length_file_bytes)
  then have sz: "unat offset + unat n \<le> unat (di_size (in_disk inode'))" using bnd(1) lt by (simp add: splice_def)
  obtain r1 o1 t1 where r1: "read_data inode' offset n s' = (r1, o1, t1)" by (metis prod_cases3)
  note e1 = bc.read_data_effect [OF mounted_env1 [OF m'] fw r1]
  have "offset \<le> di_size (in_disk inode')" using sz by (simp add: word_le_nat_alt)
  then obtain k where "r1 = Some k" "unat k = unat n"
    "o1 = slice (unat offset) (unat n) (file_bytes (fs_view contents s') (in_disk inode'))" using e1(4) sz by auto
  moreover have "slice (unat offset) (unat n) (file_bytes (fs_view contents s') (in_disk inode')) = take (unat n) source"
    using bnd(1) lt by (simp add: fb slice_def splice_def min_def)
  ultimately have one: "r1 = Some n" "o1 = take (unat n) source" by (auto simp: word_unat_eq_iff)
  show "mounted contents good s'" and "fs_sb s' = fs_sb s"
    and "write_done (fs_sb s) (fs_view contents s) inode source (unat offset) (unat count) (unat n) (fs_view contents s') inode'"
    and "fst (read_data inode' offset n s') = Some n" and "fst (snd (read_data inode' offset n s')) = take (unat n) source"
    using m' sb wd one r1 by simp_all
qed

text \<open>
  C10. Read after write: what \<open>write_data\<close> reports as written is what \<open>read_data\<close> then returns at that place,
  and every other file, one whose blocks are disjoint from the written file, reads as before.
\<close>

theorem read_after_write:
  assumes "mounted contents good s" and "file_wf (fs_sb s) (fs_view contents s) (in_disk inode)"
    and "meta_used (fs_sb s) (fs_view contents s)" and "in_number inode < sb_ninodes (fs_sb s)"
    and "unat count \<le> length source" and "write_data inode source offset count s = (Some n, inode', s')"
    and "file_wf (fs_sb s) (fs_view contents s) (in_disk other)"
    and "ptrs (fs_view contents s) (in_disk other) \<inter> ptrs (fs_view contents s) (in_disk inode) = {}"
  shows "fst (read_data inode' offset n s') = Some n \<and>
    fst (snd (read_data inode' offset n s')) = take (unat n) source \<and>
    fst (snd (read_data other off cnt s')) = fst (snd (read_data other off cnt s)) \<and>
    fst (read_data other off cnt s') = fst (read_data other off cnt s)"
proof -
  note w = write_read_back [OF assms(1-6)]
  note of = other_file_unchanged [OF w(3) assms(7,8)]
  obtain r2 o2 t2 where r2: "read_data other off cnt s' = (r2, o2, t2)" by (metis prod_cases3)
  obtain r3 o3 t3 where r3: "read_data other off cnt s = (r3, o3, t3)" by (metis prod_cases3)
  note e2 = bc.read_data_effect [OF mounted_env1 [OF w(1)] of(1) [folded w(2)] r2] and e3 = bc.read_data_effect [OF mounted_env1 [OF assms(1)] assms(7) r3]
  have "r2 = r3 \<and> o2 = o3"
  proof (cases "di_size (in_disk other) < off")
    case False
    then have "off \<le> di_size (in_disk other)" by simp
    then show ?thesis using e2(4) e3(4) of(2) by (auto simp: word_unat_eq_iff)
  qed (use e2(3) e3(3) in auto)
  then show ?thesis using w(4,5) r2 r3 by simp
qed

theorem read_after_write_witness:
  "\<exists>n i' s'. write_data empty_inode (replicate 600 7) 0 600 ram_fs = (Some n, i', s') \<and>
     fst (snd (read_data i' 0 n s')) = take (unat n) (replicate 600 7) \<and>
     fst (snd (read_data ram_root 0 32 s')) = fst (snd (read_data ram_root 0 32 ram_fs))"
proof -
  obtain r i' s' where r: "write_data empty_inode (replicate 600 7) 0 600 ram_fs = (r, i', s')" by (metis prod_cases3)
  have i: "in_number empty_inode < sb_ninodes (fs_sb ram_fs)" by (simp add: ram_fs_props(6) empty_inode_def)
  obtain n where n: "r = Some n"
    using bc.write_data_effect(2) [OF mounted_env2 [OF ram_fs_props(1)] empty_inode_file(1) ram_fs_props(3) i _ _ _ r] by auto
  have "write_data empty_inode (replicate 600 7) 0 600 ram_fs = (Some n, i', s')" using r n by simp
  from read_after_write [OF ram_fs_props(1) empty_inode_file(1) ram_fs_props(3) i _ this ram_root_file, of 0 32] this
  show ?thesis by (auto simp: empty_inode_file(2))
qed

section \<open>The inode table\<close>

definition live :: "Inode list \<Rightarrow> nat \<Rightarrow> bool" where
  "live t i \<longleftrightarrow> i < length t \<and> 0 < in_refcnt (t ! i)"

definition table_ok :: "Inode list \<Rightarrow> bool" where
  "table_ok t \<longleftrightarrow>
     length t = NUM_INODE \<and> (\<forall>i < NUM_INODE. 0 \<le> in_refcnt (t ! i)) \<and>
     (\<forall>i j. live t i \<and> live t j \<and> in_number (t ! i) = in_number (t ! j) \<longrightarrow> i = j)"

text \<open>Every referenced table entry agrees with the inode on disk.\<close>

definition coherent :: "SuperBlock \<Rightarrow> (u32 \<Rightarrow> bytes) \<Rightarrow> Inode list \<Rightarrow> bool" where
  "coherent sb v t \<longleftrightarrow>
     (\<forall>i. live t i \<longrightarrow> in_number (t ! i) < sb_ninodes sb \<and> in_disk (t ! i) = disk_inode sb v (in_number (t ! i)))"

lemma table_ok_share:
  assumes "table_ok t" "live t i"
  shows "table_ok (upd_at i (\<lambda>x. x\<lparr>in_refcnt := in_refcnt x + 1\<rparr>) t)"
    and "coherent sb v t \<Longrightarrow> coherent sb v (upd_at i (\<lambda>x. x\<lparr>in_refcnt := in_refcnt x + 1\<rparr>) t)"
proof -
  define t' where "t' = upd_at i (\<lambda>x. x\<lparr>in_refcnt := in_refcnt x + 1\<rparr>) t"
  have i: "i < length t" "0 < in_refcnt (t ! i)" using assms(2) by (auto simp: live_def)
  have lv: "live t' j = live t j" for j using i by (cases "j = i") (auto simp: t'_def live_def nth_upd_at)
  have nd: "in_number (t' ! j) = in_number (t ! j)" "in_disk (t' ! j) = in_disk (t ! j)" if "j < length t" for j
    using that by (simp_all add: t'_def nth_upd_at)
  show "table_ok t'" using assms(1) i nd lv
    by (auto simp: table_ok_def) (auto simp: t'_def nth_upd_at live_def)
  show "coherent sb v t \<Longrightarrow> coherent sb v t'"
    using nd lv by (simp add: coherent_def) (simp add: live_def)
qed

lemma table_ok_fill:
  assumes ok: "table_ok t" and i: "i < length t" "in_refcnt (t ! i) = 0"
    and new: "\<And>j. live t j \<Longrightarrow> in_number (t ! j) \<noteq> n"
    and t': "t' = upd_at i (\<lambda>x. x\<lparr>in_number := n, in_refcnt := 1, in_valid := True, in_disk := d\<rparr>) t"
  shows "table_ok t'"
    and "coherent sb v t \<Longrightarrow> n < sb_ninodes sb \<Longrightarrow> d = disk_inode sb v n \<Longrightarrow> coherent sb v t'"
proof -
  have lv: "live t' j \<longleftrightarrow> j = i \<or> live t j" for j using i by (cases "j = i") (auto simp: t' live_def nth_upd_at)
  have e: "j < length t \<Longrightarrow> j \<noteq> i \<Longrightarrow> t' ! j = t ! j" for j by (simp add: t' nth_upd_at)
  have ei: "in_number (t' ! i) = n" "in_disk (t' ! i) = d" "in_refcnt (t' ! i) = 1" using i by (simp_all add: t')
  have num: "in_number (t' ! j) = n \<longleftrightarrow> j = i" if "live t' j" for j
    using lv that new e ei by (cases "j = i") (auto simp: live_def)
  show "table_ok t'"
  proof -
    have "length t' = NUM_INODE" using ok by (simp add: table_ok_def t')
    moreover have "0 \<le> in_refcnt (t' ! j)" if "j < NUM_INODE" for j
      using ok that e ei by (cases "j = i") (auto simp: table_ok_def)
    moreover have "j = k" if "live t' j" "live t' k" "in_number (t' ! j) = in_number (t' ! k)" for j k
    proof (cases "j = i \<or> k = i")
      case True
      then show ?thesis using num that ei by metis
    next
      case False
      then show ?thesis using ok that lv e by (simp add: table_ok_def live_def)
    qed
    ultimately show ?thesis unfolding table_ok_def by blast
  qed
  assume c: "coherent sb v t" "n < sb_ninodes sb" "d = disk_inode sb v n"
  show "coherent sb v t'" unfolding coherent_def
  proof (intro allI impI)
    fix j assume "live t' j"
    then show "in_number (t' ! j) < sb_ninodes sb \<and> in_disk (t' ! j) = disk_inode sb v (in_number (t' ! j))"
      using c lv e ei by (cases "j = i") (auto simp: coherent_def live_def)
  qed
qed

text \<open>
  What \<open>get_inode n\<close> does to the table: a live entry for \<open>n\<close> is shared; otherwise the first idle slot is
  filled from the disk; with neither, it fails.
\<close>

definition got :: "u32 \<Rightarrow> DiskInode \<Rightarrow> Inode list \<Rightarrow> InodeRef \<Rightarrow> Inode list \<Rightarrow> bool" where
  "got n d t r t' \<longleftrightarrow>
     (case r of
        None \<Rightarrow> t' = t \<and> (\<forall>i < length t. in_refcnt (t ! i) \<noteq> 0) \<and> (\<forall>i. live t i \<longrightarrow> in_number (t ! i) \<noteq> n)
      | Some i \<Rightarrow> i < length t \<and> length t' = length t \<and> (\<forall>j < length t. j \<noteq> i \<longrightarrow> t' ! j = t ! j) \<and>
          in_number (t' ! i) = n \<and> in_refcnt (t' ! i) = in_refcnt (t ! i) + 1 \<and>
          (if live t i then in_number (t ! i) = n \<and> in_disk (t' ! i) = in_disk (t ! i)
           else in_refcnt (t ! i) = 0 \<and> in_disk (t' ! i) = d \<and> in_valid (t' ! i) \<and>
             (\<forall>j. live t j \<longrightarrow> in_number (t ! j) \<noteq> n)))"

text \<open>The three outcomes of \<open>allocate_inode\<close>, the last one with the inode written but no slot in the table.\<close>

definition allocated :: "InodeType \<Rightarrow> SuperBlock \<Rightarrow> (u32 \<Rightarrow> bytes) \<Rightarrow> Inode list \<Rightarrow> InodeRef \<Rightarrow> (u32 \<Rightarrow> bytes) \<Rightarrow> Inode list \<Rightarrow> bool" where
  "allocated type sb v t r v' t' \<longleftrightarrow>
     (if \<forall>i. 1 \<le> i \<and> i < sb_ninodes sb \<longrightarrow> di_type (disk_inode sb v i) \<noteq> kUnused
      then r = None \<and> v' = v \<and> t' = t
      else \<exists>j. 1 \<le> j \<and> j < sb_ninodes sb \<and> di_type (disk_inode sb v j) = kUnused \<and>
        (\<forall>i. 1 \<le> i \<and> i < j \<longrightarrow> di_type (disk_inode sb v i) \<noteq> kUnused) \<and>
        disk_inode sb v' j = DiskInode_zero\<lparr>di_type := type\<rparr> \<and>
        (\<forall>i < sb_ninodes sb. i \<noteq> j \<longrightarrow> disk_inode sb v' i = disk_inode sb v i) \<and>
        (\<forall>m. unat (sb_bitmap_start sb) \<le> unat m \<longrightarrow> v' m = v m) \<and>
        got j (DiskInode_zero\<lparr>di_type := type\<rparr>) t r t')"

context store_contract
begin

lemma get_inode_effect:
  assumes e: "env 1 (fsys_fs s)" and t: "table_ok (inode_table s)" and n: "n < sb_ninodes (fs_sb (fsys_fs s))"
    and g: "get_inode n s = (r, s')"
  shows "fk (fsys_fs s) (fsys_fs s')" "vw (fsys_fs s') = vw (fsys_fs s)" "table_ok (inode_table s')"
    "got n (disk_inode (fs_sb (fsys_fs s)) (vw (fsys_fs s)) n) (inode_table s) r (inode_table s')"
    "coherent (fs_sb (fsys_fs s)) (vw (fsys_fs s)) (inode_table s) \<Longrightarrow>
       coherent (fs_sb (fsys_fs s)) (vw (fsys_fs s)) (inode_table s')"
proof -
  define T where "T = inode_table s"
  define d where "d = disk_inode (fs_sb (fsys_fs s)) (vw (fsys_fs s)) n"
  define hit where "hit = find (\<lambda>i. in_refcnt (T ! i) > 0 \<and> in_number (T ! i) = n) [0..<length T]"
  define idle where "idle = find (\<lambda>i. in_refcnt (T ! i) = 0) [0..<length T]"
  note refl = fs_keeps_refl [OF fs_envD(2) [OF e]]
  have "fk (fsys_fs s) (fsys_fs s') \<and> vw (fsys_fs s') = vw (fsys_fs s) \<and> table_ok (inode_table s') \<and>
    got n d T r (inode_table s') \<and>
    (coherent (fs_sb (fsys_fs s)) (vw (fsys_fs s)) T \<longrightarrow> coherent (fs_sb (fsys_fs s)) (vw (fsys_fs s)) (inode_table s'))"
  proof (cases hit)
    case (Some i)
    have i: "live T i" "in_number (T ! i) = n" using find_Some_props [OF Some [unfolded hit_def]] by (auto simp: live_def)
    have r: "r = Some i" "s' = upd_inode i (\<lambda>x. x\<lparr>in_refcnt := in_refcnt x + 1\<rparr>) s"
      using g Some by (auto simp: get_inode_def Let_def hit_def T_def)
    show ?thesis using r refl table_ok_share [OF t [folded T_def] i(1)] i
      by (simp add: upd_inode_def T_def [symmetric] got_def live_def nth_upd_at)
  next
    case None
    then have nohit: "\<And>j. live T j \<Longrightarrow> in_number (T ! j) \<noteq> n" by (auto simp: hit_def find_None_props live_def)
    show ?thesis
    proof (cases idle)
      case none: None
      have "r = None" "s' = s" using g None none by (auto simp: get_inode_def Let_def hit_def idle_def T_def)
      then show ?thesis using refl t none nohit by (auto simp: got_def T_def idle_def find_None_props)
    next
      case (Some i)
      have i: "i < length T" "in_refcnt (T ! i) = 0" using find_Some_props [OF Some [unfolded idle_def]] by auto
      obtain q f1 where q: "get_disk_inode n (fsys_fs s) = (q, f1)" by (cases "get_disk_inode n (fsys_fs s)")
      note gd = get_disk_inode_effect [OF e zero_less_one n q]
      define t' where "t' = upd_at i (\<lambda>x. x\<lparr>in_number := n, in_refcnt := 1, in_valid := True, in_disk := d\<rparr>) T"
      have res: "r = Some i" "fsys_fs s' = f1" "inode_table s' = t'"
        using g None Some q gd(1)
        by (auto simp: get_inode_def Let_def hit_def idle_def T_def lift_fs_def upd_inode_def copy_from_disk_def t'_def d_def)
      note tf = table_ok_fill [OF t [folded T_def] i nohit t'_def]
      have "got n d T (Some i) t'" using i nohit by (simp add: got_def t'_def nth_upd_at live_def)
      then show ?thesis using res gd(2,3) tf n d_def by simp
    qed
  qed
  then show "fk (fsys_fs s) (fsys_fs s')" "vw (fsys_fs s') = vw (fsys_fs s)" "table_ok (inode_table s')"
    "got n (disk_inode (fs_sb (fsys_fs s)) (vw (fsys_fs s)) n) (inode_table s) r (inode_table s')"
    "coherent (fs_sb (fsys_fs s)) (vw (fsys_fs s)) (inode_table s) \<Longrightarrow>
       coherent (fs_sb (fsys_fs s)) (vw (fsys_fs s)) (inode_table s')"
    by (simp_all add: T_def d_def)
qed

lemma find_unused_inode_effect:
  assumes "env 1 s" "ninodes = sb_ninodes (fs_sb s)" "find_unused_inode n ninodes s = (r, s')"
    and "\<forall>i. 1 \<le> i \<and> i < n \<and> i < ninodes \<longrightarrow> di_type (disk_inode (fs_sb s) (vw s) i) \<noteq> kUnused" "1 \<le> n"
  shows "fk s s' \<and> vw s' = vw s \<and>
    (r = Inr None \<and> (\<forall>i. 1 \<le> i \<and> i < ninodes \<longrightarrow> di_type (disk_inode (fs_sb s) (vw s) i) \<noteq> kUnused) \<or>
     (\<exists>j. r = Inr (Some j) \<and> 1 \<le> j \<and> j < ninodes \<and> di_type (disk_inode (fs_sb s) (vw s) j) = kUnused \<and>
        (\<forall>i. 1 \<le> i \<and> i < j \<longrightarrow> di_type (disk_inode (fs_sb s) (vw s) i) \<noteq> kUnused)))"
  using assms
proof (induction "unat ninodes - unat n" arbitrary: n s rule: less_induct)
  case less
  note e = less.prems(1) and below = less.prems(4)
  show ?case
  proof (cases "n < ninodes")
    case False
    then have "r = Inr None" "s' = s" using less.prems(3) by (subst (asm) find_unused_inode.simps; simp)+
    then show ?thesis using below False fs_keeps_refl [OF fs_envD(2) [OF e]] by auto
  next
    case True
    obtain q s1 where q: "get_disk_inode n s = (q, s1)" by (cases "get_disk_inode n s")
    note gd = get_disk_inode_effect [OF e zero_less_one _ q]
    have g: "q = Some (disk_inode (fs_sb s) (vw s) n)" "fk s s1" "vw s1 = vw s" using gd True less.prems(2) by simp_all
    have sb: "fs_sb s1 = fs_sb s" using fs_keeps_fields(2) [OF g(2)] .
    show ?thesis
    proof (cases "di_type (disk_inode (fs_sb s) (vw s) n) = kUnused")
      case free: True
      have "r = Inr (Some n)" "s' = s1"
        using less.prems(3) True q g(1) free by (subst (asm) find_unused_inode.simps; simp)+
      then show ?thesis using g free True below less.prems(5) by (auto dest: order.strict_trans)
    next
      case taken: False
      have rest: "find_unused_inode (n + 1) ninodes s1 = (r, s')"
        using less.prems(3) True q g(1) taken by (subst (asm) find_unused_inode.simps) simp
      have suc: "unat (n + 1) = Suc (unat n)" using True by simp
      have below': "\<forall>i. 1 \<le> i \<and> i < n + 1 \<and> i < ninodes \<longrightarrow> di_type (disk_inode (fs_sb s1) (vw s1) i) \<noteq> kUnused"
      proof (intro allI impI)
        fix i assume i: "1 \<le> i \<and> i < n + 1 \<and> i < ninodes"
        then have "i = n \<or> i < n" using suc by (auto simp: word_less_nat_alt word_unat_eq_iff)
        then show "di_type (disk_inode (fs_sb s1) (vw s1) i) \<noteq> kUnused" using below taken i sb g(3) by auto
      qed
      have one: "1 \<le> n + 1" using suc by (simp add: word_le_nat_alt)
      have lt: "unat ninodes - unat (n + 1) < unat ninodes - unat n" using True by (rule word_less_count_measure)
      note IH = less.hyps [OF lt fs_env_keeps [OF e g(2)] _ rest below' one, unfolded sb g(3), OF less.prems(2)]
      then show ?thesis using fs_keeps_trans [OF g(2)] by auto
    qed
  qed
qed

lemma allocate_inode_effect:
  assumes e: "env 1 (fsys_fs s)" and t: "table_ok (inode_table s)"
    and ty: "type \<noteq> kUnused" and a: "allocate_inode type s = (r, s')"
  shows "fk (fsys_fs s) (fsys_fs s')" "table_ok (inode_table s')"
    "allocated type (fs_sb (fsys_fs s)) (vw (fsys_fs s)) (inode_table s) r (vw (fsys_fs s')) (inode_table s')"
proof -
  define F where "F = fsys_fs s"
  have wf: "sb_wf (fs_sb F)" using fs_envD(5) [OF e] by (simp add: F_def)
  obtain q f1 where q: "find_unused_inode 1 (sb_ninodes (fs_sb F)) F = (q, f1)"
    by (cases "find_unused_inode 1 (sb_ninodes (fs_sb F)) F")
  note fu = find_unused_inode_effect [OF e [folded F_def] refl q]
  have base: "\<forall>i. 1 \<le> i \<and> i < 1 \<and> i < sb_ninodes (fs_sb F) \<longrightarrow> di_type (disk_inode (fs_sb F) (vw F) i) \<noteq> kUnused" by auto
  note f = fu [OF base order_refl]
  have k1: "fk F f1" and v1: "vw f1 = vw F" and sb1: "fs_sb f1 = fs_sb F" using f fs_keeps_fields(2) by auto
  have "fk F (fsys_fs s') \<and> table_ok (inode_table s') \<and>
      allocated type (fs_sb F) (vw F) (inode_table s) r (vw (fsys_fs s')) (inode_table s')"
  proof (cases "\<forall>i. 1 \<le> i \<and> i < sb_ninodes (fs_sb F) \<longrightarrow> di_type (disk_inode (fs_sb F) (vw F) i) \<noteq> kUnused")
    case True
    then have "q = Inr None" using f by auto
    then have "r = None" "s' = s\<lparr>fsys_fs := f1\<rparr>" using a ty q by (auto simp: allocate_inode_def lift_fs_def F_def)
    then show ?thesis using True k1 v1 t by (simp add: allocated_def)
  next
    case False
    then obtain j where j: "q = Inr (Some j)" "1 \<le> j" "j < sb_ninodes (fs_sb F)" "di_type (disk_inode (fs_sb F) (vw F) j) = kUnused"
      "\<forall>i. 1 \<le> i \<and> i < j \<longrightarrow> di_type (disk_inode (fs_sb F) (vw F) i) \<noteq> kUnused" using f by auto
    define d where "d = DiskInode_zero\<lparr>di_type := type\<rparr>"
    obtain w f2 where w: "write_disk_inode j d f1 = (w, f2)" by (cases "write_disk_inode j d f1")
    have la: "length (di_addrs d) = 13" by (simp add: d_def DiskInode_zero_def)
    have e1: "env 1 f1" using fs_env_keeps [OF e k1 [unfolded F_def]] .
    note wd = write_disk_inode_effect [OF e1 zero_less_one _ la w, unfolded sb1 v1, OF j(3)]
    note dw = disk_inode_write [OF wf j(3) la env_length [OF e [folded F_def]] wd(3)]
    define s2 where "s2 = s\<lparr>fsys_fs := f2\<rparr>"
    have g: "get_inode j s2 = (r, s')"
      using a ty q j(1) w wd(1) by (auto simp: allocate_inode_def lift_fs_def F_def s2_def d_def)
    have k2: "fk F f2" using fs_keeps_trans [OF k1 wd(2)] .
    have s2: "fsys_fs s2 = f2" "inode_table s2 = inode_table s" "fs_sb f2 = fs_sb F"
      using fs_keeps_fields(2) [OF k2] by (simp_all add: s2_def)
    note gi = get_inode_effect [of s2, unfolded s2, OF fs_env_keeps [OF e k2 [unfolded F_def]] t j(3) g]
    have "vw (fsys_fs s') m = vw F m" if "unat (sb_bitmap_start (fs_sb F)) \<le> unat m" for m
      using unat_inode_block(2) [OF wf j(3)] that gi(2) by (auto simp: wd(3))
    then have "allocated type (fs_sb F) (vw F) (inode_table s) r (vw (fsys_fs s')) (inode_table s')"
      using j False dw gi(2,4) unfolding allocated_def d_def [symmetric] by auto
    then show ?thesis using fs_keeps_trans [OF k2 gi(1)] gi(3) by simp
  qed
  then show "fk (fsys_fs s) (fsys_fs s')" "table_ok (inode_table s')"
    "allocated type (fs_sb (fsys_fs s)) (vw (fsys_fs s)) (inode_table s) r (vw (fsys_fs s')) (inode_table s')"
    by (simp_all add: F_def)
qed

end

section \<open>Properties of the inode table\<close>

definition fsys_mounted :: "('d \<Rightarrow> u64 \<Rightarrow> bytes) \<Rightarrow> (u64 \<Rightarrow> bool) \<Rightarrow> 'd cache fsys \<Rightarrow> bool" where
  "fsys_mounted contents good s \<longleftrightarrow>
     mounted contents good (fsys_fs s) \<and> table_ok (inode_table s) \<and>
     coherent (fs_sb (fsys_fs s)) (fs_view contents (fsys_fs s)) (inode_table s)"

definition ram_fsys :: "(u64 \<Rightarrow> bytes) cache fsys" where
  "ram_fsys = \<lparr>fsys_fs = ram_fs, inode_table = static_inode_table\<rparr>"

lemma static_table_idle: "\<not> live static_inode_table i"
  by (simp add: live_def static_inode_table_def)

lemma ram_fsys_mounted: "fsys_mounted ram_contents ram_good ram_fsys"
  using ram_fs_props(1) static_table_idle
  by (simp add: fsys_mounted_def ram_fsys_def table_ok_def coherent_def) (simp add: static_inode_table_def)

text \<open>
  C11. \<open>get_inode\<close> hands out one table entry per inode number: a live entry is shared and its count goes up by one, an
  idle slot is filled with the inode read from disk, no other entry changes, and it fails only when every
  slot is in use by another inode. The table invariant (counts not negative, one live entry per inode)
  and the agreement with the disk are kept, and dropping the handle restores every count.
\<close>

theorem get_inode_correct:
  assumes "fsys_mounted contents good s" and "n < sb_ninodes (fs_sb (fsys_fs s))" and "get_inode n s = (r, s')"
  shows "fsys_mounted contents good s' \<and> fs_view contents (fsys_fs s') = fs_view contents (fsys_fs s) \<and>
    got n (disk_inode (fs_sb (fsys_fs s)) (fs_view contents (fsys_fs s)) n) (inode_table s) r (inode_table s') \<and>
    (\<forall>i < NUM_INODE. in_refcnt (inode_table (InodeRef_reset r s') ! i) = in_refcnt (inode_table s ! i))"
proof -
  have m: "mounted contents good (fsys_fs s)" and t: "table_ok (inode_table s)"
    and c: "coherent (fs_sb (fsys_fs s)) (fs_view contents (fsys_fs s)) (inode_table s)"
    using assms(1) by (auto simp: fsys_mounted_def)
  note g = bc.get_inode_effect [OF mounted_env1 [OF m] t assms(2,3)]
  have sb: "fs_sb (fsys_fs s') = fs_sb (fsys_fs s)" using fs_keeps_fields(2) [OF g(1)] .
  have "in_refcnt (inode_table (InodeRef_reset r s') ! i) = in_refcnt (inode_table s ! i)" if i: "i < NUM_INODE" for i
  proof (cases r)
    case None
    then show ?thesis using g(4) by (simp add: got_def InodeRef_reset_def)
  next
    case (Some k)
    have "length (inode_table s) = NUM_INODE" "0 \<le> in_refcnt (inode_table s ! i)" using t i by (simp_all add: table_ok_def)
    then show ?thesis using g(4) i Some
      by (cases "i = k") (auto simp: got_def InodeRef_reset_def put_inode_def upd_inode_def nth_upd_at)
  qed
  then show ?thesis using mounted_keeps [OF m g(1)] g c sb by (simp add: fsys_mounted_def)
qed

theorem get_inode_correct_witness:
  "fsys_mounted ram_contents ram_good (snd (get_inode 1 ram_fsys)) \<and>
   (\<exists>i. fst (get_inode 1 ram_fsys) = Some i \<and> in_disk (inode_table (snd (get_inode 1 ram_fsys)) ! i) = root_inode 28)"
proof -
  have n: "1 < sb_ninodes (fs_sb (fsys_fs ram_fsys))" by (simp add: ram_fsys_def ram_fs_props(6))
  obtain r s' where g: "get_inode 1 ram_fsys = (r, s')" by (cases "get_inode 1 ram_fsys")
  note c = get_inode_correct [OF ram_fsys_mounted n g]
  have t: "inode_table ram_fsys = static_inode_table" by (simp add: ram_fsys_def)
  have d: "disk_inode (fs_sb ram_fs) (fs_view ram_contents ram_fs) 1 = root_inode 28"
    using ram_fs_props(2,7) by (simp add: formatted_def fs_consts)
  have "0 < length static_inode_table" "in_refcnt (static_inode_table ! 0) = 0" by (simp_all add: static_inode_table_def NUM_INODE_def)
  then obtain i where "r = Some i" using c t by (cases r) (auto simp: got_def)
  then show ?thesis using c g static_table_idle d by (simp add: got_def t) (simp add: ram_fsys_def)
qed

text \<open>
  C12. \<open>allocate_inode\<close> takes the lowest unused inode from 1 on, writes it to disk cleared and with its type, leaves every
  other inode, the bitmap and the data blocks alone, and returns a table entry for it. It fails without
  a trace when the type is \<open>kUnused\<close> or no inode is unused; when the table has no slot it
  also fails, but the inode stays allocated on disk.
\<close>

theorem allocate_inode_correct:
  assumes "fsys_mounted contents good s" and "allocate_inode type s = (r, s')"
  shows "mounted contents good (fsys_fs s') \<and> table_ok (inode_table s') \<and>
    (if type = kUnused then r = None \<and> s' = s
     else allocated type (fs_sb (fsys_fs s)) (fs_view contents (fsys_fs s)) (inode_table s) r
       (fs_view contents (fsys_fs s')) (inode_table s'))"
proof -
  have m: "mounted contents good (fsys_fs s)" and t: "table_ok (inode_table s)" using assms(1) by (auto simp: fsys_mounted_def)
  show ?thesis
  proof (cases "type = kUnused")
    case True
    then show ?thesis using assms(2) m t by (simp add: allocate_inode_def)
  next
    case False
    note a = bc.allocate_inode_effect [OF mounted_env1 [OF m] t False assms(2)]
    then show ?thesis using mounted_keeps [OF m a(1)] False by simp
  qed
qed

theorem allocate_inode_correct_witness:
  "disk_inode (fs_sb ram_fs) (fs_view ram_contents (fsys_fs (snd (allocate_inode kFile ram_fsys)))) 2 =
     DiskInode_zero\<lparr>di_type := kFile\<rparr>"
proof -
  obtain r s' where a: "allocate_inode kFile ram_fsys = (r, s')" by (cases "allocate_inode kFile ram_fsys")
  have ty: "di_type (disk_inode (fs_sb ram_fs) (fs_view ram_contents ram_fs) i) = (if i = 1 then kDirectory else kUnused)"
    if "i < 200" for i
    using ram_fs_props(2,6) that by (auto simp: formatted_def root_inode_def root_template_def DiskInode_zero_def fs_consts)
  have free: "\<not> (\<forall>i. 1 \<le> i \<and> i < (200::u32) \<longrightarrow> di_type (disk_inode (fs_sb ram_fs) (fs_view ram_contents ram_fs) i) \<noteq> kUnused)"
    using ty [of 2] by (auto intro!: exI [of _ 2])
  have "kFile \<noteq> kUnused" "kDirectory \<noteq> kUnused" by (simp_all add: kFile_def kUnused_def kDirectory_def)
  then obtain j where j: "1 \<le> j" "j < 200" "di_type (disk_inode (fs_sb ram_fs) (fs_view ram_contents ram_fs) j) = kUnused"
    "\<forall>i. 1 \<le> i \<and> i < j \<longrightarrow> di_type (disk_inode (fs_sb ram_fs) (fs_view ram_contents ram_fs) i) \<noteq> kUnused"
    "disk_inode (fs_sb ram_fs) (fs_view ram_contents (fsys_fs s')) j = DiskInode_zero\<lparr>di_type := kFile\<rparr>"
    using allocate_inode_correct [OF ram_fsys_mounted a] free ram_fs_props(6) by (auto simp: allocated_def ram_fsys_def)
  have "j \<noteq> 1" using j(3) ty [of 1] \<open>kDirectory \<noteq> kUnused\<close> by auto
  moreover have "\<not> 2 < j" using j(2,4) ty [of 2] by auto
  ultimately have "j = 2" using j(1) by (simp add: word_le_nat_alt word_less_nat_alt word_unat_eq_iff)
  then show ?thesis using j(5) a by simp
qed

end
