(* ===== verification/Directory.thy ===== *)
theory Directory
  imports Inode_Layer
begin

text \<open>
  Directories (\<open>include/directory.hpp\<close>, \<open>include/directory.cpp\<close>): a directory is a file of 16-byte
  entries. The lemmas show that \<open>directory_lookup\<close> and \<open>directory_link\<close> implement a finite map from
  names to inode numbers on the bytes of that file.
\<close>

section \<open>Operations\<close>

text \<open>\<open>std::string_view\<close> is the list of its bytes.\<close>

definition SLASH :: u8 where "SLASH = 47"

definition is_valid_name :: "bytes \<Rightarrow> bool" where
  "is_valid_name name \<longleftrightarrow>
     \<not> (name = [] \<or> length name > DIRECTORY_NAME_SIZE) \<and> list_all (\<lambda>c. c \<noteq> SLASH) name"

definition is_name_equal :: "bytes \<Rightarrow> bytes \<Rightarrow> bool" where
  "is_name_equal entry_name name \<longleftrightarrow>
     \<not> length name > DIRECTORY_NAME_SIZE \<and>
     list_all (\<lambda>i. entry_name ! i = name ! i) [0..<length name] \<and>
     (length name = DIRECTORY_NAME_SIZE \<or> entry_name ! length name = 0)"

definition read_entry :: "Inode \<Rightarrow> u32 \<Rightarrow> 's fs \<Rightarrow> DirectoryEntry option \<times> 's fs" where
  "read_entry directory offset s =
     (case read_data directory offset 16 s of
        (n, dest, s1) \<Rightarrow> (if n = Some 16 then Some (DirectoryEntry_at 0 dest) else None, s1))"

record DirectoryLookup =
  dl_inode_number :: u32
  dl_offset :: u32

text \<open>
  The scan of \<open>directory_lookup\<close>. \<open>offset + sizeof(DirectoryEntry)\<close> is computed in 64 bits, so the guard
  is a comparison of natural numbers.
\<close>

lemma offset_step: "unat (offset :: u32) + 16 \<le> unat (sz :: u32) \<Longrightarrow> unat (offset + 16) = unat offset + 16"
  using unsigned_less [of sz, where 'a = nat] by (simp add: unat_word_ariths(1))

lemma offset_progress:
  "unat (offset :: u32) + 16 \<le> unat (sz :: u32) \<Longrightarrow> unat sz - unat (offset + 16) < unat sz - unat offset"
  using offset_step [of offset sz] by linarith

function lookup_from :: "Inode \<Rightarrow> bytes \<Rightarrow> u32 \<Rightarrow> 's fs \<Rightarrow> DirectoryLookup option \<times> 's fs" where
  "lookup_from directory name offset s =
     (if unat offset + 16 \<le> unat (di_size (in_disk directory))
      then
        (case read_entry directory offset s of
           (None, s1) \<Rightarrow> (None, s1)
         | (Some entry, s1) \<Rightarrow>
             if de_inode_number entry = 0 then lookup_from directory name (offset + 16) s1
             else if is_name_equal (de_name entry) name
             then (Some \<lparr>dl_inode_number = ucast (de_inode_number entry), dl_offset = offset\<rparr>, s1)
             else lookup_from directory name (offset + 16) s1)
      else (None, s))"
  by pat_completeness auto
termination
  by (relation "measure (\<lambda>(directory, _, offset, _). unat (di_size (in_disk directory)) - unat offset)")
    (auto simp: offset_progress)

declare lookup_from.simps [simp del]

definition directory_lookup :: "Inode \<Rightarrow> bytes \<Rightarrow> 's fs \<Rightarrow> DirectoryLookup option \<times> 's fs" where
  "directory_lookup directory name s =
     (if di_type (in_disk directory) \<noteq> kDirectory \<or> \<not> is_valid_name name then (None, s)
      else lookup_from directory name 0 s)"

text \<open>The scan of \<open>directory_link\<close>: \<open>None\<close> is a \<open>return false\<close>, \<open>Some\<close> the first free slot seen.\<close>

function link_scan :: "Inode \<Rightarrow> bytes \<Rightarrow> u32 \<Rightarrow> u32 option \<Rightarrow> 's fs \<Rightarrow> u32 option option \<times> 's fs" where
  "link_scan directory name offset free_offset s =
     (if unat offset + 16 \<le> unat (di_size (in_disk directory))
      then
        (case read_entry directory offset s of
           (None, s1) \<Rightarrow> (None, s1)
         | (Some entry, s1) \<Rightarrow>
             if de_inode_number entry = 0
             then link_scan directory name (offset + 16) (if free_offset = None then Some offset else free_offset) s1
             else if is_name_equal (de_name entry) name then (None, s1)
             else link_scan directory name (offset + 16) free_offset s1)
      else (Some free_offset, s))"
  by pat_completeness auto
termination
  by (relation "measure (\<lambda>(directory, _, offset, _). unat (di_size (in_disk directory)) - unat offset)")
    (auto simp: offset_progress)

declare link_scan.simps [simp del]

definition fresh_entry :: "bytes \<Rightarrow> u32 \<Rightarrow> DirectoryEntry" where
  "fresh_entry name inode_number =
     \<lparr>de_inode_number = ucast inode_number, de_name = splice 0 name (replicate DIRECTORY_NAME_SIZE 0)\<rparr>"

definition directory_link :: "Inode \<Rightarrow> bytes \<Rightarrow> u32 \<Rightarrow> 's fs \<Rightarrow> bool \<times> Inode \<times> 's fs" where
  "directory_link directory name inode_number s =
     (if di_type (in_disk directory) \<noteq> kDirectory \<or> \<not> is_valid_name name then (False, directory, s)
      else if inode_number = 0 \<or> inode_number > 0xFFFF then (False, directory, s)
      else
        (case link_scan directory name 0 None s of
           (None, s1) \<Rightarrow> (False, directory, s1)
         | (Some free_offset, s1) \<Rightarrow>
             let offset = (case free_offset of Some x \<Rightarrow> x | None \<Rightarrow> di_size (in_disk directory))
             in (case write_data directory (DirectoryEntry_bytes (fresh_entry name inode_number)) offset 16 s1 of
                   (n, directory1, s2) \<Rightarrow> (n = Some 16, directory1, s2))))"

section \<open>The entries of a directory\<close>

definition entry_at :: "(u32 \<Rightarrow> bytes) \<Rightarrow> DiskInode \<Rightarrow> nat \<Rightarrow> DirectoryEntry" where
  "entry_at v di k = DirectoryEntry_at (16 * k) (file_bytes v di)"

definition num_entries :: "DiskInode \<Rightarrow> nat" where
  "num_entries di = unat (di_size di) div 16"

text \<open>The slots that carry \<open>name\<close>; a well-formed directory has at most one.\<close>

definition names :: "(u32 \<Rightarrow> bytes) \<Rightarrow> DiskInode \<Rightarrow> bytes \<Rightarrow> nat \<Rightarrow> bool" where
  "names v di name k \<longleftrightarrow>
     de_inode_number (entry_at v di k) \<noteq> 0 \<and> is_name_equal (de_name (entry_at v di k)) name"

text \<open>The directory as a map from names to inode numbers.\<close>

definition dir_map :: "(u32 \<Rightarrow> bytes) \<Rightarrow> DiskInode \<Rightarrow> bytes \<Rightarrow> u32 option" where
  "dir_map v di name =
     map_option (\<lambda>k. ucast (de_inode_number (entry_at v di k))) (find (names v di name) [0..<num_entries di])"

definition dir_wf :: "SuperBlock \<Rightarrow> (u32 \<Rightarrow> bytes) \<Rightarrow> DiskInode \<Rightarrow> bool" where
  "dir_wf sb v di \<longleftrightarrow> file_wf sb v di \<and> di_type di = kDirectory \<and> unat (di_size di) mod 16 = 0"

lemma entry_offset: "unat (offset :: u32) + 16 \<le> unat (di_size di) \<Longrightarrow> unat offset mod 16 = 0 \<Longrightarrow> unat offset div 16 < num_entries di"
  by (simp add: num_entries_def)

lemma entries_below:
  assumes "\<not> unat (offset :: u32) + 16 \<le> unat (di_size di)" "unat offset mod 16 = 0"
  shows "num_entries di \<le> unat offset div 16"
proof -
  have "16 * (unat offset div 16) = unat offset" using assms(2) by auto
  then have "unat (di_size di) < Suc (unat offset div 16) * 16" using assms(1) by simp
  then have "unat (di_size di) div 16 < Suc (unat offset div 16)" by (rule less_mult_imp_div_less)
  then show ?thesis by (simp add: num_entries_def)
qed

lemma find_shift: "k < n \<Longrightarrow> find P [k..<n] = (if P k then Some k else find P [Suc k..<n])"
  by (simp add: upt_conv_Cons)

context store_contract
begin

lemma read_entry_effect:
  assumes e: "env 1 s" and w: "file_wf (fs_sb s) (vw s) (in_disk directory)"
    and b: "unat offset + 16 \<le> unat (di_size (in_disk directory))" "unat offset mod 16 = 0"
    and r: "read_entry directory offset s = (r, s')"
  shows "fk s s'" "vw s' = vw s" "r = Some (entry_at (vw s) (in_disk directory) (unat offset div 16))"
proof -
  obtain q d s1 where q: "read_data directory offset 16 s = (q, d, s1)" by (metis prod_cases3)
  note rd = read_data_effect [OF e w q]
  have "offset \<le> di_size (in_disk directory)" using b(1) by (simp add: word_le_nat_alt)
  then obtain n where n: "q = Some n" "unat n = 16" "d = slice (unat offset) 16 (file_bytes (vw s) (in_disk directory))"
    using rd(4) b(1) by auto
  have "n = 16" using n(2) by (simp add: word_unat_eq_iff)
  moreover have "16 * (unat offset div 16) = unat offset" using b(2) by auto
  ultimately have "r = Some (entry_at (vw s) (in_disk directory) (unat offset div 16))" "s' = s1"
    using r q n b(1) DirectoryEntry_at_slice [of "unat offset" "file_bytes (vw s) (in_disk directory)"]
    by (auto simp: read_entry_def entry_at_def)
  then show "fk s s'" "vw s' = vw s" "r = Some (entry_at (vw s) (in_disk directory) (unat offset div 16))"
    using rd by simp_all
qed

lemma lookup_from_effect:
  assumes "env 1 s" "file_wf (fs_sb s) (vw s) (in_disk directory)" "unat offset mod 16 = 0"
    and "lookup_from directory name offset s = (r, s')"
  shows "fk s s' \<and> vw s' = vw s \<and>
    r = map_option (\<lambda>k. \<lparr>dl_inode_number = ucast (de_inode_number (entry_at (vw s) (in_disk directory) k)), dl_offset = of_nat (16 * k)\<rparr>)
      (find (names (vw s) (in_disk directory) name) [unat offset div 16..<num_entries (in_disk directory)])"
  using assms
proof (induction "unat (di_size (in_disk directory)) - unat offset" arbitrary: offset s rule: less_induct)
  case less
  note e = less.prems(1) and w = less.prems(2) and al = less.prems(3)
  define k where "k = unat offset div 16"
  show ?case
  proof (cases "unat offset + 16 \<le> unat (di_size (in_disk directory))")
    case False
    then have "r = None" "s' = s" using less.prems(4) by (subst (asm) lookup_from.simps; simp)+
    moreover have "num_entries (in_disk directory) \<le> unat offset div 16"
      using entries_below [OF False al] .
    ultimately show ?thesis using fs_keeps_refl [OF fs_envD(2) [OF e]] by simp
  next
    case True
    obtain q s1 where q: "read_entry directory offset s = (q, s1)" by (cases "read_entry directory offset s")
    note re = read_entry_effect [OF e w True al q]
    have sb: "fs_sb s1 = fs_sb s" using fs_keeps_fields(2) [OF re(1)] .
    have kn: "k < num_entries (in_disk directory)" using entry_offset [OF True al] by (simp add: k_def)
    have off: "16 * k = unat offset" using al by (auto simp: k_def)
    show ?thesis
    proof (cases "names (vw s) (in_disk directory) name k")
      case hit: True
      then have "r = Some \<lparr>dl_inode_number = ucast (de_inode_number (entry_at (vw s) (in_disk directory) k)), dl_offset = offset\<rparr>" "s' = s1"
        using less.prems(4) True q re(3) by (subst (asm) lookup_from.simps; simp add: names_def k_def)+
      moreover have "of_nat (16 * k) = offset" unfolding off by simp
      ultimately show ?thesis using re hit find_shift [OF kn, of "names (vw s) (in_disk directory) name"] by (simp add: k_def)
    next
      case miss: False
      then have rest: "lookup_from directory name (offset + 16) s1 = (r, s')"
        using less.prems(4) True q re(3) by (subst (asm) lookup_from.simps) (auto simp: names_def k_def split: if_splits)
      have st: "unat (offset + 16) = unat offset + 16" using offset_step [OF True] .
      have al': "unat (offset + 16) mod 16 = 0" using al st by simp
      have lt: "unat (di_size (in_disk directory)) - unat (offset + 16) < unat (di_size (in_disk directory)) - unat offset"
        using st True by simp
      have d16: "unat (offset + 16) div 16 = Suc k" using st by (simp add: k_def)
      note IH = less.hyps [OF lt fs_env_keeps [OF e re(1)] _ al' rest, unfolded sb re(2) d16, OF w]
      then show ?thesis
        using miss fs_keeps_trans [OF re(1)] find_shift [OF kn, of "names (vw s) (in_disk directory) name"] by (simp add: k_def)
    qed
  qed
qed

lemma link_scan_effect:
  assumes "env 1 s" "file_wf (fs_sb s) (vw s) (in_disk directory)" "unat offset mod 16 = 0"
    and "link_scan directory name offset free s = (r, s')"
  shows "fk s s' \<and> vw s' = vw s \<and>
    r = (if \<exists>k \<in> {unat offset div 16..<num_entries (in_disk directory)}. names (vw s) (in_disk directory) name k then None
         else Some (case free of Some x \<Rightarrow> Some x
           | None \<Rightarrow> map_option (\<lambda>k. of_nat (16 * k))
               (find (\<lambda>k. de_inode_number (entry_at (vw s) (in_disk directory) k) = 0)
                  [unat offset div 16..<num_entries (in_disk directory)])))"
  using assms
proof (induction "unat (di_size (in_disk directory)) - unat offset" arbitrary: offset free s rule: less_induct)
  case less
  note e = less.prems(1) and w = less.prems(2) and al = less.prems(3)
  define k where "k = unat offset div 16"
  define n where "n = num_entries (in_disk directory)"
  define E where "E = entry_at (vw s) (in_disk directory)"
  define N where "N = names (vw s) (in_disk directory) name"
  show ?case
  proof (cases "unat offset + 16 \<le> unat (di_size (in_disk directory))")
    case False
    then have "r = Some free" "s' = s" using less.prems(4) by (subst (asm) link_scan.simps; simp)+
    then show ?thesis using fs_keeps_refl [OF fs_envD(2) [OF e]] entries_below [OF False al] by (auto split: option.split)
  next
    case True
    obtain q s1 where q: "read_entry directory offset s = (q, s1)" by (cases "read_entry directory offset s")
    note re = read_entry_effect [OF e w True al q]
    have qE: "q = Some (E k)" using re(3) by (simp add: E_def k_def)
    have sb: "fs_sb s1 = fs_sb s" using fs_keeps_fields(2) [OF re(1)] .
    have kn: "k < n" using entry_offset [OF True al] by (simp add: k_def n_def)
    have off: "of_nat (16 * k) = offset" using al by (auto simp: k_def simp del: of_nat_mult)
    have set: "{k..<n} = insert k {Suc k..<n}" using kn by auto
    have Nk: "N k \<longleftrightarrow> de_inode_number (E k) \<noteq> 0 \<and> is_name_equal (de_name (E k)) name" by (simp add: N_def names_def E_def)
    show ?thesis
    proof (cases "N k")
      case hit: True
      then have "r = None" "s' = s1"
        using less.prems(4) True q qE Nk by (subst (asm) link_scan.simps; simp)+
      then show ?thesis using re hit kn by (auto simp: k_def N_def n_def)
    next
      case miss: False
      define free1 where "free1 = (if de_inode_number (E k) = 0 then (if free = None then Some offset else free) else free)"
      have rest: "link_scan directory name (offset + 16) free1 s1 = (r, s')"
        using less.prems(4) True q qE miss Nk by (subst (asm) link_scan.simps) (auto simp: free1_def split: if_splits)
      have st: "unat (offset + 16) = unat offset + 16" using offset_step [OF True] .
      have al': "unat (offset + 16) mod 16 = 0" using al st by simp
      have d16: "unat (offset + 16) div 16 = Suc k" using st by (simp add: k_def)
      note IH = less.hyps [OF offset_progress [OF True] fs_env_keeps [OF e re(1)] _ al' rest, unfolded sb re(2) d16, OF w]
      have "find (\<lambda>k. de_inode_number (E k) = 0) [k..<n] =
          (if de_inode_number (E k) = 0 then Some k else find (\<lambda>k. de_inode_number (E k) = 0) [Suc k..<n])"
        by (rule find_shift [OF kn])
      then have fr: "(case free of Some x \<Rightarrow> Some x | None \<Rightarrow> map_option (\<lambda>k. of_nat (16 * k)) (find (\<lambda>k. de_inode_number (E k) = 0) [k..<n])) =
          (case free1 of Some x \<Rightarrow> Some x | None \<Rightarrow> map_option (\<lambda>k. of_nat (16 * k)) (find (\<lambda>k. de_inode_number (E k) = 0) [Suc k..<n]))"
        using off by (auto simp: free1_def split: option.split)
      show ?thesis
        using IH fs_keeps_trans [OF re(1)] miss fr set
        unfolding k_def [symmetric] n_def [symmetric] N_def [symmetric] E_def [symmetric] by auto
    qed
  qed
qed

end

section \<open>A directory as a map\<close>

lemma is_name_equal_padded:
  assumes "length name \<le> 14" "length name' \<le> 14" "0 \<notin> set name" "0 \<notin> set name'"
  shows "is_name_equal (splice 0 name (replicate 14 0)) name' \<longleftrightarrow> name' = name"
proof -
  define E where "E = splice 0 name (replicate 14 (0 :: u8))"
  have nth: "E ! i = (if i < length name then name ! i else 0)" if "i < 14" for i
    using that assms(1) by (simp add: E_def splice_def nth_append)
  show ?thesis
  proof
    assume eq: "is_name_equal (splice 0 name (replicate 14 0)) name'"
    then have same: "\<And>i. i < length name' \<Longrightarrow> E ! i = name' ! i" and stop: "length name' = 14 \<or> E ! length name' = 0"
      by (auto simp: is_name_equal_def list_all_iff E_def fs_consts)
    have "length name' \<le> length name"
    proof (rule ccontr)
      assume "\<not> length name' \<le> length name"
      then have "name' ! length name = 0" using same [of "length name"] nth [of "length name"] assms(2) by simp
      then show False using assms(4) \<open>\<not> length name' \<le> length name\<close> by (metis not_le nth_mem)
    qed
    moreover have "\<not> length name' < length name"
    proof
      assume lt: "length name' < length name"
      then have "E ! length name' = 0" "length name' < 14" using stop assms(1) by auto
      then have "name ! length name' = 0" using nth lt by simp
      then show False using assms(3) lt by (metis nth_mem)
    qed
    ultimately have len: "length name' = length name" by simp
    then show "name' = name" using same nth assms(1) by (intro nth_equalityI) auto
  next
    assume "name' = name"
    then show "is_name_equal (splice 0 name (replicate 14 0)) name'"
      using assms(1) nth nth [of "length name"]
      by (cases "length name = 14") (auto simp: is_name_equal_def list_all_iff fs_consts E_def [symmetric])
  qed
qed

text \<open>Slot \<open>k\<close> of the directory is overwritten, or one slot is appended.\<close>

lemma entry_at_write:
  assumes fb: "file_bytes v' di' = splice (16 * k) (DirectoryEntry_bytes e) (file_bytes v di)"
    and k: "16 * k \<le> unat (di_size di)" and al: "unat (di_size di) mod 16 = 0" and e: "length (de_name e) = 14"
  shows "num_entries di' = max (num_entries di) (Suc k)" "unat (di_size di') = max (unat (di_size di)) (16 * k + 16)"
    "entry_at v' di' k = e" "j < num_entries di \<Longrightarrow> j \<noteq> k \<Longrightarrow> entry_at v' di' j = entry_at v di j"
proof -
  define fb0 where "fb0 = file_bytes v di"
  have len: "length fb0 = unat (di_size di)" by (simp add: fb0_def)
  have "unat (di_size di') = length (file_bytes v' di')" by simp
  also have "\<dots> = max (unat (di_size di)) (16 * k + 16)" using e k len by (simp add: fb fb0_def [symmetric] splice_def max_def)
  finally show sz: "unat (di_size di') = max (unat (di_size di)) (16 * k + 16)" .
  have n: "unat (di_size di) = 16 * num_entries di" using al by (auto simp: num_entries_def)
  have "unat (di_size di') = 16 * max (num_entries di) (Suc k)" using sz n by (simp add: max_def)
  then show "num_entries di' = max (num_entries di) (Suc k)" by (simp add: num_entries_def [of di'])
  define pad where "pad = fb0 @ replicate (16 * k + 16 - length fb0) 0"
  have pl: "16 * k + 16 \<le> length pad" "length fb0 \<le> length pad" by (simp_all add: pad_def)
  have sp: "splice (16 * k) (DirectoryEntry_bytes e) fb0 = splice (16 * k) (DirectoryEntry_bytes e) pad"
    using e k len by (simp add: splice_def pad_def)
  show "entry_at v' di' k = e"
    unfolding entry_at_def fb fb0_def [symmetric] sp by (rule DirectoryEntry_roundtrip [OF e pl(1)])
  assume j: "j < num_entries di" "j \<noteq> k"
  then have "16 * j + 16 \<le> 16 * k \<or> 16 * k + 16 \<le> 16 * j" "16 * j + 16 \<le> length fb0" using n len by auto
  then show "entry_at v' di' j = entry_at v di j"
    unfolding entry_at_def fb fb0_def [symmetric] sp
    using DirectoryEntry_at_other [OF e pl(1), of "16 * j"] pl(2) DirectoryEntry_at_slice [of "16 * j" pad] DirectoryEntry_at_slice [of "16 * j" fb0]
    by (simp add: pad_def slice_def)
qed

lemma dir_map_link:
  assumes fb: "file_bytes v' di' = splice (16 * k) (DirectoryEntry_bytes (fresh_entry name ino)) (file_bytes v di)"
    and k: "k \<le> num_entries di" "k < num_entries di \<Longrightarrow> de_inode_number (entry_at v di k) = 0"
    and al: "unat (di_size di) mod 16 = 0" and ino: "ino \<noteq> 0" "ino \<le> 0xFFFF"
    and name: "is_valid_name name" "0 \<notin> set name" "\<And>j. j < num_entries di \<Longrightarrow> \<not> names v di name j"
    and nm: "length nm \<le> 14" "0 \<notin> set nm"
  shows "dir_map v' di' nm = (if nm = name then Some ino else dir_map v di nm)"
proof -
  define n n' where "n = num_entries di" and "n' = num_entries di'"
  have ln: "length name \<le> 14" using name(1) by (simp add: is_valid_name_def fs_consts)
  have e: "length (de_name (fresh_entry name ino)) = 14" using ln by (simp add: fresh_entry_def splice_def fs_consts)
  have "16 * num_entries di = unat (di_size di)" using al by (auto simp: num_entries_def)
  then have k16: "16 * k \<le> unat (di_size di)" using k(1) by simp
  note w = entry_at_write [OF fb k16 al e]
  have n': "n' = (if k = n then Suc n else n)" using w(1) k(1) by (simp add: n_def n'_def max_def)
  have u: "ucast (ucast ino :: u16) = ino"
    using ino(2) by (simp add: word_unat_eq_iff unsigned_ucast_eq unsigned_take_bit_eq take_bit_nat_eq_self word_le_nat_alt)
  then have nz: "ucast ino \<noteq> (0 :: u16)" using ino(1) by (metis ucast_0)
  have eq: "is_name_equal (de_name (fresh_entry name ino)) nm \<longleftrightarrow> nm = name"
    using is_name_equal_padded [OF ln nm(1) name(2) nm(2)] by (simp add: fresh_entry_def fs_consts)
  have Nk: "names v' di' nm k \<longleftrightarrow> nm = name" using w(3) nz eq by (simp add: names_def) (simp add: fresh_entry_def)
  have Nj: "names v' di' nm j = names v di nm j" if "j < n" "j \<noteq> k" for j using w(4) that by (simp add: names_def n_def)
  have kn: "k < n'" using n' k(1) by (auto simp: n_def)
  show ?thesis
  proof (cases "nm = name")
    case True
    have "find (names v' di' nm) [0..<n'] = Some k"
    proof (rule find_unique)
      show "k \<in> set [0..<n']" using kn by simp
      show "names v' di' nm k" using Nk True by simp
      fix j assume "j \<in> set [0..<n']" "names v' di' nm j"
      then show "j = k" using Nj name(3) True n' by (cases "j < n") (auto simp: n_def split: if_splits)
    qed
    then show ?thesis using True w(3) u by (simp add: dir_map_def n'_def [symmetric]) (simp add: fresh_entry_def)
  next
    case False
    have Nall: "names v' di' nm j = names v di nm j" if "j < n" for j
      using Nj [OF that] Nk False k(2) that by (cases "j = k") (auto simp: names_def n_def)
    have f: "find (names v' di' nm) [0..<n'] = find (names v di nm) [0..<n]"
    proof -
      have c: "find (names v' di' nm) [0..<n] = find (names v di nm) [0..<n]" using Nall by (intro find_cong) auto
      show ?thesis
      proof (cases "k = n")
        case True
        then show ?thesis using n' Nk False c by (simp add: find_append_last split: option.split)
      next
        case ne: False
        then show ?thesis using n' c by simp
      qed
    qed
    have "entry_at v' di' j = entry_at v di j" if "find (names v di nm) [0..<n] = Some j" for j
    proof -
      have "j < n" "names v di nm j" using find_Some_props [OF that] by auto
      moreover from this have "j \<noteq> k" using k(2) by (auto simp: names_def n_def)
      ultimately show ?thesis using w(4) by (simp add: n_def)
    qed
    then show ?thesis using False f by (cases "find (names v di nm) [0..<n]") (simp_all add: dir_map_def n_def n'_def)
  qed
qed

lemma dir_map_cong:
  assumes "file_bytes v' di' = file_bytes v di"
  shows "dir_map v' di' = dir_map v di" "num_entries di' = num_entries di" "entry_at v' di' = entry_at v di"
proof -
  have "unat (di_size di') = unat (di_size di)" using arg_cong [OF assms, of length] by simp
  then show n: "num_entries di' = num_entries di" by (simp add: num_entries_def)
  show e: "entry_at v' di' = entry_at v di" by (simp add: fun_eq_iff entry_at_def assms)
  have "names v' di' = names v di" by (intro ext) (simp add: names_def e)
  then show "dir_map v' di' = dir_map v di" by (intro ext) (simp add: dir_map_def n e)
qed

context store_contract
begin

text \<open>The write of \<open>directory_link\<close>, into slot \<open>k\<close>: the map gains the name, or nothing changes.\<close>

lemma link_write_effect:
  assumes e: "env 2 s" and w: "dir_wf (fs_sb s) (vw s) (in_disk dir)" and m: "meta_used (fs_sb s) (vw s)"
    and i: "in_number dir < sb_ninodes (fs_sb s)" and ino: "ino \<noteq> 0" "ino \<le> 0xFFFF"
    and name: "is_valid_name name" "0 \<notin> set name" "\<And>j. j < num_entries (in_disk dir) \<Longrightarrow> \<not> names (vw s) (in_disk dir) name j"
    and k: "k \<le> num_entries (in_disk dir)" "k < num_entries (in_disk dir) \<Longrightarrow> de_inode_number (entry_at (vw s) (in_disk dir) k) = 0"
    and off: "unat off = 16 * k"
    and wd: "write_data dir (DirectoryEntry_bytes (fresh_entry name ino)) off 16 s = (wr, dir', s')"
  shows "fk s s'" "dir_wf (fs_sb s) (vw s') (in_disk dir')" "meta_used (fs_sb s) (vw s')"
    "length nm \<le> 14 \<Longrightarrow> 0 \<notin> set nm \<Longrightarrow> dir_map (vw s') (in_disk dir') nm =
       (if wr = Some 16 \<and> nm = name then Some ino else dir_map (vw s) (in_disk dir) nm)"
    "wr = Some 16 \<or> unat (di_size (in_disk dir)) = 71680 \<or> disk_full s'"
proof -
  define di where "di = in_disk dir"
  have fw: "file_wf (fs_sb s) (vw s) di" and ty: "di_type di = kDirectory" and al: "unat (di_size di) mod 16 = 0"
    using w by (simp_all add: dir_wf_def di_def)
  have sz: "unat (di_size di) = 16 * num_entries di" "unat (di_size di) \<le> 71680"
    using al fw by (auto simp: num_entries_def file_wf_def)
  have lE: "length (DirectoryEntry_bytes (fresh_entry name ino)) = 16"
    using name(1) by (simp add: fresh_entry_def splice_def is_valid_name_def fs_consts)
  have "fk s s' \<and> dir_wf (fs_sb s) (vw s') (in_disk dir') \<and> meta_used (fs_sb s) (vw s') \<and>
    (length nm \<le> 14 \<and> 0 \<notin> set nm \<longrightarrow> dir_map (vw s') (in_disk dir') nm = (if wr = Some 16 \<and> nm = name then Some ino else dir_map (vw s) di nm)) \<and>
    (wr = Some 16 \<or> unat (di_size di) = 71680 \<or> disk_full s')"
  proof (cases "16 * k + 16 \<le> 71680")
    case False
    then have full: "unat (di_size di) = 71680" "71680 < unat off + 16" using k(1) sz off by (auto simp: di_def)
    then have "max_bytes < off \<or> max_bytes - off < 16"
      by (cases "unat off \<le> 71680") (auto simp: max_bytes_def fs_consts word_less_nat_alt unat_sub word_le_nat_alt)
    then have "wr = None" "dir' = dir" "s' = s" using wd by (auto simp: write_data_def split: if_splits)
    then show ?thesis using w m full fs_keeps_refl [OF fs_envD(2) [OF e]] by (simp add: di_def)
  next
    case True
    have b: "unat off \<le> unat (di_size (in_disk dir))" "unat off + unat (16 :: u32) \<le> 71680"
      "unat (16 :: u32) \<le> length (DirectoryEntry_bytes (fresh_entry name ino))"
      using True k(1) sz off lE by (simp_all add: di_def)
    note W = write_data_effect [OF e fw [unfolded di_def] m i b(3,1,2) wd, unfolded off]
    have "16 * k mod 512 = 16 * (k mod 32)" "k mod 32 \<le> 31" using mult_mod_right [of 16 k 32] by simp_all
    then have "16 * k mod 512 + 16 \<le> 512" by linarith
    then obtain c where c: "wr = Some c" "c = 0 \<or> c = 16"
      "write_done (fs_sb s) (vw s) dir (DirectoryEntry_bytes (fresh_entry name ino)) (16 * k) 16 (unat c) (vw s') dir'"
      using W(2) by auto
    have fb: "file_bytes (vw s') (in_disk dir') = splice (16 * k) (take (unat c) (DirectoryEntry_bytes (fresh_entry name ino))) (file_bytes (vw s) di)"
      and fw': "file_wf (fs_sb s) (vw s') (in_disk dir')" and m': "meta_used (fs_sb s) (vw s')"
      and ty': "di_type (in_disk dir') = kDirectory" and full: "c \<noteq> 16 \<Longrightarrow> disk_full s'"
      using write_doneD [OF c(3)] c(2) ty fs_keeps_fields(2) [OF W(1)] by (auto simp: di_def disk_full_def)
    have mapped: "unat (di_size (in_disk dir')) mod 16 = 0 \<and> (length nm \<le> 14 \<and> 0 \<notin> set nm \<longrightarrow>
        dir_map (vw s') (in_disk dir') nm = (if wr = Some 16 \<and> nm = name then Some ino else dir_map (vw s) di nm))"
    proof (cases "c = 16")
      case True
      have fb': "file_bytes (vw s') (in_disk dir') = splice (16 * k) (DirectoryEntry_bytes (fresh_entry name ino)) (file_bytes (vw s) di)"
        using fb True lE by simp
      have le: "length (de_name (fresh_entry name ino)) = 14" using lE by (simp add: DirectoryEntry_bytes_def)
      have k16: "16 * k \<le> unat (di_size di)" using k(1) sz(1) by (simp add: di_def)
      have "unat (di_size (in_disk dir')) mod 16 = 0"
        using entry_at_write(2) [OF fb' k16 al le] al by (simp add: max_def)
      then show ?thesis
        using dir_map_link [OF fb' k [folded di_def] al ino name [folded di_def]] c(1) True by simp
    next
      case False
      then have same: "file_bytes (vw s') (in_disk dir') = file_bytes (vw s) di" using fb c(2) by (simp add: splice_def)
      have "unat (di_size (in_disk dir')) = unat (di_size di)" using arg_cong [OF same, of length] by simp
      then have "dir_map (vw s') (in_disk dir') = dir_map (vw s) di" "unat (di_size (in_disk dir')) mod 16 = 0"
        using al dir_map_cong(1) [OF same] by auto
      then show ?thesis using False c(1) by simp
    qed
    then show ?thesis using W(1) fw' ty' m' full c(1) by (auto simp: dir_wf_def)
  qed
  then show "fk s s'" "dir_wf (fs_sb s) (vw s') (in_disk dir')" "meta_used (fs_sb s) (vw s')"
    "length nm \<le> 14 \<Longrightarrow> 0 \<notin> set nm \<Longrightarrow> dir_map (vw s') (in_disk dir') nm =
       (if wr = Some 16 \<and> nm = name then Some ino else dir_map (vw s) (in_disk dir) nm)"
    "wr = Some 16 \<or> unat (di_size (in_disk dir)) = 71680 \<or> disk_full s'"
    by (simp_all add: di_def)
qed

text \<open>The slot \<open>directory_link\<close> writes to: the first free one, else one past the last.\<close>

definition link_slot :: "(u32 \<Rightarrow> bytes) \<Rightarrow> DiskInode \<Rightarrow> nat" where
  "link_slot v di =
     (case find (\<lambda>k. de_inode_number (entry_at v di k) = 0) [0..<num_entries di] of Some k \<Rightarrow> k | None \<Rightarrow> num_entries di)"

lemma link_slot_props:
  "link_slot v di \<le> num_entries di"
  "link_slot v di < num_entries di \<Longrightarrow> de_inode_number (entry_at v di (link_slot v di)) = 0"
  using find_Some_props [of "\<lambda>k. de_inode_number (entry_at v di k) = 0" "[0..<num_entries di]"]
  by (auto simp: link_slot_def split: option.splits)

lemma dir_map_None: "dir_map v di name = None \<longleftrightarrow> (\<forall>k < num_entries di. \<not> names v di name k)"
  by (auto simp: dir_map_def find_None_props)

lemma directory_link_unfold:
  assumes e: "env 2 s" and w: "dir_wf (fs_sb s) (vw s) (in_disk dir)"
    and g: "is_valid_name name" "ino \<noteq> 0" "ino \<le> 0xFFFF"
  obtains s1 where "fk s s1" "vw s1 = vw s"
    "dir_map (vw s) (in_disk dir) name \<noteq> None \<Longrightarrow> directory_link dir name ino s = (False, dir, s1)"
    "dir_map (vw s) (in_disk dir) name = None \<Longrightarrow> directory_link dir name ino s =
       (case write_data dir (DirectoryEntry_bytes (fresh_entry name ino)) (of_nat (16 * link_slot (vw s) (in_disk dir))) 16 s1 of
          (n, dir1, s2) \<Rightarrow> (n = Some 16, dir1, s2))"
proof -
  define di where "di = in_disk dir"
  have fw: "file_wf (fs_sb s) (vw s) di" and ty: "di_type di = kDirectory" and sz: "unat (di_size di) = 16 * num_entries di"
    using w by (auto simp: dir_wf_def di_def num_entries_def)
  have sz': "of_nat (16 * num_entries di) = di_size di" by (simp flip: sz)
  obtain q s1 where q: "link_scan dir name 0 None s = (q, s1)" by (cases "link_scan dir name 0 None s")
  note sc = link_scan_effect [OF fs_env_mono [OF e one_le_numeral] fw [unfolded di_def] _ q, folded di_def]
  have unf: "directory_link dir name ino s =
      (case q of None \<Rightarrow> (False, dir, s1) | Some fo \<Rightarrow>
        let offset = (case fo of Some x \<Rightarrow> x | None \<Rightarrow> di_size di)
        in (case write_data dir (DirectoryEntry_bytes (fresh_entry name ino)) offset 16 s1 of
              (n, dir1, s2) \<Rightarrow> (n = Some 16, dir1, s2)))"
    using g ty q unfolding di_def by (simp add: directory_link_def not_less [symmetric])
  have qv: "q = (if dir_map (vw s) di name \<noteq> None then None
      else Some (map_option (\<lambda>k. of_nat (16 * k)) (find (\<lambda>k. de_inode_number (entry_at (vw s) di k) = 0) [0..<num_entries di])))"
    using sc by (auto simp: dir_map_None)
  have slot: "(case map_option (\<lambda>k. of_nat (16 * k)) (find (\<lambda>k. de_inode_number (entry_at (vw s) di k) = 0) [0..<num_entries di]) of
      Some x \<Rightarrow> x | None \<Rightarrow> di_size di) = of_nat (16 * link_slot (vw s) di)"
    using sz' by (simp add: link_slot_def split: option.split)
  show ?thesis using that [of s1] sc unf qv slot by (simp add: di_def)
qed

lemma directory_link_effect:
  assumes e: "env 2 s" and w: "dir_wf (fs_sb s) (vw s) (in_disk dir)" and m: "meta_used (fs_sb s) (vw s)"
    and i: "in_number dir < sb_ninodes (fs_sb s)" and z: "0 \<notin> set name"
    and l: "directory_link dir name ino s = (r, dir', s')"
  shows "fk s s' \<and> dir_wf (fs_sb s) (vw s') (in_disk dir') \<and> meta_used (fs_sb s) (vw s') \<and>
    (\<forall>nm. length nm \<le> 14 \<and> 0 \<notin> set nm \<longrightarrow>
      dir_map (vw s') (in_disk dir') nm = (if r \<and> nm = name then Some ino else dir_map (vw s) (in_disk dir) nm)) \<and>
    (if is_valid_name name \<and> ino \<noteq> 0 \<and> ino \<le> 0xFFFF \<and> dir_map (vw s) (in_disk dir) name = None
     then r \<or> unat (di_size (in_disk dir)) = 71680 \<or> disk_full s' else \<not> r)"
proof (cases "is_valid_name name \<and> ino \<noteq> 0 \<and> ino \<le> 0xFFFF")
  case False
  then have "\<not> r" "dir' = dir" "s' = s" using l by (auto simp: directory_link_def not_le split: if_splits)
  then show ?thesis using False w m fs_keeps_refl [OF fs_envD(2) [OF e]] by auto
next
  case True
  then have g: "is_valid_name name" "ino \<noteq> 0" "ino \<le> 0xFFFF" by auto
  obtain s1 where s1: "fk s s1" "vw s1 = vw s"
    "dir_map (vw s) (in_disk dir) name \<noteq> None \<Longrightarrow> directory_link dir name ino s = (False, dir, s1)"
    "dir_map (vw s) (in_disk dir) name = None \<Longrightarrow> directory_link dir name ino s =
       (case write_data dir (DirectoryEntry_bytes (fresh_entry name ino)) (of_nat (16 * link_slot (vw s) (in_disk dir))) 16 s1 of
          (n, dir1, s2) \<Rightarrow> (n = Some 16, dir1, s2))"
    using directory_link_unfold [OF e w g] by blast
  have sb: "fs_sb s1 = fs_sb s" and e1: "env 2 s1" using fs_keeps_fields(2) [OF s1(1)] fs_env_keeps [OF e s1(1)] by auto
  show ?thesis
  proof (cases "dir_map (vw s) (in_disk dir) name = None")
    case free: True
    define k where "k = link_slot (vw s) (in_disk dir)"
    define off where "off = (of_nat (16 * k) :: u32)"
    obtain n dir1 s2 where wd: "write_data dir (DirectoryEntry_bytes (fresh_entry name ino)) off 16 s1 = (n, dir1, s2)"
      by (metis prod_cases3)
    have kn: "k \<le> num_entries (in_disk dir)" by (simp add: k_def link_slot_props)
    then have "16 * k < 2 ^ 32" using w by (auto simp: dir_wf_def file_wf_def num_entries_def)
    then have uo: "unat off = 16 * k" by (simp add: off_def unat_of_nat del: of_nat_mult)
    note L = link_write_effect [OF e1 _ _ _ g(2,3,1) z _ _ _ uo wd, unfolded sb s1(2), OF w m i _ kn]
    have no: "\<And>j. j < num_entries (in_disk dir) \<Longrightarrow> \<not> names (vw s) (in_disk dir) name j" using free by (simp add: dir_map_None)
    have sl: "k < num_entries (in_disk dir) \<Longrightarrow> de_inode_number (entry_at (vw s) (in_disk dir) k) = 0"
      unfolding k_def by (rule link_slot_props)
    have "r \<longleftrightarrow> n = Some 16" "dir' = dir1" "s' = s2" using l s1(4) free wd by (auto simp: k_def off_def)
    then show ?thesis using L [OF no sl] True free fs_keeps_trans [OF s1(1)] by auto
  next
    case False
    then have "\<not> r" "dir' = dir" "s' = s1" using l s1(3) by auto
    then show ?thesis using False w m s1 by auto
  qed
qed

end

section \<open>Properties\<close>

text \<open>
  C13. \<open>directory_lookup\<close> is lookup in the directory's map: for a valid name it returns the inode number of the
  first entry in use with that name and its byte offset, \<open>None\<close> when there is none; it fails
  for an invalid name or an inode that is not a directory, and it changes nothing.
\<close>

theorem directory_lookup_correct:
  assumes "mounted contents good s" and "file_wf (fs_sb s) (fs_view contents s) (in_disk dir)"
    and "directory_lookup dir name s = (r, s')"
  shows "mounted contents good s' \<and> fs_view contents s' = fs_view contents s \<and>
    map_option dl_inode_number r =
      (if di_type (in_disk dir) = kDirectory \<and> is_valid_name name then dir_map (fs_view contents s) (in_disk dir) name else None) \<and>
    (\<forall>x. r = Some x \<longrightarrow> (\<exists>k < num_entries (in_disk dir).
       names (fs_view contents s) (in_disk dir) name k \<and> unat (dl_offset x) = 16 * k))"
proof (cases "di_type (in_disk dir) = kDirectory \<and> is_valid_name name")
  case False
  then have "r = None" "s' = s" using assms(3) by (auto simp: directory_lookup_def)
  then show ?thesis using assms(1) False by auto
next
  case True
  then have l: "lookup_from dir name 0 s = (r, s')" using assms(3) by (simp add: directory_lookup_def)
  have z: "unat (0 :: u32) mod 16 = 0" by simp
  note L = bc.lookup_from_effect [OF mounted_env1 [OF assms(1)] assms(2) z l, simplified]
  have "\<exists>k < num_entries (in_disk dir). names (fs_view contents s) (in_disk dir) name k \<and> unat (dl_offset x) = 16 * k"
    if x: "r = Some x" for x
  proof -
    obtain k where k: "find (names (fs_view contents s) (in_disk dir) name) [0..<num_entries (in_disk dir)] = Some k"
      "dl_offset x = 16 * of_nat k"
      using L x by (cases "find (names (fs_view contents s) (in_disk dir) name) [0..<num_entries (in_disk dir)]") auto
    have "k < num_entries (in_disk dir)" "names (fs_view contents s) (in_disk dir) name k" using find_Some_props [OF k(1)] by auto
    moreover from this have "16 * k < 2 ^ 32" using assms(2) by (auto simp: file_wf_def num_entries_def)
    moreover have "dl_offset x = of_nat (16 * k)" using k(2) by simp
    ultimately show ?thesis by (auto simp: unat_of_nat simp del: of_nat_mult)
  qed
  moreover have "map_option dl_inode_number r = dir_map (fs_view contents s) (in_disk dir) name"
    using L by (simp add: dir_map_def option.map_comp comp_def)
  ultimately show ?thesis using L True mounted_keeps [OF assms(1)] by auto
qed

text \<open>
  C14. \<open>directory_link\<close> adds exactly one binding: on success the directory's map is the old one with the name bound to
  the inode number, on failure every binding is as before; it succeeds for every valid, new name and
  every 16-bit inode number other than 0, unless the directory is at its maximum size or the disk is
  full. The directory stays well formed.
\<close>

theorem directory_link_correct:
  assumes "mounted contents good s" and "dir_wf (fs_sb s) (fs_view contents s) (in_disk dir)"
    and "meta_used (fs_sb s) (fs_view contents s)" and "in_number dir < sb_ninodes (fs_sb s)" and "0 \<notin> set name"
    and "directory_link dir name ino s = (r, dir', s')"
  shows "mounted contents good s' \<and> dir_wf (fs_sb s) (fs_view contents s') (in_disk dir') \<and>
    (\<forall>nm. length nm \<le> 14 \<and> 0 \<notin> set nm \<longrightarrow> dir_map (fs_view contents s') (in_disk dir') nm =
       (if r \<and> nm = name then Some ino else dir_map (fs_view contents s) (in_disk dir) nm)) \<and>
    (if is_valid_name name \<and> ino \<noteq> 0 \<and> ino \<le> 0xFFFF \<and> dir_map (fs_view contents s) (in_disk dir) name = None
     then r \<or> unat (di_size (in_disk dir)) = 71680 \<or> (\<forall>c < sb_size (fs_sb s). block_used (fs_sb s) (fs_view contents s') c)
     else \<not> r)"
proof -
  note L = bc.directory_link_effect [OF mounted_env2 [OF assms(1)] assms(2-6)]
  have k: "fs_keeps (store_inv contents good) cache_refs cache_loc (cache_synced contents) s s'" using L by blast
  show ?thesis using L mounted_keeps [OF assms(1) k] fs_keeps_fields(2) [OF k] by (auto simp: bc.disk_full_def)
qed

text \<open>The root directory of the RAM disk, for the witnesses.\<close>

lemma ram_root_dir: "dir_wf (fs_sb ram_fs) (fs_view ram_contents ram_fs) (in_disk ram_root)"
  using ram_root_file by (simp add: dir_wf_def) (simp add: ram_root_def root_inode_def root_template_def)

lemma ram_root_bytes: "file_bytes (fs_view ram_contents ram_fs) (in_disk ram_root) = take 32 root_block"
proof -
  have l: "lblk (fs_view ram_contents ram_fs) (in_disk ram_root) 0 = 28" by (simp add: lblk_def ram_root_def root_inode_def)
  have d: "fs_view ram_contents ram_fs 28 = root_block" using ram_fs_props(2,7) by (simp add: formatted_def)
  have "length root_block = 512" by (simp add: root_block_def dot_entry_def)
  moreover have "unat (di_size (in_disk ram_root)) = 32" by (simp add: ram_root_def root_inode_def)
  ultimately show ?thesis by (intro nth_equalityI) (simp_all add: file_bytes_def fbyte_def l d)
qed

lemma ram_root_entries:
  "num_entries (in_disk ram_root) = 2" "entry_at (fs_view ram_contents ram_fs) (in_disk ram_root) 0 = dot_entry DOT"
  "entry_at (fs_view ram_contents ram_fs) (in_disk ram_root) 1 = dot_entry DOTDOT"
proof -
  have n: "length (de_name (dot_entry x)) = 14" for x by (simp add: dot_entry_def)
  show "num_entries (in_disk ram_root) = 2" by (simp add: num_entries_def ram_root_def root_inode_def)
  have b: "take 32 root_block = DirectoryEntry_bytes (dot_entry DOT) @ DirectoryEntry_bytes (dot_entry DOTDOT)"
    by (simp add: root_block_def n)
  show "entry_at (fs_view ram_contents ram_fs) (in_disk ram_root) 0 = dot_entry DOT"
    "entry_at (fs_view ram_contents ram_fs) (in_disk ram_root) 1 = dot_entry DOTDOT"
    unfolding entry_at_def ram_root_bytes b
    using DirectoryEntry_at_slice [of 0 "DirectoryEntry_bytes (dot_entry DOT) @ DirectoryEntry_bytes (dot_entry DOTDOT)"]
      DirectoryEntry_at_slice [of 16 "DirectoryEntry_bytes (dot_entry DOT) @ DirectoryEntry_bytes (dot_entry DOTDOT)"]
    by (simp_all add: n slice_def DirectoryEntry_roundtrip0)
qed

lemma ram_root_map:
  "dir_map (fs_view ram_contents ram_fs) (in_disk ram_root) DOTDOT = Some 1"
  "dir_map (fs_view ram_contents ram_fs) (in_disk ram_root) [97] = None"
proof -
  have two: "[0..<2] = [0, 1::nat]" by (simp add: upt_rec)
  show "dir_map (fs_view ram_contents ram_fs) (in_disk ram_root) DOTDOT = Some 1"
    "dir_map (fs_view ram_contents ram_fs) (in_disk ram_root) [97] = None"
    by (simp_all add: dir_map_def ram_root_entries(1) two names_def ram_root_entries(2,3) [unfolded One_nat_def] One_nat_def)
      (simp_all add: dot_entry_def is_name_equal_def pad_name_def splice_def DOT_def DOTDOT_def fs_consts Let_def nth_append)
qed

theorem directory_lookup_correct_witness:
  "map_option dl_inode_number (fst (directory_lookup ram_root DOTDOT ram_fs)) = Some 1"
proof -
  have "di_type (in_disk ram_root) = kDirectory" "is_valid_name DOTDOT"
    by (simp_all add: ram_root_def root_inode_def root_template_def is_valid_name_def DOTDOT_def fs_consts SLASH_def)
  then show ?thesis
    using directory_lookup_correct [OF ram_fs_props(1) ram_root_file, of DOTDOT "fst (directory_lookup ram_root DOTDOT ram_fs)"
        "snd (directory_lookup ram_root DOTDOT ram_fs)"] ram_root_map(1) by simp
qed

theorem directory_link_correct_witness:
  "\<exists>r dir' s'. directory_link ram_root [97] 7 ram_fs = (r, dir', s') \<and>
     dir_map (fs_view ram_contents s') (in_disk dir') DOTDOT = Some 1 \<and>
     dir_map (fs_view ram_contents s') (in_disk dir') [97] = (if r then Some 7 else None)"
proof -
  obtain r dir' s' where l: "directory_link ram_root [97] 7 ram_fs = (r, dir', s')" by (metis prod_cases3)
  have i: "in_number ram_root < sb_ninodes (fs_sb ram_fs)" by (simp add: ram_root_def ram_fs_props(6) fs_consts)
  have z: "(0 :: u8) \<notin> set [97]" by simp
  have c: "\<forall>nm. length nm \<le> 14 \<and> 0 \<notin> set nm \<longrightarrow> dir_map (fs_view ram_contents s') (in_disk dir') nm =
       (if r \<and> nm = [97] then Some 7 else dir_map (fs_view ram_contents ram_fs) (in_disk ram_root) nm)"
    using directory_link_correct [OF ram_fs_props(1) ram_root_dir ram_fs_props(3) i z l] by blast
  have "dir_map (fs_view ram_contents s') (in_disk dir') DOTDOT = Some 1"
    using c [rule_format, of DOTDOT] ram_root_map(1) by (simp add: DOTDOT_def)
  moreover have "dir_map (fs_view ram_contents s') (in_disk dir') [97] = (if r then Some 7 else None)"
    using c [rule_format, of "[97]"] ram_root_map(2) by simp
  ultimately show ?thesis using l by blast
qed

end
