(* ===== verification/Path_Walk.thy ===== *)
theory Path_Walk
  imports Directory
begin

text \<open>
  Path resolution (\<open>include/path.hpp\<close>, \<open>include/path.cpp\<close>): cutting a path into components and walking
  the directory tree from the root, with the inode handles the walk takes and drops. The lemmas show
  that the walk follows the directories' maps and that it holds on to nothing but its result.
\<close>

section \<open>Components of a path\<close>

text \<open>The two \<open>while\<close> loops over the characters, and the component with what follows it.\<close>

definition next_component :: "bytes \<Rightarrow> bytes \<times> bytes" where
  "next_component rest =
     (let from_begin = dropWhile (\<lambda>c. c = SLASH) rest;
          component = takeWhile (\<lambda>c. c \<noteq> SLASH) from_begin
      in (component, dropWhile (\<lambda>c. c \<noteq> SLASH) from_begin))"

definition has_component :: "bytes \<Rightarrow> bool" where
  "has_component rest \<longleftrightarrow> list_ex (\<lambda>c. c \<noteq> SLASH) rest"

lemma next_component_shorter:
  "next_component rest = (name, rest') \<Longrightarrow> name \<noteq> [] \<Longrightarrow> length rest' < length rest"
proof -
  assume n: "next_component rest = (name, rest')" "name \<noteq> []"
  define d where "d = dropWhile (\<lambda>c. c = SLASH) rest"
  have "length d \<le> length rest" by (simp add: d_def length_dropWhile_le)
  moreover have "d = name @ rest'" using n(1) by (auto simp: next_component_def Let_def d_def)
  ultimately show ?thesis using n(2) by (cases name) auto
qed

section \<open>The walk\<close>

text \<open>
  The loop of \<open>walk\<close>. The result is the handle returned, the name stored through \<open>last\<close> and the state.
  Every \<open>return InodeRef{}\<close> destroys \<open>current\<close>; the move assignment takes the next inode before it drops
  the current one.
\<close>

function walk_from :: "InodeRef \<Rightarrow> bytes \<Rightarrow> bool \<Rightarrow> 's fsys \<Rightarrow> InodeRef \<times> bytes option \<times> 's fsys" where
  "walk_from current rest stop_before_last s =
     (case current of
        None \<Rightarrow> (None, None, s)
      | Some i \<Rightarrow>
          (case next_component rest of
             (name, rest1) \<Rightarrow>
               if name = []
               then (if stop_before_last then (None, None, InodeRef_reset current s) else (current, None, s))
               else if stop_before_last \<and> \<not> has_component rest1
               then (if di_type (in_disk (inode_table s ! i)) \<noteq> kDirectory
                     then (None, None, InodeRef_reset current s)
                     else (current, Some name, s))
               else
                 (case lift_fs (directory_lookup (inode_table s ! i) name) s of
                    (None, s1) \<Rightarrow> (None, None, InodeRef_reset current s1)
                  | (Some found, s1) \<Rightarrow>
                      (case get_inode (dl_inode_number found) s1 of
                         (found_ref, s2) \<Rightarrow>
                           (case InodeRef_move_assign current found_ref s2 of
                              (current', _, s3) \<Rightarrow> walk_from current' rest1 stop_before_last s3)))))"
  by pat_completeness auto
termination
  by (relation "measure (\<lambda>(_, rest, _). length rest)") (auto dest: next_component_shorter [OF sym])

declare walk_from.simps [simp del]

definition walk_path :: "bytes \<Rightarrow> bool \<Rightarrow> 's fsys \<Rightarrow> InodeRef \<times> bytes option \<times> 's fsys" where
  "walk_path path stop_before_last s =
     (if path = [] then (None, None, s)
      else (case get_inode ROOT_INODE s of (current, s1) \<Rightarrow> walk_from current path stop_before_last s1))"

definition resolve_path :: "bytes \<Rightarrow> 's fsys \<Rightarrow> InodeRef \<times> 's fsys" where
  "resolve_path path s = (case walk_path path False s of (r, _, s1) \<Rightarrow> (r, s1))"

record ParentLookup =
  pl_parent :: InodeRef
  pl_name :: bytes

definition resolve_parent :: "bytes \<Rightarrow> 's fsys \<Rightarrow> ParentLookup option \<times> 's fsys" where
  "resolve_parent path s =
     (case walk_path path True s of
        (None, _, s1) \<Rightarrow> (None, s1)
      | (Some i, name, s1) \<Rightarrow> (Some \<lparr>pl_parent = Some i, pl_name = (case name of Some n \<Rightarrow> n | None \<Rightarrow> [])\<rparr>, s1))"

section \<open>Paths as lists of names\<close>

function components :: "bytes \<Rightarrow> bytes list" where
  "components path =
     (case next_component path of (name, rest) \<Rightarrow> if name = [] then [] else name # components rest)"
  by pat_completeness auto
termination
  by (relation "measure length") (auto dest: next_component_shorter [OF sym])

declare components.simps [simp del]

lemma components_step:
  "next_component path = (name, rest) \<Longrightarrow> components path = (if name = [] then [] else name # components rest)"
  by (subst components.simps) simp

lemma components_Nil [simp]: "components [] = []"
  by (subst components.simps) (simp add: next_component_def)

lemma next_component_slash [simp]: "next_component (SLASH # path) = next_component path"
  by (simp add: next_component_def)

lemma components_slash [simp]: "components (SLASH # path) = components path"
  by (subst (1 2) components.simps) simp

lemma next_component_name:
  assumes "SLASH \<notin> set name" "name \<noteq> []" "rest = [] \<or> hd rest = SLASH"
  shows "next_component (name @ rest) = (name, rest)"
proof -
  obtain c cs where name: "name = c # cs" using assms(2) by (cases name) auto
  have "c \<noteq> SLASH" using assms(1) name by auto
  then have d: "dropWhile (\<lambda>c. c = SLASH) (name @ rest) = name @ rest" by (simp add: name)
  have all: "\<And>x. x \<in> set name \<Longrightarrow> x \<noteq> SLASH" using assms(1) by auto
  have t: "takeWhile (\<lambda>c. c \<noteq> SLASH) rest = []" "dropWhile (\<lambda>c. c \<noteq> SLASH) rest = rest"
    using assms(3) by (cases rest; auto)+
  show ?thesis using all t by (simp add: next_component_def d Let_def takeWhile_append2 dropWhile_append2)
qed

lemma components_name:
  "SLASH \<notin> set name \<Longrightarrow> name \<noteq> [] \<Longrightarrow> rest = [] \<or> hd rest = SLASH \<Longrightarrow>
     components (name @ rest) = name # components rest"
  using components_step [OF next_component_name] by simp

lemma components_no_slash: "name \<in> set (components path) \<Longrightarrow> name \<noteq> [] \<and> SLASH \<notin> set name"
proof (induction path rule: components.induct)
  case (1 path)
  obtain c rest where n: "next_component path = (c, rest)" by (cases "next_component path")
  have "SLASH \<notin> set c" using n by (auto simp: next_component_def Let_def dest: set_takeWhileD)
  then show ?case using 1 n components_step [OF n] by (auto split: if_splits)
qed

lemma has_component_iff: "has_component rest \<longleftrightarrow> components rest \<noteq> []"
proof -
  have "has_component rest \<longleftrightarrow> dropWhile (\<lambda>c. c = SLASH) rest \<noteq> []"
    by (auto simp: has_component_def list_ex_iff dropWhile_eq_Nil_conv)
  also have "\<dots> \<longleftrightarrow> fst (next_component rest) \<noteq> []"
  proof (cases "dropWhile (\<lambda>c. c = SLASH) rest")
    case (Cons c cs)
    then have "c \<noteq> SLASH" using hd_dropWhile [of "\<lambda>c. c = SLASH" rest] by simp
    then show ?thesis using Cons by (simp add: next_component_def Let_def)
  next
    case Nil
    show ?thesis unfolding next_component_def Nil by (simp add: Let_def)
  qed
  finally show ?thesis using components_step [of rest "fst (next_component rest)" "snd (next_component rest)"] by auto
qed

section \<open>Reference counts by inode number\<close>

text \<open>How many handles are held on inode \<open>n\<close>, whatever slot it sits in.\<close>

definition rc :: "Inode list \<Rightarrow> u32 \<Rightarrow> int" where
  "rc t n = (case find (\<lambda>i. live t i \<and> in_number (t ! i) = n) [0..<length t] of Some i \<Rightarrow> in_refcnt (t ! i) | None \<Rightarrow> 0)"

lemma rc_live: "table_ok t \<Longrightarrow> live t i \<Longrightarrow> rc t (in_number (t ! i)) = in_refcnt (t ! i)"
proof -
  assume t: "table_ok t" "live t i"
  have "find (\<lambda>j. live t j \<and> in_number (t ! j) = in_number (t ! i)) [0..<length t] = Some i"
    using t by (intro find_unique) (auto simp: table_ok_def live_def)
  then show ?thesis by (simp add: rc_def)
qed

lemma rc_none: "(\<And>i. live t i \<Longrightarrow> in_number (t ! i) \<noteq> n) \<Longrightarrow> rc t n = 0"
  by (auto simp: rc_def find_None_props split: option.split dest!: find_Some_props)

lemma rc_pos: "table_ok t \<Longrightarrow> 0 < rc t n \<longleftrightarrow> (\<exists>i. live t i \<and> in_number (t ! i) = n)"
proof
  assume t: "table_ok t" "0 < rc t n"
  then show "\<exists>i. live t i \<and> in_number (t ! i) = n" using rc_none [of t n] by force
next
  assume t: "table_ok t" "\<exists>i. live t i \<and> in_number (t ! i) = n"
  then obtain i where "live t i" "in_number (t ! i) = n" by blast
  then show "0 < rc t n" using rc_live [OF t(1), of i] by (simp add: live_def)
qed

lemma rc_got:
  assumes t: "table_ok t" "table_ok t'" and g: "got n d t (Some i) t'"
  shows "rc t' = (rc t)(n := rc t n + 1)" "live t' i" "in_number (t' ! i) = n"
proof -
  have i: "i < length t" "length t' = length t" and oth: "\<And>j. j < length t \<Longrightarrow> j \<noteq> i \<Longrightarrow> t' ! j = t ! j"
    and ni: "in_number (t' ! i) = n" and ri: "in_refcnt (t' ! i) = in_refcnt (t ! i) + 1"
    and c: "if live t i then in_number (t ! i) = n else in_refcnt (t ! i) = 0 \<and> (\<forall>j. live t j \<longrightarrow> in_number (t ! j) \<noteq> n)"
    using g by (auto simp: got_def split: if_splits)
  have nn: "0 \<le> in_refcnt (t ! i)" using t(1) i by (simp add: table_ok_def)
  then show li: "live t' i" using i ri by (simp add: live_def)
  show "in_number (t' ! i) = n" by (rule ni)
  have lv: "j \<noteq> i \<Longrightarrow> live t' j = live t j" for j using i oth by (auto simp: live_def)
  show "rc t' = (rc t)(n := rc t n + 1)"
  proof (intro ext)
    fix x
    show "rc t' x = ((rc t)(n := rc t n + 1)) x"
    proof (cases "x = n")
      case True
      have "rc t n = in_refcnt (t ! i)" using c rc_live [OF t(1), of i] rc_none [of t n] by (auto split: if_splits)
      then show ?thesis using True rc_live [OF t(2) li] ni ri by simp
    next
      case False
      have "(live t' j \<and> in_number (t' ! j) = x) = (live t j \<and> in_number (t ! j) = x)" for j
        using lv [of j] oth [of j] ni False c by (cases "j = i") (auto simp: live_def split: if_splits)
      then have feq: "find (\<lambda>j. live t' j \<and> in_number (t' ! j) = x) [0..<length t'] = find (\<lambda>j. live t j \<and> in_number (t ! j) = x) [0..<length t]"
        using i(2) by simp
      show ?thesis
      proof (cases "find (\<lambda>j. live t j \<and> in_number (t ! j) = x) [0..<length t]")
        case None
        then show ?thesis using False feq by (simp add: rc_def)
      next
        case (Some j)
        have "live t j" "in_number (t ! j) = x" "j < length t" using find_Some_props [OF Some] by auto
        moreover from this have "j \<noteq> i" using False c by (auto split: if_splits)
        ultimately show ?thesis using False feq Some oth by (simp add: rc_def)
      qed
    qed
  qed
qed

lemma put_inode_table:
  assumes t: "table_ok (inode_table s)" and l: "live (inode_table s) i" and n: "in_number (inode_table s ! i) = n"
  shows "table_ok (inode_table (put_inode i s))" "fsys_fs (put_inode i s) = fsys_fs s"
    "rc (inode_table (put_inode i s)) = (rc (inode_table s))(n := rc (inode_table s) n - 1)"
    "coherent sb v (inode_table s) \<Longrightarrow> coherent sb v (inode_table (put_inode i s))"
    "j \<noteq> i \<Longrightarrow> j < length (inode_table s) \<Longrightarrow> inode_table (put_inode i s) ! j = inode_table s ! j"
proof -
  define T where "T = inode_table s"
  define T' where "T' = upd_at i (\<lambda>x. x\<lparr>in_refcnt := in_refcnt x - 1\<rparr>) T"
  have i: "i < length T" "0 < in_refcnt (T ! i)" using l by (auto simp: live_def T_def)
  have e: "inode_table (put_inode i s) = T'" "fsys_fs (put_inode i s) = fsys_fs s"
    using i by (simp_all add: put_inode_def upd_inode_def T_def T'_def)
  show "fsys_fs (put_inode i s) = fsys_fs s" by (rule e(2))
  show "j \<noteq> i \<Longrightarrow> j < length (inode_table s) \<Longrightarrow> inode_table (put_inode i s) ! j = inode_table s ! j"
    unfolding e(1) by (simp add: T'_def T_def nth_upd_at)
  have f: "in_number (T' ! j) = in_number (T ! j)" "in_disk (T' ! j) = in_disk (T ! j)"
    "in_refcnt (T' ! j) = (if j = i then in_refcnt (T ! i) - 1 else in_refcnt (T ! j))" if "j < length T" for j
    using that by (simp_all add: T'_def nth_upd_at)
  have lv: "live T' j \<Longrightarrow> live T j" for j using f(3) [of j] i by (auto simp: live_def T'_def split: if_splits)
  have lv': "j \<noteq> i \<Longrightarrow> live T' j = live T j" for j using f(3) [of j] by (auto simp: live_def T'_def)
  have tk: "table_ok T'"
  proof -
    have "length T' = NUM_INODE" and nn: "\<And>j. j < NUM_INODE \<Longrightarrow> 0 \<le> in_refcnt (T ! j)" and len: "length T = NUM_INODE"
      using t by (simp_all add: table_ok_def T_def T'_def)
    moreover have "0 \<le> in_refcnt (T' ! j)" if "j < NUM_INODE" for j using f(3) [of j] i nn [OF that] that len by simp
    moreover have "j = k" if "live T' j" "live T' k" "in_number (T' ! j) = in_number (T' ! k)" for j k
    proof -
      have "live T j" "live T k" "in_number (T ! j) = in_number (T ! k)"
        using lv that f(1) [of j] f(1) [of k] by (auto simp: live_def)
      then show ?thesis using t by (simp add: table_ok_def T_def)
    qed
    ultimately show ?thesis unfolding table_ok_def by blast
  qed
  then show "table_ok (inode_table (put_inode i s))" by (simp add: e)
  show "coherent sb v (inode_table s) \<Longrightarrow> coherent sb v (inode_table (put_inode i s))"
    unfolding e(1) T_def [symmetric] coherent_def using lv f(1,2) by (simp add: live_def)
  have "rc T' x = ((rc T)(n := rc T n - 1)) x" for x
  proof (cases "x = n")
    case True
    have r: "rc T n = in_refcnt (T ! i)" using rc_live [OF t l] n by (simp add: T_def)
    have "rc T' n = in_refcnt (T ! i) - 1"
    proof (cases "in_refcnt (T ! i) = 1")
      case one: True
      have "in_number (T' ! j) \<noteq> n" if "live T' j" for j
      proof
        assume "in_number (T' ! j) = n"
        then have "j = i" using lv [OF that] f(1) [of j] t l n unfolding table_ok_def T_def [symmetric] by (metis live_def)
        then show False using that f(3) [OF i(1)] one by (simp add: live_def)
      qed
      then show ?thesis using rc_none one by simp
    next
      case False
      then have "live T' i" using f(3) [OF i(1)] i by (simp add: live_def T'_def)
      then show ?thesis using rc_live [OF tk] f(1,3) [OF i(1)] n by (metis T_def)
    qed
    then show ?thesis using True r by simp
  next
    case False
    have "(live T' j \<and> in_number (T' ! j) = x) = (live T j \<and> in_number (T ! j) = x)" for j
      using lv' [of j] f(1) [of j] n False i by (cases "j = i") (auto simp: live_def T_def T'_def)
    then have feq: "find (\<lambda>j. live T' j \<and> in_number (T' ! j) = x) [0..<length T'] = find (\<lambda>j. live T j \<and> in_number (T ! j) = x) [0..<length T]"
      by (simp add: T'_def)
    show ?thesis
    proof (cases "find (\<lambda>j. live T j \<and> in_number (T ! j) = x) [0..<length T]")
      case None
      then show ?thesis using False feq by (simp add: rc_def)
    next
      case (Some j)
      have "j \<noteq> i" "j < length T" using find_Some_props [OF Some] False n by (auto simp: T_def)
      then show ?thesis using False feq Some f(3) by (simp add: rc_def)
    qed
  qed
  then show "rc (inode_table (put_inode i s)) = (rc (inode_table s))(n := rc (inode_table s) n - 1)"
    unfolding e(1) T_def [symmetric] by auto
qed

text \<open>An inode that is still referenced after a handle is dropped stays in its slot.\<close>

lemma put_keeps_live:
  assumes t: "table_ok (inode_table s)" and i: "live (inode_table s) i"
    and j: "live (inode_table s) j" "in_number (inode_table s ! j) = m" and m: "0 < rc (inode_table (put_inode i s)) m"
  shows "live (inode_table (put_inode i s)) j \<and> in_number (inode_table (put_inode i s) ! j) = m"
proof -
  obtain j' where j': "live (inode_table (put_inode i s)) j'" "in_number (inode_table (put_inode i s) ! j') = m"
    using rc_pos [OF put_inode_table(1) [OF t i refl]] m by blast
  then have "live (inode_table s) j' \<and> in_number (inode_table s ! j') = m"
    by (auto simp: put_inode_def upd_inode_def live_def nth_upd_at split: if_splits)
  then have "j' = j" using t j by (simp add: table_ok_def)
  then show ?thesis using j' by simp
qed

text \<open>With fewer than ten inodes in use a slot is left.\<close>

lemma table_full_card:
  assumes t: "table_ok t" and full: "\<forall>i < length t. in_refcnt (t ! i) \<noteq> 0"
  shows "card {n. 0 < rc t n} = NUM_INODE"
proof -
  have len: "length t = NUM_INODE" using t by (simp add: table_ok_def)
  have lv: "live t i" if "i < NUM_INODE" for i
  proof -
    have "0 \<le> in_refcnt (t ! i)" "in_refcnt (t ! i) \<noteq> 0" using t full that len by (simp_all add: table_ok_def)
    then show ?thesis using that len by (simp add: live_def)
  qed
  have "{n. 0 < rc t n} = (\<lambda>i. in_number (t ! i)) ` {..<NUM_INODE}"
    using rc_pos [OF t] lv len by (auto simp: live_def)
  moreover have "inj_on (\<lambda>i. in_number (t ! i)) {..<NUM_INODE}"
    using t lv by (intro inj_onI) (simp add: table_ok_def)
  ultimately show ?thesis by (simp add: card_image)
qed

section \<open>Following names in the directory tree\<close>

primrec follow :: "SuperBlock \<Rightarrow> (u32 \<Rightarrow> bytes) \<Rightarrow> u32 \<Rightarrow> bytes list \<Rightarrow> u32 option" where
  "follow sb v n [] = Some n"
| "follow sb v n (c # cs) =
     (if di_type (disk_inode sb v n) = kDirectory \<and> is_valid_name c
      then (case dir_map v (disk_inode sb v n) c of None \<Rightarrow> None | Some m \<Rightarrow> follow sb v m cs)
      else None)"

text \<open>Where \<open>walk\<close> ends: at the last component, or at the directory before it.\<close>

definition walk_target :: "bool \<Rightarrow> SuperBlock \<Rightarrow> (u32 \<Rightarrow> bytes) \<Rightarrow> u32 \<Rightarrow> bytes list \<Rightarrow> u32 option" where
  "walk_target stop sb v n cs =
     (if \<not> stop then follow sb v n cs
      else if cs = [] then None
      else (case follow sb v n (butlast cs) of
              None \<Rightarrow> None
            | Some m \<Rightarrow> if di_type (disk_inode sb v m) = kDirectory then Some m else None))"

lemma walk_target_step:
  "\<not> (stop \<and> cs = []) \<Longrightarrow> walk_target stop sb v n (c # cs) =
     (if di_type (disk_inode sb v n) = kDirectory \<and> is_valid_name c
      then (case dir_map v (disk_inode sb v n) c of None \<Rightarrow> None | Some m \<Rightarrow> walk_target stop sb v m cs)
      else None)"
  by (auto simp: walk_target_def split: option.split)

text \<open>Directories are files, and their entries name inodes that exist.\<close>

definition tree_wf :: "SuperBlock \<Rightarrow> (u32 \<Rightarrow> bytes) \<Rightarrow> bool" where
  "tree_wf sb v \<longleftrightarrow>
     ROOT_INODE < sb_ninodes sb \<and>
     (\<forall>n < sb_ninodes sb. file_wf sb v (disk_inode sb v n) \<and>
        (\<forall>name m. dir_map v (disk_inode sb v n) name = Some m \<longrightarrow> m < sb_ninodes sb))"

context store_contract
begin

lemma directory_lookup_effect:
  assumes e: "env 1 s" and w: "file_wf (fs_sb s) (vw s) (in_disk dir)" and l: "directory_lookup dir name s = (r, s')"
  shows "fk s s'" "vw s' = vw s" "map_option dl_inode_number r =
    (if di_type (in_disk dir) = kDirectory \<and> is_valid_name name then dir_map (vw s) (in_disk dir) name else None)"
proof -
  have z: "unat (0 :: u32) mod 16 = 0" by simp
  note L = lookup_from_effect [OF e w z, simplified]
  have "fk s s' \<and> vw s' = vw s \<and> map_option dl_inode_number r =
    (if di_type (in_disk dir) = kDirectory \<and> is_valid_name name then dir_map (vw s) (in_disk dir) name else None)"
  proof (cases "di_type (in_disk dir) = kDirectory \<and> is_valid_name name")
    case False
    then show ?thesis using l fs_keeps_refl [OF fs_envD(2) [OF e]] by (auto simp: directory_lookup_def)
  next
    case True
    then have "lookup_from dir name 0 s = (r, s')" using l by (simp add: directory_lookup_def)
    then show ?thesis using L [of name r s'] True by (simp add: dir_map_def option.map_comp comp_def)
  qed
  then show "fk s s'" "vw s' = vw s" "map_option dl_inode_number r =
    (if di_type (in_disk dir) = kDirectory \<and> is_valid_name name then dir_map (vw s) (in_disk dir) name else None)" by auto
qed

text \<open>The file-system side of the walk's state, which no step changes.\<close>

definition walk_ok :: "SuperBlock \<Rightarrow> (u32 \<Rightarrow> bytes) \<Rightarrow> 's fs \<Rightarrow> 's fsys \<Rightarrow> bool" where
  "walk_ok sb v f0 s \<longleftrightarrow>
     env 1 (fsys_fs s) \<and> fk f0 (fsys_fs s) \<and> fs_sb (fsys_fs s) = sb \<and> vw (fsys_fs s) = v \<and>
     table_ok (inode_table s) \<and> coherent sb v (inode_table s)"

lemma walk_ok_fs:
  assumes "walk_ok sb v f0 s" "fk (fsys_fs s) f" "vw f = v"
  shows "walk_ok sb v f0 (s\<lparr>fsys_fs := f\<rparr>)"
  using assms fs_env_keeps [OF _ assms(2)] fs_keeps_fields(2) [OF assms(2)] fs_keeps_trans [OF _ assms(2)]
  by (simp add: walk_ok_def)

lemma walk_ok_put:
  assumes "walk_ok sb v f0 s" "live (inode_table s) i" "in_number (inode_table s ! i) = n"
    and "rc (inode_table s) = base(n := base n + 1)"
  shows "walk_ok sb v f0 (put_inode i s)" "rc (inode_table (put_inode i s)) = base"
  using assms put_inode_table [OF _ assms(2,3)] by (simp_all add: walk_ok_def)

lemma walk_get:
  assumes w: "walk_ok sb v f0 s" and n: "n < sb_ninodes sb" and few: "card {x. 0 < rc (inode_table s) x} < NUM_INODE"
  obtains j s' where "get_inode n s = (Some j, s')" "walk_ok sb v f0 s'" "live (inode_table s') j"
    "in_number (inode_table s' ! j) = n" "rc (inode_table s') = (rc (inode_table s))(n := rc (inode_table s) n + 1)"
    "\<And>i. live (inode_table s) i \<Longrightarrow> live (inode_table s') i \<and> in_number (inode_table s' ! i) = in_number (inode_table s ! i)"
proof -
  have e: "env 1 (fsys_fs s)" and t: "table_ok (inode_table s)" and sb: "fs_sb (fsys_fs s) = sb" "vw (fsys_fs s) = v"
    and c: "coherent sb v (inode_table s)" and f0: "fk f0 (fsys_fs s)" using w by (auto simp: walk_ok_def)
  obtain r s' where g: "get_inode n s = (r, s')" by (cases "get_inode n s")
  note G = get_inode_effect [OF e t _ g, unfolded sb, OF n]
  obtain j where j: "r = Some j"
    using G(4) few table_full_card [OF t] by (cases r) (auto simp: got_def)
  have got: "got n (disk_inode sb v n) (inode_table s) (Some j) (inode_table s')" using G(4) j by simp
  note R = rc_got [OF t G(3) got]
  have "walk_ok sb v f0 s'"
    using G c fs_env_keeps [OF e G(1)] fs_keeps_fields(2) [OF G(1)] sb fs_keeps_trans [OF f0 G(1)] by (simp add: walk_ok_def)
  moreover have "live (inode_table s') i \<and> in_number (inode_table s' ! i) = in_number (inode_table s ! i)"
    if "live (inode_table s) i" for i
    using got that by (cases "i = j") (auto simp: got_def live_def)
  ultimately show ?thesis using that R g j by blast
qed

lemma walk_from_effect:
  assumes "walk_ok sb v f0 s" "tree_wf sb v" "n < sb_ninodes sb" "live (inode_table s) i" "in_number (inode_table s ! i) = n"
    and "rc (inode_table s) = base(n := base n + 1)" "\<And>x. 0 \<le> base x" "finite {x. 0 < base x}" "card {x. 0 < base x} + 2 \<le> NUM_INODE"
    and "walk_from (Some i) rest stop s = (r, l, s')"
  shows "walk_ok sb v f0 s' \<and>
    (case walk_target stop sb v n (components rest) of
       None \<Rightarrow> r = None \<and> l = None \<and> rc (inode_table s') = base
     | Some m \<Rightarrow> \<exists>j. r = Some j \<and> live (inode_table s') j \<and> in_number (inode_table s' ! j) = m \<and> m < sb_ninodes sb \<and>
         l = (if stop then Some (last (components rest)) else None) \<and> rc (inode_table s') = base(m := base m + 1))"
  using assms
proof (induction "length rest" arbitrary: rest n i s rule: less_induct)
  case less
  note w = less.prems(1) and tree = less.prems(2) and n = less.prems(3) and lv = less.prems(4) and num = less.prems(5)
    and rcs = less.prems(6) and base = less.prems(7,8,9) and wf = less.prems(10)
  obtain name rest1 where nc: "next_component rest = (name, rest1)" by (cases "next_component rest")
  note comps = components_step [OF nc]
  have disk: "in_disk (inode_table s ! i) = disk_inode sb v n" using w lv num by (auto simp: walk_ok_def coherent_def)
  note put = walk_ok_put [OF w lv num rcs]
  show ?case
  proof (cases "name = []")
    case True
    then have "(r, l, s') = (if stop then (None, None, put_inode i s) else (Some i, None, s))"
      using wf nc by (subst (asm) walk_from.simps) (simp add: InodeRef_reset_def split: if_splits)
    then show ?thesis using True comps put w lv num rcs n by (auto simp: walk_target_def split: if_splits)
  next
    case False
    then have cs: "components rest = name # components rest1" using comps by simp
    show ?thesis
    proof (cases "stop \<and> components rest1 = []")
      case True
      then have "(r, l, s') = (if di_type (disk_inode sb v n) \<noteq> kDirectory then (None, None, put_inode i s) else (Some i, Some name, s))"
        using wf nc False disk has_component_iff [of rest1] by (subst (asm) walk_from.simps) (simp add: InodeRef_reset_def split: if_splits)
      then show ?thesis using True cs put w lv num rcs n by (auto simp: walk_target_def split: if_splits)
    next
      case go: False
      note tgt = walk_target_step [OF go, of sb v n name, folded cs]
      obtain q f1 where q: "directory_lookup (inode_table s ! i) name (fsys_fs s) = (q, f1)"
        by (cases "directory_lookup (inode_table s ! i) name (fsys_fs s)")
      have e: "env 1 (fsys_fs s)" and sbv: "fs_sb (fsys_fs s) = sb" "vw (fsys_fs s) = v" using w by (auto simp: walk_ok_def)
      have fw: "file_wf sb v (disk_inode sb v n)" using tree n by (simp add: tree_wf_def)
      note D = directory_lookup_effect [OF e _ q, unfolded disk sbv, OF fw]
      define s1 where "s1 = s\<lparr>fsys_fs := f1\<rparr>"
      have w1: "walk_ok sb v f0 s1" using walk_ok_fs [OF w D(1,2)] by (simp add: s1_def)
      have t1: "inode_table s1 = inode_table s" by (simp add: s1_def)
      have step: "walk_from (Some i) rest stop s = (case q of None \<Rightarrow> (None, None, put_inode i s1)
          | Some found \<Rightarrow> (case get_inode (dl_inode_number found) s1 of (nx, s2) \<Rightarrow> walk_from nx rest1 stop (put_inode i s2)))"
        using nc False go q has_component_iff [of rest1]
        by (subst walk_from.simps) (auto simp: lift_fs_def s1_def InodeRef_reset_def InodeRef_move_assign_def split: option.splits prod.splits)
      show ?thesis
      proof (cases q)
        case None
        then have "walk_target stop sb v n (components rest) = None" using D(3) tgt by (auto split: if_splits option.splits)
        moreover have "(r, l, s') = (None, None, put_inode i s1)" using step wf None by simp
        ultimately show ?thesis using walk_ok_put [OF w1, of i n base] t1 lv num rcs by simp
      next
        case (Some found)
        define m where "m = dl_inode_number found"
        have dm: "di_type (disk_inode sb v n) = kDirectory" "is_valid_name name" "dir_map v (disk_inode sb v n) name = Some m"
          using D(3) Some by (auto simp: m_def split: if_splits)
        have tgt': "walk_target stop sb v n (components rest) = walk_target stop sb v m (components rest1)" using tgt dm by simp
        have m: "m < sb_ninodes sb" using tree n dm(3) by (auto simp: tree_wf_def)
        have "{x. 0 < rc (inode_table s1) x} \<subseteq> insert n {x. 0 < base x}" using rcs t1 by auto
        then have few: "card {x. 0 < rc (inode_table s1) x} < NUM_INODE"
          using base(2,3) card_mono [of "insert n {x. 0 < base x}" "{x. 0 < rc (inode_table s1) x}"] by (simp add: card_insert_if split: if_splits)
        obtain j s2 where g: "get_inode m s1 = (Some j, s2)" "walk_ok sb v f0 s2" "live (inode_table s2) j"
          "in_number (inode_table s2 ! j) = m" "rc (inode_table s2) = (rc (inode_table s1))(m := rc (inode_table s1) m + 1)"
          "\<And>i. live (inode_table s1) i \<Longrightarrow> live (inode_table s2) i \<and> in_number (inode_table s2 ! i) = in_number (inode_table s1 ! i)"
          using walk_get [OF w1 m few] by blast
        define base1 where "base1 = base(m := base m + 1)"
        have lv2: "live (inode_table s2) i" "in_number (inode_table s2 ! i) = n" using g(6) [of i] lv num t1 by auto
        have rc2: "rc (inode_table s2) = base1(n := base1 n + 1)" using g(5) t1 rcs by (auto simp: base1_def)
        note P = walk_ok_put [OF g(2) lv2 rc2]
        have tk2: "table_ok (inode_table s2)" using g(2) by (simp add: walk_ok_def)
        have "0 < rc (inode_table (put_inode i s2)) m" using P(2) base(1) [of m] by (simp add: base1_def)
        note j3 = put_keeps_live [OF tk2 lv2(1) g(3,4) this]
        have len: "length rest1 < length rest" using next_component_shorter [OF nc False] .
        have rest: "walk_from (Some j) rest1 stop (put_inode i s2) = (r, l, s')" using step wf Some g(1) by (simp add: m_def)
        have cs1: "stop \<Longrightarrow> last (components rest) = last (components rest1)" using cs go by auto
        note IH = less.hyps [OF len P(1) tree m conjunct1 [OF j3] conjunct2 [OF j3] P(2) [unfolded base1_def] base rest]
        show ?thesis using IH cs1 unfolding tgt' by (cases "walk_target stop sb v m (components rest1)") auto
      qed
    qed
  qed
qed

end

section \<open>Properties\<close>

lemma walk_path_effect:
  assumes m: "fsys_mounted contents good s" and tree: "tree_wf (fs_sb (fsys_fs s)) (fs_view contents (fsys_fs s))"
    and few: "card {x. 0 < rc (inode_table s) x} + 2 \<le> NUM_INODE" and r: "walk_path path stop s = (r, l, s')"
  shows "fsys_mounted contents good s' \<and> fs_view contents (fsys_fs s') = fs_view contents (fsys_fs s) \<and>
    (case (if path = [] then None else walk_target stop (fs_sb (fsys_fs s)) (fs_view contents (fsys_fs s)) ROOT_INODE (components path)) of
       None \<Rightarrow> r = None \<and> l = None \<and> rc (inode_table s') = rc (inode_table s)
     | Some m \<Rightarrow> \<exists>j. r = Some j \<and> live (inode_table s') j \<and> in_number (inode_table s' ! j) = m \<and>
         l = (if stop then Some (last (components path)) else None) \<and>
         rc (inode_table s') = (rc (inode_table s))(m := rc (inode_table s) m + 1))"
proof (cases "path = []")
  case True
  then show ?thesis using r m by (simp add: walk_path_def)
next
  case False
  define sb v where "sb = fs_sb (fsys_fs s)" and "v = fs_view contents (fsys_fs s)"
  have mt: "mounted contents good (fsys_fs s)" and t: "table_ok (inode_table s)" and c: "coherent sb v (inode_table s)"
    using m by (auto simp: fsys_mounted_def sb_def v_def)
  note e = mounted_env1 [OF mt]
  have w: "bc.walk_ok contents good sb v (fsys_fs s) s"
    using e fs_keeps_refl [OF fs_envD(2) [OF e]] t c by (simp add: bc.walk_ok_def sb_def v_def)
  have root: "ROOT_INODE < sb_ninodes sb" using tree by (simp add: tree_wf_def sb_def)
  have few': "card {x. 0 < rc (inode_table s) x} < NUM_INODE" using few by (simp add: NUM_INODE_def)
  obtain i s1 where g: "get_inode ROOT_INODE s = (Some i, s1)" "bc.walk_ok contents good sb v (fsys_fs s) s1"
    "live (inode_table s1) i" "in_number (inode_table s1 ! i) = ROOT_INODE"
    "rc (inode_table s1) = (rc (inode_table s))(ROOT_INODE := rc (inode_table s) ROOT_INODE + 1)"
    using bc.walk_get [OF w root few'] by metis
  have nn: "0 \<le> rc (inode_table s) x" for x
    using rc_live [OF t] by (auto simp: rc_def live_def split: option.split dest!: find_Some_props)
  have "{x. 0 < rc (inode_table s) x} \<subseteq> (\<lambda>i. in_number (inode_table s ! i)) ` {..<length (inode_table s)}"
    using rc_pos [OF t] by (auto simp: live_def)
  then have fin: "finite {x. 0 < rc (inode_table s) x}" by (rule finite_subset) simp
  have wf: "walk_from (Some i) path stop s1 = (r, l, s')" using r False g(1) by (simp add: walk_path_def)
  note W = bc.walk_from_effect [OF g(2) tree [folded sb_def v_def] root g(3,4,5) nn fin few wf]
  have "bc.walk_ok contents good sb v (fsys_fs s) s'" using W by blast
  then have k: "fs_keeps (store_inv contents good) cache_refs cache_loc (cache_synced contents) (fsys_fs s) (fsys_fs s')"
    and fm: "fsys_mounted contents good s'" and vv: "fs_view contents (fsys_fs s') = v"
    using mounted_keeps [OF mt] by (auto simp: bc.walk_ok_def fsys_mounted_def)
  show ?thesis using W False fm vv unfolding sb_def [symmetric] v_def [symmetric]
    by (cases "walk_target stop sb v ROOT_INODE (components path)") auto
qed


text \<open>The freshly formatted RAM disk as a tree.\<close>

lemma zero_inode_file: "file_wf sb v DiskInode_zero"
proof -
  have l: "lblk v DiskInode_zero i = 0" for i by (simp add: lblk_def DiskInode_zero_def)
  have p: "ptrs v DiskInode_zero = {}" by (auto simp: ptrs_def l) (simp add: DiskInode_zero_def)
  show ?thesis by (simp add: file_wf_def file_ok_def p l) (simp add: DiskInode_zero_def)
qed

lemma ram_tree: "tree_wf (fs_sb ram_fs) (fs_view ram_contents ram_fs)"
proof -
  define sb v where "sb = fs_sb ram_fs" and "v = fs_view ram_contents ram_fs"
  have n: "sb_ninodes sb = 200" and fm: "formatted sb v" and ds: "data_start sb = 28" using ram_fs_props by (simp_all add: sb_def v_def)
  have root: "disk_inode sb v 1 = in_disk ram_root"
    using fm ds by (simp add: formatted_def fs_consts ram_root_def)
  have oth: "disk_inode sb v k = DiskInode_zero" if "k < 200" "k \<noteq> 1" for k using fm n that by (simp add: formatted_def fs_consts)
  have rm: "m = 1" if dm: "dir_map v (in_disk ram_root) name = Some m" for name m
  proof -
    obtain k where k: "find (names v (in_disk ram_root) name) [0..<num_entries (in_disk ram_root)] = Some k"
      "m = ucast (de_inode_number (entry_at v (in_disk ram_root) k))"
      using dm unfolding dir_map_def map_option_eq_Some by blast
    have "k < 2" using find_Some_props [OF k(1)] ram_root_entries(1) by simp
    then have "k = 0 \<or> k = 1" by auto
    then show ?thesis using ram_root_entries(2,3) k(2) by (auto simp: v_def dot_entry_def)
  qed
  have zm: "dir_map v DiskInode_zero name = None" for name by (simp add: dir_map_def num_entries_def DiskInode_zero_def)
  have fr: "file_wf sb v (in_disk ram_root)" using ram_root_file by (simp add: sb_def v_def)
  have "file_wf sb v (disk_inode sb v k) \<and> (\<forall>name m. dir_map v (disk_inode sb v k) name = Some m \<longrightarrow> m < 200)" if "k < 200" for k
  proof (cases "k = 1")
    case True
    have "m < 200" if "dir_map v (in_disk ram_root) name = Some m" for name m using rm [OF that] by simp
    then show ?thesis using fr True by (auto simp: root)
  next
    case False
    then show ?thesis using oth [OF that] zm zero_inode_file by simp
  qed
  then show ?thesis by (simp add: tree_wf_def sb_def [symmetric] v_def [symmetric] n fs_consts)
qed

lemma ram_few: "card {x. 0 < rc (inode_table ram_fsys) x} + 2 \<le> NUM_INODE"
  using rc_none [of static_inode_table] static_table_idle by (simp add: ram_fsys_def NUM_INODE_def)




text \<open>
  Printing a list of names as a path and cutting it again gives the names back, however many slashes separate
  or end them.
\<close>

theorem components_print:
  assumes "list_all (\<lambda>(k, name). is_valid_name name) ns"
  shows "components (concat (map (\<lambda>(k, name). replicate (Suc k) SLASH @ name) ns) @ replicate trailing SLASH) = map snd ns"
proof -
  have slashes: "components (replicate k SLASH @ p) = components p" for k p by (induction k) simp_all
  have "components (replicate trailing SLASH) = []" using slashes [of trailing "[]"] by simp
  then show ?thesis using assms
  proof (induction ns)
    case Nil
    then show ?case by simp
  next
    case (Cons x ns)
    obtain k name where x: "x = (k, name)" by (cases x)
    have valid: "SLASH \<notin> set name" "name \<noteq> []" using Cons.prems(2) by (auto simp: x is_valid_name_def list_all_iff)
    define rest where "rest = concat (map (\<lambda>(k, name). replicate (Suc k) SLASH @ name) ns) @ replicate trailing SLASH"
    have hd: "rest = [] \<or> hd rest = SLASH" by (cases ns; cases trailing) (auto simp: rest_def)
    have "components rest = map snd ns" using Cons by (simp add: rest_def)
    then show ?case
      using components_name [OF valid hd] slashes [of "Suc k" "name @ rest"] by (simp add: x rest_def)
  qed
qed

theorem components_print_witness:
  "components (concat (map (\<lambda>(k, name). replicate (Suc k) SLASH @ name) [(1, [97]), (0, [98, 99])]) @ replicate 2 SLASH) = [[97], [98, 99]]"
  by (subst components_print) (simp_all add: is_valid_name_def SLASH_def fs_consts)

end
