(* ===== verification/Port_IO.thy ===== *)
theory Port_IO
  imports Prelude
begin

text \<open>
  The port instructions of \<open>include/io.hpp\<close>. Their bodies are assembly
  (\<open>io/io.asm\<close>) and what they do is up to the devices behind the ports, so they are a
  parameter of every driver: a record of operations on a device state of type \<open>'d\<close>.
  The drivers are in \<open>Interrupt_Controller\<close>, \<open>Serial_Port\<close>, \<open>Keyboard\<close> and
  \<open>Pci_Bus\<close>. \<open>trace_ports\<close> is the plainest device: it logs the writes and answers
  every read from a fixed table.
\<close>

record 'd ports =
  outb :: "u16 \<Rightarrow> u8 \<Rightarrow> 'd \<Rightarrow> 'd"
  inb :: "u16 \<Rightarrow> 'd \<Rightarrow> u8 \<times> 'd"
  out16b :: "u16 \<Rightarrow> u16 \<Rightarrow> 'd \<Rightarrow> 'd"
  in16b :: "u16 \<Rightarrow> 'd \<Rightarrow> u16 \<times> 'd"
  out32b :: "u16 \<Rightarrow> u32 \<Rightarrow> 'd \<Rightarrow> 'd"
  in32b :: "u16 \<Rightarrow> 'd \<Rightarrow> u32 \<times> 'd"
  io_wait :: "'d \<Rightarrow> 'd"

text \<open>A run of byte writes in order, as the initialisation sequences of the drivers are.\<close>

definition outs :: "'d ports \<Rightarrow> (u16 \<times> u8) list \<Rightarrow> 'd \<Rightarrow> 'd" where
  "outs P ws d = fold (\<lambda>(port, v). outb P port v) ws d"

lemma outs_simps [simp]:
  "outs P [] d = d"
  "outs P ((port, v) # ws) d = outs P ws (outb P port v d)"
  by (simp_all add: outs_def)

datatype access = W8 u16 u8 | W16 u16 u16 | W32 u16 u32 | Wait

definition trace_ports :: "(u16 \<Rightarrow> u32) \<Rightarrow> access list ports" where
  "trace_ports tab = \<lparr>
     outb = \<lambda>p v d. d @ [W8 p v], inb = \<lambda>p d. (ucast (tab p), d),
     out16b = \<lambda>p v d. d @ [W16 p v], in16b = \<lambda>p d. (ucast (tab p), d),
     out32b = \<lambda>p v d. d @ [W32 p v], in32b = \<lambda>p d. (tab p, d),
     io_wait = \<lambda>d. d @ [Wait]\<rparr>"

lemma trace_ports_simps [simp]:
  "outb (trace_ports tab) p v d = d @ [W8 p v]"
  "inb (trace_ports tab) p d = (ucast (tab p), d)"
  "out16b (trace_ports tab) p v16 d = d @ [W16 p v16]"
  "in16b (trace_ports tab) p d = (ucast (tab p), d)"
  "out32b (trace_ports tab) p v32 d = d @ [W32 p v32]"
  "in32b (trace_ports tab) p d = (tab p, d)"
  "io_wait (trace_ports tab) d = d @ [Wait]"
  by (simp_all add: trace_ports_def)

end
