(* ===== verification/Interrupt_Controller.thy ===== *)
theory Interrupt_Controller
  imports Port_IO
begin

text \<open>
  The 8259A interrupt controllers and the 8254 timer of \<open>include/pic.cpp\<close>: the command
  words, their initialisation sequences, and the per-line masks. The chips are described
  by \<open>i8259\<close> (the register state of one controller, with the ICW sequence of its data
  sheet) and \<open>i8254\<close> (the write latch of counter 0); \<open>pic_wired\<close> and \<open>pit_wired\<close> say that the
  ports reach such chips.
\<close>

section \<open>Command words\<close>

definition PIC1_COMMAND :: u16 where "PIC1_COMMAND = 0x20"
definition PIC1_DATA :: u16 where "PIC1_DATA = 0x21"
definition PIC2_COMMAND :: u16 where "PIC2_COMMAND = 0xA0"
definition PIC2_DATA :: u16 where "PIC2_DATA = 0xA1"
definition PIC_EOI :: u8 where "PIC_EOI = 0x20"
definition PIT_CHANNEL0 :: u16 where "PIT_CHANNEL0 = 0x40"
definition PIT_COMMAND :: u16 where "PIT_COMMAND = 0x43"
definition PIT_FREQUENCY :: u32 where "PIT_FREQUENCY = 1193182"

datatype Icw1 = Icw4Needed | Single | Interval4 | LevelTriggered | Initialize

fun Icw1_value :: "Icw1 \<Rightarrow> u8" where
  "Icw1_value Icw4Needed = 0x01"
| "Icw1_value Single = 0x02"
| "Icw1_value Interval4 = 0x04"
| "Icw1_value LevelTriggered = 0x08"
| "Icw1_value Initialize = 0x10"

datatype Icw4 = Mode8086 | AutoEoi | BufferedSlave | BufferedMaster | SpecialFullyNested

fun Icw4_value :: "Icw4 \<Rightarrow> u8" where
  "Icw4_value Mode8086 = 0x01"
| "Icw4_value AutoEoi = 0x02"
| "Icw4_value BufferedSlave = 0x08"
| "Icw4_value BufferedMaster = 0x0C"
| "Icw4_value SpecialFullyNested = 0x10"

definition CASCADE_IRQ :: u8 where "CASCADE_IRQ = 2"
definition MASTER_CASCADE_MASK :: u8 where "MASTER_CASCADE_MASK = push_bit (unat CASCADE_IRQ) 1"
definition SLAVE_CASCADE_ID :: u8 where "SLAVE_CASCADE_ID = CASCADE_IRQ"

datatype PitChannel = Channel0 | Channel1 | Channel2 | ReadBack

fun PitChannel_value :: "PitChannel \<Rightarrow> u8" where
  "PitChannel_value Channel0 = 0"
| "PitChannel_value Channel1 = 1"
| "PitChannel_value Channel2 = 2"
| "PitChannel_value ReadBack = 3"

datatype PitAccess = LatchCount | LowByteOnly | HighByteOnly | LowThenHighByte

fun PitAccess_value :: "PitAccess \<Rightarrow> u8" where
  "PitAccess_value LatchCount = 0"
| "PitAccess_value LowByteOnly = 1"
| "PitAccess_value HighByteOnly = 2"
| "PitAccess_value LowThenHighByte = 3"

datatype PitMode = InterruptOnTerminalCount | HardwareRetriggerableOneShot | RateGenerator
  | SquareWave | SoftwareTriggeredStrobe | HardwareTriggeredStrobe

fun PitMode_value :: "PitMode \<Rightarrow> u8" where
  "PitMode_value InterruptOnTerminalCount = 0"
| "PitMode_value HardwareRetriggerableOneShot = 1"
| "PitMode_value RateGenerator = 2"
| "PitMode_value SquareWave = 3"
| "PitMode_value SoftwareTriggeredStrobe = 4"
| "PitMode_value HardwareTriggeredStrobe = 5"

datatype PitCounterFormat = Binary | Bcd

fun PitCounterFormat_value :: "PitCounterFormat \<Rightarrow> u8" where
  "PitCounterFormat_value Binary = 0"
| "PitCounterFormat_value Bcd = 1"

record PitCommand =
  channel :: PitChannel
  access :: PitAccess
  pmode :: PitMode
  counter_format :: PitCounterFormat

definition PitCommand_byte :: "PitCommand \<Rightarrow> u8" where
  "PitCommand_byte c =
     push_bit 6 (PitChannel_value (channel c)) OR push_bit 4 (PitAccess_value (access c)) OR
     push_bit 1 (PitMode_value (pmode c)) OR PitCounterFormat_value (counter_format c)"

section \<open>Operations\<close>

definition icw1_init :: u8 where
  "icw1_init = (Icw1_value Initialize OR Icw1_value Icw4Needed)"

definition InitializePIC :: "'d ports \<Rightarrow> u8 \<Rightarrow> u8 \<Rightarrow> 'd \<Rightarrow> 'd" where
  "InitializePIC P offset1 offset2 d0 =
     (let (m1, d1) = inb P PIC1_DATA d0;
          (m2, d2) = inb P PIC2_DATA d1;
          d3 = io_wait P (outb P PIC1_COMMAND icw1_init d2);
          d4 = io_wait P (outb P PIC2_COMMAND icw1_init d3);
          d5 = io_wait P (outb P PIC1_DATA offset1 d4);
          d6 = io_wait P (outb P PIC2_DATA offset2 d5);
          d7 = io_wait P (outb P PIC1_DATA MASTER_CASCADE_MASK d6);
          d8 = io_wait P (outb P PIC2_DATA SLAVE_CASCADE_ID d7);
          d9 = io_wait P (outb P PIC1_DATA (Icw4_value Mode8086) d8);
          d10 = io_wait P (outb P PIC2_DATA (Icw4_value Mode8086) d9)
      in outb P PIC2_DATA m2 (outb P PIC1_DATA m1 d10))"

text \<open>
  \<open>PIT_FREQUENCY / hz\<close> is a 32-bit division narrowed to 16 bits; a zero \<open>hz\<close> raises the
  divide fault, here \<open>None\<close>, after the control word has been written.
\<close>

definition pit_divisor :: "u32 \<Rightarrow> u16" where
  "pit_divisor hz = ucast (PIT_FREQUENCY div hz)"

definition InitializePIT :: "'d ports \<Rightarrow> u32 \<Rightarrow> 'd \<Rightarrow> 'd option" where
  "InitializePIT P hz d0 =
     (let d1 = outb P PIT_COMMAND (PitCommand_byte \<lparr>channel = Channel0, access = LowThenHighByte,
                 pmode = SquareWave, counter_format = Binary\<rparr>) d0
      in if hz = 0 then None
         else let divisor = pit_divisor hz;
                  d2 = outb P PIT_CHANNEL0 (ucast (divisor AND 0xFF)) d1
              in Some (outb P PIT_CHANNEL0 (ucast (drop_bit 8 divisor AND 0xFF)) d2))"

definition irq_port :: "u8 \<Rightarrow> u16" where
  "irq_port irq = (if irq < 8 then PIC1_DATA else PIC2_DATA)"

definition irq_line :: "u8 \<Rightarrow> u8" where
  "irq_line irq = (if irq \<ge> 8 then irq - 8 else irq)"

text \<open>\<open>1 << irq\<close> is computed at width 32 and narrowed by the call of \<open>outb\<close>.\<close>

definition irq_bit :: "u8 \<Rightarrow> u8" where
  "irq_bit irq = ucast (push_bit (unat (irq_line irq)) (1 :: u32))"

definition mask_irq :: "'d ports \<Rightarrow> u8 \<Rightarrow> 'd \<Rightarrow> 'd" where
  "mask_irq P irq d = (let (m, d') = inb P (irq_port irq) d in outb P (irq_port irq) (m OR irq_bit irq) d')"

definition unmask_irq :: "'d ports \<Rightarrow> u8 \<Rightarrow> 'd \<Rightarrow> 'd" where
  "unmask_irq P irq d = (let (m, d') = inb P (irq_port irq) d in outb P (irq_port irq) (m AND NOT (irq_bit irq)) d')"

definition send_eoi :: "'d ports \<Rightarrow> u8 \<Rightarrow> 'd \<Rightarrow> 'd" where
  "send_eoi P irq d =
     outb P PIC1_COMMAND PIC_EOI (if irq \<ge> 8 then outb P PIC2_COMMAND PIC_EOI d else d)"

section \<open>The chips\<close>

text \<open>
  One 8259A, as its data sheet describes the initialisation: a command with bit 4 is
  ICW1, it clears the mask and makes the chip expect ICW2, then ICW3 unless single, then
  ICW4 if announced; only afterwards is a data write the interrupt mask (OCW1). A command
  \<open>0x20\<close> is the non-specific end of interrupt.
\<close>

datatype icw_phase = Ready | Want2 | Want3 | Want4

record i8259 =
  phase :: icw_phase
  needs4 :: bool
  single :: bool
  vector :: u8
  wiring :: u8
  mode :: u8
  imr :: u8
  eois :: nat

definition i8259_command :: "u8 \<Rightarrow> i8259 \<Rightarrow> i8259" where
  "i8259_command v c =
     (if bit v 4 then c\<lparr>phase := Want2, needs4 := bit v 0, single := bit v 1, imr := 0\<rparr>
      else if v = 0x20 then c\<lparr>eois := eois c + 1\<rparr> else c)"

definition i8259_data :: "u8 \<Rightarrow> i8259 \<Rightarrow> i8259" where
  "i8259_data v c = (case phase c of
       Ready \<Rightarrow> c\<lparr>imr := v\<rparr>
     | Want2 \<Rightarrow> c\<lparr>vector := v, phase := if \<not> single c then Want3 else if needs4 c then Want4 else Ready\<rparr>
     | Want3 \<Rightarrow> c\<lparr>wiring := v, phase := if needs4 c then Want4 else Ready\<rparr>
     | Want4 \<Rightarrow> c\<lparr>mode := v, phase := Ready\<rparr>)"

definition pic_wired :: "'d ports \<Rightarrow> ('d \<Rightarrow> i8259) \<Rightarrow> ('d \<Rightarrow> i8259) \<Rightarrow> bool" where
  "pic_wired P m s \<longleftrightarrow>
     (\<forall>v d. m (outb P PIC1_COMMAND v d) = i8259_command v (m d) \<and> s (outb P PIC1_COMMAND v d) = s d) \<and>
     (\<forall>v d. m (outb P PIC1_DATA v d) = i8259_data v (m d) \<and> s (outb P PIC1_DATA v d) = s d) \<and>
     (\<forall>v d. s (outb P PIC2_COMMAND v d) = i8259_command v (s d) \<and> m (outb P PIC2_COMMAND v d) = m d) \<and>
     (\<forall>v d. s (outb P PIC2_DATA v d) = i8259_data v (s d) \<and> m (outb P PIC2_DATA v d) = m d) \<and>
     (\<forall>d. fst (inb P PIC1_DATA d) = imr (m d) \<and> m (snd (inb P PIC1_DATA d)) = m d \<and> s (snd (inb P PIC1_DATA d)) = s d) \<and>
     (\<forall>d. fst (inb P PIC2_DATA d) = imr (s d) \<and> m (snd (inb P PIC2_DATA d)) = m d \<and> s (snd (inb P PIC2_DATA d)) = s d) \<and>
     (\<forall>d. m (io_wait P d) = m d \<and> s (io_wait P d) = s d)"

text \<open>The set of masked interrupt lines of the pair.\<close>

definition masked :: "i8259 \<Rightarrow> i8259 \<Rightarrow> nat set" where
  "masked m s = {i. i < 8 \<and> bit (imr m) i} \<union> {i. 8 \<le> i \<and> i < 16 \<and> bit (imr s) (i - 8)}"

text \<open>The two chips by themselves, as a device: the wiring is satisfiable.\<close>

definition chip_ports :: "(i8259 \<times> i8259) ports" where
  "chip_ports = \<lparr>
     outb = \<lambda>p v (m, s). if p = PIC1_COMMAND then (i8259_command v m, s)
                         else if p = PIC1_DATA then (i8259_data v m, s)
                         else if p = PIC2_COMMAND then (m, i8259_command v s)
                         else if p = PIC2_DATA then (m, i8259_data v s) else (m, s),
     inb = \<lambda>p (m, s). (if p = PIC1_DATA then imr m else if p = PIC2_DATA then imr s else 0, (m, s)),
     out16b = \<lambda>_ _ d. d, in16b = \<lambda>_ d. (0, d), out32b = \<lambda>_ _ d. d, in32b = \<lambda>_ d. (0, d),
     io_wait = \<lambda>d. d\<rparr>"

lemmas pic_port_defs = PIC1_COMMAND_def PIC1_DATA_def PIC2_COMMAND_def PIC2_DATA_def

lemma chip_ports_wired: "pic_wired chip_ports fst snd"
  by (auto simp: pic_wired_def chip_ports_def pic_port_defs split_def)

text \<open>What the ICW sequence does to one chip, whatever state it was in.\<close>

lemma icw1_bits: "bit icw1_init 4" "bit icw1_init 0" "\<not> bit icw1_init (Suc 0)"
  by (simp_all add: icw1_init_def)

lemma icw_sequence:
  "i8259_data m (i8259_data w4 (i8259_data w3 (i8259_data w2 (i8259_command icw1_init c)))) =
     c\<lparr>phase := Ready, needs4 := True, single := False, vector := w2, wiring := w3, mode := w4, imr := m\<rparr>"
  by (simp add: i8259_command_def i8259_data_def icw1_bits)

text \<open>
  Whatever state the two controllers are in, \<open>InitializePIC\<close> leaves both ready, in 8086
  mode, cascaded over line 2, with the two vector offsets installed and with the interrupt
  masks they had before (which ICW1 clears).
\<close>

theorem InitializePIC_correct:
  assumes "pic_wired P m s"
  shows "m (InitializePIC P o1 o2 d) =
           (m d)\<lparr>phase := Ready, needs4 := True, single := False, vector := o1, wiring := 4, mode := 1\<rparr> \<and>
         s (InitializePIC P o1 o2 d) =
           (s d)\<lparr>phase := Ready, needs4 := True, single := False, vector := o2, wiring := 2, mode := 1\<rparr>"
proof -
  have cs: "MASTER_CASCADE_MASK = 4" "SLAVE_CASCADE_ID = 2"
    by (simp_all add: MASTER_CASCADE_MASK_def SLAVE_CASCADE_ID_def CASCADE_IRQ_def push_bit_eq_mult)
  show ?thesis
    using assms [unfolded pic_wired_def] by (simp add: InitializePIC_def split_def Let_def icw_sequence cs)
qed

definition reset_chip :: i8259 where
  "reset_chip = \<lparr>phase = Want3, needs4 = False, single = True, vector = 0, wiring = 0, mode = 0, imr = 0xFB, eois = 0\<rparr>"

theorem InitializePIC_correct_witness:
  "pic_wired chip_ports fst snd \<and>
   vector (fst (InitializePIC chip_ports 0x20 0x28 (reset_chip, reset_chip))) = 0x20 \<and>
   vector (snd (InitializePIC chip_ports 0x20 0x28 (reset_chip, reset_chip))) = 0x28 \<and>
   imr (fst (InitializePIC chip_ports 0x20 0x28 (reset_chip, reset_chip))) = 0xFB"
  using InitializePIC_correct [OF chip_ports_wired, of "0x20" "0x28" "(reset_chip, reset_chip)"]
    chip_ports_wired
  by (simp add: reset_chip_def)

lemma irq_bit_iff:
  assumes "irq < 16" "n < 8"
  shows "bit (irq_bit irq) n \<longleftrightarrow> n = unat (irq_line irq)"
proof -
  have "unat (irq_line irq) < 8"
    using assms(1) by (auto simp: irq_line_def word_less_nat_alt word_le_nat_alt unat_sub)
  with assms(2) show ?thesis
    by (auto simp: irq_bit_def bit_ucast_iff bit_push_bit_iff bit_exp_iff)
qed

lemma unat_irq_line: "irq < 16 \<Longrightarrow> unat (irq_line irq) = (if irq < 8 then unat irq else unat irq - 8)"
  by (auto simp: irq_line_def word_less_nat_alt word_le_nat_alt unat_sub)

text \<open>
  On ready controllers \<open>mask_irq\<close> adds exactly the line of its argument to the set of
  masked lines and \<open>unmask_irq\<close> removes exactly that one, for each of the sixteen lines.
\<close>

lemma irq_lines:
  assumes wired: "pic_wired P m s" and ready: "phase (m d) = Ready" "phase (s d) = Ready" and irq: "irq < 16"
  shows "masked (m (mask_irq P irq d)) (s (mask_irq P irq d)) = insert (unat irq) (masked (m d) (s d))"
    and "masked (m (unmask_irq P irq d)) (s (unmask_irq P irq d)) = masked (m d) (s d) - {unat irq}"
proof -
  note w = wired [unfolded pic_wired_def]
  have lt: "unat irq < 16" using irq by (simp add: word_less_nat_alt)
  have lt8: "irq < 8 \<longleftrightarrow> unat irq < 8" by (simp add: word_less_nat_alt)
  have b: "n < 8 \<Longrightarrow> bit (irq_bit irq) n \<longleftrightarrow> n = unat (irq_line irq)" for n
    using irq by (rule irq_bit_iff)
  note line = unat_irq_line [OF irq]
  show "masked (m (mask_irq P irq d)) (s (mask_irq P irq d)) = insert (unat irq) (masked (m d) (s d))"
    using w ready lt
    by (cases "irq < 8")
       (auto simp: mask_irq_def split_def Let_def irq_port_def i8259_data_def masked_def bit_or_iff b line lt8)
  show "masked (m (unmask_irq P irq d)) (s (unmask_irq P irq d)) = masked (m d) (s d) - {unat irq}"
    using w ready lt
    by (cases "irq < 8")
       (auto simp: unmask_irq_def split_def Let_def irq_port_def i8259_data_def masked_def bit_and_iff bit_not_iff b line lt8)
qed

text \<open>The end of interrupt reaches the slave only for its own lines, and always the master.\<close>

lemma send_eoi_effect:
  assumes "pic_wired P m s"
  shows "eois (m (send_eoi P irq d)) = eois (m d) + 1"
    and "eois (s (send_eoi P irq d)) = eois (s d) + (if irq \<ge> 8 then 1 else 0)"
  using assms by (auto simp: pic_wired_def send_eoi_def i8259_command_def PIC_EOI_def)

section \<open>The timer\<close>

text \<open>
  Counter 0 of the 8254 in the low-then-high access mode: the first data write after the
  control word is latched, the second completes the 16-bit reload value.
\<close>

record i8254 =
  control :: u8
  low_latch :: "u8 option"
  reload :: u16

definition i8254_control :: "u8 \<Rightarrow> i8254 \<Rightarrow> i8254" where
  "i8254_control v c = c\<lparr>control := v, low_latch := None\<rparr>"

definition i8254_data :: "u8 \<Rightarrow> i8254 \<Rightarrow> i8254" where
  "i8254_data v c = (case low_latch c of
       None \<Rightarrow> c\<lparr>low_latch := Some v\<rparr>
     | Some l \<Rightarrow> c\<lparr>low_latch := None, reload := ucast l OR push_bit 8 (ucast v)\<rparr>)"

definition pit_wired :: "'d ports \<Rightarrow> ('d \<Rightarrow> i8254) \<Rightarrow> bool" where
  "pit_wired P t \<longleftrightarrow>
     (\<forall>v d. t (outb P PIT_COMMAND v d) = i8254_control v (t d)) \<and>
     (\<forall>v d. t (outb P PIT_CHANNEL0 v d) = i8254_data v (t d))"

lemma pit_control_word: "PitCommand_byte \<lparr>channel = Channel0, access = LowThenHighByte,
    pmode = SquareWave, counter_format = Binary\<rparr> = 0x36"
  by (simp add: PitCommand_byte_def push_bit_eq_mult)

lemma split_u16: "(ucast (ucast (d AND 0xFF) :: u8) :: u16) OR push_bit 8 (ucast (ucast (drop_bit 8 d AND 0xFF) :: u8)) = (d :: u16)"
proof (rule bit_word_eqI)
  fix n :: nat
  have ff: "(0xFF :: u16) = mask 8" by (simp add: mask_eq_exp_minus_1)
  assume "n < LENGTH(16)"
  then show "bit ((ucast (ucast (d AND 0xFF) :: u8) :: u16) OR push_bit 8 (ucast (ucast (drop_bit 8 d AND 0xFF) :: u8))) n = bit d n"
    by (auto simp: ff bit_or_iff bit_ucast_iff bit_push_bit_iff bit_and_iff bit_mask_iff bit_drop_bit_eq)
qed

lemma unat_pit_divisor: "unat (pit_divisor hz) = (1193182 div unat hz) mod 65536"
  by (simp add: pit_divisor_def PIT_FREQUENCY_def unsigned_ucast_eq unsigned_take_bit_eq take_bit_eq_mod unat_div_distrib)

text \<open>
  \<open>InitializePIT\<close> faults exactly for frequency zero; otherwise the timer runs in square
  wave mode with reload value \<open>PIT_FREQUENCY / hz\<close> modulo 65536, which is the quotient
  itself as soon as \<open>hz\<close> is at least 19.
\<close>

theorem InitializePIT_correct:
  assumes "pit_wired P t"
  shows "case InitializePIT P hz d of
      None \<Rightarrow> hz = 0
    | Some d' \<Rightarrow> hz \<noteq> 0 \<and> control (t d') = 0x36 \<and>
        unat (reload (t d')) = (1193182 div unat hz) mod 65536 \<and>
        (19 \<le> hz \<longrightarrow> unat (reload (t d')) = 1193182 div unat hz)"
proof (cases "hz = 0")
  case True
  then show ?thesis by (simp add: InitializePIT_def Let_def)
next
  case False
  then obtain d' where d': "InitializePIT P hz d = Some d'" by (simp add: InitializePIT_def Let_def)
  have "t d' = (t d)\<lparr>control := 0x36, low_latch := None, reload := pit_divisor hz\<rparr>"
    using d' False assms [unfolded pit_wired_def]
    by (auto simp: InitializePIT_def Let_def i8254_control_def i8254_data_def pit_control_word split_u16)
  moreover have "19 \<le> hz \<Longrightarrow> 1193182 div unat hz < 65536"
  proof -
    assume "19 \<le> hz"
    then have "19 \<le> unat hz" by (simp add: word_le_nat_alt)
    then have "1193182 div unat hz \<le> 1193182 div 19" by (intro div_le_mono2) simp_all
    then show ?thesis by simp
  qed
  ultimately show ?thesis using d' False by (simp add: unat_pit_divisor)
qed

definition timer_ports :: "i8254 ports" where
  "timer_ports = \<lparr>
     outb = \<lambda>p v c. if p = PIT_COMMAND then i8254_control v c else if p = PIT_CHANNEL0 then i8254_data v c else c,
     inb = \<lambda>_ d. (0, d), out16b = \<lambda>_ _ d. d, in16b = \<lambda>_ d. (0, d), out32b = \<lambda>_ _ d. d, in32b = \<lambda>_ d. (0, d),
     io_wait = \<lambda>d. d\<rparr>"

lemma timer_ports_wired: "pit_wired timer_ports id"
  by (simp add: pit_wired_def timer_ports_def PIT_COMMAND_def PIT_CHANNEL0_def)

definition cold_timer :: i8254 where "cold_timer = \<lparr>control = 0, low_latch = Some 7, reload = 0\<rparr>"

theorem InitializePIT_correct_witness:
  "\<exists>d'. InitializePIT timer_ports 100 cold_timer = Some d' \<and> unat (reload d') = 11931"
  using InitializePIT_correct [OF timer_ports_wired, of 100 cold_timer]
  by (simp split: option.splits)

end
