(* ===== verification/Keyboard.thy ===== *)
theory Keyboard
  imports Interrupt_Controller
begin

text \<open>
  The PS/2 keyboard driver of \<open>include/keyboard.cpp\<close>: a ring of 256 characters filled by the
  interrupt handler and emptied by \<open>getchar\<close>. The ring is proved to be a bounded FIFO queue:
  the locale \<open>bounded_fifo\<close> states what its clients rely on, and the reading of a line from
  such a queue (the loop of \<open>console_read\<close> in \<open>include/file.cpp\<close>) is proved inside it.
\<close>

section \<open>State and operations\<close>

definition scancode_map :: bytes where
  "scancode_map =
     ([0, 27, 49, 50, 51, 52, 53, 54, 55, 56,
      57, 48, 45, 61, 8, 9, 113, 119, 101, 114,
      116, 121, 117, 105, 111, 112, 91, 93, 10, 0,
      97, 115, 100, 102, 103, 104, 106, 107, 108, 59,
      39, 96, 0, 92, 122, 120, 99, 118, 98, 110,
      109, 44, 46, 47, 0, 42, 0, 32, 0, 0] @ replicate 68 0)"

definition scancode_map_shift :: bytes where
  "scancode_map_shift =
     ([0, 27, 33, 64, 35, 36, 37, 94, 38, 42,
      40, 41, 95, 43, 8, 9, 81, 87, 69, 82,
      84, 89, 85, 73, 79, 80, 123, 125, 10, 0,
      65, 83, 68, 70, 71, 72, 74, 75, 76, 58,
      34, 126, 0, 124, 90, 88, 67, 86, 66, 78,
      77, 60, 62, 63, 0, 42, 0, 32, 0, 0] @ replicate 68 0)"

definition SC_L_SHIFT_DOWN :: u8 where "SC_L_SHIFT_DOWN = 0x2A"
definition SC_L_SHIFT_UP :: u8 where "SC_L_SHIFT_UP = 0xAA"
definition SC_R_SHIFT_DOWN :: u8 where "SC_R_SHIFT_DOWN = 0x36"
definition SC_R_SHIFT_UP :: u8 where "SC_R_SHIFT_UP = 0xB6"
definition SC_RELEASE_MASK :: u8 where "SC_RELEASE_MASK = 0x80"
definition SC_EXTENDED_PREFIX :: u8 where "SC_EXTENDED_PREFIX = 0xE0"
definition SC_E0_DELETE :: u8 where "SC_E0_DELETE = 0x53"

lemmas scancode_defs = SC_L_SHIFT_DOWN_def SC_L_SHIFT_UP_def SC_R_SHIFT_DOWN_def SC_R_SHIFT_UP_def
  SC_RELEASE_MASK_def SC_EXTENDED_PREFIX_def SC_E0_DELETE_def

definition BUFFER_SIZE :: u64 where "BUFFER_SIZE = 256"

record kbd =
  kb_buffer :: bytes
  kb_head :: u64
  kb_tail :: u64
  kb_shift :: bool
  kb_extended :: bool

definition static_kbd :: kbd where
  "static_kbd = \<lparr>kb_buffer = replicate 256 0, kb_head = 0, kb_tail = 0, kb_shift = False, kb_extended = False\<rparr>"

definition enqueue :: "u8 \<Rightarrow> kbd \<Rightarrow> kbd" where
  "enqueue c k =
     (if c = 0 then k
      else let head = kb_head k; nx = (head + 1) mod BUFFER_SIZE in
        if nx \<noteq> kb_tail k then k\<lparr>kb_buffer := (kb_buffer k)[unat head := c], kb_head := nx\<rparr> else k)"

definition keyboard_initialize :: "'d ports \<Rightarrow> kbd \<Rightarrow> 'd \<Rightarrow> kbd \<times> 'd" where
  "keyboard_initialize P k d =
     (k\<lparr>kb_head := 0, kb_tail := 0, kb_shift := False, kb_extended := False\<rparr>, unmask_irq P 1 d)"

definition has_input :: "kbd \<Rightarrow> bool" where
  "has_input k \<longleftrightarrow> kb_head k \<noteq> kb_tail k"

definition getchar :: "kbd \<Rightarrow> u8 \<times> kbd" where
  "getchar k =
     (if kb_head k = kb_tail k then (0, k)
      else (kb_buffer k ! unat (kb_tail k), k\<lparr>kb_tail := (kb_tail k + 1) mod BUFFER_SIZE\<rparr>))"

definition handle_scancode :: "u8 \<Rightarrow> kbd \<Rightarrow> kbd" where
  "handle_scancode scancode k =
     (if scancode = SC_EXTENDED_PREFIX then k\<lparr>kb_extended := True\<rparr>
      else if kb_extended k then
        (let k = k\<lparr>kb_extended := False\<rparr> in
         if scancode AND SC_RELEASE_MASK = 0 \<and> scancode = SC_E0_DELETE then enqueue 8 k else k)
      else if scancode = SC_L_SHIFT_DOWN \<or> scancode = SC_R_SHIFT_DOWN then k\<lparr>kb_shift := True\<rparr>
      else if scancode = SC_L_SHIFT_UP \<or> scancode = SC_R_SHIFT_UP then k\<lparr>kb_shift := False\<rparr>
      else if scancode AND SC_RELEASE_MASK \<noteq> 0 then k
      else if unat scancode \<ge> length scancode_map then k
      else enqueue (if kb_shift k then scancode_map_shift ! unat scancode else scancode_map ! unat scancode) k)"

definition handle_irq :: "'d ports \<Rightarrow> kbd \<Rightarrow> 'd \<Rightarrow> kbd \<times> 'd" where
  "handle_irq P k d = (let (scancode, d') = inb P 0x60 d in (handle_scancode scancode k, d'))"

section \<open>The bounded queue the clients see\<close>

text \<open>
  A queue of at most \<open>cap\<close> items with a drop-on-full insertion. \<open>ok\<close> are the items that
  may be inserted at all.
\<close>

locale bounded_fifo =
  fixes enq :: "'a \<Rightarrow> 'q \<Rightarrow> 'q" and deq :: "'q \<Rightarrow> 'a \<times> 'q" and nonempty :: "'q \<Rightarrow> bool"
    and abs :: "'q \<Rightarrow> 'a list" and invar :: "'q \<Rightarrow> bool" and cap :: nat and ok :: "'a \<Rightarrow> bool"
  assumes enq_abs: "invar q \<Longrightarrow> ok x \<Longrightarrow> abs (enq x q) = (if length (abs q) < cap then abs q @ [x] else abs q)"
    and enq_invar: "invar q \<Longrightarrow> ok x \<Longrightarrow> invar (enq x q)"
    and nonempty_abs: "invar q \<Longrightarrow> nonempty q \<longleftrightarrow> abs q \<noteq> []"
    and deq_abs: "invar q \<Longrightarrow> abs q \<noteq> [] \<Longrightarrow> fst (deq q) = hd (abs q) \<and> abs (snd (deq q)) = tl (abs q)"
    and deq_invar: "invar q \<Longrightarrow> abs q \<noteq> [] \<Longrightarrow> invar (snd (deq q))"
    and ok_abs: "invar q \<Longrightarrow> list_all ok (abs q)"
    and bounded: "invar q \<Longrightarrow> length (abs q) \<le> cap"
begin

lemma enq_all:
  assumes "invar q" "list_all ok xs"
  shows "invar (fold enq xs q)" and "abs (fold enq xs q) = take cap (abs q @ xs)"
proof -
  have "invar (fold enq xs q) \<and> abs (fold enq xs q) = take cap (abs q @ xs)"
    using assms
  proof (induction xs arbitrary: q)
    case Nil
    then show ?case using bounded by simp
  next
    case (Cons x xs)
    then have "invar (enq x q)" using enq_invar by simp
    then have "invar (fold enq xs (enq x q)) \<and> abs (fold enq xs (enq x q)) = take cap (abs (enq x q) @ xs)"
      using Cons by simp
    moreover have "take cap (abs (enq x q) @ xs) = take cap (abs q @ x # xs)"
    proof (cases "length (abs q) < cap")
      case True
      then obtain n where "cap = Suc (length (abs q) + n)" using less_imp_Suc_add by blast
      then show ?thesis using Cons.prems by (simp add: enq_abs)
    next
      case False
      then show ?thesis using Cons.prems by (simp add: enq_abs)
    qed
    ultimately show ?case by simp
  qed
  then show "invar (fold enq xs q)" and "abs (fold enq xs q) = take cap (abs q @ xs)" by simp_all
qed

text \<open>Removing an item and inserting another commute while the queue is neither empty nor full:
  a producer that interrupts the consumer anywhere does not disturb it.\<close>

lemma enq_deq_commute:
  assumes "invar q" "ok x" "abs q \<noteq> []" "length (abs q) < cap"
  shows "fst (deq (enq x q)) = fst (deq q)" and "abs (snd (deq (enq x q))) = abs (enq x (snd (deq q)))"
proof -
  have e: "invar (enq x q)" "abs (enq x q) = abs q @ [x]" using assms by (simp_all add: enq_abs enq_invar)
  have d: "fst (deq q) = hd (abs q)" "abs (snd (deq q)) = tl (abs q)" "invar (snd (deq q))"
    using assms deq_abs deq_invar by auto
  have "length (tl (abs q)) < cap" using assms by simp
  then have d': "abs (enq x (snd (deq q))) = tl (abs q) @ [x]" using d assms(2) by (simp add: enq_abs)
  have "fst (deq (enq x q)) = hd (abs q @ [x])" "abs (snd (deq (enq x q))) = tl (abs q @ [x])"
    using deq_abs [OF e(1)] e(2) assms(3) by auto
  with assms(3) d d' show "fst (deq (enq x q)) = fst (deq q)"
    and "abs (snd (deq (enq x q))) = abs (enq x (snd (deq q)))" by simp_all
qed

end

section \<open>The ring is a bounded queue\<close>

definition kb_count :: "kbd \<Rightarrow> nat" where
  "kb_count k = (unat (kb_head k) + 256 - unat (kb_tail k)) mod 256"

definition kb_chars :: "kbd \<Rightarrow> bytes" where
  "kb_chars k = map (\<lambda>i. kb_buffer k ! ((unat (kb_tail k) + i) mod 256)) [0..<kb_count k]"

definition kb_ok :: "kbd \<Rightarrow> bool" where
  "kb_ok k \<longleftrightarrow> length (kb_buffer k) = 256 \<and> kb_head k < 256 \<and> kb_tail k < 256 \<and> 0 \<notin> set (kb_chars k)"

lemma unat_ring_next: "h < (256 :: u64) \<Longrightarrow> unat ((h + 1) mod BUFFER_SIZE) = Suc (unat h) mod 256"
  by (simp add: BUFFER_SIZE_def unat_mod_distrib)

lemma ring_next_less: "(h + 1) mod BUFFER_SIZE < (256 :: u64)"
  unfolding BUFFER_SIZE_def by (rule word_mod_less_divisor) simp

lemma ring_full: "h < 256 \<Longrightarrow> t < 256 \<Longrightarrow> Suc h mod 256 = t \<longleftrightarrow> (h + 256 - t) mod 256 = (255 :: nat)"
proof -
  assume "h < 256" "t < 256"
  then show ?thesis
    by (cases "t \<le> h"; cases "h = 255") (auto simp: mod_if)
qed

lemma ring_push:
  "h < 256 \<Longrightarrow> t < 256 \<Longrightarrow> (h + 256 - t) mod 256 < (255 :: nat) \<Longrightarrow>
     (Suc h mod 256 + 256 - t) mod 256 = Suc ((h + 256 - t) mod 256)"
  by (cases "t \<le> h"; cases "h = 255") (auto simp: mod_if)

lemma ring_pop:
  "h < 256 \<Longrightarrow> t < 256 \<Longrightarrow> h \<noteq> t \<Longrightarrow>
     (h + 256 - Suc t mod 256) mod 256 = (h + 256 - t) mod 256 - (1 :: nat)"
  by (cases "t \<le> h"; cases "t = 255") (auto simp: mod_if)

lemma ring_slot:
  fixes h t i :: nat
  assumes "h < 256" "t < 256" "i \<le> (h + 256 - t) mod 256"
  shows "(t + i) mod 256 = h \<longleftrightarrow> i = (h + 256 - t) mod 256"
proof (cases "t \<le> h")
  case True
  then have c: "(h + 256 - t) mod 256 = h - t" using assms by (simp add: mod_if)
  with assms True have "(t + i) mod 256 = t + i" by simp
  with c True show ?thesis by auto
next
  case False
  then have c: "(h + 256 - t) mod 256 = h + 256 - t" using assms by simp
  show ?thesis
  proof (cases "t + i < 256")
    case True
    then show ?thesis using c False by simp
  next
    case ge: False
    then have "(t + i) mod 256 = t + i - 256" using assms c False by (simp add: mod_if)
    with c ge False assms(1,2) show ?thesis by auto
  qed
qed

lemma kb_okD:
  assumes "kb_ok k"
  shows "unat (kb_head k) < 256" "unat (kb_tail k) < 256" "length (kb_buffer k) = 256"
    "0 \<notin> set (kb_chars k)" "kb_head k < 256" "kb_tail k < 256"
  using assms by (auto simp: kb_ok_def word_less_nat_alt)

lemma length_kb_chars [simp]: "length (kb_chars k) = kb_count k"
  by (simp add: kb_chars_def)

lemma kb_count_bound: "kb_count k < 256"
  by (simp add: kb_count_def)

lemma kb_count_zero: "kb_ok k \<Longrightarrow> kb_count k = 0 \<longleftrightarrow> kb_head k = kb_tail k"
proof -
  assume k: "kb_ok k"
  have "kb_count k = 0 \<longleftrightarrow> unat (kb_head k) = unat (kb_tail k)"
    using kb_okD [OF k] by (cases "unat (kb_tail k) \<le> unat (kb_head k)") (auto simp: kb_count_def mod_if)
  then show ?thesis by (simp add: word_unat_eq_iff)
qed

lemma enqueue_chars:
  assumes k: "kb_ok k" and c: "c \<noteq> 0"
  shows "kb_chars (enqueue c k) = (if kb_count k < 255 then kb_chars k @ [c] else kb_chars k)"
    and "kb_ok (enqueue c k)"
proof -
  note kd = kb_okD [OF k]
  let ?h = "unat (kb_head k)" and ?t = "unat (kb_tail k)"
  have full: "(kb_head k + 1) mod BUFFER_SIZE = kb_tail k \<longleftrightarrow> kb_count k = 255"
    using ring_full [OF kd(1,2)] kd(5) by (simp add: word_unat_eq_iff unat_ring_next kb_count_def)
  have "kb_chars (enqueue c k) = (if kb_count k < 255 then kb_chars k @ [c] else kb_chars k) \<and> kb_ok (enqueue c k)"
  proof (cases "kb_count k < 255")
    case False
    then have "kb_count k = 255" using kb_count_bound [of k] by linarith
    with full c k show ?thesis by (simp add: enqueue_def Let_def)
  next
    case True
    let ?k = "k\<lparr>kb_buffer := (kb_buffer k)[?h := c], kb_head := (kb_head k + 1) mod BUFFER_SIZE\<rparr>"
    have e: "enqueue c k = ?k" using True full c by (auto simp: enqueue_def Let_def)
    have cnt: "kb_count ?k = Suc (kb_count k)"
      using ring_push [OF kd(1,2)] True kd(5) by (simp add: kb_count_def unat_ring_next)
    have slot: "(?t + i) mod 256 = ?h \<longleftrightarrow> i = kb_count k" if "i \<le> kb_count k" for i
      using ring_slot [OF kd(1,2)] that by (simp add: kb_count_def)
    have "kb_chars ?k = kb_chars k @ [c]"
    proof (rule nth_equalityI)
      show "length (kb_chars ?k) = length (kb_chars k @ [c])" using cnt by simp
      fix i assume "i < length (kb_chars ?k)"
      then have "i \<le> kb_count k" using cnt by simp
      then show "kb_chars ?k ! i = (kb_chars k @ [c]) ! i"
        using cnt slot [of i] kd(1,3) by (auto simp: kb_chars_def nth_append)
    qed
    moreover from this have "kb_ok ?k"
      using kd c by (auto simp: kb_ok_def ring_next_less)
    ultimately show ?thesis using True e by simp
  qed
  then show "kb_chars (enqueue c k) = (if kb_count k < 255 then kb_chars k @ [c] else kb_chars k)"
    and "kb_ok (enqueue c k)" by simp_all
qed

lemma getchar_chars:
  assumes k: "kb_ok k" and ne: "kb_chars k \<noteq> []"
  shows "fst (getchar k) = hd (kb_chars k)" and "kb_chars (snd (getchar k)) = tl (kb_chars k)"
    and "kb_ok (snd (getchar k))"
proof -
  note kd = kb_okD [OF k]
  let ?t = "unat (kb_tail k)"
  let ?k = "k\<lparr>kb_tail := (kb_tail k + 1) mod BUFFER_SIZE\<rparr>"
  have pos: "kb_count k \<noteq> 0" using ne by (simp flip: length_kb_chars)
  then have neq: "kb_head k \<noteq> kb_tail k" using kb_count_zero [OF k] by simp
  then have g: "getchar k = (kb_buffer k ! ?t, ?k)" by (simp add: getchar_def)
  show "fst (getchar k) = hd (kb_chars k)"
    using g pos kd(2) by (simp add: kb_chars_def hd_map)
  have cnt: "kb_count ?k = kb_count k - 1"
    using ring_pop [OF kd(1,2)] neq kd(6) by (simp add: kb_count_def unat_ring_next word_unat_eq_iff)
  have tl: "kb_chars ?k = tl (kb_chars k)"
  proof (rule nth_equalityI)
    show "length (kb_chars ?k) = length (tl (kb_chars k))" using cnt by simp
    fix i assume i: "i < length (kb_chars ?k)"
    have "(Suc ?t mod 256 + i) mod 256 = (?t + Suc i) mod 256" by (simp add: mod_simps)
    moreover have "[0..<kb_count k] ! Suc i = Suc i" using i cnt by (intro nth_upt [of 0, simplified]) simp
    ultimately show "kb_chars ?k ! i = tl (kb_chars k) ! i" using i cnt kd(6)
      by (simp add: nth_tl kb_chars_def unat_ring_next)
  qed
  then show "kb_chars (snd (getchar k)) = tl (kb_chars k)" using g by simp
  have "set (tl (kb_chars k)) \<subseteq> set (kb_chars k)" using ne by (cases "kb_chars k") auto
  then have "kb_ok ?k" using kd tl by (auto simp: kb_ok_def ring_next_less)
  then show "kb_ok (snd (getchar k))" using g by simp
qed

interpretation kb: bounded_fifo enqueue getchar has_input kb_chars kb_ok 255 "\<lambda>c. c \<noteq> 0"
proof
  fix q x
  assume q: "kb_ok q"
  show "has_input q = (kb_chars q \<noteq> [])"
    using kb_count_zero [OF q] length_kb_chars [of q] by (auto simp: has_input_def simp del: length_kb_chars)
  show "list_all (\<lambda>c. c \<noteq> 0) (kb_chars q)" using kb_okD(4) [OF q] by (auto simp: list_all_iff)
  show "length (kb_chars q) \<le> 255" using kb_count_bound [of q] by simp
  show "kb_chars q \<noteq> [] \<Longrightarrow> fst (getchar q) = hd (kb_chars q) \<and> kb_chars (snd (getchar q)) = tl (kb_chars q)"
    and "kb_chars q \<noteq> [] \<Longrightarrow> kb_ok (snd (getchar q))"
    using getchar_chars [OF q] by simp_all
  show "x \<noteq> 0 \<Longrightarrow> kb_chars (enqueue x q) = (if length (kb_chars q) < 255 then kb_chars q @ [x] else kb_chars q)"
    and "x \<noteq> 0 \<Longrightarrow> kb_ok (enqueue x q)"
    using enqueue_chars [OF q] by simp_all
qed

section \<open>What the interrupt handler types\<close>

text \<open>
  The specification of the decoder, without its order of tests: the prefix flag says that
  the previous code was the prefix; shift follows the unprefixed make and break codes of
  the two shift keys; a make code types its table entry, if it has one.
\<close>

definition shift_after :: "bool \<Rightarrow> bool \<Rightarrow> u8 \<Rightarrow> bool" where
  "shift_after e sh c = (if \<not> e \<and> c AND 0x7F \<in> {0x2A, 0x36} then c < 0x80 else sh)"

definition types :: "bool \<Rightarrow> bool \<Rightarrow> u8 \<Rightarrow> bytes" where
  "types e sh c =
     (if e then (if c = 0x53 then [8] else [])
      else if c < 0x80 then filter (\<lambda>x. x \<noteq> 0) [(if sh then scancode_map_shift else scancode_map) ! unat c]
      else [])"

fun typed :: "bool \<Rightarrow> bool \<Rightarrow> u8 list \<Rightarrow> bytes" where
  "typed e sh [] = []"
| "typed e sh (c # cs) = types e sh c @ typed (c = 0xE0) (shift_after e sh c) cs"

lemma length_scancode_map [simp]: "length scancode_map = 128"
  by (simp add: scancode_map_def)

lemma shift_keys_type_nothing:
  "scancode_map ! 42 = 0" "scancode_map ! 54 = 0" "scancode_map_shift ! 42 = 0" "scancode_map_shift ! 54 = 0"
  by (simp_all add: scancode_map_def scancode_map_shift_def)

lemma release_bit: "c AND 0x80 = 0 \<longleftrightarrow> c < (0x80 :: u8)"
proof -
  have "c AND 0x80 = c AND 2 ^ 7" by simp
  then have "c AND 0x80 = 0 \<longleftrightarrow> \<not> bit c 7" by (simp only: and_exp_eq_0_iff_not_bit)
  also have "\<dots> \<longleftrightarrow> \<not> bit (unat c) 7" by (simp add: bit_unsigned_iff)
  also have "\<dots> \<longleftrightarrow> even (unat c div 128)" by (simp add: bit_iff_odd)
  also have "\<dots> \<longleftrightarrow> unat c < 128"
  proof -
    have "unat c < 256" using unsigned_less [of c] by simp
    then have "unat c div 128 = (if unat c < 128 then 0 else 1)" by auto
    then show ?thesis by simp
  qed
  finally show ?thesis by (simp add: word_less_nat_alt)
qed

lemma shift_codes: "c AND 0x7F \<in> {0x2A, 0x36} \<longleftrightarrow> c \<in> {0x2A, 0xAA, 0x36, 0xB6 :: u8}"
proof -
  have "(0x7F :: u8) = mask 7" by (simp add: mask_eq_exp_minus_1)
  then have "c AND 0x7F = take_bit 7 c" by (simp only: take_bit_eq_mask)
  then have u: "unat (c AND 0x7F) = unat c mod 128" by (simp add: take_bit_eq_mod unat_mod_distrib)
  have "unat c < 256" using unsigned_less [of c] by simp
  then have "unat c mod 128 = (if unat c < 128 then unat c else unat c - 128)" by (simp add: mod_if)
  with u show ?thesis by (auto simp: word_unat_eq_iff)
qed

text \<open>One scan code: the three effects agree with the specification.\<close>

lemma enqueue_flags [simp]:
  "kb_extended (enqueue c k) = kb_extended k" "kb_shift (enqueue c k) = kb_shift k"
  by (simp_all add: enqueue_def Let_def)

lemma enqueue_zero [simp]: "enqueue 0 k = k"
  by (simp add: enqueue_def)

lemma kb_chars_flags [simp]:
  "kb_chars (k\<lparr>kb_extended := e\<rparr>) = kb_chars k" "kb_chars (k\<lparr>kb_shift := e\<rparr>) = kb_chars k"
  "kb_ok (k\<lparr>kb_extended := e\<rparr>) = kb_ok k" "kb_ok (k\<lparr>kb_shift := e\<rparr>) = kb_ok k"
  by (simp_all add: kb_chars_def kb_count_def kb_ok_def)

lemma handle_scancode_step:
  "handle_scancode c k =
     fold enqueue (types (kb_extended k) (kb_shift k) c)
       (k\<lparr>kb_extended := (c = 0xE0), kb_shift := shift_after (kb_extended k) (kb_shift k) c\<rparr>)"
proof -
  have lt: "c < 0x80 \<Longrightarrow> unat c < 128" by (simp add: word_less_nat_alt)
  show ?thesis
  proof (cases "c \<in> {0x2A, 0xAA, 0x36, 0xB6, 0xE0}")
    case True
    then show ?thesis
      by (elim insertE) (auto simp: handle_scancode_def scancode_defs types_def shift_after_def shift_keys_type_nothing Let_def)
  next
    case False
    then have "\<not> c AND 0x7F \<in> {0x2A, 0x36}" using shift_codes by auto
    with False lt show ?thesis
      by (cases k) (auto simp: handle_scancode_def scancode_defs types_def shift_after_def release_bit Let_def not_le)
  qed
qed

lemma types_nonzero: "list_all (\<lambda>c. c \<noteq> 0) (types e sh c)"
  by (simp add: types_def list_all_iff)

lemma take_take_append: "take n (take n xs @ ys) = take n (xs @ ys)"
  by (simp add: min_def)

lemma handle_scancodes:
  assumes "kb_ok k"
  shows "kb_ok (fold handle_scancode cs k) \<and>
    kb_chars (fold handle_scancode cs k) = take 255 (kb_chars k @ typed (kb_extended k) (kb_shift k) cs)"
  using assms
proof (induction cs arbitrary: k)
  case Nil
  then show ?case using kb.bounded [of k] by simp
next
  case (Cons c cs)
  let ?e = "types (kb_extended k) (kb_shift k) c"
  let ?j = "k\<lparr>kb_extended := (c = 0xE0), kb_shift := shift_after (kb_extended k) (kb_shift k) c\<rparr>"
  let ?k = "fold enqueue ?e ?j"
  have flags: "kb_extended ?k = (c = 0xE0)" "kb_shift ?k = shift_after (kb_extended k) (kb_shift k) c"
    by (simp_all add: types_def)
  have ok0: "kb_ok ?j" and ch0: "kb_chars ?j = kb_chars k" using Cons.prems by simp_all
  note e = kb.enq_all [OF ok0 types_nonzero, of "kb_extended k" "kb_shift k" c]
  from Cons.IH [OF e(1)] show ?case
    by (simp add: handle_scancode_step flags e(2) ch0 take_take_append del: take_append)
qed

text \<open>The handler run \<open>n\<close> times, and the codes the controller hands out meanwhile.\<close>

primrec irq_run :: "'d ports \<Rightarrow> nat \<Rightarrow> kbd \<Rightarrow> 'd \<Rightarrow> kbd \<times> 'd" where
  "irq_run P 0 k d = (k, d)"
| "irq_run P (Suc n) k d = (let (k', d') = handle_irq P k d in irq_run P n k' d')"

primrec codes :: "'d ports \<Rightarrow> nat \<Rightarrow> 'd \<Rightarrow> u8 list" where
  "codes P 0 d = []"
| "codes P (Suc n) d = (let (c, d') = inb P 0x60 d in c # codes P n d')"

lemma irq_run_fold: "fst (irq_run P n k d) = fold handle_scancode (codes P n d) k"
  by (induction n arbitrary: k d) (simp_all add: handle_irq_def split_def Let_def)

text \<open>
  C23. After initialisation, \<open>n\<close> keyboard interrupts leave in the ring exactly the
  characters the scan codes type, in order, cut at the 255 the ring can hold; the ring
  invariant holds and interrupt line 1 is unmasked.
\<close>

theorem keyboard_types:
  assumes "length (kb_buffer k0) = 256" and "pic_wired P m s" "phase (m d0) = Ready" "phase (s d0) = Ready"
    and "keyboard_initialize P k0 d0 = (k1, d1)" and "irq_run P n k1 d1 = (k, d)"
  shows "kb_ok k \<and> kb_chars k = take 255 (typed False False (codes P n d1)) \<and>
    masked (m d1) (s d1) = masked (m d0) (s d0) - {1}"
proof -
  have k1: "k1 = k0\<lparr>kb_head := 0, kb_tail := 0, kb_shift := False, kb_extended := False\<rparr>"
    and d1: "d1 = unmask_irq P 1 d0"
    using assms(5) by (auto simp: keyboard_initialize_def)
  have empty: "kb_chars k1 = []" by (simp add: k1 kb_chars_def kb_count_def)
  then have "kb_ok k1" using assms(1) by (simp add: kb_ok_def k1)
  from handle_scancodes [OF this, of "codes P n d1"] irq_run_fold [of P n k1 d1] assms(6) empty
  have "kb_ok k \<and> kb_chars k = take 255 (typed (kb_extended k1) (kb_shift k1) (codes P n d1))"
    by (simp del: take_append)
  then have "kb_ok k \<and> kb_chars k = take 255 (typed False False (codes P n d1))" by (simp add: k1)
  moreover have "masked (m d1) (s d1) = masked (m d0) (s d0) - {1}"
    using irq_lines(2) [OF assms(2-4), of 1] by (simp add: d1)
  ultimately show ?thesis by simp
qed

text \<open>A keyboard controller that hands out a list of codes beside a pair of controllers.\<close>

definition kbd_ports :: "((i8259 \<times> i8259) \<times> u8 list) ports" where
  "kbd_ports = \<lparr>
     outb = \<lambda>p v (c, q). (outb chip_ports p v c, q),
     inb = \<lambda>p (c, q). if p = 0x60 then (case q of [] \<Rightarrow> (0, (c, q)) | x # xs \<Rightarrow> (x, (c, xs)))
                      else (fst (inb chip_ports p c), (snd (inb chip_ports p c), q)),
     out16b = \<lambda>_ _ d. d, in16b = \<lambda>_ d. (0, d), out32b = \<lambda>_ _ d. d, in32b = \<lambda>_ d. (0, d),
     io_wait = \<lambda>d. d\<rparr>"

lemma kbd_ports_wired: "pic_wired kbd_ports (fst \<circ> fst) (snd \<circ> fst)"
  using chip_ports_wired
  by (auto simp: pic_wired_def kbd_ports_def pic_port_defs split_def)

lemma codes_kbd_ports: "codes kbd_ports (length q) (c, q) = q"
  by (induction q) (simp_all add: kbd_ports_def)

lemma unmask_kbd_ports: "\<exists>c'. unmask_irq kbd_ports 1 (c, q) = (c', q)"
  by (simp add: unmask_irq_def kbd_ports_def split_def Let_def irq_port_def PIC1_DATA_def)

definition idle_chips :: "i8259 \<times> i8259" where
  "idle_chips = (reset_chip\<lparr>phase := Ready, imr := 0xFF\<rparr>, reset_chip\<lparr>phase := Ready, imr := 0xFF\<rparr>)"

text \<open>Shift down, \<open>h\<close>, shift up, \<open>i\<close>, Enter: the ring holds \<open>Hi\<close> and a newline.\<close>

theorem keyboard_types_witness:
  "kb_chars (fst (irq_run kbd_ports 5 (fst (keyboard_initialize kbd_ports static_kbd (idle_chips, [0x2A, 0x23, 0xAA, 0x17, 0x1C])))
     (snd (keyboard_initialize kbd_ports static_kbd (idle_chips, [0x2A, 0x23, 0xAA, 0x17, 0x1C]))))) = [72, 105, 10]"
proof -
  let ?d0 = "(idle_chips, [0x2A, 0x23, 0xAA, 0x17, 0x1C])"
  let ?i = "keyboard_initialize kbd_ports static_kbd ?d0"
  let ?r = "irq_run kbd_ports 5 (fst ?i) (snd ?i)"
  have "kb_chars (fst ?r) = take 255 (typed False False (codes kbd_ports 5 (snd ?i)))"
    using keyboard_types [OF _ kbd_ports_wired, of static_kbd ?d0 "fst ?i" "snd ?i" 5 "fst ?r" "snd ?r"]
    by (simp add: static_kbd_def idle_chips_def)
  moreover have "codes kbd_ports 5 (snd ?i) = [0x2A, 0x23, 0xAA, 0x17, 0x1C]"
  proof -
    obtain c where "snd ?i = (c, [0x2A, 0x23, 0xAA, 0x17, 0x1C])"
      using unmask_kbd_ports [of idle_chips "[0x2A, 0x23, 0xAA, 0x17, 0x1C]"] by (auto simp: keyboard_initialize_def)
    then show ?thesis using codes_kbd_ports [of "[0x2A, 0x23, 0xAA, 0x17, 0x1C]" c]
      by (simp add: eval_nat_numeral)
  qed
  moreover have "typed False False [0x2A, 0x23, 0xAA, 0x17, 0x1C] = [72, 105, 10]"
    by (simp add: types_def shift_after_def scancode_map_def scancode_map_shift_def)
  ultimately show ?thesis by (simp del: typed.simps)
qed

end
