(* ===== verification/File_Table.thy ===== *)
theory File_Table
  imports Path_Walk Keyboard
begin

text \<open>
  The open-file layer of \<open>include/file.cpp\<close>: the system-wide table of \<open>File\<close> objects that file
  descriptors point to, their reference counts, and reading and writing through them, on
  the console (keyboard in, console out) and on inodes. A \<open>File *\<close> is an index into the
  table, \<open>None\<close> being \<open>nullptr\<close>.
\<close>

section \<open>State\<close>

datatype FileType = kNone | kConsole | kInode

record File =
  f_type :: FileType
  f_refcnt :: int
  f_readable :: bool
  f_writable :: bool
  f_inode :: InodeRef
  f_offset :: u32

definition NUM_FILES :: nat where "NUM_FILES = 100"

definition File_init :: File where
  "File_init = \<lparr>f_type = kNone, f_refcnt = 0, f_readable = False, f_writable = False, f_inode = None, f_offset = 0\<rparr>"

text \<open>
  \<open>file_console\<close> says whether an output console is registered, \<open>console_out\<close> is what has been
  written to it; the null console drops its output.
\<close>

record 's filesys =
  file_table :: "File list"
  file_console :: bool
  console_out :: bytes
  keyb :: kbd
  disk :: "'s fsys"

definition static_file_table :: "File list" where
  "static_file_table = replicate NUM_FILES File_init"

section \<open>Reading a line from the console\<close>

text \<open>
  \<open>sti; hlt\<close> sleeps until the next interrupt. The interrupts to come are a list: \<open>Some c\<close> is the
  keyboard interrupt for scan code \<open>c\<close>, \<open>None\<close> any other one. When the list is exhausted the
  processor stays halted and the call does not return, which is the result \<open>None\<close>.
\<close>

type_synonym irqs = "u8 option list"

definition deliver :: "u8 option \<Rightarrow> kbd \<Rightarrow> kbd" where
  "deliver e k = (case e of None \<Rightarrow> k | Some c \<Rightarrow> handle_scancode c k)"

function console_read_loop :: "u32 \<Rightarrow> u32 \<Rightarrow> bytes \<Rightarrow> kbd \<Rightarrow> irqs \<Rightarrow> (u32 \<times> bytes \<times> kbd \<times> irqs) option" where
  "console_read_loop count dn dest k es =
     (if \<not> dn < count then Some (dn, dest, k, es)
      else if \<not> has_input k then (case es of [] \<Rightarrow> None | e # es' \<Rightarrow> console_read_loop count dn dest (deliver e k) es')
      else let (c, k') = getchar k in
        if c = 0 then Some (dn, dest, k', es)
        else if c = 10 then Some (dn + 1, dest @ [c], k', es)
        else console_read_loop count (dn + 1) (dest @ [c]) k' es)"
  by pat_completeness auto
termination
  by (relation "measures [\<lambda>(count, dn, dest, k, es). length es, \<lambda>(count, dn, dest, k, es). unat count - unat dn]") (auto simp: word_less_nat_alt)

declare console_read_loop.simps [simp del]

definition console_read :: "u32 \<Rightarrow> kbd \<Rightarrow> irqs \<Rightarrow> (u32 \<times> bytes \<times> kbd \<times> irqs) option" where
  "console_read count k es = console_read_loop count 0 [] k es"

section \<open>Operations on the file table\<close>

definition upd_file :: "nat \<Rightarrow> (File \<Rightarrow> File) \<Rightarrow> 's filesys \<Rightarrow> 's filesys" where
  "upd_file i f s = s\<lparr>file_table := upd_at i f (file_table s)\<rparr>"

definition file_set_console :: "bool \<Rightarrow> 's filesys \<Rightarrow> 's filesys" where
  "file_set_console con s = s\<lparr>file_console := con\<rparr>"

definition file_allocate :: "'s filesys \<Rightarrow> nat option \<times> 's filesys" where
  "file_allocate s =
     (case find (\<lambda>i. f_refcnt (file_table s ! i) = 0) [0..<length (file_table s)] of
        Some i \<Rightarrow> (Some i, upd_file i (\<lambda>f. f\<lparr>f_refcnt := 1\<rparr>) s)
      | None \<Rightarrow> (None, s))"

definition file_duplicate :: "nat option \<Rightarrow> 's filesys \<Rightarrow> nat option \<times> 's filesys" where
  "file_duplicate file s =
     (case file of
        None \<Rightarrow> (None, s)
      | Some i \<Rightarrow> (Some i, upd_file i (\<lambda>f. f\<lparr>f_refcnt := f_refcnt f + 1\<rparr>) s))"

definition file_close :: "nat option \<Rightarrow> 's filesys \<Rightarrow> 's filesys" where
  "file_close file s =
     (case file of
        None \<Rightarrow> s
      | Some i \<Rightarrow>
          if f_refcnt (file_table s ! i) \<le> 0 then s
          else let s1 = upd_file i (\<lambda>f. f\<lparr>f_refcnt := f_refcnt f - 1\<rparr>) s in
            if f_refcnt (file_table s1 ! i) > 0 then s1
            else let s2 = s1\<lparr>disk := InodeRef_reset (f_inode (file_table s1 ! i)) (disk s1)\<rparr> in
              upd_file i (\<lambda>f. f\<lparr>f_inode := None, f_type := kNone, f_readable := False, f_writable := False, f_offset := 0\<rparr>) s2)"

definition file_open_console :: "bool \<Rightarrow> bool \<Rightarrow> 's filesys \<Rightarrow> nat option \<times> 's filesys" where
  "file_open_console readable writable s =
     (case file_allocate s of
        (None, s1) \<Rightarrow> (None, s1)
      | (Some i, s1) \<Rightarrow> (Some i, upd_file i (\<lambda>f. f\<lparr>f_type := kConsole, f_readable := readable, f_writable := writable\<rparr>) s1))"

text \<open>
  \<open>file_read\<close> and \<open>file_write\<close> do not return (\<open>None\<close>) when a console read runs out of interrupts or
  when a \<open>kInode\<close> file holds no inode (a null dereference). Otherwise the result is the
  returned optional count, the bytes stored in \<open>dest\<close>, the interrupts left, and the state.
\<close>

definition file_read :: "nat \<Rightarrow> u32 \<Rightarrow> irqs \<Rightarrow> 's filesys \<Rightarrow> (u32 option \<times> bytes \<times> irqs \<times> 's filesys) option" where
  "file_read i count es s =
     (let file = file_table s ! i in
      if \<not> f_readable file then Some (None, [], es, s)
      else (case f_type file of
          kConsole \<Rightarrow>
            (case console_read count (keyb s) es of
               None \<Rightarrow> None
             | Some (n, out, k, es') \<Rightarrow> Some (Some n, out, es', s\<lparr>keyb := k\<rparr>))
        | kInode \<Rightarrow>
            (case f_inode file of
               None \<Rightarrow> None
             | Some j \<Rightarrow>
                 (case read_data (inode_table (disk s) ! j) (f_offset file) count (fsys_fs (disk s)) of
                    (r, out, t) \<Rightarrow>
                      let s1 = s\<lparr>disk := (disk s)\<lparr>fsys_fs := t\<rparr>\<rparr> in
                      Some (r, out, es, (case r of None \<Rightarrow> s1
                                         | Some n \<Rightarrow> upd_file i (\<lambda>f. f\<lparr>f_offset := f_offset f + n\<rparr>) s1))))
        | kNone \<Rightarrow> Some (None, [], es, s)))"

definition file_write :: "nat \<Rightarrow> bytes \<Rightarrow> u32 \<Rightarrow> 's filesys \<Rightarrow> (u32 option \<times> 's filesys) option" where
  "file_write i source count s =
     (let file = file_table s ! i in
      if \<not> f_writable file then Some (None, s)
      else (case f_type file of
          kConsole \<Rightarrow>
            Some (Some count,
              if file_console s then s\<lparr>console_out := console_out s @ take (unat count) source\<rparr> else s)
        | kInode \<Rightarrow>
            (case f_inode file of
               None \<Rightarrow> None
             | Some j \<Rightarrow>
                 (case write_data (inode_table (disk s) ! j) source (f_offset file) count (fsys_fs (disk s)) of
                    (r, inode, t) \<Rightarrow>
                      let s1 = s\<lparr>disk := upd_inode j (\<lambda>_. inode) ((disk s)\<lparr>fsys_fs := t\<rparr>)\<rparr> in
                      Some (r, (case r of None \<Rightarrow> s1
                                | Some n \<Rightarrow> upd_file i (\<lambda>f. f\<lparr>f_offset := f_offset f + n\<rparr>) s1))))
        | kNone \<Rightarrow> Some (None, s)))"

section \<open>A console read returns one line\<close>

text \<open>
  The specification on the stream of characters still to be read: the first \<open>n\<close> of them, or
  fewer if a newline comes first; \<open>None\<close> if the stream ends before that.
\<close>

fun line :: "nat \<Rightarrow> bytes \<Rightarrow> bytes option" where
  "line 0 cs = Some []"
| "line (Suc n) [] = None"
| "line (Suc n) (c # cs) = (if c = 10 then Some [c] else map_option ((#) c) (line n cs))"

definition incoming :: "kbd \<Rightarrow> irqs \<Rightarrow> bytes" where
  "incoming k es = kb_chars k @ typed (kb_extended k) (kb_shift k) (concat (map (\<lambda>e. case e of None \<Rightarrow> [] | Some c \<Rightarrow> [c]) es))"

lemma getchar_flags: "kb_extended (snd (getchar k)) = kb_extended k" "kb_shift (snd (getchar k)) = kb_shift k"
  by (simp_all add: getchar_def)

text \<open>An interrupt delivered while the ring is empty loses nothing.\<close>

lemma incoming_deliver:
  assumes "kb_ok k" "kb_chars k = []"
  shows "kb_ok (deliver e k)" "incoming (deliver e k) es = incoming k (e # es)"
proof -
  have "kb_ok (deliver e k) \<and> incoming (deliver e k) es = incoming k (e # es)"
  proof (cases e)
    case None
    then show ?thesis using assms by (simp add: deliver_def incoming_def)
  next
    case (Some c)
    have one: "length (types (kb_extended k) (kb_shift k) c) \<le> 1" by (simp add: types_def)
    have "kb_extended (handle_scancode c k) = (c = 0xE0)"
      "kb_shift (handle_scancode c k) = shift_after (kb_extended k) (kb_shift k) c"
      by (simp_all add: handle_scancode_step types_def)
    with handle_scancodes [OF assms(1), of "[c]"] assms(2) one Some show ?thesis
      by (simp add: deliver_def incoming_def)
  qed
  then show "kb_ok (deliver e k)" "incoming (deliver e k) es = incoming k (e # es)" by simp_all
qed

lemma incoming_getchar:
  assumes "kb_ok k" "has_input k"
  shows "incoming k es = fst (getchar k) # incoming (snd (getchar k)) es" "fst (getchar k) \<noteq> 0" "kb_ok (snd (getchar k))"
proof -
  have ne: "kb_chars k \<noteq> []" using kb.nonempty_abs assms by simp
  note g = getchar_chars [OF assms(1) ne]
  have hd: "kb_chars k = fst (getchar k) # kb_chars (snd (getchar k))" using g(1,2) ne by simp
  then show "incoming k es = fst (getchar k) # incoming (snd (getchar k)) es"
    using getchar_flags [of k] by (simp add: incoming_def)
  show "fst (getchar k) \<noteq> 0" using kb_okD(4) [OF assms(1)] hd by (metis list.set_intros(1))
  show "kb_ok (snd (getchar k))" by (rule g(3))
qed

lemma console_read_loop_line:
  assumes "kb_ok k"
  shows "case line (unat count - unat dn) (incoming k es) of
      None \<Rightarrow> console_read_loop count dn dest k es = None
    | Some l \<Rightarrow> \<exists>k' es'. console_read_loop count dn dest k es = Some (dn + of_nat (length l), dest @ l, k', es') \<and>
        kb_ok k' \<and> incoming k es = l @ incoming k' es'"
  using assms
proof (induction count dn dest k es rule: console_read_loop.induct)
  case (1 count dn dest k es)
  note sim = console_read_loop.simps [of count dn dest k es]
  show ?case
  proof (cases "dn < count")
    case False
    then have "unat count - unat dn = 0" by (simp add: word_less_nat_alt)
    then show ?thesis using False 1(3) sim by simp
  next
    case lt: True
    then obtain n where n: "unat count - unat dn = Suc n" "unat count - unat (dn + 1) = n"
      by (metis Suc_diff_Suc word_less_nat_alt word_less_Suc_bound)
    show ?thesis
    proof (cases "has_input k")
      case False
      then have empty: "kb_chars k = []" using kb.nonempty_abs 1(3) by simp
      show ?thesis
      proof (cases es)
        case Nil
        then show ?thesis using False lt empty n sim by (simp add: incoming_def)
      next
        case (Cons e es')
        note d = incoming_deliver [OF 1(3) empty, of e]
        have step: "console_read_loop count dn dest k es = console_read_loop count dn dest (deliver e k) es'"
          using lt False Cons sim by simp
        have same: "incoming k es = incoming (deliver e k) es'" using d(2) Cons by simp
        from lt have "\<not> \<not> dn < count" by simp
        from 1(1) [OF this False Cons d(1)] show ?thesis by (simp only: step same)
      qed
    next
      case True
      obtain c k' where g: "getchar k = (c, k')" by (cases "getchar k")
      note i = incoming_getchar [OF 1(3) True, unfolded g, simplified]
      show ?thesis
      proof (cases "c = 10")
        case nl: True
        have "console_read_loop count dn dest k es = Some (dn + 1, dest @ [c], k', es)"
          using lt True g i(2) nl sim by simp
        then show ?thesis using n i nl by auto
      next
        case other: False
        have ih: "case line n (incoming k' es) of
            None \<Rightarrow> console_read_loop count (dn + 1) (dest @ [c]) k' es = None
          | Some l \<Rightarrow> \<exists>k'' es'. console_read_loop count (dn + 1) (dest @ [c]) k' es =
                Some (dn + 1 + of_nat (length l), (dest @ [c]) @ l, k'', es') \<and>
              kb_ok k'' \<and> incoming k' es = l @ incoming k'' es'"
          using 1(2) [OF _ _ g [symmetric] refl i(2) other i(3)] lt True n by simp
        have step: "console_read_loop count dn dest k es = console_read_loop count (dn + 1) (dest @ [c]) k' es"
          using lt True g i(2) other sim by simp
        show ?thesis
        proof (cases "line n (incoming k' es)")
          case None
          then show ?thesis using ih step n i other by simp
        next
          case (Some l)
          then show ?thesis using ih step n i other by (auto simp: algebra_simps)
        qed
      qed
    qed
  qed
qed

text \<open>
  C17. A console read returns exactly when the characters in the ring and the ones still to
  be typed contain a newline or as many characters as asked for. It then returns the first
  line of them (cut at \<open>count\<close>), and every later character is still in the ring or still to
  be typed: no input is lost or duplicated.
\<close>

theorem console_read_line:
  assumes "kb_ok k"
  shows "case line (unat count) (incoming k es) of
      None \<Rightarrow> console_read count k es = None
    | Some l \<Rightarrow> \<exists>k' es'. console_read count k es = Some (of_nat (length l), l, k', es') \<and>
        kb_ok k' \<and> incoming k es = l @ incoming k' es'"
  using console_read_loop_line [OF assms, where count = count and dn = 0 and dest = "[]" and es = es]
  by (simp add: console_read_def split: option.splits)

definition demo_kbd :: kbd where
  "demo_kbd = enqueue 104 static_kbd"

lemma static_kbd_ok: "kb_ok static_kbd" "kb_chars static_kbd = []"
  by (simp_all add: kb_ok_def kb_chars_def kb_count_def static_kbd_def)

lemma demo_kbd_chars: "kb_ok demo_kbd" "kb_chars demo_kbd = [104]" "\<not> kb_extended demo_kbd" "\<not> kb_shift demo_kbd"
proof -
  have "kb_count static_kbd < 255" by (simp add: kb_count_def static_kbd_def)
  then show "kb_ok demo_kbd" "kb_chars demo_kbd = [104]"
    using enqueue_chars [OF static_kbd_ok(1), of 104] static_kbd_ok(2) by (simp_all add: demo_kbd_def)
qed (simp_all add: demo_kbd_def static_kbd_def)

text \<open>With \<open>h\<close> in the ring, a timer tick, \<open>i\<close>, Enter and another key: the line is read, the last key is left.\<close>

theorem console_read_line_witness:
  "\<exists>k' es'. console_read 80 demo_kbd [None, Some 0x17, Some 0x1C, Some 0x1E] = Some (3, [104, 105, 10], k', es') \<and>
     incoming k' es' = [97]"
proof -
  let ?es = "[None, Some 0x17, Some 0x1C, Some 0x1E] :: irqs"
  have "incoming demo_kbd ?es = [104, 105, 10, 97]"
    using demo_kbd_chars by (simp add: incoming_def types_def shift_after_def scancode_map_def)
  moreover have "line 80 [104, 105, 10, 97] = Some [104, 105, 10]"
  proof -
    have "(80 :: nat) = Suc (Suc (Suc 77))" by simp
    then show ?thesis by (simp only: line.simps) simp
  qed
  ultimately show ?thesis
    using console_read_line [OF demo_kbd_chars(1), of 80 ?es] by auto
qed

section \<open>Reference counts of open files\<close>

definition holders :: "'s filesys \<Rightarrow> nat \<Rightarrow> int" where
  "holders s j = int (card {i. i < NUM_FILES \<and> f_inode (file_table s ! i) = Some j})"

text \<open>
  The invariant of the table: a slot with no reference is in its initial state, and every
  inode is referenced at least once by each file that holds it.
\<close>

definition files_ok :: "'s filesys \<Rightarrow> bool" where
  "files_ok s \<longleftrightarrow>
     length (file_table s) = NUM_FILES \<and>
     (\<forall>i < NUM_FILES. 0 \<le> f_refcnt (file_table s ! i) \<and>
        (f_refcnt (file_table s ! i) = 0 \<longrightarrow> file_table s ! i = File_init)) \<and>
     (\<forall>i < NUM_FILES. \<forall>j. f_inode (file_table s ! i) = Some j \<longrightarrow> j < length (inode_table (disk s))) \<and>
     (\<forall>j < length (inode_table (disk s)). holders s j \<le> in_refcnt (inode_table (disk s) ! j))"

lemma files_okD:
  assumes "files_ok s"
  shows "length (file_table s) = NUM_FILES"
    and "i < NUM_FILES \<Longrightarrow> 0 \<le> f_refcnt (file_table s ! i)"
    and "i < NUM_FILES \<Longrightarrow> f_refcnt (file_table s ! i) = 0 \<Longrightarrow> file_table s ! i = File_init"
    and "i < NUM_FILES \<Longrightarrow> f_inode (file_table s ! i) = Some j \<Longrightarrow> j < length (inode_table (disk s))"
    and "j < length (inode_table (disk s)) \<Longrightarrow> holders s j \<le> in_refcnt (inode_table (disk s) ! j)"
  using assms by (auto simp: files_ok_def)

lemma upd_file_simps [simp]:
  "length (file_table (upd_file i f s)) = length (file_table s)"
  "disk (upd_file i f s) = disk s"
  "i < length (file_table s) \<Longrightarrow> file_table (upd_file i f s) ! i = f (file_table s ! i)"
  "k \<noteq> i \<Longrightarrow> file_table (upd_file i f s) ! k = file_table s ! k"
  "console_out (upd_file i f s) = console_out s" "keyb (upd_file i f s) = keyb s"
  by (simp_all add: upd_file_def)

text \<open>A change that keeps the inodes of the files keeps the counts of their holders.\<close>

lemma holders_cong:
  "(\<And>i. i < NUM_FILES \<Longrightarrow> f_inode (file_table s' ! i) = f_inode (file_table s ! i)) \<Longrightarrow> holders s' j = holders s j"
  by (auto simp: holders_def intro!: arg_cong [where f = card])

lemma files_ok_upd:
  assumes ok: "files_ok s" and i: "i < NUM_FILES"
    and f: "f_inode (f (file_table s ! i)) = f_inode (file_table s ! i)" "0 < f_refcnt (f (file_table s ! i))"
  shows "files_ok (upd_file i f s)"
proof -
  have len: "length (file_table s) = NUM_FILES" using files_okD(1) [OF ok] .
  have same: "f_inode (file_table (upd_file i f s) ! k) = f_inode (file_table s ! k)" if "k < NUM_FILES" for k
    using len i f that by (cases "k = i") simp_all
  have "0 \<le> f_refcnt (file_table (upd_file i f s) ! k) \<and>
      (f_refcnt (file_table (upd_file i f s) ! k) = 0 \<longrightarrow> file_table (upd_file i f s) ! k = File_init)" if "k < NUM_FILES" for k
    using files_okD(2,3) [OF ok that] len i f by (cases "k = i") auto
  then show ?thesis using ok holders_cong [of "upd_file i f s" s] same by (simp add: files_ok_def)
qed

lemma file_allocate_effect:
  assumes ok: "files_ok s" and r: "file_allocate s = (p, s')"
  shows "files_ok s'"
    and "case p of None \<Rightarrow> s' = s \<and> (\<forall>i < NUM_FILES. 0 < f_refcnt (file_table s ! i))
         | Some i \<Rightarrow> i < NUM_FILES \<and> f_refcnt (file_table s ! i) = 0 \<and> s' = upd_file i (\<lambda>f. f\<lparr>f_refcnt := 1\<rparr>) s"
proof -
  let ?P = "\<lambda>i. f_refcnt (file_table s ! i) = 0"
  have len: "length (file_table s) = NUM_FILES" using files_okD(1) [OF ok] .
  have "files_ok s' \<and> (case p of None \<Rightarrow> s' = s \<and> (\<forall>i < NUM_FILES. 0 < f_refcnt (file_table s ! i))
         | Some i \<Rightarrow> i < NUM_FILES \<and> f_refcnt (file_table s ! i) = 0 \<and> s' = upd_file i (\<lambda>f. f\<lparr>f_refcnt := 1\<rparr>) s)"
  proof (cases "find ?P [0..<NUM_FILES]")
    case None
    then have "\<forall>i < NUM_FILES. f_refcnt (file_table s ! i) \<noteq> 0" by (simp add: find_None_props)
    then have "\<forall>i < NUM_FILES. 0 < f_refcnt (file_table s ! i)" using files_okD(2) [OF ok] by (simp add: less_le)
    with None r ok len show ?thesis by (auto simp: file_allocate_def)
  next
    case (Some i)
    then have "i < NUM_FILES" "?P i" using find_Some_props [OF Some] by auto
    moreover have "p = Some i" "s' = upd_file i (\<lambda>f. f\<lparr>f_refcnt := 1\<rparr>) s"
      using Some r len by (simp_all add: file_allocate_def)
    ultimately show ?thesis using files_ok_upd [OF ok, of i "\<lambda>f. f\<lparr>f_refcnt := 1\<rparr>"] by simp
  qed
  then show "files_ok s'"
    and "case p of None \<Rightarrow> s' = s \<and> (\<forall>i < NUM_FILES. 0 < f_refcnt (file_table s ! i))
         | Some i \<Rightarrow> i < NUM_FILES \<and> f_refcnt (file_table s ! i) = 0 \<and> s' = upd_file i (\<lambda>f. f\<lparr>f_refcnt := 1\<rparr>) s" by auto
qed

lemma file_duplicate_ok:
  assumes "files_ok s" "\<And>i. p = Some i \<Longrightarrow> i < NUM_FILES \<and> 0 < f_refcnt (file_table s ! i)"
  shows "files_ok (snd (file_duplicate p s))"
proof (cases p)
  case (Some i)
  then have "i < NUM_FILES" "0 < f_refcnt (file_table s ! i)" using assms(2) by auto
  with files_ok_upd [OF assms(1), of i "\<lambda>f. f\<lparr>f_refcnt := f_refcnt f + 1\<rparr>"] Some show ?thesis
    by (simp add: file_duplicate_def)
qed (use assms in \<open>simp add: file_duplicate_def\<close>)

lemma file_open_console_ok:
  assumes "files_ok s" "file_open_console rd wr s = (p, s')"
  shows "files_ok s'"
proof -
  obtain q s1 where a: "file_allocate s = (q, s1)" by (cases "file_allocate s")
  note e = file_allocate_effect [OF assms(1) a]
  show ?thesis
  proof (cases q)
    case (Some i)
    then have i: "i < NUM_FILES" and s1: "s1 = upd_file i (\<lambda>f. f\<lparr>f_refcnt := 1\<rparr>) s" using e(2) by auto
    have "0 < f_refcnt (file_table s1 ! i)" using i s1 files_okD(1) [OF assms(1)] by simp
    with files_ok_upd [OF e(1) i, of "\<lambda>f. f\<lparr>f_type := kConsole, f_readable := rd, f_writable := wr\<rparr>"] a Some assms(2)
    show ?thesis by (auto simp: file_open_console_def)
  qed (use a assms(2) e(1) in \<open>auto simp: file_open_console_def\<close>)
qed

text \<open>Removing file \<open>i\<close> from the holders of its inode.\<close>

lemma holders_remove:
  assumes i: "i < NUM_FILES" and s': "f_inode (file_table s' ! i) = None"
    "\<And>k. k < NUM_FILES \<Longrightarrow> k \<noteq> i \<Longrightarrow> f_inode (file_table s' ! k) = f_inode (file_table s ! k)"
  shows "holders s' j = holders s j - (if f_inode (file_table s ! i) = Some j then 1 else 0)"
proof -
  let ?H = "{k. k < NUM_FILES \<and> f_inode (file_table s ! k) = Some j}"
  have H': "{k. k < NUM_FILES \<and> f_inode (file_table s' ! k) = Some j} = ?H - {i}"
  proof (rule set_eqI)
    fix k
    show "k \<in> {k. k < NUM_FILES \<and> f_inode (file_table s' ! k) = Some j} \<longleftrightarrow> k \<in> ?H - {i}"
      using s'(1) s'(2) [of k] by (cases "k = i") auto
  qed
  show ?thesis
  proof (cases "f_inode (file_table s ! i) = Some j")
    case True
    then have "i \<in> ?H" using i by simp
    then have "card ?H = Suc (card (?H - {i}))" by (intro card.remove) simp_all
    then show ?thesis unfolding holders_def H' using True by simp
  next
    case False
    then have "?H - {i} = ?H" by auto
    then show ?thesis unfolding holders_def H' using False by simp
  qed
qed

lemma put_inode_effect:
  assumes "j < length (inode_table d)" "0 < in_refcnt (inode_table d ! j)"
  shows "fsys_fs (put_inode j d) = fsys_fs d" "length (inode_table (put_inode j d)) = length (inode_table d)"
    "k < length (inode_table d) \<Longrightarrow> inode_table (put_inode j d) ! k =
       (inode_table d ! k)\<lparr>in_refcnt := in_refcnt (inode_table d ! k) - (if k = j then 1 else 0)\<rparr>"
  using assms by (auto simp: put_inode_def upd_inode_def nth_upd_at)

text \<open>The last close: the slot is in its initial state and the inode has lost one reference.\<close>

lemma file_close_last:
  assumes ok: "files_ok s" and i: "i < NUM_FILES" and one: "f_refcnt (file_table s ! i) = 1" and s': "s' = file_close (Some i) s"
  shows "file_table s' ! i = File_init" and "length (file_table s') = NUM_FILES"
    and "k < NUM_FILES \<Longrightarrow> k \<noteq> i \<Longrightarrow> file_table s' ! k = file_table s ! k"
    and "fsys_fs (disk s') = fsys_fs (disk s)" and "length (inode_table (disk s')) = length (inode_table (disk s))"
    and "j < length (inode_table (disk s)) \<Longrightarrow> inode_table (disk s') ! j =
      (inode_table (disk s) ! j)\<lparr>in_refcnt := in_refcnt (inode_table (disk s) ! j) -
        (if f_inode (file_table s ! i) = Some j then 1 else 0)\<rparr>"
proof -
  have len: "length (file_table s) = NUM_FILES" using files_okD(1) [OF ok] .
  let ?d = "InodeRef_reset (f_inode (file_table s ! i)) (disk s)"
  have s'_eq: "file_table s' = upd_at i (\<lambda>f. f\<lparr>f_inode := None, f_type := kNone, f_readable := False, f_writable := False, f_offset := 0\<rparr>)
        (upd_at i (\<lambda>f. f\<lparr>f_refcnt := f_refcnt f - 1\<rparr>) (file_table s))" "disk s' = ?d"
    using i len one by (simp_all add: s' file_close_def Let_def upd_file_def)
  show "file_table s' ! i = File_init" "length (file_table s') = NUM_FILES"
    using i len one by (simp_all add: s'_eq File_init_def)
  show "k < NUM_FILES \<Longrightarrow> k \<noteq> i \<Longrightarrow> file_table s' ! k = file_table s ! k"
    using i len by (simp add: s'_eq)
  have ref: "fsys_fs ?d = fsys_fs (disk s) \<and> length (inode_table ?d) = length (inode_table (disk s)) \<and>
     (\<forall>j < length (inode_table (disk s)). inode_table ?d ! j =
        (inode_table (disk s) ! j)\<lparr>in_refcnt := in_refcnt (inode_table (disk s) ! j) -
          (if f_inode (file_table s ! i) = Some j then 1 else 0)\<rparr>)"
  proof (cases "f_inode (file_table s ! i)")
    case (Some m)
    have m: "m < length (inode_table (disk s))" using files_okD(4) [OF ok i Some] .
    have "i \<in> {k. k < NUM_FILES \<and> f_inode (file_table s ! k) = Some m}" using i Some by simp
    then have "0 < holders s m" by (auto simp: holders_def card_gt_0_iff)
    then have "0 < in_refcnt (inode_table (disk s) ! m)" using files_okD(5) [OF ok m] by linarith
    with put_inode_effect [OF m this] Some show ?thesis by (auto simp: InodeRef_reset_def)
  qed (simp add: InodeRef_reset_def)
  then show "fsys_fs (disk s') = fsys_fs (disk s)" "length (inode_table (disk s')) = length (inode_table (disk s))"
    "j < length (inode_table (disk s)) \<Longrightarrow> inode_table (disk s') ! j =
      (inode_table (disk s) ! j)\<lparr>in_refcnt := in_refcnt (inode_table (disk s) ! j) -
        (if f_inode (file_table s ! i) = Some j then 1 else 0)\<rparr>"
    by (simp_all add: s'_eq)
qed

lemma file_close_ok:
  assumes ok: "files_ok s" and p: "\<And>i. p = Some i \<Longrightarrow> i < NUM_FILES"
  shows "files_ok (file_close p s)"
proof (cases p)
  case (Some i)
  have i: "i < NUM_FILES" using p Some by simp
  have len: "length (file_table s) = NUM_FILES" using files_okD(1) [OF ok] .
  consider "f_refcnt (file_table s ! i) \<le> 0" | "f_refcnt (file_table s ! i) > 1" | "f_refcnt (file_table s ! i) = 1" by linarith
  then show ?thesis
  proof cases
    case 1
    then show ?thesis using ok Some by (simp add: file_close_def)
  next
    case 2
    then have "file_close p s = upd_file i (\<lambda>f. f\<lparr>f_refcnt := f_refcnt f - 1\<rparr>) s"
      using Some i len by (simp add: file_close_def Let_def)
    then show ?thesis using files_ok_upd [OF ok i, of "\<lambda>f. f\<lparr>f_refcnt := f_refcnt f - 1\<rparr>"] 2 by simp
  next
    case 3
    define s' where "s' = file_close (Some i) s"
    note c = file_close_last [OF ok i 3 s'_def]
    have h: "holders s' j = holders s j - (if f_inode (file_table s ! i) = Some j then 1 else 0)" for j
      using i c(1,3) by (intro holders_remove) (simp_all add: File_init_def)
    have "f_inode (file_table s' ! k) = Some j \<Longrightarrow> j < length (inode_table (disk s))" if "k < NUM_FILES" for k j
      using c(1) c(3) [OF that] files_okD(4) [OF ok that] by (cases "k = i") (auto simp: File_init_def)
    moreover have "0 \<le> f_refcnt (file_table s' ! k) \<and> (f_refcnt (file_table s' ! k) = 0 \<longrightarrow> file_table s' ! k = File_init)"
      if "k < NUM_FILES" for k
      using c(1) c(3) [OF that] files_okD(2,3) [OF ok that] by (cases "k = i") (auto simp: File_init_def)
    ultimately have "files_ok s'"
      using c(2,5,6) h files_okD(5) [OF ok] by (auto simp: files_ok_def)
    then show ?thesis using Some by (simp add: s'_def)
  qed
qed (use ok in \<open>simp add: file_close_def\<close>)

text \<open>
  C18. Closing keeps the table invariant. While other references remain only the count
  drops; the last close returns the slot to its initial state and gives back exactly one
  reference of its inode. A duplicated reference is undone by a close.
\<close>

theorem file_close_correct:
  assumes "files_ok s" and "i < NUM_FILES" and "f_refcnt (file_table s ! i) > 0" and "s' = file_close (Some i) s"
  shows "files_ok s' \<and> (\<forall>k < NUM_FILES. k \<noteq> i \<longrightarrow> file_table s' ! k = file_table s ! k) \<and>
    (if f_refcnt (file_table s ! i) > 1
     then file_table s' ! i = (file_table s ! i)\<lparr>f_refcnt := f_refcnt (file_table s ! i) - 1\<rparr> \<and> disk s' = disk s
     else file_table s' ! i = File_init \<and> fsys_fs (disk s') = fsys_fs (disk s) \<and>
       (\<forall>j < length (inode_table (disk s)). in_refcnt (inode_table (disk s') ! j) =
          in_refcnt (inode_table (disk s) ! j) - (if f_inode (file_table s ! i) = Some j then 1 else 0))) \<and>
    file_close (Some i) (snd (file_duplicate (Some i) s)) = s"
proof -
  have len: "length (file_table s) = NUM_FILES" using files_okD(1) [OF assms(1)] .
  have "file_close (Some i) (snd (file_duplicate (Some i) s)) = s"
    using assms(2,3) len by (simp add: file_close_def file_duplicate_def Let_def upd_file_def upd_at_def)
  moreover have "files_ok s'" using file_close_ok [OF assms(1), of "Some i"] assms(2,4) by simp
  ultimately show ?thesis
  proof (cases "f_refcnt (file_table s ! i) > 1")
    case True
    then have "s' = upd_file i (\<lambda>f. f\<lparr>f_refcnt := f_refcnt f - 1\<rparr>) s"
      using assms(2,4) len by (simp add: file_close_def Let_def)
    with \<open>files_ok s'\<close> \<open>_ = s\<close> True assms(2) len show ?thesis by simp
  next
    case False
    then have "f_refcnt (file_table s ! i) = 1" using assms(3) by simp
    note c = file_close_last [OF assms(1,2) this assms(4)]
    show ?thesis using \<open>files_ok s'\<close> \<open>_ = s\<close> False c by simp
  qed
qed

text \<open>Two descriptors on one inode: file 0 is open for writing (by two processes), file 1 for reading.\<close>

definition ram_files :: "(u64 \<Rightarrow> bytes) cache filesys" where
  "ram_files = \<lparr>
     file_table = static_file_table
       [0 := File_init\<lparr>f_type := kInode, f_refcnt := 2, f_writable := True, f_inode := Some 0\<rparr>,
        1 := File_init\<lparr>f_type := kInode, f_refcnt := 1, f_readable := True, f_inode := Some 0\<rparr>],
     file_console = True, console_out = [], keyb = static_kbd,
     disk = ram_fsys\<lparr>inode_table := (inode_table ram_fsys)[0 := empty_inode\<lparr>in_refcnt := 2\<rparr>]\<rparr>\<rparr>"

lemma ram_files_table:
  "length (file_table ram_files) = NUM_FILES"
  "file_table ram_files ! 0 = File_init\<lparr>f_type := kInode, f_refcnt := 2, f_writable := True, f_inode := Some 0\<rparr>"
  "file_table ram_files ! 1 = File_init\<lparr>f_type := kInode, f_refcnt := 1, f_readable := True, f_inode := Some 0\<rparr>"
  "1 < k \<Longrightarrow> k < NUM_FILES \<Longrightarrow> file_table ram_files ! k = File_init"
  by (simp_all add: ram_files_def static_file_table_def NUM_FILES_def)

lemma ram_files_inodes:
  "length (inode_table (disk ram_files)) = 10" "inode_table (disk ram_files) ! 0 = empty_inode\<lparr>in_refcnt := 2\<rparr>"
  "fsys_fs (disk ram_files) = ram_fs"
  "j < 10 \<Longrightarrow> j \<noteq> 0 \<Longrightarrow> in_refcnt (inode_table (disk ram_files) ! j) = 0"
  by (simp_all add: ram_files_def ram_fsys_def static_inode_table_def NUM_INODE_def)

lemma ram_files_ok: "files_ok ram_files"
proof -
  have cases: "k = 0 \<or> k = 1 \<or> file_table ram_files ! k = File_init" if "k < NUM_FILES" for k
    using ram_files_table(4) [OF _ that] by (cases "k \<le> 1") auto
  have ino: "f_inode (file_table ram_files ! k) = (if k \<le> 1 then Some 0 else None)" if "k < NUM_FILES" for k
    using ram_files_table(2,3) cases [OF that] ram_files_table(4) [OF _ that]
    by (cases "k = 0"; cases "k = 1") (auto simp: File_init_def)
  have "{k. k < NUM_FILES \<and> f_inode (file_table ram_files ! k) = Some 0} = {0, 1}"
    using ino by (auto simp: NUM_FILES_def split: if_splits)
  then have h0: "holders ram_files 0 = 2" by (simp add: holders_def)
  have "{k. k < NUM_FILES \<and> f_inode (file_table ram_files ! k) = Some j} = {}" if "j \<noteq> 0" for j
    using ino that by (auto split: if_splits)
  then have "holders ram_files j = 0" if "j \<noteq> 0" for j using that by (simp add: holders_def)
  with h0 have "holders ram_files j \<le> in_refcnt (inode_table (disk ram_files) ! j)" if "j < 10" for j
    using ram_files_inodes(2,4) that by (cases "j = 0") simp_all
  moreover have "0 \<le> f_refcnt (file_table ram_files ! k) \<and>
      (f_refcnt (file_table ram_files ! k) = 0 \<longrightarrow> file_table ram_files ! k = File_init)" if "k < NUM_FILES" for k
    using cases [OF that] ram_files_table(2,3) by (auto simp: File_init_def)
  ultimately show ?thesis
    using ino by (auto simp: files_ok_def ram_files_table(1) ram_files_inodes(1) split: if_splits)
qed

theorem file_close_correct_witness:
  "files_ok (file_close (Some 1) ram_files) \<and> file_table (file_close (Some 1) ram_files) ! 1 = File_init \<and>
   in_refcnt (inode_table (disk (file_close (Some 1) ram_files)) ! 0) = 1"
proof -
  have "1 < NUM_FILES" by (simp add: NUM_FILES_def)
  from file_close_correct [OF ram_files_ok this _ refl] show ?thesis
    by (simp add: ram_files_table(3) [simplified] ram_files_inodes File_init_def)
qed

section \<open>Reading and writing inodes through files\<close>

text \<open>
  C19. Two open files on one inode, standing at the same offset: what is written through
  one is what a read through the other returns; each advances its own offset by the count,
  and the inode of the table carries the grown file.
\<close>

theorem file_write_read:
  fixes s :: "'d cache filesys"
  assumes "mounted contents good (fsys_fs (disk s))" and "i \<noteq> k" "i < length (file_table s)" "k < length (file_table s)"
    and "f_type (file_table s ! i) = kInode" "f_writable (file_table s ! i)" "f_inode (file_table s ! i) = Some j"
    and "f_type (file_table s ! k) = kInode" "f_readable (file_table s ! k)" "f_inode (file_table s ! k) = Some j"
    and "f_offset (file_table s ! i) = off" "f_offset (file_table s ! k) = off"
    and "j < length (inode_table (disk s))" and "inode = inode_table (disk s) ! j"
    and "file_wf (fs_sb (fsys_fs (disk s))) (fs_view contents (fsys_fs (disk s))) (in_disk inode)"
    and "meta_used (fs_sb (fsys_fs (disk s))) (fs_view contents (fsys_fs (disk s)))"
    and "in_number inode < sb_ninodes (fs_sb (fsys_fs (disk s)))"
    and "unat count \<le> length source" "unat off \<le> unat (di_size (in_disk inode))" "unat off + unat count \<le> 71680"
  shows "\<exists>n s1 s2. file_write i source count s = Some (Some n, s1) \<and>
    file_read k n es s1 = Some (Some n, take (unat n) source, es, s2) \<and> n \<le> count \<and>
    f_offset (file_table s2 ! i) = off + n \<and> f_offset (file_table s2 ! k) = off + n \<and>
    file_bytes (fs_view contents (fsys_fs (disk s1))) (in_disk (inode_table (disk s1) ! j)) =
      splice (unat off) (take (unat n) source) (file_bytes (fs_view contents (fsys_fs (disk s))) (in_disk inode))"
proof -
  let ?t = "fsys_fs (disk s)"
  obtain r inode' t where w: "write_data inode source off count ?t = (r, inode', t)" by (metis prod_cases3)
  obtain n where n: "r = Some n"
    using bc.write_data_effect(2) [OF mounted_env2 [OF assms(1)] assms(15-20) w] by auto
  note b = write_read_back [OF assms(1,15-18) w [unfolded n]]
  define s1 where "s1 = upd_file i (\<lambda>f. f\<lparr>f_offset := f_offset f + n\<rparr>)
    (s\<lparr>disk := upd_inode j (\<lambda>_. inode') ((disk s)\<lparr>fsys_fs := t\<rparr>)\<rparr>)"
  have fw: "file_write i source count s = Some (Some n, s1)"
    using assms(5-7,11,14) w n by (simp add: file_write_def Let_def s1_def)
  have d1: "fsys_fs (disk s1) = t" "inode_table (disk s1) ! j = inode'" "file_table s1 ! k = file_table s ! k"
    "f_offset (file_table s1 ! i) = off + n"
    using assms(2-4,11,13) by (simp_all add: s1_def upd_inode_def)
  obtain t2 where rd: "read_data inode' off n t = (Some n, take (unat n) source, t2)"
    using b(4,5) by (cases "read_data inode' off n t") (auto)
  define s2 where "s2 = upd_file k (\<lambda>f. f\<lparr>f_offset := f_offset f + n\<rparr>) (s1\<lparr>disk := (disk s1)\<lparr>fsys_fs := t2\<rparr>\<rparr>)"
  have fr: "file_read k n es s1 = Some (Some n, take (unat n) source, es, s2)"
    using assms(8-10,12) d1 rd by (simp add: file_read_def Let_def s2_def)
  have len1: "length (file_table s1) = length (file_table s)" by (simp add: s1_def)
  have offs: "f_offset (file_table s2 ! k) = off + n" "f_offset (file_table s2 ! i) = off + n"
    using assms(2,4,12) d1(3,4) len1 by (simp_all add: s2_def upd_file_def)
  have "n \<le> count" using write_doneD(1) [OF b(3)] by (simp add: word_le_nat_alt)
  then show ?thesis using fw fr offs write_doneD(7) [OF b(3)] d1(1,2) by auto
qed

theorem file_write_read_witness:
  "\<exists>n s1 s2. file_write 0 (replicate 600 7) 600 ram_files = Some (Some n, s1) \<and>
    file_read 1 n [] s1 = Some (Some n, take (unat n) (replicate 600 7), [], s2) \<and> n \<le> 600"
proof -
  have i: "in_number (empty_inode\<lparr>in_refcnt := 2\<rparr>) < sb_ninodes (fs_sb ram_fs)"
    by (simp add: ram_fs_props(6) empty_inode_def)
  have "file_wf sb v (in_disk (empty_inode\<lparr>in_refcnt := 2\<rparr>))" for sb v
    using empty_inode_file(1) by (simp add: empty_inode_def)
  with file_write_read [of ram_contents ram_good ram_files 0 1 0 0 "empty_inode\<lparr>in_refcnt := 2\<rparr>" 600 "replicate 600 7" "[]"]
    ram_fs_props(1,3) i
  show ?thesis
    by (simp add: ram_files_inodes ram_files_table(1,2) ram_files_table(3) [simplified] File_init_def NUM_FILES_def) blast
qed

end
