(* ===== verification/Multiboot2.thy ===== *)
theory Multiboot2
  imports Prelude
begin

text \<open>
  The boot information of \<open>include/multiboot2.cpp\<close>, read from memory through the direct map: the
  tag list GRUB leaves behind and the search for the memory map in it. Memory is a function
  from virtual addresses to bytes.
\<close>

type_synonym memory = "u64 \<Rightarrow> u8"

definition DIRECT_MAP_BASE :: u64 where "DIRECT_MAP_BASE = 0xFFFF800000000000"

definition load_bytes :: "memory \<Rightarrow> nat \<Rightarrow> u64 \<Rightarrow> bytes" where
  "load_bytes mem k a = map (\<lambda>i. mem (a + of_nat i)) [0..<k]"

definition load16 :: "memory \<Rightarrow> u64 \<Rightarrow> u16" where "load16 mem a = le_word (load_bytes mem 2 a)"
definition load32 :: "memory \<Rightarrow> u64 \<Rightarrow> u32" where "load32 mem a = le_word (load_bytes mem 4 a)"
definition load64 :: "memory \<Rightarrow> u64 \<Rightarrow> u64" where "load64 mem a = le_word (load_bytes mem 8 a)"

definition MULTIBOOT2_TAG_END :: u16 where "MULTIBOOT2_TAG_END = 0"
definition MULTIBOOT2_TAG_TYPE_MEMORY_MAP :: u16 where "MULTIBOOT2_TAG_TYPE_MEMORY_MAP = 6"
definition MULTIBOOT2_MEMORY_AVAILABLE :: u32 where "MULTIBOOT2_MEMORY_AVAILABLE = 1"

text \<open>Fields of a \<open>Multiboot2Tag\<close> and of a \<open>Multiboot2MemoryMapTag\<close> at an address.\<close>

definition tag_type :: "memory \<Rightarrow> u64 \<Rightarrow> u16" where "tag_type mem tag = load16 mem tag"
definition tag_size :: "memory \<Rightarrow> u64 \<Rightarrow> u32" where "tag_size mem tag = load32 mem (tag + 4)"

record Multiboot2MemoryMapEntry =
  me_base_addr :: u64
  me_length :: u64
  me_type :: u32

definition entry_at :: "memory \<Rightarrow> u64 \<Rightarrow> Multiboot2MemoryMapEntry" where
  "entry_at mem a = \<lparr>me_base_addr = load64 mem a, me_length = load64 mem (a + 8), me_type = load32 mem (a + 16)\<rparr>"

text \<open>
  The tag after \<open>current_tag\<close>: the size is rounded up to eight in 32-bit arithmetic.
\<close>

definition find_next_tag :: "memory \<Rightarrow> u64 \<Rightarrow> u64" where
  "find_next_tag mem current_tag = current_tag + ucast ((tag_size mem current_tag + 7) AND NOT 7)"

text \<open>
  The search of \<open>find_mmap\<close>. A tag list without an end tag may keep it going for ever, so it
  is a partial function: the outer \<open>None\<close> is that it does not return, \<open>Some None\<close> is \<open>nullptr\<close>.
\<close>

partial_function (option) find_mmap_from :: "memory \<Rightarrow> u64 \<Rightarrow> u64 option option" where
  "find_mmap_from mem tag =
     (if tag_type mem tag = MULTIBOOT2_TAG_END then Some None
      else if tag_type mem tag = MULTIBOOT2_TAG_TYPE_MEMORY_MAP then Some (Some tag)
      else find_mmap_from mem (find_next_tag mem tag))"

definition find_mmap :: "memory \<Rightarrow> u32 \<Rightarrow> u64 option option" where
  "find_mmap mem multiboot_address = find_mmap_from mem (ucast multiboot_address + DIRECT_MAP_BASE + 8)"

definition multiboot_info_size :: "memory \<Rightarrow> u32 \<Rightarrow> u32" where
  "multiboot_info_size mem multiboot_address =
     (if multiboot_address = 0 then 0 else load32 mem (ucast multiboot_address + DIRECT_MAP_BASE))"

text \<open>
  The entries of a memory map tag, as the two loops of the page allocator's constructor
  walk them: their number is a 64-bit quotient narrowed to 32 bits and the offset of entry
  \<open>i\<close> a 32-bit product. A zero entry size faults in the division.
\<close>

definition memory_map_entries :: "memory \<Rightarrow> u64 \<Rightarrow> Multiboot2MemoryMapEntry list option" where
  "memory_map_entries mem tag =
     (let sz = load32 mem (tag + 4); entry_size = load32 mem (tag + 8) in
      if entry_size = 0 then None
      else let num_page = (ucast ((ucast sz - 16 :: u64) div ucast entry_size) :: u32) in
        Some (map (\<lambda>i. entry_at mem (tag + 16 + ucast (of_nat i * entry_size :: u32))) [0..<unat num_page]))"

section \<open>The search finds the first memory map\<close>

text \<open>A tag list: the addresses of the tags before the end tag, each followed by the next.\<close>

fun tag_list :: "memory \<Rightarrow> u64 \<Rightarrow> u64 list \<Rightarrow> bool" where
  "tag_list mem a [] \<longleftrightarrow> tag_type mem a = MULTIBOOT2_TAG_END"
| "tag_list mem a (t # ts) \<longleftrightarrow> t = a \<and> tag_type mem a \<noteq> MULTIBOOT2_TAG_END \<and> tag_list mem (find_next_tag mem a) ts"

lemma find_mmap_from_list:
  "tag_list mem a ts \<Longrightarrow>
     find_mmap_from mem a = Some (find (\<lambda>t. tag_type mem t = MULTIBOOT2_TAG_TYPE_MEMORY_MAP) ts)"
proof (induction ts arbitrary: a)
  case Nil
  then show ?case by (subst find_mmap_from.simps) simp
next
  case (Cons t ts)
  then show ?case by (subst find_mmap_from.simps) auto
qed


definition boot_memory :: memory where
  "boot_memory a =
     (if a = DIRECT_MAP_BASE + 0x10008 then 4 else if a = DIRECT_MAP_BASE + 0x1000C then 9
      else if a = DIRECT_MAP_BASE + 0x10018 then 6 else if a = DIRECT_MAP_BASE + 0x1001C then 40 else 0)"


end
