(* ===== verification/Phys_Memory.thy ===== *)
theory Phys_Memory
  imports Multiboot2
begin

text \<open>
  The physical page allocator of \<open>include/pmm.cpp\<close> and \<open>include/pmm.hpp\<close>: a bitmap of 65536 pages, built
  from the memory map of the boot loader, with first-fit allocation. A \<open>PhysicalAddress\<close> is an
  optional 64-bit address. The contract its clients (the page tables and the heap) rely on
  is the locale \<open>page_allocator\<close> at the end.
\<close>

section \<open>State and bit operations\<close>

type_synonym PhysicalAddress = "u64 option"

definition MAX_PAGES :: u64 where "MAX_PAGES = 65536"
definition BITMAP_SIZE :: u64 where "BITMAP_SIZE = MAX_PAGES div 8"

record pmm =
  pm_bitmap :: bytes
  pm_base :: u64
  pm_pages :: u64
  pm_free_pages :: u64

text \<open>\<open>1 << (page_index % 8)\<close>, an \<open>int\<close> narrowed to the byte it is combined with.\<close>

definition page_bit :: "u64 \<Rightarrow> u8" where
  "page_bit page_index = push_bit (unat (page_index mod 8)) 1"

definition pm_set_bit :: "u64 \<Rightarrow> pmm \<Rightarrow> pmm" where
  "pm_set_bit page_index p = p\<lparr>pm_bitmap := upd_at (unat (page_index div 8)) (\<lambda>b. b OR page_bit page_index) (pm_bitmap p)\<rparr>"

definition pm_clear_bit :: "u64 \<Rightarrow> pmm \<Rightarrow> pmm" where
  "pm_clear_bit page_index p = p\<lparr>pm_bitmap := upd_at (unat (page_index div 8)) (\<lambda>b. b AND NOT (page_bit page_index)) (pm_bitmap p)\<rparr>"

definition pm_test_bit :: "u64 \<Rightarrow> pmm \<Rightarrow> bool" where
  "pm_test_bit page_index p \<longleftrightarrow> pm_bitmap p ! unat (page_index div 8) AND page_bit page_index \<noteq> 0"

definition address_to_page_index :: "u64 \<Rightarrow> pmm \<Rightarrow> u64" where
  "address_to_page_index address p = (address - pm_base p) div PAGE_SIZE"

definition page_index_to_address :: "u64 \<Rightarrow> pmm \<Rightarrow> u64" where
  "page_index_to_address page_index p = pm_base p + page_index * PAGE_SIZE"

section \<open>Operations\<close>

definition pmm_free :: "PhysicalAddress \<Rightarrow> pmm \<Rightarrow> pmm" where
  "pmm_free page_address p =
     (case page_address of
        None \<Rightarrow> p
      | Some address \<Rightarrow>
          if address < pm_base p then p
          else let page_index = address_to_page_index address p in
            if page_index \<ge> MAX_PAGES then p
            else if pm_test_bit page_index p
              then (pm_clear_bit page_index p)\<lparr>pm_free_pages := pm_free_pages p + 1\<rparr>
              else p)"

text \<open>
  The loop \<open>for (addr = first; addr < last; addr += PAGE_SIZE)\<close>. When the addition wraps around
  the loop starts again from the low addresses and never ends, which is \<open>None\<close>; the bounds
  of the callers are page aligned, which excludes it (\<open>for_pages_rule\<close>).
\<close>

function for_pages :: "(u64 \<Rightarrow> 's \<Rightarrow> 's) \<Rightarrow> u64 \<Rightarrow> u64 \<Rightarrow> 's \<Rightarrow> 's option" where
  "for_pages f addr lim s =
     (if \<not> addr < lim then Some s
      else if addr + PAGE_SIZE < addr then None
      else for_pages f (addr + PAGE_SIZE) lim (f addr s))"
  by pat_completeness auto
termination
proof (relation "measure (\<lambda>(f, addr, lim, s). 2 ^ 64 - unat addr)")
  fix f :: "u64 \<Rightarrow> 's \<Rightarrow> 's" and addr lim :: u64 and s
  assume "\<not> \<not> addr < lim" "\<not> addr + PAGE_SIZE < addr"
  moreover from this have "addr \<noteq> addr + PAGE_SIZE" by (simp add: PAGE_SIZE_def)
  ultimately have "addr < addr + PAGE_SIZE" by (metis linorder_neqE)
  from word_less_top_measure [OF this]
  show "((f, addr + PAGE_SIZE, lim, f addr s), f, addr, lim, s) \<in> measure (\<lambda>(f, addr, lim, s). 2 ^ 64 - unat addr)"
    by simp
qed simp

declare for_pages.simps [simp del]

definition reserve_page :: "u64 \<Rightarrow> pmm \<Rightarrow> pmm" where
  "reserve_page addr p =
     (if addr < pm_base p then p
      else let page_index = address_to_page_index addr p in
        if page_index \<ge> pm_pages p then p
        else if \<not> pm_test_bit page_index p
          then (let p1 = pm_set_bit page_index p in
                if pm_free_pages p1 > 0 then p1\<lparr>pm_free_pages := pm_free_pages p1 - 1\<rparr> else p1)
          else p)"

definition reserve_region :: "u64 \<Rightarrow> u64 \<Rightarrow> pmm \<Rightarrow> pmm option" where
  "reserve_region start lim p =
     (if lim \<le> start then Some p
      else for_pages reserve_page (align_down start) (align_down (lim + PAGE_SIZE - 1)) p)"

text \<open>The first free page at or after index \<open>i\<close>: the loop of \<open>allocate\<close>.\<close>

function allocate_from_page :: "u64 \<Rightarrow> pmm \<Rightarrow> PhysicalAddress \<times> pmm" where
  "allocate_from_page i p =
     (if i < pm_pages p then
        (if \<not> pm_test_bit i p
         then (Some (pm_base p + i * PAGE_SIZE), (pm_set_bit i p)\<lparr>pm_free_pages := pm_free_pages p - 1\<rparr>)
         else allocate_from_page (i + 1) p)
      else (None, p))"
  by pat_completeness auto
termination
  by (relation "measure (\<lambda>(i, p). unat (pm_pages p) - unat i)") (auto simp: word_less_nat_alt)

declare allocate_from_page.simps [simp del]

definition pmm_allocate :: "pmm \<Rightarrow> PhysicalAddress \<times> pmm" where
  "pmm_allocate p = allocate_from_page 0 p"

section \<open>Construction\<close>

definition region_start :: "Multiboot2MemoryMapEntry \<Rightarrow> u64" where
  "region_start e = align_down (me_base_addr e + PAGE_SIZE - 1)"

definition region_end :: "Multiboot2MemoryMapEntry \<Rightarrow> u64" where
  "region_end e = align_down (me_base_addr e + me_length e)"

text \<open>First loop: the number of available pages and the start of the first available region.\<close>

definition count_region :: "Multiboot2MemoryMapEntry \<Rightarrow> u64 \<times> u64 \<Rightarrow> u64 \<times> u64" where
  "count_region e acc =
     (case acc of (total_pages, base_found) \<Rightarrow>
        if me_type e \<noteq> MULTIBOOT2_MEMORY_AVAILABLE then (total_pages, base_found)
        else if region_start e \<ge> region_end e then (total_pages, base_found)
        else (total_pages + (region_end e - region_start e) div PAGE_SIZE,
              if total_pages = 0 then region_start e else base_found))"

text \<open>Second loop: hand the pages of an available region that lie above the kernel to \<open>free\<close>.\<close>

definition release_page :: "u64 \<Rightarrow> u64 \<Rightarrow> pmm \<Rightarrow> pmm" where
  "release_page kernel_end addr p = (if addr < kernel_end then p else pmm_free (Some addr) p)"

definition release_region :: "u64 \<Rightarrow> Multiboot2MemoryMapEntry \<Rightarrow> pmm option \<Rightarrow> pmm option" where
  "release_region kernel_end e po =
     (if me_type e \<noteq> MULTIBOOT2_MEMORY_AVAILABLE then po
      else if region_start e \<ge> region_end e then po
      else Option.bind po (for_pages (release_page kernel_end) (region_start e) (region_end e)))"

definition drop_null_page :: "pmm \<Rightarrow> pmm" where
  "drop_null_page p =
     (if pm_base p = 0
      then (let p1 = pm_set_bit 0 p in if pm_free_pages p1 > 0 then p1\<lparr>pm_free_pages := pm_free_pages p1 - 1\<rparr> else p1)
      else p)"

text \<open>Body of the kernel loop: the bit is set and the counter lowered without testing the bit.\<close>

definition claim_kernel_page :: "u64 \<Rightarrow> pmm \<Rightarrow> pmm" where
  "claim_kernel_page addr p =
     (let page_idx = address_to_page_index addr p in
      if page_idx < pm_pages p
      then (let p1 = pm_set_bit page_idx p in
            if pm_free_pages p1 > 0 then p1\<lparr>pm_free_pages := pm_free_pages p1 - 1\<rparr> else p1)
      else p)"

definition full_pmm :: pmm where
  "full_pmm = \<lparr>pm_bitmap = replicate (unat BITMAP_SIZE) 0xFF, pm_base = 0, pm_pages = 0, pm_free_pages = 0\<rparr>"

text \<open>
  The constructor after the memory map has been read. \<open>multiboot_address + size\<close> is a 32-bit sum.
\<close>

definition build_pmm :: "Multiboot2MemoryMapEntry list \<Rightarrow> u64 \<Rightarrow> u32 \<Rightarrow> u32 \<Rightarrow> pmm option" where
  "build_pmm entries kernel_end multiboot_address info_size =
     (case fold count_region entries (0, 0) of (total_pages, base_found) \<Rightarrow>
        if total_pages = 0 then Some full_pmm
        else
          let p0 = full_pmm\<lparr>pm_base := base_found, pm_pages := if total_pages > MAX_PAGES then MAX_PAGES else total_pages\<rparr> in
          Option.bind (fold (release_region kernel_end) entries (Some p0)) (\<lambda>p1.
          let p2 = drop_null_page p1 in
          Option.bind (for_pages claim_kernel_page (pm_base p2) (align_down (kernel_end + PAGE_SIZE - 1)) p2) (\<lambda>p3.
          reserve_region (ucast multiboot_address) (ucast (multiboot_address + info_size)) p3)))"

definition PhysicalMemoryManager :: "memory \<Rightarrow> u64 \<Rightarrow> u64 \<Rightarrow> u32 \<Rightarrow> pmm option" where
  "PhysicalMemoryManager mem memory_map kernel_end multiboot_address =
     Option.bind (memory_map_entries mem memory_map) (\<lambda>entries.
       build_pmm entries kernel_end multiboot_address (multiboot_info_size mem multiboot_address))"

record PhysicalMemoryManagerState =
  st_total_pages :: u64
  st_free_pages :: u64
  st_base :: u64
  st_top :: u64

definition get_state :: "pmm \<Rightarrow> PhysicalMemoryManagerState" where
  "get_state p = \<lparr>st_total_pages = pm_pages p, st_free_pages = pm_free_pages p, st_base = pm_base p,
     st_top = pm_base p + pm_pages p * PAGE_SIZE\<rparr>"

section \<open>The bitmap as a set of used pages\<close>

definition used :: "pmm \<Rightarrow> nat \<Rightarrow> bool" where
  "used p i \<longleftrightarrow> bit (pm_bitmap p ! (i div 8)) (i mod 8)"

definition pmm_wf :: "pmm \<Rightarrow> bool" where
  "pmm_wf p \<longleftrightarrow> length (pm_bitmap p) = 8192 \<and> pm_pages p \<le> MAX_PAGES"

lemma pmm_wfD:
  "pmm_wf p \<Longrightarrow> length (pm_bitmap p) = 8192"
  "pmm_wf p \<Longrightarrow> i < pm_pages p \<Longrightarrow> unat i < 65536"
  by (auto simp: pmm_wf_def MAX_PAGES_def word_le_nat_alt word_less_nat_alt)

lemma bit_page_bit: "bit (page_bit i) j \<longleftrightarrow> j = unat i mod 8"
proof -
  have "unat i mod 8 < 8" by simp
  then show ?thesis by (auto simp: page_bit_def bit_exp_iff unat_mod)
qed

lemma index_split: "k = unat i \<longleftrightarrow> unat i div 8 = k div 8 \<and> unat i mod 8 = k mod 8"
  by (metis div_mult_mod_eq)

lemma test_bit_used: "pm_test_bit i p \<longleftrightarrow> used p (unat i)"
proof -
  have "pm_bitmap p ! (unat i div 8) AND page_bit i = 0 \<longleftrightarrow> \<not> bit (pm_bitmap p ! (unat i div 8)) (unat i mod 8)"
  proof
    assume "pm_bitmap p ! (unat i div 8) AND page_bit i = 0"
    then have "\<not> bit (pm_bitmap p ! (unat i div 8) AND page_bit i) (unat i mod 8)" by simp
    then show "\<not> bit (pm_bitmap p ! (unat i div 8)) (unat i mod 8)" by (simp add: bit_and_iff bit_page_bit)
  next
    assume "\<not> bit (pm_bitmap p ! (unat i div 8)) (unat i mod 8)"
    then show "pm_bitmap p ! (unat i div 8) AND page_bit i = 0"
      by (intro bit_word_eqI) (auto simp: bit_and_iff bit_page_bit)
  qed
  then show ?thesis by (simp add: pm_test_bit_def used_def unat_div)
qed

lemma used_set_bit:
  assumes "pmm_wf p" "k < 65536"
  shows "used (pm_set_bit i p) k \<longleftrightarrow> k = unat i \<or> used p k"
proof -
  have "k div 8 < length (pm_bitmap p)" using assms pmm_wfD(1) by simp
  then show ?thesis
    by (auto simp: used_def pm_set_bit_def nth_upd_at unat_div bit_or_iff bit_page_bit index_split)
qed

lemma used_clear_bit:
  assumes "pmm_wf p" "k < 65536"
  shows "used (pm_clear_bit i p) k \<longleftrightarrow> k \<noteq> unat i \<and> used p k"
proof -
  have "k div 8 < length (pm_bitmap p)" using assms pmm_wfD(1) by simp
  moreover have "k mod 8 < 8" by simp
  ultimately show ?thesis
    by (auto simp: used_def pm_clear_bit_def nth_upd_at unat_div bit_and_iff bit_not_iff bit_page_bit index_split)
qed

lemma bit_ops_fields [simp]:
  "pm_base (pm_set_bit i p) = pm_base p" "pm_pages (pm_set_bit i p) = pm_pages p" "pm_free_pages (pm_set_bit i p) = pm_free_pages p"
  "pm_base (pm_clear_bit i p) = pm_base p" "pm_pages (pm_clear_bit i p) = pm_pages p" "pm_free_pages (pm_clear_bit i p) = pm_free_pages p"
  "pmm_wf (pm_set_bit i p) = pmm_wf p" "pmm_wf (pm_clear_bit i p) = pmm_wf p"
  "pmm_wf (p\<lparr>pm_free_pages := n\<rparr>) = pmm_wf p" "used (p\<lparr>pm_free_pages := n\<rparr>) = used p"
  by (simp_all add: pm_set_bit_def pm_clear_bit_def pmm_wf_def fun_eq_iff used_def)

section \<open>Allocation and release\<close>

lemma allocate_from_page_effect:
  assumes "pmm_wf p"
  shows "case allocate_from_page i p of
      (None, p') \<Rightarrow> p' = p \<and> (\<forall>k. unat i \<le> k \<and> k < unat (pm_pages p) \<longrightarrow> used p k)
    | (Some a, p') \<Rightarrow> \<exists>j. i \<le> j \<and> j < pm_pages p \<and> \<not> used p (unat j) \<and> (\<forall>k. unat i \<le> k \<and> k < unat j \<longrightarrow> used p k) \<and>
        a = page_index_to_address j p \<and> p' = (pm_set_bit j p)\<lparr>pm_free_pages := pm_free_pages p - 1\<rparr>"
  using assms
proof (induction i p rule: allocate_from_page.induct)
  case (1 i p)
  note sim = allocate_from_page.simps [of i p]
  show ?case
  proof (cases "i < pm_pages p")
    case False
    then have "unat (pm_pages p) \<le> unat i" by (simp add: word_less_nat_alt)
    then show ?thesis using False sim by auto
  next
    case lt: True
    show ?thesis
    proof (cases "pm_test_bit i p")
      case False
      then have "\<not> used p (unat i)" by (simp add: test_bit_used)
      then show ?thesis using lt False sim by (auto simp: page_index_to_address_def)
    next
      case True
      have nx: "unat (i + 1) = Suc (unat i)" using lt by (rule word_less_Suc_bound)
      have more: "(\<forall>k. unat i \<le> k \<and> k < m \<longrightarrow> used p k) \<longleftrightarrow> (\<forall>k. Suc (unat i) \<le> k \<and> k < m \<longrightarrow> used p k)" for m
        using True by (auto simp: test_bit_used) (metis Suc_leI le_neq_implies_less)
      have le: "i + 1 \<le> j \<Longrightarrow> i \<le> j" for j using nx by (simp add: word_le_nat_alt)
      from 1(1) [OF lt] True 1(2) have
        "case allocate_from_page (i + 1) p of
          (None, p') \<Rightarrow> p' = p \<and> (\<forall>k. unat (i + 1) \<le> k \<and> k < unat (pm_pages p) \<longrightarrow> used p k)
        | (Some a, p') \<Rightarrow> \<exists>j. i + 1 \<le> j \<and> j < pm_pages p \<and> \<not> used p (unat j) \<and> (\<forall>k. unat (i + 1) \<le> k \<and> k < unat j \<longrightarrow> used p k) \<and>
            a = page_index_to_address j p \<and> p' = (pm_set_bit j p)\<lparr>pm_free_pages := pm_free_pages p - 1\<rparr>"
        by simp
      then show ?thesis using lt True sim le
        by (cases "allocate_from_page (i + 1) p") (auto simp: more nx split: option.splits)
    qed
  qed
qed

lemma unat_page_index:
  "pm_base p \<le> a \<Longrightarrow> unat (address_to_page_index a p) = (unat a - unat (pm_base p)) div 4096"
  by (simp add: address_to_page_index_def unat_div unat_sub PAGE_SIZE_def)

text \<open>The page a call of \<open>free\<close> concerns, if any.\<close>

definition freed_index :: "u64 \<Rightarrow> pmm \<Rightarrow> nat \<Rightarrow> bool" where
  "freed_index a p k \<longleftrightarrow> pm_base p \<le> a \<and> k = (unat a - unat (pm_base p)) div 4096"

lemma pmm_free_fields [simp]:
  "pm_base (pmm_free a p) = pm_base p" "pm_pages (pmm_free a p) = pm_pages p" "pmm_wf (pmm_free a p) = pmm_wf p"
  by (simp_all add: pmm_free_def Let_def split: option.split)

lemma used_pmm_free:
  assumes "pmm_wf p" "k < 65536"
  shows "used (pmm_free (Some a) p) k \<longleftrightarrow> used p k \<and> \<not> freed_index a p k"
proof (cases "pm_base p \<le> a")
  case True
  note ix = unat_page_index [OF True]
  have ge: "\<not> a < pm_base p" using True by simp
  show ?thesis
    using ge assms ix used_clear_bit [OF assms, of "address_to_page_index a p"]
    by (auto simp: pmm_free_def Let_def freed_index_def test_bit_used MAX_PAGES_def word_le_nat_alt [of 65536])
qed (simp add: pmm_free_def freed_index_def linorder_not_le)

section \<open>The set of available pages\<close>

text \<open>
  The invariant of a constructed allocator: page-aligned base and addresses of at most 47
  bits, the part of physical memory the direct map reaches.
\<close>

definition pmm_inv :: "pmm \<Rightarrow> bool" where
  "pmm_inv p \<longleftrightarrow> pmm_wf p \<and> 4096 dvd unat (pm_base p) \<and> unat (pm_base p) + 4096 * unat (pm_pages p) \<le> 2 ^ 47"

definition pool :: "pmm \<Rightarrow> u64 set" where
  "pool p = {page_index_to_address i p | i. i < pm_pages p}"

definition avail :: "pmm \<Rightarrow> u64 set" where
  "avail p = {page_index_to_address i p | i. i < pm_pages p \<and> \<not> used p (unat i)}"

lemma pmm_inv_wf: "pmm_inv p \<Longrightarrow> pmm_wf p"
  by (simp add: pmm_inv_def)

lemma unat_page_address:
  assumes "pmm_inv p" "i < pm_pages p"
  shows "unat (page_index_to_address i p) = unat (pm_base p) + 4096 * unat i"
proof -
  have "unat i < unat (pm_pages p)" using assms(2) by (simp add: word_less_nat_alt)
  then have b: "unat (pm_base p) + 4096 * unat i < 2 ^ 47" using assms(1) by (simp add: pmm_inv_def)
  then have "4096 * unat i < 2 ^ 64" by simp
  then have "unat (i * PAGE_SIZE) = 4096 * unat i"
    by (simp add: PAGE_SIZE_def unat_word_ariths mult.commute)
  with b show ?thesis by (simp add: page_index_to_address_def unat_word_ariths(1))
qed

lemma page_address_inj:
  assumes "pmm_inv p" "i < pm_pages p" "j < pm_pages p"
  shows "page_index_to_address i p = page_index_to_address j p \<longleftrightarrow> i = j"
proof
  assume "page_index_to_address i p = page_index_to_address j p"
  then have "unat (page_index_to_address i p) = unat (page_index_to_address j p)" by simp
  then show "i = j" using unat_page_address assms by (simp add: word_unat_eq_iff)
qed simp

lemma pool_bounds:
  assumes "pmm_inv p" "a \<in> pool p"
  shows "4096 dvd unat a" "unat a + 4096 \<le> 2 ^ 47" "pm_base p \<le> a"
proof -
  obtain i where i: "i < pm_pages p" "a = page_index_to_address i p" using assms(2) by (auto simp: pool_def)
  have a: "unat a = unat (pm_base p) + 4096 * unat i" using unat_page_address [OF assms(1) i(1)] i(2) by simp
  have "unat i < unat (pm_pages p)" using i(1) by (simp add: word_less_nat_alt)
  then show "4096 dvd unat a" "unat a + 4096 \<le> 2 ^ 47" "pm_base p \<le> a"
    using a assms(1) by (auto simp: pmm_inv_def word_le_nat_alt)
qed

lemma avail_pool: "avail p \<subseteq> pool p"
  by (auto simp: avail_def pool_def)

lemma freed_index_page:
  assumes "pmm_inv p" "i < pm_pages p"
  shows "freed_index (page_index_to_address i p) p k \<longleftrightarrow> k = unat i"
  using unat_page_address [OF assms] by (auto simp: freed_index_def word_le_nat_alt)

lemma avail_set_bit:
  assumes "pmm_inv p" "j < pm_pages p"
  shows "avail ((pm_set_bit j p)\<lparr>pm_free_pages := n\<rparr>) = avail p - {page_index_to_address j p}"
proof -
  have "used (pm_set_bit j p) (unat i) \<longleftrightarrow> i = j \<or> used p (unat i)" if "i < pm_pages p" for i
    using used_set_bit [OF pmm_inv_wf [OF assms(1)] pmm_wfD(2) [OF pmm_inv_wf [OF assms(1)] that], of j]
    by (simp add: word_unat_eq_iff)
  moreover have "page_index_to_address i ((pm_set_bit j p)\<lparr>pm_free_pages := n\<rparr>) = page_index_to_address i p" for i
    by (simp add: page_index_to_address_def)
  ultimately show ?thesis
    using page_address_inj [OF assms(1) _ assms(2)] by (auto simp: avail_def)
qed

lemma avail_pmm_free:
  assumes inv: "pmm_inv p" and a: "a \<in> pool p"
  shows "avail (pmm_free (Some a) p) = insert a (avail p)" "pool (pmm_free (Some a) p) = pool p" "pmm_inv (pmm_free (Some a) p)"
proof -
  obtain j where j: "j < pm_pages p" "a = page_index_to_address j p" using a by (auto simp: pool_def)
  have pi: "page_index_to_address i (pmm_free b p) = page_index_to_address i p" for i b
    by (simp add: page_index_to_address_def)
  have "used (pmm_free (Some a) p) (unat i) \<longleftrightarrow> used p (unat i) \<and> i \<noteq> j" if "i < pm_pages p" for i
    using used_pmm_free [OF pmm_inv_wf [OF inv] pmm_wfD(2) [OF pmm_inv_wf [OF inv] that]] freed_index_page [OF inv j(1)]
    by (simp add: j(2) word_unat_eq_iff [of i])
  then show "avail (pmm_free (Some a) p) = insert a (avail p)"
    using j by (auto simp: avail_def pi)
  show "pool (pmm_free (Some a) p) = pool p" by (simp add: pool_def pi)
  show "pmm_inv (pmm_free (Some a) p)" using inv by (simp add: pmm_inv_def)
qed

lemma pmm_allocate_effect:
  assumes inv: "pmm_inv p" and r: "pmm_allocate p = (r, p')"
  shows "r = None \<Longrightarrow> p' = p \<and> avail p = {}"
    and "r = Some a \<Longrightarrow> \<exists>j. j < pm_pages p \<and> \<not> used p (unat j) \<and> (\<forall>k < unat j. used p k) \<and>
      a = page_index_to_address j p \<and> p' = (pm_set_bit j p)\<lparr>pm_free_pages := pm_free_pages p - 1\<rparr>"
proof -
  note e = allocate_from_page_effect [OF pmm_inv_wf [OF inv], of 0, folded pmm_allocate_def, unfolded r]
  show "p' = p \<and> avail p = {}" if "r = None"
    using e that by (auto simp: avail_def word_less_nat_alt)
  show "\<exists>j. j < pm_pages p \<and> \<not> used p (unat j) \<and> (\<forall>k < unat j. used p k) \<and>
      a = page_index_to_address j p \<and> p' = (pm_set_bit j p)\<lparr>pm_free_pages := pm_free_pages p - 1\<rparr>" if "r = Some a"
    using e that by auto
qed

lemma pmm_allocate_Some:
  assumes inv: "pmm_inv p" and r: "pmm_allocate p = (Some a, p')"
  shows "a \<in> avail p" "avail p' = avail p - {a}" "pool p' = pool p" "pmm_inv p'"
proof -
  obtain j where j: "j < pm_pages p" "\<not> used p (unat j)" "a = page_index_to_address j p"
    "p' = (pm_set_bit j p)\<lparr>pm_free_pages := pm_free_pages p - 1\<rparr>"
    using pmm_allocate_effect(2) [OF inv r refl] by auto
  show "a \<in> avail p" using j by (auto simp: avail_def)
  show "avail p' = avail p - {a}" using avail_set_bit [OF inv j(1)] j(3,4) by simp
  show "pool p' = pool p" by (simp add: pool_def page_index_to_address_def j(4))
  show "pmm_inv p'" using inv by (simp add: pmm_inv_def j(4))
qed

text \<open>
  The contract of a page allocator as its clients use it: pages come from a fixed pool of
  aligned pages below the 47-bit limit, an allocated page was available and no longer is, a
  page given back is available again.
\<close>

locale page_allocator =
  fixes alloc :: "'p \<Rightarrow> u64 option \<times> 'p" and release :: "u64 option \<Rightarrow> 'p \<Rightarrow> 'p"
    and invar :: "'p \<Rightarrow> bool" and pages :: "'p \<Rightarrow> u64 set" and free_set :: "'p \<Rightarrow> u64 set"
  assumes free_pages_in: "invar p \<Longrightarrow> free_set p \<subseteq> pages p"
    and page_aligned: "invar p \<Longrightarrow> a \<in> pages p \<Longrightarrow> 4096 dvd unat a \<and> unat a + 4096 \<le> 2 ^ 47"
    and alloc_none: "invar p \<Longrightarrow> alloc p = (None, p') \<Longrightarrow> p' = p \<and> free_set p = {}"
    and alloc_some: "invar p \<Longrightarrow> alloc p = (Some a, p') \<Longrightarrow>
          a \<in> free_set p \<and> free_set p' = free_set p - {a} \<and> pages p' = pages p \<and> invar p'"
    and release_page: "invar p \<Longrightarrow> a \<in> pages p \<Longrightarrow>
          free_set (release (Some a) p) = insert a (free_set p) \<and> pages (release (Some a) p) = pages p \<and> invar (release (Some a) p)"
begin

lemma alloc_fresh: "invar p \<Longrightarrow> alloc p = (Some a, p') \<Longrightarrow> A \<inter> free_set p = {} \<Longrightarrow> a \<notin> A"
  using alloc_some by blast

lemma alloc_release: "invar p \<Longrightarrow> alloc p = (Some a, p') \<Longrightarrow> free_set (release (Some a) p') = free_set p"
  using alloc_some [of p a p'] release_page [of p' a] free_pages_in [of p] by auto

end

interpretation pm: page_allocator pmm_allocate pmm_free pmm_inv pool avail
proof
  fix p a p'
  assume inv: "pmm_inv p"
  show "avail p \<subseteq> pool p" by (rule avail_pool)
  show "a \<in> pool p \<Longrightarrow> 4096 dvd unat a \<and> unat a + 4096 \<le> 2 ^ 47" using pool_bounds [OF inv] by blast
  show "pmm_allocate p = (None, p') \<Longrightarrow> p' = p \<and> avail p = {}" using pmm_allocate_effect(1) [OF inv] by blast
  show "pmm_allocate p = (Some a, p') \<Longrightarrow> a \<in> avail p \<and> avail p' = avail p - {a} \<and> pool p' = pool p \<and> pmm_inv p'"
    using pmm_allocate_Some [OF inv] by blast
  show "a \<in> pool p \<Longrightarrow> avail (pmm_free (Some a) p) = insert a (avail p) \<and> pool (pmm_free (Some a) p) = pool p \<and> pmm_inv (pmm_free (Some a) p)"
    using avail_pmm_free [OF inv] by blast
qed

text \<open>
  C20. \<open>allocate\<close> hands out the lowest available page, which then is no longer available, and
  fails exactly when none is; freeing the page makes the set of available pages and the
  page counter what they were, and freeing it once more changes nothing.
\<close>

theorem pmm_allocate_correct:
  assumes "pmm_inv p" and "pmm_allocate p = (r, p')"
  shows "pmm_inv p' \<and>
    (case r of
       None \<Rightarrow> p' = p \<and> avail p = {}
     | Some a \<Rightarrow> a \<in> avail p \<and> (\<forall>b \<in> avail p. a \<le> b) \<and> avail p' = avail p - {a} \<and>
         4096 dvd unat a \<and> avail (pmm_free (Some a) p') = avail p \<and>
         get_state (pmm_free (Some a) p') = get_state p \<and>
         pmm_free (Some a) (pmm_free (Some a) p') = pmm_free (Some a) p')"
proof (cases r)
  case None
  then show ?thesis using pm.alloc_none assms by auto
next
  case (Some a)
  note r = assms(2) [unfolded Some]
  obtain j where j: "j < pm_pages p" "\<not> used p (unat j)" "\<forall>k < unat j. used p k" "a = page_index_to_address j p"
    "p' = (pm_set_bit j p)\<lparr>pm_free_pages := pm_free_pages p - 1\<rparr>"
    using pmm_allocate_effect(2) [OF assms(1) r refl] by auto
  note s = pmm_allocate_Some [OF assms(1) r]
  have low: "a \<le> b" if "b \<in> avail p" for b
  proof -
    obtain i where i: "i < pm_pages p" "\<not> used p (unat i)" "b = page_index_to_address i p"
      using \<open>b \<in> avail p\<close> by (auto simp: avail_def)
    then have "unat j \<le> unat i" using j(3) not_le by blast
    then show ?thesis using unat_page_address [OF assms(1) j(1)] unat_page_address [OF assms(1) i(1)] i(3) j(4)
      by (simp add: word_le_nat_alt)
  qed
  have wf': "pmm_wf p'" using s(4) pmm_inv_wf by blast
  have lt: "unat j < 65536" using pmm_wfD(2) [OF pmm_inv_wf [OF assms(1)] j(1)] .
  have base: "pm_base p \<le> a" using pool_bounds(3) [OF assms(1)] s(1) avail_pool by blast
  have ix: "unat (address_to_page_index a p') = unat j"
    using base unat_page_index [of p' a] unat_page_address [OF assms(1) j(1)] j(4,5) by simp
  then have ixj: "address_to_page_index a p' = j" by (simp add: word_unat_eq_iff)
  have "used p' (unat j)" using used_set_bit [OF pmm_inv_wf [OF assms(1)] lt, of j] j(5) by simp
  then have f: "pmm_free (Some a) p' = (pm_clear_bit j p')\<lparr>pm_free_pages := pm_free_pages p' + 1\<rparr>"
    using base ixj lt j(5) by (simp add: pmm_free_def Let_def test_bit_used MAX_PAGES_def word_le_nat_alt [of 65536] linorder_not_less)
  have "get_state (pmm_free (Some a) p') = get_state p" by (simp add: get_state_def f) (simp add: j(5))
  moreover have "pmm_free (Some a) (pmm_free (Some a) p') = pmm_free (Some a) p'"
  proof -
    have "address_to_page_index a (pmm_free (Some a) p') = j" using ixj by (simp add: address_to_page_index_def)
    moreover have "\<not> used (pmm_free (Some a) p') (unat j)" using used_clear_bit [OF wf' lt, of j] by (simp add: f)
    ultimately show ?thesis
      using base j(5) by (subst pmm_free_def) (simp add: Let_def test_bit_used)
  qed
  moreover have "4096 dvd unat a" using pool_bounds(1) [OF assms(1)] s(1) avail_pool by blast
  ultimately show ?thesis using Some s low pm.alloc_release [OF assms(1) r] by auto
qed

definition small_pmm :: pmm where
  "small_pmm = \<lparr>pm_bitmap = (replicate 8192 0xFF)[0 := 0xFD], pm_base = 0x100000, pm_pages = 3, pm_free_pages = 1\<rparr>"

lemma small_pmm_inv: "pmm_inv small_pmm"
  by (simp add: pmm_inv_def pmm_wf_def small_pmm_def MAX_PAGES_def)

theorem pmm_allocate_correct_witness:
  "fst (pmm_allocate small_pmm) = Some 0x101000 \<and> avail small_pmm \<noteq> {} \<and>
   avail (pmm_free (Some 0x101000) (snd (pmm_allocate small_pmm))) = avail small_pmm"
proof -
  have r: "pmm_allocate small_pmm = (Some 0x101000, snd (pmm_allocate small_pmm))"
    by (simp add: pmm_allocate_def allocate_from_page.simps [of 0] allocate_from_page.simps [of 1]
        pm_test_bit_def page_bit_def small_pmm_def PAGE_SIZE_def)
  then have "fst (pmm_allocate small_pmm) = Some 0x101000" by (metis fst_conv)
  then show ?thesis using pmm_allocate_correct [OF small_pmm_inv r] by auto
qed

section \<open>What the constructor leaves available\<close>

text \<open>The loop over pages with aligned bounds ends, and visits every page from \<open>addr\<close> to the limit.\<close>

lemma unat_next_page:
  assumes "4096 dvd unat addr" "4096 dvd unat lim" "addr < lim"
  shows "unat (addr + PAGE_SIZE) = unat addr + 4096" "unat addr + 4096 \<le> unat lim"
proof -
  have lt: "unat addr < unat lim" using assms(3) by (simp add: word_less_nat_alt)
  then have "4096 dvd unat lim - unat addr" "0 < unat lim - unat addr" using assms by simp_all
  then have "4096 \<le> unat lim - unat addr" by (rule dvd_imp_le)
  then show le: "unat addr + 4096 \<le> unat lim" using lt by linarith
  have "unat lim < 2 ^ 64" using unsigned_less [of lim] by simp
  then show "unat (addr + PAGE_SIZE) = unat addr + 4096"
    using le by (simp add: PAGE_SIZE_def unat_word_ariths(1))
qed

lemma unat_align_up:
  assumes "unat x + 4095 < 2 ^ 64"
  shows "unat (align_down (x + PAGE_SIZE - 1)) = (unat x + 4095) div 4096 * 4096"
proof -
  have "x + PAGE_SIZE - 1 = x + 4095" by (simp add: PAGE_SIZE_def)
  then have "unat (x + PAGE_SIZE - 1) = unat (x + 4095)" by (rule arg_cong)
  also have "\<dots> = unat x + 4095" using assms by (simp add: unat_word_ariths(1))
  finally show ?thesis by (simp only: unat_align_down)
qed

lemma for_pages_rule:
  assumes "4096 dvd unat addr" "4096 dvd unat lim" and "P (unat addr) s"
    and "\<And>a s. P (unat a) s \<Longrightarrow> 4096 dvd unat a \<Longrightarrow> addr \<le> a \<Longrightarrow> a < lim \<Longrightarrow> P (unat a + 4096) (f a s)"
  shows "\<exists>s'. for_pages f addr lim s = Some s' \<and> P (max (unat addr) (unat lim)) s'"
  using assms
proof (induction f addr lim s rule: for_pages.induct)
  case (1 f addr lim s)
  show ?case
  proof (cases "addr < lim")
    case False
    then show ?thesis using 1(4) by (subst for_pages.simps) (simp add: word_less_nat_alt max_def)
  next
    case True
    note nx = unat_next_page [OF 1(2,3) True]
    have le: "addr \<le> addr + PAGE_SIZE" and nw: "\<not> addr + PAGE_SIZE < addr"
      using nx(1) by (simp_all add: word_le_nat_alt word_less_nat_alt)
    have "\<exists>s'. for_pages f (addr + PAGE_SIZE) lim (f addr s) = Some s' \<and> P (max (unat (addr + PAGE_SIZE)) (unat lim)) s'"
    proof (rule 1(1) [OF _ nw])
      show "4096 dvd unat (addr + PAGE_SIZE)" using nx(1) 1(2) by simp
      show "P (unat (addr + PAGE_SIZE)) (f addr s)" using 1(5) [OF 1(4,2) order_refl True] nx(1) by simp
      show "P (unat a + 4096) (f a s)" if "P (unat a) s" "4096 dvd unat a" "addr + PAGE_SIZE \<le> a" "a < lim" for a s
        using 1(5) that le by (meson order_trans)
    qed (use True 1(3) in auto)
    moreover have "max (unat (addr + PAGE_SIZE)) (unat lim) = max (unat addr) (unat lim)" using nx by simp
    ultimately show ?thesis using True nw by (subst for_pages.simps) simp
  qed
qed

lemma align_down_dvd [simp]: "4096 dvd unat (align_down x)"
  by (simp add: unat_align_down)

lemma region_dvd [simp]: "4096 dvd unat (region_start e)" "4096 dvd unat (region_end e)"
  by (simp_all add: region_start_def region_end_def)

text \<open>An address in an available region and above the kernel.\<close>

definition usable :: "Multiboot2MemoryMapEntry list \<Rightarrow> u64 \<Rightarrow> nat \<Rightarrow> bool" where
  "usable entries kernel_end a \<longleftrightarrow> unat kernel_end \<le> a \<and>
     (\<exists>e \<in> set entries. me_type e = MULTIBOOT2_MEMORY_AVAILABLE \<and> unat (region_start e) \<le> a \<and> a + 4096 \<le> unat (region_end e))"

text \<open>The invariant of the construction: every clear bit belongs to a usable page.\<close>

definition sound :: "Multiboot2MemoryMapEntry list \<Rightarrow> u64 \<Rightarrow> pmm \<Rightarrow> bool" where
  "sound entries kernel_end p \<longleftrightarrow>
     (\<forall>k < 65536. \<not> used p k \<longrightarrow> usable entries kernel_end (unat (pm_base p) + 4096 * k))"

text \<open>Two allocators with the same layout, the second with no more free pages.\<close>

definition shrinks :: "pmm \<Rightarrow> pmm \<Rightarrow> bool" where
  "shrinks p q \<longleftrightarrow> pmm_wf q \<and> pm_base q = pm_base p \<and> pm_pages q = pm_pages p \<and> (\<forall>k < 65536. used p k \<longrightarrow> used q k)"

lemma shrinks_refl: "pmm_wf p \<Longrightarrow> shrinks p p"
  by (simp add: shrinks_def)

lemma shrinks_trans: "shrinks p q \<Longrightarrow> shrinks q r \<Longrightarrow> shrinks p r"
  by (simp add: shrinks_def)

lemma shrinks_sound: "shrinks p q \<Longrightarrow> sound es ke p \<Longrightarrow> sound es ke q"
  by (auto simp: shrinks_def sound_def)

lemma shrinks_set_bit: "pmm_wf p \<Longrightarrow> shrinks p (pm_set_bit i p)" "pmm_wf p \<Longrightarrow> shrinks p ((pm_set_bit i p)\<lparr>pm_free_pages := n\<rparr>)"
  by (simp_all add: shrinks_def used_set_bit)

lemma shrinks_steps:
  "pmm_wf p \<Longrightarrow> shrinks p (drop_null_page p)" "pmm_wf p \<Longrightarrow> shrinks p (claim_kernel_page a p)"
  "pmm_wf p \<Longrightarrow> shrinks p (reserve_page a p)"
  by (simp_all add: drop_null_page_def claim_kernel_page_def reserve_page_def Let_def shrinks_set_bit shrinks_refl)

text \<open>Releasing a region keeps the construction invariant.\<close>

lemma sound_release_page:
  assumes p: "pmm_wf p" "sound es ke p" and base: "4096 dvd unat (pm_base p)"
    and e: "e \<in> set es" "me_type e = MULTIBOOT2_MEMORY_AVAILABLE"
    and a: "4096 dvd unat a" "region_start e \<le> a" "a < region_end e"
  shows "sound es ke (release_page ke a p)"
proof -
  have u: "usable es ke (unat a)" if "\<not> a < ke"
  proof -
    have "unat a + 4096 \<le> unat (region_end e)" using unat_next_page(2) [OF a(1) _ a(3)] by simp
    then show ?thesis using e a(2) that unfolding usable_def by (auto simp: word_le_nat_alt word_less_nat_alt)
  qed
  show ?thesis unfolding sound_def
  proof (intro allI impI)
    fix k assume k: "k < 65536" "\<not> used (release_page ke a p) k"
    show "usable es ke (unat (pm_base (release_page ke a p)) + 4096 * k)"
    proof (cases "a < ke \<or> \<not> used p k")
      case True
      then show ?thesis using k p(2) by (cases "a < ke") (auto simp: release_page_def sound_def)
    next
      case False
      then have "freed_index a p k" using k used_pmm_free [OF p(1) k(1)] by (simp add: release_page_def)
      then have "pm_base p \<le> a" "k = (unat a - unat (pm_base p)) div 4096" by (simp_all add: freed_index_def)
      moreover from this have "4096 dvd unat a - unat (pm_base p)" using a(1) base by (intro dvd_diff_nat)
      ultimately have "unat (pm_base p) + 4096 * k = unat a" by (simp add: word_le_nat_alt)
      then show ?thesis using u False by (simp add: release_page_def)
    qed
  qed
qed

lemma release_page_fields [simp]:
  "pm_base (release_page ke a p) = pm_base p" "pm_pages (release_page ke a p) = pm_pages p" "pmm_wf (release_page ke a p) = pmm_wf p"
  by (simp_all add: release_page_def)

lemma release_regions_sound:
  assumes "pmm_wf p" "sound es ke p" "4096 dvd unat (pm_base p)" "set fs \<subseteq> set es"
  shows "\<exists>q. fold (release_region ke) fs (Some p) = Some q \<and> pmm_wf q \<and> sound es ke q \<and>
    pm_base q = pm_base p \<and> pm_pages q = pm_pages p"
  using assms
proof (induction fs arbitrary: p)
  case (Cons e fs)
  have "\<exists>q. release_region ke e (Some p) = Some q \<and> pmm_wf q \<and> sound es ke q \<and> pm_base q = pm_base p \<and> pm_pages q = pm_pages p"
  proof (cases "me_type e = MULTIBOOT2_MEMORY_AVAILABLE \<and> region_start e < region_end e")
    case True
    have "\<exists>q. for_pages (release_page ke) (region_start e) (region_end e) p = Some q \<and>
        (pmm_wf q \<and> sound es ke q \<and> pm_base q = pm_base p \<and> pm_pages q = pm_pages p)"
      using Cons.prems True
      by (intro for_pages_rule [where P = "\<lambda>_ q. pmm_wf q \<and> sound es ke q \<and> pm_base q = pm_base p \<and> pm_pages q = pm_pages p"])
         (auto intro!: sound_release_page)
    moreover have "\<not> region_start e \<ge> region_end e" using True by (simp add: linorder_not_le)
    ultimately show ?thesis using True by (simp add: release_region_def)
  qed (use Cons.prems in \<open>auto simp: release_region_def\<close>)
  then obtain q where q: "release_region ke e (Some p) = Some q" "pmm_wf q" "sound es ke q" "pm_base q = pm_base p" "pm_pages q = pm_pages p"
    by auto
  from Cons.IH [OF q(2,3)] q Cons.prems show ?case by auto
qed simp

text \<open>Reserving sets the bit of every managed page it visits.\<close>

lemma reserve_page_used:
  assumes "pmm_wf p" "pm_base p \<le> a" "address_to_page_index a p < pm_pages p"
  shows "used (reserve_page a p) (unat (address_to_page_index a p))"
  using assms pmm_wfD(2) [OF assms(1,3)]
  by (auto simp: reserve_page_def Let_def test_bit_used used_set_bit linorder_not_less linorder_not_le)

lemma page_cover:
  fixes a b k n :: nat
  assumes "4096 dvd a" "4096 dvd b" "a \<le> b + 4096 * k" "b + 4096 * k < a + 4096"
  shows "a = b + 4096 * k"
proof -
  obtain x y where xy: "a = 4096 * x" "b = 4096 * y" using assms(1,2) by (auto elim!: dvdE)
  then have "4096 * x \<le> 4096 * (y + k)" "4096 * (y + k) < 4096 * Suc x" using assms(3,4) by (simp_all add: distrib_left)
  then have "x \<le> y + k" "y + k < Suc x" by simp_all
  then have "x = y + k" by simp
  then show ?thesis using xy by (simp add: distrib_left)
qed

lemma reserve_page_step:
  assumes p: "4096 dvd unat (pm_base p)" and q: "shrinks p q" and a: "4096 dvd unat a"
    and seen: "\<forall>k < unat (pm_pages p). lo \<le> unat (pm_base p) + 4096 * k \<and> unat (pm_base p) + 4096 * k < unat a \<longrightarrow> used q k"
  shows "\<forall>k < unat (pm_pages p). lo \<le> unat (pm_base p) + 4096 * k \<and> unat (pm_base p) + 4096 * k < unat a + 4096 \<longrightarrow>
    used (reserve_page a q) k"
proof (intro allI impI)
  fix k assume k: "k < unat (pm_pages p)" "lo \<le> unat (pm_base p) + 4096 * k \<and> unat (pm_base p) + 4096 * k < unat a + 4096"
  have wf: "pmm_wf q" and base: "pm_base q = pm_base p" and pages: "pm_pages q = pm_pages p" using q by (simp_all add: shrinks_def)
  have k6: "k < 65536" using wf k(1) pages by (simp add: pmm_wf_def MAX_PAGES_def word_le_nat_alt)
  show "used (reserve_page a q) k"
  proof (cases "unat (pm_base p) + 4096 * k < unat a")
    case True
    then have "used q k" using seen k by blast
    then show ?thesis using shrinks_steps(3) [OF wf] k6 by (simp add: shrinks_def)
  next
    case False
    then have eq: "unat a = unat (pm_base p) + 4096 * k" using page_cover [OF a p] k(2) by simp
    then have ge: "pm_base q \<le> a" by (simp add: base word_le_nat_alt)
    have ix: "unat (address_to_page_index a q) = k" using unat_page_index [OF ge] eq base by simp
    then have "address_to_page_index a q < pm_pages q" using k(1) pages by (simp add: word_less_nat_alt)
    from reserve_page_used [OF wf ge this] show ?thesis using ix by simp
  qed
qed

lemma reserve_region_effect:
  assumes p: "pmm_wf p" "4096 dvd unat (pm_base p)" and lim: "unat lim + 4095 < 2 ^ 64"
  shows "\<exists>q. reserve_region start lim p = Some q \<and> shrinks p q \<and>
    (\<forall>k < unat (pm_pages p). unat start < unat lim \<and> unat start < unat (pm_base p) + 4096 * k + 4096 \<and>
       unat (pm_base p) + 4096 * k < unat lim \<longrightarrow> used q k)"
proof (cases "lim \<le> start")
  case True
  then show ?thesis using p shrinks_refl by (simp add: reserve_region_def word_le_nat_alt)
next
  case False
  define last where "last = align_down (lim + PAGE_SIZE - 1)"
  let ?P = "\<lambda>n q. shrinks p q \<and> (\<forall>k < unat (pm_pages p).
      unat (align_down start) \<le> unat (pm_base p) + 4096 * k \<and> unat (pm_base p) + 4096 * k < n \<longrightarrow> used q k)"
  have "\<exists>q. for_pages reserve_page (align_down start) last p = Some q \<and> ?P (max (unat (align_down start)) (unat last)) q"
  proof (rule for_pages_rule)
    show "?P (unat (align_down start)) p" using p shrinks_refl by auto
    show "?P (unat a + 4096) (reserve_page a q)" if "?P (unat a) q" "4096 dvd unat a" for a q
    proof
      have "pmm_wf q" using that(1) by (simp add: shrinks_def)
      then show "shrinks p (reserve_page a q)" using that(1) shrinks_trans shrinks_steps(3) by blast
      show "\<forall>k < unat (pm_pages p). unat (align_down start) \<le> unat (pm_base p) + 4096 * k \<and>
          unat (pm_base p) + 4096 * k < unat a + 4096 \<longrightarrow> used (reserve_page a q) k"
        using that by (intro reserve_page_step [OF p(2)]) blast+
    qed
  qed (simp_all add: last_def)
  then obtain q where q: "for_pages reserve_page (align_down start) last p = Some q" "?P (max (unat (align_down start)) (unat last)) q" by auto
  have top: "unat lim \<le> unat last" using unat_align_up [OF lim] by (simp add: last_def)
  have "used q k" if k: "k < unat (pm_pages p)" "unat start < unat (pm_base p) + 4096 * k + 4096" "unat (pm_base p) + 4096 * k < unat lim" for k
  proof -
    obtain y where "unat (pm_base p) = 4096 * y" using p(2) by (auto elim!: dvdE)
    then have "unat (pm_base p) + 4096 * k = (y + k) * 4096" "unat start < Suc (y + k) * 4096" using k(2) by simp_all
    moreover from this(2) have "unat start div 4096 < Suc (y + k)" by (rule less_mult_imp_div_less)
    ultimately have "unat (align_down start) \<le> unat (pm_base p) + 4096 * k" by (simp add: unat_align_down)
    then show ?thesis using q(2) k top by simp
  qed
  then show ?thesis using q False by (auto simp: reserve_region_def last_def)
qed

lemma for_pages_shrinks:
  assumes "4096 dvd unat lo" "4096 dvd unat hi" "pmm_wf p" "\<And>a q. pmm_wf q \<Longrightarrow> shrinks q (f a q)"
  shows "\<exists>q. for_pages f lo hi p = Some q \<and> shrinks p q"
  using for_pages_rule [where P = "\<lambda>_ q. shrinks p q", OF assms(1,2)] assms(3,4) shrinks_refl shrinks_trans
  by (auto simp: shrinks_def)

lemma base_aligned: "4096 dvd unat (snd (fold count_region es (t, b)))" if "4096 dvd unat b"
  using that by (induction es arbitrary: t b) (simp_all add: count_region_def)

lemma full_pmm_used: "k < 65536 \<Longrightarrow> used (full_pmm\<lparr>pm_base := b, pm_pages := n\<rparr>) k"
proof -
  assume "k < 65536"
  then have "k div 8 < 8192" by simp
  moreover have "bit (0xFF :: u8) (k mod 8)"
  proof -
    have "(0xFF :: u8) = mask 8" by (simp add: mask_eq_exp_minus_1)
    then show ?thesis by (simp only: bit_mask_iff) simp
  qed
  ultimately show ?thesis by (simp add: used_def full_pmm_def BITMAP_SIZE_def MAX_PAGES_def)
qed

text \<open>
  The phases of the constructor on a memory map with some memory: pages of the available regions are
  released, then the null page, the kernel and the boot information are taken out again.
\<close>

lemma build_phases:
  assumes mb: "unat mb + unat info_size < 2 ^ 32" and t: "fold count_region entries (0, 0) = (total_pages, base)" and nz: "total_pages \<noteq> 0"
  obtains p p1 where "build_pmm entries kernel_end mb info_size = Some p" "pmm_wf p1" "sound entries kernel_end p1" "pm_base p1 = base"
    "shrinks p1 (drop_null_page p1)" "shrinks (drop_null_page p1) p"
    "\<forall>k < unat (pm_pages p). 0 < info_size \<and> unat mb < unat base + 4096 * k + 4096 \<and>
       unat base + 4096 * k < unat mb + unat info_size \<longrightarrow> used p k"
proof -
  have b: "4096 dvd unat base" using base_aligned [of 0 entries 0] t by simp
  define n where "n = (if total_pages > MAX_PAGES then MAX_PAGES else total_pages)"
  let ?p0 = "full_pmm\<lparr>pm_base := base, pm_pages := n\<rparr>"
  have wf0: "pmm_wf ?p0" by (simp add: pmm_wf_def full_pmm_def BITMAP_SIZE_def n_def) (simp add: MAX_PAGES_def linorder_not_less)
  have "sound entries kernel_end ?p0" by (simp add: sound_def full_pmm_used)
  then obtain p1 where p1: "fold (release_region kernel_end) entries (Some ?p0) = Some p1" "pmm_wf p1" "sound entries kernel_end p1"
      "pm_base p1 = base" "pm_pages p1 = n"
    using release_regions_sound [OF wf0, of entries kernel_end entries] b by auto
  let ?p2 = "drop_null_page p1"
  have s2: "shrinks p1 ?p2" using shrinks_steps(1) [OF p1(2)] by simp
  have b2: "pm_base ?p2 = base" and w2: "pmm_wf ?p2" using s2 p1(4) by (auto simp: shrinks_def)
  have "\<exists>q. for_pages claim_kernel_page base (align_down (kernel_end + PAGE_SIZE - 1)) ?p2 = Some q \<and> shrinks ?p2 q"
    using b w2 shrinks_steps(2) by (intro for_pages_shrinks) auto
  then obtain p3 where p3: "for_pages claim_kernel_page base (align_down (kernel_end + PAGE_SIZE - 1)) ?p2 = Some p3" "shrinks ?p2 p3" by auto
  have w3: "pmm_wf p3" "pm_base p3 = base" "pm_pages p3 = n" using p3(2) s2 p1(4,5) by (auto simp: shrinks_def)
  have end_u: "unat (ucast (mb + info_size) :: u64) = unat mb + unat info_size" "unat (ucast mb :: u64) = unat mb"
    using mb by (simp_all add: unsigned_ucast_eq unat_word_ariths(1) unsigned_take_bit_eq take_bit_nat_eq_self unat_plus_simple)
  obtain p where p: "reserve_region (ucast mb) (ucast (mb + info_size)) p3 = Some p" "shrinks p3 p"
    and info: "\<forall>k < unat n. unat mb < unat mb + unat info_size \<and> unat mb < unat base + 4096 * k + 4096 \<and>
      unat base + 4096 * k < unat mb + unat info_size \<longrightarrow> used p k"
    using reserve_region_effect [OF w3(1), of "ucast (mb + info_size)" "ucast mb"] b mb by (auto simp: end_u w3(2,3))
  have "build_pmm entries kernel_end mb info_size = Some p"
    using t nz p1(1) p3(1) p(1) b2 by (simp add: build_pmm_def n_def [symmetric] Let_def)
  moreover have "pm_pages p = n" using p(2) w3(3) by (simp add: shrinks_def)
  ultimately show thesis
    using that [OF _ p1(2-4) s2 shrinks_trans [OF p3(2) p(2)]] info by (simp add: word_less_nat_alt)
qed


definition one_region :: "u64 \<Rightarrow> nat \<Rightarrow> Multiboot2MemoryMapEntry" where
  "one_region base n = \<lparr>me_base_addr = base, me_length = of_nat (4096 * n), me_type = MULTIBOOT2_MEMORY_AVAILABLE\<rparr>"


section \<open>The page counter of a fresh allocator\<close>

text \<open>
  A memory map with one available region of \<open>n\<close> pages whose first \<open>k\<close> pages hold the kernel.
\<close>

definition kernel_at_bottom :: "u64 \<Rightarrow> nat \<Rightarrow> nat \<Rightarrow> bool" where
  "kernel_at_bottom base n k \<longleftrightarrow>
     4096 dvd unat base \<and> base \<noteq> 0 \<and> 0 < n \<and> k \<le> n \<and> n \<le> 65536 \<and> unat base + 4096 * n \<le> 2 ^ 47"

lemma unat_pages: "4096 * i < 2 ^ 64 \<Longrightarrow> unat (4096 * of_nat i :: u64) = 4096 * i"
  using unat_of_nat [of "4096 * i", where ?'a = 64] by simp

lemma region_word:
  assumes "kernel_at_bottom base n k" "i \<le> n"
  shows "unat (base + of_nat (4096 * i)) = unat base + 4096 * i"
    "align_down (base + of_nat (4096 * i)) = base + of_nat (4096 * i)"
    "align_down (base + of_nat (4096 * i) + PAGE_SIZE - 1) = base + of_nat (4096 * i)"
proof -
  have lt: "unat base + 4096 * i \<le> 2 ^ 47" and al: "4096 dvd unat base" using assms by (auto simp: kernel_at_bottom_def)
  show u: "unat (base + of_nat (4096 * i)) = unat base + 4096 * i"
    using lt by (simp add: unat_word_ariths(1) unat_pages)
  show "align_down (base + of_nat (4096 * i)) = base + of_nat (4096 * i)"
    using al by (simp add: word_unat_eq_iff unat_align_down u [simplified])
  have "unat (align_down (base + of_nat (4096 * i) + PAGE_SIZE - 1)) = (unat base + 4096 * i + 4095) div 4096 * 4096"
    using unat_align_up [of "base + of_nat (4096 * i)"] lt u by simp
  moreover have "(unat base + 4096 * i + 4095) div 4096 * 4096 = unat base + 4096 * i"
  proof -
    obtain y where "unat base = 4096 * y" using al by (auto elim!: dvdE)
    then have "unat base + 4096 * i + 4095 = 4095 + (y + i) * 4096" "unat base + 4096 * i = (y + i) * 4096" by simp_all
    then show ?thesis by (simp only: div_mult_self1) simp
  qed
  ultimately show "align_down (base + of_nat (4096 * i) + PAGE_SIZE - 1) = base + of_nat (4096 * i)"
    using u by (simp add: word_unat_eq_iff)
qed

lemma count_one_region:
  assumes "kernel_at_bottom base n k"
  shows "fold count_region [one_region base n] (0, 0) = (of_nat n, base)" "region_start (one_region base n) = base"
    "region_end (one_region base n) = base + of_nat (4096 * n)" "(of_nat n :: u64) \<noteq> 0" "\<not> of_nat n > MAX_PAGES"
    "region_start (one_region base n) < region_end (one_region base n)" "unat (of_nat n :: u64) = n"
proof -
  have n: "0 < n" "n \<le> 65536" "unat base + 4096 * n \<le> 2 ^ 47" using assms by (auto simp: kernel_at_bottom_def)
  show st: "region_start (one_region base n) = base"
    using region_word(3) [OF assms, of 0] by (simp add: region_start_def one_region_def)
  show en: "region_end (one_region base n) = base + of_nat (4096 * n)"
    using region_word(2) [OF assms, of n] by (simp add: region_end_def one_region_def)
  show un: "unat (of_nat n :: u64) = n" using n by (simp add: unat_of_nat)
  show "(of_nat n :: u64) \<noteq> 0" "\<not> of_nat n > MAX_PAGES" using n un by (auto simp: word_unat_eq_iff word_less_nat_alt MAX_PAGES_def)
  have u: "unat (base + of_nat (4096 * n)) = unat base + 4096 * n" using region_word(1) [OF assms, of n] by simp
  show lt: "region_start (one_region base n) < region_end (one_region base n)"
    using n u by (simp add: st en word_less_nat_alt)
  have "(base + of_nat (4096 * n) - base) div PAGE_SIZE = of_nat n"
    using n un by (simp add: word_unat_eq_iff unat_div unat_pages PAGE_SIZE_def)
  then show "fold count_region [one_region base n] (0, 0) = (of_nat n, base)"
    using linorder_not_le [THEN iffD2, OF lt] st en by (simp add: count_region_def) (simp add: one_region_def)
qed

text \<open>The pages \<open>k..i-1\<close> have been released, and counted.\<close>

definition released :: "u64 \<Rightarrow> nat \<Rightarrow> nat \<Rightarrow> nat \<Rightarrow> nat \<Rightarrow> pmm \<Rightarrow> bool" where
  "released base n k i c q \<longleftrightarrow> pmm_wf q \<and> pm_base q = base \<and> pm_pages q = of_nat n \<and> pm_free_pages q = of_nat c \<and>
     (\<forall>j < 65536. used q j \<longleftrightarrow> \<not> (k \<le> j \<and> j < i))"

lemma index_in_region:
  assumes "unat a = unat base + 4096 * i" "pm_base q = base" "i < 65536"
  shows "pm_base q \<le> a" "unat (address_to_page_index a q) = i" "\<not> a < pm_base q" "address_to_page_index a q < MAX_PAGES"
proof -
  show ge: "pm_base q \<le> a" using assms by (simp add: word_le_nat_alt)
  then show ix: "unat (address_to_page_index a q) = i" using unat_page_index [OF ge] assms by simp
  show "\<not> a < pm_base q" using ge by simp
  show "address_to_page_index a q < MAX_PAGES" using ix assms(3) by (simp add: word_less_nat_alt MAX_PAGES_def)
qed

lemma released_step:
  assumes r: "released base n k i (i - k) q" and a: "unat a = unat base + 4096 * i" and i: "i < n" and kb: "kernel_at_bottom base n k"
  shows "released base n k (Suc i) (Suc i - k) (release_page (base + of_nat (4096 * k)) a q)"
proof -
  have q: "pmm_wf q" "pm_base q = base" "pm_free_pages q = of_nat (i - k)" "pm_pages q = of_nat n" using r by (auto simp: released_def)
  have i6: "i < 65536" using i kb by (auto simp: kernel_at_bottom_def)
  have ke: "a < base + of_nat (4096 * k) \<longleftrightarrow> i < k"
    using a region_word(1) [OF kb, of k] kb by (simp add: kernel_at_bottom_def word_less_nat_alt)
  show ?thesis
  proof (cases "i < k")
    case True
    then show ?thesis using r ke by (auto simp: release_page_def released_def)
  next
    case False
    note ix = index_in_region [OF a q(2) i6]
    have "used q i" using r i6 by (simp add: released_def)
    then have f: "release_page (base + of_nat (4096 * k)) a q =
        (pm_clear_bit (address_to_page_index a q) q)\<lparr>pm_free_pages := pm_free_pages q + 1\<rparr>"
      using False ke ix by (simp add: release_page_def pmm_free_def Let_def test_bit_used linorder_not_le)
    have u: "used (pm_clear_bit (address_to_page_index a q) q) j \<longleftrightarrow> j \<noteq> i \<and> used q j" if "j < 65536" for j
      using used_clear_bit [OF q(1) that, of "address_to_page_index a q"] ix(2) by simp
    have cnt: "Suc i - k = Suc (i - k)" using False by simp
    have us: "used q j \<longleftrightarrow> \<not> (k \<le> j \<and> j < i)" if "j < 65536" for j using r that by (simp add: released_def)
    have "(j \<noteq> i \<and> used q j) \<longleftrightarrow> \<not> (k \<le> j \<and> j < Suc i)" if "j < 65536" for j
      using us [OF that] False by auto
    then show ?thesis unfolding f cnt using q u by (simp add: released_def)
  qed
qed

lemma claimed_step:
  assumes r: "released base n k n c q" and a: "unat a = unat base + 4096 * i" and i: "i < k" and kb: "kernel_at_bottom base n k" and c: "c \<le> n"
  shows "released base n k n (c - 1) (claim_kernel_page a q)"
proof -
  have q: "pmm_wf q" "pm_base q = base" "pm_free_pages q = of_nat c" "pm_pages q = of_nat n" using r by (auto simp: released_def)
  have i6: "i < 65536" "i < n" using i kb by (auto simp: kernel_at_bottom_def)
  note ix = index_in_region [OF a q(2) i6(1)]
  have lt: "address_to_page_index a q < pm_pages q" using ix(2) i6 count_one_region(7) [OF kb] q(4) by (simp add: word_less_nat_alt)
  have u: "used (pm_set_bit (address_to_page_index a q) q) j \<longleftrightarrow> used q j" if "j < 65536" for j
    using used_set_bit [OF q(1) that, of "address_to_page_index a q"] ix(2) r i i6 by (auto simp: released_def)
  have c64: "unat (of_nat c :: u64) = c" using c kb by (simp add: kernel_at_bottom_def unat_of_nat)
  have pos: "0 < pm_free_pages q \<longleftrightarrow> 0 < c" using q(3) c64 by (simp add: word_less_nat_alt)
  have "pm_free_pages q - 1 = of_nat (c - 1)" if "0 < c" using that q(3) by (simp add: of_nat_diff)
  then show ?thesis using lt pos q r u by (auto simp: claim_kernel_page_def Let_def released_def)
qed

lemma build_one_region:
  assumes kb: "kernel_at_bottom base n k"
  shows "\<exists>p. build_pmm [one_region base n] (base + of_nat (4096 * k)) 0 0 = Some p \<and> released base n k n (n - k - k) p"
proof -
  define ke where "ke = base + of_nat (4096 * k)"
  note one = count_one_region [OF kb]
  have al: "4096 dvd unat base" "k \<le> n" "n \<le> 65536" "base \<noteq> 0" using kb by (auto simp: kernel_at_bottom_def)
  let ?lim = "base + of_nat (4096 * n)"
  have un: "unat ?lim = unat base + 4096 * n" and uk: "unat ke = unat base + 4096 * k"
    using region_word(1) [OF kb, of n] region_word(1) [OF kb, of k] al by (simp_all add: ke_def)
  let ?p0 = "full_pmm\<lparr>pm_base := base, pm_pages := of_nat n\<rparr>"
  have "pmm_wf ?p0" using one(5) by (simp add: pmm_wf_def full_pmm_def BITMAP_SIZE_def linorder_not_less) (simp add: MAX_PAGES_def)
  then have r0: "released base n k 0 0 ?p0" using full_pmm_used by (simp add: released_def) (simp add: full_pmm_def)
  let ?P = "\<lambda>m q. \<exists>i. m = unat base + 4096 * i \<and> released base n k i (i - k) q"
  have "\<exists>q. for_pages (release_page ke) base ?lim ?p0 = Some q \<and> ?P (max (unat base) (unat ?lim)) q"
  proof (rule for_pages_rule)
    show "?P (unat base) ?p0" using r0 by auto
    show "?P (unat a + 4096) (release_page ke a q)"
      if h: "?P (unat a) q" "4096 dvd unat a" "base \<le> a" "a < ?lim" for a q
    proof -
      obtain i where i: "unat a = unat base + 4096 * i" "released base n k i (i - k) q" using h(1) by auto
      then have "i < n" using h(4) un by (simp add: word_less_nat_alt)
      from released_step [OF i(2,1) this kb] show ?thesis using i(1) by (intro exI [of _ "Suc i"]) (simp add: ke_def)
    qed
  qed (use al un in auto)
  then obtain p1 where p1: "for_pages (release_page ke) base ?lim ?p0 = Some p1" "released base n k n (n - k) p1"
    using un by (auto simp: max_def split: if_splits)
  have b1: "pm_base p1 = base" using p1(2) by (simp add: released_def)
  then have null: "drop_null_page p1 = p1" using al by (simp add: drop_null_page_def)
  let ?Q = "\<lambda>m q. \<exists>i. m = unat base + 4096 * i \<and> released base n k n (n - k - i) q"
  have "\<exists>q. for_pages claim_kernel_page base ke p1 = Some q \<and> ?Q (max (unat base) (unat ke)) q"
  proof (rule for_pages_rule)
    show "?Q (unat base) p1" using p1(2) by auto
    show "?Q (unat a + 4096) (claim_kernel_page a q)"
      if h: "?Q (unat a) q" "4096 dvd unat a" "base \<le> a" "a < ke" for a q
    proof -
      obtain i where i: "unat a = unat base + 4096 * i" "released base n k n (n - k - i) q" using h(1) by auto
      then have "i < k" using h(4) uk by (simp add: word_less_nat_alt)
      from claimed_step [OF i(2,1) this kb] show ?thesis using i(1) by (intro exI [of _ "Suc i"]) simp
    qed
  qed (use al uk in auto)
  then obtain p where p: "for_pages claim_kernel_page base ke p1 = Some p" "released base n k n (n - k - k) p"
    using uk by (auto simp: max_def split: if_splits)
  have up: "align_down (ke + PAGE_SIZE - 1) = ke" using region_word(3) [OF kb, of k] al by (simp add: ke_def)
  have "release_region ke (one_region base n) (Some ?p0) = Some p1"
    using one(2,3,6) p1(1) linorder_not_le [THEN iffD2, OF one(6)] by (simp add: release_region_def) (simp add: one_region_def)
  then have "build_pmm [one_region base n] ke 0 0 = Some p"
    using one(1,4,5) null up p(1) b1
    by (simp only: build_pmm_def prod.case fold.simps id_apply comp_apply if_False Let_def bind.bind_lunit) (simp add: reserve_region_def)
  then show ?thesis using p(2) by (auto simp: ke_def)
qed

text \<open>
  C22. With the kernel in the first \<open>k\<close> of the \<open>n\<close> pages of the only available region, the
  constructor leaves \<open>n - k\<close> pages available but a page counter of \<open>n - 2k\<close>: the pages of the
  kernel, which were never counted as free, are subtracted. When the kernel fills half of
  the region or more, the counter is zero although pages are available, and the next
  allocation succeeds and wraps the counter around.
\<close>

theorem pmm_counter_undercounts:
  assumes "kernel_at_bottom base n k"
  shows "\<exists>p. build_pmm [one_region base n] (base + of_nat (4096 * k)) 0 0 = Some p \<and>
    card (avail p) = n - k \<and> unat (st_free_pages (get_state p)) = n - k - k \<and>
    (n \<le> 2 * k \<and> k < n \<longrightarrow>
       (\<exists>a p'. pmm_allocate p = (Some a, p') \<and> st_free_pages (get_state p') = - 1))"
proof -
  obtain p where b: "build_pmm [one_region base n] (base + of_nat (4096 * k)) 0 0 = Some p" and r: "released base n k n (n - k - k) p"
    using build_one_region [OF assms] by auto
  have nk: "k \<le> n" "n \<le> 65536" "4096 dvd unat base" "unat base + 4096 * n \<le> 2 ^ 47" using assms by (auto simp: kernel_at_bottom_def)
  have p: "pmm_wf p" "pm_base p = base" "pm_pages p = of_nat n" "pm_free_pages p = of_nat (n - k - k)" using r by (auto simp: released_def)
  have un: "unat (of_nat n :: u64) = n" using count_one_region(7) [OF assms] .
  have inv: "pmm_inv p" using p nk un by (simp add: pmm_inv_def)
  have u: "used p j \<longleftrightarrow> j < k" if "j < n" for j using r nk that by (auto simp: released_def)
  have "avail p = (\<lambda>j. page_index_to_address (of_nat j) p) ` {k..<n}"
  proof (intro equalityI subsetI)
    fix a assume "a \<in> avail p"
    then obtain i where i: "i < pm_pages p" "\<not> used p (unat i)" "a = page_index_to_address i p" by (auto simp: avail_def)
    have "unat i < n" using i(1) p(3) un by (simp add: word_less_nat_alt)
    then show "a \<in> (\<lambda>j. page_index_to_address (of_nat j) p) ` {k..<n}" using i u by (intro image_eqI [of _ _ "unat i"]) auto
  next
    fix a assume "a \<in> (\<lambda>j. page_index_to_address (of_nat j) p) ` {k..<n}"
    then obtain j where j: "k \<le> j" "j < n" "a = page_index_to_address (of_nat j) p" by auto
    have "unat (of_nat j :: u64) = j" using j nk by (simp add: unat_of_nat)
    then show "a \<in> avail p" using j p(3) un u unfolding avail_def by (auto simp: word_less_nat_alt)
  qed
  moreover have "inj_on (\<lambda>j. page_index_to_address (of_nat j) p) {k..<n}"
  proof (rule inj_onI)
    fix i j assume ij: "i \<in> {k..<n}" "j \<in> {k..<n}" "page_index_to_address (of_nat i) p = page_index_to_address (of_nat j) p"
    have v: "unat (of_nat i :: u64) = i" "unat (of_nat j :: u64) = j" using ij nk by (simp_all add: unat_of_nat)
    then have "(of_nat i :: u64) < pm_pages p" "(of_nat j :: u64) < pm_pages p" using ij p(3) un by (simp_all add: word_less_nat_alt)
    then show "i = j" using page_address_inj [OF inv] ij(3) v by metis
  qed
  ultimately have card: "card (avail p) = n - k" by (simp add: card_image)
  have cnt: "unat (st_free_pages (get_state p)) = n - k - k" using p(4) nk by (simp add: get_state_def unat_of_nat)
  have "\<exists>a p'. pmm_allocate p = (Some a, p') \<and> st_free_pages (get_state p') = - 1" if "n \<le> 2 * k" "k < n"
  proof -
    obtain o' p' where al: "pmm_allocate p = (o', p')" by (cases "pmm_allocate p")
    have "avail p \<noteq> {}" using card that by auto
    then obtain a where a: "o' = Some a" using pm.alloc_none [OF inv] al by (cases o') auto
    then obtain j where "p' = (pm_set_bit j p)\<lparr>pm_free_pages := pm_free_pages p - 1\<rparr>" using pmm_allocate_effect(2) [OF inv al] by auto
    then show ?thesis using al a that p(4) by (simp add: get_state_def)
  qed
  then show ?thesis using b card cnt by blast
qed

theorem pmm_counter_undercounts_witness:
  "\<exists>p a p'. build_pmm [one_region 0x100000 7] (0x100000 + of_nat (4096 * 4)) 0 0 = Some p \<and> card (avail p) = 3 \<and>
     pmm_allocate p = (Some a, p') \<and> st_free_pages (get_state p') = - 1"
  using pmm_counter_undercounts [of "0x100000" 7 4] by (auto simp: kernel_at_bottom_def)

end
