(* ===== verification/Virt_Memory.thy ===== *)
theory Virt_Memory
  imports Phys_Memory
begin

text \<open>
  The page tables of \<open>include/vmm.cpp\<close> over a word memory: the four-level walk, mapping and
  unmapping, address spaces and their duplication. Physical memory is reached through the
  direct map, so a table pointer (\<open>VirtualAddress\<close>) is a direct-map address, 0 being \<open>nullptr\<close>, and
  memory is a function from 8-byte-aligned addresses to 64-bit words.
\<close>

section \<open>Addresses and flags\<close>

type_synonym VirtualAddress = u64
type_synonym PageVirtualAddress = u64
type_synonym PageFlag = u64

definition PAGE_MASK :: u64 where "PAGE_MASK = NOT (PAGE_SIZE - 1)"

definition Present :: PageFlag where "Present = 1"
definition Writable :: PageFlag where "Writable = 2"
definition User :: PageFlag where "User = 4"
definition Accessed :: PageFlag where "Accessed = 32"
definition Dirty :: PageFlag where "Dirty = 64"
definition HugePage :: PageFlag where "HugePage = 128"
definition NoExecute :: PageFlag where "NoExecute = push_bit 63 1"

definition phys_to_virt :: "u64 \<Rightarrow> u64" where "phys_to_virt phys = phys + DIRECT_MAP_BASE"
definition virt_to_phys_direct :: "u64 \<Rightarrow> u64" where "virt_to_phys_direct virt = virt - DIRECT_MAP_BASE"

definition ENTRIES_PER_TABLE :: nat where "ENTRIES_PER_TABLE = 512"

definition pml4_index :: "PageVirtualAddress \<Rightarrow> u64" where "pml4_index va = drop_bit 39 va AND 0x1FF"
definition pdpt_index :: "PageVirtualAddress \<Rightarrow> u64" where "pdpt_index va = drop_bit 30 va AND 0x1FF"
definition pd_index :: "PageVirtualAddress \<Rightarrow> u64" where "pd_index va = drop_bit 21 va AND 0x1FF"
definition pt_index :: "PageVirtualAddress \<Rightarrow> u64" where "pt_index va = drop_bit 12 va AND 0x1FF"

definition frame :: "u64 \<Rightarrow> u64" where "frame entry = entry AND 0x000FFFFFFFFFF000"

definition entry_to_phys :: "u64 \<Rightarrow> PhysicalAddress" where "entry_to_phys entry = Some (frame entry)"

definition physical_to_virtual :: "PhysicalAddress \<Rightarrow> VirtualAddress" where
  "physical_to_virtual phys = (case phys of None \<Rightarrow> 0 | Some p \<Rightarrow> p + DIRECT_MAP_BASE)"

section \<open>State\<close>

text \<open>
  \<open>vm_pml4\<close> is \<open>pml4_phys_\<close>, \<open>vm_cr3\<close> the register \<open>load_cr3\<close> writes, \<open>vm_invlpg\<close> the addresses whose
  translation has been invalidated, oldest first.
\<close>

record vm =
  vm_mem :: "u64 \<Rightarrow> u64"
  vm_pmm :: pmm
  vm_pml4 :: PhysicalAddress
  vm_cr3 :: u64
  vm_invlpg :: "u64 list"

text \<open>\<open>table[index]\<close>, read and written.\<close>

definition rd :: "VirtualAddress \<Rightarrow> u64 \<Rightarrow> vm \<Rightarrow> u64" where
  "rd table index s = vm_mem s (table + 8 * index)"

definition wr :: "VirtualAddress \<Rightarrow> u64 \<Rightarrow> u64 \<Rightarrow> vm \<Rightarrow> vm" where
  "wr table index v s = s\<lparr>vm_mem := (vm_mem s)(table + 8 * index := v)\<rparr>"

definition invlpg :: "u64 \<Rightarrow> vm \<Rightarrow> vm" where
  "invlpg va s = s\<lparr>vm_invlpg := vm_invlpg s @ [va]\<rparr>"

text \<open>\<open>memset(table, 0, PAGE_SIZE)\<close> and \<open>memcpy\<close> of \<open>n\<close> words.\<close>

definition in_words :: "VirtualAddress \<Rightarrow> nat \<Rightarrow> u64 \<Rightarrow> bool" where
  "in_words table n a \<longleftrightarrow> unat (a - table) < 8 * n \<and> unat (a - table) mod 8 = 0"

definition zero_page :: "VirtualAddress \<Rightarrow> vm \<Rightarrow> vm" where
  "zero_page table s = s\<lparr>vm_mem := \<lambda>a. if in_words table 512 a then 0 else vm_mem s a\<rparr>"

definition copy_words :: "VirtualAddress \<Rightarrow> VirtualAddress \<Rightarrow> nat \<Rightarrow> vm \<Rightarrow> vm" where
  "copy_words dest src n s = s\<lparr>vm_mem := \<lambda>a. if in_words dest n a then vm_mem s (src + (a - dest)) else vm_mem s a\<rparr>"

definition vm_allocate :: "vm \<Rightarrow> PhysicalAddress \<times> vm" where
  "vm_allocate s = (case pmm_allocate (vm_pmm s) of (a, p) \<Rightarrow> (a, s\<lparr>vm_pmm := p\<rparr>))"

definition vm_free :: "PhysicalAddress \<Rightarrow> vm \<Rightarrow> vm" where
  "vm_free a s = s\<lparr>vm_pmm := pmm_free a (vm_pmm s)\<rparr>"

section \<open>Mapping\<close>

definition VirtualMemoryManager :: "pmm \<Rightarrow> u64 \<Rightarrow> (u64 \<Rightarrow> u64) \<Rightarrow> vm" where
  "VirtualMemoryManager p cr3 mem = \<lparr>vm_mem = mem, vm_pmm = p, vm_pml4 = Some cr3, vm_cr3 = cr3, vm_invlpg = []\<rparr>"

definition get_or_create_table :: "VirtualAddress \<Rightarrow> u64 \<Rightarrow> PageFlag \<Rightarrow> vm \<Rightarrow> VirtualAddress \<times> vm" where
  "get_or_create_table parent_table index flags s =
     (if rd parent_table index s AND Present = 0 then
        (case vm_allocate s of
           (None, s1) \<Rightarrow> (0, s1)
         | (Some new_table_phys, s1) \<Rightarrow>
             let s2 = zero_page (physical_to_virtual (Some new_table_phys)) s1;
                 s3 = wr parent_table index (new_table_phys OR flags) s2
             in (physical_to_virtual (entry_to_phys (rd parent_table index s3)), s3))
      else
        let s3 = wr parent_table index (rd parent_table index s OR (flags AND (User OR Writable))) s
        in (physical_to_virtual (entry_to_phys (rd parent_table index s3)), s3))"

text \<open>
  The common body of \<open>map_page\<close> and \<open>map_page_in\<close>: descend from a PML4, creating the missing
  tables, and write the last entry.
\<close>

definition map_in_table :: "VirtualAddress \<Rightarrow> PageVirtualAddress \<Rightarrow> u64 \<Rightarrow> PageFlag \<Rightarrow> PageFlag \<Rightarrow> vm \<Rightarrow> bool \<times> vm" where
  "map_in_table pml4 va phys flags table_flags s =
     (if pml4 = 0 then (False, s)
      else let (pdpt, s1) = get_or_create_table pml4 (pml4_index va) table_flags s in
      if pdpt = 0 then (False, s1)
      else let (pd, s2) = get_or_create_table pdpt (pdpt_index va) table_flags s1 in
      if pd = 0 then (False, s2)
      else let (pt, s3) = get_or_create_table pd (pd_index va) table_flags s2 in
      if pt = 0 then (False, s3)
      else (True, wr pt (pt_index va) ((phys AND PAGE_MASK) OR flags OR Present) s3))"

definition map_page :: "PageVirtualAddress \<Rightarrow> PhysicalAddress \<Rightarrow> PageFlag \<Rightarrow> vm \<Rightarrow> bool \<times> vm" where
  "map_page va physical_address flags s =
     (case physical_address of
        None \<Rightarrow> (False, s)
      | Some phys \<Rightarrow>
          (case map_in_table (physical_to_virtual (vm_pml4 s)) va phys flags (Present OR Writable OR (flags AND User)) s of
             (True, s1) \<Rightarrow> (True, invlpg va s1)
           | (False, s1) \<Rightarrow> (False, s1)))"

definition map_page_in :: "PhysicalAddress \<Rightarrow> PageVirtualAddress \<Rightarrow> PhysicalAddress \<Rightarrow> PageFlag \<Rightarrow> vm \<Rightarrow> bool \<times> vm" where
  "map_page_in pml4_phys va physical_address flags s =
     (case physical_address of
        None \<Rightarrow> (False, s)
      | Some phys \<Rightarrow> map_in_table (physical_to_virtual pml4_phys) va phys flags (Present OR Writable OR User) s)"

text \<open>
  The descent shared by \<open>unmap_page\<close> and \<open>virtual_to_physical\<close>: the last-level table of an address,
  if every level is present.
\<close>

definition find_pt :: "VirtualAddress \<Rightarrow> PageVirtualAddress \<Rightarrow> vm \<Rightarrow> VirtualAddress option" where
  "find_pt pml4 va s =
     (if rd pml4 (pml4_index va) s AND Present = 0 then None
      else let pdpt = physical_to_virtual (entry_to_phys (rd pml4 (pml4_index va) s)) in
      if rd pdpt (pdpt_index va) s AND Present = 0 then None
      else let pd = physical_to_virtual (entry_to_phys (rd pdpt (pdpt_index va) s)) in
      if rd pd (pd_index va) s AND Present = 0 then None
      else Some (physical_to_virtual (entry_to_phys (rd pd (pd_index va) s))))"

definition unmap_page :: "PageVirtualAddress \<Rightarrow> vm \<Rightarrow> bool \<times> vm" where
  "unmap_page va s =
     (case find_pt (physical_to_virtual (vm_pml4 s)) va s of
        None \<Rightarrow> (False, s)
      | Some pt \<Rightarrow>
          if rd pt (pt_index va) s AND Present = 0 then (False, s)
          else (True, invlpg va (wr pt (pt_index va) 0 s)))"

definition virtual_to_physical :: "PageVirtualAddress \<Rightarrow> vm \<Rightarrow> PhysicalAddress" where
  "virtual_to_physical va s =
     (case find_pt (physical_to_virtual (vm_pml4 s)) va s of
        None \<Rightarrow> None
      | Some pt \<Rightarrow>
          if rd pt (pt_index va) s AND Present = 0 then None
          else Some (frame (rd pt (pt_index va) s) OR (va AND NOT PAGE_MASK)))"

section \<open>Address spaces\<close>

definition create_address_space :: "vm \<Rightarrow> PhysicalAddress \<times> vm" where
  "create_address_space s =
     (case vm_allocate s of
        (None, s1) \<Rightarrow> (None, s1)
      | (Some new_pml4_phys, s1) \<Rightarrow>
          let new_pml4 = physical_to_virtual (Some new_pml4_phys);
              current_pml4 = physical_to_virtual (vm_pml4 s1)
          in (Some new_pml4_phys,
              copy_words (new_pml4 + 8 * 256) (current_pml4 + 8 * 256) 256 (zero_page new_pml4 s1)))"

definition switch_address_space :: "PhysicalAddress \<Rightarrow> vm \<Rightarrow> vm" where
  "switch_address_space pml4_phys s =
     (case pml4_phys of None \<Rightarrow> s | Some p \<Rightarrow> s\<lparr>vm_pml4 := Some p, vm_cr3 := p\<rparr>)"

text \<open>A loop over indices whose body may ask to stop, by returning \<open>False\<close>.\<close>

fun each :: "('a \<Rightarrow> 's \<Rightarrow> bool \<times> 's) \<Rightarrow> 'a list \<Rightarrow> 's \<Rightarrow> bool \<times> 's" where
  "each f [] s = (True, s)"
| "each f (x # xs) s = (case f x s of (True, s1) \<Rightarrow> each f xs s1 | (False, s1) \<Rightarrow> (False, s1))"

definition page_address :: "nat \<Rightarrow> nat \<Rightarrow> nat \<Rightarrow> PageVirtualAddress" where
  "page_address i j k = push_bit 30 (of_nat i) OR push_bit 21 (of_nat j) OR push_bit 12 (of_nat k)"

definition for_each_user_page ::
    "PhysicalAddress \<Rightarrow> (PageVirtualAddress \<Rightarrow> u64 \<Rightarrow> vm \<Rightarrow> bool \<times> vm) \<Rightarrow> vm \<Rightarrow> bool \<times> vm" where
  "for_each_user_page pml4_phys visitor s0 =
     (let pml4 = physical_to_virtual pml4_phys in
      if pml4 = 0 \<or> rd pml4 0 s0 AND Present = 0 then (True, s0)
      else let pgdpt = physical_to_virtual (entry_to_phys (rd pml4 0 s0)) in
        each (\<lambda>i s1.
          if rd pgdpt (of_nat i) s1 AND Present = 0 then (True, s1)
          else let pd = physical_to_virtual (entry_to_phys (rd pgdpt (of_nat i) s1)) in
            each (\<lambda>j s2.
              if rd pd (of_nat j) s2 AND Present = 0 then (True, s2)
              else let pt = physical_to_virtual (entry_to_phys (rd pd (of_nat j) s2)) in
                each (\<lambda>k s3.
                  let entry = rd pt (of_nat k) s3 in
                  if entry AND Present = 0 then (True, s3)
                  else if entry AND User = 0 then (True, s3)
                  else visitor (page_address i j k) entry s3) [0..<ENTRIES_PER_TABLE] s2)
              [0..<ENTRIES_PER_TABLE] s1)
          [0..<ENTRIES_PER_TABLE] s0)"

definition copy_user_page :: "PhysicalAddress \<Rightarrow> PageVirtualAddress \<Rightarrow> u64 \<Rightarrow> vm \<Rightarrow> bool \<times> vm" where
  "copy_user_page dest_pml4_phys va entry s =
     (case vm_allocate s of
        (None, s1) \<Rightarrow> (False, s1)
      | (Some new_phys, s1) \<Rightarrow>
          let s2 = copy_words (physical_to_virtual (Some new_phys)) (physical_to_virtual (entry_to_phys entry)) 512 s1
          in case map_page_in dest_pml4_phys va (Some new_phys) (entry AND 0xFFF) s2 of
               (True, s3) \<Rightarrow> (True, s3)
             | (False, s3) \<Rightarrow> (False, vm_free (Some new_phys) s3))"

definition copy_user_pages :: "PhysicalAddress \<Rightarrow> PhysicalAddress \<Rightarrow> vm \<Rightarrow> bool \<times> vm" where
  "copy_user_pages src_pml4_phys dest_pml4_phys s = for_each_user_page src_pml4_phys (copy_user_page dest_pml4_phys) s"

definition free_user_pages :: "PhysicalAddress \<Rightarrow> vm \<Rightarrow> vm" where
  "free_user_pages pml4_phys s =
     snd (for_each_user_page pml4_phys (\<lambda>_ entry t. (True, vm_free (entry_to_phys entry) t)) s)"

definition destroy_address_space :: "PhysicalAddress \<Rightarrow> vm \<Rightarrow> vm" where
  "destroy_address_space pml4_phys s0 =
     (let pml4 = physical_to_virtual pml4_phys in
      if pml4 = 0 then s0
      else
        let s1 = free_user_pages pml4_phys s0;
            s2 = (if rd pml4 0 s1 AND Present = 0 then s1
                  else let pdpt_phys = entry_to_phys (rd pml4 0 s1); pdpt = physical_to_virtual pdpt_phys in
                    vm_free pdpt_phys (fold (\<lambda>i t.
                      if rd pdpt (of_nat i) t AND Present = 0 then t
                      else let pd_phys = entry_to_phys (rd pdpt (of_nat i) t); pd = physical_to_virtual pd_phys in
                        vm_free pd_phys (fold (\<lambda>j u.
                          if rd pd (of_nat j) u AND Present = 0 then u
                          else vm_free (entry_to_phys (rd pd (of_nat j) u)) u) [0..<ENTRIES_PER_TABLE] t))
                      [0..<ENTRIES_PER_TABLE] s1))
        in vm_free pml4_phys s2)"

section \<open>Entries\<close>

lemma not_present: "e AND Present = 0 \<longleftrightarrow> \<not> bit e 0"
  by (simp add: Present_def and_one_eq even_iff_mod_2_eq_zero [symmetric] bit_0 odd_iff_mod_2_eq_one [symmetric])

lemma frame_mask: "(0x000FFFFFFFFFF000 :: u64) = mask 52 AND NOT (mask 12)"
  by (simp add: mask_eq_exp_minus_1)

lemma bit_frame: "bit (frame e) n \<longleftrightarrow> 12 \<le> n \<and> n < 52 \<and> bit e n"
  unfolding frame_def frame_mask by (auto simp: bit_and_iff bit_not_iff bit_mask_iff dest: bit_imp_le_length)

text \<open>A physical page that an entry can name.\<close>

definition pg :: "u64 \<Rightarrow> bool" where
  "pg a \<longleftrightarrow> 4096 dvd unat a \<and> unat a + 4096 \<le> 2 ^ 47"

lemma bit_pg: "pg a \<Longrightarrow> bit a n \<Longrightarrow> 12 \<le> n \<and> n < 52"
proof -
  assume a: "pg a" and n: "bit a n"
  have "take_bit 12 (unat a) = 0" using a by (simp add: pg_def take_bit_eq_mod dvd_eq_mod_eq_0)
  then have low: "\<not> bit (unat a) n" if "n < 12" using that by (metis bit_0_eq bit_take_bit_iff bot_apply bot_bool_def)
  have "unat a < 2 ^ 52" using a by (simp add: pg_def)
  then have "take_bit 52 (unat a) = unat a" by (simp add: take_bit_nat_eq_self_iff)
  then have high: "bit (unat a) n \<Longrightarrow> n < 52" by (metis bit_take_bit_iff)
  have "bit (unat a) n" using n by (simp add: bit_unsigned_iff)
  then show "12 \<le> n \<and> n < 52" using low high by (meson not_le)
qed

lemma frame_pg: "pg a \<Longrightarrow> frame a = a"
  by (rule bit_word_eqI) (auto simp: bit_frame dest: bit_pg)

lemma frame_or: "pg a \<Longrightarrow> frame fl = 0 \<Longrightarrow> frame (a OR fl) = a"
proof -
  assume a: "pg a" and fl: "frame fl = 0"
  have "frame (a OR fl) = frame a OR frame fl" by (rule bit_word_eqI) (auto simp: bit_frame bit_or_iff)
  then show ?thesis using frame_pg [OF a] fl by simp
qed

lemma frame_or_low: "frame fl = 0 \<Longrightarrow> frame (e OR fl) = frame e"
proof -
  assume "frame fl = 0"
  moreover have "frame (e OR fl) = frame e OR frame fl" by (rule bit_word_eqI) (auto simp: bit_frame bit_or_iff)
  ultimately show ?thesis by simp
qed

lemma frame_and_low: "frame fl = 0 \<Longrightarrow> frame (fl AND x) = 0"
proof -
  assume "frame fl = 0"
  then have "\<not> bit (frame fl) n" for n by simp
  then show ?thesis by (intro bit_word_eqI) (auto simp: bit_frame bit_and_iff)
qed

section \<open>Separation of tables\<close>

definition slot :: "u64 \<Rightarrow> u64 \<Rightarrow> u64" where
  "slot t i = t + DIRECT_MAP_BASE + 8 * i"

definition ent :: "vm \<Rightarrow> u64 \<Rightarrow> u64 \<Rightarrow> u64" where
  "ent s t i = vm_mem s (slot t i)"

lemma rd_table [simp]: "rd (physical_to_virtual (Some t)) i s = ent s t i"
  by (simp add: rd_def ent_def slot_def physical_to_virtual_def)

lemma ent_vm_pmm: "ent (s\<lparr>vm_pmm := q\<rparr>) t i = ent s t i"
  by (simp add: ent_def)

lemma unat_slot_diff:
  assumes "pg t" "pg u" "i < 512"
  shows "slot u i - (t + DIRECT_MAP_BASE) = (u - t) + 8 * i" "unat (u + 8 * i) = unat u + 8 * unat i" "unat (8 * i) = 8 * unat i"
proof -
  show "slot u i - (t + DIRECT_MAP_BASE) = (u - t) + 8 * i" by (simp add: slot_def)
  have i: "unat i < 512" using assms(3) by (simp add: word_less_nat_alt)
  show u8: "unat (8 * i) = 8 * unat i" using i by (simp add: unat_word_ariths)
  show "unat (u + 8 * i) = unat u + 8 * unat i" using assms(2) i by (simp add: pg_def unat_word_ariths(1) u8)
qed

lemma page_eq:
  fixes t u :: u64
  assumes "pg t" "pg u" "x < 4096" "y < 4096" "unat t + x = unat u + y"
  shows "t = u" "x = y"
proof -
  obtain a b where ab: "unat t = a * 4096" "unat u = b * 4096" using assms(1,2) by (auto simp: pg_def elim!: dvdE)
  have "(a * 4096 + x) div 4096 = (b * 4096 + y) div 4096" using assms(5) ab by simp
  then have "a = b" using assms(3,4) by simp
  then show "t = u" "x = y" using ab assms(5) by (auto simp: word_unat_eq_iff)
qed

lemma slot_eq:
  assumes "pg t" "pg u" "i < 512" "j < 512"
  shows "slot t i = slot u j \<longleftrightarrow> t = u \<and> i = j"
proof
  assume "slot t i = slot u j"
  then have "t + 8 * i = u + 8 * j" by (simp add: slot_def algebra_simps)
  then have "unat t + 8 * unat i = unat u + 8 * unat j"
    using unat_slot_diff(2) [OF assms(1,1,3)] unat_slot_diff(2) [OF assms(2,2,4)] by metis
  moreover have "8 * unat i < 4096" "8 * unat j < 4096" using assms(3,4) by (simp_all add: word_less_nat_alt)
  ultimately have "t = u" "8 * unat i = 8 * unat j" using page_eq [OF assms(1,2)] by blast+
  then show "t = u \<and> i = j" by (simp add: word_unat_eq_iff)
qed simp

lemma slot_in_page:
  assumes "pg t" "pg u" "i < 512"
  shows "in_words (t + DIRECT_MAP_BASE) 512 (slot u i) \<longleftrightarrow> t = u"
proof
  assume "t = u"
  moreover have "unat i < 512" using assms(3) by (simp add: word_less_nat_alt)
  ultimately show "in_words (t + DIRECT_MAP_BASE) 512 (slot u i)"
    using unat_slot_diff [OF assms] by (simp add: in_words_def)
next
  assume "in_words (t + DIRECT_MAP_BASE) 512 (slot u i)"
  then have d: "unat (u - t + 8 * i) < 4096" using unat_slot_diff(1) [OF assms] by (simp add: in_words_def)
  define w where "w = u - t + 8 * i"
  have w: "unat w < 4096" "t + w = u + 8 * i" using d by (simp_all add: w_def)
  have "unat (t + w) = unat t + unat w" using w(1) assms(1) by (simp add: pg_def unat_word_ariths(1))
  then have "unat t + unat w = unat u + 8 * unat i" using w(2) unat_slot_diff(2) [OF assms] by simp
  moreover have "8 * unat i < 4096" using assms(3) by (simp add: word_less_nat_alt)
  ultimately show "t = u" using page_eq(1) [OF assms(1,2) w(1)] by blast
qed

lemma ent_wr:
  assumes "pg t" "pg u" "i < 512" "j < 512"
  shows "ent (wr (physical_to_virtual (Some t)) i v s) u j = (if u = t \<and> j = i then v else ent s u j)"
  using slot_eq [OF assms(2,1,4,3)] by (auto simp: ent_def wr_def physical_to_virtual_def slot_def)

lemma ent_zero_page:
  assumes "pg t" "pg u" "j < 512"
  shows "ent (zero_page (physical_to_virtual (Some t)) s) u j = (if u = t then 0 else ent s u j)"
  using slot_in_page [OF assms] by (auto simp: ent_def zero_page_def physical_to_virtual_def)

lemma table_pointer_nonzero: "pg t \<Longrightarrow> physical_to_virtual (Some t) \<noteq> 0"
proof
  assume t: "pg t" "physical_to_virtual (Some t) = 0"
  then have "t = - DIRECT_MAP_BASE" by (simp add: physical_to_virtual_def eq_neg_iff_add_eq_0)
  then have "unat t = 2 ^ 47" by (simp add: DIRECT_MAP_BASE_def)
  then show False using t(1) by (simp add: pg_def)
qed

section \<open>The tree of tables\<close>

text \<open>
  \<open>step s t i\<close> is the table entry \<open>i\<close> of table \<open>t\<close> points to; \<open>tab s t p\<close> follows a path of indices.
\<close>

definition step :: "vm \<Rightarrow> u64 \<Rightarrow> u64 \<Rightarrow> u64 option" where
  "step s t i = (if bit (ent s t i) 0 then Some (frame (ent s t i)) else None)"

fun tab :: "vm \<Rightarrow> u64 \<Rightarrow> u64 list \<Rightarrow> u64 option" where
  "tab s t [] = Some t"
| "tab s t (i # p) = (case step s t i of None \<Rightarrow> None | Some u \<Rightarrow> tab s u p)"

lemma tab_append: "tab s t (p @ q) = (case tab s t p of None \<Rightarrow> None | Some u \<Rightarrow> tab s u q)"
  by (induction p arbitrary: t) (auto split: option.split)

lemma tab_snoc: "tab s t (p @ [i]) = (case tab s t p of None \<Rightarrow> None | Some u \<Rightarrow> step s u i)"
  by (simp add: tab_append split: option.split)

text \<open>
  The paths considered: at most three indices, the first one in the part \<open>U\<close> of the address
  space under consideration (for a process, the user half).
\<close>

definition path :: "u64 set \<Rightarrow> u64 list \<Rightarrow> bool" where
  "path U p \<longleftrightarrow> length p \<le> 3 \<and> (\<forall>i \<in> set p. i < 512) \<and> (p \<noteq> [] \<longrightarrow> hd p \<in> U)"

lemma path_snocD: "path U (p @ [i]) \<Longrightarrow> path U p \<and> i < 512 \<and> length p < 3"
  by (cases p) (auto simp: path_def)

definition owned :: "u64 set \<Rightarrow> u64 \<Rightarrow> vm \<Rightarrow> u64 set" where
  "owned U root s = {t. \<exists>p. path U p \<and> tab s root p = Some t}"

text \<open>
  A well-formed part of an address space: the tables on its paths are pages in use, and no
  table is reached on two paths.
\<close>

definition space_ok :: "u64 set \<Rightarrow> u64 \<Rightarrow> vm \<Rightarrow> bool" where
  "space_ok U root s \<longleftrightarrow> pmm_inv (vm_pmm s) \<and> (\<forall>t \<in> owned U root s. pg t) \<and> owned U root s \<inter> avail (vm_pmm s) = {} \<and>
     (\<forall>p q t. path U p \<and> path U q \<and> tab s root p = Some t \<and> tab s root q = Some t \<longrightarrow> p = q)"

lemma space_okD:
  assumes "space_ok U root s"
  shows "pmm_inv (vm_pmm s)" "t \<in> owned U root s \<Longrightarrow> pg t" "t \<in> owned U root s \<Longrightarrow> t \<notin> avail (vm_pmm s)"
    "path U p \<Longrightarrow> path U q \<Longrightarrow> tab s root p = Some t \<Longrightarrow> tab s root q = Some t \<Longrightarrow> p = q"
  using assms by (auto simp: space_ok_def)

lemma ownedI: "path U p \<Longrightarrow> tab s root p = Some t \<Longrightarrow> t \<in> owned U root s"
  by (auto simp: owned_def)

text \<open>Entry of the last table for an address, 0 when it is not mapped.\<close>

definition leaf :: "vm \<Rightarrow> u64 \<Rightarrow> u64 list \<Rightarrow> u64 \<Rightarrow> u64" where
  "leaf s root p d = (case tab s root p of None \<Rightarrow> 0 | Some pt \<Rightarrow> if bit (ent s pt d) 0 then ent s pt d else 0)"

text \<open>A state that agrees on every step from the owned tables has the same tables.\<close>

lemma tab_same:
  assumes "\<And>u j. u \<in> owned U root s \<Longrightarrow> j < 512 \<Longrightarrow> step s' u j = step s u j"
  shows "path U q \<Longrightarrow> tab s' root q = tab s root q"
proof (induction q rule: rev_induct)
  case (snoc j q)
  have q: "path U q" "j < 512" using path_snocD [OF snoc.prems] by auto
  show ?case using snoc.IH [OF q(1)] assms q ownedI [OF q(1)] by (auto simp: tab_snoc split: option.split)
qed simp

lemma space_ok_same:
  assumes ok: "space_ok U root s" and st: "\<And>u j. u \<in> owned U root s \<Longrightarrow> j < 512 \<Longrightarrow> step s' u j = step s u j"
    and p: "vm_pmm s' = vm_pmm s"
  shows "space_ok U root s'" "owned U root s' = owned U root s"
proof -
  have t: "path U q \<Longrightarrow> tab s' root q = tab s root q" for q using tab_same [OF st] .
  then show own: "owned U root s' = owned U root s" by (auto simp: owned_def)
  have "p1 = p2" if "path U p1" "path U p2" "tab s' root p1 = Some u" "tab s' root p2 = Some u" for p1 p2 u
    using space_okD(4) [OF ok that(1,2)] that t by simp
  then show "space_ok U root s'" using space_okD [OF ok] p own unfolding space_ok_def by auto
qed

text \<open>Hanging a fresh, empty table \<open>a\<close> under entry \<open>i\<close> of table \<open>t\<close>, which had none.\<close>

lemma tab_new:
  assumes ok: "space_ok U root s" and p: "path U (p @ [i])" "tab s root p = Some t" and none: "step s t i = None"
    and new: "step s' t i = Some a" and empty: "\<And>j. j < 512 \<Longrightarrow> step s' a j = None"
    and st: "\<And>u j. u \<in> owned U root s \<Longrightarrow> j < 512 \<Longrightarrow> (u, j) \<noteq> (t, i) \<Longrightarrow> step s' u j = step s u j"
  shows "path U q \<Longrightarrow> tab s' root q = (if q = p @ [i] then Some a else tab s root q)"
proof (induction q rule: rev_induct)
  case Nil
  then show ?case by simp
next
  case (snoc j q)
  have q: "path U q" "j < 512" using path_snocD [OF snoc.prems] by auto
  note IH = snoc.IH [OF q(1)]
  have pp: "path U p" using path_snocD [OF p(1)] by simp
  consider (new) "q = p @ [i]" | (no) "q \<noteq> p @ [i]" "tab s root q = None" | (old) u where "q \<noteq> p @ [i]" "tab s root q = Some u" by blast
  then show ?case
  proof cases
    case new
    have "tab s' root q = Some a" using IH new by metis
    then have "tab s' root (q @ [j]) = None" by (simp only: tab_snoc option.case empty [OF q(2)])
    moreover have "tab s root q = None" unfolding new tab_snoc p(2) by (simp add: none)
    then have "tab s root (q @ [j]) = None" by (simp only: tab_snoc option.case)
    moreover have "q @ [j] \<noteq> p @ [i]" using new by simp
    ultimately show ?thesis by simp
  next
    case no
    then show ?thesis using IH p(2) by (auto simp: tab_snoc)
  next
    case (old u)
    show ?thesis
    proof (cases "(u, j) = (t, i)")
      case True
      then have "q = p" using space_okD(4) [OF ok q(1) pp] old p(2) by simp
      then show ?thesis using True IH old new by (simp add: tab_snoc)
    next
      case False
      then have "\<not> (q = p \<and> j = i)" using old p(2) by auto
      then show ?thesis using IH old st [OF ownedI [OF q(1) old(2)] q(2) False] by (auto simp: tab_snoc)
    qed
  qed
qed

lemma space_ok_new:
  assumes ok: "space_ok U root s" and p: "path U (p @ [i])" "tab s root p = Some t" and none: "step s t i = None"
    and new: "step s' t i = Some a" and empty: "\<And>j. j < 512 \<Longrightarrow> step s' a j = None"
    and st: "\<And>u j. u \<in> owned U root s \<Longrightarrow> j < 512 \<Longrightarrow> (u, j) \<noteq> (t, i) \<Longrightarrow> step s' u j = step s u j"
    and a: "a \<notin> owned U root s" "pg a" and pm: "pmm_inv (vm_pmm s')" "avail (vm_pmm s') = avail (vm_pmm s) - {a}"
  shows "space_ok U root s'" "owned U root s' = insert a (owned U root s)"
proof -
  have t: "path U q \<Longrightarrow> tab s' root q = (if q = p @ [i] then Some a else tab s root q)" for q
    using tab_new [OF ok p none new empty st] .
  have old_none: "tab s root (p @ [i]) = None" using p(2) none by (simp add: tab_snoc)
  show own: "owned U root s' = insert a (owned U root s)"
  proof (intro equalityI subsetI)
    fix u assume "u \<in> owned U root s'"
    then obtain q where "path U q" "tab s' root q = Some u" by (auto simp: owned_def)
    then show "u \<in> insert a (owned U root s)" using t [of q] ownedI by (auto split: if_splits)
  next
    fix u assume "u \<in> insert a (owned U root s)"
    then consider "u = a" | q where "path U q" "tab s root q = Some u" by (auto simp: owned_def)
    then show "u \<in> owned U root s'"
    proof cases
      case 1
      then show ?thesis using t [OF p(1)] ownedI [OF p(1)] by simp
    next
      case (2 q)
      then have "q \<noteq> p @ [i]" using old_none by auto
      then show ?thesis using t [OF 2(1)] 2 ownedI [OF 2(1)] by simp
    qed
  qed
  have "p1 = p2" if "path U p1" "path U p2" "tab s' root p1 = Some u" "tab s' root p2 = Some u" for p1 p2 u
  proof (cases "u = a")
    case True
    then have "tab s root p1 \<noteq> Some u" "tab s root p2 \<noteq> Some u" using a(1) ownedI that(1,2) by blast+
    then show ?thesis using that t [OF that(1)] t [OF that(2)] by (auto split: if_splits)
  next
    case False
    then have "tab s root p1 = Some u" "tab s root p2 = Some u" using that t by (auto split: if_splits)
    then show ?thesis using space_okD(4) [OF ok that(1,2)] by simp
  qed
  moreover have "\<forall>t \<in> owned U root s'. pg t" using own a(2) space_okD(2) [OF ok] by auto
  moreover have "owned U root s' \<inter> avail (vm_pmm s') = {}" using own pm(2) space_okD(3) [OF ok] by auto
  ultimately show "space_ok U root s'" using pm(1) unfolding space_ok_def by meson
qed

text \<open>
  What one level of the descent guarantees: the space stays well-formed, no mapping changes,
  new tables come from the free pages, only tables are written, and the entry passed has
  the flags asked for.
\<close>

definition grows :: "u64 set \<Rightarrow> u64 \<Rightarrow> vm \<Rightarrow> vm \<Rightarrow> bool" where
  "grows U root s s' \<longleftrightarrow> space_ok U root s' \<and>
     (\<forall>p d. path U p \<and> length p = 3 \<and> d < 512 \<longrightarrow> leaf s' root p d = leaf s root p d) \<and>
     (\<forall>p t. path U p \<and> tab s root p = Some t \<longrightarrow> tab s' root p = Some t) \<and>
     (\<forall>t \<in> owned U root s. \<forall>j < 512. bit (ent s t j) 0 \<longrightarrow> ent s' t j AND ent s t j = ent s t j) \<and>
     owned U root s' - owned U root s = avail (vm_pmm s) - avail (vm_pmm s') \<and>
     avail (vm_pmm s') \<subseteq> avail (vm_pmm s) \<and> pool (vm_pmm s') = pool (vm_pmm s) \<and>
     (\<forall>x. vm_mem s' x \<noteq> vm_mem s x \<longrightarrow> (\<exists>t \<in> owned U root s'. in_words (t + DIRECT_MAP_BASE) 512 x)) \<and>
     vm_pml4 s' = vm_pml4 s \<and> vm_cr3 s' = vm_cr3 s"

lemma growsD:
  assumes "grows U root s s'"
  shows "space_ok U root s'" "path U p \<Longrightarrow> length p = 3 \<Longrightarrow> d < 512 \<Longrightarrow> leaf s' root p d = leaf s root p d"
    "path U p \<Longrightarrow> tab s root p = Some t \<Longrightarrow> tab s' root p = Some t"
    "t \<in> owned U root s \<Longrightarrow> j < 512 \<Longrightarrow> bit (ent s t j) 0 \<Longrightarrow> ent s' t j AND ent s t j = ent s t j"
    "owned U root s' - owned U root s = avail (vm_pmm s) - avail (vm_pmm s')"
    "avail (vm_pmm s') \<subseteq> avail (vm_pmm s)" "pool (vm_pmm s') = pool (vm_pmm s)"
    "vm_mem s' x \<noteq> vm_mem s x \<Longrightarrow> \<exists>t \<in> owned U root s'. in_words (t + DIRECT_MAP_BASE) 512 x"
    "vm_pml4 s' = vm_pml4 s" "vm_cr3 s' = vm_cr3 s"
  using assms by (auto simp: grows_def)

lemma grows_refl: "space_ok U root s \<Longrightarrow> grows U root s s"
  by (simp add: grows_def)

lemma grows_owned: "grows U root s s' \<Longrightarrow> owned U root s \<subseteq> owned U root s'"
  using growsD(3) unfolding owned_def by blast

lemma grows_trans:
  assumes a: "grows U root s s1" and b: "grows U root s1 s2"
  shows "grows U root s s2"
proof -
  have o1: "owned U root s \<subseteq> owned U root s1" and o2: "owned U root s1 \<subseteq> owned U root s2"
    using grows_owned a b by auto
  have "ent s2 t j AND ent s t j = ent s t j" if "t \<in> owned U root s" "j < 512" "bit (ent s t j) 0" for t j
  proof -
    have k: "ent s1 t j AND ent s t j = ent s t j" using growsD(4) [OF a that] .
    then have "bit (ent s1 t j) 0" using that(3) by (metis bit_and_iff)
    then have "ent s2 t j AND ent s1 t j = ent s1 t j" using growsD(4) [OF b _ that(2)] that(1) o1 by auto
    then show ?thesis using k by (metis and.assoc)
  qed
  moreover have "owned U root s2 - owned U root s = avail (vm_pmm s) - avail (vm_pmm s2)"
    using growsD(5,6) [OF a] growsD(5,6) [OF b] o1 o2 by blast
  moreover have "\<exists>t \<in> owned U root s2. in_words (t + DIRECT_MAP_BASE) 512 x" if "vm_mem s2 x \<noteq> vm_mem s x" for x
    using that growsD(8) [OF a, of x] growsD(8) [OF b, of x] o2 by (cases "vm_mem s1 x = vm_mem s x") auto
  ultimately show ?thesis
    using a b unfolding grows_def by (auto dest: subsetD)
qed

lemma in_own_page: "pg t \<Longrightarrow> i < 512 \<Longrightarrow> in_words (t + DIRECT_MAP_BASE) 512 (slot t i)"
  by (simp add: slot_in_page)

lemma bit_and_ucast: "bit (x AND y) n \<longleftrightarrow> bit x n \<and> bit y n"
  by (rule bit_and_iff)

text \<open>Adding flags to a present entry.\<close>

lemma grows_flags:
  assumes ok: "space_ok U root s" and p: "path U (p @ [i])" "tab s root p = Some t"
    and here: "bit (ent s t i) 0" and fl: "frame fl = 0"
    and s': "s' = wr (physical_to_virtual (Some t)) i (ent s t i OR fl) s"
  shows "grows U root s s'" "tab s' root (p @ [i]) = Some (frame (ent s t i))"
proof -
  have pi: "path U p" "i < 512" "length p < 3" using path_snocD [OF p(1)] by auto
  have t: "t \<in> owned U root s" "pg t" using ownedI [OF pi(1) p(2)] space_okD(2) [OF ok] by auto
  have e: "ent s' u j = (if u = t \<and> j = i then ent s t i OR fl else ent s u j)" if "u \<in> owned U root s" "j < 512" for u j
    using ent_wr [OF t(2) space_okD(2) [OF ok that(1)] pi(2) that(2)] by (simp add: s')
  have st: "step s' u j = step s u j" if "u \<in> owned U root s" "j < 512" for u j
    using e [OF that] here fl by (auto simp: step_def bit_or_iff frame_or_low)
  have pm: "vm_pmm s' = vm_pmm s" by (simp add: s' wr_def)
  note sm = space_ok_same [OF ok st pm]
  have tb: "tab s' root q = tab s root q" if "path U q" for q using tab_same [OF st that] .
  show "tab s' root (p @ [i]) = Some (frame (ent s t i))"
    using tb [OF p(1)] p(2) here by (simp add: tab_snoc step_def)
  have "leaf s' root q d = leaf s root q d" if q: "path U q" "length q = 3" "d < 512" for q d
  proof (cases "tab s root q")
    case (Some u)
    then have "u \<noteq> t" using space_okD(4) [OF ok q(1) pi(1)] p(2) pi(3) q(2) by auto
    then show ?thesis using Some tb [OF q(1)] e [OF ownedI [OF q(1) Some] q(3)] by (simp add: leaf_def)
  qed (simp add: leaf_def tb [OF q(1)])
  moreover have "ent s' u j AND ent s u j = ent s u j" if "u \<in> owned U root s" "j < 512" for u j
    using e [OF that] by (auto intro!: bit_word_eqI simp: bit_and_iff bit_or_iff)
  moreover have "\<exists>u \<in> owned U root s'. in_words (u + DIRECT_MAP_BASE) 512 x" if "vm_mem s' x \<noteq> vm_mem s x" for x
  proof -
    have "x = slot t i" using that by (auto simp: s' wr_def slot_def physical_to_virtual_def split: if_splits)
    then show ?thesis using in_own_page [OF t(2) pi(2)] t(1) sm(2) by auto
  qed
  ultimately show "grows U root s s'"
    using sm tb pm by (simp add: grows_def) (simp add: s' wr_def)
qed

text \<open>Creating a missing table.\<close>

lemma grows_new:
  assumes ok: "space_ok U root s" and p: "path U (p @ [i])" "tab s root p = Some t"
    and none: "\<not> bit (ent s t i) 0" and fl: "frame fl = 0" "bit fl 0"
    and al: "pmm_allocate (vm_pmm s) = (Some a, pm)"
    and s': "s' = wr (physical_to_virtual (Some t)) i (a OR fl) (zero_page (physical_to_virtual (Some a)) (s\<lparr>vm_pmm := pm\<rparr>))"
  shows "grows U root s s'" "tab s' root (p @ [i]) = Some a"
proof -
  have pi: "path U p" "i < 512" "length p < 3" using path_snocD [OF p(1)] by auto
  have t: "t \<in> owned U root s" "pg t" using ownedI [OF pi(1) p(2)] space_okD(2) [OF ok] by auto
  note inv = space_okD(1) [OF ok]
  have av: "a \<in> avail (vm_pmm s)" "avail pm = avail (vm_pmm s) - {a}" "pool pm = pool (vm_pmm s)" "pmm_inv pm"
    using pm.alloc_some [OF inv al] by auto
  have a: "pg a" "a \<notin> owned U root s"
    using pm.page_aligned [OF inv, of a] av(1) pm.free_pages_in [OF inv] space_okD(3) [OF ok] by (auto simp: pg_def)
  have e: "ent s' u j = (if u = t \<and> j = i then a OR fl else if u = a then 0 else ent s u j)" if "pg u" "j < 512" for u j
    using ent_wr [OF t(2) that(1) pi(2) that(2)] ent_zero_page [OF a(1) that, of "s\<lparr>vm_pmm := pm\<rparr>"]
    by (auto simp: s' ent_vm_pmm)
  have at: "a \<noteq> t" using a(2) t(1) by auto
  have st: "step s' u j = step s u j" if "u \<in> owned U root s" "j < 512" "(u, j) \<noteq> (t, i)" for u j
    using e [OF space_okD(2) [OF ok that(1)] that(2)] that a(2) by (auto simp: step_def)
  have sn: "step s t i = None" using none by (simp add: step_def)
  have new: "step s' t i = Some a" using e [OF t(2) pi(2)] fl frame_or [OF a(1) fl(1)] by (simp add: step_def bit_or_iff)
  have empty: "step s' a j = None" if "j < 512" for j using e [OF a(1) that] at by (simp add: step_def)
  have pm': "vm_pmm s' = pm" by (simp add: s' wr_def zero_page_def)
  have tb: "tab s' root q = (if q = p @ [i] then Some a else tab s root q)" if "path U q" for q
    by (rule tab_new [OF ok p sn new _ _ that]) (simp_all add: empty st)
  have so: "space_ok U root s'" "owned U root s' = insert a (owned U root s)"
    by (rule space_ok_new [OF ok p sn new _ _ a(2,1)]; simp add: empty st pm' av)+
  show "tab s' root (p @ [i]) = Some a" using tb [OF p(1)] by simp
  have "leaf s' root q d = leaf s root q d" if q: "path U q" "length q = 3" "d < 512" for q d
  proof (cases "q = p @ [i]")
    case True
    then have "tab s root q = None" using p(2) sn by (simp add: tab_snoc)
    then show ?thesis using True tb [OF q(1)] e [OF a(1) q(3)] at by (simp add: leaf_def)
  next
    case False
    show ?thesis
    proof (cases "tab s root q")
      case (Some u)
      then have "u \<noteq> t" using space_okD(4) [OF ok q(1) pi(1)] p(2) pi(3) q(2) by auto
      moreover have "u \<in> owned U root s" using ownedI [OF q(1) Some] .
      ultimately show ?thesis
        using Some False tb [OF q(1)] e [OF space_okD(2) [OF ok] q(3)] a(2) by (auto simp: leaf_def)
    qed (simp add: leaf_def tb [OF q(1)] False)
  qed
  moreover have "tab s' root q = Some u" if "path U q" "tab s root q = Some u" for q u
    using tb [OF that(1)] that(2) p(2) sn by (auto simp: tab_snoc)
  moreover have "ent s' u j AND ent s u j = ent s u j" if "u \<in> owned U root s" "j < 512" "bit (ent s u j) 0" for u j
    using e [OF space_okD(2) [OF ok that(1)] that(2)] a(2) that none by auto
  moreover have "\<exists>u \<in> owned U root s'. in_words (u + DIRECT_MAP_BASE) 512 x" if "vm_mem s' x \<noteq> vm_mem s x" for x
  proof -
    have "x = slot t i \<or> in_words (a + DIRECT_MAP_BASE) 512 x"
      using that by (auto simp: s' wr_def zero_page_def slot_def physical_to_virtual_def split: if_splits)
    then show ?thesis using in_own_page [OF t(2) pi(2)] t(1) so(2) by auto
  qed
  moreover have "owned U root s' - owned U root s = avail (vm_pmm s) - avail (vm_pmm s')"
    using so(2) a(2) av(1,2) pm' by auto
  moreover have "vm_pml4 s' = vm_pml4 s" "vm_cr3 s' = vm_cr3 s" by (simp_all add: s' wr_def zero_page_def)
  ultimately show "grows U root s s'" using so(1) av(2,3) pm' unfolding grows_def by auto
qed

definition rights :: u64 where "rights = User OR Writable"

lemma get_or_create_table_effect:
  assumes ok: "space_ok U root s" and p: "path U (p @ [i])" "tab s root p = Some t" and fl: "frame fl = 0" "bit fl 0"
    and r: "get_or_create_table (physical_to_virtual (Some t)) i fl s = (v, s')"
  shows "v = 0 \<and> s' = s \<and> avail (vm_pmm s) = {} \<or>
    (\<exists>u. v = physical_to_virtual (Some u) \<and> v \<noteq> 0 \<and> grows U root s s' \<and> tab s' root (p @ [i]) = Some u \<and>
       ent s' t i AND (fl AND rights) = fl AND rights)"
proof -
  have pi: "path U p" "i < 512" using path_snocD [OF p(1)] by auto
  have t: "pg t" using ownedI [OF pi(1) p(2)] space_okD(2) [OF ok] by auto
  have tabs: "tab s' root (p @ [i]) = Some u \<Longrightarrow> grows U root s s' \<Longrightarrow> physical_to_virtual (Some u) \<noteq> 0" for u
    using table_pointer_nonzero space_okD(2) [OF growsD(1)] ownedI [OF p(1)] by blast
  show ?thesis
  proof (cases "bit (ent s t i) 0")
    case True
    let ?s = "wr (physical_to_virtual (Some t)) i (ent s t i OR (fl AND rights)) s"
    have e: "ent ?s t i = ent s t i OR (fl AND rights)" using ent_wr [OF t t pi(2,2)] by simp
    have fr: "frame (fl AND rights) = 0" using frame_and_low [OF fl(1)] .
    note g = grows_flags [OF ok p True fr refl]
    have "v = physical_to_virtual (Some (frame (ent s t i)))" "s' = ?s"
      using r True e frame_or_low [OF fr]
      by (auto simp: get_or_create_table_def not_present entry_to_phys_def rights_def Let_def)
    moreover have "(ent s t i OR (fl AND rights)) AND (fl AND rights) = fl AND rights"
      by (rule bit_word_eqI) (auto simp: bit_and_iff bit_or_iff)
    ultimately show ?thesis using g tabs [of "frame (ent s t i)"] e by auto
  next
    case False
    show ?thesis
    proof (cases "pmm_allocate (vm_pmm s)")
      case (Pair o' pm)
      show ?thesis
      proof (cases o')
        case None
        then have "pm = vm_pmm s" "avail (vm_pmm s) = {}" using pm.alloc_none [OF space_okD(1) [OF ok]] Pair by auto
        then show ?thesis using r False Pair None by (simp add: get_or_create_table_def not_present vm_allocate_def)
      next
        case (Some a)
        let ?s = "wr (physical_to_virtual (Some t)) i (a OR fl) (zero_page (physical_to_virtual (Some a)) (s\<lparr>vm_pmm := pm\<rparr>))"
        have al: "pmm_allocate (vm_pmm s) = (Some a, pm)" using Pair Some by simp
        note g = grows_new [OF ok p False fl al refl]
        have e: "ent ?s t i = a OR fl" using ent_wr [OF t t pi(2,2)] by simp
        have "pg a" using ownedI [OF p(1) g(2)] space_okD(2) [OF growsD(1) [OF g(1)]] by simp
        then have "v = physical_to_virtual (Some a)" "s' = ?s"
          using r False al e frame_or [OF _ fl(1)]
          by (auto simp: get_or_create_table_def not_present vm_allocate_def entry_to_phys_def Let_def)
        moreover have "(a OR fl) AND (fl AND rights) = fl AND rights"
          by (rule bit_word_eqI) (auto simp: bit_and_iff bit_or_iff)
        ultimately show ?thesis using g tabs [of a] e by auto
      qed
    qed
  qed
qed

text \<open>Writing an entry of a last-level table.\<close>

lemma leaf_write:
  assumes ok: "space_ok U root s" and q: "path U q" "length q = 3" "tab s root q = Some pt" and d: "d < 512"
    and s': "s' = wr (physical_to_virtual (Some pt)) d v s"
  shows "space_ok U root s'" "owned U root s' = owned U root s" "path U q' \<Longrightarrow> tab s' root q' = tab s root q'"
    "path U q' \<Longrightarrow> length q' = 3 \<Longrightarrow> d' < 512 \<Longrightarrow>
       leaf s' root q' d' = (if q' = q \<and> d' = d then (if bit v 0 then v else 0) else leaf s root q' d')"
    "path U q' \<Longrightarrow> length q' < 3 \<Longrightarrow> tab s root q' = Some u \<Longrightarrow> j < 512 \<Longrightarrow> ent s' u j = ent s u j"
    "vm_mem s' x \<noteq> vm_mem s x \<Longrightarrow> in_words (pt + DIRECT_MAP_BASE) 512 x"
proof -
  have pt: "pt \<in> owned U root s" "pg pt" using ownedI [OF q(1,3)] space_okD(2) [OF ok] by auto
  have e: "ent s' u j = (if u = pt \<and> j = d then v else ent s u j)" if "u \<in> owned U root s" "j < 512" for u j
    using ent_wr [OF pt(2) space_okD(2) [OF ok that(1)] d that(2)] by (simp add: s')
  have other: "u \<noteq> pt" if "path U q'" "length q' < 3" "tab s root q' = Some u" for q' u
    using space_okD(4) [OF ok that(1) q(1)] that(2,3) q(2,3) by auto
  have tb: "tab s' root q' = tab s root q'" if "path U q'" for q'
    using that
  proof (induction q' rule: rev_induct)
    case (snoc j q')
    have j: "path U q'" "j < 512" "length q' < 3" using path_snocD [OF snoc.prems] by auto
    show ?case
    proof (cases "tab s root q'")
      case (Some u)
      then have "step s' u j = step s u j"
        using e [OF ownedI [OF j(1) Some] j(2)] other [OF j(1,3) Some] by (simp add: step_def)
      then show ?thesis using snoc.IH [OF j(1)] Some by (simp add: tab_snoc)
    qed (use snoc.IH [OF j(1)] in \<open>simp add: tab_snoc\<close>)
  qed simp
  then show "path U q' \<Longrightarrow> tab s' root q' = tab s root q'" .
  show own: "owned U root s' = owned U root s" using tb by (auto simp: owned_def)
  have pm: "vm_pmm s' = vm_pmm s" by (simp add: s' wr_def)
  have "p1 = p2" if "path U p1" "path U p2" "tab s' root p1 = Some u" "tab s' root p2 = Some u" for p1 p2 u
    using space_okD(4) [OF ok that(1,2)] that tb by simp
  then show "space_ok U root s'" using space_okD [OF ok] pm own unfolding space_ok_def by auto
  show "leaf s' root q' d' = (if q' = q \<and> d' = d then (if bit v 0 then v else 0) else leaf s root q' d')"
    if h: "path U q'" "length q' = 3" "d' < 512"
  proof (cases "tab s root q'")
    case (Some u)
    have "u = pt \<longleftrightarrow> q' = q" using space_okD(4) [OF ok h(1) q(1)] Some q(3) by auto
    then show ?thesis using Some tb [OF h(1)] e [OF ownedI [OF h(1) Some] h(3)] q(3) by (auto simp: leaf_def)
  qed (use q(3) tb [OF h(1)] in \<open>auto simp: leaf_def\<close>)
  show "ent s' u j = ent s u j" if "path U q'" "length q' < 3" "tab s root q' = Some u" "j < 512"
    using e [OF ownedI [OF that(1,3)] that(4)] other [OF that(1-3)] by simp
  show "in_words (pt + DIRECT_MAP_BASE) 512 x" if "vm_mem s' x \<noteq> vm_mem s x"
  proof -
    have "x = slot pt d" using that by (auto simp: s' wr_def slot_def physical_to_virtual_def split: if_splits)
    then show ?thesis using in_own_page [OF pt(2) d] by simp
  qed
qed

section \<open>Mapping a page\<close>

definition walk_of :: "u64 \<Rightarrow> u64 list" where
  "walk_of va = [pml4_index va, pdpt_index va, pd_index va]"

lemma index_less [simp]: "pml4_index va < 512" "pdpt_index va < 512" "pd_index va < 512" "pt_index va < 512"
proof -
  have "x AND 0x1FF < 512" for x :: u64
  proof -
    have "x AND 0x1FF = take_bit 9 x" by (simp add: take_bit_eq_mask mask_eq_exp_minus_1)
    moreover have "unat (take_bit 9 x) < 512" by (simp add: take_bit_eq_mod unat_mod)
    ultimately show ?thesis by (simp add: word_less_nat_alt)
  qed
  then show "pml4_index va < 512" "pdpt_index va < 512" "pd_index va < 512" "pt_index va < 512"
    by (simp_all add: pml4_index_def pdpt_index_def pd_index_def pt_index_def)
qed

lemma path_walk: "pml4_index va \<in> U \<Longrightarrow> path U (walk_of va)" "length (walk_of va) = 3"
  "pml4_index va \<in> U \<Longrightarrow> path U [pml4_index va]" "pml4_index va \<in> U \<Longrightarrow> path U [pml4_index va, pdpt_index va]" "path U []"
  by (auto simp: path_def walk_of_def)

text \<open>The three intermediate entries on the way to an address carry the flags \<open>fl\<close>.\<close>

definition allows :: "u64 \<Rightarrow> vm \<Rightarrow> u64 \<Rightarrow> u64 \<Rightarrow> bool" where
  "allows fl s root va \<longleftrightarrow>
     (\<exists>pdpt pd. step s root (pml4_index va) = Some pdpt \<and> step s pdpt (pdpt_index va) = Some pd \<and>
        ent s root (pml4_index va) AND fl = fl \<and> ent s pdpt (pdpt_index va) AND fl = fl \<and> ent s pd (pd_index va) AND fl = fl)"

lemma grows_ent:
  assumes "grows U root s s'" "t \<in> owned U root s" "j < 512" "bit (ent s t j) 0" "ent s t j AND fl = fl"
  shows "ent s' t j AND fl = fl"
proof -
  have "ent s' t j AND ent s t j = ent s t j" using growsD(4) [OF assms(1-4)] .
  then show ?thesis using assms(5) by (metis and.assoc)
qed

lemma stepD: "step s t i = Some u \<Longrightarrow> bit (ent s t i) 0"
  by (simp add: step_def split: if_splits)

text \<open>The outcome of the descent of a mapping, before its last entry is written.\<close>

definition descended :: "u64 set \<Rightarrow> u64 \<Rightarrow> u64 \<Rightarrow> u64 \<Rightarrow> vm \<Rightarrow> bool \<Rightarrow> vm \<Rightarrow> bool" where
  "descended U root va fl s b s' \<longleftrightarrow> grows U root s s' \<and>
     (if b then tab s' root (walk_of va) \<noteq> None \<and> allows fl s' root va else avail (vm_pmm s') = {})"

lemma descend:
  assumes ok: "space_ok U root s" and va: "pml4_index va \<in> U" and tf: "frame tf = 0" "bit tf 0"
    and r: "map_in_table (physical_to_virtual (Some root)) va phys flags tf s = (b, s')"
  shows "\<exists>s3. descended U root va (tf AND rights) s b s3 \<and>
    (if b then \<exists>pt. tab s3 root (walk_of va) = Some pt \<and>
        s' = wr (physical_to_virtual (Some pt)) (pt_index va) ((phys AND PAGE_MASK) OR flags OR Present) s3
     else s' = s3)"
proof -
  let ?f = "tf AND rights" and ?a = "pml4_index va" and ?b = "pdpt_index va" and ?c = "pd_index va"
  have pw: "path U (walk_of va)" "length (walk_of va) = 3" "path U [?a]" "path U [?a, ?b]"
    using path_walk va by auto
  have root: "root \<in> owned U root s" using ownedI [OF path_walk(5), of s root root] by simp
  have nz: "physical_to_virtual (Some root) \<noteq> 0" using table_pointer_nonzero space_okD(2) [OF ok root] by simp
  obtain v1 s1 where r1: "get_or_create_table (physical_to_virtual (Some root)) ?a tf s = (v1, s1)" by fastforce
  from get_or_create_table_effect [OF ok _ _ tf r1, of "[]"] pw
  consider (f) "v1 = 0" "s1 = s" "avail (vm_pmm s) = {}"
    | (g) t1 where "v1 = physical_to_virtual (Some t1)" "v1 \<noteq> 0" "grows U root s s1" "tab s1 root [?a] = Some t1" "ent s1 root ?a AND ?f = ?f"
    by auto
  then show ?thesis
  proof cases
    case f
    then show ?thesis using r r1 nz grows_refl [OF ok] by (auto simp: map_in_table_def descended_def)
  next
    case g1: (g t1)
    obtain v2 s2 where r2: "get_or_create_table v1 ?b tf s1 = (v2, s2)" by fastforce
    note ok1 = growsD(1) [OF g1(3)]
    from get_or_create_table_effect [OF ok1 _ g1(4) tf r2 [unfolded g1(1)]] pw
    consider (f) "v2 = 0" "s2 = s1" "avail (vm_pmm s1) = {}"
      | (g) t2 where "v2 = physical_to_virtual (Some t2)" "v2 \<noteq> 0" "grows U root s1 s2" "tab s2 root [?a, ?b] = Some t2" "ent s2 t1 ?b AND ?f = ?f"
      by auto
    then show ?thesis
    proof cases
      case f
      then show ?thesis using r r1 r2 nz g1 by (auto simp: map_in_table_def descended_def)
    next
      case g2: (g t2)
      obtain v3 s3 where r3: "get_or_create_table v2 ?c tf s2 = (v3, s3)" by fastforce
      note ok2 = growsD(1) [OF g2(3)] and g12 = grows_trans [OF g1(3) g2(3)]
      from get_or_create_table_effect [OF ok2 _ g2(4) tf r3 [unfolded g2(1)]] pw
      consider (f) "v3 = 0" "s3 = s2" "avail (vm_pmm s2) = {}"
        | (g) t3 where "v3 = physical_to_virtual (Some t3)" "v3 \<noteq> 0" "grows U root s2 s3" "tab s3 root (walk_of va) = Some t3" "ent s3 t2 ?c AND ?f = ?f"
        by (auto simp: walk_of_def)
      then show ?thesis
      proof cases
        case f
        then show ?thesis using r r1 r2 r3 nz g1 g2 g12 by (auto simp: map_in_table_def descended_def)
      next
        case g3: (g t3)
        have res: "b" "s' = wr (physical_to_virtual (Some t3)) (pt_index va) ((phys AND PAGE_MASK) OR flags OR Present) s3"
          using r r1 r2 r3 nz g1 g2 g3 by (auto simp: map_in_table_def)
        have t1: "tab s3 root [?a] = Some t1" "t1 \<in> owned U root s1" "t1 \<in> owned U root s2"
          using growsD(3) [OF grows_trans [OF g2(3) g3(3)] pw(3) g1(4)] ownedI [OF pw(3) g1(4)] grows_owned [OF g2(3)] by auto
        have t2: "tab s3 root [?a, ?b] = Some t2" using growsD(3) [OF g3(3) pw(4) g2(4)] .
        have st: "step s1 root ?a = Some t1" "step s2 t1 ?b = Some t2"
          using g1(4) g2(4) growsD(3) [OF g2(3) pw(3) g1(4)] by (auto split: option.splits)
        have "root \<in> owned U root s1" using ownedI [OF path_walk(5), of s1 root root] by simp
        from grows_ent [OF grows_trans [OF g2(3) g3(3)] this _ stepD [OF st(1)] g1(5)]
        have e1: "ent s3 root ?a AND ?f = ?f" by simp
        from grows_ent [OF g3(3) t1(3) _ stepD [OF st(2)] g2(5)]
        have e2: "ent s3 t1 ?b AND ?f = ?f" by simp
        have "step s3 root ?a = Some t1" "step s3 t1 ?b = Some t2" using t1(1) t2 by (auto split: option.splits)
        then have "allows ?f s3 root va" using e1 e2 g3(5) by (auto simp: allows_def)
        then show ?thesis using res g3(4) grows_trans [OF g12 g3(3)] by (auto simp: descended_def)
      qed
    qed
  qed
qed

definition same_page :: "u64 \<Rightarrow> u64 \<Rightarrow> bool" where
  "same_page va va' \<longleftrightarrow> walk_of va' = walk_of va \<and> pt_index va' = pt_index va"

text \<open>The mapping of an address space, as the walk of \<open>virtual_to_physical\<close> sees it.\<close>

definition entry_of :: "vm \<Rightarrow> u64 \<Rightarrow> u64 \<Rightarrow> u64" where
  "entry_of s root va = leaf s root (walk_of va) (pt_index va)"

lemma find_pt_tab: "find_pt (physical_to_virtual (Some root)) va s = map_option (\<lambda>t. physical_to_virtual (Some t)) (tab s root (walk_of va))"
  by (auto simp: find_pt_def walk_of_def step_def not_present entry_to_phys_def Let_def)

lemma virtual_to_physical_leaf:
  "vm_pml4 s = Some root \<Longrightarrow> virtual_to_physical va s =
     (if entry_of s root va = 0 then None else Some (frame (entry_of s root va) OR (va AND NOT PAGE_MASK)))"
proof -
  assume root: "vm_pml4 s = Some root"
  have "bit e 0 \<Longrightarrow> e \<noteq> 0" for e :: u64 by auto
  then show ?thesis
    by (auto simp: virtual_to_physical_def root find_pt_tab entry_of_def leaf_def not_present split: option.splits)
qed

lemma map_in_table_effect:
  assumes ok: "space_ok U root s" and va: "pml4_index va \<in> U" and tf: "frame tf = 0" "bit tf 0"
    and r: "map_in_table (physical_to_virtual (Some root)) va phys flags tf s = (b, s')"
  shows "space_ok U root s'"
    and "path U q \<Longrightarrow> length q = 3 \<Longrightarrow> d < 512 \<Longrightarrow> leaf s' root q d =
      (if b \<and> q = walk_of va \<and> d = pt_index va then (phys AND PAGE_MASK) OR flags OR Present else leaf s root q d)"
    and "b \<Longrightarrow> allows (tf AND rights) s' root va" and "\<not> b \<Longrightarrow> avail (vm_pmm s') = {}"
    and "owned U root s' - owned U root s = avail (vm_pmm s) - avail (vm_pmm s')"
    and "owned U root s \<subseteq> owned U root s'" and "avail (vm_pmm s') \<subseteq> avail (vm_pmm s)" and "pool (vm_pmm s') = pool (vm_pmm s)"
    and "vm_mem s' x \<noteq> vm_mem s x \<Longrightarrow> \<exists>t \<in> owned U root s'. in_words (t + DIRECT_MAP_BASE) 512 x"
    and "vm_pml4 s' = vm_pml4 s" and "vm_cr3 s' = vm_cr3 s"
proof -
  obtain s3 where d3: "descended U root va (tf AND rights) s b s3"
    and w: "if b then \<exists>pt. tab s3 root (walk_of va) = Some pt \<and>
        s' = wr (physical_to_virtual (Some pt)) (pt_index va) ((phys AND PAGE_MASK) OR flags OR Present) s3 else s' = s3"
    using descend [OF ok va tf r] by blast
  have g: "grows U root s s3" using d3 by (simp add: descended_def)
  note ok3 = growsD(1) [OF g] and pw = path_walk(1) [OF va] path_walk(2) [of va]
  have pres: "bit ((phys AND PAGE_MASK) OR flags OR Present) 0" by (simp add: Present_def bit_or_iff)
  have "space_ok U root s' \<and> (\<forall>q d. path U q \<longrightarrow> length q = 3 \<longrightarrow> d < 512 \<longrightarrow> leaf s' root q d =
      (if b \<and> q = walk_of va \<and> d = pt_index va then (phys AND PAGE_MASK) OR flags OR Present else leaf s root q d)) \<and>
    (b \<longrightarrow> allows (tf AND rights) s' root va) \<and> (\<not> b \<longrightarrow> avail (vm_pmm s') = {}) \<and>
    owned U root s' = owned U root s3 \<and> vm_pmm s' = vm_pmm s3 \<and> vm_pml4 s' = vm_pml4 s3 \<and> vm_cr3 s' = vm_cr3 s3 \<and>
    (\<forall>x. vm_mem s' x \<noteq> vm_mem s x \<longrightarrow> (\<exists>t \<in> owned U root s'. in_words (t + DIRECT_MAP_BASE) 512 x))"
  proof (cases b)
    case False
    then show ?thesis using w g d3 ok3 growsD(2,8) [OF g] by (auto simp: descended_def)
  next
    case True
    then obtain pt where pt: "tab s3 root (walk_of va) = Some pt"
      "s' = wr (physical_to_virtual (Some pt)) (pt_index va) ((phys AND PAGE_MASK) OR flags OR Present) s3" using w by auto
    note lw = leaf_write [OF ok3 pw pt(1) index_less(4) pt(2)]
    have al: "allows (tf AND rights) s3 root va" using d3 True by (simp add: descended_def)
    have "allows (tf AND rights) s' root va"
    proof -
      obtain a b where ab: "step s3 root (pml4_index va) = Some a" "step s3 a (pdpt_index va) = Some b"
        using al by (auto simp: allows_def)
      have ta: "tab s3 root [pml4_index va] = Some a" "tab s3 root [pml4_index va, pdpt_index va] = Some b" using ab by auto
      note e = lw(5) [OF path_walk(5), of root, simplified, OF index_less(1)] lw(5) [OF path_walk(3) [OF va] _ ta(1) index_less(2)]
        lw(5) [OF path_walk(4) [OF va] _ ta(2) index_less(3)]
      have "step s' root (pml4_index va) = Some a" "step s' a (pdpt_index va) = Some b"
        using ab e by (auto simp: step_def split: if_splits)
      then show ?thesis using al ab e by (auto simp: allows_def)
    qed
    moreover have "\<exists>t \<in> owned U root s'. in_words (t + DIRECT_MAP_BASE) 512 x" if "vm_mem s' x \<noteq> vm_mem s x" for x
      using lw(2) lw(6) [of x] growsD(8) [OF g, of x] ownedI [OF pw(1) pt(1)] that by (cases "vm_mem s' x = vm_mem s3 x") auto
    moreover have "vm_pmm s' = vm_pmm s3" "vm_pml4 s' = vm_pml4 s3" "vm_cr3 s' = vm_cr3 s3" by (simp_all add: pt(2) wr_def)
    ultimately show ?thesis using True lw(1,2,4) growsD(2) [OF g] pres by auto
  qed
  then show "space_ok U root s'"
    and "path U q \<Longrightarrow> length q = 3 \<Longrightarrow> d < 512 \<Longrightarrow> leaf s' root q d =
      (if b \<and> q = walk_of va \<and> d = pt_index va then (phys AND PAGE_MASK) OR flags OR Present else leaf s root q d)"
    and "b \<Longrightarrow> allows (tf AND rights) s' root va" and "\<not> b \<Longrightarrow> avail (vm_pmm s') = {}"
    and "owned U root s' - owned U root s = avail (vm_pmm s) - avail (vm_pmm s')"
    and "owned U root s \<subseteq> owned U root s'" and "avail (vm_pmm s') \<subseteq> avail (vm_pmm s)" and "pool (vm_pmm s') = pool (vm_pmm s)"
    and "vm_mem s' x \<noteq> vm_mem s x \<Longrightarrow> \<exists>t \<in> owned U root s'. in_words (t + DIRECT_MAP_BASE) 512 x"
    and "vm_pml4 s' = vm_pml4 s" and "vm_cr3 s' = vm_cr3 s"
    using growsD(5,6,7,9,10) [OF g] grows_owned [OF g] by auto
qed

text \<open>Unmapping clears exactly one entry.\<close>

lemma unmap_page_effect:
  assumes ok: "space_ok U root s" and root: "vm_pml4 s = Some root" and va: "pml4_index va \<in> U" and r: "unmap_page va s = (b, s')"
  shows "b \<longleftrightarrow> entry_of s root va \<noteq> 0" "space_ok U root s'" "vm_pml4 s' = Some root"
    "path U q \<Longrightarrow> length q = 3 \<Longrightarrow> d < 512 \<Longrightarrow> leaf s' root q d = (if q = walk_of va \<and> d = pt_index va then 0 else leaf s root q d)"
proof -
  have nz: "bit e 0 \<Longrightarrow> e \<noteq> 0" for e :: u64 by auto
  have "(b \<longleftrightarrow> entry_of s root va \<noteq> 0) \<and> space_ok U root s' \<and> vm_pml4 s' = Some root \<and>
    (\<forall>q d. path U q \<and> length q = 3 \<and> d < 512 \<longrightarrow> leaf s' root q d = (if q = walk_of va \<and> d = pt_index va then 0 else leaf s root q d))"
  proof (cases "entry_of s root va = 0")
    case True
    then have "unmap_page va s = (False, s)"
      using nz by (auto simp: unmap_page_def root find_pt_tab entry_of_def leaf_def not_present split: option.splits if_splits)
    then show ?thesis using r True ok root by (auto simp: entry_of_def)
  next
    case False
    then obtain pt where pt: "tab s root (walk_of va) = Some pt" "bit (ent s pt (pt_index va)) 0"
      by (auto simp: entry_of_def leaf_def split: option.splits if_splits)
    let ?s = "wr (physical_to_virtual (Some pt)) (pt_index va) 0 s"
    note lw = leaf_write [OF ok path_walk(1) [OF va] path_walk(2) pt(1) index_less(4) [of va] refl, where v = 0]
    have res: "b" "s' = invlpg va ?s" using r pt by (auto simp: unmap_page_def root find_pt_tab not_present)
    have same: "ent (invlpg va t) = ent t" "vm_pmm (invlpg va t) = vm_pmm t" for t by (simp_all add: invlpg_def ent_def fun_eq_iff)
    have "tab (invlpg va t) = tab t" for t
    proof (intro ext)
      fix u q show "tab (invlpg va t) u q = tab t u q" by (induction q arbitrary: u) (simp_all add: step_def same)
    qed
    then have inv: "space_ok U root (invlpg va t) = space_ok U root t" "leaf (invlpg va t) = leaf t" for t
      by (simp_all add: space_ok_def owned_def same leaf_def fun_eq_iff split: option.split)
    have "vm_pml4 s' = Some root" by (simp add: res(2) invlpg_def wr_def root)
    moreover have "space_ok U root s'" using lw(1) by (simp add: res(2) inv)
    moreover have "leaf s' root q d = (if q = walk_of va \<and> d = pt_index va then 0 else leaf s root q d)"
      if "path U q" "length q = 3" "d < 512" for q d using lw(4) [OF that] by (simp add: res(2) inv)
    ultimately show ?thesis using res(1) False by simp
  qed
  then show "b \<longleftrightarrow> entry_of s root va \<noteq> 0" "space_ok U root s'" "vm_pml4 s' = Some root"
    "path U q \<Longrightarrow> length q = 3 \<Longrightarrow> d < 512 \<Longrightarrow> leaf s' root q d = (if q = walk_of va \<and> d = pt_index va then 0 else leaf s root q d)"
    by auto
qed

section \<open>Mapping and unmapping a page\<close>

lemma entry_same_page: "same_page va va' \<Longrightarrow> entry_of s root va' = entry_of s root va"
  by (simp add: same_page_def entry_of_def)

lemma get_or_create_table_invlpg: "vm_invlpg (snd (get_or_create_table t i fl s)) = vm_invlpg s"
  by (simp add: get_or_create_table_def vm_allocate_def zero_page_def wr_def Let_def split: prod.split option.split)

lemma map_in_table_invlpg: "vm_invlpg (snd (map_in_table t va phys fl tf s)) = vm_invlpg s"
  using get_or_create_table_invlpg [of t "pml4_index va" tf s] get_or_create_table_invlpg
  by (auto simp: map_in_table_def wr_def Let_def split: prod.split) (metis snd_conv)+

lemma pg_masked:
  assumes "pg phys"
  shows "phys AND PAGE_MASK = phys"
proof (rule bit_word_eqI)
  fix n :: nat assume "n < LENGTH(64)"
  moreover have m: "PAGE_MASK = NOT (mask 12)" by (simp add: PAGE_MASK_def PAGE_SIZE_def mask_eq_exp_minus_1)
  ultimately show "bit (phys AND PAGE_MASK) n = bit phys n"
    using bit_pg [OF assms, of n] by (cases "bit phys n") (simp_all add: m bit_and_iff bit_not_iff bit_mask_iff)
qed

lemma frame_mapping:
  assumes "pg phys" "frame flags = 0"
  shows "frame ((phys AND PAGE_MASK) OR flags OR Present) = phys"
proof -
  have "frame (flags OR Present) = 0"
    using assms(2) by (subst frame_or_low) (simp_all add: frame_def Present_def)
  then show ?thesis using frame_or [OF assms(1)] by (simp add: pg_masked [OF assms(1)] or.assoc)
qed

lemma mapping_nonzero: "x OR Present \<noteq> 0"
proof
  assume "x OR Present = 0"
  then have "\<not> bit (x OR Present) 0" by simp
  then show False by (simp add: bit_or_iff Present_def)
qed

lemma tables_of_invlpg: "ent (invlpg va t) = ent t" "tab (invlpg va t) = tab t" "leaf (invlpg va t) = leaf t"
  "space_ok U root (invlpg va t) = space_ok U root t" "allows fl (invlpg va t) = allows fl t"
proof -
  show e: "ent (invlpg va t) = ent t" by (simp add: invlpg_def ent_def fun_eq_iff)
  show tb: "tab (invlpg va t) = tab t"
  proof (intro ext)
    fix u q show "tab (invlpg va t) u q = tab t u q" by (induction q arbitrary: u) (simp_all add: step_def e)
  qed
  show "leaf (invlpg va t) = leaf t" by (simp add: fun_eq_iff leaf_def tb e split: option.split)
  have "vm_pmm (invlpg va t) = vm_pmm t" by (simp add: invlpg_def)
  then show "space_ok U root (invlpg va t) = space_ok U root t" by (simp add: space_ok_def owned_def tb)
  show "allows fl (invlpg va t) = allows fl t" by (simp add: fun_eq_iff allows_def step_def e)
qed

text \<open>Table flags of a mapping: present and writable, and for users when the page is.\<close>

lemma table_flags: "frame (Present OR Writable OR (flags AND User)) = 0" "bit (Present OR Writable OR (flags AND User)) 0"
  "(Present OR Writable OR (flags AND User)) AND rights = Writable OR (flags AND User)"
proof -
  have b: "bit Present n \<longleftrightarrow> n = 0" "bit Writable n \<longleftrightarrow> n = 1" "bit User n \<longleftrightarrow> n = 2" for n
  proof -
    have "bit (2 ^ 1 :: u64) n \<longleftrightarrow> n = 1" "bit (2 ^ 2 :: u64) n \<longleftrightarrow> n = 2"
      by (auto simp only: bit_exp_iff possible_bit_word) auto
    then show "bit Present n \<longleftrightarrow> n = 0" "bit Writable n \<longleftrightarrow> n = 1" "bit User n \<longleftrightarrow> n = 2"
      by (simp_all add: Present_def Writable_def User_def bit_1_iff)
  qed
  show "frame (Present OR Writable OR (flags AND User)) = 0"
  proof -
    have z: "frame Present = 0" "frame Writable = 0" "frame User = 0" by (simp_all add: frame_def Present_def Writable_def User_def)
    have "frame (flags AND User) = 0" using frame_and_low [OF z(3), of flags] by (simp add: and.commute)
    then show ?thesis using z by (simp add: frame_or_low)
  qed
  show "bit (Present OR Writable OR (flags AND User)) 0" by (simp add: bit_or_iff Present_def)
  show "(Present OR Writable OR (flags AND User)) AND rights = Writable OR (flags AND User)"
    by (rule bit_word_eqI) (auto simp: rights_def bit_or_iff bit_and_iff b)
qed

lemma map_page_effect:
  assumes ok: "space_ok U root s" and root: "vm_pml4 s = Some root" and va: "pml4_index va \<in> U"
    and phys: "pg phys" "frame flags = 0" and r: "map_page va (Some phys) flags s = (b, s')"
  shows "space_ok U root s' \<and> vm_pml4 s' = Some root \<and>
    (\<forall>va'. pml4_index va' \<in> U \<longrightarrow> virtual_to_physical va' s' =
       (if b \<and> same_page va va' then Some (phys OR (va' AND NOT PAGE_MASK)) else virtual_to_physical va' s)) \<and>
    owned U root s' - owned U root s = avail (vm_pmm s) - avail (vm_pmm s') \<and> avail (vm_pmm s') \<subseteq> avail (vm_pmm s) \<and>
    (if b then allows (Writable OR (flags AND User)) s' root va \<and> vm_invlpg s' = vm_invlpg s @ [va]
     else avail (vm_pmm s') = {} \<and> vm_invlpg s' = vm_invlpg s)"
proof -
  let ?tf = "Present OR Writable OR (flags AND User)" and ?e = "(phys AND PAGE_MASK) OR flags OR Present"
  obtain t where t: "map_in_table (physical_to_virtual (Some root)) va phys flags ?tf s = (b, t)" "s' = (if b then invlpg va t else t)"
    using r by (auto simp: map_page_def root split: prod.splits bool.splits)
  note eff = map_in_table_effect [OF ok va table_flags(1,2) t(1)]
  have lf: "leaf s' = leaf t" and inv: "vm_invlpg t = vm_invlpg s" and root': "vm_pml4 s' = Some root"
    and p: "vm_pmm s' = vm_pmm t" and own: "owned U root s' = owned U root t"
    using t(2) map_in_table_invlpg [of "physical_to_virtual (Some root)" va phys flags ?tf s] eff(10) root
    by (simp_all add: tables_of_invlpg t(1) owned_def) (simp_all add: invlpg_def)
  have e: "entry_of s' root va' = (if b \<and> same_page va va' then ?e else entry_of s root va')" if "pml4_index va' \<in> U" for va'
    using eff(2) [OF path_walk(1) [OF that] path_walk(2) index_less(4)] by (simp add: entry_of_def lf same_page_def)
  have "virtual_to_physical va' s' = (if b \<and> same_page va va' then Some (phys OR (va' AND NOT PAGE_MASK)) else virtual_to_physical va' s)"
    if "pml4_index va' \<in> U" for va'
    using e [OF that] frame_mapping [OF phys] mapping_nonzero [of "(phys AND PAGE_MASK) OR flags"]
    by (simp add: virtual_to_physical_leaf root root' or.assoc)
  moreover have "space_ok U root s'" using eff(1) t(2) by (simp add: tables_of_invlpg)
  moreover have "allows (Writable OR (flags AND User)) s' root va" if b
    using eff(3) that t(2) by (simp add: tables_of_invlpg table_flags(3))
  moreover have "vm_invlpg s' = (if b then vm_invlpg s @ [va] else vm_invlpg s)" using t(2) inv by (simp add: invlpg_def)
  ultimately show ?thesis using root' eff(4,5,7) p own by simp
qed

text \<open>
  C25. Mapping a page makes exactly the addresses of that page translate to the given physical
  page, offset kept; every other translation is as before. The three intermediate entries then
  allow writing, and user access when the page asks for it, and the stale translation is
  invalidated. Mapping fails only when physical memory is exhausted, and then no translation has
  changed. The tables stay a well-formed tree, and the pages it has grown by are exactly those
  taken from the allocator.
\<close>

theorem map_page_correct:
  assumes ok: "space_ok U root s" and root: "vm_pml4 s = Some root" and va: "pml4_index va \<in> U"
    and phys: "pg phys" "frame flags = 0" and r: "map_page va (Some phys) flags s = (b, s')"
  shows "space_ok U root s' \<and> vm_pml4 s' = Some root \<and>
    (\<forall>va'. pml4_index va' \<in> U \<longrightarrow> virtual_to_physical va' s' =
       (if b \<and> same_page va va' then Some (phys OR (va' AND NOT PAGE_MASK)) else virtual_to_physical va' s)) \<and>
    owned U root s' - owned U root s = avail (vm_pmm s) - avail (vm_pmm s') \<and> avail (vm_pmm s') \<subseteq> avail (vm_pmm s) \<and>
    (if b then allows (Writable OR (flags AND User)) s' root va \<and> vm_invlpg s' = vm_invlpg s @ [va]
     else avail (vm_pmm s') = {} \<and> vm_invlpg s' = vm_invlpg s)"
  using map_page_effect [OF assms] .

text \<open>
  Unmapping succeeds exactly when the page is mapped; afterwards its addresses no longer
  translate, every other address translates as before, and the tables are still well-formed.
\<close>

theorem unmap_page_correct:
  assumes ok: "space_ok U root s" and root: "vm_pml4 s = Some root" and va: "pml4_index va \<in> U" and r: "unmap_page va s = (b, s')"
  shows "(b \<longleftrightarrow> virtual_to_physical va s \<noteq> None) \<and> space_ok U root s' \<and>
    (\<forall>va'. pml4_index va' \<in> U \<longrightarrow> virtual_to_physical va' s' = (if same_page va va' then None else virtual_to_physical va' s))"
proof -
  note eff = unmap_page_effect [OF ok root va r]
  have "entry_of s' root va' = (if same_page va va' then 0 else entry_of s root va')" if "pml4_index va' \<in> U" for va'
    using eff(4) [OF path_walk(1) [OF that] path_walk(2) index_less(4)] by (simp add: entry_of_def same_page_def)
  then show ?thesis using eff(1,2) by (simp add: virtual_to_physical_leaf root eff(3))
qed

section \<open>A new address space\<close>

text \<open>Copying the entries from \<open>k\<close> on from one page to another.\<close>

lemma in_words_tail:
  assumes a: "pg a" "pg u" "j < 512" "k \<le> 512"
  shows "in_words (a + DIRECT_MAP_BASE + 8 * of_nat k) (512 - k) (slot u j) \<longleftrightarrow> u = a \<and> k \<le> unat j"
proof -
  define w where "w = slot u j - (a + DIRECT_MAP_BASE + 8 * of_nat k)"
  have k8: "unat (8 * of_nat k :: u64) = 8 * k" using a(4) by (simp add: unat_word_ariths unat_of_nat)
  have j: "unat j < 512" using a(3) by (simp add: word_less_nat_alt)
  have *: "w + 8 * of_nat k = slot u j - (a + DIRECT_MAP_BASE)" by (simp add: w_def)
  show ?thesis
  proof
    assume "in_words (a + DIRECT_MAP_BASE + 8 * of_nat k) (512 - k) (slot u j)"
    then have w: "unat w < 8 * (512 - k)" "unat w mod 8 = 0" by (simp_all add: in_words_def w_def)
    then have s: "unat (w + 8 * of_nat k) = unat w + 8 * k" using a(4) by (simp add: unat_word_ariths(1) k8)
    then have "in_words (a + DIRECT_MAP_BASE) 512 (slot u j)" using w a(4) by (simp add: in_words_def * [symmetric])
    then have u: "u = a" using slot_in_page [OF a(1-3)] by simp
    then have "w + 8 * of_nat k = 8 * j" by (simp add: * slot_def)
    then show "u = a \<and> k \<le> unat j" using s u unat_slot_diff(3) [OF a(1-3)] by simp
  next
    assume h: "u = a \<and> k \<le> unat j"
    then have "8 * j = w + 8 * of_nat k" by (simp add: * slot_def)
    then have "w = 8 * j - 8 * of_nat k" by simp
    moreover have "(8 * of_nat k :: u64) \<le> 8 * j" using h unat_slot_diff(3) [OF a(1-3)] k8 by (simp add: word_le_nat_alt)
    ultimately have "unat w = 8 * unat j - 8 * k" by (simp add: unat_sub k8 unat_slot_diff(3) [OF a(1-3)])
    then have "unat w = 8 * (unat j - k)" by simp
    then show "in_words (a + DIRECT_MAP_BASE + 8 * of_nat k) (512 - k) (slot u j)" using h diff_less_mono [OF j, of k] by (simp add: in_words_def w_def)
  qed
qed

lemma ent_copy_words:
  assumes "pg a" "pg u" "j < 512" "k \<le> 512"
  shows "ent (copy_words (physical_to_virtual (Some a) + 8 * of_nat k) (physical_to_virtual (Some b) + 8 * of_nat k) (512 - k) s) u j =
    (if u = a \<and> k \<le> unat j then ent s b j else ent s u j)"
  using in_words_tail [OF assms] by (auto simp: ent_def copy_words_def physical_to_virtual_def slot_def algebra_simps)

lemma rootI: "root \<in> owned U root s"
  using ownedI [OF path_walk(5), of s root root] by simp

text \<open>A tree whose tables keep their entries is the same tree; so is the rest of a tree whose root changes in some entries only.\<close>

lemma tab_off_root:
  assumes st: "\<And>u j. u \<in> owned U root s \<Longrightarrow> j < 512 \<Longrightarrow> u \<noteq> root \<Longrightarrow> ent s' u j = ent s u j"
    and V: "V \<subseteq> U" "\<And>j. j \<in> V \<Longrightarrow> j < 512 \<Longrightarrow> ent s' root' j = ent s root j"
    and tree: "\<And>q. path U q \<Longrightarrow> q \<noteq> [] \<Longrightarrow> tab s root q \<noteq> Some root"
  shows "path V q \<Longrightarrow> q \<noteq> [] \<Longrightarrow> tab s' root' q = tab s root q"
proof (induction q rule: rev_induct)
  case (snoc j q)
  have q: "path V q" "j < 512" using path_snocD [OF snoc.prems(1)] by auto
  then have qU: "path U q" using V(1) by (auto simp: path_def)
  show ?case
  proof (cases "q = []")
    case True
    then have "j \<in> V" using snoc.prems by (simp add: path_def)
    then show ?thesis using True V(2) q(2) by (simp add: step_def)
  next
    case False
    then have "u \<noteq> root" if "tab s root q = Some u" for u using tree [OF qU False] that by auto
    then show ?thesis using snoc.IH [OF q(1) False] st [OF ownedI [OF qU] q(2)] by (auto simp: tab_snoc step_def split: option.split)
  qed
qed simp

lemma leaf_off_root:
  assumes st: "\<And>u j. u \<in> owned U root s \<Longrightarrow> j < 512 \<Longrightarrow> u \<noteq> root \<Longrightarrow> ent s' u j = ent s u j"
    and V: "V \<subseteq> U" "\<And>j. j \<in> V \<Longrightarrow> j < 512 \<Longrightarrow> ent s' root' j = ent s root j"
    and tree: "\<And>q. path U q \<Longrightarrow> q \<noteq> [] \<Longrightarrow> tab s root q \<noteq> Some root"
    and q: "path V q" "length q = 3" "d < 512"
  shows "leaf s' root' q d = leaf s root q d"
proof -
  have ne: "q \<noteq> []" and qU: "path U q" using q V(1) by (auto simp: path_def)
  have t: "tab s' root' q = tab s root q" using tab_off_root [OF st V tree q(1) ne] .
  show ?thesis using t tree [OF qU ne] st [OF ownedI [OF qU] q(3)] by (auto simp: leaf_def split: option.split)
qed

text \<open>The root of a tree is the only table with an empty path.\<close>

lemma root_once: "space_ok U root s \<Longrightarrow> path U q \<Longrightarrow> q \<noteq> [] \<Longrightarrow> tab s root q \<noteq> Some root"
  using space_okD(4) [of U root s q "[]" root] path_walk(5) by auto

lemma empty_table_space:
  assumes "pg a" "a \<notin> avail (vm_pmm s)" "pmm_inv (vm_pmm s)" "\<And>j. j \<in> V \<Longrightarrow> j < 512 \<Longrightarrow> ent s a j = 0"
  shows "space_ok V a s" "owned V a s = {a}"
proof -
  have none: "q = []" if "path V q" "tab s a q = Some t" for q t
    using that assms(4) by (cases q) (auto simp: path_def step_def)
  then have o: "owned V a s = {a}" using rootI [of a V s] by (fastforce simp: owned_def)
  then show "owned V a s = {a}" .
  show "space_ok V a s" unfolding space_ok_def o
  proof (intro conjI allI impI)
    fix p q t assume h: "path V p \<and> path V q \<and> tab s a p = Some t \<and> tab s a q = Some t"
    have "p = []" "q = []" using none h by blast+
    then show "p = q" by simp
  qed (use assms in auto)
qed

text \<open>
  The words of a new root table: its upper half is that of the current root, its lower half zero; every other
  table is as it was.
\<close>

definition new_root :: "u64 \<Rightarrow> u64 \<Rightarrow> vm \<Rightarrow> vm \<Rightarrow> bool" where
  "new_root root a s s' \<longleftrightarrow> pg a \<and> a \<notin> owned UNIV root s \<and>
     (\<forall>u j. pg u \<and> j < 512 \<longrightarrow> ent s' u j = (if u = a then if 256 \<le> unat j then ent s root j else 0 else ent s u j))"

lemma new_root_ent:
  assumes "new_root root a s s'" "j < 512"
  shows "256 \<le> unat j \<Longrightarrow> ent s' a j = ent s root j" "\<not> 256 \<le> unat j \<Longrightarrow> ent s' a j = 0"
    "space_ok UNIV root s \<Longrightarrow> u \<in> owned UNIV root s \<Longrightarrow> ent s' u j = ent s u j"
  using assms space_okD(2) [of UNIV root s u] by (auto simp: new_root_def)

lemma create_new_root:
  assumes ok: "space_ok UNIV root s" and root: "vm_pml4 s = Some root" and r: "create_address_space s = (Some a, s')"
  shows "new_root root a s s'" "a \<in> avail (vm_pmm s)" "avail (vm_pmm s') = avail (vm_pmm s) - {a}"
    "pool (vm_pmm s') = pool (vm_pmm s)" "pmm_inv (vm_pmm s')" "vm_pml4 s' = Some root"
proof -
  obtain p where al: "pmm_allocate (vm_pmm s) = (Some a, p)"
    and s': "s' = copy_words (physical_to_virtual (Some a) + 8 * 256) (physical_to_virtual (Some root) + 8 * 256) 256
                (zero_page (physical_to_virtual (Some a)) (s\<lparr>vm_pmm := p\<rparr>))"
    using r by (auto simp: create_address_space_def vm_allocate_def root Let_def split: prod.splits option.splits)
  note inv = space_okD(1) [OF ok]
  have pms: "vm_pmm s' = p" "vm_pml4 s' = Some root" by (simp_all add: s' copy_words_def zero_page_def root)
  then show "vm_pml4 s' = Some root" by simp
  have av: "a \<in> avail (vm_pmm s)" "avail p = avail (vm_pmm s) - {a}" "pool p = pool (vm_pmm s)" "pmm_inv p"
    using pm.alloc_some [OF inv al] by auto
  then show "a \<in> avail (vm_pmm s)" "avail (vm_pmm s') = avail (vm_pmm s) - {a}" "pool (vm_pmm s') = pool (vm_pmm s)" "pmm_inv (vm_pmm s')"
    using pms by simp_all
  have pga: "pg a" using pm.page_aligned [OF inv] pm.free_pages_in [OF inv] av(1) by (auto simp: pg_def)
  have new: "a \<notin> owned UNIV root s" using space_okD(3) [OF ok] av(1) by blast
  have ne: "root \<noteq> a" using new rootI by metis
  have "ent s' u j = (if u = a then if 256 \<le> unat j then ent s root j else 0 else ent s u j)" if "pg u" "j < 512" for u j
    using ent_copy_words [OF pga that, of 256 root] ent_zero_page [OF pga pga that(2)] ent_zero_page [OF pga that]
      ent_zero_page [OF pga space_okD(2) [OF ok rootI] that(2)] ne
    by (simp add: s' ent_vm_pmm)
  then show "new_root root a s s'" using pga new by (simp add: new_root_def)
qed

text \<open>The tables of the current address space are untouched, and the new root translates the upper half through them.\<close>

lemma new_root_keeps:
  assumes ok: "space_ok UNIV root s" and n: "new_root root a s s'"
  shows "path UNIV q \<Longrightarrow> tab s' root q = tab s root q"
    "path UNIV q \<Longrightarrow> length q = 3 \<Longrightarrow> d < 512 \<Longrightarrow> leaf s' root q d = leaf s root q d"
    "path {i. 256 \<le> unat i} q \<Longrightarrow> length q = 3 \<Longrightarrow> d < 512 \<Longrightarrow> leaf s' a q d = leaf s root q d"
proof -
  have keep: "ent s' u j = ent s u j" if "u \<in> owned UNIV root s" "j < 512" for u j using new_root_ent(3) [OF n that(2) ok that(1)] .
  note once = root_once [OF ok]
  show "path UNIV q \<Longrightarrow> tab s' root q = tab s root q" by (rule tab_same) (simp_all add: step_def keep)
  show "leaf s' root q d = leaf s root q d" if "path UNIV q" "length q = 3" "d < 512"
    by (rule leaf_off_root [OF _ _ _ once that]) (use keep rootI in auto)
  show "leaf s' a q d = leaf s root q d" if "path {i. 256 \<le> unat i} q" "length q = 3" "d < 512"
    by (rule leaf_off_root [OF _ _ _ once that]) (use keep new_root_ent(1) [OF n] in auto)
qed

lemma new_root_space:
  assumes ok: "space_ok UNIV root s" and n: "new_root root a s s'"
    and al: "avail (vm_pmm s') = avail (vm_pmm s) - {a}" "pool (vm_pmm s') = pool (vm_pmm s)" "pmm_inv (vm_pmm s')"
  shows "space_ok UNIV root s'" "space_ok {i. i < 256} a s'"
proof -
  note tb = new_root_keeps(1) [OF ok n]
  have own: "owned UNIV root s' = owned UNIV root s" using tb by (auto simp: owned_def)
  have "p1 = p2" if "path UNIV p1" "path UNIV p2" "tab s' root p1 = Some u" "tab s' root p2 = Some u" for p1 p2 u
    using space_okD(4) [OF ok that(1,2)] that tb by simp
  then show "space_ok UNIV root s'" using space_okD(2,3) [OF ok] al own by (auto simp: space_ok_def)
  show "space_ok {i. i < 256} a s'"
    by (rule empty_table_space(1)) (use n al new_root_ent(2) [OF n] in \<open>auto simp: new_root_def word_less_nat_alt\<close>)
qed

lemma new_root_translates:
  assumes ok: "space_ok UNIV root s" and n: "new_root root a s s'" and root: "vm_pml4 s = Some root"
  shows "virtual_to_physical va (switch_address_space (Some a) s') = (if pml4_index va < 256 then None else virtual_to_physical va s)"
proof -
  let ?t = "switch_address_space (Some a) s'"
  have t: "ent ?t = ent s'" "vm_pml4 ?t = Some a" by (simp_all add: switch_address_space_def ent_def fun_eq_iff)
  have nt: "new_root root a s ?t" using n by (simp add: new_root_def t)
  show ?thesis
  proof (cases "pml4_index va < 256")
    case True
    then have "step ?t a (pml4_index va) = None" using new_root_ent(2) [OF nt index_less(1)] by (simp add: step_def word_less_nat_alt)
    then have "entry_of ?t a va = 0" by (simp add: entry_of_def leaf_def walk_of_def)
    then show ?thesis using True by (simp add: virtual_to_physical_leaf t)
  next
    case False
    then have "path {i. 256 \<le> unat i} (walk_of va)" by (intro path_walk(1)) (simp add: word_less_nat_alt)
    then have "leaf ?t a (walk_of va) (pt_index va) = leaf s root (walk_of va) (pt_index va)"
      using new_root_keeps(3) [OF ok nt _ path_walk(2) index_less(4)] by simp
    then show ?thesis using False by (simp add: virtual_to_physical_leaf t root entry_of_def)
  qed
qed


section \<open>Concrete instances\<close>

definition pmm8 :: "8 word \<Rightarrow> int \<Rightarrow> pmm" where
  "pmm8 b n = \<lparr>pm_bitmap = b # replicate 8191 0xFF, pm_base = 0x100000, pm_pages = 8, pm_free_pages = word_of_int n\<rparr>"

definition small_vm :: vm where
  "small_vm = VirtualMemoryManager (pmm8 0x01 7) 0x100000 (\<lambda>_. 0)"

lemma pmm8_inv: "pmm_inv (pmm8 b n)"
  by (simp add: pmm_inv_def pmm_wf_def pmm8_def MAX_PAGES_def)

lemma small_vm_ok: "space_ok UNIV 0x100000 small_vm" "vm_pml4 small_vm = Some 0x100000"
proof -
  have "0x100000 \<noteq> page_index_to_address i (pmm8 1 7) \<or> used (pmm8 1 7) (unat i)" if "i < 8" for i
  proof (cases "i = 0")
    case True
    then show ?thesis by (simp add: pmm8_def used_def)
  next
    case False
    have "unat i < 8" "unat i \<noteq> 0" using that False by (simp_all add: word_less_nat_alt unat_eq_0)
    then have "unat (page_index_to_address i (pmm8 1 7)) \<noteq> 0x100000"
      using unat_page_address [OF pmm8_inv, of i 1 7] that by (simp add: pmm8_def)
    then show ?thesis by auto
  qed
  then have "0x100000 \<notin> avail (pmm8 1 7)" by (auto simp: avail_def pmm8_def)
  then show "space_ok UNIV 0x100000 small_vm"
    by (intro empty_table_space(1)) (simp_all add: small_vm_def VirtualMemoryManager_def pmm8_inv pg_def ent_def)
  show "vm_pml4 small_vm = Some 0x100000" by (simp add: small_vm_def VirtualMemoryManager_def)
qed

lemma pmm8_allocate: "pmm_allocate (pmm8 0x01 7) = (Some 0x101000, pmm8 0x03 6)"
  "pmm_allocate (pmm8 0x03 6) = (Some 0x102000, pmm8 0x07 5)" "pmm_allocate (pmm8 0x07 5) = (Some 0x103000, pmm8 0x0F 4)"
  by (simp_all add: pmm_allocate_def allocate_from_page.simps [of 0] allocate_from_page.simps [of 1] allocate_from_page.simps [of 2]
        allocate_from_page.simps [of 3] pm_test_bit_def pm_set_bit_def page_bit_def pmm8_def PAGE_SIZE_def page_index_to_address_def upd_at_def)

lemma pmm8_allocate4: "pmm_allocate (pmm8 0x0F 4) = (Some 0x104000, pmm8 0x1F 3)"
  by (simp add: pmm_allocate_def allocate_from_page.simps [of 0] allocate_from_page.simps [of 1] allocate_from_page.simps [of 2]
        allocate_from_page.simps [of 3] allocate_from_page.simps [of 4] pm_test_bit_def pm_set_bit_def page_bit_def pmm8_def PAGE_SIZE_def
        page_index_to_address_def upd_at_def)

lemma small_map: "fst (map_page 0x400000 (Some 0x300000) (User OR Writable) small_vm)"
  by (simp add: map_page_def map_in_table_def get_or_create_table_def small_vm_def VirtualMemoryManager_def rd_def vm_allocate_def
    pmm8_allocate Let_def physical_to_virtual_def DIRECT_MAP_BASE_def zero_page_def wr_def entry_to_phys_def frame_def in_words_def
    Present_def User_def Writable_def pml4_index_def pdpt_index_def pd_index_def pt_index_def)

lemma user_flags: "frame (User OR Writable) = 0"
  by (simp add: frame_def User_def Writable_def)

theorem map_page_correct_witness:
  "\<exists>s'. map_page 0x400000 (Some 0x300000) (User OR Writable) small_vm = (True, s') \<and>
     virtual_to_physical 0x400123 s' = Some 0x300123 \<and> vm_invlpg s' = [0x400000] \<and> allows User s' 0x100000 0x400000"
proof -
  obtain s' where r: "map_page 0x400000 (Some 0x300000) (User OR Writable) small_vm = (True, s')"
    using small_map by (cases "map_page 0x400000 (Some 0x300000) (User OR Writable) small_vm") simp
  note c = map_page_correct [OF small_vm_ok _ _ user_flags r]
  have "vm_invlpg small_vm = []" by (simp add: small_vm_def VirtualMemoryManager_def)
  moreover have "same_page 0x400000 0x400123"
    by (simp add: same_page_def walk_of_def pml4_index_def pdpt_index_def pd_index_def pt_index_def)
  moreover have "allows User t r v" if "allows (Writable OR ((User OR Writable) AND User)) t r v" for t r v
  proof -
    have "x AND User = User" if "x AND (Writable OR ((User OR Writable) AND User)) = Writable OR ((User OR Writable) AND User)" for x
    proof -
      have "User = (Writable OR ((User OR Writable) AND User)) AND User" by (simp add: User_def Writable_def)
      then show ?thesis using that by (metis and.assoc)
    qed
    then show ?thesis using that by (auto simp: allows_def)
  qed
  ultimately show ?thesis using c r by (auto simp: pg_def PAGE_MASK_def PAGE_SIZE_def)
qed

lemma small_mapped:
  obtains s' where "map_page 0x400000 (Some 0x300000) (User OR Writable) small_vm = (True, s')" "space_ok UNIV 0x100000 s'"
    "vm_pml4 s' = Some 0x100000" "entry_of s' 0x100000 0x400000 \<noteq> 0"
proof -
  let ?tf = "Present OR Writable OR ((User OR Writable) AND User)"
  obtain t where t: "map_in_table (physical_to_virtual (Some 0x100000)) 0x400000 0x300000 (User OR Writable) ?tf small_vm = (True, t)"
    "map_page 0x400000 (Some 0x300000) (User OR Writable) small_vm = (True, invlpg 0x400000 t)"
    using small_map by (auto simp: map_page_def small_vm_ok(2) split: prod.splits bool.splits)
  note eff = map_in_table_effect [OF small_vm_ok(1) UNIV_I table_flags(1,2) t(1)]
  have "entry_of t 0x100000 0x400000 \<noteq> 0"
    using eff(2) [OF path_walk(1) [OF UNIV_I] path_walk(2) index_less(4), of "0x400000"] mapping_nonzero [of "(0x300000 AND PAGE_MASK) OR User OR Writable"] by (simp add: entry_of_def or.assoc)
  moreover have "vm_pml4 (invlpg 0x400000 t) = Some 0x100000" using eff(10) small_vm_ok(2) by (simp add: invlpg_def)
  ultimately show thesis using that [OF t(2)] eff(1) by (simp add: tables_of_invlpg entry_of_def)
qed

theorem unmap_page_correct_witness:
  "\<exists>s1 s2. map_page 0x400000 (Some 0x300000) (User OR Writable) small_vm = (True, s1) \<and>
     unmap_page 0x400000 s1 = (True, s2) \<and> virtual_to_physical 0x400000 s2 = None"
proof -
  obtain s1 where s1: "map_page 0x400000 (Some 0x300000) (User OR Writable) small_vm = (True, s1)" "space_ok UNIV 0x100000 s1"
    "vm_pml4 s1 = Some 0x100000" "entry_of s1 0x100000 0x400000 \<noteq> 0" using small_mapped .
  obtain b s2 where r: "unmap_page 0x400000 s1 = (b, s2)" by (cases "unmap_page 0x400000 s1")
  have "virtual_to_physical 0x400000 s1 \<noteq> None" using s1(3,4) by (simp add: virtual_to_physical_leaf)
  then show ?thesis using unmap_page_correct [OF s1(2,3) UNIV_I r] s1(1) r by (auto simp: same_page_def)
qed


end
