(* ===== verification/Address_Space.thy ===== *)
theory Address_Space
  imports Virt_Memory
begin

text \<open>
  Duplication and destruction of address spaces (\<open>include/vmm.cpp\<close>): the visit of every user
  page, what \<open>fork\<close> copies, and what is given back when a process is reaped.
\<close>

section \<open>Stoppable loops\<close>

lemma each_append: "each f (xs @ ys) s = (case each f xs s of (True, s1) \<Rightarrow> each f ys s1 | (False, s1) \<Rightarrow> (False, s1))"
  by (induction xs arbitrary: s) (auto split: prod.split bool.split)

lemma each_map: "each f (map g xs) s = each (\<lambda>x. f (g x)) xs s"
  by (induction xs arbitrary: s) (auto split: prod.split bool.split)

lemma each_product: "each (\<lambda>x. each (f x) ys) xs s = each (\<lambda>(x, y). f x y) (List.product xs ys) s"
  by (induction xs arbitrary: s) (simp_all add: each_append each_map split: prod.split bool.split)

lemma each_skip: "(\<And>x t. x \<in> set xs \<Longrightarrow> f x t = (True, t)) \<Longrightarrow> each f xs s = (True, s)"
  by (induction xs) auto

lemma each_cong_inv:
  assumes "\<And>x t. x \<in> set xs \<Longrightarrow> I t \<Longrightarrow> f x t = g x t" "\<And>x t b t'. x \<in> set xs \<Longrightarrow> I t \<Longrightarrow> g x t = (b, t') \<Longrightarrow> I t'" "I s"
  shows "each f xs s = each g xs s"
  using assms
proof (induction xs arbitrary: s)
  case (Cons x xs)
  obtain b t where g: "g x s = (b, t)" by (cases "g x s")
  have "I t" using Cons.prems(2) [of x s] Cons.prems(3) g by simp
  then have "each f xs t = each g xs t" using Cons.IH [of t] Cons.prems(1,2) by (metis list.set_intros(2))
  then show ?case using Cons.prems(1) [of x s] Cons.prems(3) g by (simp split: bool.split)
qed simp

lemma each_inv:
  assumes "\<And>x t b t'. x \<in> set xs \<Longrightarrow> I t \<Longrightarrow> f x t = (b, t') \<Longrightarrow> I t'" "I s" "each f xs s = (b, s')"
  shows "I s'"
  using assms
proof (induction xs arbitrary: s)
  case (Cons x xs)
  obtain c t where g: "f x s = (c, t)" by (cases "f x s")
  have "I t" using Cons.prems(1) [of x s] Cons.prems(2) g by simp
  moreover have "each f xs t = (b, s')" if c using Cons.prems(3) g that by simp
  ultimately show ?case using Cons.IH [of t] Cons.prems g by (cases c) auto
qed simp

section \<open>Addresses of user pages\<close>

lemma bit_small: "k < 512 \<Longrightarrow> bit (of_nat k :: u64) n \<Longrightarrow> n < 9"
proof -
  assume k: "k < 512" and n: "bit (of_nat k :: u64) n"
  have "take_bit 9 k = k" using k by (simp add: take_bit_nat_eq_self_iff)
  moreover have "bit k n" using n by (simp add: bit_of_nat_iff)
  ultimately show ?thesis by (metis bit_take_bit_iff)
qed

lemma page_address_index:
  assumes "i < 512" "j < 512" "k < 512"
  shows "pml4_index (page_address i j k) = 0" "pdpt_index (page_address i j k) = of_nat i"
    "pd_index (page_address i j k) = of_nat j" "pt_index (page_address i j k) = of_nat k"
proof -
  have m: "(0x1FF :: u64) = mask 9" by (simp add: mask_eq_exp_minus_1)
  note small = bit_small [OF assms(1)] bit_small [OF assms(2)] bit_small [OF assms(3)]
  note defs = page_address_def m bit_and_iff bit_or_iff bit_drop_bit_eq bit_push_bit_iff bit_mask_iff possible_bit_word
  show "pml4_index (page_address i j k) = 0"
    unfolding pml4_index_def by (rule bit_word_eqI) (auto simp: defs dest: small)
  show "pdpt_index (page_address i j k) = of_nat i"
    unfolding pdpt_index_def by (rule bit_word_eqI) (auto simp: defs dest: small)
  show "pd_index (page_address i j k) = of_nat j"
    unfolding pd_index_def by (rule bit_word_eqI) (auto simp: defs dest: small)
  show "pt_index (page_address i j k) = of_nat k"
    unfolding pt_index_def by (rule bit_word_eqI) (auto simp: defs dest: small)
qed

section \<open>The visit of the user pages\<close>

definition user_pages :: "u64 list" where
  "user_pages = map (\<lambda>(i, j, k). page_address i j k) (List.product [0..<ENTRIES_PER_TABLE] (List.product [0..<ENTRIES_PER_TABLE] [0..<ENTRIES_PER_TABLE]))"

lemma less_entries [simp]: "x < ENTRIES_PER_TABLE \<longleftrightarrow> x < 512"
  by (simp add: ENTRIES_PER_TABLE_def)

lemma set_user_pages: "set user_pages = {page_address i j k | i j k. i < 512 \<and> j < 512 \<and> k < 512}"
  by (force simp: user_pages_def)

lemma user_pagesI: "i < 512 \<Longrightarrow> j < 512 \<Longrightarrow> k < 512 \<Longrightarrow> page_address i j k \<in> set user_pages"
  by (auto simp: set_user_pages)

lemma user_page_index: "va \<in> set user_pages \<Longrightarrow> pml4_index va = 0"
  by (auto simp: set_user_pages page_address_index)

text \<open>Every page of the lower 512 GB is visited, exactly once.\<close>

lemma user_pages_all:
  assumes "pml4_index va = 0"
  obtains va' where "va' \<in> set user_pages" "same_page va va'"
proof -
  let ?i = "unat (pdpt_index va)" and ?j = "unat (pd_index va)" and ?k = "unat (pt_index va)"
  have l: "?i < 512" "?j < 512" "?k < 512" using index_less [of va] by (simp_all add: word_less_nat_alt)
  have "same_page va (page_address ?i ?j ?k)" using page_address_index [OF l] assms by (simp add: same_page_def walk_of_def)
  then show thesis using that user_pagesI [OF l] by blast
qed

lemma user_pages_inj:
  assumes "i < 512" "j < 512" "k < 512" "i' < 512" "j' < 512" "k' < 512" "same_page (page_address i j k) (page_address i' j' k')"
  shows "i = i' \<and> j = j' \<and> k = k'"
proof -
  have eq: "x = y" if "(of_nat x :: u64) = of_nat y" "x < 512" "y < 512" for x y
    using arg_cong [OF that(1), of unat] that(2,3) by (simp add: unat_of_nat)
  show ?thesis using assms(7) eq page_address_index [OF assms(1-3)] page_address_index [OF assms(4-6)] assms(1-6)
    by (auto simp: same_page_def walk_of_def)
qed

lemma user_pages_same: "va \<in> set user_pages \<Longrightarrow> va' \<in> set user_pages \<Longrightarrow> same_page va va' \<Longrightarrow> va = va'"
proof -
  assume a: "va \<in> set user_pages" "va' \<in> set user_pages" "same_page va va'"
  obtain i j k where i: "va = page_address i j k" "i < 512" "j < 512" "k < 512" using a(1) by (auto simp: set_user_pages)
  obtain i' j' k' where i': "va' = page_address i' j' k'" "i' < 512" "j' < 512" "k' < 512" using a(2) by (auto simp: set_user_pages)
  show "va = va'" using user_pages_inj [OF i(2-4) i'(2-4)] a(3) i(1) i'(1) by simp
qed

lemma distinct_user_pages: "distinct user_pages"
proof -
  let ?l = "List.product [0..<ENTRIES_PER_TABLE] (List.product [0..<ENTRIES_PER_TABLE] [0..<ENTRIES_PER_TABLE])"
  have "inj_on (\<lambda>(i, j, k). page_address i j k) (set ?l)"
  proof (rule inj_onI)
    fix x y assume a: "x \<in> set ?l" "y \<in> set ?l" "(case x of (i, j, k) \<Rightarrow> page_address i j k) = (case y of (i, j, k) \<Rightarrow> page_address i j k)"
    obtain i j k i' j' k' where xy: "x = (i, j, k)" "y = (i', j', k')" by (cases x, cases y) auto
    have "same_page (page_address i j k) (page_address i' j' k')" using a(3) xy by (simp add: same_page_def)
    then show "x = y" using user_pages_inj [of i j k i' j' k'] a(1,2) xy by simp
  qed
  then show ?thesis by (simp add: user_pages_def distinct_map distinct_product)
qed

definition visit :: "vm \<Rightarrow> u64 \<Rightarrow> (u64 \<Rightarrow> u64 \<Rightarrow> vm \<Rightarrow> bool \<times> vm) \<Rightarrow> u64 \<Rightarrow> vm \<Rightarrow> bool \<times> vm" where
  "visit s0 root visitor va s = (if entry_of s0 root va AND User = 0 then (True, s) else visitor va (entry_of s0 root va) s)"

lemma entry_of_page_address:
  "i < 512 \<Longrightarrow> j < 512 \<Longrightarrow> k < 512 \<Longrightarrow> entry_of s root (page_address i j k) = leaf s root [0, of_nat i, of_nat j] (of_nat k)"
  by (simp add: entry_of_def walk_of_def page_address_index)

lemma of_nat_less: "k < 512 \<Longrightarrow> (of_nat k :: u64) < 512"
  by (simp add: word_less_nat_alt unat_of_nat)

lemma path0: "i < 512 \<Longrightarrow> j < 512 \<Longrightarrow> path {0} [0] \<and> path {0} [0, of_nat i] \<and> path {0} [0, of_nat i, of_nat j]"
  by (simp add: path_def of_nat_less)

text \<open>
  As long as the visitor leaves the visited tables alone, the nested loops call it on the user
  pages in address order, with the entries the tables had at the start.
\<close>

lemma through:
  assumes same: "tab t root q = tab s0 root q" "tab t root (q @ [x]) = tab s0 root (q @ [x])"
    and p: "tab s0 root q = Some p"
    and none: "tab s0 root (q @ [x]) = None \<Longrightarrow> r = (True, t)"
    and some: "\<And>u. tab s0 root (q @ [x]) = Some u \<Longrightarrow> body (physical_to_virtual (Some u)) t = r"
  shows "(if rd (physical_to_virtual (Some p)) x t AND Present = 0 then (True, t)
          else let u = physical_to_virtual (entry_to_phys (rd (physical_to_virtual (Some p)) x t)) in body u t) = r"
proof -
  have st: "step t p x = tab s0 root (q @ [x])" using same p by (simp add: tab_snoc)
  show ?thesis
  proof (cases "step t p x")
    case None
    then show ?thesis using none st by (simp add: step_def not_present split: if_splits)
  next
    case (Some u)
    then show ?thesis using some [of u] st by (simp add: step_def not_present entry_to_phys_def split: if_splits)
  qed
qed

lemma for_each_visit:
  assumes root: "pg root"
    and same: "\<And>t q. I t \<Longrightarrow> path {0} q \<Longrightarrow> tab t root q = tab s0 root q"
      "\<And>t q d. I t \<Longrightarrow> path {0} q \<Longrightarrow> length q = 3 \<Longrightarrow> d < 512 \<Longrightarrow> leaf t root q d = leaf s0 root q d"
    and keep: "\<And>va t b t'. va \<in> set user_pages \<Longrightarrow> I t \<Longrightarrow> entry_of s0 root va AND User \<noteq> 0 \<Longrightarrow>
      visitor va (entry_of s0 root va) t = (b, t') \<Longrightarrow> I t'"
    and I: "I s0"
  shows "for_each_user_page (Some root) visitor s0 = each (visit s0 root visitor) user_pages s0"
proof -
  define n where "n = [0..<ENTRIES_PER_TABLE]"
  have n: "x \<in> set n \<longleftrightarrow> x < 512" for x by (simp add: n_def)
  define v where "v = (\<lambda>i j k. visit s0 root visitor (page_address i j k))"
  have kv: "I t'" if "i < 512" "j < 512" "k < 512" "I t" "v i j k t = (b, t')" for i j k t b t'
    using keep [OF user_pagesI [OF that(1-3)] that(4)] that(4,5) by (auto simp: v_def visit_def split: if_splits)
  have kk: "I t'" if "i < 512" "j < 512" "I t" "each (v i j) n t = (b, t')" for i j t b t'
    by (rule each_inv [of n I "v i j" t b t']) (use kv that n in blast)+
  have kj: "I t'" if "i < 512" "I t" "each (\<lambda>j. each (v i j) n) n t = (b, t')" for i t b t'
    by (rule each_inv [of n I "\<lambda>j. each (v i j) n" t b t']) (use kk that n in blast)+
  have sk: "v i j k t = (True, t)" if "tab s0 root [0, of_nat i, of_nat j] = None" "i < 512" "j < 512" "k < 512" for i j k t
    using that by (simp add: v_def visit_def entry_of_page_address leaf_def)
  have sj: "each (v i j) n t = (True, t)" if "tab s0 root [0, of_nat i, of_nat j] = None" "i < 512" "j < 512" for i j t
    by (rule each_skip) (use sk [OF that] n in blast)
  have si: "each (\<lambda>j. each (v i j) n) n t = (True, t)" if "tab s0 root [0, of_nat i] = None" "i < 512" for i t
  proof (rule each_skip)
    have "tab s0 root [0, of_nat i, of_nat j] = None" for j using that(1) by (auto split: option.splits)
    then show "each (v i j) n t = (True, t)" if "j \<in> set n" for j t using sj \<open>i < 512\<close> that n by blast
  qed
  have b3: "(let entry = rd (physical_to_virtual (Some p)) (of_nat k) t in
      if entry AND Present = 0 then (True, t) else if entry AND User = 0 then (True, t) else visitor (page_address i j k) entry t) = v i j k t"
    if "i < 512" "j < 512" "tab s0 root [0, of_nat i, of_nat j] = Some p" "k < 512" "I t" for i j k p t
  proof -
    have "tab t root [0, of_nat i, of_nat j] = Some p" using same(1) [OF that(5)] path0 [OF that(1,2)] that(3) by metis
    then have "leaf s0 root [0, of_nat i, of_nat j] (of_nat k) = (if bit (ent t p (of_nat k)) 0 then ent t p (of_nat k) else 0)"
      using same(2) [OF that(5) _ _ of_nat_less [OF that(4)], of "[0, of_nat i, of_nat j]"] path0 [OF that(1,2)] by (simp add: leaf_def)
    then show ?thesis using that(1,2,4) by (simp add: v_def visit_def entry_of_page_address not_present Let_def)
  qed
  have b2: "(if rd (physical_to_virtual (Some p)) (of_nat j) t AND Present = 0 then (True, t)
      else let pt = physical_to_virtual (entry_to_phys (rd (physical_to_virtual (Some p)) (of_nat j) t)) in
        each (\<lambda>k s3. let entry = rd pt (of_nat k) s3 in
           if entry AND Present = 0 then (True, s3) else if entry AND User = 0 then (True, s3) else visitor (page_address i j k) entry s3) n t) =
      each (v i j) n t"
    if "i < 512" "tab s0 root [0, of_nat i] = Some p" "j < 512" "I t" for i j p t
  proof (rule through [where q = "[0, of_nat i]" and x = "of_nat j"])
    show "each (\<lambda>k s3. let entry = rd (physical_to_virtual (Some u)) (of_nat k) s3 in
           if entry AND Present = 0 then (True, s3) else if entry AND User = 0 then (True, s3) else visitor (page_address i j k) entry s3) n t =
      each (v i j) n t" if "tab s0 root ([0, of_nat i] @ [of_nat j]) = Some u" for u
      by (rule each_cong_inv [where I = I, OF b3 kv]) (use that \<open>I t\<close> \<open>i < 512\<close> \<open>j < 512\<close> n in \<open>simp_all del: tab.simps\<close>)
  qed (use same(1) [OF that(4)] path0 [OF that(1,3)] that sj in \<open>simp_all del: tab.simps\<close>)
  have b1: "(if rd (physical_to_virtual (Some p)) (of_nat i) t AND Present = 0 then (True, t)
      else let pd = physical_to_virtual (entry_to_phys (rd (physical_to_virtual (Some p)) (of_nat i) t)) in
        each (\<lambda>j s2. if rd pd (of_nat j) s2 AND Present = 0 then (True, s2)
          else let pt = physical_to_virtual (entry_to_phys (rd pd (of_nat j) s2)) in
            each (\<lambda>k s3. let entry = rd pt (of_nat k) s3 in
              if entry AND Present = 0 then (True, s3) else if entry AND User = 0 then (True, s3) else visitor (page_address i j k) entry s3) n s2) n t) =
      each (\<lambda>j. each (v i j) n) n t"
    if "tab s0 root [0] = Some p" "i < 512" "I t" for i p t
  proof (rule through [where q = "[0]" and x = "of_nat i"])
    show "each (\<lambda>j s2. if rd (physical_to_virtual (Some u)) (of_nat j) s2 AND Present = 0 then (True, s2)
          else let pt = physical_to_virtual (entry_to_phys (rd (physical_to_virtual (Some u)) (of_nat j) s2)) in
            each (\<lambda>k s3. let entry = rd pt (of_nat k) s3 in
              if entry AND Present = 0 then (True, s3) else if entry AND User = 0 then (True, s3) else visitor (page_address i j k) entry s3) n s2) n t =
      each (\<lambda>j. each (v i j) n) n t" if "tab s0 root ([0] @ [of_nat i]) = Some u" for u
      by (rule each_cong_inv [where I = I, OF b2 kk]) (use that \<open>I t\<close> \<open>i < 512\<close> n in \<open>simp_all del: tab.simps\<close>)
  qed (use same(1) [OF that(3)] path0 [OF that(2,2)] that si in \<open>simp_all del: tab.simps\<close>)
  have all: "each (visit s0 root visitor) user_pages s0 = each (\<lambda>i. each (\<lambda>j. each (v i j) n) n) n s0"
  proof -
    have "(\<lambda>i. each (\<lambda>j. each (v i j) n) n) = (\<lambda>i. each (\<lambda>(j, k). v i j k) (List.product n n))"
      by (simp add: fun_eq_iff each_product)
    then have "each (\<lambda>i. each (\<lambda>j. each (v i j) n) n) n s0 = each (\<lambda>(i, jk). case jk of (j, k) \<Rightarrow> v i j k) (List.product n (List.product n n)) s0"
      using each_product [of "\<lambda>i (j, k). v i j k" "List.product n n" n s0] by simp
    then show ?thesis by (simp add: user_pages_def each_map n_def [symmetric] v_def case_prod_unfold)
  qed
  show ?thesis
  proof (cases "tab s0 root [0]")
    case None
    have "each (\<lambda>i. each (\<lambda>j. each (v i j) n) n) n s0 = (True, s0)"
      by (rule each_skip, rule si) (use None n in \<open>auto split: option.splits\<close>)
    moreover have "for_each_user_page (Some root) visitor s0 = (True, s0)"
      using None by (simp add: for_each_user_page_def not_present step_def split: option.splits if_splits)
    ultimately show ?thesis by (simp add: all)
  next
    case (Some p)
    then have p: "bit (ent s0 root 0) 0" "frame (ent s0 root 0) = p" by (auto simp: step_def split: option.splits if_splits)
    have "each (\<lambda>i t. if rd (physical_to_virtual (Some p)) (of_nat i) t AND Present = 0 then (True, t)
        else let pd = physical_to_virtual (entry_to_phys (rd (physical_to_virtual (Some p)) (of_nat i) t)) in
        each (\<lambda>j s2. if rd pd (of_nat j) s2 AND Present = 0 then (True, s2)
          else let pt = physical_to_virtual (entry_to_phys (rd pd (of_nat j) s2)) in
            each (\<lambda>k s3. let entry = rd pt (of_nat k) s3 in
              if entry AND Present = 0 then (True, s3) else if entry AND User = 0 then (True, s3) else visitor (page_address i j k) entry s3) n s2) n t)
        n s0 = each (\<lambda>i. each (\<lambda>j. each (v i j) n) n) n s0"
      by (rule each_cong_inv [where I = I, OF b1 kj]) (use Some I n in \<open>simp_all del: tab.simps\<close>)
    then have "for_each_user_page (Some root) visitor s0 = each (\<lambda>i. each (\<lambda>j. each (v i j) n) n) n s0"
      unfolding for_each_user_page_def n_def [symmetric] using p table_pointer_nonzero [OF root]
      by (simp add: not_present entry_to_phys_def Let_def)
    then show ?thesis by (simp add: all)
  qed
qed

section \<open>Copying one page\<close>

lemma space_ok_keep:
  assumes ok: "space_ok U root s" and st: "\<And>u j. u \<in> owned U root s \<Longrightarrow> j < 512 \<Longrightarrow> step s' u j = step s u j"
    and p: "pmm_inv (vm_pmm s')" "owned U root s \<inter> avail (vm_pmm s') = {}"
  shows "space_ok U root s'" "owned U root s' = owned U root s"
proof -
  have t: "path U q \<Longrightarrow> tab s' root q = tab s root q" for q using tab_same [OF st] .
  then show own: "owned U root s' = owned U root s" by (auto simp: owned_def)
  have "p1 = p2" if "path U p1" "path U p2" "tab s' root p1 = Some u" "tab s' root p2 = Some u" for p1 p2 u
    using space_okD(4) [OF ok that(1,2)] that t by simp
  then show "space_ok U root s'" using space_okD(2) [OF ok] p own unfolding space_ok_def by auto
qed

text \<open>Tables and last-level entries depend on the memory of the tables only.\<close>

lemma leaf_keep:
  assumes e: "\<And>u j. u \<in> owned U root s \<Longrightarrow> j < 512 \<Longrightarrow> ent s' u j = ent s u j" and q: "path U q"
  shows "tab s' root q = tab s root q" "d < 512 \<Longrightarrow> leaf s' root q d = leaf s root q d"
proof -
  have st: "step s' u j = step s u j" if "u \<in> owned U root s" "j < 512" for u j using e [OF that] by (simp add: step_def)
  show t: "tab s' root q = tab s root q" using tab_same [OF st q] .
  show "d < 512 \<Longrightarrow> leaf s' root q d = leaf s root q d"
    using t e ownedI [OF q, of s root] by (auto simp: leaf_def split: option.split)
qed

lemma ent_vm_free [simp]: "ent (vm_free a s) = ent s"
  by (simp add: vm_free_def ent_def fun_eq_iff)

lemma low_flags: "frame (e AND 0xFFF) = 0" "bit e 0 \<Longrightarrow> pg a \<Longrightarrow> ((a AND PAGE_MASK) OR (e AND 0xFFF) OR Present) AND 0xFFF = e AND 0xFFF"
proof -
  have m: "(0xFFF :: u64) = mask 12" by (simp add: mask_eq_exp_minus_1)
  show "frame (e AND 0xFFF) = 0" by (rule bit_word_eqI) (simp add: m bit_frame bit_and_iff bit_mask_iff)
  assume e: "bit e 0" and a: "pg a"
  have "bit a n \<Longrightarrow> 12 \<le> n" for n using bit_pg [OF a] by blast
  then show "((a AND PAGE_MASK) OR (e AND 0xFFF) OR Present) AND 0xFFF = e AND 0xFFF"
    using e by (intro bit_word_eqI) (force simp: m bit_and_iff bit_or_iff bit_mask_iff Present_def bit_1_iff)
qed

definition page_changes :: "u64 set \<Rightarrow> vm \<Rightarrow> vm \<Rightarrow> bool" where
  "page_changes A s s' \<longleftrightarrow> (\<forall>x. vm_mem s' x \<noteq> vm_mem s x \<longrightarrow> (\<exists>t \<in> A. in_words (t + DIRECT_MAP_BASE) 512 x))"

lemma page_changes_ent: "page_changes A s s' \<Longrightarrow> (\<And>t. t \<in> A \<Longrightarrow> pg t) \<Longrightarrow> pg u \<Longrightarrow> u \<notin> A \<Longrightarrow> j < 512 \<Longrightarrow> ent s' u j = ent s u j"
  using slot_in_page [of _ u j] by (fastforce simp: page_changes_def ent_def)

lemma page_changes_trans: "page_changes A s t \<Longrightarrow> page_changes A t u \<Longrightarrow> page_changes A s u"
  unfolding page_changes_def by metis

lemma page_changes_mono: "page_changes A s t \<Longrightarrow> A \<subseteq> B \<Longrightarrow> page_changes B s t"
  unfolding page_changes_def by blast

lemma copy_user_page_effect:
  assumes ok: "space_ok {0} dest s" and va: "pml4_index va = 0" and r: "copy_user_page (Some dest) va e s = (b, s')"
  shows "space_ok {0} dest s'" and "avail (vm_pmm s') \<subseteq> avail (vm_pmm s)" and "pool (vm_pmm s') = pool (vm_pmm s)"
    and "owned {0} dest s \<subseteq> owned {0} dest s'" and "owned {0} dest s' \<subseteq> owned {0} dest s \<union> (avail (vm_pmm s) - avail (vm_pmm s'))"
    and "vm_pml4 s' = vm_pml4 s" and "page_changes (owned {0} dest s \<union> avail (vm_pmm s)) s s'"
    and "b \<Longrightarrow> \<exists>a. a \<in> avail (vm_pmm s) \<and> a \<notin> avail (vm_pmm s') \<and> a \<notin> owned {0} dest s' \<and>
      (\<forall>q d. path {0} q \<longrightarrow> length q = 3 \<longrightarrow> d < 512 \<longrightarrow> leaf s' dest q d =
         (if q = walk_of va \<and> d = pt_index va then (a AND PAGE_MASK) OR (e AND 0xFFF) OR Present else leaf s dest q d)) \<and>
      (\<forall>j<512. ent s' a j = ent s (frame e) j) \<and> page_changes (insert a (owned {0} dest s')) s s' \<and>
      avail (vm_pmm s) \<subseteq> insert a (avail (vm_pmm s') \<union> owned {0} dest s')"
    and "\<not> b \<Longrightarrow> avail (vm_pmm s) \<subseteq> avail (vm_pmm s') \<union> owned {0} dest s' \<and>
      (\<forall>q d. path {0} q \<longrightarrow> length q = 3 \<longrightarrow> d < 512 \<longrightarrow> leaf s' dest q d = leaf s dest q d)"
proof -
  note inv = space_okD(1) [OF ok]
  have "space_ok {0} dest s' \<and> avail (vm_pmm s') \<subseteq> avail (vm_pmm s) \<and> pool (vm_pmm s') = pool (vm_pmm s) \<and>
    owned {0} dest s \<subseteq> owned {0} dest s' \<and> owned {0} dest s' \<subseteq> owned {0} dest s \<union> (avail (vm_pmm s) - avail (vm_pmm s')) \<and>
    vm_pml4 s' = vm_pml4 s \<and> page_changes (owned {0} dest s \<union> avail (vm_pmm s)) s s' \<and>
    (b \<longrightarrow> (\<exists>a. a \<in> avail (vm_pmm s) \<and> a \<notin> avail (vm_pmm s') \<and> a \<notin> owned {0} dest s' \<and>
      (\<forall>q d. path {0} q \<longrightarrow> length q = 3 \<longrightarrow> d < 512 \<longrightarrow> leaf s' dest q d =
         (if q = walk_of va \<and> d = pt_index va then (a AND PAGE_MASK) OR (e AND 0xFFF) OR Present else leaf s dest q d)) \<and>
      (\<forall>j<512. ent s' a j = ent s (frame e) j) \<and> page_changes (insert a (owned {0} dest s')) s s' \<and>
      avail (vm_pmm s) \<subseteq> insert a (avail (vm_pmm s') \<union> owned {0} dest s'))) \<and>
    (\<not> b \<longrightarrow> avail (vm_pmm s) \<subseteq> avail (vm_pmm s') \<union> owned {0} dest s' \<and>
      (\<forall>q d. path {0} q \<longrightarrow> length q = 3 \<longrightarrow> d < 512 \<longrightarrow> leaf s' dest q d = leaf s dest q d))"
  proof (cases "pmm_allocate (vm_pmm s)")
    case (Pair o1 p)
    show ?thesis
    proof (cases o1)
      case None
      then have "s' = s" "\<not> b" using r Pair pm.alloc_none [OF inv, of p] by (auto simp: copy_user_page_def vm_allocate_def)
      then show ?thesis using ok by (simp add: page_changes_def)
    next
      case (Some a)
      note al = Pair [unfolded Some]
      have av: "a \<in> avail (vm_pmm s)" "avail p = avail (vm_pmm s) - {a}" "pool p = pool (vm_pmm s)" "pmm_inv p"
        using pm.alloc_some [OF inv al] by auto
      have pga: "pg a" using pm.page_aligned [OF inv] pm.free_pages_in [OF inv] av(1) by (auto simp: pg_def)
      have new: "a \<notin> owned {0} dest s" using space_okD(3) [OF ok] av(1) by blast
      define s2 where "s2 = copy_words (physical_to_virtual (Some a)) (physical_to_virtual (Some (frame e))) 512 (s\<lparr>vm_pmm := p\<rparr>)"
      have e2: "ent s2 u j = (if u = a then ent s (frame e) j else ent s u j)" if "pg u" "j < 512" for u j
        using ent_copy_words [OF pga that, of 0 "frame e"] by (simp add: s2_def ent_vm_pmm)
      have s2: "vm_pmm s2 = p" "vm_pml4 s2 = vm_pml4 s" by (simp_all add: s2_def copy_words_def)
      have ch2: "vm_mem s2 x \<noteq> vm_mem s x \<Longrightarrow> in_words (a + DIRECT_MAP_BASE) 512 x" for x
        by (auto simp: s2_def copy_words_def physical_to_virtual_def split: if_splits)
      have keep2: "ent s2 u j = ent s u j" if "u \<in> owned {0} dest s" "j < 512" for u j
        using e2 [OF space_okD(2) [OF ok that(1)] that(2)] that(1) new by auto
      have st2: "step s2 u j = step s u j" if "u \<in> owned {0} dest s" "j < 512" for u j
        using keep2 [OF that] by (simp add: step_def)
      have dis: "owned {0} dest s \<inter> avail (vm_pmm s2) = {}" using space_okD(3) [OF ok] av(2) s2(1) by auto
      have "pmm_inv (vm_pmm s2)" using av(4) s2(1) by simp
      then have k2: "space_ok {0} dest s2" "owned {0} dest s2 = owned {0} dest s"
        using space_ok_keep [of "{0}" dest s s2, OF ok _ _ dis] st2 by blast+
      obtain c t where t: "map_in_table (physical_to_virtual (Some dest)) va a (e AND 0xFFF) (Present OR Writable OR User) s2 = (c, t)"
        by (cases "map_in_table (physical_to_virtual (Some dest)) va a (e AND 0xFFF) (Present OR Writable OR User) s2")
      have r': "b = c" "s' = (if c then t else vm_free (Some a) t)"
        using r al t by (auto simp: copy_user_page_def vm_allocate_def map_page_in_def entry_to_phys_def s2_def Let_def split: bool.splits)
      have tf: "frame (Present OR Writable OR User) = 0" "bit (Present OR Writable OR User) 0"
        using table_flags(1,2) [of User] by simp_all
      have va0: "pml4_index va \<in> {0}" using va by simp
      note eff = map_in_table_effect [OF k2(1) va0 tf t, unfolded k2(2) s2(1,2)]
      have a_not: "a \<notin> owned {0} dest t" "a \<notin> avail (vm_pmm t)" using eff(5,7) new av(2) by auto
      have pool_t: "pool (vm_pmm t) = pool (vm_pmm s)" using eff(8) av(3) by simp
      have ch: "page_changes (insert a (owned {0} dest t)) s t"
        unfolding page_changes_def using ch2 eff(9) by (metis insertCI)
      have own: "owned {0} dest t \<subseteq> owned {0} dest s \<union> (avail p - avail (vm_pmm t))" using eff(5) by blast
      have acc: "avail (vm_pmm s) \<subseteq> insert a (avail (vm_pmm t) \<union> owned {0} dest t)" using eff(5) av(2) by auto
      have base: "owned {0} dest s \<subseteq> owned {0} dest t" "avail (vm_pmm t) \<subseteq> avail (vm_pmm s)" "vm_pml4 t = vm_pml4 s"
        using eff(6,7,10) av(2) by auto
      have "insert a (owned {0} dest t) \<subseteq> owned {0} dest s \<union> avail (vm_pmm s)" using own av(1,2) by auto
      then have chs: "page_changes (owned {0} dest s \<union> avail (vm_pmm s)) s t" using page_changes_mono [OF ch] by simp
      show ?thesis
      proof (cases c)
        case True
        have "\<forall>q d. path {0} q \<longrightarrow> length q = 3 \<longrightarrow> d < 512 \<longrightarrow> leaf t dest q d =
         (if q = walk_of va \<and> d = pt_index va then (a AND PAGE_MASK) OR (e AND 0xFFF) OR Present else leaf s dest q d)"
          using eff(2) leaf_keep(2) [OF keep2] True by simp
        moreover have "ent t a j = ent s (frame e) j" if "j < 512" for j
        proof -
          have "page_changes (owned {0} dest t) s2 t" using eff(9) by (simp add: page_changes_def)
          then have "ent t a j = ent s2 a j"
            using page_changes_ent [OF _ _ pga a_not(1) that] space_okD(2) [OF eff(1)] by blast
          then show ?thesis using e2 [OF pga that] by simp
        qed
        ultimately have "a \<in> avail (vm_pmm s) \<and> a \<notin> avail (vm_pmm t) \<and> a \<notin> owned {0} dest t \<and>
          (\<forall>q d. path {0} q \<longrightarrow> length q = 3 \<longrightarrow> d < 512 \<longrightarrow> leaf t dest q d =
            (if q = walk_of va \<and> d = pt_index va then (a AND PAGE_MASK) OR (e AND 0xFFF) OR Present else leaf s dest q d)) \<and>
          (\<forall>j<512. ent t a j = ent s (frame e) j) \<and> page_changes (insert a (owned {0} dest t)) s t \<and>
          avail (vm_pmm s) \<subseteq> insert a (avail (vm_pmm t) \<union> owned {0} dest t)"
          using av(1) a_not ch acc by simp
        moreover have "owned {0} dest t \<subseteq> owned {0} dest s \<union> (avail (vm_pmm s) - avail (vm_pmm t))" using own av(2) by auto
        ultimately show ?thesis using True r' eff(1) base pool_t chs by auto
      next
        case False
        have "a \<in> pool (vm_pmm t)" using pool_t pm.free_pages_in [OF inv] av(1) by auto
        then have fr: "avail (vm_pmm s') = insert a (avail (vm_pmm t))" "pool (vm_pmm s') = pool (vm_pmm t)" "pmm_inv (vm_pmm s')"
          using pm.release_page [OF space_okD(1) [OF eff(1)], of a] False r'(2) by (simp_all add: vm_free_def)
        have en: "ent s' = ent t" "vm_mem s' = vm_mem t" "vm_pml4 s' = vm_pml4 t" using False r'(2) by (simp_all add: vm_free_def ent_def fun_eq_iff)
        have st': "step s' u j = step t u j" for u j by (simp add: step_def en)
        have "owned {0} dest t \<inter> avail (vm_pmm s') = {}" using fr(1) a_not(1) space_okD(3) [OF eff(1)] by auto
        note k3 = space_ok_keep [OF eff(1) st' fr(3) this]
        have own3: "owned {0} dest s' = owned {0} dest t" by (rule k3(2))
        have "owned {0} dest s' \<subseteq> owned {0} dest s \<union> (avail (vm_pmm s) - avail (vm_pmm s'))" unfolding own3 fr(1) using own av(2) by auto
        moreover have "avail (vm_pmm s) \<subseteq> avail (vm_pmm s') \<union> owned {0} dest s'" unfolding own3 fr(1) using acc by auto
        moreover have "leaf s' dest q d = leaf s dest q d" if "path {0} q" "length q = 3" "d < 512" for q d
          using eff(2) [OF that] False leaf_keep(2) [OF keep2 that(1,3)] leaf_keep(2) [of "{0}" dest t s', OF _ that(1,3)] en(1) by simp
        ultimately show ?thesis using k3(1) own3 base fr en av(1) pool_t chs False r'(1) by (simp add: page_changes_def)
      qed
    qed
  qed
  then show "space_ok {0} dest s'" and "avail (vm_pmm s') \<subseteq> avail (vm_pmm s)" and "pool (vm_pmm s') = pool (vm_pmm s)"
    and "owned {0} dest s \<subseteq> owned {0} dest s'" and "owned {0} dest s' \<subseteq> owned {0} dest s \<union> (avail (vm_pmm s) - avail (vm_pmm s'))"
    and "vm_pml4 s' = vm_pml4 s" and "page_changes (owned {0} dest s \<union> avail (vm_pmm s)) s s'"
    and "b \<Longrightarrow> \<exists>a. a \<in> avail (vm_pmm s) \<and> a \<notin> avail (vm_pmm s') \<and> a \<notin> owned {0} dest s' \<and>
      (\<forall>q d. path {0} q \<longrightarrow> length q = 3 \<longrightarrow> d < 512 \<longrightarrow> leaf s' dest q d =
         (if q = walk_of va \<and> d = pt_index va then (a AND PAGE_MASK) OR (e AND 0xFFF) OR Present else leaf s dest q d)) \<and>
      (\<forall>j<512. ent s' a j = ent s (frame e) j) \<and> page_changes (insert a (owned {0} dest s')) s s' \<and>
      avail (vm_pmm s) \<subseteq> insert a (avail (vm_pmm s') \<union> owned {0} dest s')"
    and "\<not> b \<Longrightarrow> avail (vm_pmm s) \<subseteq> avail (vm_pmm s') \<union> owned {0} dest s' \<and>
      (\<forall>q d. path {0} q \<longrightarrow> length q = 3 \<longrightarrow> d < 512 \<longrightarrow> leaf s' dest q d = leaf s dest q d)"
    by simp_all
qed

section \<open>Copying all user pages\<close>

lemma each_progress:
  assumes "\<And>D x t t'. x \<in> set xs \<Longrightarrow> x \<notin> D \<Longrightarrow> P D t \<Longrightarrow> f x t = (True, t') \<Longrightarrow> P (insert x D) t'"
    "distinct xs" "set xs \<inter> D = {}" "P D s" "each f xs s = (True, s')"
  shows "P (D \<union> set xs) s'"
  using assms
proof (induction xs arbitrary: D s)
  case (Cons x xs)
  obtain c t where f: "f x s = (c, t)" by (cases "f x s")
  have c: c "each f xs t = (True, s')" using Cons.prems(5) f by (auto split: bool.splits)
  have "P (insert x D) t" using Cons.prems(1) [of x D s t] Cons.prems(3,4) f c(1) by simp
  then have "P (insert x D \<union> set xs) s'" using Cons.IH [of "insert x D" t] Cons.prems(1-3) c(2) by simp
  then show ?case by simp
qed simp

text \<open>
  What holds at every moment of the copy: the target is well-formed, and only its tables and
  pages that were free at the start have been written.
\<close>

definition copying :: "vm \<Rightarrow> u64 \<Rightarrow> vm \<Rightarrow> bool" where
  "copying s0 dest s \<longleftrightarrow> space_ok {0} dest s \<and> avail (vm_pmm s) \<subseteq> avail (vm_pmm s0) \<and> pool (vm_pmm s) = pool (vm_pmm s0) \<and>
     owned {0} dest s \<subseteq> owned {0} dest s0 \<union> (avail (vm_pmm s0) - avail (vm_pmm s)) \<and> owned {0} dest s0 \<subseteq> owned {0} dest s \<and>
     vm_pml4 s = vm_pml4 s0 \<and> page_changes (owned {0} dest s0 \<union> avail (vm_pmm s0)) s0 s"

text \<open>The page at \<open>va\<close> in the target is a private copy of the source's.\<close>

definition is_copy :: "vm \<Rightarrow> u64 \<Rightarrow> u64 \<Rightarrow> vm \<Rightarrow> u64 \<Rightarrow> bool" where
  "is_copy s0 src dest s va \<longleftrightarrow> (let e = entry_of s0 src va; e' = entry_of s dest va in
     frame e' \<in> avail (vm_pmm s0) \<and> frame e' \<notin> avail (vm_pmm s) \<and> frame e' \<notin> owned {0} dest s \<and>
     e' \<noteq> 0 \<and> e' AND 0xFFF = e AND 0xFFF \<and> (\<forall>j < 512. ent s (frame e') j = ent s0 (frame e) j))"

definition is_user :: "vm \<Rightarrow> u64 \<Rightarrow> u64 \<Rightarrow> bool" where
  "is_user s root va \<longleftrightarrow> entry_of s root va AND User \<noteq> 0"

definition copied :: "vm \<Rightarrow> u64 \<Rightarrow> u64 \<Rightarrow> u64 set \<Rightarrow> vm \<Rightarrow> bool" where
  "copied s0 src dest D s \<longleftrightarrow> copying s0 dest s \<and>
     (\<forall>va \<in> set user_pages. if va \<in> D \<and> is_user s0 src va then is_copy s0 src dest s va else entry_of s dest va = 0) \<and>
     (\<forall>va \<in> set user_pages. \<forall>va' \<in> set user_pages. va \<in> D \<and> va' \<in> D \<and> is_user s0 src va \<and> is_user s0 src va' \<and>
        frame (entry_of s dest va) = frame (entry_of s dest va') \<longrightarrow> va = va')"

lemma avail_pg: "pmm_inv p \<Longrightarrow> a \<in> avail p \<Longrightarrow> pg a"
  using pm.page_aligned pm.free_pages_in by (auto simp: pg_def)

lemma copying_pg: "space_ok {0} dest s0 \<Longrightarrow> t \<in> owned {0} dest s0 \<union> avail (vm_pmm s0) \<Longrightarrow> pg t"
  using space_okD(1,2) avail_pg by blast

lemma copying_ent:
  assumes "space_ok {0} dest s0" "copying s0 dest s" "pg u" "u \<notin> owned {0} dest s0 \<union> avail (vm_pmm s0)" "j < 512"
  shows "ent s u j = ent s0 u j"
proof (rule page_changes_ent)
  show "page_changes (owned {0} dest s0 \<union> avail (vm_pmm s0)) s0 s" using assms(2) by (simp add: copying_def)
qed (use assms copying_pg in auto)

lemma copying_step:
  assumes c: "copying s0 dest s" and va: "pml4_index va = 0" and r: "copy_user_page (Some dest) va e s = (b, s')"
  shows "copying s0 dest s'"
proof -
  note k = c [unfolded copying_def]
  note eff = copy_user_page_effect [OF conjunct1 [OF k] va r]
  have "owned {0} dest s \<union> avail (vm_pmm s) \<subseteq> owned {0} dest s0 \<union> avail (vm_pmm s0)" using k by blast
  then have "page_changes (owned {0} dest s0 \<union> avail (vm_pmm s0)) s s'" using page_changes_mono [OF eff(7)] by blast
  then have "page_changes (owned {0} dest s0 \<union> avail (vm_pmm s0)) s0 s'" using k page_changes_trans by blast
  moreover have "owned {0} dest s' \<subseteq> owned {0} dest s0 \<union> (avail (vm_pmm s0) - avail (vm_pmm s'))" using eff(2,5) k by blast
  ultimately show ?thesis unfolding copying_def using eff(1,2,3,4,6) k by auto
qed

lemma entries_after:
  assumes lf: "\<forall>q d. path {0} q \<longrightarrow> length q = 3 \<longrightarrow> d < 512 \<longrightarrow>
      leaf s' root q d = (if q = walk_of va \<and> d = pt_index va then x else leaf s root q d)"
    and va: "va \<in> set user_pages" "va' \<in> set user_pages"
  shows "entry_of s' root va' = (if va' = va then x else entry_of s root va')"
proof -
  have "path {0} (walk_of va')" using path_walk(1) user_page_index [OF va(2)] by simp
  moreover have "same_page va va' \<longleftrightarrow> va' = va" using user_pages_same [OF va] by (auto simp: same_page_def)
  ultimately show ?thesis using lf path_walk(2) by (simp add: entry_of_def same_page_def)
qed

lemma copied_step:
  assumes ok0: "space_ok {0} dest s0" and va: "va \<in> set user_pages" "va \<notin> D" and c: "copied s0 src dest D s"
    and src: "is_user s0 src va \<Longrightarrow> pg (frame (entry_of s0 src va)) \<and> frame (entry_of s0 src va) \<notin> owned {0} dest s0 \<union> avail (vm_pmm s0) \<and> bit (entry_of s0 src va) 0"
    and r: "visit s0 src (copy_user_page (Some dest)) va s = (True, s')"
  shows "copied s0 src dest (insert va D) s'"
proof (cases "is_user s0 src va")
  case False
  then show ?thesis using r c by (auto simp: visit_def is_user_def copied_def)
next
  case True
  let ?e = "entry_of s0 src va"
  have cp: "copy_user_page (Some dest) va ?e s = (True, s')" using True r by (simp add: visit_def is_user_def)
  have cs: "copying s0 dest s" and va0: "pml4_index va = 0" using c va user_page_index by (auto simp: copied_def)
  note cs' = copying_step [OF cs va0 cp]
  have oks: "space_ok {0} dest s" "avail (vm_pmm s) \<subseteq> avail (vm_pmm s0)" using cs by (auto simp: copying_def)
  note eff = copy_user_page_effect [OF oks(1) va0 cp]
  obtain a where a: "a \<in> avail (vm_pmm s)" "a \<notin> avail (vm_pmm s')" "a \<notin> owned {0} dest s'"
    and lf: "\<forall>q d. path {0} q \<longrightarrow> length q = 3 \<longrightarrow> d < 512 \<longrightarrow> leaf s' dest q d =
         (if q = walk_of va \<and> d = pt_index va then (a AND PAGE_MASK) OR (?e AND 0xFFF) OR Present else leaf s dest q d)"
    and content: "\<And>j. j < 512 \<Longrightarrow> ent s' a j = ent s (frame ?e) j" and ch: "page_changes (insert a (owned {0} dest s')) s s'"
    using eff(8) by blast
  have pga: "pg a" using avail_pg [OF space_okD(1) [OF oks(1)] a(1)] .
  have pgs: "t \<in> insert a (owned {0} dest s') \<Longrightarrow> pg t" for t using pga space_okD(2) [OF eff(1)] by blast
  note en = entries_after [OF lf va(1)]
  have fr: "frame (entry_of s' dest va) = a" using en [OF va(1)] frame_mapping [OF pga low_flags(1)] by simp
  have new: "is_copy s0 src dest s' va"
    using fr en [OF va(1)] mapping_nonzero [of "(a AND PAGE_MASK) OR (?e AND 0xFFF)"] low_flags(2) [OF _ pga] src [OF True] a oks(2) content
      copying_ent [OF ok0 cs] by (auto simp: is_copy_def or.assoc)
  have old: "is_copy s0 src dest s' va'" if "va' \<in> set user_pages" "va' \<in> D" "is_user s0 src va'" for va'
  proof -
    let ?a = "frame (entry_of s dest va')"
    have ic: "is_copy s0 src dest s va'" using c that by (auto simp: copied_def)
    then have a': "?a \<in> avail (vm_pmm s0)" "?a \<notin> avail (vm_pmm s)" "?a \<notin> owned {0} dest s" by (auto simp: is_copy_def Let_def)
    have "pg ?a" using avail_pg [OF space_okD(1) [OF ok0] a'(1)] .
    moreover have "?a \<notin> insert a (owned {0} dest s')" using a' a(1) eff(5) by auto
    ultimately have "ent s' ?a j = ent s ?a j" if "j < 512" for j using page_changes_ent [OF ch pgs _ _ that] by blast
    moreover have "entry_of s' dest va' = entry_of s dest va'" using en [OF that(1)] va(2) that(2) by auto
    ultimately show ?thesis using ic a' eff(2,5) by (auto simp: is_copy_def Let_def)
  qed
  have av_old: "frame (entry_of s' dest va') \<noteq> a" if "va' \<in> set user_pages" "va' \<in> D" "is_user s0 src va'" for va'
  proof -
    have "is_copy s0 src dest s va'" using c that by (auto simp: copied_def)
    then have "frame (entry_of s dest va') \<notin> avail (vm_pmm s)" by (simp add: is_copy_def Let_def)
    then show ?thesis using en [OF that(1)] va(2) that(2) a(1) by auto
  qed
  have "if va' \<in> insert va D \<and> is_user s0 src va' then is_copy s0 src dest s' va' else entry_of s' dest va' = 0" if "va' \<in> set user_pages" for va'
    using new old [OF that] en [OF that] c that True by (auto simp: copied_def)
  moreover have "x = y" if h: "x \<in> set user_pages" "y \<in> set user_pages" "x \<in> insert va D" "y \<in> insert va D" "is_user s0 src x" "is_user s0 src y"
    "frame (entry_of s' dest x) = frame (entry_of s' dest y)" for x y
  proof -
    consider "x = va" "y = va" | "x = va" "y \<in> D" | "x \<in> D" "y = va" | "x \<in> D" "y \<in> D" "x \<noteq> va" "y \<noteq> va" using h(3,4) by blast
    then show ?thesis
    proof cases
      case 4
      then show ?thesis using c h en [OF h(1)] en [OF h(2)] unfolding copied_def by metis
    qed (use av_old h fr in force)+
  qed
  ultimately show ?thesis unfolding copied_def using cs' by blast
qed

lemma entry_present: "entry_of s root va \<noteq> 0 \<Longrightarrow> bit (entry_of s root va) 0"
  by (auto simp: entry_of_def leaf_def split: option.splits if_splits)

definition user_frames :: "u64 \<Rightarrow> vm \<Rightarrow> u64 set" where
  "user_frames root s = {frame (entry_of s root va) | va. pml4_index va = 0 \<and> is_user s root va}"

lemma user_frames_pages: "user_frames root s = (\<lambda>va. frame (entry_of s root va)) ` {va \<in> set user_pages. is_user s root va}"
proof (intro equalityI subsetI)
  fix f assume "f \<in> user_frames root s"
  then obtain va where va: "f = frame (entry_of s root va)" "pml4_index va = 0" "is_user s root va" by (auto simp: user_frames_def)
  obtain w where w: "w \<in> set user_pages" "same_page va w" using user_pages_all [OF va(2)] .
  have "is_user s root w" "f = frame (entry_of s root w)" using va entry_same_page [OF w(2)] by (simp_all add: is_user_def)
  then show "f \<in> (\<lambda>va. frame (entry_of s root va)) ` {va \<in> set user_pages. is_user s root va}" using w(1) by blast
qed (auto simp: user_frames_def dest: user_page_index)

text \<open>The user part of an address space with its pages, as \<open>fork\<close> finds it.\<close>

definition user_space :: "u64 \<Rightarrow> vm \<Rightarrow> bool" where
  "user_space root s \<longleftrightarrow> space_ok {0} root s \<and> (\<forall>f \<in> user_frames root s. pg f \<and> f \<notin> avail (vm_pmm s))"

lemma copy_user_pages_each:
  assumes src: "space_ok {0} src s" and dest: "space_ok {0} dest s" and dis: "owned {0} src s \<inter> owned {0} dest s = {}"
  shows "copy_user_pages (Some src) (Some dest) s = each (visit s src (copy_user_page (Some dest))) user_pages s"
  unfolding copy_user_pages_def
proof (rule for_each_visit [where I = "copying s dest"])
  have same: "ent t u j = ent s u j" if "copying s dest t" "u \<in> owned {0} src s" "j < 512" for t u j
    using copying_ent [OF dest that(1) _ _ that(3)] space_okD(2,3) [OF src that(2)] dis that(2) by blast
  show "tab t src q = tab s src q" if "copying s dest t" "path {0} q" for t q
    using leaf_keep(1) [OF same [OF that(1)] that(2)] .
  show "leaf t src q d = leaf s src q d" if "copying s dest t" "path {0} q" "length q = 3" "d < 512" for t q d
    using leaf_keep(2) [OF same [OF that(1)] that(2,4)] .
  show "pg src" using space_okD(2) [OF src rootI] .
  show "copying s dest s" using dest by (simp add: copying_def page_changes_def)
qed (use copying_step user_page_index in blast)

text \<open>
  What a copy starts from, for the proofs about copying: the source is the user part of an address space, the target
  a well-formed empty one, and they have no page in common.
\<close>

definition copy_start :: "u64 \<Rightarrow> u64 \<Rightarrow> vm \<Rightarrow> bool" where
  "copy_start src dest s \<longleftrightarrow> user_space src s \<and> space_ok {0} dest s \<and> (\<forall>va. pml4_index va = 0 \<longrightarrow> entry_of s dest va = 0) \<and>
     (owned {0} src s \<union> user_frames src s) \<inter> owned {0} dest s = {}"

lemma copy_startD:
  assumes "copy_start src dest s"
  shows "user_space src s" "space_ok {0} src s" "space_ok {0} dest s" "pml4_index va = 0 \<Longrightarrow> entry_of s dest va = 0"
    "(owned {0} src s \<union> user_frames src s) \<inter> owned {0} dest s = {}" "copying s dest s" "copied s src dest {} s"
  using assms user_page_index by (auto simp: copy_start_def user_space_def copying_def copied_def page_changes_def)

lemma copy_start_each:
  assumes "copy_start src dest s" "copy_user_pages (Some src) (Some dest) s = (b, s')"
  shows "each (visit s src (copy_user_page (Some dest))) user_pages s = (b, s')"
proof -
  have "owned {0} src s \<inter> owned {0} dest s = {}" using copy_startD(5) [OF assms(1)] by blast
  then show ?thesis using copy_user_pages_each [OF copy_startD(2,3) [OF assms(1)]] assms(2) by simp
qed

lemma copy_start_frame:
  assumes c: "copy_start src dest s" and "is_user s src va" "pml4_index va = 0"
  shows "pg (frame (entry_of s src va)) \<and> frame (entry_of s src va) \<notin> owned {0} dest s \<union> avail (vm_pmm s) \<and> bit (entry_of s src va) 0"
proof -
  have "frame (entry_of s src va) \<in> user_frames src s" using assms by (auto simp: user_frames_def)
  moreover have "entry_of s src va \<noteq> 0" using assms(2) by (auto simp: is_user_def)
  ultimately show ?thesis using copy_startD(1,5) [OF c] entry_present by (auto simp: user_space_def)
qed

text \<open>The source is the same after the copy, and after a complete one every page has been copied.\<close>

lemma copy_keeps_source:
  assumes c: "copy_start src dest s" and cp: "copying s dest s'" and va: "pml4_index va = 0"
  shows "entry_of s' src va = entry_of s src va"
    and "is_user s src va \<Longrightarrow> j < 512 \<Longrightarrow> ent s' (frame (entry_of s src va)) j = ent s (frame (entry_of s src va)) j"
proof -
  note d = copy_startD [OF c]
  have same: "ent s' u j = ent s u j" if "u \<in> owned {0} src s" "j < 512" for u j
    using copying_ent [OF d(3) cp _ _ that(2)] space_okD(2,3) [OF d(2) that(1)] d(5) that(1) by blast
  have "path {0} (walk_of va)" using path_walk(1) va by simp
  then show "entry_of s' src va = entry_of s src va" using leaf_keep(2) [OF same _ index_less(4)] by (simp add: entry_of_def)
  show "is_user s src va \<Longrightarrow> j < 512 \<Longrightarrow> ent s' (frame (entry_of s src va)) j = ent s (frame (entry_of s src va)) j"
    using copying_ent [OF d(3) cp] copy_start_frame [OF c _ va] by blast
qed

lemma copy_complete:
  assumes c: "copy_start src dest s" and r: "copy_user_pages (Some src) (Some dest) s = (True, s')"
  shows "copied s src dest (set user_pages) s'"
proof -
  note d = copy_startD [OF c]
  have "copied s src dest ({} \<union> set user_pages) s'"
    by (rule each_progress [where P = "copied s src dest" and f = "visit s src (copy_user_page (Some dest))", rotated 3])
      (use copied_step [OF d(3)] copy_start_frame [OF c] user_page_index distinct_user_pages copy_start_each [OF c r] d(7) in auto)
  then show ?thesis by simp
qed

text \<open>From the pages of the enumeration to all addresses.\<close>

lemma copied_everywhere:
  assumes two: "copied s src dest (set user_pages) s'"
  shows "pml4_index va = 0 \<Longrightarrow> if is_user s src va then is_copy s src dest s' va else entry_of s' dest va = 0"
    and "pml4_index va = 0 \<Longrightarrow> pml4_index va' = 0 \<Longrightarrow> is_user s src va \<Longrightarrow> is_user s src va' \<Longrightarrow>
      frame (entry_of s' dest va) = frame (entry_of s' dest va') \<Longrightarrow> same_page va va'"
proof -
  show "if is_user s src va then is_copy s src dest s' va else entry_of s' dest va = 0" if h: "pml4_index va = 0"
  proof -
    obtain w where w: "w \<in> set user_pages" "same_page va w" using user_pages_all [OF h] .
    have "if is_user s src w then is_copy s src dest s' w else entry_of s' dest w = 0" using two w(1) by (auto simp: copied_def)
    moreover have "is_user s src w = is_user s src va" "is_copy s src dest s' w = is_copy s src dest s' va"
      using entry_same_page [OF w(2)] by (simp_all add: is_user_def is_copy_def)
    ultimately show ?thesis using entry_same_page [OF w(2)] by (simp split: if_splits)
  qed
  show "same_page va va'" if h: "pml4_index va = 0" "pml4_index va' = 0" "is_user s src va" "is_user s src va'"
      "frame (entry_of s' dest va) = frame (entry_of s' dest va')"
  proof -
    obtain w where w: "w \<in> set user_pages" "same_page va w" using user_pages_all [OF h(1)] .
    obtain w' where w': "w' \<in> set user_pages" "same_page va' w'" using user_pages_all [OF h(2)] .
    have "is_user s src w" "is_user s src w'" "frame (entry_of s' dest w) = frame (entry_of s' dest w')"
      using h(3-5) entry_same_page [OF w(2)] entry_same_page [OF w'(2)] by (simp_all add: is_user_def)
    then have "w = w'" using two w(1) w'(1) unfolding copied_def by blast
    then show ?thesis using w(2) w'(2) by (simp add: same_page_def)
  qed
qed

text \<open>
  C27. Copying the user pages of one address space to an empty one, as \<open>fork\<close> does, gives every
  user page of the source a private copy at the same address: a page of its own that was free, with
  the same low flag bits and the same contents; different pages get different copies, and nothing
  else is mapped. The source keeps its mappings and its contents, also when memory runs out, and
  the target is then still well-formed, so that it can be torn down.
\<close>

theorem copy_user_pages_correct:
  assumes src: "user_space src s" and dest: "space_ok {0} dest s" "\<And>va. pml4_index va = 0 \<Longrightarrow> entry_of s dest va = 0"
    and dis: "(owned {0} src s \<union> user_frames src s) \<inter> owned {0} dest s = {}"
    and r: "copy_user_pages (Some src) (Some dest) s = (b, s')"
  shows "space_ok {0} dest s' \<and>
    (\<forall>va. pml4_index va = 0 \<longrightarrow> entry_of s' src va = entry_of s src va \<and>
       (is_user s src va \<longrightarrow> (\<forall>j < 512. ent s' (frame (entry_of s src va)) j = ent s (frame (entry_of s src va)) j))) \<and>
    (b \<longrightarrow> (\<forall>va. pml4_index va = 0 \<longrightarrow> (if is_user s src va then is_copy s src dest s' va else entry_of s' dest va = 0)) \<and>
       (\<forall>va va'. pml4_index va = 0 \<and> pml4_index va' = 0 \<and> is_user s src va \<and> is_user s src va' \<and>
          frame (entry_of s' dest va) = frame (entry_of s' dest va') \<longrightarrow> same_page va va'))"
proof -
  have c: "copy_start src dest s" using src dest dis by (simp add: copy_start_def)
  have cp: "copying s dest s'"
    by (rule each_inv [where I = "copying s dest", OF _ copy_startD(6) [OF c] copy_start_each [OF c r]])
      (auto simp: visit_def dest: user_page_index copying_step split: if_splits)
  have "copied s src dest (set user_pages) s'" if b using copy_complete [OF c] r that by simp
  note all = copied_everywhere [OF this]
  show ?thesis using cp copy_keeps_source [OF c cp] all by (simp add: copying_def)
qed

section \<open>Giving back an address space\<close>

text \<open>From \<open>s\<close> to \<open>t\<close> the pages \<open>A\<close> have been given back, and nothing else has happened.\<close>

definition frees :: "u64 set \<Rightarrow> vm \<Rightarrow> vm \<Rightarrow> bool" where
  "frees A s t \<longleftrightarrow> vm_mem t = vm_mem s \<and> vm_pml4 t = vm_pml4 s \<and> pmm_inv (vm_pmm t) \<and> pool (vm_pmm t) = pool (vm_pmm s) \<and>
     avail (vm_pmm t) = avail (vm_pmm s) \<union> A"

lemma frees_refl: "pmm_inv (vm_pmm s) \<Longrightarrow> frees {} s s"
  by (simp add: frees_def)

lemma frees_trans: "frees A s t \<Longrightarrow> frees B t u \<Longrightarrow> frees (A \<union> B) s u"
  by (auto simp: frees_def)

lemma frees_one: "pmm_inv (vm_pmm s) \<Longrightarrow> a \<in> pool (vm_pmm s) \<Longrightarrow> frees {a} s (vm_free (Some a) s)"
  using pm.release_page [of "vm_pmm s" a] by (simp add: frees_def vm_free_def)

lemma frees_tables:
  assumes "frees A s t"
  shows "ent t = ent s" "step t = step s" "tab t = tab s" "leaf t = leaf s" "entry_of t = entry_of s"
proof -
  show e: "ent t = ent s" using assms by (simp add: frees_def ent_def fun_eq_iff)
  show st: "step t = step s" by (simp add: fun_eq_iff step_def e)
  show tb: "tab t = tab s"
  proof (intro ext)
    fix u q show "tab t u q = tab s u q" by (induction q arbitrary: u) (simp_all add: st split: option.split)
  qed
  show lf: "leaf t = leaf s" by (simp add: fun_eq_iff leaf_def tb e split: option.split)
  show "entry_of t = entry_of s" by (simp add: fun_eq_iff entry_of_def lf)
qed

lemma frees_fold:
  assumes f: "\<And>i B t. i \<in> set xs \<Longrightarrow> frees B s t \<Longrightarrow> frees (A i) t (f i t)" and s: "frees B s t"
  shows "frees (B \<union> (\<Union>i \<in> set xs. A i)) s (fold f xs t)"
  using assms
proof (induction xs arbitrary: B t)
  case (Cons i xs)
  have "frees (B \<union> A i) s (f i t)" using frees_trans [OF Cons.prems(2)] Cons.prems(1) [OF _ Cons.prems(2)] by simp
  then have "frees (B \<union> A i \<union> (\<Union>i \<in> set xs. A i)) s (fold f xs (f i t))" using Cons.IH [OF Cons.prems(1)] by simp
  then show ?case by (simp add: Un_assoc)
qed simp

lemma frees_each:
  assumes f: "\<And>i B t. i \<in> set xs \<Longrightarrow> frees B s t \<Longrightarrow> \<exists>t'. f i t = (True, t') \<and> frees (A i) t t'" and s: "frees B s t"
  shows "\<exists>t'. each f xs t = (True, t') \<and> frees (B \<union> (\<Union>i \<in> set xs. A i)) s t'"
  using assms
proof (induction xs arbitrary: B t)
  case (Cons i xs)
  obtain t1 where t1: "f i t = (True, t1)" "frees (A i) t t1" using Cons.prems(1) [OF _ Cons.prems(2)] by auto
  have "frees (B \<union> A i) s t1" using frees_trans [OF Cons.prems(2) t1(2)] .
  then obtain t' where "each f xs t1 = (True, t')" "frees (B \<union> A i \<union> (\<Union>i \<in> set xs. A i)) s t'" using Cons.IH [OF Cons.prems(1)] by force
  then show ?case using t1(1) by (simp add: Un_assoc)
qed auto

lemma free_user_pages_frees:
  assumes ok: "space_ok {0} root s" and p: "user_frames root s \<subseteq> pool (vm_pmm s)"
  shows "frees (user_frames root s) s (free_user_pages (Some root) s)"
proof -
  let ?v = "\<lambda>_ entry t. (True, vm_free (entry_to_phys entry) t)"
  let ?A = "\<lambda>va. if is_user s root va then {frame (entry_of s root va)} else {}"
  have uf: "(\<Union>va \<in> set user_pages. ?A va) = user_frames root s"
    unfolding user_frames_pages by auto
  have st: "\<exists>t'. visit s root ?v va t = (True, t') \<and> frees (?A va) t t'" if "va \<in> set user_pages" "frees B s t" for va B t
  proof (cases "is_user s root va")
    case True
    have "frame (entry_of s root va) \<in> pool (vm_pmm t)" using p that True user_page_index by (auto simp: user_frames_def frees_def)
    then show ?thesis using True frees_one [of t] that(2) by (simp add: visit_def is_user_def entry_to_phys_def frees_def)
  next
    case False
    then show ?thesis using that(2) frees_refl [of t] by (simp add: visit_def is_user_def frees_def)
  qed
  have "\<exists>t. each (visit s root ?v) user_pages s = (True, t) \<and> frees ({} \<union> (\<Union>va \<in> set user_pages. ?A va)) s t"
    by (rule frees_each [OF st]) (use frees_refl space_okD(1) [OF ok] in simp_all)
  then obtain t where t: "each (visit s root ?v) user_pages s = (True, t)" "frees (user_frames root s) s t" unfolding uf by auto
  have "for_each_user_page (Some root) ?v s = each (visit s root ?v) user_pages s"
  proof (rule for_each_visit [where I = "\<lambda>t. \<exists>B. frees B s t"])
    show "pg root" using space_okD(2) [OF ok rootI] .
    show "\<exists>B. frees B s s" using frees_refl space_okD(1) [OF ok] by blast
    show "\<exists>B. frees B s t'" if h: "va \<in> set user_pages" "\<exists>B. frees B s t" "entry_of s root va AND User \<noteq> 0"
      "(True, vm_free (entry_to_phys (entry_of s root va)) t) = (b, t')" for va t b t'
    proof -
      obtain B where B: "frees B s t" using h(2) ..
      have "visit s root ?v va t = (True, t')" using h(3,4) by (simp add: visit_def)
      then show ?thesis using st [OF h(1) B] frees_trans [OF B] by auto
    qed
  qed (use frees_tables in metis)+
  then show ?thesis using t by (simp add: free_user_pages_def)
qed

text \<open>The tables of the user part, level by level.\<close>

lemma owned_levels:
  "owned {0} root s = {root} \<union> {u. tab s root [0] = Some u} \<union>
     (\<Union>i \<in> set [0..<ENTRIES_PER_TABLE]. {u. tab s root [0, of_nat i] = Some u}) \<union>
     (\<Union>i \<in> set [0..<ENTRIES_PER_TABLE]. \<Union>j \<in> set [0..<ENTRIES_PER_TABLE]. {u. tab s root [0, of_nat i, of_nat j] = Some u})"
  (is "_ = ?R")
proof (intro equalityI subsetI)
  fix u assume "u \<in> owned {0} root s"
  then obtain q where q: "path {0} q" "tab s root q = Some u" by (auto simp: owned_def)
  have of: "\<exists>i<512. x = of_nat i" if "x < 512" for x :: u64 using that by (intro exI [of _ "unat x"]) (simp add: word_less_nat_alt)
  have "length q \<le> 3" using q(1) by (simp add: path_def)
  then consider "q = []" | "q = [0]" | i where "q = [0, i]" "i < 512" | i j where "q = [0, i, j]" "i < 512" "j < 512"
    using q(1) by (auto simp: path_def le_Suc_eq numeral_3_eq_3 length_Suc_conv)
  then show "u \<in> ?R"
  proof cases
    case 3
    then show ?thesis using q(2) of [of i] by (auto simp del: tab.simps)
  next
    case 4
    then obtain i' j' where "i' < 512" "j' < 512" "q = [0, of_nat i', of_nat j']" using of by metis
    then show ?thesis using q(2) by (auto simp del: tab.simps)
  qed (use q(2) in \<open>auto simp del: tab.simps(2)\<close>)
next
  fix u assume "u \<in> ?R"
  then consider "u = root" | "tab s root [0] = Some u" | i where "i < 512" "tab s root [0, of_nat i] = Some u"
    | i j where "i < 512" "j < 512" "tab s root [0, of_nat i, of_nat j] = Some u" by (auto simp del: tab.simps)
  then show "u \<in> owned {0} root s"
  proof cases
    case 1 then show ?thesis using rootI by simp
  next
    case 2 then show ?thesis using ownedI [of "{0}" "[0]"] by (simp add: path_def)
  next
    case 3 then show ?thesis using ownedI [of "{0}" "[0, of_nat i]"] path0 [of i i] by blast
  next
    case 4 then show ?thesis using ownedI [of "{0}" "[0, of_nat i, of_nat j]"] path0 [of i j] by blast
  qed
qed

lemma destroy_address_space_frees:
  assumes ok: "space_ok {0} root s" and p: "user_frames root s \<subseteq> pool (vm_pmm s)" "owned {0} root s \<subseteq> pool (vm_pmm s)"
  shows "frees (user_frames root s \<union> owned {0} root s) s (destroy_address_space (Some root) s)"
proof -
  define n where "n = [0..<ENTRIES_PER_TABLE]"
  define P2 where "P2 = (\<lambda>i j. {u. tab s root [0, of_nat i, of_nat j] = Some u})"
  define P1 where "P1 = (\<lambda>i. {u. tab s root [0, of_nat i] = Some u})"
  have own: "owned {0} root s = {root} \<union> {u. tab s root [0] = Some u} \<union> (\<Union>i \<in> set n. P1 i) \<union> (\<Union>i \<in> set n. \<Union>j \<in> set n. P2 i j)"
    using owned_levels [of root s] by (simp add: P1_def P2_def n_def del: tab.simps)
  have one: "frees {u} t (vm_free (Some u) t)" if "frees B s t" "u \<in> owned {0} root s" for u t B
    using frees_one [of t u] that p(2) by (auto simp: frees_def)
  have b2: "frees (P2 i j) t (if rd (physical_to_virtual (Some u)) (of_nat j) t AND Present = 0 then t
      else vm_free (entry_to_phys (rd (physical_to_virtual (Some u)) (of_nat j) t)) t)"
    if "i \<in> set n" "tab s root [0, of_nat i] = Some u" "j \<in> set n" "frees B s t" for i j u t B
  proof -
    have "tab s root [0, of_nat i, of_nat j] = step s u (of_nat j)" using that(2) tab_snoc [of s root "[0, of_nat i]" "of_nat j"] by (simp del: tab.simps)
    then have P: "P2 i j = {v. step t u (of_nat j) = Some v}" by (simp add: P2_def frees_tables [OF that(4)] del: tab.simps)
    have "P2 i j \<subseteq> owned {0} root s" using own that(1,3) by blast
    then show ?thesis using one [OF that(4), of "frame (ent t u (of_nat j))"] frees_refl [of t] that(4) P
      by (auto simp: step_def not_present entry_to_phys_def frees_def split: if_splits)
  qed
  have b1: "frees (P1 i \<union> (\<Union>j \<in> set n. P2 i j)) t (if rd (physical_to_virtual (Some u)) (of_nat i) t AND Present = 0 then t
      else let pd_phys = entry_to_phys (rd (physical_to_virtual (Some u)) (of_nat i) t); pd = physical_to_virtual pd_phys in
        vm_free pd_phys (fold (\<lambda>j u. if rd pd (of_nat j) u AND Present = 0 then u else vm_free (entry_to_phys (rd pd (of_nat j) u)) u) n t))"
    if h: "tab s root [0] = Some u" "i \<in> set n" "frees B s t" for i u t B
  proof -
    have tb: "tab s root [0, of_nat i] = step t u (of_nat i)"
      using h(1) tab_snoc [of s root "[0]" "of_nat i"] by (simp add: frees_tables [OF h(3)] del: tab.simps)
    show ?thesis
    proof (cases "step t u (of_nat i)")
      case None
      then have "tab s root [0, of_nat i, of_nat j] = None" for j
        using tb tab_snoc [of s root "[0, of_nat i]" "of_nat j"] by (simp del: tab.simps)
      then have "P1 i \<union> (\<Union>j \<in> set n. P2 i j) = {}" using tb None by (simp add: P1_def P2_def del: tab.simps)
      then show ?thesis using None frees_refl [of t] h(3) by (simp add: step_def not_present frees_def split: if_splits)
    next
      case (Some v)
      let ?t = "fold (\<lambda>j w. if rd (physical_to_virtual (Some v)) (of_nat j) w AND Present = 0 then w
        else vm_free (entry_to_phys (rd (physical_to_virtual (Some v)) (of_nat j) w)) w) n t"
      have P: "P1 i = {v}" using tb Some by (simp add: P1_def del: tab.simps)
      have v: "v \<in> owned {0} root s" using own P h(2) by blast
      have r: "frees {} t t" using frees_refl [of t] h(3) by (simp add: frees_def)
      have "frees ({} \<union> (\<Union>j \<in> set n. P2 i j)) t ?t"
        by (rule frees_fold [OF b2 r]) (use h tb Some frees_trans [OF h(3)] in \<open>simp_all del: tab.simps\<close>)
      then have ft: "frees (\<Union>j \<in> set n. P2 i j) t ?t" by simp
      have "frees ((\<Union>j \<in> set n. P2 i j) \<union> {v}) t (vm_free (Some v) ?t)"
        using frees_trans [OF ft one [OF frees_trans [OF h(3) ft] v]] .
      then show ?thesis using Some P by (simp add: step_def not_present entry_to_phys_def Let_def split: if_splits cong: if_cong)
    qed
  qed
  let ?s1 = "free_user_pages (Some root) s"
  note f1 = free_user_pages_frees [OF ok p(1)]
  have nz: "physical_to_virtual (Some root) \<noteq> 0" using table_pointer_nonzero space_okD(2) [OF ok rootI] by blast
  define s2 where "s2 = (if rd (physical_to_virtual (Some root)) 0 ?s1 AND Present = 0 then ?s1
     else let pdpt_phys = entry_to_phys (rd (physical_to_virtual (Some root)) 0 ?s1); pdpt = physical_to_virtual pdpt_phys in
       vm_free pdpt_phys (fold (\<lambda>i t. if rd pdpt (of_nat i) t AND Present = 0 then t
          else let pd_phys = entry_to_phys (rd pdpt (of_nat i) t); pd = physical_to_virtual pd_phys in
            vm_free pd_phys (fold (\<lambda>j u. if rd pd (of_nat j) u AND Present = 0 then u else vm_free (entry_to_phys (rd pd (of_nat j) u)) u) n t)) n ?s1))"
  have d: "destroy_address_space (Some root) s = vm_free (Some root) s2"
    unfolding destroy_address_space_def s2_def n_def Let_def using nz by simp
  have t0: "tab s root [0] = step ?s1 root 0" by (simp add: frees_tables [OF f1] split: option.split)
  have "frees ({u. tab s root [0] = Some u} \<union> (\<Union>i \<in> set n. P1 i) \<union> (\<Union>i \<in> set n. \<Union>j \<in> set n. P2 i j)) ?s1 s2"
  proof (cases "step ?s1 root 0")
    case None
    then have z: "tab s root (0 # q) = None" for q by (simp add: frees_tables [OF f1])
    have "{u. tab s root [0] = Some u} \<union> (\<Union>i \<in> set n. P1 i) \<union> (\<Union>i \<in> set n. \<Union>j \<in> set n. P2 i j) = {}"
      unfolding P1_def P2_def z by simp
    then show ?thesis using None frees_refl [of ?s1] f1 by (simp add: s2_def step_def not_present frees_def split: if_splits)
  next
    case (Some v)
    then have tv: "tab s root [0] = Some v" using t0 by simp
    have v: "v \<in> owned {0} root s" using own tv by blast
    let ?t = "fold (\<lambda>i t. if rd (physical_to_virtual (Some v)) (of_nat i) t AND Present = 0 then t
      else let pd_phys = entry_to_phys (rd (physical_to_virtual (Some v)) (of_nat i) t); pd = physical_to_virtual pd_phys in
        vm_free pd_phys (fold (\<lambda>j u. if rd pd (of_nat j) u AND Present = 0 then u else vm_free (entry_to_phys (rd pd (of_nat j) u)) u) n t)) n ?s1"
    have r: "frees {} ?s1 ?s1" using frees_refl [of ?s1] f1 by (simp add: frees_def)
    have "frees ({} \<union> (\<Union>i \<in> set n. P1 i \<union> (\<Union>j \<in> set n. P2 i j))) ?s1 ?t"
      by (rule frees_fold [OF b1 r]) (use tv frees_trans [OF f1] in \<open>simp_all del: tab.simps\<close>)
    then have ft: "frees (\<Union>i \<in> set n. P1 i \<union> (\<Union>j \<in> set n. P2 i j)) ?s1 ?t" by simp
    have "frees ((\<Union>i \<in> set n. P1 i \<union> (\<Union>j \<in> set n. P2 i j)) \<union> {v}) ?s1 (vm_free (Some v) ?t)"
      using frees_trans [OF ft one [OF frees_trans [OF f1 ft] v]] .
    moreover have "(\<Union>i \<in> set n. P1 i \<union> (\<Union>j \<in> set n. P2 i j)) \<union> {v} =
      {u. tab s root [0] = Some u} \<union> (\<Union>i \<in> set n. P1 i) \<union> (\<Union>i \<in> set n. \<Union>j \<in> set n. P2 i j)" using tv by auto
    moreover have "s2 = vm_free (Some v) ?t" using Some by (simp add: s2_def step_def not_present entry_to_phys_def Let_def split: if_splits cong: if_cong)
    ultimately show ?thesis by simp
  qed
  note f2 = frees_trans [OF f1 this]
  have "frees (user_frames root s \<union> ({u. tab s root [0] = Some u} \<union> (\<Union>i \<in> set n. P1 i) \<union> (\<Union>i \<in> set n. \<Union>j \<in> set n. P2 i j)) \<union> {root})
    s (destroy_address_space (Some root) s)" unfolding d using frees_trans [OF f2 one [OF f2 rootI]] .
  moreover have "user_frames root s \<union> ({u. tab s root [0] = Some u} \<union> (\<Union>i \<in> set n. P1 i) \<union> (\<Union>i \<in> set n. \<Union>j \<in> set n. P2 i j)) \<union> {root} =
    user_frames root s \<union> owned {0} root s" unfolding own by auto
  ultimately show ?thesis by simp
qed

text \<open>
  Destroying an address space gives back exactly its user pages and the tables of its user
  part, its root included, and writes no memory.
\<close>

theorem destroy_address_space_correct:
  assumes "user_space root s" "user_frames root s \<union> owned {0} root s \<subseteq> pool (vm_pmm s)"
  shows "avail (vm_pmm (destroy_address_space (Some root) s)) = avail (vm_pmm s) \<union> (user_frames root s \<union> owned {0} root s) \<and>
    avail (vm_pmm s) \<inter> (user_frames root s \<union> owned {0} root s) = {} \<and>
    pmm_inv (vm_pmm (destroy_address_space (Some root) s)) \<and> vm_mem (destroy_address_space (Some root) s) = vm_mem s"
  using destroy_address_space_frees [of root s] assms space_okD(3) [of "{0}" root s] by (auto simp: user_space_def frees_def)

section \<open>No page is lost by a copy\<close>

lemma each_stop:
  assumes "\<And>D x t t'. x \<in> set xs \<Longrightarrow> x \<notin> D \<Longrightarrow> P D t \<Longrightarrow> f x t = (True, t') \<Longrightarrow> P (insert x D) t'"
    "distinct xs" "set xs \<inter> D = {}" "P D s" "each f xs s = (False, s')"
  shows "\<exists>D' x t. x \<in> set xs \<and> x \<notin> D' \<and> P D' t \<and> f x t = (False, s')"
  using assms
proof (induction xs arbitrary: D s)
  case (Cons x xs)
  obtain c t where f: "f x s = (c, t)" by (cases "f x s")
  show ?case
  proof (cases c)
    case True
    then have "P (insert x D) t" using Cons.prems(1) [of x D s t] Cons.prems(3,4) f by simp
    then have "\<exists>D' y t. y \<in> set xs \<and> y \<notin> D' \<and> P D' t \<and> f y t = (False, s')"
      using Cons.IH [of "insert x D" t] Cons.prems(1-3,5) f True by simp
    then show ?thesis by auto
  next
    case False
    then show ?thesis using Cons.prems(3-5) f by (intro exI [of _ D] exI [of _ x] exI [of _ s]) simp
  qed
qed simp

text \<open>Every page taken since \<open>s0\<close> is a table or a user page of the target.\<close>

definition accounted :: "vm \<Rightarrow> u64 \<Rightarrow> vm \<Rightarrow> bool" where
  "accounted s0 dest s \<longleftrightarrow> avail (vm_pmm s0) \<subseteq> avail (vm_pmm s) \<union> owned {0} dest s \<union> user_frames dest s"

lemma user_from_low: "x AND 0xFFF = e AND 0xFFF \<Longrightarrow> x AND User = e AND User"
proof -
  assume "x AND 0xFFF = e AND 0xFFF"
  moreover have "0xFFF AND User = User" by (simp add: User_def)
  ultimately show ?thesis by (metis and.assoc)
qed

lemma accounted_step:
  assumes c: "copied s0 src dest D s" and acc: "accounted s0 dest s" and va: "va \<in> set user_pages" "va \<notin> D"
    and c': "copied s0 src dest (insert va D) s'" and r: "visit s0 src (copy_user_page (Some dest)) va s = (True, s')"
  shows "accounted s0 dest s'"
proof (cases "is_user s0 src va")
  case False
  then show ?thesis using r acc by (simp add: visit_def is_user_def)
next
  case True
  let ?e = "entry_of s0 src va"
  have cp: "copy_user_page (Some dest) va ?e s = (True, s')" using True r by (simp add: visit_def is_user_def)
  have ok: "space_ok {0} dest s" and va0: "pml4_index va = 0" using c va user_page_index by (auto simp: copied_def copying_def)
  note eff = copy_user_page_effect [OF ok va0 cp]
  obtain a where lf: "\<forall>q d. path {0} q \<longrightarrow> length q = 3 \<longrightarrow> d < 512 \<longrightarrow> leaf s' dest q d =
         (if q = walk_of va \<and> d = pt_index va then (a AND PAGE_MASK) OR (?e AND 0xFFF) OR Present else leaf s dest q d)"
    and a: "avail (vm_pmm s) \<subseteq> insert a (avail (vm_pmm s') \<union> owned {0} dest s')" "a \<in> avail (vm_pmm s)" using eff(8) by blast
  have pga: "pg a" using avail_pg [OF space_okD(1) [OF ok] a(2)] .
  note en = entries_after [OF lf va(1)]
  have fr: "frame (entry_of s' dest va) = a" using en [OF va(1)] frame_mapping [OF pga low_flags(1)] by simp
  have "is_copy s0 src dest s' va" using c' va(1) True by (simp add: copied_def)
  then have "entry_of s' dest va AND 0xFFF = ?e AND 0xFFF" by (simp add: is_copy_def Let_def)
  then have "is_user s' dest va" using True user_from_low [of "entry_of s' dest va" ?e] by (simp add: is_user_def)
  then have "a \<in> user_frames dest s'" using fr va(1) by (auto simp: user_frames_pages)
  moreover have "user_frames dest s \<subseteq> user_frames dest s'"
  proof
    fix f assume "f \<in> user_frames dest s"
    then obtain w where w: "f = frame (entry_of s dest w)" "w \<in> set user_pages" "is_user s dest w" unfolding user_frames_pages by blast
    have "entry_of s dest va = 0" using c va by (simp add: copied_def)
    then have "entry_of s' dest w = entry_of s dest w" using en [OF w(2)] w(3) by (auto simp: is_user_def)
    then have "f = frame (entry_of s' dest w)" "is_user s' dest w" using w(1,3) by (simp_all add: is_user_def)
    then show "f \<in> user_frames dest s'" using w(2) unfolding user_frames_pages by blast
  qed
  ultimately show ?thesis using acc a(1) eff(4) unfolding accounted_def by blast
qed

lemma copied_frames: "copied s0 src dest D s \<Longrightarrow> user_frames dest s \<subseteq> avail (vm_pmm s0)"
proof
  fix f assume c: "copied s0 src dest D s" and "f \<in> user_frames dest s"
  then obtain va where va: "va \<in> set user_pages" "is_user s dest va" "f = frame (entry_of s dest va)" by (auto simp: user_frames_pages)
  have "entry_of s dest va \<noteq> 0" using va(2) by (auto simp: is_user_def)
  then have "is_copy s0 src dest s va" using c va(1) by (auto simp: copied_def split: if_splits)
  then show "f \<in> avail (vm_pmm s0)" using va(3) by (simp add: is_copy_def Let_def)
qed

text \<open>Also a copy that stops half way accounts for every page: the last step has mapped nothing.\<close>

lemma failed_step_accounted:
  assumes cd: "copied s src dest D t" and ac: "accounted s dest t" and x: "x \<in> set user_pages"
    and cp: "copy_user_page (Some dest) x (entry_of s src x) t = (False, s')"
  shows "copying s dest s' \<and> accounted s dest s' \<and> user_frames dest s' \<subseteq> avail (vm_pmm s)"
proof -
  have ct: "copying s dest t" using cd by (simp add: copied_def)
  then have okt: "space_ok {0} dest t" by (simp add: copying_def)
  note eff = copy_user_page_effect [OF okt user_page_index [OF x] cp]
  have "entry_of s' dest va = entry_of t dest va" if "va \<in> set user_pages" for va
    using eff(9) path_walk(1,2) user_page_index [OF that] by (simp add: entry_of_def)
  then have "user_frames dest s' = user_frames dest t" unfolding user_frames_pages by (auto simp: is_user_def intro!: image_eqI)
  moreover have "avail (vm_pmm t) \<subseteq> avail (vm_pmm s') \<union> owned {0} dest s'" using eff(9) by simp
  ultimately have "accounted s dest s' \<and> user_frames dest s' \<subseteq> avail (vm_pmm s)"
    using ac eff(4) copied_frames [OF cd] unfolding accounted_def by blast
  then show ?thesis using copying_step [OF ct user_page_index [OF x] cp] by blast
qed

lemma copy_accounted:
  assumes c: "copy_start src dest s" and r: "copy_user_pages (Some src) (Some dest) s = (b, s')"
  shows "copying s dest s' \<and> accounted s dest s' \<and> user_frames dest s' \<subseteq> avail (vm_pmm s)"
proof -
  let ?f = "visit s src (copy_user_page (Some dest))" and ?P = "\<lambda>D t. copied s src dest D t \<and> accounted s dest t"
  note d = copy_startD [OF c] and e = copy_start_each [OF c r]
  have st: "?P (insert x D) t'" if "x \<in> set user_pages" "x \<notin> D" "?P D t" "?f x t = (True, t')" for D x t t'
    using copied_step [OF d(3) that(1,2) _ copy_start_frame [OF c _ user_page_index [OF that(1)]] that(4)]
      accounted_step [OF _ _ that(1,2) _ that(4)] that(3) by blast
  have i: "?P {} s" using d(7) by (auto simp: accounted_def)
  show ?thesis
  proof (cases b)
    case True
    have "?P ({} \<union> set user_pages) s'"
      by (rule each_progress [where P = ?P and f = ?f and s = s, OF st]) (use distinct_user_pages i e True in simp_all)
    then show ?thesis using copied_frames [of s src dest "set user_pages" s'] by (simp add: copied_def)
  next
    case False
    have "\<exists>D x t. x \<in> set user_pages \<and> x \<notin> D \<and> ?P D t \<and> ?f x t = (False, s')"
      by (rule each_stop [where P = ?P and f = ?f and s = s and D = "{}", OF st]) (use distinct_user_pages i e False in simp_all)
    then obtain D x t where x: "x \<in> set user_pages" "copied s src dest D t" "accounted s dest t" "?f x t = (False, s')" by blast
    then have "copy_user_page (Some dest) x (entry_of s src x) t = (False, s')" by (simp add: visit_def split: if_splits)
    then show ?thesis by (rule failed_step_accounted [OF x(2,3,1)])
  qed
qed

text \<open>
  C28. A copy loses no page: whether it succeeds or stops for lack of memory, destroying the
  target afterwards leaves exactly the pages available that were available before, and the
  target's own.
\<close>

theorem copy_then_destroy_no_leak:
  assumes src: "user_space src s" and dest: "space_ok {0} dest s" "\<And>va. pml4_index va = 0 \<Longrightarrow> entry_of s dest va = 0"
    "owned {0} dest s \<subseteq> pool (vm_pmm s)"
    and dis: "(owned {0} src s \<union> user_frames src s) \<inter> owned {0} dest s = {}"
    and r: "copy_user_pages (Some src) (Some dest) s = (b, s')"
  shows "avail (vm_pmm (destroy_address_space (Some dest) s')) = avail (vm_pmm s) \<union> owned {0} dest s"
proof -
  have st: "copy_start src dest s" using src dest dis by (simp add: copy_start_def)
  have c: "copying s dest s'" "accounted s dest s'" "user_frames dest s' \<subseteq> avail (vm_pmm s)" using copy_accounted [OF st r] by auto
  have pl: "pool (vm_pmm s') = pool (vm_pmm s)" "space_ok {0} dest s'" using c(1) by (auto simp: copying_def)
  have "avail (vm_pmm s) \<subseteq> pool (vm_pmm s)" using pm.free_pages_in space_okD(1) [OF copy_startD(2) [OF st]] by blast
  then have "owned {0} dest s' \<subseteq> pool (vm_pmm s')" "user_frames dest s' \<subseteq> pool (vm_pmm s')"
    using c dest(3) pl(1) by (auto simp: copying_def)
  then have "frees (user_frames dest s' \<union> owned {0} dest s') s' (destroy_address_space (Some dest) s')"
    using destroy_address_space_frees [OF pl(2)] by blast
  then have "avail (vm_pmm (destroy_address_space (Some dest) s')) = avail (vm_pmm s') \<union> (user_frames dest s' \<union> owned {0} dest s')"
    by (simp add: frees_def)
  then show ?thesis using c unfolding copying_def accounted_def by blast
qed

section \<open>Concrete instances\<close>

text \<open>
  A source with one user page at \<open>0x400000\<close>, as \<open>map_page\<close> builds it, beside an empty target
  \<open>0x500000\<close> in a second region of eight pages.
\<close>

definition pmm5 :: "8 word \<Rightarrow> int \<Rightarrow> pmm" where
  "pmm5 b n = \<lparr>pm_bitmap = b # replicate 8191 0xFF, pm_base = 0x500000, pm_pages = 8, pm_free_pages = word_of_int n\<rparr>"

definition two_spaces :: vm where
  "two_spaces = (snd (map_page 0x400000 (Some 0x300000) (User OR Writable) small_vm))\<lparr>vm_pmm := pmm5 0x01 7\<rparr>"

lemma pmm5_inv: "pmm_inv (pmm5 b n)"
  by (simp add: pmm_inv_def pmm_wf_def pmm5_def MAX_PAGES_def)

lemma pmm5_allocate: "pmm_allocate (pmm5 0x01 7) = (Some 0x501000, pmm5 0x03 6)"
  "pmm_allocate (pmm5 0x03 6) = (Some 0x502000, pmm5 0x07 5)" "pmm_allocate (pmm5 0x07 5) = (Some 0x503000, pmm5 0x0F 4)"
  "pmm_allocate (pmm5 0x0F 4) = (Some 0x504000, pmm5 0x1F 3)"
  by (simp_all add: pmm_allocate_def allocate_from_page.simps [of 0] allocate_from_page.simps [of 1] allocate_from_page.simps [of 2]
        allocate_from_page.simps [of 3] allocate_from_page.simps [of 4] pm_test_bit_def pm_set_bit_def page_bit_def pmm5_def PAGE_SIZE_def
        page_index_to_address_def upd_at_def)

lemma pmm5_avail: "a \<in> avail (pmm5 1 7) \<Longrightarrow> 0x500000 < unat a \<and> unat a < 0x508000" "0x500000 \<in> pool (pmm5 1 7)"
proof -
  assume "a \<in> avail (pmm5 1 7)"
  then obtain i where i: "a = page_index_to_address i (pmm5 1 7)" "i < pm_pages (pmm5 1 7)" "\<not> used (pmm5 1 7) (unat i)" by (auto simp: avail_def)
  have "unat i < 8" using i(2) by (simp add: pmm5_def word_less_nat_alt)
  moreover have "unat i \<noteq> 0"
  proof
    assume "unat i = 0"
    then show False using i(3) by (simp add: pmm5_def used_def)
  qed
  ultimately show "0x500000 < unat a \<and> unat a < 0x508000" using unat_page_address [OF pmm5_inv i(2)] i(1) by (simp add: pmm5_def)
next
  show "0x500000 \<in> pool (pmm5 1 7)" unfolding pool_def by (rule CollectI, rule exI [of _ 0]) (simp add: pmm5_def page_index_to_address_def)
qed

lemma pmm8_pool: "a \<in> pool (pmm8 b n) \<Longrightarrow> 0x100000 \<le> unat a \<and> unat a < 0x108000"
proof -
  assume "a \<in> pool (pmm8 b n)"
  then obtain i where i: "a = page_index_to_address i (pmm8 b n)" "i < pm_pages (pmm8 b n)" by (auto simp: pool_def)
  have "unat i < 8" using i(2) by (simp add: pmm8_def word_less_nat_alt)
  then show ?thesis using unat_page_address [OF pmm8_inv i(2)] i(1) by (simp add: pmm8_def)
qed

abbreviation mapped_entry :: u64 where
  "mapped_entry \<equiv> (0x300000 AND PAGE_MASK) OR (User OR Writable) OR Present"

lemma two_spaces_src: "space_ok {0} 0x100000 two_spaces" "owned {0} 0x100000 two_spaces \<subseteq> {a. 0x100000 \<le> unat a \<and> unat a < 0x108000}"
  "pml4_index va = 0 \<Longrightarrow> entry_of two_spaces 0x100000 va = (if same_page 0x400000 va then mapped_entry else 0)"
  "page_changes (owned {0} 0x100000 two_spaces) small_vm two_spaces"
proof -
  let ?tf = "Present OR Writable OR ((User OR Writable) AND User)"
  obtain t where t: "map_in_table (physical_to_virtual (Some 0x100000)) 0x400000 0x300000 (User OR Writable) ?tf small_vm = (True, t)"
    "map_page 0x400000 (Some 0x300000) (User OR Writable) small_vm = (True, invlpg 0x400000 t)"
    using small_map by (auto simp: map_page_def small_vm_ok(2) split: prod.splits bool.splits)
  have two: "two_spaces = (invlpg 0x400000 t)\<lparr>vm_pmm := pmm5 1 7\<rparr>" by (simp add: two_spaces_def t(2))
  have en: "ent two_spaces = ent t" "vm_mem two_spaces = vm_mem t" by (simp_all add: two ent_def fun_eq_iff invlpg_def)
  have ok0: "space_ok {0} 0x100000 small_vm" "owned {0} 0x100000 small_vm = {0x100000}"
  proof -
    have z: "ent small_vm u j = 0" for u j by (simp add: small_vm_def VirtualMemoryManager_def ent_def)
    note p = space_okD(2) [OF small_vm_ok(1) rootI] space_okD(3) [OF small_vm_ok(1) rootI] space_okD(1) [OF small_vm_ok(1)]
    show "space_ok {0} 0x100000 small_vm" "owned {0} 0x100000 small_vm = {0x100000}" by (rule empty_table_space [OF p], simp add: z)+
  qed
  have va: "pml4_index 0x400000 \<in> {0}" by (simp add: pml4_index_def)
  note eff = map_in_table_effect [OF ok0(1) va table_flags(1,2) t(1)]
  have pool: "avail (vm_pmm small_vm) \<subseteq> {a. 0x100000 \<le> unat a \<and> unat a < 0x108000}"
    using avail_pool pmm8_pool by (fastforce simp: small_vm_def VirtualMemoryManager_def)
  have own: "owned {0} 0x100000 t \<subseteq> {a. 0x100000 \<le> unat a \<and> unat a < 0x108000}" using eff(5) ok0(2) pool by fastforce
  have "0x108000 < (0x500000 :: nat)" by simp
  then have dis: "owned {0} 0x100000 t \<inter> avail (vm_pmm two_spaces) = {}" using own pmm5_avail(1) by (fastforce simp: two)
  have st: "step two_spaces u j = step t u j" for u j by (simp add: step_def en)
  have inv: "pmm_inv (vm_pmm two_spaces)" using pmm5_inv by (simp add: two)
  have k: "space_ok {0} 0x100000 two_spaces" "owned {0} 0x100000 two_spaces = owned {0} 0x100000 t"
    using space_ok_keep [OF eff(1) _ inv dis] st by blast+
  show "space_ok {0} 0x100000 two_spaces" by (rule k)
  show "owned {0} 0x100000 two_spaces \<subseteq> {a. 0x100000 \<le> unat a \<and> unat a < 0x108000}" using own k(2) by simp
  show "page_changes (owned {0} 0x100000 two_spaces) small_vm two_spaces" using eff(9) by (simp add: page_changes_def k(2) en)
  show "entry_of two_spaces 0x100000 va = (if same_page 0x400000 va then mapped_entry else 0)" if "pml4_index va = 0"
  proof -
    have "path {0} (walk_of va)" using path_walk(1) that by simp
    then have "leaf two_spaces 0x100000 (walk_of va) (pt_index va) = leaf t 0x100000 (walk_of va) (pt_index va)"
      using leaf_keep(2) [of "{0}" "0x100000" t two_spaces] en by simp
    moreover have "entry_of small_vm 0x100000 va = 0"
      by (simp add: entry_of_def leaf_def walk_of_def step_def small_vm_def VirtualMemoryManager_def ent_def)
    ultimately show ?thesis using eff(2) [OF \<open>path {0} (walk_of va)\<close> path_walk(2) index_less(4)] by (simp add: entry_of_def same_page_def)
  qed
qed

lemma two_spaces_user: "user_frames 0x100000 two_spaces = {0x300000}" "is_user two_spaces 0x100000 0x400000"
proof -
  have f: "frame mapped_entry = 0x300000" by (rule frame_mapping) (simp_all add: pg_def user_flags)
  have z: "pml4_index 0x400000 = 0" by (simp add: pml4_index_def)
  have u: "mapped_entry AND User \<noteq> 0" by (simp add: PAGE_MASK_def PAGE_SIZE_def User_def Writable_def Present_def)
  show u4: "is_user two_spaces 0x100000 0x400000" using two_spaces_src(3) [OF z] u by (simp add: is_user_def same_page_def)
  show "user_frames 0x100000 two_spaces = {0x300000}"
  proof (intro equalityI subsetI)
    fix x assume "x \<in> user_frames 0x100000 two_spaces"
    then obtain va where va: "pml4_index va = 0" "is_user two_spaces 0x100000 va" "x = frame (entry_of two_spaces 0x100000 va)"
      unfolding user_frames_def by blast
    show "x \<in> {0x300000}"
    proof (cases "same_page 0x400000 va")
      case True
      then show ?thesis using va(3) two_spaces_src(3) [OF va(1)] f by simp
    next
      case False
      then show ?thesis using va(2) two_spaces_src(3) [OF va(1)] by (simp add: is_user_def)
    qed
  next
    fix x :: u64 assume "x \<in> {0x300000}"
    then show "x \<in> user_frames 0x100000 two_spaces" using u4 z f two_spaces_src(3) [OF z] unfolding user_frames_def same_page_def by force
  qed
qed

lemma two_spaces_dest: "j < 512 \<Longrightarrow> ent two_spaces 0x500000 j = 0" "space_ok {0} 0x500000 two_spaces" "owned {0} 0x500000 two_spaces = {0x500000}"
  "pml4_index va = 0 \<Longrightarrow> entry_of two_spaces 0x500000 va = 0"
proof -
  have p: "pg 0x500000" by (simp add: pg_def)
  have "0x500000 \<notin> owned {0} 0x100000 two_spaces" using two_spaces_src(2) by auto
  then have z: "ent two_spaces 0x500000 j = 0" if "j < 512" for j
    using page_changes_ent [OF two_spaces_src(4) space_okD(2) [OF two_spaces_src(1)] p _ that]
    by (simp add: small_vm_def VirtualMemoryManager_def ent_def)
  then show "j < 512 \<Longrightarrow> ent two_spaces 0x500000 j = 0" .
  have v: "vm_pmm two_spaces = pmm5 1 7" by (simp add: two_spaces_def)
  have a: "0x500000 \<notin> avail (vm_pmm two_spaces)" using pmm5_avail(1) [of "0x500000"] by (auto simp: v)
  have i: "pmm_inv (vm_pmm two_spaces)" using pmm5_inv by (simp add: v)
  show "space_ok {0} 0x500000 two_spaces" "owned {0} 0x500000 two_spaces = {0x500000}"
    by (rule empty_table_space [OF p a i], simp add: z)+
  show "pml4_index va = 0 \<Longrightarrow> entry_of two_spaces 0x500000 va = 0" by (simp add: entry_of_def leaf_def walk_of_def step_def z)
qed

lemma two_spaces_ok: "user_space 0x100000 two_spaces"
  "(owned {0} 0x100000 two_spaces \<union> user_frames 0x100000 two_spaces) \<inter> owned {0} 0x500000 two_spaces = {}"
  "owned {0} 0x500000 two_spaces \<subseteq> pool (vm_pmm two_spaces)"
proof -
  have v: "vm_pmm two_spaces = pmm5 1 7" by (simp add: two_spaces_def)
  have "0x300000 \<notin> avail (pmm5 1 7)" using pmm5_avail(1) [of "0x300000"] by auto
  then show "user_space 0x100000 two_spaces" using two_spaces_src(1) by (simp add: user_space_def two_spaces_user(1) v pg_def)
  show "(owned {0} 0x100000 two_spaces \<union> user_frames 0x100000 two_spaces) \<inter> owned {0} 0x500000 two_spaces = {}"
    using two_spaces_src(2) by (auto simp: two_spaces_user(1) two_spaces_dest(3))
  show "owned {0} 0x500000 two_spaces \<subseteq> pool (vm_pmm two_spaces)" by (simp add: two_spaces_dest(3) v pmm5_avail(2))
qed

lemma two_spaces_copy: "fst (copy_user_pages (Some 0x100000) (Some 0x500000) two_spaces)"
proof -
  let ?f = "visit two_spaces 0x100000 (copy_user_page (Some 0x500000))"
  have "owned {0} 0x100000 two_spaces \<inter> owned {0} 0x500000 two_spaces = {}" using two_spaces_ok(2) by blast
  note c = copy_user_pages_each [OF two_spaces_src(1) two_spaces_dest(2) this]
  have "0x400000 = page_address 0 2 0" by (simp add: page_address_def)
  then have "0x400000 \<in> set user_pages" using user_pagesI [of 0 2 0] by simp
  then obtain xs ys where xy: "user_pages = xs @ 0x400000 # ys" by (meson split_list)
  have d: "0x400000 \<notin> set xs" "0x400000 \<notin> set ys" using distinct_user_pages unfolding xy by simp_all
  have sub: "x \<in> set user_pages" if "x \<in> set xs \<union> set ys" for x unfolding xy using that by auto
  have skip: "?f va t = (True, t)" if "va \<in> set user_pages" "va \<noteq> 0x400000" for va t
  proof -
    have "\<not> same_page 0x400000 va" using user_pages_same [OF \<open>0x400000 \<in> set user_pages\<close> that(1)] that(2) by blast
    then show ?thesis using two_spaces_src(3) [OF user_page_index [OF that(1)]] by (simp add: visit_def)
  qed
  have "each ?f xs two_spaces = (True, two_spaces)" by (rule each_skip, rule skip) (use sub d in auto)
  moreover have "each ?f ys t = (True, t)" for t by (rule each_skip, rule skip) (use sub d in auto)
  moreover have "fst (?f 0x400000 two_spaces)"
  proof -
    have e: "vm_mem two_spaces (0x500000 + DIRECT_MAP_BASE) = 0" using two_spaces_dest(1) [of 0] by (simp add: ent_def slot_def)
    have "fst (copy_user_page (Some 0x500000) 0x400000 mapped_entry two_spaces)"
      using e by (simp add: copy_user_page_def map_page_in_def map_in_table_def get_or_create_table_def rd_def vm_allocate_def two_spaces_def
        pmm5_allocate Let_def physical_to_virtual_def DIRECT_MAP_BASE_def zero_page_def copy_words_def wr_def entry_to_phys_def frame_def in_words_def
        Present_def User_def Writable_def pml4_index_def pdpt_index_def pd_index_def pt_index_def PAGE_MASK_def PAGE_SIZE_def)
    then show ?thesis using two_spaces_user(2) two_spaces_src(3) [of "0x400000"] by (simp add: visit_def is_user_def pml4_index_def same_page_def)
  qed
  ultimately show ?thesis unfolding c unfolding xy
    by (cases "?f 0x400000 two_spaces") (simp add: each_append)
qed

theorem copy_user_pages_correct_witness:
  "\<exists>s'. copy_user_pages (Some 0x100000) (Some 0x500000) two_spaces = (True, s') \<and> is_copy two_spaces 0x100000 0x500000 s' 0x400000 \<and>
     entry_of s' 0x100000 0x400000 = mapped_entry"
proof -
  obtain s' where r: "copy_user_pages (Some 0x100000) (Some 0x500000) two_spaces = (True, s')"
    using two_spaces_copy by (cases "copy_user_pages (Some 0x100000) (Some 0x500000) two_spaces") simp
  have z: "pml4_index 0x400000 = 0" by (simp add: pml4_index_def)
  note c = copy_user_pages_correct [OF two_spaces_ok(1) two_spaces_dest(2,4) two_spaces_ok(2) r]
  have "entry_of s' 0x100000 0x400000 = mapped_entry" using c two_spaces_src(3) [OF z] z by (simp add: same_page_def)
  moreover have "is_copy two_spaces 0x100000 0x500000 s' 0x400000" using c two_spaces_user(2) z by simp
  ultimately show ?thesis using r by blast
qed

theorem destroy_address_space_correct_witness:
  "0x500000 \<in> avail (vm_pmm (destroy_address_space (Some 0x500000) two_spaces))"
proof -
  have "user_frames 0x500000 two_spaces = {}" using two_spaces_dest(4) by (auto simp: user_frames_def is_user_def)
  then show ?thesis
    using destroy_address_space_correct [of "0x500000" two_spaces] two_spaces_dest(2,3) two_spaces_ok(3) by (simp add: user_space_def)
qed

theorem copy_then_destroy_no_leak_witness:
  "avail (vm_pmm (destroy_address_space (Some 0x500000) (snd (copy_user_pages (Some 0x100000) (Some 0x500000) two_spaces)))) =
     insert 0x500000 (avail (pmm5 1 7))"
proof -
  obtain b s' where r: "copy_user_pages (Some 0x100000) (Some 0x500000) two_spaces = (b, s')"
    by (cases "copy_user_pages (Some 0x100000) (Some 0x500000) two_spaces")
  have "vm_pmm two_spaces = pmm5 1 7" by (simp add: two_spaces_def)
  then show ?thesis using copy_then_destroy_no_leak [OF two_spaces_ok(1) two_spaces_dest(2,4) two_spaces_ok(3,2) r] r by (simp add: two_spaces_dest(3))
qed

end
