(* ===== verification/Kernel_Heap.thy ===== *)
theory Kernel_Heap
  imports Address_Space
begin

text \<open>
  The kernel heap of \<open>include/heap.cpp\<close>: a first-fit allocator over a doubly linked list of
  blocks, grown page by page through the virtual memory manager. A block header is addressed by
  its virtual address, 0 being \<open>nullptr\<close>; \<open>hp_blocks\<close> is the memory of the headers.
\<close>

section \<open>State\<close>

record Block =
  blk_size :: u64
  blk_free :: bool
  blk_next :: u64
  blk_prev :: u64

record heap =
  hp_virt_start :: u64
  hp_virt_end :: u64
  hp_brk :: u64
  hp_head :: u64
  hp_blocks :: "u64 \<Rightarrow> Block"
  hp_vm :: vm

definition ALIGN :: u64 where "ALIGN = 8"
definition MIN_SPLIT_SIZE :: u64 where "MIN_SPLIT_SIZE = 32"
definition sizeof_Block :: u64 where "sizeof_Block = 32"
definition KERNEL_HEAP_BASE :: u64 where "KERNEL_HEAP_BASE = 0xFFFFFFFF90000000"
definition KERNEL_HEAP_SIZE :: u64 where "KERNEL_HEAP_SIZE = 16 * 1024 * 1024"
definition KERNEL_HEAP_END :: u64 where "KERNEL_HEAP_END = KERNEL_HEAP_BASE + KERNEL_HEAP_SIZE"

definition payload_of :: "u64 \<Rightarrow> u64" where "payload_of block = block + sizeof_Block"
definition header_of :: "u64 \<Rightarrow> u64" where "header_of payload = payload - sizeof_Block"

text \<open>A write to the header at an address.\<close>

definition set_block :: "u64 \<Rightarrow> (Block \<Rightarrow> Block) \<Rightarrow> heap \<Rightarrow> heap" where
  "set_block a f h = h\<lparr>hp_blocks := (hp_blocks h)(a := f (hp_blocks h a))\<rparr>"

section \<open>Growing\<close>

text \<open>
  The loop of \<open>sbrk\<close>: give every page from \<open>va\<close> on a physical page. It could run for ever if the
  addition wrapped around; that is \<open>None\<close>.
\<close>

partial_function (option) map_range :: "u64 \<Rightarrow> u64 \<Rightarrow> vm \<Rightarrow> (bool \<times> vm) option" where
  "map_range va new_brk s =
     (if \<not> va < new_brk then Some (True, s)
      else case vm_allocate s of
        (None, s1) \<Rightarrow> Some (False, s1)
      | (Some pa, s1) \<Rightarrow>
          (case map_page va (Some pa) (Present OR Writable) s1 of
             (b, s2) \<Rightarrow> if b then map_range (va + PAGE_SIZE) new_brk s2 else Some (False, s2)))"

text \<open>\<open>sbrk\<close>, with \<open>(void *)-1\<close> as the error value and the increment read as a signed number.\<close>

definition sbrk :: "u64 \<Rightarrow> heap \<Rightarrow> (u64 \<times> heap) option" where
  "sbrk increment h =
     (if sint increment < 0 then Some (- 1, h)
      else if increment = 0 then Some (hp_brk h, h)
      else let new_brk = hp_brk h + increment in
        if new_brk > hp_virt_end h then Some (- 1, h)
        else case map_range (align_down (hp_brk h + PAGE_SIZE - 1)) new_brk (hp_vm h) of
          None \<Rightarrow> None
        | Some (False, s) \<Rightarrow> Some (- 1, h\<lparr>hp_vm := s\<rparr>)
        | Some (True, s) \<Rightarrow> Some (hp_brk h, h\<lparr>hp_vm := s, hp_brk := new_brk\<rparr>))"

definition morecore :: "u64 \<Rightarrow> heap \<Rightarrow> (u64 \<times> heap) option" where
  "morecore pages h =
     (if pages = 0 then Some (0, h)
      else case sbrk (pages * PAGE_SIZE) h of
        None \<Rightarrow> None
      | Some (ptr, h1) \<Rightarrow> Some (if ptr = - 1 then 0 else ptr, h1))"

definition Heap :: "u64 \<Rightarrow> u64 \<Rightarrow> vm \<Rightarrow> (u64 \<Rightarrow> Block) \<Rightarrow> heap option" where
  "Heap virt_start virt_end s mem =
     (let h = \<lparr>hp_virt_start = virt_start, hp_virt_end = virt_end, hp_brk = virt_start, hp_head = 0, hp_blocks = mem, hp_vm = s\<rparr> in
      case morecore 1 h of
        None \<Rightarrow> None
      | Some (p, h1) \<Rightarrow>
          Some (if p = 0 then h1\<lparr>hp_head := 0\<rparr>
            else set_block p (\<lambda>_. \<lparr>blk_size = PAGE_SIZE - sizeof_Block, blk_free = True, blk_next = 0, blk_prev = 0\<rparr>)
                   (h1\<lparr>hp_head := p\<rparr>)))"

section \<open>Allocating\<close>

definition round_up :: "u64 \<Rightarrow> u64" where
  "round_up sz = (sz + ALIGN - 1) AND NOT (ALIGN - 1)"

text \<open>The search for the first free block that is large enough; 0 when there is none.\<close>

partial_function (option) find_fit :: "u64 \<Rightarrow> u64 \<Rightarrow> heap \<Rightarrow> u64 option" where
  "find_fit block total_size h =
     (if block = 0 then Some 0
      else if blk_free (hp_blocks h block) \<and> total_size \<le> blk_size (hp_blocks h block) then Some block
      else find_fit (blk_next (hp_blocks h block)) total_size h)"

definition split_block :: "u64 \<Rightarrow> u64 \<Rightarrow> heap \<Rightarrow> heap" where
  "split_block block total_size h =
     (let b = hp_blocks h block; new_block = payload_of block + total_size;
          h1 = set_block new_block (\<lambda>_. \<lparr>blk_size = blk_size b - total_size - sizeof_Block, blk_free = True,
                 blk_next = blk_next b, blk_prev = block\<rparr>) h;
          h2 = (if blk_next b \<noteq> 0 then set_block (blk_next b) (\<lambda>n. n\<lparr>blk_prev := new_block\<rparr>) h1 else h1)
      in set_block block (\<lambda>b. b\<lparr>blk_next := new_block, blk_size := total_size\<rparr>) h2)"

definition take_block :: "u64 \<Rightarrow> u64 \<Rightarrow> heap \<Rightarrow> u64 \<times> heap" where
  "take_block block total_size h =
     (let h1 = (if total_size + sizeof_Block + MIN_SPLIT_SIZE \<le> blk_size (hp_blocks h block) then split_block block total_size h else h)
      in (payload_of block, set_block block (\<lambda>b. b\<lparr>blk_free := False\<rparr>) h1))"

partial_function (option) last_block :: "u64 \<Rightarrow> heap \<Rightarrow> u64 option" where
  "last_block block h =
     (if blk_next (hp_blocks h block) = 0 then Some block else last_block (blk_next (hp_blocks h block)) h)"

definition pages_needed :: "u64 \<Rightarrow> u64" where
  "pages_needed total_size = (total_size + sizeof_Block + PAGE_SIZE - 1) div PAGE_SIZE"

text \<open>Adding new memory at the end of the list, to a free last block or as a block of its own.\<close>

definition extend_last :: "u64 \<Rightarrow> u64 \<Rightarrow> u64 \<Rightarrow> heap \<Rightarrow> heap" where
  "extend_last tail new_mem pages h =
     (if blk_free (hp_blocks h tail)
      then set_block tail (\<lambda>b. b\<lparr>blk_size := blk_size b + pages * PAGE_SIZE\<rparr>) h
      else set_block tail (\<lambda>b. b\<lparr>blk_next := new_mem\<rparr>)
             (set_block new_mem (\<lambda>_. \<lparr>blk_size = pages * PAGE_SIZE - sizeof_Block, blk_free = True, blk_next = 0, blk_prev = tail\<rparr>) h))"

text \<open>
  \<open>allocate\<close> calls itself again after the list has grown. A call that never returns is \<open>None\<close>;
  the pointer 0 is \<open>nullptr\<close>.
\<close>

partial_function (option) heap_allocate :: "u64 \<Rightarrow> heap \<Rightarrow> (u64 \<times> heap) option" where
  "heap_allocate sz h =
     (if sz = 0 \<or> hp_head h = 0 then Some (0, h)
      else case find_fit (hp_head h) (round_up sz) h of
        None \<Rightarrow> None
      | Some block \<Rightarrow>
          if block \<noteq> 0 then Some (take_block block (round_up sz) h)
          else case morecore (pages_needed (round_up sz)) h of
            None \<Rightarrow> None
          | Some (new_mem, h1) \<Rightarrow>
              if new_mem = 0 then Some (0, h1)
              else case last_block (hp_head h1) h1 of
                None \<Rightarrow> None
              | Some tail \<Rightarrow> heap_allocate sz (extend_last tail new_mem (pages_needed (round_up sz)) h1))"

section \<open>Freeing\<close>

definition merge_next :: "u64 \<Rightarrow> heap \<Rightarrow> heap" where
  "merge_next block h =
     (let b = hp_blocks h block in
      if blk_next b \<noteq> 0 \<and> blk_free (hp_blocks h (blk_next b)) then
        let n = hp_blocks h (blk_next b);
            h1 = set_block block (\<lambda>b. b\<lparr>blk_size := blk_size b + (sizeof_Block + blk_size n), blk_next := blk_next n\<rparr>) h
        in if blk_next n \<noteq> 0 then set_block (blk_next n) (\<lambda>m. m\<lparr>blk_prev := block\<rparr>) h1 else h1
      else h)"

definition merge_prev :: "u64 \<Rightarrow> heap \<Rightarrow> heap" where
  "merge_prev block h =
     (let b = hp_blocks h block in
      if blk_prev b \<noteq> 0 \<and> blk_free (hp_blocks h (blk_prev b)) then
        let h1 = set_block (blk_prev b) (\<lambda>p. p\<lparr>blk_size := blk_size p + (sizeof_Block + blk_size b), blk_next := blk_next b\<rparr>) h
        in if blk_next b \<noteq> 0 then set_block (blk_next b) (\<lambda>m. m\<lparr>blk_prev := blk_prev b\<rparr>) h1 else h1
      else h)"

definition heap_free :: "u64 \<Rightarrow> heap \<Rightarrow> heap" where
  "heap_free ptr h =
     (if ptr = 0 then h
      else let block = header_of ptr
        in merge_prev block (merge_next block (set_block block (\<lambda>b. b\<lparr>blk_free := True\<rparr>) h)))"

section \<open>The block list\<close>

type_synonym blocks = "(u64 \<times> u64 \<times> bool) list"

definition first_addr :: "blocks \<Rightarrow> u64 \<Rightarrow> u64" where
  "first_addr xs n = (case xs of [] \<Rightarrow> n | (a, _, _) # _ \<Rightarrow> a)"

definition last_addr :: "u64 \<Rightarrow> blocks \<Rightarrow> u64" where
  "last_addr p xs = (if xs = [] then p else fst (last xs))"

lemma first_addr_simps [simp]: "first_addr [] n = n" "first_addr ((a, s, f) # xs) n = a"
  "first_addr (xs @ ys) n = first_addr xs (first_addr ys n)"
  by (cases xs; auto simp: first_addr_def)+

lemma last_addr_simps [simp]: "last_addr p [] = p" "last_addr p ((a, s, f) # xs) = last_addr a xs"
  "last_addr p (xs @ ys) = last_addr (last_addr p xs) ys"
  by (simp_all add: last_addr_def)

text \<open>\<open>lseg B p xs n\<close>: the headers \<open>B\<close> hold the list segment \<open>xs\<close>, linked to \<open>p\<close> before it and \<open>n\<close> after it.\<close>

fun lseg :: "(u64 \<Rightarrow> Block) \<Rightarrow> u64 \<Rightarrow> blocks \<Rightarrow> u64 \<Rightarrow> bool" where
  "lseg B p [] n \<longleftrightarrow> True"
| "lseg B p ((a, s, f) # xs) n \<longleftrightarrow>
     B a = \<lparr>blk_size = s, blk_free = f, blk_next = first_addr xs n, blk_prev = p\<rparr> \<and> lseg B a xs n"

lemma lseg_append: "lseg B p (xs @ ys) n \<longleftrightarrow> lseg B p xs (first_addr ys n) \<and> lseg B (last_addr p xs) ys n"
  by (induction xs arbitrary: p) auto

lemma lseg_frame: "(\<And>a. a \<in> fst ` set xs \<Longrightarrow> B' a = B a) \<Longrightarrow> lseg B' p xs n = lseg B p xs n"
  by (induction xs arbitrary: p) auto

text \<open>The blocks fill the range from \<open>x\<close> to \<open>e\<close>, header by header.\<close>

fun layout :: "nat \<Rightarrow> blocks \<Rightarrow> nat \<Rightarrow> bool" where
  "layout x [] e \<longleftrightarrow> x = e"
| "layout x ((a, s, f) # xs) e \<longleftrightarrow> unat a = x \<and> 8 dvd unat s \<and> layout (x + 32 + unat s) xs e"

lemma layout_append: "layout x (xs @ ys) e \<longleftrightarrow> (\<exists>m. layout x xs m \<and> layout m ys e)"
  by (induction xs arbitrary: x) auto

lemma layout_le: "layout x xs e \<Longrightarrow> x \<le> e"
  by (induction xs arbitrary: x) force+

lemma layout_mem: "layout x xs e \<Longrightarrow> (a, s, f) \<in> set xs \<Longrightarrow> x \<le> unat a \<and> unat a + 32 + unat s \<le> e \<and> 8 dvd unat s"
proof (induction xs arbitrary: x)
  case (Cons y xs)
  obtain b t g where y: "y = (b, t, g)" by (cases y)
  show ?case using Cons.IH [of "x + 32 + unat t"] Cons.prems layout_le [of "x + 32 + unat t" xs e] y by auto
qed simp

text \<open>No two neighbouring blocks are free.\<close>

definition coalesced :: "blocks \<Rightarrow> bool" where
  "coalesced bs \<longleftrightarrow> successively (\<lambda>x y. \<not> (snd (snd x) \<and> snd (snd y))) bs"

section \<open>Pages of a range of addresses\<close>

lemma same_page_iff: "same_page v w \<longleftrightarrow> take_bit 36 (drop_bit 12 v) = take_bit 36 (drop_bit 12 w)"
proof
  have m: "(0x1FF :: u64) = mask 9" by (simp add: mask_eq_exp_minus_1)
  note ix = pml4_index_def pdpt_index_def pd_index_def pt_index_def m
  have b: "bit (drop_bit k x AND mask 9) n \<longleftrightarrow> n < 9 \<and> bit x (k + n)" for k n and x :: u64
    by (auto simp: bit_and_iff bit_mask_iff bit_drop_bit_eq dest: bit_imp_le_length)
  assume "same_page v w"
  then have e: "bit v (39 + n) = bit w (39 + n)" "bit v (30 + n) = bit w (30 + n)" "bit v (21 + n) = bit w (21 + n)" "bit v (12 + n) = bit w (12 + n)"
    if "n < 9" for n
    using b [of 39 v n] b [of 39 w n] b [of 30 v n] b [of 30 w n] b [of 21 v n] b [of 21 w n] b [of 12 v n] b [of 12 w n] that
    by (simp_all add: same_page_def walk_of_def ix)
  show "take_bit 36 (drop_bit 12 v) = take_bit 36 (drop_bit 12 w)"
  proof (rule bit_word_eqI)
    fix n assume "n < LENGTH(64)"
    have "bit v (12 + n) = bit w (12 + n)" if "n < 36"
    proof -
      have "n < 9 \<or> (9 \<le> n \<and> n - 9 < 9) \<or> (18 \<le> n \<and> n - 18 < 9) \<or> (27 \<le> n \<and> n - 27 < 9)" using that by linarith
      then show ?thesis using e(4) [of n] e(3) [of "n - 9"] e(2) [of "n - 18"] e(1) [of "n - 27"] by auto
    qed
    then show "bit (take_bit 36 (drop_bit 12 v)) n = bit (take_bit 36 (drop_bit 12 w)) n" by (auto simp: bit_take_bit_iff bit_drop_bit_eq)
  qed
next
  assume a: "take_bit 36 (drop_bit 12 v) = take_bit 36 (drop_bit 12 w)"
  have e: "bit v (12 + n) = bit w (12 + n)" if "n < 36" for n
    using arg_cong [OF a, of "\<lambda>x. bit x n"] that by (simp add: bit_take_bit_iff bit_drop_bit_eq)
  have m: "(0x1FF :: u64) = mask 9" by (simp add: mask_eq_exp_minus_1)
  have d: "drop_bit k v AND mask 9 = drop_bit k w AND mask 9" if "12 \<le> k" "k \<le> 39" for k
  proof (rule bit_word_eqI)
    fix n assume "n < LENGTH(64)"
    have "bit v (k + n) = bit w (k + n)" if "n < 9" using e [of "k - 12 + n"] \<open>12 \<le> k\<close> \<open>k \<le> 39\<close> that by simp
    then show "bit (drop_bit k v AND mask 9) n = bit (drop_bit k w AND mask 9) n" by (auto simp: bit_and_iff bit_mask_iff bit_drop_bit_eq)
  qed
  show "same_page v w" using d [of 12] d [of 21] d [of 30] d [of 39]
    by (simp add: same_page_def walk_of_def pml4_index_def pdpt_index_def pd_index_def pt_index_def m)
qed

lemma same_page_nat: "same_page v w \<longleftrightarrow> unat v div 4096 mod 2 ^ 36 = unat w div 4096 mod 2 ^ 36"
proof -
  have "unat (take_bit 36 (drop_bit 12 x)) = unat x div 4096 mod 2 ^ 36" for x :: u64
    by (simp add: take_bit_eq_mod drop_bit_eq_div unat_mod unat_div)
  then show ?thesis by (metis same_page_iff word_unat_eq_iff)
qed

text \<open>Within a range of less than \<open>2 ^ 47\<close> bytes two addresses are on one page exactly when their page numbers agree.\<close>

lemma same_page_range:
  assumes "lo \<le> unat v" "lo \<le> unat w" "unat v < lo + 2 ^ 47" "unat w < lo + 2 ^ 47"
  shows "same_page v w \<longleftrightarrow> unat v div 4096 = unat w div 4096"
proof -
  have eq: "a = b" if h: "a mod 2 ^ 36 = b mod 2 ^ 36" "a \<le> b" "b < a + 2 ^ 36" for a b :: nat
  proof -
    have "2 ^ 36 dvd b - a" using h(1,2) by (metis mod_eq_dvd_iff_nat)
    then show ?thesis using h(2,3) by (metis add_diff_inverse_nat dvd_imp_le leD le_add_same_cancel1 linorder_not_less nat_add_left_cancel_less not_gr0 add_0_right)
  qed
  have d: "unat x div 4096 < unat y div 4096 + 2 ^ 36" if "unat x < lo + 2 ^ 47" "lo \<le> unat y" for x y :: u64
  proof -
    have "unat x div 4096 \<le> (unat y + 2 ^ 47) div 4096" using that by (intro div_le_mono) linarith
    also have "\<dots> = unat y div 4096 + 2 ^ 35" by simp
    finally show ?thesis by simp
  qed
  show ?thesis
  proof (cases "unat v div 4096 \<le> unat w div 4096")
    case True
    then show ?thesis using eq [OF _ True d [OF assms(4,1)]] by (auto simp: same_page_nat)
  next
    case False
    then have le: "unat w div 4096 \<le> unat v div 4096" by simp
    then show ?thesis using eq [OF _ le d [OF assms(3,2)]] by (auto simp: same_page_nat)
  qed
qed

lemma map_page_entry:
  assumes ok: "space_ok U root s" and root: "vm_pml4 s = Some root" and va: "pml4_index va \<in> U" "pml4_index va' \<in> U"
    and r: "map_page va (Some phys) flags s = (b, s')"
  shows "entry_of s' root va' = (if b \<and> same_page va va' then (phys AND PAGE_MASK) OR flags OR Present else entry_of s root va')"
proof -
  let ?tf = "Present OR Writable OR (flags AND User)"
  obtain t where t: "map_in_table (physical_to_virtual (Some root)) va phys flags ?tf s = (b, t)" "s' = (if b then invlpg va t else t)"
    using r by (auto simp: map_page_def root split: prod.splits bool.splits)
  have "leaf s' = leaf t" using t(2) by (simp add: tables_of_invlpg)
  then show ?thesis
    using map_in_table_effect(2) [OF ok va(1) table_flags(1,2) t(1) path_walk(1) [OF va(2)] path_walk(2) index_less(4)]
    by (simp add: entry_of_def same_page_def)
qed

text \<open>
  The addresses from \<open>lo\<close> to \<open>hi\<close> are mapped, page by page, to physical pages of their own,
  which are neither available nor used as tables.
\<close>

definition mapped :: "u64 set \<Rightarrow> u64 \<Rightarrow> nat \<Rightarrow> nat \<Rightarrow> vm \<Rightarrow> bool" where
  "mapped U root lo hi s \<longleftrightarrow> space_ok U root s \<and> vm_pml4 s = Some root \<and>
     (\<forall>va. lo \<le> unat va \<and> unat va < hi \<longrightarrow> entry_of s root va \<noteq> 0 \<and>
        frame (entry_of s root va) \<notin> avail (vm_pmm s) \<union> owned U root s) \<and>
     (\<forall>va va'. lo \<le> unat va \<and> unat va < hi \<and> lo \<le> unat va' \<and> unat va' < hi \<and>
        frame (entry_of s root va) = frame (entry_of s root va') \<longrightarrow> unat va div 4096 = unat va' div 4096)"

lemma mappedD:
  assumes "mapped U root lo hi s"
  shows "space_ok U root s" "vm_pml4 s = Some root"
    "lo \<le> unat va \<Longrightarrow> unat va < hi \<Longrightarrow> entry_of s root va \<noteq> 0 \<and> frame (entry_of s root va) \<notin> avail (vm_pmm s) \<union> owned U root s"
    "lo \<le> unat va \<Longrightarrow> unat va < hi \<Longrightarrow> lo \<le> unat va' \<Longrightarrow> unat va' < hi \<Longrightarrow>
       frame (entry_of s root va) = frame (entry_of s root va') \<Longrightarrow> unat va div 4096 = unat va' div 4096"
  using assms unfolding mapped_def by blast+

lemma tables_of_pmm: "tab (s\<lparr>vm_pmm := p\<rparr>) = tab s" "leaf (s\<lparr>vm_pmm := p\<rparr>) = leaf s" "entry_of (s\<lparr>vm_pmm := p\<rparr>) = entry_of s"
  "owned U root (s\<lparr>vm_pmm := p\<rparr>) = owned U root s"
proof -
  show tb: "tab (s\<lparr>vm_pmm := p\<rparr>) = tab s"
  proof (intro ext)
    fix u q show "tab (s\<lparr>vm_pmm := p\<rparr>) u q = tab s u q" by (induction q arbitrary: u) (simp_all add: step_def ent_vm_pmm)
  qed
  show lf: "leaf (s\<lparr>vm_pmm := p\<rparr>) = leaf s" by (simp add: fun_eq_iff leaf_def tb ent_vm_pmm split: option.split)
  show "entry_of (s\<lparr>vm_pmm := p\<rparr>) = entry_of s" by (simp add: fun_eq_iff entry_of_def lf)
  show "owned U root (s\<lparr>vm_pmm := p\<rparr>) = owned U root s" by (simp add: owned_def tb)
qed

lemma space_ok_pmm:
  assumes ok: "space_ok U root s" and p: "pmm_inv p" "avail p \<subseteq> avail (vm_pmm s)"
  shows "space_ok U root (s\<lparr>vm_pmm := p\<rparr>)"
proof -
  have "owned U root s \<inter> avail p = {}" using space_okD(3) [OF ok] p(2) by blast
  moreover have "u = v" if "path U u" "path U v" "tab s root u = Some t" "tab s root v = Some t" for u v t
    using space_okD(4) [OF ok that] .
  ultimately show ?thesis using space_okD(2) [OF ok] p(1) unfolding space_ok_def by (simp add: tables_of_pmm)
qed

text \<open>One page of \<open>sbrk\<close>: allocate and map.\<close>

lemma map_one:
  assumes m: "mapped U root lo (unat va) s" and va: "4096 dvd unat va" "lo \<le> unat va" "unat va + 4096 \<le> lo + 2 ^ 47"
    and U: "\<And>x. lo \<le> unat x \<Longrightarrow> unat x < unat va + 4096 \<Longrightarrow> pml4_index x \<in> U"
    and al: "vm_allocate s = (Some pa, s1)" and mp: "map_page va (Some pa) (Present OR Writable) s1 = (b, s2)"
  shows "mapped U root lo (if b then unat va + 4096 else unat va) s2"
proof -
  note ok = mappedD(1) [OF m] and root = mappedD(2) [OF m]
  obtain p where p: "pmm_allocate (vm_pmm s) = (Some pa, p)" "s1 = s\<lparr>vm_pmm := p\<rparr>" using al by (auto simp: vm_allocate_def split: prod.splits)
  have av: "pa \<in> avail (vm_pmm s)" "avail p = avail (vm_pmm s) - {pa}" "pmm_inv p" using pm.alloc_some [OF space_okD(1) [OF ok] p(1)] by auto
  have pgp: "pg pa" using avail_pg [OF space_okD(1) [OF ok] av(1)] .
  have ok1: "space_ok U root s1" "vm_pml4 s1 = Some root" "owned U root s1 = owned U root s" "entry_of s1 = entry_of s" "vm_pmm s1 = p"
    using space_ok_pmm [OF ok av(3)] av(2) root by (auto simp: p(2) tables_of_pmm)
  have fl: "frame (Present OR Writable) = 0" by (simp add: frame_def Present_def Writable_def)
  have vaU: "pml4_index va \<in> U" using U [of va] va by simp
  note eff = map_page_effect [OF ok1(1,2) vaU pgp fl mp]
  have fr: "frame ((pa AND PAGE_MASK) OR (Present OR Writable) OR Present) = pa" by (rule frame_mapping [OF pgp fl])
  have nz: "(pa AND PAGE_MASK) OR (Present OR Writable) OR Present \<noteq> 0"
    using mapping_nonzero [of "(pa AND PAGE_MASK) OR (Present OR Writable)"] by (simp add: or.assoc)
  have e: "entry_of s2 root x = (if b \<and> unat x div 4096 = unat va div 4096 then (pa AND PAGE_MASK) OR (Present OR Writable) OR Present else entry_of s root x)"
    if "lo \<le> unat x" "unat x < unat va + 4096" for x
    using map_page_entry [OF ok1(1,2) vaU U [OF that] mp] same_page_range [of lo va x] va that by (simp add: ok1(4))
  have av2: "avail (vm_pmm s2) \<subseteq> avail (vm_pmm s) - {pa}" "owned U root s2 \<subseteq> owned U root s \<union> (avail (vm_pmm s) - {pa})"
    using eff ok1(3,5) av(2) by auto
  have pan: "pa \<notin> owned U root s" using space_okD(3) [OF ok] av(1) by blast
  have dv: "unat x div 4096 = unat va div 4096 \<longleftrightarrow> unat va \<le> unat x" if "unat x < unat va + 4096" for x :: u64
  proof -
    obtain k where k: "unat va = 4096 * k" using va(1) by (rule dvdE)
    have "unat x div 4096 = k \<longleftrightarrow> 4096 * k \<le> unat x" using that unfolding k by (cases "4096 * k \<le> unat x") linarith+
    then show ?thesis by (simp add: k)
  qed
  let ?hi = "if b then unat va + 4096 else unat va"
  have hi: "unat x < unat va + 4096" if "unat x < ?hi" for x :: u64 using that by (simp split: if_splits)
  have cases: "b \<and> unat va \<le> unat x \<and> frame (entry_of s2 root x) = pa \<and> entry_of s2 root x \<noteq> 0 \<or>
      unat x < unat va \<and> entry_of s2 root x = entry_of s root x" if "lo \<le> unat x" "unat x < ?hi" for x
    using e [OF that(1) hi [OF that(2)]] dv [OF hi [OF that(2)]] fr nz that by (auto split: if_splits)
  have old: "frame (entry_of s root x) \<notin> avail (vm_pmm s) \<union> owned U root s \<and> entry_of s root x \<noteq> 0" if "lo \<le> unat x" "unat x < unat va" for x
    using mappedD(3) [OF m that] by blast
  have one: "entry_of s2 root x \<noteq> 0 \<and> frame (entry_of s2 root x) \<notin> avail (vm_pmm s2) \<union> owned U root s2"
    if "lo \<le> unat x" "unat x < ?hi" for x
    using cases [OF that] old [OF that(1)] av2 pan by auto
  have "unat x div 4096 = unat y div 4096" if h: "lo \<le> unat x" "unat x < ?hi" "lo \<le> unat y" "unat y < ?hi"
    "frame (entry_of s2 root x) = frame (entry_of s2 root y)" for x y
    using cases [OF h(1,2)] cases [OF h(3,4)] old [OF h(1)] old [OF h(3)] h(5) av(1) mappedD(4) [OF m h(1) _ h(3)]
      dv [OF hi [OF h(2)]] dv [OF hi [OF h(4)]] by (elim disjE) auto
  then show ?thesis using one eff unfolding mapped_def by blast
qed

text \<open>
  The loop of \<open>sbrk\<close> ends. It maps the whole range, or stops without physical memory; the pages
  below the range keep their mappings in either case.
\<close>

lemma map_range_mapped:
  assumes "mapped U root lo (unat va) s" "4096 dvd unat va" "4096 dvd unat lim" "lo \<le> unat va" "unat va \<le> unat lim" "unat lim \<le> lo + 2 ^ 47"
    and U: "\<And>x. lo \<le> unat x \<Longrightarrow> unat x < unat lim \<Longrightarrow> pml4_index x \<in> U"
  shows "\<exists>b s'. map_range va lim s = Some (b, s') \<and> mapped U root lo (if b then unat lim else unat va) s'"
  using assms(1-5)
proof (induction "unat lim - unat va" arbitrary: va s rule: less_induct)
  case less
  show ?case
  proof (cases "va < lim")
    case False
    then have "unat va = unat lim" using less.prems(5) by (simp add: word_less_nat_alt)
    then show ?thesis using less.prems(1) False by (subst map_range.simps) (simp, blast)
  next
    case True
    note nx = unat_next_page [OF less.prems(2,3) True]
    obtain o1 s1 where al: "vm_allocate s = (o1, s1)" by (cases "vm_allocate s")
    show ?thesis
    proof (cases o1)
      case None
      have "s1 = s" using al None pm.alloc_none [OF space_okD(1) [OF mappedD(1) [OF less.prems(1)]]]
        by (auto simp: vm_allocate_def split: prod.splits)
      then show ?thesis using less.prems(1) al None True by (subst map_range.simps) (simp, blast)
    next
      case (Some pa)
      obtain b s2 where mp: "map_page va (Some pa) (Present OR Writable) s1 = (b, s2)" by (cases "map_page va (Some pa) (Present OR Writable) s1")
      have m2: "mapped U root lo (if b then unat va + 4096 else unat va) s2"
        by (rule map_one [OF less.prems(1,2,4) _ U al [unfolded Some] mp]) (use nx(2) assms(6) in linarith)+
      show ?thesis
      proof (cases b)
        case False
        then show ?thesis using m2 al Some mp True by (subst map_range.simps) (simp, blast)
      next
        case True
        have "unat lim - unat (va + PAGE_SIZE) < unat lim - unat va" using nx by simp
        then obtain c s' where "map_range (va + PAGE_SIZE) lim s2 = Some (c, s')"
          "mapped U root lo (if c then unat lim else unat (va + PAGE_SIZE)) s'"
          using less.hyps [of "va + PAGE_SIZE" s2] m2 True nx less.prems(2-5) by auto
        moreover have "mapped U root lo (unat va) s'" if "mapped U root lo (unat (va + PAGE_SIZE)) s'" for s'
          using that nx(1) unfolding mapped_def by auto
        ultimately show ?thesis using al Some mp True \<open>va < lim\<close> by (subst map_range.simps) (auto split: if_splits)
      qed
    qed
  qed
qed

section \<open>The list in memory\<close>

definition hlist :: "heap \<Rightarrow> blocks \<Rightarrow> bool" where
  "hlist h bs \<longleftrightarrow> hp_head h = first_addr bs 0 \<and> lseg (hp_blocks h) 0 bs 0 \<and>
     layout (unat (hp_virt_start h)) bs (unat (hp_brk h)) \<and> 0 < unat (hp_virt_start h)"

lemma hlistD:
  assumes "hlist h bs"
  shows "hp_head h = first_addr bs 0" "lseg (hp_blocks h) 0 bs 0" "layout (unat (hp_virt_start h)) bs (unat (hp_brk h))"
    "0 < unat (hp_virt_start h)"
  using assms by (simp_all add: hlist_def)

lemma layout_sorted: "layout x bs e \<Longrightarrow> sorted_wrt (\<lambda>y z. unat (fst y) + 32 + unat (fst (snd y)) \<le> unat (fst z)) bs"
proof (induction bs arbitrary: x)
  case (Cons y bs)
  obtain a s f where y: "y = (a, s, f)" by (cases y)
  have "unat a + 32 + unat s \<le> unat (fst z)" if "z \<in> set bs" for z
    using layout_mem [of "x + 32 + unat s" bs e "fst z" "fst (snd z)" "snd (snd z)"] Cons.prems that y by simp
  then show ?case using Cons y by auto
qed simp

lemma layout_distinct: "layout x bs e \<Longrightarrow> distinct (map fst bs)"
proof -
  assume "layout x bs e"
  then have "sorted_wrt (\<lambda>y z. unat (fst y) + 32 + unat (fst (snd y)) \<le> unat (fst z)) bs" by (rule layout_sorted)
  then show ?thesis by (induction bs) fastforce+
qed

text \<open>Blocks before and after a block of the list.\<close>

lemma layout_split:
  assumes "layout x (xs @ (a, s, f) # ys) e"
  shows "layout x xs (unat a)" "layout (unat a + 32 + unat s) ys e" "8 dvd unat s" "unat a + 32 + unat s \<le> e"
    "\<And>b. b \<in> fst ` set xs \<Longrightarrow> unat b < unat a" "\<And>b. b \<in> fst ` set ys \<Longrightarrow> unat a + 32 + unat s \<le> unat b"
proof -
  show l: "layout x xs (unat a)" "layout (unat a + 32 + unat s) ys e" "8 dvd unat s" using assms by (auto simp: layout_append)
  show "unat a + 32 + unat s \<le> e" using layout_le [OF l(2)] .
  show "unat b < unat a" if "b \<in> fst ` set xs" for b using layout_mem [OF l(1)] that by fastforce
  show "unat a + 32 + unat s \<le> unat b" if "b \<in> fst ` set ys" for b using layout_mem [OF l(2)] that by fastforce
qed

lemma first_addr_mem: "ys \<noteq> [] \<Longrightarrow> first_addr ys n \<in> fst ` set ys"
  by (cases ys) (auto simp: first_addr_def)

lemma first_addr_nonzero: "layout x ys e \<Longrightarrow> 0 < x \<Longrightarrow> (first_addr ys 0 = 0) = (ys = [])"
  using layout_mem [of x ys e] by (cases ys) auto

text \<open>Relinking the first or the last block of a segment.\<close>

lemma lseg_set_prev:
  assumes "lseg B p ys n" "distinct (map fst ys)" "\<And>a. a \<in> fst ` set ys \<Longrightarrow> B' a = (if a = first_addr ys n then (B a)\<lparr>blk_prev := q\<rparr> else B a)"
  shows "lseg B' q ys n"
proof (cases ys)
  case (Cons y zs)
  obtain a s f where y: "y = (a, s, f)" by (cases y)
  have "lseg B' a zs n = lseg B a zs n" by (rule lseg_frame) (use assms(2,3) Cons y in auto)
  then show ?thesis using assms Cons y by simp
qed simp

lemma lseg_set_next:
  assumes "lseg B p xs n" "distinct (map fst xs)" "\<And>a. a \<in> fst ` set xs \<Longrightarrow> B' a = (if a = last_addr p xs then (B a)\<lparr>blk_next := m\<rparr> else B a)"
  shows "lseg B' p xs m"
proof (cases xs rule: rev_cases)
  case (snoc ys y)
  obtain a s f where y: "y = (a, s, f)" by (cases y)
  have "lseg B' p ys a = lseg B p ys a" by (rule lseg_frame) (use assms(2,3) snoc y in auto)
  then show ?thesis using assms snoc y by (simp add: lseg_append)
qed simp

section \<open>The operations on the list\<close>

lemma find_fit_list:
  assumes "lseg (hp_blocks h) p bs 0" "\<And>a. a \<in> fst ` set bs \<Longrightarrow> a \<noteq> 0"
  shows "find_fit (first_addr bs 0) t h = Some (case find (\<lambda>(a, s, f). f \<and> t \<le> s) bs of None \<Rightarrow> 0 | Some (a, s, f) \<Rightarrow> a)"
  using assms
proof (induction bs arbitrary: p)
  case Nil
  then show ?case by (subst find_fit.simps) simp
next
  case (Cons y bs)
  obtain a s f where y: "y = (a, s, f)" by (cases y)
  have "find_fit (first_addr bs 0) t h = Some (case find (\<lambda>(a, s, f). f \<and> t \<le> s) bs of None \<Rightarrow> 0 | Some (a, s, f) \<Rightarrow> a)"
    using Cons.IH [of a] Cons.prems y by simp
  then show ?case using Cons.prems y by (subst find_fit.simps) simp
qed

lemma last_block_list:
  assumes "lseg (hp_blocks h) p bs 0" "\<And>a. a \<in> fst ` set bs \<Longrightarrow> a \<noteq> 0" "bs \<noteq> []"
  shows "last_block (first_addr bs 0) h = Some (last_addr 0 bs)"
  using assms
proof (induction bs arbitrary: p)
  case (Cons y bs)
  obtain a s f where y: "y = (a, s, f)" by (cases y)
  show ?case
  proof (cases "bs = []")
    case True
    then show ?thesis using Cons.prems y by (subst last_block.simps) simp
  next
    case False
    then have "last_block (first_addr bs 0) h = Some (last_addr 0 bs)" "first_addr bs 0 \<noteq> 0"
      using Cons.IH [of a] Cons.prems y first_addr_mem [OF False, of 0] by auto
    then show ?thesis using Cons.prems y False by (subst last_block.simps) (simp add: last_addr_def)
  qed
qed simp

lemma set_block_simps [simp]: "hp_blocks (set_block a f h) = (hp_blocks h)(a := f (hp_blocks h a))" "hp_head (set_block a f h) = hp_head h"
  "hp_virt_start (set_block a f h) = hp_virt_start h" "hp_virt_end (set_block a f h) = hp_virt_end h" "hp_brk (set_block a f h) = hp_brk h"
  "hp_vm (set_block a f h) = hp_vm h"
  by (simp_all add: set_block_def)

lemma hlist_block:
  assumes "hlist h (xs @ (a, s, f) # ys)"
  shows "hp_blocks h a = \<lparr>blk_size = s, blk_free = f, blk_next = first_addr ys 0, blk_prev = last_addr 0 xs\<rparr>"
    "lseg (hp_blocks h) 0 xs a" "lseg (hp_blocks h) a ys 0" "a \<noteq> 0" "(first_addr ys 0 = 0) = (ys = [])" "(last_addr 0 xs = 0) = (xs = [])"
    "distinct (map fst ys)" "distinct (map fst xs)" "\<And>b. b \<in> fst ` set xs \<Longrightarrow> unat b < unat a"
    "\<And>b. b \<in> fst ` set ys \<Longrightarrow> unat a + 32 + unat s \<le> unat b" "unat a + 32 + unat s \<le> unat (hp_brk h)" "8 dvd unat s"
proof -
  note l = hlistD(2,3) [OF assms] and st = hlistD(4) [OF assms]
  note sp = layout_split [OF l(2)]
  show "hp_blocks h a = \<lparr>blk_size = s, blk_free = f, blk_next = first_addr ys 0, blk_prev = last_addr 0 xs\<rparr>"
    "lseg (hp_blocks h) 0 xs a" "lseg (hp_blocks h) a ys 0" using l(1) by (auto simp: lseg_append)
  show "a \<noteq> 0" using layout_le [OF sp(1)] st by auto
  show "(first_addr ys 0 = 0) = (ys = [])" by (rule first_addr_nonzero [OF sp(2)]) simp
  show "(last_addr 0 xs = 0) = (xs = [])"
    using layout_mem [OF sp(1), of "fst (last xs)" "fst (snd (last xs))" "snd (snd (last xs))"] st by (auto simp: last_addr_def)
  show "distinct (map fst ys)" "distinct (map fst xs)" using layout_distinct [OF sp(2)] layout_distinct [OF sp(1)] .
  show "unat b < unat a" if "b \<in> fst ` set xs" for b using sp(5) [OF that] .
  show "unat a + 32 + unat s \<le> unat b" if "b \<in> fst ` set ys" for b using sp(6) [OF that] .
  show "unat a + 32 + unat s \<le> unat (hp_brk h)" "8 dvd unat s" using sp(3,4) by auto
qed

text \<open>A list with new headers, when the list up to a block is unchanged but for the last link.\<close>

lemma hlistI:
  assumes old: "hlist h bs" and h': "hp_head h' = hp_head h" "hp_virt_start h' = hp_virt_start h"
    and "first_addr bs' 0 = first_addr bs 0" "lseg (hp_blocks h') 0 bs' 0" "layout (unat (hp_virt_start h)) bs' (unat (hp_brk h'))"
  shows "hlist h' bs'"
  using assms by (simp add: hlist_def)

lemma hlist_set_free:
  assumes "hlist h (xs @ (a, s, f) # ys)"
  shows "hlist (set_block a (\<lambda>b. b\<lparr>blk_free := g\<rparr>) h) (xs @ (a, s, g) # ys)"
proof (rule hlistI [OF assms])
  note b = hlist_block [OF assms]
  have "lseg ((hp_blocks h)(a := \<lparr>blk_size = s, blk_free = g, blk_next = first_addr ys 0, blk_prev = last_addr 0 xs\<rparr>)) 0 xs a"
    "lseg ((hp_blocks h)(a := \<lparr>blk_size = s, blk_free = g, blk_next = first_addr ys 0, blk_prev = last_addr 0 xs\<rparr>)) a ys 0"
    using b(2,3,9,10) by (subst lseg_frame; force)+
  then show "lseg (hp_blocks (set_block a (\<lambda>b. b\<lparr>blk_free := g\<rparr>) h)) 0 (xs @ (a, s, g) # ys) 0"
    using b(1) by (simp add: lseg_append)
  show "layout (unat (hp_virt_start h)) (xs @ (a, s, g) # ys) (unat (hp_brk (set_block a (\<lambda>b. b\<lparr>blk_free := g\<rparr>) h)))"
    using hlistD(3) [OF assms] by (simp add: layout_append)
qed simp_all

lemma u64_less: "unat (x :: u64) < 2 ^ 64"
  using unsigned_less [of x] by simp

lemma unat_add3: "unat a + 32 + unat t < 2 ^ 64 \<Longrightarrow> unat (a + 32 + t :: u64) = unat a + 32 + unat t"
  by (simp add: unat_word_ariths(1))

lemma hlist_split:
  assumes hl: "hlist h (xs @ (a, s, f) # ys)" and t: "unat t + 64 \<le> unat s" "8 dvd unat t"
  shows "hlist (split_block a t h) (xs @ (a, t, f) # (a + 32 + t, s - t - 32, True) # ys)"
proof (rule hlistI [OF hl])
  note b = hlist_block [OF hl]
  note lim = u64_less [of "hp_brk h"]
  let ?n = "a + 32 + t"
  have n: "unat ?n = unat a + 32 + unat t" by (rule unat_add3) (use b(11) t lim in linarith)
  have sz: "unat (s - t - 32) = unat s - unat t - 32"
  proof -
    have "unat (s - t) = unat s - unat t" using t by (intro unat_sub) (simp add: word_le_nat_alt)
    moreover have "unat (s - t - 32) = unat (s - t) - unat (32 :: u64)" using t calculation by (intro unat_sub) (simp add: word_le_nat_alt)
    ultimately show ?thesis by simp
  qed
  let ?B = "hp_blocks (split_block a t h)"
  have na: "?n \<noteq> a" using n by (metis add.assoc add_cancel_right_right add_is_0 zero_neq_numeral)
  have nys: "?n \<notin> fst ` set ys" using b(10) [of ?n] n t by auto
  have ays: "a \<notin> fst ` set ys" using b(10) [of a] by auto
  have Bn: "?B ?n = \<lparr>blk_size = s - t - 32, blk_free = True, blk_next = first_addr ys 0, blk_prev = a\<rparr>"
    using na nys first_addr_mem [of ys 0] b(1,5) by (auto simp: split_block_def Let_def payload_of_def sizeof_Block_def)
  have Ba: "?B a = \<lparr>blk_size = t, blk_free = f, blk_next = ?n, blk_prev = last_addr 0 xs\<rparr>"
    using na ays first_addr_mem [of ys 0] b(1,5) by (auto simp: split_block_def Let_def payload_of_def sizeof_Block_def)
  have Bx: "?B c = hp_blocks h c" if "c \<in> fst ` set xs" for c
  proof -
    have "c \<noteq> a" "c \<noteq> ?n" "c \<notin> fst ` set ys" using b(9) [OF that] n b(10) [of c] by auto
    then show ?thesis using first_addr_mem [of ys 0] b(1,5) by (auto simp: split_block_def Let_def payload_of_def sizeof_Block_def)
  qed
  have By: "?B c = (if c = first_addr ys 0 then (hp_blocks h c)\<lparr>blk_prev := ?n\<rparr> else hp_blocks h c)" if "c \<in> fst ` set ys" for c
  proof -
    have "c \<noteq> a" "c \<noteq> ?n" using that nys ays by metis+
    moreover have "ys \<noteq> []" using that by auto
    ultimately show ?thesis using b(1,5) by (auto simp: split_block_def Let_def payload_of_def sizeof_Block_def)
  qed
  have "lseg ?B 0 xs a" using b(2) lseg_frame [of xs ?B "hp_blocks h", OF Bx] by simp
  moreover have "lseg ?B ?n ys 0" using lseg_set_prev [OF b(3) b(7) By] .
  ultimately show "lseg ?B 0 (xs @ (a, t, f) # (?n, s - t - 32, True) # ys) 0" using Ba Bn by (simp add: lseg_append)
  have "8 dvd unat s - unat t - 32" using t b(12) by (simp add: dvd_diff_nat)
  moreover have "unat a + 32 + unat t + 32 + (unat s - unat t - 32) = unat a + 32 + unat s" using t by simp
  ultimately show "layout (unat (hp_virt_start h)) (xs @ (a, t, f) # (?n, s - t - 32, True) # ys) (unat (hp_brk (split_block a t h)))"
    using hlistD(3) [OF hl] t(2) n sz by (auto simp: layout_append split_block_def Let_def ac_simps)
qed (auto simp: split_block_def Let_def)

lemma unat_merged: "unat s + 32 + unat t < 2 ^ 64 \<Longrightarrow> unat (s + (32 + t) :: u64) = unat s + 32 + unat t"
  by (simp add: unat_word_ariths(1) add.assoc)

lemma merge_next_same: "hlist h (xs @ (a, s, f) # ys) \<Longrightarrow> ys = [] \<or> \<not> snd (snd (hd ys)) \<Longrightarrow> merge_next a h = h"
proof -
  assume hl: "hlist h (xs @ (a, s, f) # ys)" and ys: "ys = [] \<or> \<not> snd (snd (hd ys))"
  show ?thesis
  proof (cases ys)
    case Nil
    then show ?thesis using hlist_block(1,5) [OF hl] by (simp add: merge_next_def)
  next
    case (Cons y zs)
    obtain b t g where y: "y = (b, t, g)" by (cases y)
    have "hlist h ((xs @ [(a, s, f)]) @ (b, t, g) # zs)" using hl Cons y by simp
    from hlist_block(1) [OF this] show ?thesis using hlist_block(1) [OF hl] ys Cons y by (simp add: merge_next_def Let_def)
  qed
qed

lemma hlist_merge_next:
  assumes hl: "hlist h (xs @ (a, s, f) # (c, t, True) # ys)"
  shows "hlist (merge_next a h) (xs @ (a, s + (32 + t), f) # ys)"
proof (rule hlistI [OF hl])
  note b = hlist_block [OF hl]
  have hl': "hlist h ((xs @ [(a, s, f)]) @ (c, t, True) # ys)" using hl by simp
  note b' = hlist_block [OF hl']
  let ?B = "hp_blocks (merge_next a h)"
  have c: "unat c = unat a + 32 + unat s" using hlistD(3) [OF hl] by (auto simp: layout_append)
  have un: "unat (s + (32 + t)) = unat s + 32 + unat t"
    by (rule unat_merged) (use b'(11) c u64_less [of "hp_brk h"] in linarith)
  have ca: "c \<noteq> a" "c \<noteq> 0" using b(10) [of c] b'(4) by auto
  have ays: "a \<notin> fst ` set ys" using b(10) [of a] by auto
  have fy: "first_addr ys 0 \<noteq> a" using ays first_addr_mem [of ys 0] b'(5) b(4) by (cases "ys = []") auto
  note m = merge_next_def Let_def b(1) b'(1) ca b'(5) sizeof_Block_def
  have Ba: "?B a = \<lparr>blk_size = s + (32 + t), blk_free = f, blk_next = first_addr ys 0, blk_prev = last_addr 0 xs\<rparr>"
    using fy by (simp add: m)
  have Bx: "?B x = hp_blocks h x" if "x \<in> fst ` set xs" for x
  proof -
    have "x \<noteq> a" "x \<notin> fst ` set ys" using b(9) [OF that] b(10) [of x] by auto
    then show ?thesis using first_addr_mem [of ys 0] by (auto simp: m)
  qed
  have By: "?B x = (if x = first_addr ys 0 then (hp_blocks h x)\<lparr>blk_prev := a\<rparr> else hp_blocks h x)" if "x \<in> fst ` set ys" for x
  proof -
    have "x \<noteq> a" using that ays by metis
    moreover have "ys \<noteq> []" using that by auto
    ultimately show ?thesis by (auto simp: m)
  qed
  have "lseg ?B 0 xs a" using b(2) lseg_frame [of xs ?B "hp_blocks h", OF Bx] by simp
  moreover have "lseg ?B a ys 0" using lseg_set_prev [OF b'(3) b'(7) By] .
  ultimately show "lseg ?B 0 (xs @ (a, s + (32 + t), f) # ys) 0" using Ba by (simp add: lseg_append)
  have "8 dvd unat s + 32 + unat t" using b(12) b'(12) by (intro dvd_add) simp_all
  then show "layout (unat (hp_virt_start h)) (xs @ (a, s + (32 + t), f) # ys) (unat (hp_brk (merge_next a h)))"
    using hlistD(3) [OF hl] un by (auto simp: layout_append merge_next_def Let_def algebra_simps)
qed (auto simp: merge_next_def Let_def)

lemma merge_prev_same: "hlist h (xs @ (a, s, f) # ys) \<Longrightarrow> xs = [] \<or> \<not> snd (snd (last xs)) \<Longrightarrow> merge_prev a h = h"
proof -
  assume hl: "hlist h (xs @ (a, s, f) # ys)" and xs: "xs = [] \<or> \<not> snd (snd (last xs))"
  show ?thesis
  proof (cases xs rule: rev_cases)
    case Nil
    then show ?thesis using hlist_block(1,6) [OF hl] by (simp add: merge_prev_def)
  next
    case (snoc zs y)
    obtain b t g where y: "y = (b, t, g)" by (cases y)
    have "hlist h (zs @ (b, t, g) # (a, s, f) # ys)" using hl snoc y by simp
    from hlist_block(1) [OF this] show ?thesis using hlist_block(1) [OF hl] xs snoc y by (simp add: merge_prev_def Let_def)
  qed
qed

lemma hlist_merge_prev:
  assumes hl: "hlist h (xs @ (c, t, True) # (a, s, f) # ys)"
  shows "hlist (merge_prev a h) (xs @ (c, t + (32 + s), True) # ys)"
proof -
  have hl': "hlist h ((xs @ [(c, t, True)]) @ (a, s, f) # ys)" using hl by simp
  note b = hlist_block [OF hl] and b' = hlist_block [OF hl']
  let ?B = "hp_blocks (merge_prev a h)"
  have a: "unat a = unat c + 32 + unat t" using hlistD(3) [OF hl] by (auto simp: layout_append)
  have un: "unat (t + (32 + s)) = unat t + 32 + unat s"
    by (rule unat_merged) (use b'(11) a u64_less [of "hp_brk h"] in linarith)
  have ca: "a \<noteq> c" "c \<noteq> 0" using a b(4) by auto
  have cys: "c \<notin> fst ` set ys" using b(10) [of c] by auto
  have ays: "a \<notin> fst ` set ys" using b'(10) [of a] by auto
  have fy: "first_addr ys 0 \<noteq> c" using cys first_addr_mem [of ys 0] b'(5) b(4) by (cases "ys = []") auto
  note m = merge_prev_def Let_def b(1) b'(1) ca b'(5) sizeof_Block_def
  have Bc: "?B c = \<lparr>blk_size = t + (32 + s), blk_free = True, blk_next = first_addr ys 0, blk_prev = last_addr 0 xs\<rparr>"
    using fy by (simp add: m)
  have Bx: "?B x = hp_blocks h x" if "x \<in> fst ` set xs" for x
  proof -
    have "x \<noteq> c" "x \<notin> fst ` set ys" using b(9) [OF that] b(10) [of x] by auto
    then show ?thesis using first_addr_mem [of ys 0] by (auto simp: m)
  qed
  have By: "?B x = (if x = first_addr ys 0 then (hp_blocks h x)\<lparr>blk_prev := c\<rparr> else hp_blocks h x)" if "x \<in> fst ` set ys" for x
  proof -
    have "x \<noteq> c" using that cys by metis
    moreover have "ys \<noteq> []" using that by auto
    ultimately show ?thesis by (auto simp: m)
  qed
  have "lseg ?B 0 xs c" using b(2) lseg_frame [of xs ?B "hp_blocks h", OF Bx] by simp
  moreover have "lseg ?B c ys 0" using lseg_set_prev [OF b'(3) b'(7) By] .
  ultimately have l: "lseg ?B 0 (xs @ (c, t + (32 + s), True) # ys) 0" using Bc by (simp add: lseg_append)
  have "8 dvd unat t + 32 + unat s" using b(12) b'(12) by (intro dvd_add) simp_all
  then have y: "layout (unat (hp_virt_start h)) (xs @ (c, t + (32 + s), True) # ys) (unat (hp_brk (merge_prev a h)))"
    using hlistD(3) [OF hl] un by (auto simp: layout_append merge_prev_def Let_def algebra_simps)
  show ?thesis by (rule hlistI [OF hl _ _ _ l y]) (auto simp: merge_prev_def Let_def)
qed

text \<open>New memory at the end of the range.\<close>

lemma hlist_extend_free:
  assumes hl: "hlist h (xs @ [(a, s, True)])" and k: "8 dvd unat k" "unat (hp_brk h) + unat k < 2 ^ 64" "hp_brk h' = hp_brk h + k"
    and h': "hp_head h' = hp_head h" "hp_virt_start h' = hp_virt_start h" "hp_blocks h' = hp_blocks h"
  shows "hlist (set_block a (\<lambda>b. b\<lparr>blk_size := blk_size b + k\<rparr>) h') (xs @ [(a, s + k, True)])"
proof (rule hlistI [OF hl])
  note b = hlist_block [OF hl]
  let ?B = "(hp_blocks h)(a := \<lparr>blk_size = s + k, blk_free = True, blk_next = 0, blk_prev = last_addr 0 xs\<rparr>)"
  have "?B x = hp_blocks h x" if "x \<in> fst ` set xs" for x using b(9) [OF that] by auto
  then have "lseg ?B 0 xs a" using b(2) lseg_frame [of xs ?B "hp_blocks h"] by blast
  then show "lseg (hp_blocks (set_block a (\<lambda>b. b\<lparr>blk_size := blk_size b + k\<rparr>) h')) 0 (xs @ [(a, s + k, True)]) 0"
    using b(1) by (simp add: lseg_append h')
  have "unat (s + k) = unat s + unat k" using b(11) k(2) by (simp add: unat_word_ariths(1))
  moreover have "unat (hp_brk h + k) = unat (hp_brk h) + unat k" using k(2) by (simp add: unat_word_ariths(1))
  ultimately show "layout (unat (hp_virt_start h)) (xs @ [(a, s + k, True)]) (unat (hp_brk (set_block a (\<lambda>b. b\<lparr>blk_size := blk_size b + k\<rparr>) h')))"
    using hlistD(3) [OF hl] k by (auto simp: layout_append h')
qed (simp_all add: h')

lemma hlist_extend_new:
  assumes hl: "hlist h (xs @ [(a, s, False)])" and k: "8 dvd unat k" "32 \<le> unat k" "unat (hp_brk h) + unat k < 2 ^ 64" "hp_brk h' = hp_brk h + k"
    and h': "hp_head h' = hp_head h" "hp_virt_start h' = hp_virt_start h" "hp_blocks h' = hp_blocks h"
  shows "hlist (set_block a (\<lambda>b. b\<lparr>blk_next := hp_brk h\<rparr>)
    (set_block (hp_brk h) (\<lambda>_. \<lparr>blk_size = k - sizeof_Block, blk_free = True, blk_next = 0, blk_prev = a\<rparr>) h'))
    (xs @ [(a, s, False), (hp_brk h, k - 32, True)])"
proof (rule hlistI [OF hl])
  note b = hlist_block [OF hl]
  let ?n = "hp_brk h"
  let ?B = "hp_blocks (set_block a (\<lambda>b. b\<lparr>blk_next := ?n\<rparr>) (set_block ?n (\<lambda>_. \<lparr>blk_size = k - sizeof_Block, blk_free = True, blk_next = 0, blk_prev = a\<rparr>) h'))"
  have na: "?n \<noteq> a" using b(11) by auto
  have "?B x = hp_blocks h x" if "x \<in> fst ` set xs" for x
  proof -
    have "unat x < unat a" "unat a < unat ?n" using b(9) [OF that] b(11) by auto
    then show ?thesis by (auto simp: h')
  qed
  then have "lseg ?B 0 xs a" using b(2) lseg_frame [of xs ?B "hp_blocks h"] by blast
  moreover have "?B a = \<lparr>blk_size = s, blk_free = False, blk_next = ?n, blk_prev = last_addr 0 xs\<rparr>" using b(1) na by (simp add: h')
  moreover have "?B ?n = \<lparr>blk_size = k - 32, blk_free = True, blk_next = 0, blk_prev = a\<rparr>" using na by (simp add: h' sizeof_Block_def)
  ultimately show "lseg ?B 0 (xs @ [(a, s, False), (?n, k - 32, True)]) 0" by (simp add: lseg_append)
  have "unat (k - 32) = unat k - unat (32 :: u64)" by (rule unat_sub) (use k(2) in \<open>simp add: word_le_nat_alt\<close>)
  moreover have "unat (?n + k) = unat ?n + unat k" using k(3) by (simp add: unat_word_ariths(1))
  moreover have "8 dvd unat k - 32" using k(1) by (simp add: dvd_diff_nat)
  ultimately show "layout (unat (hp_virt_start h)) (xs @ [(a, s, False), (?n, k - 32, True)])
    (unat (hp_brk (set_block a (\<lambda>b. b\<lparr>blk_next := ?n\<rparr>) (set_block ?n (\<lambda>_. \<lparr>blk_size = k - sizeof_Block, blk_free = True, blk_next = 0, blk_prev = a\<rparr>) h'))))"
    using hlistD(3) [OF hl] k by (auto simp: layout_append)
qed (simp_all add: h')

section \<open>The invariant\<close>

definition heap_inv :: "u64 set \<Rightarrow> u64 \<Rightarrow> heap \<Rightarrow> blocks \<Rightarrow> bool" where
  "heap_inv U root h bs \<longleftrightarrow> hlist h bs \<and> bs \<noteq> [] \<and> coalesced bs \<and>
     mapped U root (unat (hp_virt_start h)) (unat (hp_brk h)) (hp_vm h) \<and>
     4096 dvd unat (hp_virt_start h) \<and> 4096 dvd unat (hp_brk h) \<and> unat (hp_brk h) \<le> unat (hp_virt_end h) \<and>
     unat (hp_virt_end h) \<le> unat (hp_virt_start h) + 2 ^ 47 \<and>
     (\<forall>x. unat (hp_virt_start h) \<le> unat x \<and> unat x < unat (hp_virt_end h) \<longrightarrow> pml4_index x \<in> U)"

text \<open>The blocks in use, as pairs of header and size.\<close>

definition used_blocks :: "blocks \<Rightarrow> (u64 \<times> u64) set" where
  "used_blocks bs = {(a, s). (a, s, False) \<in> set bs}"

lemma used_blocks_simps [simp]: "used_blocks [] = {}" "used_blocks (xs @ ys) = used_blocks xs \<union> used_blocks ys"
  "used_blocks ((a, s, f) # xs) = (if f then used_blocks xs else insert (a, s) (used_blocks xs))"
  by (auto simp: used_blocks_def)

lemma layout_8: "layout x bs e \<Longrightarrow> 8 dvd x \<Longrightarrow> (a, s, f) \<in> set bs \<Longrightarrow> 8 dvd unat a"
proof (induction bs arbitrary: x)
  case (Cons y bs)
  obtain b t g where y: "y = (b, t, g)" by (cases y)
  have "8 dvd x + 32 + unat t" using Cons.prems y by (intro dvd_add) simp_all
  then show ?case using Cons y by auto
qed simp

lemma unat_round_up:
  assumes "unat sz + 7 < 2 ^ 64"
  shows "unat (round_up sz) = (unat sz + 7) div 8 * 8"
proof -
  have e: "round_up sz = (sz + 7) AND NOT (mask 3)" by (simp add: round_up_def ALIGN_def mask_eq_exp_minus_1 add.commute)
  have "(sz + 7) AND NOT (mask 3) = push_bit 3 (drop_bit 3 (sz + 7))" by (rule and_not_mask_eq)
  then have "unat (round_up sz) = unat (drop_bit 3 (sz + 7) * 8)" by (simp add: e push_bit_eq_mult)
  moreover have "unat (sz + 7) = unat sz + 7" using assms by (simp add: unat_word_ariths(1))
  moreover have "(unat sz + 7) div 8 * 8 < 2 ^ 64" using assms by (meson div_times_less_eq_dividend le_less_trans)
  ultimately show ?thesis by (simp add: unat_word_ariths(2) drop_bit_eq_div unat_div)
qed

lemma take_block_inv:
  assumes inv: "heap_inv U root h (xs @ (a, s, True) # ys)" and t: "t \<le> s" "8 dvd unat t"
  shows "\<exists>h' bs' s'. take_block a t h = (a + 32, h') \<and> heap_inv U root h' bs' \<and> t \<le> s' \<and> s' \<le> s \<and>
    used_blocks bs' = insert (a, s') (used_blocks (xs @ (a, s, True) # ys)) \<and> hp_virt_start h' = hp_virt_start h \<and> hp_brk h' = hp_brk h"
proof -
  have hl: "hlist h (xs @ (a, s, True) # ys)" and co: "coalesced (xs @ (a, s, True) # ys)" using inv by (simp_all add: heap_inv_def)
  note b = hlist_block [OF hl]
  have "unat s \<le> 2 ^ 47" using b(11) layout_le [OF layout_split(1) [OF hlistD(3) [OF hl]]] inv by (simp add: heap_inv_def)
  then have w: "unat (t + sizeof_Block + MIN_SPLIT_SIZE) = unat t + 64"
    using t(1) by (simp add: sizeof_Block_def MIN_SPLIT_SIZE_def unat_word_ariths(1) word_le_nat_alt)
  have keep: "heap_inv U root h' bs'" if "hlist h' bs'" "bs' \<noteq> []" "coalesced bs'" "hp_vm h' = hp_vm h" "hp_brk h' = hp_brk h"
    "hp_virt_start h' = hp_virt_start h" "hp_virt_end h' = hp_virt_end h" for h' bs' using inv that by (simp add: heap_inv_def)
  show ?thesis
  proof (cases "t + sizeof_Block + MIN_SPLIT_SIZE \<le> blk_size (hp_blocks h a)")
    case False
    let ?h = "set_block a (\<lambda>b. b\<lparr>blk_free := False\<rparr>) h"
    have "coalesced (xs @ (a, s, False) # ys)" using co by (auto simp: coalesced_def successively_append_iff successively_Cons)
    then have "heap_inv U root ?h (xs @ (a, s, False) # ys)" by (intro keep hlist_set_free [OF hl]) simp_all
    then show ?thesis using False t(1)
      by (intro exI [of _ ?h] exI [of _ "xs @ (a, s, False) # ys"] exI [of _ s]) (simp add: take_block_def payload_of_def sizeof_Block_def)
  next
    case True
    let ?h = "set_block a (\<lambda>b. b\<lparr>blk_free := False\<rparr>) (split_block a t h)"
    let ?bs = "xs @ (a, t, False) # (a + 32 + t, s - t - 32, True) # ys"
    have "unat t + 64 \<le> unat s" using True w b(1) by (simp add: word_le_nat_alt)
    note sp = hlist_split [OF hl this t(2)]
    have "coalesced ?bs" using co by (auto simp: coalesced_def successively_append_iff successively_Cons)
    then have "heap_inv U root ?h ?bs" by (intro keep hlist_set_free [OF sp]) (simp_all add: split_block_def Let_def)
    then show ?thesis using True t(1)
      by (intro exI [of _ ?h] exI [of _ ?bs] exI [of _ t]) (simp add: take_block_def payload_of_def sizeof_Block_def split_block_def Let_def)
  qed
qed

text \<open>Growing the heap by \<open>n\<close> pages: it fails and keeps the mappings, or the new pages are mapped after the old ones.\<close>

lemma morecore_inv:
  assumes inv: "heap_inv U root h bs" and k: "k \<noteq> 0" "4096 * unat k < 2 ^ 63" "unat (hp_virt_end h) + 4096 * unat k < 2 ^ 64"
  shows "\<exists>s. morecore k h = Some (0, h\<lparr>hp_vm := s\<rparr>) \<and> mapped U root (unat (hp_virt_start h)) (unat (hp_brk h)) s \<or>
    morecore k h = Some (hp_brk h, h\<lparr>hp_vm := s, hp_brk := hp_brk h + k * PAGE_SIZE\<rparr>) \<and>
      mapped U root (unat (hp_virt_start h)) (unat (hp_brk h) + 4096 * unat k) s \<and> unat (hp_brk h) + 4096 * unat k \<le> unat (hp_virt_end h)"
proof -
  let ?i = "k * PAGE_SIZE" and ?m = "mapped U root (unat (hp_virt_start h))"
  have i: "unat ?i = 4096 * unat k" using k(2) by (simp add: PAGE_SIZE_def unat_word_ariths(2) mult.commute)
  have inv': "?m (unat (hp_brk h)) (hp_vm h)" "4096 dvd unat (hp_brk h)" "unat (hp_brk h) \<le> unat (hp_virt_end h)"
    "unat (hp_virt_end h) \<le> unat (hp_virt_start h) + 2 ^ 47" "unat (hp_virt_start h) \<le> unat (hp_brk h)"
    "\<And>x. unat (hp_virt_start h) \<le> unat x \<Longrightarrow> unat x < unat (hp_virt_end h) \<Longrightarrow> pml4_index x \<in> U"
    using inv layout_le by (auto simp: heap_inv_def hlist_def)
  have i0: "?i \<noteq> 0" using i k(1) by (metis mult_eq_0_iff unat_0 unat_eq_0 zero_neq_numeral)
  have pos: "\<not> sint ?i < 0"
  proof -
    have "uint ?i = int (4096 * unat k)" by (simp only: i [symmetric] uint_nat)
    moreover have "int (4096 * unat k) < int (2 ^ 63)" using k(2) by (simp only: of_nat_less_iff)
    ultimately have "uint ?i < 2 ^ 63" by simp
    moreover have "- (2 ^ 63) \<le> uint ?i" by (rule order_trans [OF _ unsigned_greater_eq]) simp
    ultimately have "signed_take_bit 63 (uint ?i) = uint ?i" by (intro signed_take_bit_int_eq_self)
    then have "sint ?i = uint ?i" by (simp add: sint_uint)
    then show ?thesis by simp
  qed
  have nb: "unat (hp_brk h + ?i) = unat (hp_brk h) + 4096 * unat k" using i k(3) inv'(3) by (simp add: unat_word_ariths(1))
  have al: "align_down (hp_brk h + PAGE_SIZE - 1) = hp_brk h"
  proof -
    obtain q where q: "unat (hp_brk h) = 4096 * q" using inv'(2) by (rule dvdE)
    have "0 < unat k" using k(1) by (simp add: unat_gt_0)
    then have "unat (hp_brk h) + 4095 < 2 ^ 64" using k(3) inv'(3) by linarith
    then have "unat (align_down (hp_brk h + PAGE_SIZE - 1)) = (4096 * q + 4095) div 4096 * 4096" using unat_align_up by (simp add: q)
    also have "\<dots> = unat (hp_brk h)" by (simp add: q)
    finally show ?thesis by (simp add: word_unat_eq_iff)
  qed
  have m1: "hp_brk h \<noteq> - 1"
  proof
    assume "hp_brk h = - 1"
    then have "hp_brk h = 0xFFFFFFFFFFFFFFFF" by simp
    then have "unat (hp_brk h) = 18446744073709551615" by (simp only: unat_numeral) simp
    then show False using inv'(2) by simp
  qed
  show ?thesis
  proof (cases "hp_virt_end h < hp_brk h + ?i")
    case True
    then have "sbrk ?i h = Some (- 1, h)" using pos i0 by (simp add: sbrk_def)
    then have "morecore k h = Some (0, h\<lparr>hp_vm := hp_vm h\<rparr>)" using k(1) by (simp add: morecore_def)
    then show ?thesis using inv'(1) by blast
  next
    case False
    then have le: "unat (hp_brk h) + 4096 * unat k \<le> unat (hp_virt_end h)" using nb by (simp add: word_less_nat_alt)
    have "\<exists>b s. map_range (hp_brk h) (hp_brk h + ?i) (hp_vm h) = Some (b, s) \<and> ?m (if b then unat (hp_brk h + ?i) else unat (hp_brk h)) s"
      by (rule map_range_mapped [OF inv'(1,2)]) (use inv' nb le in auto)
    then obtain b s where r: "map_range (hp_brk h) (hp_brk h + ?i) (hp_vm h) = Some (b, s)"
      "?m (if b then unat (hp_brk h) + 4096 * unat k else unat (hp_brk h)) s" unfolding nb by blast
    show ?thesis
    proof (cases b)
      case True
      then have "sbrk ?i h = Some (hp_brk h, h\<lparr>hp_vm := s, hp_brk := hp_brk h + ?i\<rparr>)" using pos i0 False r(1) al by (simp add: sbrk_def Let_def)
      then have "morecore k h = Some (hp_brk h, h\<lparr>hp_vm := s, hp_brk := hp_brk h + ?i\<rparr>)" using k(1) m1 by (simp add: morecore_def)
      then show ?thesis using r(2) True le by (intro exI [of _ s]) simp
    next
      case False
      then have "sbrk ?i h = Some (- 1, h\<lparr>hp_vm := s\<rparr>)" using pos i0 \<open>\<not> hp_virt_end h < hp_brk h + ?i\<close> r(1) al by (simp add: sbrk_def Let_def)
      then have "morecore k h = Some (0, h\<lparr>hp_vm := s\<rparr>)" using k(1) by (simp add: morecore_def)
      then show ?thesis using r(2) False by (intro exI [of _ s]) simp
    qed
  qed
qed

text \<open>A block that fits is taken at once.\<close>

lemma allocate_fit:
  assumes inv: "heap_inv U root h bs" and sz: "sz \<noteq> 0" "8 dvd unat (round_up sz)"
    and fit: "find (\<lambda>(a, s, f). f \<and> round_up sz \<le> s) bs = Some (a, s, f)"
  shows "\<exists>h' bs' s'. heap_allocate sz h = Some (a + 32, h') \<and> heap_inv U root h' bs' \<and> (a, s, True) \<in> set bs \<and> round_up sz \<le> s' \<and> s' \<le> s \<and>
    used_blocks bs' = insert (a, s') (used_blocks bs) \<and> hp_virt_start h' = hp_virt_start h \<and> hp_brk h' = hp_brk h"
proof -
  have hl: "hlist h bs" "bs \<noteq> []" using inv by (simp_all add: heap_inv_def)
  obtain xs ys where bs: "bs = xs @ (a, s, f) # ys" and f: f "round_up sz \<le> s"
    using fit by (auto simp: find_Some_iff) (metis id_take_nth_drop)
  have nz: "x \<noteq> 0" if "x \<in> fst ` set bs" for x using layout_mem [OF hlistD(3) [OF hl(1)]] hlistD(4) [OF hl(1)] that by fastforce
  have "find_fit (hp_head h) (round_up sz) h = Some a" using find_fit_list [OF hlistD(2) [OF hl(1)] nz] fit by (simp add: hlistD(1) [OF hl(1)])
  moreover have "a \<noteq> 0" "hp_head h \<noteq> 0" using nz bs hlistD(1) [OF hl(1)] first_addr_mem [OF hl(2)] by auto
  ultimately have al: "heap_allocate sz h = Some (take_block a (round_up sz) h)" using sz(1) by (subst heap_allocate.simps) simp
  have "heap_inv U root h (xs @ (a, s, True) # ys)" using inv bs f(1) by simp
  from take_block_inv [OF this f(2) sz(2)] show ?thesis using f(1) bs al by auto
qed

lemma unat_pages_needed:
  assumes "unat t + 4127 < 2 ^ 64"
  shows "unat (pages_needed t) = (unat t + 4127) div 4096"
proof -
  have "pages_needed t = (t + 4127) div 4096" by (simp add: pages_needed_def sizeof_Block_def PAGE_SIZE_def add.commute)
  moreover have "unat (t + 4127) = unat t + 4127" using assms by (simp add: unat_word_ariths(1))
  ultimately show ?thesis by (simp add: unat_div)
qed

text \<open>After growing there is a block that fits, and the blocks in use are the same.\<close>

lemma extend_inv:
  assumes inv: "heap_inv U root h bs" and m: "mapped U root (unat (hp_virt_start h)) (unat (hp_brk h) + 4096 * unat k) s"
    "unat (hp_brk h) + 4096 * unat k \<le> unat (hp_virt_end h)" and k: "unat t + 32 \<le> 4096 * unat k"
    and h1: "h1 = h\<lparr>hp_vm := s, hp_brk := hp_brk h + k * PAGE_SIZE\<rparr>"
  shows "\<exists>bs'. heap_inv U root (extend_last (last_addr 0 bs) (hp_brk h) k h1) bs' \<and> used_blocks bs' = used_blocks bs \<and>
    (\<exists>a s. (a, s, True) \<in> set bs' \<and> t \<le> s)"
proof -
  have hl: "hlist h bs" "bs \<noteq> []" "coalesced bs" using inv by (simp_all add: heap_inv_def)
  obtain xs y where snoc: "bs = xs @ [y]" using hl(2) by (cases bs rule: rev_cases) auto
  obtain a sz f where y: "y = (a, sz, f)" by (cases y)
  have bs: "bs = xs @ [(a, sz, f)]" using snoc y by simp
  have la: "last_addr 0 bs = a" by (simp add: bs)
  have lim: "unat (hp_brk h) + 4096 * unat k < 2 ^ 64" using m(2) u64_less [of "hp_virt_end h"] by linarith
  then have i: "unat (k * PAGE_SIZE) = 4096 * unat k" by (simp add: PAGE_SIZE_def unat_word_ariths(2) mult.commute)
  have nb: "unat (hp_brk h + k * PAGE_SIZE) = unat (hp_brk h) + 4096 * unat k" using i lim by (simp add: unat_word_ariths(1))
  have keep: "heap_inv U root h' bs'" if "hlist h' bs'" "bs' \<noteq> []" "coalesced bs'" "hp_vm h' = s" "hp_brk h' = hp_brk h + k * PAGE_SIZE"
    "hp_virt_start h' = hp_virt_start h" "hp_virt_end h' = hp_virt_end h" for h' bs' using inv that m nb by (simp add: heap_inv_def)
  have d8: "8 dvd unat (k * PAGE_SIZE)" unfolding i by simp
  note b = hlist_block [OF hl(1) [unfolded bs]]
  show ?thesis
  proof (cases f)
    case True
    let ?h = "set_block a (\<lambda>b. b\<lparr>blk_size := blk_size b + k * PAGE_SIZE\<rparr>) h1"
    have "hlist ?h (xs @ [(a, sz + k * PAGE_SIZE, True)])"
      by (rule hlist_extend_free [of h]) (use hl(1) bs True d8 i lim h1 in simp_all)
    moreover have "coalesced (xs @ [(a, sz + k * PAGE_SIZE, True)])" using hl(3) bs True by (auto simp: coalesced_def successively_append_iff)
    ultimately have "heap_inv U root ?h (xs @ [(a, sz + k * PAGE_SIZE, True)])" by (intro keep) (simp_all add: h1)
    moreover have "unat (sz + k * PAGE_SIZE) = unat sz + 4096 * unat k" using b(11) lim i by (simp add: unat_word_ariths(1))
    then have "t \<le> sz + k * PAGE_SIZE" using k by (simp add: word_le_nat_alt)
    ultimately show ?thesis using True b(1) bs la h1
      by (intro exI [of _ "xs @ [(a, sz + k * PAGE_SIZE, True)]"]) (auto simp: extend_last_def)
  next
    case False
    let ?h = "set_block a (\<lambda>b. b\<lparr>blk_next := hp_brk h\<rparr>) (set_block (hp_brk h) (\<lambda>_. \<lparr>blk_size = k * PAGE_SIZE - sizeof_Block, blk_free = True, blk_next = 0, blk_prev = a\<rparr>) h1)"
    let ?bs = "xs @ [(a, sz, False), (hp_brk h, k * PAGE_SIZE - 32, True)]"
    have "hlist ?h ?bs" by (rule hlist_extend_new [of h]) (use hl(1) bs False d8 i lim k h1 in simp_all)
    moreover have "coalesced ?bs" using hl(3) bs False by (auto simp: coalesced_def successively_append_iff successively_Cons)
    ultimately have "heap_inv U root ?h ?bs" by (intro keep) (simp_all add: h1)
    moreover have "unat (k * PAGE_SIZE - 32) = unat (k * PAGE_SIZE) - unat (32 :: u64)" by (rule unat_sub) (use i k in \<open>simp add: word_le_nat_alt\<close>)
    then have "t \<le> k * PAGE_SIZE - 32" using k i by (simp add: word_le_nat_alt)
    ultimately show ?thesis using False b(1) bs la h1 by (intro exI [of _ ?bs]) (auto simp: extend_last_def)
  qed
qed

lemma allocate_spec:
  assumes inv: "heap_inv U root h bs" and sz: "sz \<noteq> 0" "unat sz + 7 < 2 ^ 64"
    and fit: "(a0, s0, True) \<in> set bs" "round_up sz \<le> s0"
  shows "\<exists>p h' bs' s. heap_allocate sz h = Some (p, h') \<and> heap_inv U root h' bs' \<and> p \<noteq> 0 \<and>
    used_blocks bs' = insert (header_of p, s) (used_blocks bs) \<and> unat sz \<le> unat s \<and> 8 dvd unat p \<and>
    unat (hp_virt_start h) < unat p \<and> unat p + unat s \<le> unat (hp_brk h') \<and>
    (\<forall>(b, t) \<in> used_blocks bs. unat b + 32 + unat t \<le> unat (header_of p) \<or> unat p + unat s \<le> unat b)"
proof -
  have t: "unat (round_up sz) = (unat sz + 7) div 8 * 8" using unat_round_up [OF sz(2)] .
  then have t8: "8 dvd unat (round_up sz)" "unat sz \<le> unat (round_up sz)" by (simp, linarith)
  have "find (\<lambda>(a, s, f). f \<and> round_up sz \<le> s) bs \<noteq> None" using fit by (auto simp: find_None_iff)
  then obtain a s f where f: "find (\<lambda>(a, s, f). f \<and> round_up sz \<le> s) bs = Some (a, s, f)" by auto
  obtain h' bs' s' where r: "heap_allocate sz h = Some (a + 32, h')" "heap_inv U root h' bs'" "(a, s, True) \<in> set bs" "round_up sz \<le> s'" "s' \<le> s"
    "used_blocks bs' = insert (a, s') (used_blocks bs)" "hp_virt_start h' = hp_virt_start h" "hp_brk h' = hp_brk h"
    using allocate_fit [OF inv sz(1) t8(1) f] by blast
  have hl: "hlist h bs" using inv by (simp add: heap_inv_def)
  obtain xs ys where bs: "bs = xs @ (a, s, True) # ys" using r(3) by (meson split_list)
  note b = hlist_block [OF hl [unfolded bs]] and lm = layout_mem [OF hlistD(3) [OF hl] r(3)]
  have p: "unat (a + 32) = unat a + 32" "header_of (a + 32) = a" using lm u64_less [of "hp_brk h"]
    by (simp_all add: unat_word_ariths(1) header_of_def sizeof_Block_def)
  have le: "unat (round_up sz) \<le> unat s'" "unat s' \<le> unat s" using r(4,5) by (simp_all add: word_le_nat_alt)
  have "8 dvd unat (hp_virt_start h)" using inv by (auto simp: heap_inv_def intro: dvd_trans [of 8 4096])
  then have "8 dvd unat a + 32" using layout_8 [OF hlistD(3) [OF hl] _ r(3)] by (intro dvd_add) simp_all
  moreover have "unat u + 32 + unat v \<le> unat a \<or> unat a + 32 + unat s' \<le> unat u" if h: "(u, v) \<in> used_blocks bs" for u v
  proof -
    have "(u, v, False) \<in> set xs \<or> (u, v, False) \<in> set ys" using h by (auto simp: bs used_blocks_def)
    then show ?thesis
      using layout_mem [OF layout_split(1) [OF hlistD(3) [OF hl, unfolded bs]], of u v False] b(10) [of u] le(2) by force
  qed
  moreover have "a + 32 \<noteq> 0" using p(1) by auto
  ultimately show ?thesis using r le t8(2) p lm by (intro exI [of _ "a + 32"] exI [of _ h'] exI [of _ bs'] exI [of _ s']) auto
qed

lemma heap_allocate_effect:
  assumes inv: "heap_inv U root h bs" and sz: "unat sz < 2 ^ 62" "unat (hp_virt_end h) + unat sz + 8192 < 2 ^ 64"
  shows "\<exists>p h' bs'. heap_allocate sz h = Some (p, h') \<and> heap_inv U root h' bs' \<and>
    (if p = 0 then used_blocks bs' = used_blocks bs \<and> (sz = 0 \<or> (\<forall>a s. (a, s, True) \<in> set bs \<longrightarrow> unat s < unat sz + 8))
     else \<exists>s. used_blocks bs' = insert (header_of p, s) (used_blocks bs) \<and> unat sz \<le> unat s \<and> 8 dvd unat p \<and>
       unat (hp_virt_start h) < unat p \<and> unat p + unat s \<le> unat (hp_brk h') \<and>
       (\<forall>(b, t) \<in> used_blocks bs. unat b + 32 + unat t \<le> unat (header_of p) \<or> unat p + unat s \<le> unat b))"
proof -
  let ?t = "round_up sz"
  have t: "unat ?t = (unat sz + 7) div 8 * 8" by (rule unat_round_up) (use sz in simp)
  have t8: "8 dvd unat ?t" "unat sz \<le> unat ?t" "unat ?t < unat sz + 8" unfolding t by simp_all
  have hl: "hlist h bs" "bs \<noteq> []" using inv by (simp_all add: heap_inv_def)
  have nz: "x \<noteq> 0" if "x \<in> fst ` set bs" for x using layout_mem [OF hlistD(3) [OF hl(1)]] hlistD(4) [OF hl(1)] that by fastforce
  show ?thesis
  proof (cases "sz = 0 \<or> (\<exists>a s. (a, s, True) \<in> set bs \<and> ?t \<le> s)")
    case True
    show ?thesis
    proof (cases "sz = 0")
      case True
      then have "heap_allocate sz h = Some (0, h)" by (subst heap_allocate.simps) simp
      then show ?thesis using inv True by auto
    next
      case False
      then obtain a s where "(a, s, True) \<in> set bs" "?t \<le> s" using \<open>sz = 0 \<or> _\<close> by auto
      from allocate_spec [OF inv False _ this] sz(1) show ?thesis by auto
    qed
  next
    case False
    then have none: "find (\<lambda>(a, s, f). f \<and> ?t \<le> s) bs = None" and small: "\<And>a s. (a, s, True) \<in> set bs \<Longrightarrow> unat s < unat sz + 8"
      using t8(3) by (auto simp: find_None_iff word_le_nat_alt not_le) (meson less_trans)
    let ?k = "pages_needed ?t"
    have k: "unat ?k = (unat ?t + 4127) div 4096" by (rule unat_pages_needed) (use t8(3) sz(1) in simp)
    have kb: "unat ?t + 32 \<le> 4096 * unat ?k" "4096 * unat ?k \<le> unat ?t + 4127" unfolding k by linarith+
    have "?k \<noteq> 0" using kb(1) by auto
    then obtain s where s: "morecore ?k h = Some (0, h\<lparr>hp_vm := s\<rparr>) \<and> mapped U root (unat (hp_virt_start h)) (unat (hp_brk h)) s \<or>
      morecore ?k h = Some (hp_brk h, h\<lparr>hp_vm := s, hp_brk := hp_brk h + ?k * PAGE_SIZE\<rparr>) \<and>
        mapped U root (unat (hp_virt_start h)) (unat (hp_brk h) + 4096 * unat ?k) s \<and> unat (hp_brk h) + 4096 * unat ?k \<le> unat (hp_virt_end h)"
      using morecore_inv [OF inv, of ?k] kb(2) t8(3) sz by force
    have "hp_head h \<noteq> 0" using first_addr_mem [OF hl(2)] nz hlistD(1) [OF hl(1)] by metis
    moreover have "find_fit (hp_head h) ?t h = Some 0" using find_fit_list [OF hlistD(2) [OF hl(1)] nz] none by (simp add: hlistD(1) [OF hl(1)])
    ultimately have unf: "heap_allocate sz h = (case morecore ?k h of None \<Rightarrow> None
          | Some (new_mem, h1) \<Rightarrow> if new_mem = 0 then Some (0, h1)
              else case last_block (hp_head h1) h1 of None \<Rightarrow> None
                | Some tail \<Rightarrow> heap_allocate sz (extend_last tail new_mem ?k h1))"
      using False by (subst heap_allocate.simps) simp
    from s show ?thesis
    proof (elim disjE conjE)
      assume r: "morecore ?k h = Some (0, h\<lparr>hp_vm := s\<rparr>)" "mapped U root (unat (hp_virt_start h)) (unat (hp_brk h)) s"
      then have "heap_allocate sz h = Some (0, h\<lparr>hp_vm := s\<rparr>)" by (simp add: unf)
      moreover have "heap_inv U root (h\<lparr>hp_vm := s\<rparr>) bs" using inv r(2) by (simp add: heap_inv_def hlist_def)
      ultimately show ?thesis using small by auto
    next
      let ?h1 = "h\<lparr>hp_vm := s, hp_brk := hp_brk h + ?k * PAGE_SIZE\<rparr>"
      assume r: "morecore ?k h = Some (hp_brk h, ?h1)" "mapped U root (unat (hp_virt_start h)) (unat (hp_brk h) + 4096 * unat ?k) s"
        "unat (hp_brk h) + 4096 * unat ?k \<le> unat (hp_virt_end h)"
      have "last_block (hp_head ?h1) ?h1 = Some (last_addr 0 bs)"
        using last_block_list [of ?h1 0 bs] hlistD(1,2) [OF hl(1)] nz hl(2) by simp
      moreover have "hp_brk h \<noteq> 0" using layout_le [OF hlistD(3) [OF hl(1)]] hlistD(4) [OF hl(1)] by auto
      ultimately have al: "heap_allocate sz h = heap_allocate sz (extend_last (last_addr 0 bs) (hp_brk h) ?k ?h1)" by (simp add: unf r(1))
      obtain bs1 a1 s1 where e: "heap_inv U root (extend_last (last_addr 0 bs) (hp_brk h) ?k ?h1) bs1" "used_blocks bs1 = used_blocks bs"
        "(a1, s1, True) \<in> set bs1" "?t \<le> s1" using extend_inv [OF inv r(2,3) kb(1) refl] by blast
      have st: "hp_virt_start (extend_last (last_addr 0 bs) (hp_brk h) ?k ?h1) = hp_virt_start h" by (simp add: extend_last_def)
      have "sz \<noteq> 0" "unat sz + 7 < 2 ^ 64" using False sz(1) by auto
      from allocate_spec [OF e(1) this e(3,4)] show ?thesis unfolding al st e(2) by auto
    qed
  qed
qed

section \<open>Freeing a block\<close>

lemma heap_fields_merge [simp]: "hp_vm (merge_next a h) = hp_vm h" "hp_brk (merge_next a h) = hp_brk h" "hp_virt_start (merge_next a h) = hp_virt_start h"
  "hp_virt_end (merge_next a h) = hp_virt_end h" "hp_vm (merge_prev a h) = hp_vm h" "hp_brk (merge_prev a h) = hp_brk h"
  "hp_virt_start (merge_prev a h) = hp_virt_start h" "hp_virt_end (merge_prev a h) = hp_virt_end h"
  by (simp_all add: merge_next_def merge_prev_def Let_def)

lemma merge_next_list:
  assumes hl: "hlist h (xs @ (a, s, True) # ys)" and co: "coalesced xs" "coalesced ys"
  shows "\<exists>s' zs. hlist (merge_next a h) (xs @ (a, s', True) # zs) \<and> coalesced zs \<and> (zs = [] \<or> \<not> snd (snd (hd zs))) \<and> used_blocks zs = used_blocks ys"
proof (cases "ys = [] \<or> \<not> snd (snd (hd ys))")
  case True
  then show ?thesis using merge_next_same [OF hl True] hl co by auto
next
  case False
  then obtain c t zs where ys: "ys = (c, t, True) # zs" by (cases ys) auto
  have "coalesced zs" "zs = [] \<or> \<not> snd (snd (hd zs))" using co(2) ys by (auto simp: coalesced_def successively_Cons)
  then show ?thesis using hlist_merge_next [OF hl [unfolded ys]] ys by auto
qed

lemma merge_prev_list:
  assumes hl: "hlist h (xs @ (a, s, True) # ys)" and co: "coalesced xs" "coalesced ys" "ys = [] \<or> \<not> snd (snd (hd ys))"
  shows "\<exists>bs. hlist (merge_prev a h) bs \<and> bs \<noteq> [] \<and> coalesced bs \<and> used_blocks bs = used_blocks xs \<union> used_blocks ys"
proof (cases "xs = [] \<or> \<not> snd (snd (last xs))")
  case True
  have "coalesced (xs @ (a, s, True) # ys)" using True co by (auto simp: coalesced_def successively_append_iff successively_Cons)
  then show ?thesis using merge_prev_same [OF hl True] hl by (intro exI [of _ "xs @ (a, s, True) # ys"]) simp
next
  case False
  then obtain c t ws where xs: "xs = ws @ [(c, t, True)]" by (cases xs rule: rev_cases) auto
  have "coalesced ws" "ws = [] \<or> \<not> snd (snd (last ws))" using co(1) xs by (auto simp: coalesced_def successively_append_iff)
  then have "coalesced (ws @ (c, t + (32 + s), True) # ys)" using co by (auto simp: coalesced_def successively_append_iff successively_Cons)
  then show ?thesis using hlist_merge_prev [of h ws c t a s True ys] hl xs by (intro exI [of _ "ws @ (c, t + (32 + s), True) # ys"]) simp
qed


text \<open>
  C30. Freeing a block in use takes exactly that block out of the blocks in use: every other
  block stays where it is, and the list is again without gaps and without neighbouring free
  blocks, whatever the state of the neighbours was. The mappings and the break are unchanged.
\<close>

theorem heap_free_correct:
  assumes inv: "heap_inv U root h bs" and p: "(header_of p, s) \<in> used_blocks bs" "p \<noteq> 0"
  shows "\<exists>bs'. heap_inv U root (heap_free p h) bs' \<and> used_blocks bs' = used_blocks bs - {(header_of p, s)} \<and>
    hp_vm (heap_free p h) = hp_vm h \<and> hp_brk (heap_free p h) = hp_brk h"
proof -
  let ?a = "header_of p" and ?h = "set_block (header_of p) (\<lambda>b. b\<lparr>blk_free := True\<rparr>) h"
  have hl: "hlist h bs" "coalesced bs" using inv by (simp_all add: heap_inv_def)
  obtain xs ys where bs: "bs = xs @ (?a, s, False) # ys" using p(1) by (auto simp: used_blocks_def) (meson split_list)
  have d: "distinct (map fst bs)" using layout_distinct [OF hlistD(3) [OF hl(1)]] .
  then have nin: "(?a, s) \<notin> used_blocks xs" "(?a, s) \<notin> used_blocks ys" by (auto simp: bs used_blocks_def image_iff)
  have co: "coalesced xs" "coalesced ys" using hl(2) bs by (auto simp: coalesced_def successively_append_iff successively_Cons)
  note f = hlist_set_free [OF hl(1) [unfolded bs], of True]
  obtain s' zs where n: "hlist (merge_next ?a ?h) (xs @ (?a, s', True) # zs)" "coalesced zs" "zs = [] \<or> \<not> snd (snd (hd zs))" "used_blocks zs = used_blocks ys"
    using merge_next_list [OF f co] by blast
  obtain bs' where r: "hlist (merge_prev ?a (merge_next ?a ?h)) bs'" "bs' \<noteq> []" "coalesced bs'" "used_blocks bs' = used_blocks xs \<union> used_blocks zs"
    using merge_prev_list [OF n(1) co(1) n(2,3)] by blast
  have e: "heap_free p h = merge_prev ?a (merge_next ?a ?h)" using p(2) by (simp add: heap_free_def Let_def)
  have "heap_inv U root (heap_free p h) bs'" using inv r(1-3) by (simp add: heap_inv_def e)
  moreover have "used_blocks bs' = used_blocks bs - {(?a, s)}" using r(4) n(4) nin by (auto simp: bs)
  ultimately show ?thesis by (auto simp: e)
qed

section \<open>Requests beyond the address space\<close>

text \<open>
  \<open>sbrk\<close> compares the new break with the end of the heap after an addition that can wrap around:
  a large enough increment passes the test and is reported as a success although not a single
  page has been mapped, and the break moves below the heap.
\<close>

lemma sbrk_wraps:
  assumes "0 \<le> sint inc" "inc \<noteq> 0" "2 ^ 64 \<le> unat (hp_brk h) + unat inc" "4096 dvd unat (hp_brk h)" "unat (hp_brk h) + 4096 < 2 ^ 64"
    "hp_brk h \<le> hp_virt_end h"
  shows "sbrk inc h = Some (hp_brk h, h\<lparr>hp_brk := hp_brk h + inc\<rparr>) \<and> hp_brk h + inc < hp_brk h"
proof -
  have w: "unat (hp_brk h + inc) = unat (hp_brk h) + unat inc - 2 ^ 64"
    using assms(3) u64_less [of "hp_brk h"] u64_less [of inc] by (simp add: unat_word_ariths(1) le_mod_geq mod_less)
  then have lt: "hp_brk h + inc < hp_brk h" using u64_less [of inc] assms(3) by (simp add: word_less_nat_alt)
  obtain q where q: "unat (hp_brk h) = 4096 * q" using assms(4) by (rule dvdE)
  have "unat (hp_brk h) + 4095 < 2 ^ 64" using assms(5) by simp
  then have "unat (align_down (hp_brk h + PAGE_SIZE - 1)) = unat (hp_brk h)" using unat_align_up [of "hp_brk h"] by (simp add: q)
  then have al: "align_down (hp_brk h + PAGE_SIZE - 1) = hp_brk h" by (simp add: word_unat_eq_iff)
  have "map_range (hp_brk h) (hp_brk h + inc) (hp_vm h) = Some (True, hp_vm h)" using lt by (subst map_range.simps) (simp add: not_less_iff_gr_or_eq)
  then show ?thesis using assms(1,2,6) lt al by (auto simp: sbrk_def Let_def)
qed

text \<open>Rounding up the largest sizes gives 0, so that such a request is served from any free block.\<close>

lemma round_up_wraps: "round_up (- 1) = 0" "round_up (- 7) = 0"
  by (simp_all add: round_up_def ALIGN_def)

section \<open>The constructor\<close>

text \<open>A constructed heap, when its first page could be had, is one free block.\<close>

lemma morecore_first:
  assumes ok: "space_ok U root s" "vm_pml4 s = Some root" and a: "4096 dvd unat lo" "0 < unat lo" "unat lo + 4096 \<le> unat hi"
    "unat hi + 4096 < 2 ^ 64" "unat hi \<le> unat lo + 2 ^ 47" and U: "\<And>x. unat lo \<le> unat x \<Longrightarrow> unat x < unat hi \<Longrightarrow> pml4_index x \<in> U"
    and h: "Heap lo hi s mem = Some h" "hp_head h \<noteq> 0"
  shows "heap_inv U root h [(lo, 4064, True)]"
proof -
  let ?h = "\<lparr>hp_virt_start = lo, hp_virt_end = hi, hp_brk = lo, hp_head = 0, hp_blocks = mem, hp_vm = s\<rparr>"
  have m0: "mapped U root (unat lo) (unat lo) s" using ok by (auto simp: mapped_def)
  have n: "unat (lo + PAGE_SIZE) = unat lo + 4096" using a(3) u64_less [of hi] by (simp add: PAGE_SIZE_def unat_word_ariths(1))
  obtain q where q: "unat lo = 4096 * q" using a(1) by (rule dvdE)
  have al: "align_down (lo + PAGE_SIZE - 1) = lo" using unat_align_up [of lo] a(3) u64_less [of hi] by (simp add: q word_unat_eq_iff)
  have "\<exists>b t. map_range lo (lo + PAGE_SIZE) s = Some (b, t) \<and> mapped U root (unat lo) (if b then unat (lo + PAGE_SIZE) else unat lo) t"
    by (rule map_range_mapped [OF m0 a(1)]) (use a U n in auto)
  then obtain b t where r: "map_range lo (lo + PAGE_SIZE) s = Some (b, t)" "mapped U root (unat lo) (if b then unat lo + 4096 else unat lo) t" unfolding n by blast
  have le: "\<not> hi < lo + PAGE_SIZE" using n a(3) by (simp add: word_less_nat_alt)
  have pg: "\<not> sint PAGE_SIZE < 0" "PAGE_SIZE \<noteq> 0" by (simp_all add: PAGE_SIZE_def)
  have sb: "sbrk PAGE_SIZE ?h = Some (if b then (lo, ?h\<lparr>hp_vm := t, hp_brk := lo + PAGE_SIZE\<rparr>) else (- 1, ?h\<lparr>hp_vm := t\<rparr>))"
    using r(1) le pg al by (cases b) (simp_all add: sbrk_def Let_def)
  have lo: "lo \<noteq> 0" "lo \<noteq> - 1"
  proof -
    show "lo \<noteq> 0" using a(2) by auto
    show "lo \<noteq> - 1"
    proof
      assume "lo = - 1"
      then have "lo + PAGE_SIZE = 4095" by (simp add: PAGE_SIZE_def)
      then have "unat (lo + PAGE_SIZE) = 4095" by simp
      then show False using n by simp
    qed
  qed
  have b: b using h sb lo by (cases b) (auto simp: Heap_def morecore_def Let_def)
  have h': "h = set_block lo (\<lambda>_. \<lparr>blk_size = 4064, blk_free = True, blk_next = 0, blk_prev = 0\<rparr>) (?h\<lparr>hp_vm := t, hp_brk := lo + PAGE_SIZE, hp_head := lo\<rparr>)"
    using h(1) sb lo b by (simp add: Heap_def morecore_def Let_def PAGE_SIZE_def sizeof_Block_def)
  have "4096 dvd unat (lo + PAGE_SIZE)" unfolding n using a(1) by simp
  then show ?thesis using r(2) b a U n by (simp add: heap_inv_def hlist_def h' coalesced_def)
qed

definition demo_heap :: heap where
  "demo_heap = the (Heap KERNEL_HEAP_BASE KERNEL_HEAP_END small_vm (\<lambda>_. \<lparr>blk_size = 0, blk_free = False, blk_next = 0, blk_prev = 0\<rparr>))"

lemma kernel_heap_index: "unat KERNEL_HEAP_BASE \<le> unat x \<Longrightarrow> unat x < unat KERNEL_HEAP_END \<Longrightarrow> pml4_index x = 511"
proof -
  assume x: "unat KERNEL_HEAP_BASE \<le> unat x" "unat x < unat KERNEL_HEAP_END"
  have "unat (pml4_index x) = unat x div 2 ^ 39 mod 512"
  proof -
    have "(0x1FF :: u64) = mask 9" by (simp add: mask_eq_exp_minus_1)
    then have "pml4_index x = take_bit 9 (drop_bit 39 x)" by (simp add: pml4_index_def take_bit_eq_mask)
    then show ?thesis by (simp add: take_bit_eq_mod drop_bit_eq_div unat_mod unat_div)
  qed
  moreover have "unat x div 2 ^ 39 = 33554431" using x by (simp add: KERNEL_HEAP_BASE_def KERNEL_HEAP_END_def KERNEL_HEAP_SIZE_def)
  ultimately have "unat (pml4_index x) = unat (511 :: u64)" by simp
  then show ?thesis by (simp only: word_unat_eq_iff)
qed

lemma small_heap_page: "fst (map_page KERNEL_HEAP_BASE (Some 0x101000) (Present OR Writable) (small_vm\<lparr>vm_pmm := pmm8 0x03 6\<rparr>))"
  by (simp add: map_page_def map_in_table_def get_or_create_table_def small_vm_def VirtualMemoryManager_def rd_def vm_allocate_def
    Let_def physical_to_virtual_def DIRECT_MAP_BASE_def zero_page_def wr_def entry_to_phys_def frame_def in_words_def
    Present_def User_def Writable_def pml4_index_def pdpt_index_def pd_index_def pt_index_def KERNEL_HEAP_BASE_def
    pmm8_allocate pmm8_allocate4)

lemma demo_heap_inv: "heap_inv {511} 0x100000 demo_heap [(KERNEL_HEAP_BASE, 4064, True)]" "hp_virt_end demo_heap = KERNEL_HEAP_END"
proof -
  let ?B = "\<lambda>_ :: u64. \<lparr>blk_size = 0, blk_free = False, blk_next = 0, blk_prev = 0\<rparr>"
  let ?h = "\<lparr>hp_virt_start = KERNEL_HEAP_BASE, hp_virt_end = KERNEL_HEAP_END, hp_brk = KERNEL_HEAP_BASE, hp_head = 0, hp_blocks = ?B, hp_vm = small_vm\<rparr>"
  have al: "vm_allocate small_vm = (Some 0x101000, small_vm\<lparr>vm_pmm := pmm8 0x03 6\<rparr>)"
    by (simp add: vm_allocate_def small_vm_def VirtualMemoryManager_def pmm8_allocate)
  obtain t where t: "map_page KERNEL_HEAP_BASE (Some 0x101000) (Present OR Writable) (small_vm\<lparr>vm_pmm := pmm8 0x03 6\<rparr>) = (True, t)"
    using small_heap_page by (cases "map_page KERNEL_HEAP_BASE (Some 0x101000) (Present OR Writable) (small_vm\<lparr>vm_pmm := pmm8 0x03 6\<rparr>)") simp
  have one: "map_range (KERNEL_HEAP_BASE + PAGE_SIZE) (KERNEL_HEAP_BASE + PAGE_SIZE) t = Some (True, t)" by (subst map_range.simps) simp
  have "KERNEL_HEAP_BASE < KERNEL_HEAP_BASE + PAGE_SIZE" by (simp add: KERNEL_HEAP_BASE_def PAGE_SIZE_def)
  then have "map_range KERNEL_HEAP_BASE (KERNEL_HEAP_BASE + PAGE_SIZE) small_vm = Some (True, t)" using al t one by (subst map_range.simps) simp
  moreover have "align_down (KERNEL_HEAP_BASE + PAGE_SIZE - 1) = KERNEL_HEAP_BASE" by (simp add: KERNEL_HEAP_BASE_def PAGE_SIZE_def align_down_def)
  moreover have "\<not> sint PAGE_SIZE < 0" "PAGE_SIZE \<noteq> 0" "\<not> KERNEL_HEAP_END < KERNEL_HEAP_BASE + PAGE_SIZE"
    by (simp_all add: PAGE_SIZE_def KERNEL_HEAP_END_def KERNEL_HEAP_BASE_def KERNEL_HEAP_SIZE_def)
  ultimately have "sbrk PAGE_SIZE ?h = Some (KERNEL_HEAP_BASE, ?h\<lparr>hp_vm := t, hp_brk := KERNEL_HEAP_BASE + PAGE_SIZE\<rparr>)" by (simp add: sbrk_def Let_def)
  moreover have "KERNEL_HEAP_BASE \<noteq> 0" "KERNEL_HEAP_BASE \<noteq> - 1" by (simp_all add: KERNEL_HEAP_BASE_def)
  ultimately obtain h where h: "Heap KERNEL_HEAP_BASE KERNEL_HEAP_END small_vm ?B = Some h" "hp_head h = KERNEL_HEAP_BASE" "hp_virt_end h = KERNEL_HEAP_END"
    by (simp add: Heap_def morecore_def Let_def)
  have "path {511} q \<Longrightarrow> path UNIV q" for q by (simp add: path_def)
  then have ok: "space_ok {511} 0x100000 small_vm"
    using small_vm_ok(1) unfolding space_ok_def owned_def by blast
  have "heap_inv {511} 0x100000 h [(KERNEL_HEAP_BASE, 4064, True)]"
    by (rule morecore_first [OF ok small_vm_ok(2) _ _ _ _ _ _ h(1)])
      (use kernel_heap_index h(2) in \<open>simp_all add: KERNEL_HEAP_BASE_def KERNEL_HEAP_END_def KERNEL_HEAP_SIZE_def\<close>)
  then show "heap_inv {511} 0x100000 demo_heap [(KERNEL_HEAP_BASE, 4064, True)]" "hp_virt_end demo_heap = KERNEL_HEAP_END"
    using h by (simp_all add: demo_heap_def)
qed


text \<open>The first block of the list above, in use.\<close>

lemma demo_heap_used: "heap_inv {511} 0x100000 (set_block KERNEL_HEAP_BASE (\<lambda>b. b\<lparr>blk_free := False\<rparr>) demo_heap) [(KERNEL_HEAP_BASE, 4064, False)]"
  using hlist_set_free [of demo_heap "[]" KERNEL_HEAP_BASE 4064 True "[]" False] demo_heap_inv(1)
  by (simp add: heap_inv_def coalesced_def)

theorem heap_free_correct_witness:
  "\<exists>bs'. heap_inv {511} 0x100000 (heap_free (KERNEL_HEAP_BASE + 32) (set_block KERNEL_HEAP_BASE (\<lambda>b. b\<lparr>blk_free := False\<rparr>) demo_heap)) bs' \<and>
     used_blocks bs' = {}"
proof -
  have a: "header_of (KERNEL_HEAP_BASE + 32) = KERNEL_HEAP_BASE" "KERNEL_HEAP_BASE + 32 \<noteq> 0"
    by (simp_all add: header_of_def sizeof_Block_def KERNEL_HEAP_BASE_def)
  show ?thesis using heap_free_correct [OF demo_heap_used, of "KERNEL_HEAP_BASE + 32" 4064] a by auto
qed

end
