(* ===== verification/Process_Table.thy ===== *)
theory Process_Table
  imports Kernel_Heap File_Table
begin

text \<open>
  Processes (\<open>include/process.cpp\<close>): the process table, the round-robin scheduler, sleeping and
  waking, \<open>exit\<close> and \<open>wait\<close>, and both kinds of \<open>fork\<close>. \<open>Process *\<close> is an index into the table,
  \<open>None\<close> being \<open>nullptr\<close>, and the table is beside the components it uses: the heap with its
  virtual memory, the open files, and the memory of the kernel stacks, a function from addresses
  to 64-bit words.
\<close>

section \<open>State\<close>

record TrapFrame =
  tf_r15 :: u64
  tf_r14 :: u64
  tf_r13 :: u64
  tf_r12 :: u64
  tf_r11 :: u64
  tf_r10 :: u64
  tf_r9 :: u64
  tf_r8 :: u64
  tf_rbp :: u64
  tf_rbx :: u64
  tf_rax :: u64
  tf_rcx :: u64
  tf_rdx :: u64
  tf_rsi :: u64
  tf_rdi :: u64
  tf_user_rsp :: u64

record ProcessContext =
  cx_rbp :: u64
  cx_rbx :: u64
  cx_r12 :: u64
  cx_r13 :: u64
  cx_r14 :: u64
  cx_r15 :: u64
  cx_rip :: u64

datatype ProcessState = Unused | Embryo | Runnable | Running | Sleeping | Zombie

text \<open>A sleep channel is any address; the addresses of processes are the ones \<open>wait\<close> sleeps on.\<close>

datatype Channel = NoChannel | ProcessChannel nat | AddressChannel u64

record Process =
  pr_pid :: u64
  pr_state :: ProcessState
  pr_context :: u64
  pr_kernel_stack :: u64
  pr_entry :: u64
  pr_entry_arg :: u64
  pr_name :: bytes
  pr_pml4 :: PhysicalAddress
  pr_sleep_channel :: Channel
  pr_parent :: "nat option"
  pr_exit_status :: u32
  pr_trap_frame :: u64
  pr_files :: "nat option list"

definition MAX_PROCESSES :: nat where "MAX_PROCESSES = 64"
definition NUM_OPEN_FILES :: nat where "NUM_OPEN_FILES = 16"
definition KERNEL_STACK_SIZE :: u64 where "KERNEL_STACK_SIZE = 16384"

text \<open>
  \<open>k_stacks\<close> is the memory of the kernel stacks, \<open>k_rsp0\<close> the stack pointer given to the processor for
  entries from user mode and \<open>k_interrupts\<close> the interrupt flag.
\<close>

record 's kernel =
  k_procs :: "Process list"
  k_next_pid :: u32
  k_initialized :: bool
  k_current :: "nat option"
  k_scheduler_context :: u64
  k_init_proc :: "nat option"
  k_heap :: heap
  k_stacks :: "u64 \<Rightarrow> u64"
  k_fs :: "'s filesys"
  k_rsp0 :: u64
  k_interrupts :: bool

definition stack_top :: "u64 \<Rightarrow> u64" where "stack_top base = base + KERNEL_STACK_SIZE"

definition set_proc :: "nat \<Rightarrow> (Process \<Rightarrow> Process) \<Rightarrow> 's kernel \<Rightarrow> 's kernel" where
  "set_proc i f k = k\<lparr>k_procs := upd_at i f (k_procs k)\<rparr>"

definition set_vm :: "(vm \<Rightarrow> vm) \<Rightarrow> 's kernel \<Rightarrow> 's kernel" where
  "set_vm f k = k\<lparr>k_heap := (k_heap k)\<lparr>hp_vm := f (hp_vm (k_heap k))\<rparr>\<rparr>"

text \<open>Structures in memory, word by word.\<close>

fun store_words :: "u64 \<Rightarrow> u64 list \<Rightarrow> (u64 \<Rightarrow> u64) \<Rightarrow> (u64 \<Rightarrow> u64)" where
  "store_words a [] m = m"
| "store_words a (w # ws) m = store_words (a + 8) ws (m(a := w))"

definition context_words :: "ProcessContext \<Rightarrow> u64 list" where
  "context_words c = [cx_rbp c, cx_rbx c, cx_r12 c, cx_r13 c, cx_r14 c, cx_r15 c, cx_rip c]"

definition frame_words :: "TrapFrame \<Rightarrow> u64 list" where
  "frame_words t = [tf_r15 t, tf_r14 t, tf_r13 t, tf_r12 t, tf_r11 t, tf_r10 t, tf_r9 t, tf_r8 t, tf_rbp t, tf_rbx t,
     tf_rax t, tf_rcx t, tf_rdx t, tf_rsi t, tf_rdi t, tf_user_rsp t]"

definition load_frame :: "(u64 \<Rightarrow> u64) \<Rightarrow> u64 \<Rightarrow> TrapFrame" where
  "load_frame m a = \<lparr>tf_r15 = m a, tf_r14 = m (a + 8), tf_r13 = m (a + 16), tf_r12 = m (a + 24), tf_r11 = m (a + 32),
     tf_r10 = m (a + 40), tf_r9 = m (a + 48), tf_r8 = m (a + 56), tf_rbp = m (a + 64), tf_rbx = m (a + 72), tf_rax = m (a + 80),
     tf_rcx = m (a + 88), tf_rdx = m (a + 96), tf_rsi = m (a + 104), tf_rdi = m (a + 112), tf_user_rsp = m (a + 120)\<rparr>"

definition load_context :: "(u64 \<Rightarrow> u64) \<Rightarrow> u64 \<Rightarrow> ProcessContext" where
  "load_context m a = \<lparr>cx_rbp = m a, cx_rbx = m (a + 8), cx_r12 = m (a + 16), cx_r13 = m (a + 24), cx_r14 = m (a + 32),
     cx_r15 = m (a + 40), cx_rip = m (a + 48)\<rparr>"

definition sizeof_ProcessContext :: u64 where "sizeof_ProcessContext = 56"
definition sizeof_TrapFrame :: u64 where "sizeof_TrapFrame = 128"
definition sizeof_UserForkFrame :: u64 where "sizeof_UserForkFrame = sizeof_ProcessContext + sizeof_TrapFrame"

text \<open>A second initialisation halts the machine, which is \<open>None\<close>.\<close>

definition process_initialize :: "heap \<Rightarrow> 's kernel \<Rightarrow> 's kernel option" where
  "process_initialize h k =
     (if k_initialized k then None
      else Some (k\<lparr>k_procs := map (\<lambda>p. p\<lparr>pr_state := Unused, pr_sleep_channel := NoChannel\<rparr>) (k_procs k),
                   k_current := None, k_heap := h, k_initialized := True\<rparr>))"

section \<open>Descriptors and resources\<close>

definition close_fd :: "nat \<Rightarrow> nat \<Rightarrow> 's kernel \<Rightarrow> 's kernel" where
  "close_fd i fd k =
     set_proc i (\<lambda>p. p\<lparr>pr_files := (pr_files p)[fd := None]\<rparr>)
       (k\<lparr>k_fs := file_close (pr_files (k_procs k ! i) ! fd) (k_fs k)\<rparr>)"

definition close_all_files :: "nat \<Rightarrow> 's kernel \<Rightarrow> 's kernel" where
  "close_all_files i k = fold (close_fd i) [0..<length (pr_files (k_procs k ! i))] k"

definition set_fd :: "nat \<Rightarrow> nat \<Rightarrow> nat option \<Rightarrow> 's kernel \<Rightarrow> 's kernel" where
  "set_fd i fd f k = set_proc i (\<lambda>p. p\<lparr>pr_files := (pr_files p)[fd := f]\<rparr>) k"

definition open_console_files :: "nat \<Rightarrow> 's kernel \<Rightarrow> bool \<times> 's kernel" where
  "open_console_files i k =
     (case file_open_console True False (k_fs k) of (f0, s0) \<Rightarrow>
      let k0 = set_fd i 0 f0 (k\<lparr>k_fs := s0\<rparr>) in
      case file_open_console False True (k_fs k0) of (f1, s1) \<Rightarrow>
      let k1 = set_fd i 1 f1 (k0\<lparr>k_fs := s1\<rparr>) in
      if f0 = None \<or> f1 = None then (False, k1)
      else case file_duplicate f1 (k_fs k1) of (f2, s2) \<Rightarrow> (True, set_fd i 2 f2 (k1\<lparr>k_fs := s2\<rparr>)))"

definition free_process_resources :: "nat \<Rightarrow> 's kernel \<Rightarrow> 's kernel" where
  "free_process_resources i k0 =
     (let k1 = close_all_files i k0;
          st = pr_kernel_stack (k_procs k1 ! i);
          k2 = (if st \<noteq> 0 then set_proc i (\<lambda>p. p\<lparr>pr_kernel_stack := 0\<rparr>) (k1\<lparr>k_heap := heap_free st (k_heap k1)\<rparr>) else k1);
          k3 = (case pr_pml4 (k_procs k2 ! i) of None \<Rightarrow> k2 | Some r \<Rightarrow> set_vm (destroy_address_space (Some r)) k2)
      in set_proc i (\<lambda>p. p\<lparr>pr_pml4 := None, pr_parent := None, pr_sleep_channel := NoChannel, pr_exit_status := 0, pr_state := Unused\<rparr>) k3)"

section \<open>Creating processes\<close>

text \<open>
  \<open>None\<close> outside is a heap allocation that does not return; the result is the new process or
  \<open>nullptr\<close>.
\<close>

definition allocate_process :: "'s kernel \<Rightarrow> (nat option \<times> 's kernel) option" where
  "allocate_process k =
     (case find (\<lambda>i. pr_state (k_procs k ! i) = Unused) [0..<length (k_procs k)] of
        None \<Rightarrow> Some (None, k)
      | Some i \<Rightarrow>
          let k1 = set_proc i (\<lambda>p. p\<lparr>pr_pid := scast (k_next_pid k), pr_state := Embryo, pr_parent := None, pr_sleep_channel := NoChannel,
                     pr_trap_frame := 0, pr_kernel_stack := 0, pr_pml4 := None, pr_files := replicate NUM_OPEN_FILES None\<rparr>)
                   (k\<lparr>k_next_pid := k_next_pid k + 1\<rparr>)
          in case heap_allocate KERNEL_STACK_SIZE (k_heap k1) of
            None \<Rightarrow> None
          | Some (stack, h) \<Rightarrow>
              if stack = 0 then Some (None, free_process_resources i (k1\<lparr>k_heap := h\<rparr>))
              else let k2 = set_proc i (\<lambda>p. p\<lparr>pr_kernel_stack := stack\<rparr>) (k1\<lparr>k_heap := h\<rparr>) in
                case create_address_space (hp_vm (k_heap k2)) of (root, s) \<Rightarrow>
                let k3 = set_proc i (\<lambda>p. p\<lparr>pr_pml4 := root\<rparr>) (set_vm (\<lambda>_. s) k2) in
                if root = None then Some (None, free_process_resources i k3) else Some (Some i, k3))"

definition kstring16 :: "bytes \<Rightarrow> bytes" where
  "kstring16 s = take 15 (takeWhile (\<lambda>c. c \<noteq> 0) s)"

definition create_process :: "u64 \<Rightarrow> bytes \<Rightarrow> u64 \<Rightarrow> u64 \<Rightarrow> 's kernel \<Rightarrow> (nat option \<times> 's kernel) option" where
  "create_process entry name arg trampoline k =
     (case allocate_process k of
        None \<Rightarrow> None
      | Some (None, k1) \<Rightarrow> Some (None, k1)
      | Some (Some i, k1) \<Rightarrow>
          (case open_console_files i k1 of
             (False, k2) \<Rightarrow> Some (None, free_process_resources i k2)
           | (True, k2) \<Rightarrow>
               let cx = stack_top (pr_kernel_stack (k_procs k2 ! i)) - sizeof_ProcessContext;
                   k3 = k2\<lparr>k_stacks := store_words cx
                     (context_words \<lparr>cx_rbp = 0, cx_rbx = 0, cx_r12 = 0, cx_r13 = 0, cx_r14 = 0, cx_r15 = 0, cx_rip = trampoline\<rparr>) (k_stacks k2)\<rparr>
               in Some (Some i, set_proc i (\<lambda>p. p\<lparr>pr_entry := entry, pr_entry_arg := arg, pr_name := kstring16 name,
                    pr_context := cx, pr_state := Runnable\<rparr>) k3)))"

definition create_init_process :: "u64 \<Rightarrow> u64 \<Rightarrow> u64 \<Rightarrow> 's kernel \<Rightarrow> (nat option \<times> 's kernel) option" where
  "create_init_process entry arg trampoline k =
     (case create_process entry [105, 110, 105, 116] arg trampoline k of
        None \<Rightarrow> None
      | Some (r, k1) \<Rightarrow> Some (r, k1\<lparr>k_init_proc := r\<rparr>))"

section \<open>Scheduling\<close>

text \<open>
  \<open>switch_context\<close> is assembly: it leaves the registers at \<open>saved\<close>, stores that address in the
  context pointer of whoever gives up the processor, and goes on as the current process.
\<close>

definition switch_context :: "nat option \<Rightarrow> u64 \<Rightarrow> 's kernel \<Rightarrow> 's kernel" where
  "switch_context prev saved k =
     (case prev of Some i \<Rightarrow> set_proc i (\<lambda>p. p\<lparr>pr_context := saved\<rparr>) k | None \<Rightarrow> k\<lparr>k_scheduler_context := saved\<rparr>)"

text \<open>The slots after \<open>start\<close> in cyclic order; \<open>start\<close> is -1, as an unsigned number, for no process.\<close>

definition candidates :: "nat option \<Rightarrow> nat list" where
  "candidates prev =
     (let start = (case prev of Some i \<Rightarrow> of_nat i | None \<Rightarrow> - 1) :: u64
      in map (\<lambda>off. unat ((start + of_nat off) mod of_nat MAX_PROCESSES)) [1..<MAX_PROCESSES + 1])"

definition next_runnable :: "nat option \<Rightarrow> 's kernel \<Rightarrow> nat option" where
  "next_runnable prev k = find (\<lambda>i. pr_state (k_procs k ! i) = Runnable) (candidates prev)"

definition run_process :: "nat \<Rightarrow> 's kernel \<Rightarrow> 's kernel" where
  "run_process i k = (set_proc i (\<lambda>p. p\<lparr>pr_state := Running\<rparr>) k)\<lparr>k_current := Some i\<rparr>"

definition enter_process :: "nat \<Rightarrow> 's kernel \<Rightarrow> 's kernel" where
  "enter_process i k =
     (let k1 = (case pr_pml4 (k_procs k ! i) of None \<Rightarrow> k | Some r \<Rightarrow> set_vm (switch_address_space (Some r)) k)
      in k1\<lparr>k_rsp0 := stack_top (pr_kernel_stack (k_procs k1 ! i))\<rparr>)"

definition schedule :: "nat option \<Rightarrow> u64 \<Rightarrow> 's kernel \<Rightarrow> 's kernel" where
  "schedule prev saved k =
     (case next_runnable prev k of
        Some i \<Rightarrow>
          let k1 = run_process i k in
          if prev = Some i then k1 else switch_context prev saved (enter_process i k1)
      | None \<Rightarrow> (case prev of None \<Rightarrow> k | Some p \<Rightarrow> switch_context (Some p) saved (k\<lparr>k_current := None\<rparr>)))"

definition yield_cpu :: "u64 \<Rightarrow> 's kernel \<Rightarrow> 's kernel" where
  "yield_cpu saved k =
     (let prev = k_current k;
          k1 = (case prev of
                  Some i \<Rightarrow> if pr_state (k_procs k ! i) = Running then set_proc i (\<lambda>p. p\<lparr>pr_state := Runnable\<rparr>) k else k
                | None \<Rightarrow> k)
      in schedule prev saved k1)"

definition tick :: "u64 \<Rightarrow> 's kernel \<Rightarrow> 's kernel" where
  "tick saved k = yield_cpu saved k"

section \<open>Sleeping\<close>

text \<open>\<open>sleep\<close> up to the switch, and what is left of it when the process runs again.\<close>

definition sleep :: "Channel \<Rightarrow> u64 \<Rightarrow> 's kernel \<Rightarrow> 's kernel" where
  "sleep chan saved k =
     (case k_current k of
        None \<Rightarrow> k
      | Some i \<Rightarrow> schedule (Some i) saved
          (set_proc i (\<lambda>p. p\<lparr>pr_sleep_channel := chan, pr_state := Sleeping\<rparr>) (k\<lparr>k_interrupts := False\<rparr>)))"

definition sleep_resume :: "nat \<Rightarrow> 's kernel \<Rightarrow> 's kernel" where
  "sleep_resume i k = (set_proc i (\<lambda>p. p\<lparr>pr_sleep_channel := NoChannel\<rparr>) k)\<lparr>k_interrupts := True\<rparr>"

definition wakeup :: "Channel \<Rightarrow> 's kernel \<Rightarrow> 's kernel" where
  "wakeup chan k =
     k\<lparr>k_procs := map (\<lambda>p. if pr_state p = Sleeping \<and> pr_sleep_channel p = chan then p\<lparr>pr_state := Runnable\<rparr> else p) (k_procs k)\<rparr>"

section \<open>Exit and wait\<close>

definition schedule_from_zombie :: "'s kernel \<Rightarrow> 's kernel" where
  "schedule_from_zombie k =
     (case next_runnable (k_current k) k of
        Some i \<Rightarrow> enter_process i (run_process i k)
      | None \<Rightarrow> k\<lparr>k_current := None\<rparr>)"

definition process_pointer :: "nat option \<Rightarrow> Channel" where
  "process_pointer p = (case p of None \<Rightarrow> NoChannel | Some i \<Rightarrow> ProcessChannel i)"

text \<open>One child in the loop of \<open>exit\<close> that hands the children of \<open>p\<close> to the first process.\<close>

definition adopt :: "nat \<Rightarrow> nat \<Rightarrow> 's kernel \<Rightarrow> 's kernel" where
  "adopt p c k =
     (let child = k_procs k ! c in
      if pr_state child = Unused \<or> pr_parent child \<noteq> Some p then k
      else let k1 = set_proc c (\<lambda>q. q\<lparr>pr_parent := k_init_proc k\<rparr>) k in
        if k_init_proc k \<noteq> None \<and> pr_state child = Zombie then wakeup (process_pointer (k_init_proc k)) k1 else k1)"

text \<open>\<open>exit\<close> outside a process halts the machine, which is \<open>None\<close>.\<close>

definition process_exit :: "u32 \<Rightarrow> 's kernel \<Rightarrow> 's kernel option" where
  "process_exit status k =
     (case k_current k of
        None \<Rightarrow> None
      | Some p \<Rightarrow>
          let k1 = close_all_files p k;
              k2 = set_proc p (\<lambda>q. q\<lparr>pr_exit_status := status, pr_state := Zombie\<rparr>) (k1\<lparr>k_interrupts := False\<rparr>);
              k3 = (case pr_parent (k_procs k2 ! p) of None \<Rightarrow> k2 | Some q \<Rightarrow> wakeup (ProcessChannel q) k2);
              k4 = fold (adopt p) [0..<length (k_procs k3)] k3
          in Some (schedule_from_zombie k4))"

text \<open>A process that returns from its entry point ends here instead.\<close>

definition trampoline_return :: "u64 \<Rightarrow> nat \<Rightarrow> 's kernel \<Rightarrow> 's kernel" where
  "trampoline_return saved p k = yield_cpu saved (set_proc p (\<lambda>q. q\<lparr>pr_state := Zombie\<rparr>) (close_all_files p k))"

datatype wait_result = Reaped u64 u32 | NoChild | Asleep

definition is_child :: "nat option \<Rightarrow> 's kernel \<Rightarrow> nat \<Rightarrow> bool" where
  "is_child p k i \<longleftrightarrow> pr_state (k_procs k ! i) \<noteq> Unused \<and> pr_parent (k_procs k ! i) = p"

text \<open>
  One round of the loop of \<open>wait\<close>: reap the first child that has exited, or find that there is no
  child, or go to sleep; a process that is woken starts the next round.
\<close>

definition wait_round :: "u64 \<Rightarrow> 's kernel \<Rightarrow> wait_result \<times> 's kernel" where
  "wait_round saved k =
     (let p = k_current k in
      case find (\<lambda>i. is_child p k i \<and> pr_state (k_procs k ! i) = Zombie) [0..<length (k_procs k)] of
        Some i \<Rightarrow> (Reaped (pr_pid (k_procs k ! i)) (pr_exit_status (k_procs k ! i)), free_process_resources i k)
      | None \<Rightarrow>
          if \<not> (\<exists>i \<in> set [0..<length (k_procs k)]. is_child p k i) then (NoChild, k)
          else (Asleep, sleep (process_pointer p) saved k))"

section \<open>Fork\<close>

text \<open>
  The user side: copy the pages, then put a copy of the parent's trap frame with \<open>rax\<close> 0 on top of the
  child's kernel stack, under it a context that resumes in \<open>fork_return\<close>.
\<close>

definition fork_user :: "nat \<Rightarrow> nat \<Rightarrow> u64 \<Rightarrow> 's kernel \<Rightarrow> u32 \<times> 's kernel" where
  "fork_user parent child fork_return k =
     (case pr_pml4 (k_procs k ! child) of child_root \<Rightarrow>
      case copy_user_pages (pr_pml4 (k_procs k ! parent)) child_root (hp_vm (k_heap k)) of
        (False, s) \<Rightarrow> (- 1, free_process_resources child (set_vm (\<lambda>_. s) k))
      | (True, s) \<Rightarrow>
          let k1 = set_vm (\<lambda>_. s) k;
              frame = stack_top (pr_kernel_stack (k_procs k1 ! child)) - sizeof_UserForkFrame;
              tf = (load_frame (k_stacks k1) (pr_trap_frame (k_procs k1 ! parent)))\<lparr>tf_rax := 0\<rparr>;
              cx = \<lparr>cx_rbp = 0, cx_rbx = 0, cx_r12 = 0, cx_r13 = 0, cx_r14 = 0, cx_r15 = 0, cx_rip = fork_return\<rparr>;
              k2 = k1\<lparr>k_stacks := store_words frame (context_words cx) (store_words (frame + sizeof_ProcessContext) (frame_words tf) (k_stacks k1))\<rparr>
          in (ucast (pr_pid (k_procs k2 ! child)),
              set_proc child (\<lambda>p. p\<lparr>pr_context := frame, pr_trap_frame := frame + sizeof_ProcessContext, pr_state := Runnable\<rparr>) k2))"

text \<open>
  The kernel side: copy the whole kernel stack and resume the child at the same place on its own
  copy. \<open>fork_capture\<close> is assembly: \<open>snap\<close> and \<open>caller_rsp\<close> are what it hands to the parent.
\<close>

definition copy_stack :: "u64 \<Rightarrow> u64 \<Rightarrow> (u64 \<Rightarrow> u64) \<Rightarrow> (u64 \<Rightarrow> u64)" where
  "copy_stack dest src m = (\<lambda>a. if in_words dest 2048 a then m (src + (a - dest)) else m a)"

definition fork_kernel :: "nat \<Rightarrow> nat \<Rightarrow> ProcessContext \<Rightarrow> u64 \<Rightarrow> 's kernel \<Rightarrow> u32 \<times> 's kernel" where
  "fork_kernel parent child snap caller_rsp k =
     (let pbase = pr_kernel_stack (k_procs k ! parent); cbase = pr_kernel_stack (k_procs k ! child);
          k1 = k\<lparr>k_stacks := copy_stack cbase pbase (k_stacks k)\<rparr>;
          cx = cbase + (caller_rsp - pbase) - sizeof_ProcessContext;
          k2 = k1\<lparr>k_stacks := store_words cx (context_words snap) (k_stacks k1)\<rparr>
      in (ucast (pr_pid (k_procs k2 ! child)), set_proc child (\<lambda>p. p\<lparr>pr_context := cx, pr_state := Runnable\<rparr>) k2))"

definition duplicate_fd :: "nat \<Rightarrow> nat \<Rightarrow> nat \<Rightarrow> 's kernel \<Rightarrow> 's kernel" where
  "duplicate_fd parent child fd k =
     (case file_duplicate (pr_files (k_procs k ! parent) ! fd) (k_fs k) of (f, s) \<Rightarrow> set_fd child fd f (k\<lparr>k_fs := s\<rparr>))"

text \<open>The result is what the parent gets; \<open>None\<close> is again an allocation that does not return.\<close>

definition fork :: "u64 \<Rightarrow> ProcessContext \<Rightarrow> u64 \<Rightarrow> 's kernel \<Rightarrow> (u32 \<times> 's kernel) option" where
  "fork fork_return snap caller_rsp k =
     (case k_current k of
        None \<Rightarrow> Some (- 1, k)
      | Some parent \<Rightarrow>
          (case allocate_process k of
             None \<Rightarrow> None
           | Some (None, k1) \<Rightarrow> Some (- 1, k1)
           | Some (Some child, k1) \<Rightarrow>
               let q = k_procs k1 ! parent;
                   k2 = set_proc child (\<lambda>p. p\<lparr>pr_entry := pr_entry q, pr_entry_arg := pr_entry_arg q, pr_name := pr_name q, pr_parent := Some parent\<rparr>) k1;
                   k3 = fold (duplicate_fd parent child) [0..<length (pr_files q)] k2
               in Some (if pr_trap_frame q \<noteq> 0 then fork_user parent child fork_return k3
                        else fork_kernel parent child snap caller_rsp k3)))"

end
