(* ===== verification/Process_Invariant.thy ===== *)
theory Process_Invariant
  imports Process_Table
begin

text \<open>
  The invariants of the process table: the descriptors of all processes account for every
  reference to an open file, at most the current process is running, and no process sleeps in
  \<open>wait\<close> beside a child that has exited.
\<close>

section \<open>Updates of the table\<close>

lemma set_proc_simps [simp]:
  "length (k_procs (set_proc i f k)) = length (k_procs k)" "k_current (set_proc i f k) = k_current k" "k_init_proc (set_proc i f k) = k_init_proc k"
  "k_fs (set_proc i f k) = k_fs k" "k_heap (set_proc i f k) = k_heap k" "k_stacks (set_proc i f k) = k_stacks k" "k_next_pid (set_proc i f k) = k_next_pid k"
  "j < length (k_procs k) \<Longrightarrow> k_procs (set_proc i f k) ! j = (if j = i then f (k_procs k ! j) else k_procs k ! j)"
  by (auto simp: set_proc_def nth_upd_at)

lemma set_vm_simps [simp]: "k_procs (set_vm f k) = k_procs k" "k_current (set_vm f k) = k_current k" "k_init_proc (set_vm f k) = k_init_proc k"
  "k_fs (set_vm f k) = k_fs k" "k_stacks (set_vm f k) = k_stacks k"
  by (simp_all add: set_vm_def)

section \<open>Descriptors and reference counts\<close>

abbreviation fd_of :: "'s kernel \<Rightarrow> nat \<Rightarrow> nat \<Rightarrow> nat option" where
  "fd_of k i fd \<equiv> pr_files (k_procs k ! i) ! fd"

abbreviation slots :: "(nat \<times> nat) set" where
  "slots \<equiv> {..<MAX_PROCESSES} \<times> {..<NUM_OPEN_FILES}"

text \<open>The number of descriptors of all processes that refer to file \<open>f\<close>.\<close>

definition fd_refs :: "'s kernel \<Rightarrow> nat \<Rightarrow> int" where
  "fd_refs k f = (\<Sum>(i, fd) \<in> slots. if fd_of k i fd = Some f then 1 else 0)"

definition fds_ok :: "'s kernel \<Rightarrow> bool" where
  "fds_ok k \<longleftrightarrow> length (k_procs k) = MAX_PROCESSES \<and> (\<forall>i < MAX_PROCESSES. length (pr_files (k_procs k ! i)) = NUM_OPEN_FILES) \<and>
     files_ok (k_fs k) \<and> (\<forall>(i, fd) \<in> slots. \<forall>f. fd_of k i fd = Some f \<longrightarrow> f < NUM_FILES) \<and>
     (\<forall>f < NUM_FILES. f_refcnt (file_table (k_fs k) ! f) = fd_refs k f)"

lemma fds_okD:
  assumes "fds_ok k"
  shows "length (k_procs k) = MAX_PROCESSES" "i < MAX_PROCESSES \<Longrightarrow> length (pr_files (k_procs k ! i)) = NUM_OPEN_FILES" "files_ok (k_fs k)"
    "i < MAX_PROCESSES \<Longrightarrow> fd < NUM_OPEN_FILES \<Longrightarrow> fd_of k i fd = Some f \<Longrightarrow> f < NUM_FILES"
    "f < NUM_FILES \<Longrightarrow> f_refcnt (file_table (k_fs k) ! f) = fd_refs k f"
  using assms unfolding fds_ok_def by auto

lemma sum_update:
  fixes g h :: "'a \<Rightarrow> int"
  assumes "finite A" "a \<in> A" "\<And>b. b \<in> A \<Longrightarrow> b \<noteq> a \<Longrightarrow> g b = h b"
  shows "sum g A = sum h A - h a + g a"
proof -
  have "sum g (A - {a}) = sum h (A - {a})" by (rule sum.cong) (use assms(3) in auto)
  then show ?thesis using sum.remove [OF assms(1,2), of g] sum.remove [OF assms(1,2), of h] by simp
qed

lemma fd_refs_cong: "(\<And>i fd. i < MAX_PROCESSES \<Longrightarrow> fd < NUM_OPEN_FILES \<Longrightarrow> fd_of k' i fd = fd_of k i fd) \<Longrightarrow> fd_refs k' f = fd_refs k f"
  unfolding fd_refs_def by (rule sum.cong) auto

lemma fd_refs_change:
  assumes "i < MAX_PROCESSES" "fd < NUM_OPEN_FILES"
    "\<And>j d. j < MAX_PROCESSES \<Longrightarrow> d < NUM_OPEN_FILES \<Longrightarrow> (j, d) \<noteq> (i, fd) \<Longrightarrow> fd_of k' j d = fd_of k j d"
  shows "fd_refs k' f = fd_refs k f - (if fd_of k i fd = Some f then 1 else 0) + (if fd_of k' i fd = Some f then 1 else 0)"
proof -
  have "fd_refs k' f = fd_refs k f - (case (i, fd) of (i, fd) \<Rightarrow> if fd_of k i fd = Some f then 1 else 0) +
    (case (i, fd) of (i, fd) \<Rightarrow> if fd_of k' i fd = Some f then 1 else 0)"
    unfolding fd_refs_def
  proof (rule sum_update)
    fix b assume b: "b \<in> slots" "b \<noteq> (i, fd)"
    obtain j d where jd: "b = (j, d)" by (cases b)
    have "fd_of k' j d = fd_of k j d" using assms(3) [of j d] b jd by auto
    then show "(case b of (i, fd) \<Rightarrow> if fd_of k' i fd = Some f then 1 else 0) = (case b of (i, fd) \<Rightarrow> if fd_of k i fd = Some f then (1 :: int) else 0)"
      by (simp add: jd)
  qed (use assms(1,2) in auto)
  then show ?thesis by simp
qed

lemma fd_refs_nonneg: "0 \<le> fd_refs k f"
  unfolding fd_refs_def by (rule sum_nonneg) auto

lemma fd_refs_pos: "i < MAX_PROCESSES \<Longrightarrow> fd < NUM_OPEN_FILES \<Longrightarrow> fd_of k i fd = Some f \<Longrightarrow> 0 < fd_refs k f"
proof -
  assume i: "i < MAX_PROCESSES" "fd < NUM_OPEN_FILES" "fd_of k i fd = Some f"
  have "(\<lambda>(i, fd). if fd_of k i fd = Some f then 1 else 0) (i, fd) \<le> fd_refs k f"
    unfolding fd_refs_def by (rule member_le_sum) (use i(1,2) in \<open>auto split: if_splits\<close>)
  then show ?thesis using i(3) by simp
qed

lemma fd_refs_zero: "fd_refs k f = 0 \<Longrightarrow> i < MAX_PROCESSES \<Longrightarrow> fd < NUM_OPEN_FILES \<Longrightarrow> fd_of k i fd \<noteq> Some f"
  using fd_refs_pos by fastforce

text \<open>States with the same descriptors and the same files.\<close>

lemma fds_ok_cong:
  assumes "fds_ok k" "k_fs k' = k_fs k" "length (k_procs k') = length (k_procs k)"
    "\<And>i. i < MAX_PROCESSES \<Longrightarrow> pr_files (k_procs k' ! i) = pr_files (k_procs k ! i)"
  shows "fds_ok k'"
proof -
  have "fd_refs k' f = fd_refs k f" for f by (rule fd_refs_cong) (simp add: assms(4))
  then show ?thesis using assms unfolding fds_ok_def by auto
qed

lemma file_close_refcnt:
  assumes ok: "files_ok s" and i: "i < NUM_FILES" "0 < f_refcnt (file_table s ! i)" and j: "j < NUM_FILES"
  shows "f_refcnt (file_table (file_close (Some i) s) ! j) = f_refcnt (file_table s ! j) - (if j = i then 1 else 0)"
proof (cases "f_refcnt (file_table s ! i) = 1")
  case True
  note c = file_close_last [OF ok i(1) True refl]
  show ?thesis using c(1) c(3) [OF j] True by (cases "j = i") (simp_all add: File_init_def)
next
  case False
  then have "file_close (Some i) s = upd_file i (\<lambda>f. f\<lparr>f_refcnt := f_refcnt f - 1\<rparr>) s"
    using i files_okD(1) [OF ok] by (simp add: file_close_def Let_def)
  then show ?thesis using i(1) files_okD(1) [OF ok] by simp
qed

lemma close_fd_ok:
  assumes ok: "fds_ok k" and i: "i < MAX_PROCESSES" "fd < NUM_OPEN_FILES"
  shows "fds_ok (close_fd i fd k)"
proof -
  let ?k = "close_fd i fd k"
  note len = fds_okD(1,2) [OF ok]
  have pr: "k_procs ?k ! j = (if j = i then (k_procs k ! i)\<lparr>pr_files := (pr_files (k_procs k ! i))[fd := None]\<rparr> else k_procs k ! j)"
    if "j < MAX_PROCESSES" for j using that len(1) by (simp add: close_fd_def)
  have fd: "fd_of ?k j d = (if j = i \<and> d = fd then None else fd_of k j d)" if "j < MAX_PROCESSES" "d < NUM_OPEN_FILES" for j d
    using pr [OF that(1)] len(2) [OF i(1)] that i by auto
  have refs: "fd_refs ?k f = fd_refs k f - (if fd_of k i fd = Some f then 1 else 0)" for f
  proof -
    have "fd_of ?k j d = fd_of k j d" if "j < MAX_PROCESSES" "d < NUM_OPEN_FILES" "(j, d) \<noteq> (i, fd)" for j d
      using fd [OF that(1,2)] that(3) by auto
    from fd_refs_change [OF i this, of f] show ?thesis using fd [OF i] by simp
  qed
  have fs: "k_fs ?k = file_close (fd_of k i fd) (k_fs k)" by (simp add: close_fd_def)
  have l: "length (k_procs ?k) = MAX_PROCESSES" "\<And>j. j < MAX_PROCESSES \<Longrightarrow> length (pr_files (k_procs ?k ! j)) = NUM_OPEN_FILES"
    using len pr by (auto simp: close_fd_def)
  have fok: "files_ok (k_fs ?k)" unfolding fs using file_close_ok [OF fds_okD(3) [OF ok]] fds_okD(4) [OF ok i] by blast
  have "f_refcnt (file_table (k_fs ?k) ! f) = fd_refs ?k f" if "f < NUM_FILES" for f
  proof (cases "fd_of k i fd")
    case None
    then show ?thesis using refs fs fds_okD(5) [OF ok that] by (simp add: file_close_def)
  next
    case (Some g)
    have g: "g < NUM_FILES" using fds_okD(4) [OF ok i Some] .
    have "0 < f_refcnt (file_table (k_fs k) ! g)" using fds_okD(5) [OF ok g] fd_refs_pos [OF i Some] by simp
    then show ?thesis using file_close_refcnt [OF fds_okD(3) [OF ok] g _ that] refs fs Some fds_okD(5) [OF ok that] by auto
  qed
  then show ?thesis unfolding fds_ok_def using l fok fd fds_okD(4) [OF ok] by auto
qed

lemma close_fd_simps:
  assumes "i < length (k_procs k)"
  shows "length (k_procs (close_fd i fd k)) = length (k_procs k)" "k_current (close_fd i fd k) = k_current k" "k_init_proc (close_fd i fd k) = k_init_proc k"
    "j < length (k_procs k) \<Longrightarrow> k_procs (close_fd i fd k) ! j =
       (if j = i then (k_procs k ! j)\<lparr>pr_files := (pr_files (k_procs k ! j))[fd := None]\<rparr> else k_procs k ! j)"
  by (simp_all add: close_fd_def)

text \<open>Closing all descriptors of a process changes nothing else in the table.\<close>

lemma close_all_effect:
  assumes ok: "fds_ok k" and i: "i < MAX_PROCESSES"
  shows "fds_ok (close_all_files i k)" "length (k_procs (close_all_files i k)) = MAX_PROCESSES"
    "k_current (close_all_files i k) = k_current k" "k_init_proc (close_all_files i k) = k_init_proc k"
    "j < MAX_PROCESSES \<Longrightarrow> k_procs (close_all_files i k) ! j =
       (if j = i then (k_procs k ! j)\<lparr>pr_files := replicate NUM_OPEN_FILES None\<rparr> else k_procs k ! j)"
proof -
  have "fds_ok (fold (close_fd i) [0..<n] k) \<and> k_current (fold (close_fd i) [0..<n] k) = k_current k \<and>
    k_init_proc (fold (close_fd i) [0..<n] k) = k_init_proc k \<and>
    (\<forall>j < MAX_PROCESSES. k_procs (fold (close_fd i) [0..<n] k) ! j =
       (if j = i then (k_procs k ! j)\<lparr>pr_files := replicate n None @ drop n (pr_files (k_procs k ! j))\<rparr> else k_procs k ! j))"
    if "n \<le> NUM_OPEN_FILES" for n
    using that
  proof (induction n)
    case (Suc n)
    let ?k = "fold (close_fd i) [0..<n] k"
    have IH: "fds_ok ?k" "k_current ?k = k_current k" "k_init_proc ?k = k_init_proc k"
      "\<And>j. j < MAX_PROCESSES \<Longrightarrow> k_procs ?k ! j = (if j = i then (k_procs k ! j)\<lparr>pr_files := replicate n None @ drop n (pr_files (k_procs k ! j))\<rparr> else k_procs k ! j)"
      using Suc by auto
    have n: "n < NUM_OPEN_FILES" using Suc.prems by simp
    have li: "i < length (k_procs ?k)" using fds_okD(1) [OF IH(1)] i by simp
    note c = close_fd_simps [OF li, where fd = n]
    have len: "length (pr_files (k_procs k ! i)) = NUM_OPEN_FILES" using fds_okD(2) [OF ok i] .
    have lst: "(replicate n None @ drop n (pr_files (k_procs k ! i)))[n := None] = replicate (Suc n) None @ drop (Suc n) (pr_files (k_procs k ! i))"
      using n len by (simp add: list_update_append Cons_nth_drop_Suc [symmetric] replicate_append_same [symmetric])
    have pj: "k_procs (close_fd i n ?k) ! j =
        (if j = i then (k_procs k ! j)\<lparr>pr_files := replicate (Suc n) None @ drop (Suc n) (pr_files (k_procs k ! j))\<rparr> else k_procs k ! j)"
      if "j < MAX_PROCESSES" for j
      using c(4) IH(4) [OF that] that fds_okD(1) [OF IH(1)] lst by (cases "j = i") (simp_all del: replicate_Suc)
    have e: "fold (close_fd i) [0..<Suc n] k = close_fd i n ?k" by simp
    show ?case unfolding e using close_fd_ok [OF IH(1) i n] c(2,3) IH(2,3) pj by simp
  qed (use ok in simp)
  from this [of NUM_OPEN_FILES] show "fds_ok (close_all_files i k)" "k_current (close_all_files i k) = k_current k"
    "k_init_proc (close_all_files i k) = k_init_proc k" "length (k_procs (close_all_files i k)) = MAX_PROCESSES"
    "j < MAX_PROCESSES \<Longrightarrow> k_procs (close_all_files i k) ! j =
       (if j = i then (k_procs k ! j)\<lparr>pr_files := replicate NUM_OPEN_FILES None\<rparr> else k_procs k ! j)"
    using fds_okD(2) [OF ok i] fds_okD(1) by (auto simp: close_all_files_def)
qed

section \<open>Operations on one slot\<close>

definition only_slot :: "nat \<Rightarrow> 's kernel \<Rightarrow> 's kernel \<Rightarrow> bool" where
  "only_slot i k k' \<longleftrightarrow> length (k_procs k') = length (k_procs k) \<and> k_current k' = k_current k \<and> k_init_proc k' = k_init_proc k \<and>
     (\<forall>j < length (k_procs k). j \<noteq> i \<longrightarrow> k_procs k' ! j = k_procs k ! j)"

lemma only_slot_refl: "only_slot i k k"
  by (simp add: only_slot_def)

lemma only_slot_trans: "only_slot i k k1 \<Longrightarrow> only_slot i k1 k2 \<Longrightarrow> only_slot i k k2"
  by (simp add: only_slot_def)

lemma only_slot_set_proc: "only_slot i k (set_proc i f k)"
  by (simp add: only_slot_def)

lemma only_slot_same: "k_procs k' = k_procs k \<Longrightarrow> k_current k' = k_current k \<Longrightarrow> k_init_proc k' = k_init_proc k \<Longrightarrow> only_slot i k k'"
  by (simp add: only_slot_def)

lemma close_all_slot:
  assumes "fds_ok k" "i < MAX_PROCESSES"
  shows "only_slot i k (close_all_files i k)"
  using close_all_effect [OF assms] fds_okD(1) [OF assms(1)] by (simp add: only_slot_def)

abbreviation no_files :: "nat option list" where
  "no_files \<equiv> replicate NUM_OPEN_FILES None"

lemma free_effect:
  assumes ok: "fds_ok k" and i: "i < MAX_PROCESSES"
  shows "fds_ok (free_process_resources i k)" "only_slot i k (free_process_resources i k)"
    "pr_state (k_procs (free_process_resources i k) ! i) = Unused" "pr_files (k_procs (free_process_resources i k) ! i) = no_files"
    "pr_kernel_stack (k_procs (free_process_resources i k) ! i) = 0" "pr_pml4 (k_procs (free_process_resources i k) ! i) = None"
    "pr_parent (k_procs (free_process_resources i k) ! i) = None"
proof -
  note c = close_all_effect [OF ok i] and cs = close_all_slot [OF ok i]
  let ?k1 = "close_all_files i k"
  define k2 where "k2 = (if pr_kernel_stack (k_procs ?k1 ! i) \<noteq> 0
    then set_proc i (\<lambda>p. p\<lparr>pr_kernel_stack := 0\<rparr>) (?k1\<lparr>k_heap := heap_free (pr_kernel_stack (k_procs ?k1 ! i)) (k_heap ?k1)\<rparr>) else ?k1)"
  define k3 where "k3 = (case pr_pml4 (k_procs k2 ! i) of None \<Rightarrow> k2 | Some r \<Rightarrow> set_vm (destroy_address_space (Some r)) k2)"
  have e: "free_process_resources i k = set_proc i (\<lambda>p. p\<lparr>pr_pml4 := None, pr_parent := None, pr_sleep_channel := NoChannel, pr_exit_status := 0, pr_state := Unused\<rparr>) k3"
    unfolding free_process_resources_def k2_def k3_def Let_def ..
  have l: "length (k_procs ?k1) = MAX_PROCESSES" using c(2) .
  have p3: "k_procs k3 = k_procs k2" "k_current k3 = k_current k2" "k_init_proc k3 = k_init_proc k2" "k_fs k3 = k_fs k2"
    by (auto simp: k3_def split: option.split)
  have p2: "length (k_procs k2) = MAX_PROCESSES" "k_current k2 = k_current ?k1" "k_init_proc k2 = k_init_proc ?k1" "k_fs k2 = k_fs ?k1"
    "\<And>j. j < MAX_PROCESSES \<Longrightarrow> k_procs k2 ! j = (if j = i then (k_procs ?k1 ! j)\<lparr>pr_kernel_stack := 0\<rparr> else k_procs ?k1 ! j)"
    using l i by (auto simp: k2_def set_proc_def nth_upd_at)
  have pj: "k_procs (free_process_resources i k) ! j = (if j = i then (k_procs k ! i)\<lparr>pr_files := no_files, pr_kernel_stack := 0, pr_pml4 := None,
      pr_parent := None, pr_sleep_channel := NoChannel, pr_exit_status := 0, pr_state := Unused\<rparr> else k_procs k ! j)" if "j < MAX_PROCESSES" for j
    using that p2(1,5) p3(1) c(5) by (simp add: e)
  have "only_slot i k (free_process_resources i k)"
  proof -
    have "length (k_procs (free_process_resources i k)) = length (k_procs k)" "k_current (free_process_resources i k) = k_current k"
      "k_init_proc (free_process_resources i k) = k_init_proc k" using p2 p3 c(3,4) fds_okD(1) [OF ok] by (simp_all add: e)
    then show ?thesis using pj fds_okD(1) [OF ok] by (simp add: only_slot_def)
  qed
  then show "only_slot i k (free_process_resources i k)" .
  show "fds_ok (free_process_resources i k)"
    by (rule fds_ok_cong [OF c(1)]) (use p2 p3 l pj c(5) in \<open>simp_all add: e\<close>)
  show "pr_state (k_procs (free_process_resources i k) ! i) = Unused" "pr_files (k_procs (free_process_resources i k) ! i) = no_files"
    "pr_kernel_stack (k_procs (free_process_resources i k) ! i) = 0" "pr_pml4 (k_procs (free_process_resources i k) ! i) = None"
    "pr_parent (k_procs (free_process_resources i k) ! i) = None"
    using pj [OF i] by simp_all
qed

text \<open>Storing a new reference to file \<open>g\<close> in an empty descriptor, when the count of \<open>g\<close> has gone up by one.\<close>

lemma store_fd_ok:
  assumes ok: "fds_ok k" and i: "i < MAX_PROCESSES" "fd < NUM_OPEN_FILES" "fd_of k i fd = None"
    and s: "files_ok s" "\<forall>f < NUM_FILES. f_refcnt (file_table s ! f) = f_refcnt (file_table (k_fs k) ! f) + (if x = Some f then 1 else 0)"
    "\<forall>f. x = Some f \<longrightarrow> f < NUM_FILES"
  shows "fds_ok (set_fd i fd x (k\<lparr>k_fs := s\<rparr>))"
    "j < MAX_PROCESSES \<Longrightarrow> d < NUM_OPEN_FILES \<Longrightarrow> fd_of (set_fd i fd x (k\<lparr>k_fs := s\<rparr>)) j d = (if j = i \<and> d = fd then x else fd_of k j d)"
proof -
  let ?k = "set_fd i fd x (k\<lparr>k_fs := s\<rparr>)"
  note len = fds_okD(1,2) [OF ok]
  have pr: "k_procs ?k ! j = (if j = i then (k_procs k ! i)\<lparr>pr_files := (pr_files (k_procs k ! i))[fd := x]\<rparr> else k_procs k ! j)"
    if "j < MAX_PROCESSES" for j using that len(1) by (simp add: set_fd_def)
  have fd: "fd_of ?k j d = (if j = i \<and> d = fd then x else fd_of k j d)" if "j < MAX_PROCESSES" "d < NUM_OPEN_FILES" for j d
    using pr [OF that(1)] len(2) [OF i(1)] that i by auto
  then show "j < MAX_PROCESSES \<Longrightarrow> d < NUM_OPEN_FILES \<Longrightarrow> fd_of ?k j d = (if j = i \<and> d = fd then x else fd_of k j d)" by blast
  have refs: "fd_refs ?k f = fd_refs k f + (if x = Some f then 1 else 0)" for f
  proof -
    have "fd_of ?k j d = fd_of k j d" if "j < MAX_PROCESSES" "d < NUM_OPEN_FILES" "(j, d) \<noteq> (i, fd)" for j d
      using fd [OF that(1,2)] that(3) by auto
    from fd_refs_change [OF i(1,2) this, of f] show ?thesis using fd [OF i(1,2)] i(3) by simp
  qed
  have l: "length (k_procs ?k) = MAX_PROCESSES" "\<And>j. j < MAX_PROCESSES \<Longrightarrow> length (pr_files (k_procs ?k ! j)) = NUM_OPEN_FILES"
    using len pr by (auto simp: set_fd_def)
  have fs: "k_fs ?k = s" by (simp add: set_fd_def)
  show "fds_ok ?k" unfolding fds_ok_def fs using l s refs fds_okD(5) [OF ok] fd fds_okD(4) [OF ok] by auto
qed

text \<open>Operations that change only descriptors of one process.\<close>

definition only_fds :: "nat \<Rightarrow> 's kernel \<Rightarrow> 's kernel \<Rightarrow> bool" where
  "only_fds i k k' \<longleftrightarrow> only_slot i k k' \<and> k_procs k' ! i = (k_procs k ! i)\<lparr>pr_files := pr_files (k_procs k' ! i)\<rparr> \<and>
     k_heap k' = k_heap k \<and> k_stacks k' = k_stacks k"

lemma only_fds_refl: "only_fds i k k"
  by (simp add: only_fds_def only_slot_refl)

lemma only_fds_trans:
  assumes "only_fds i k k1" "only_fds i k1 k2"
  shows "only_fds i k k2"
proof -
  have 1: "k_procs k1 ! i = (k_procs k ! i)\<lparr>pr_files := pr_files (k_procs k1 ! i)\<rparr>" and 2: "k_procs k2 ! i = (k_procs k1 ! i)\<lparr>pr_files := pr_files (k_procs k2 ! i)\<rparr>"
    using assms by (simp_all add: only_fds_def)
  have "k_procs k2 ! i = (k_procs k ! i)\<lparr>pr_files := pr_files (k_procs k2 ! i)\<rparr>" by (subst 2, subst 1) simp
  then show ?thesis using assms only_slot_trans unfolding only_fds_def by auto
qed

lemma only_fds_fields:
  assumes "only_fds i k k'"
  shows "pr_state (k_procs k' ! i) = pr_state (k_procs k ! i)" "pr_parent (k_procs k' ! i) = pr_parent (k_procs k ! i)"
    "pr_sleep_channel (k_procs k' ! i) = pr_sleep_channel (k_procs k ! i)" "pr_kernel_stack (k_procs k' ! i) = pr_kernel_stack (k_procs k ! i)"
    "pr_pid (k_procs k' ! i) = pr_pid (k_procs k ! i)" "pr_pml4 (k_procs k' ! i) = pr_pml4 (k_procs k ! i)"
proof -
  obtain x where e: "k_procs k' ! i = (k_procs k ! i)\<lparr>pr_files := x\<rparr>" using assms by (auto simp: only_fds_def)
  show "pr_state (k_procs k' ! i) = pr_state (k_procs k ! i)" "pr_parent (k_procs k' ! i) = pr_parent (k_procs k ! i)"
    "pr_sleep_channel (k_procs k' ! i) = pr_sleep_channel (k_procs k ! i)" "pr_kernel_stack (k_procs k' ! i) = pr_kernel_stack (k_procs k ! i)"
    "pr_pid (k_procs k' ! i) = pr_pid (k_procs k ! i)" "pr_pml4 (k_procs k' ! i) = pr_pml4 (k_procs k ! i)"
    by (simp_all add: e)
qed

lemma set_fd_only: "i < length (k_procs k) \<Longrightarrow> only_fds i k (set_fd i fd x (k\<lparr>k_fs := s\<rparr>))"
  by (simp add: only_fds_def only_slot_def set_fd_def)

lemma file_duplicate_refcnt:
  assumes "files_ok s" "\<And>i. p = Some i \<Longrightarrow> i < NUM_FILES" "file_duplicate p s = (q, s')" "f < NUM_FILES"
  shows "f_refcnt (file_table s' ! f) = f_refcnt (file_table s ! f) + (if p = Some f then 1 else 0)"
  using assms files_okD(1) [OF assms(1)] by (cases "p = Some f") (auto simp: file_duplicate_def split: option.splits)

lemma file_open_console_refcnt:
  assumes ok: "files_ok s" and r: "file_open_console rr ww s = (p, s')"
  shows "p = Some i \<Longrightarrow> i < NUM_FILES"
    "f < NUM_FILES \<Longrightarrow> f_refcnt (file_table s' ! f) = f_refcnt (file_table s ! f) + (if p = Some f then 1 else 0)"
proof -
  obtain q s1 where a: "file_allocate s = (q, s1)" by (cases "file_allocate s")
  note e = file_allocate_effect [OF ok a] and len = files_okD(1) [OF ok]
  have p: "p = q" using a r by (auto simp: file_open_console_def split: option.splits)
  show "p = Some i \<Longrightarrow> i < NUM_FILES" using e(2) p by simp
  show "f < NUM_FILES \<Longrightarrow> f_refcnt (file_table s' ! f) = f_refcnt (file_table s ! f) + (if p = Some f then 1 else 0)"
  proof (cases q)
    case None
    then show ?thesis using a r e(2) by (auto simp: file_open_console_def)
  next
    case (Some j)
    then have j: "j < NUM_FILES" "f_refcnt (file_table s ! j) = 0" and s1: "s1 = upd_file j (\<lambda>f. f\<lparr>f_refcnt := 1\<rparr>) s" using e(2) by auto
    then show "f < NUM_FILES \<Longrightarrow> f_refcnt (file_table s' ! f) = f_refcnt (file_table s ! f) + (if p = Some f then 1 else 0)"
      using a r Some p len by (cases "f = j") (auto simp: file_open_console_def)
  qed
qed

text \<open>One descriptor of the parent duplicated into the child, and all of them.\<close>

lemma duplicate_fd_effect:
  assumes ok: "fds_ok k" and c: "p < MAX_PROCESSES" "c < MAX_PROCESSES" "p \<noteq> c" "fd < NUM_OPEN_FILES" "fd_of k c fd = None"
  shows "fds_ok (duplicate_fd p c fd k)" "only_fds c k (duplicate_fd p c fd k)"
    "d < NUM_OPEN_FILES \<Longrightarrow> fd_of (duplicate_fd p c fd k) c d = (if d = fd then fd_of k p fd else fd_of k c d)"
proof -
  obtain q s where q: "file_duplicate (fd_of k p fd) (k_fs k) = (q, s)" by (cases "file_duplicate (fd_of k p fd) (k_fs k)")
  have e: "duplicate_fd p c fd k = set_fd c fd q (k\<lparr>k_fs := s\<rparr>)" by (simp add: duplicate_fd_def q)
  have b: "\<And>i. fd_of k p fd = Some i \<Longrightarrow> i < NUM_FILES" using fds_okD(4) [OF ok c(1) c(4)] .
  have qp: "q = fd_of k p fd" using q by (simp add: file_duplicate_def split: option.splits)
  have "files_ok (snd (file_duplicate (fd_of k p fd) (k_fs k)))"
  proof (rule file_duplicate_ok [OF fds_okD(3) [OF ok]])
    fix i assume i: "fd_of k p fd = Some i"
    show "i < NUM_FILES \<and> 0 < f_refcnt (file_table (k_fs k) ! i)"
      using b [OF i] fds_okD(5) [OF ok b [OF i]] fd_refs_pos [OF c(1) c(4) i] by simp
  qed
  then have s: "files_ok s" using q by simp
  have r: "\<forall>f < NUM_FILES. f_refcnt (file_table s ! f) = f_refcnt (file_table (k_fs k) ! f) + (if q = Some f then 1 else 0)"
    using file_duplicate_refcnt [OF fds_okD(3) [OF ok] b q] qp by simp
  have qb: "\<forall>f. q = Some f \<longrightarrow> f < NUM_FILES" using b qp by simp
  note st = store_fd_ok [OF ok c(2) c(4) c(5) s r qb]
  show "fds_ok (duplicate_fd p c fd k)" unfolding e by (rule st(1))
  show "only_fds c k (duplicate_fd p c fd k)" unfolding e by (rule set_fd_only) (simp add: fds_okD(1) [OF ok] c(2))
  show "d < NUM_OPEN_FILES \<Longrightarrow> fd_of (duplicate_fd p c fd k) c d = (if d = fd then fd_of k p fd else fd_of k c d)"
    unfolding e using st(2) [OF c(2), of d] qp by simp
qed

lemma duplicate_all_effect:
  assumes ok: "fds_ok k" and c: "p < MAX_PROCESSES" "c < MAX_PROCESSES" "p \<noteq> c" "pr_files (k_procs k ! c) = no_files" and n: "n \<le> NUM_OPEN_FILES"
  shows "fds_ok (fold (duplicate_fd p c) [0..<n] k) \<and> only_fds c k (fold (duplicate_fd p c) [0..<n] k) \<and>
    (\<forall>d < NUM_OPEN_FILES. fd_of (fold (duplicate_fd p c) [0..<n] k) c d = (if d < n then fd_of k p d else None))"
  using n
proof (induction n)
  case 0
  then show ?case using ok c(4) by (simp add: only_fds_refl)
next
  case (Suc n)
  let ?k = "fold (duplicate_fd p c) [0..<n] k"
  have IH: "fds_ok ?k" "only_fds c k ?k" "\<And>d. d < NUM_OPEN_FILES \<Longrightarrow> fd_of ?k c d = (if d < n then fd_of k p d else None)"
    using Suc by auto
  have n: "n < NUM_OPEN_FILES" using Suc.prems by simp
  have pp: "k_procs ?k ! p = k_procs k ! p" using IH(2) c(1,3) fds_okD(1) [OF ok] by (simp add: only_fds_def only_slot_def)
  have none: "fd_of ?k c n = None" using IH(3) [OF n] by simp
  note d = duplicate_fd_effect [OF IH(1) c(1,2,3) n none]
  have e: "fold (duplicate_fd p c) [0..<Suc n] k = duplicate_fd p c n ?k" by simp
  show ?case unfolding e using d(1) only_fds_trans [OF IH(2) d(2)] d(3) IH(3) pp by (auto simp: less_Suc_eq)
qed

lemma open_console_effect:
  assumes ok: "fds_ok k" and i: "i < MAX_PROCESSES" "pr_files (k_procs k ! i) = no_files" and r: "open_console_files i k = (b, k')"
  shows "fds_ok k' \<and> only_fds i k k'"
proof -
  have li: "i < length (k_procs k)" using fds_okD(1) [OF ok] i(1) by simp
  have n3: "0 < NUM_OPEN_FILES" "1 < NUM_OPEN_FILES" "2 < NUM_OPEN_FILES" by (simp_all add: NUM_OPEN_FILES_def)
  obtain f0 s0 where o0: "file_open_console True False (k_fs k) = (f0, s0)" by (cases "file_open_console True False (k_fs k)")
  define k0 where "k0 = set_fd i 0 f0 (k\<lparr>k_fs := s0\<rparr>)"
  note e0 = file_open_console_refcnt [OF fds_okD(3) [OF ok] o0]
  have none0: "fd_of k i 0 = None" using i(2) n3 by simp
  note st0 = store_fd_ok [OF ok i(1) n3(1) none0 file_open_console_ok [OF fds_okD(3) [OF ok] o0], of f0, folded k0_def]
  have c0: "\<forall>f < NUM_FILES. f_refcnt (file_table s0 ! f) = f_refcnt (file_table (k_fs k) ! f) + (if f0 = Some f then 1 else 0)"
    "\<forall>f. f0 = Some f \<longrightarrow> f < NUM_FILES" using e0 by auto
  have ok0: "fds_ok k0" using st0(1) [OF c0] .
  have only0: "only_fds i k k0" unfolding k0_def by (rule set_fd_only [OF li])
  obtain f1 s1 where o1: "file_open_console False True (k_fs k0) = (f1, s1)" by (cases "file_open_console False True (k_fs k0)")
  define k1 where "k1 = set_fd i 1 f1 (k0\<lparr>k_fs := s1\<rparr>)"
  note e1 = file_open_console_refcnt [OF fds_okD(3) [OF ok0] o1]
  have none1: "fd_of k0 i 1 = None" using st0(2) [OF c0 i(1) n3(2)] i(2) n3 by simp
  note st1 = store_fd_ok [OF ok0 i(1) n3(2) none1 file_open_console_ok [OF fds_okD(3) [OF ok0] o1], of f1, folded k1_def]
  have c1: "\<forall>f < NUM_FILES. f_refcnt (file_table s1 ! f) = f_refcnt (file_table (k_fs k0) ! f) + (if f1 = Some f then 1 else 0)"
    "\<forall>f. f1 = Some f \<longrightarrow> f < NUM_FILES" using e1 by auto
  have ok1: "fds_ok k1" using st1(1) [OF c1] .
  have li0: "i < length (k_procs k0)" using fds_okD(1) [OF ok0] i(1) by simp
  have only1: "only_fds i k k1" using only_fds_trans [OF only0] set_fd_only [OF li0] unfolding k1_def by blast
  show ?thesis
  proof (cases "f0 = None \<or> f1 = None")
    case True
    then have "k' = k1" using r by (simp add: open_console_files_def o0 o1 k0_def [symmetric] k1_def [symmetric] Let_def del: One_nat_def)
    then show ?thesis using ok1 only1 by simp
  next
    case False
    obtain f2 s2 where o2: "file_duplicate f1 (k_fs k1) = (f2, s2)" by (cases "file_duplicate f1 (k_fs k1)")
    have k': "k' = set_fd i 2 f2 (k1\<lparr>k_fs := s2\<rparr>)"
      using r False by (simp add: open_console_files_def o0 o1 o2 k0_def [symmetric] k1_def [symmetric] Let_def del: One_nat_def)
    have f1: "fd_of k1 i 1 = f1" using st1(2) [OF c1 i(1) n3(2)] by simp
    have b: "\<And>j. f1 = Some j \<Longrightarrow> j < NUM_FILES \<and> 0 < f_refcnt (file_table (k_fs k1) ! j)"
      using fds_okD(5) [OF ok1] fd_refs_pos [OF i(1) n3(2), of k1] f1 c1(2) by simp
    have "f2 = f1" using o2 by (simp add: file_duplicate_def split: option.splits)
    then have c2: "\<forall>f < NUM_FILES. f_refcnt (file_table s2 ! f) = f_refcnt (file_table (k_fs k1) ! f) + (if f2 = Some f then 1 else 0)"
      "\<forall>f. f2 = Some f \<longrightarrow> f < NUM_FILES"
      using file_duplicate_refcnt [OF fds_okD(3) [OF ok1] _ o2] b by auto
    have none2: "fd_of k1 i 2 = None" using st0(2) [OF c0 i(1) n3(3)] st1(2) [OF c1 i(1) n3(3)] i(2) n3 by simp
    have "files_ok (snd (file_duplicate f1 (k_fs k1)))" by (rule file_duplicate_ok [OF fds_okD(3) [OF ok1]]) (rule b)
    then have "files_ok s2" using o2 by simp
    from store_fd_ok(1) [OF ok1 i(1) n3(3) none2 this c2] have "fds_ok k'" unfolding k' .
    moreover have "only_fds i k k'" unfolding k'
      by (rule only_fds_trans [OF only1 set_fd_only]) (simp add: fds_okD(1) [OF ok1] i(1))
    ultimately show ?thesis by simp
  qed
qed

section \<open>Allocating and creating processes\<close>

definition unused_clean :: "'s kernel \<Rightarrow> bool" where
  "unused_clean k \<longleftrightarrow> (\<forall>i < length (k_procs k). pr_state (k_procs k ! i) = Unused \<longrightarrow> pr_files (k_procs k ! i) = no_files)"

text \<open>What a new process is before the caller fills it in, and what a failure leaves.\<close>

definition fresh_process :: "nat \<Rightarrow> 's kernel \<Rightarrow> 's kernel \<Rightarrow> bool" where
  "fresh_process i k k' \<longleftrightarrow> i < MAX_PROCESSES \<and> pr_state (k_procs k ! i) = Unused \<and> only_slot i k k' \<and> k_stacks k' = k_stacks k \<and>
     pr_state (k_procs k' ! i) = Embryo \<and> pr_parent (k_procs k' ! i) = None \<and> pr_files (k_procs k' ! i) = no_files \<and>
     pr_sleep_channel (k_procs k' ! i) = NoChannel \<and> pr_trap_frame (k_procs k' ! i) = 0 \<and> pr_kernel_stack (k_procs k' ! i) \<noteq> 0 \<and>
     pr_pml4 (k_procs k' ! i) \<noteq> None"

definition failed_process :: "'s kernel \<Rightarrow> 's kernel \<Rightarrow> bool" where
  "failed_process k k' \<longleftrightarrow> k' = k \<or> (\<exists>i < MAX_PROCESSES. pr_state (k_procs k ! i) = Unused \<and> only_slot i k k' \<and>
     pr_state (k_procs k' ! i) = Unused \<and> pr_files (k_procs k' ! i) = no_files)"

lemma failed_by_free:
  assumes "fds_ok k1" "i < MAX_PROCESSES" "pr_state (k_procs k ! i) = Unused" "only_slot i k k1"
  shows "fds_ok (free_process_resources i k1)" "failed_process k (free_process_resources i k1)"
  using free_effect [OF assms(1,2)] assms only_slot_trans unfolding failed_process_def by blast+

lemma allocate_effect:
  assumes ok: "fds_ok k" and uc: "unused_clean k" and r: "allocate_process k = Some (p, k')"
  shows "fds_ok k' \<and> (case p of None \<Rightarrow> failed_process k k' | Some i \<Rightarrow> fresh_process i k k')"
proof (cases "find (\<lambda>i. pr_state (k_procs k ! i) = Unused) [0..<length (k_procs k)]")
  case None
  then show ?thesis using r ok by (simp add: allocate_process_def failed_process_def)
next
  case (Some i)
  have i: "i < MAX_PROCESSES" "pr_state (k_procs k ! i) = Unused" using find_Some_props [OF Some] fds_okD(1) [OF ok] by auto
  have li: "i < length (k_procs k)" using i fds_okD(1) [OF ok] by simp
  have clean: "pr_files (k_procs k ! i) = no_files" using uc i li by (simp add: unused_clean_def)
  define k1 where "k1 = set_proc i (\<lambda>p. p\<lparr>pr_pid := scast (k_next_pid k), pr_state := Embryo, pr_parent := None, pr_sleep_channel := NoChannel,
      pr_trap_frame := 0, pr_kernel_stack := 0, pr_pml4 := None, pr_files := no_files\<rparr>) (k\<lparr>k_next_pid := k_next_pid k + 1\<rparr>)"
  obtain stack h where h: "heap_allocate KERNEL_STACK_SIZE (k_heap k1) = Some (stack, h)"
    using r Some by (auto simp: allocate_process_def k1_def [symmetric] Let_def split: option.splits)
  have fields: "k_fs k1 = k_fs k" "length (k_procs k1) = length (k_procs k)" "only_slot i k k1" "k_stacks k1 = k_stacks k"
    by (simp_all add: k1_def only_slot_def)
  have files: "pr_files (k_procs k1 ! j) = pr_files (k_procs k ! j)" if "j < MAX_PROCESSES" for j
    using that clean fds_okD(1) [OF ok] by (simp add: k1_def)
  show ?thesis
  proof (cases "stack = 0")
    case True
    have "fds_ok (k1\<lparr>k_heap := h\<rparr>)" by (rule fds_ok_cong [OF ok]) (simp_all add: fields files)
    moreover have "only_slot i k (k1\<lparr>k_heap := h\<rparr>)" using fields(3) by (simp add: only_slot_def)
    moreover have "p = None" "k' = free_process_resources i (k1\<lparr>k_heap := h\<rparr>)"
      using r Some h True by (simp_all add: allocate_process_def k1_def [symmetric] Let_def)
    ultimately show ?thesis using failed_by_free [of "k1\<lparr>k_heap := h\<rparr>" i k] i by simp
  next
    case False
    define k2 where "k2 = set_proc i (\<lambda>p. p\<lparr>pr_kernel_stack := stack\<rparr>) (k1\<lparr>k_heap := h\<rparr>)"
    obtain root s where c: "create_address_space (hp_vm (k_heap k2)) = (root, s)" by (cases "create_address_space (hp_vm (k_heap k2))")
    define k3 where "k3 = set_proc i (\<lambda>p. p\<lparr>pr_pml4 := root\<rparr>) (set_vm (\<lambda>_. s) k2)"
    have res: "(p, k') = (if root = None then (None, free_process_resources i k3) else (Some i, k3))"
      using r Some h False c by (auto simp: allocate_process_def k1_def [symmetric] k2_def k3_def Let_def split: if_splits)
    have pj: "k_procs k3 ! j = (if j = i then (k_procs k1 ! j)\<lparr>pr_kernel_stack := stack, pr_pml4 := root\<rparr> else k_procs k1 ! j)"
      if "j < MAX_PROCESSES" for j using that fields fds_okD(1) [OF ok] by (simp add: k3_def k2_def)
    have f3: "length (k_procs k3) = length (k_procs k)" "k_fs k3 = k_fs k" "k_stacks k3 = k_stacks k" "only_slot i k k3"
      using fields by (simp_all add: k3_def k2_def only_slot_def)
    have ok3: "fds_ok k3" by (rule fds_ok_cong [OF ok]) (simp_all add: f3 pj files)
    show ?thesis
    proof (cases "root = None")
      case True
      then show ?thesis using res failed_by_free [OF ok3 i f3(4)] by simp
    next
      case False
      have "fresh_process i k k3" using pj [OF i(1)] f3 False \<open>stack \<noteq> 0\<close> i li by (simp add: fresh_process_def k1_def)
      then show ?thesis using res ok3 False by simp
    qed
  qed
qed

text \<open>A process that is ready to run for the first time, with the given parent.\<close>

definition born :: "nat option \<Rightarrow> nat \<Rightarrow> 's kernel \<Rightarrow> 's kernel \<Rightarrow> bool" where
  "born q i k k' \<longleftrightarrow> i < MAX_PROCESSES \<and> pr_state (k_procs k ! i) = Unused \<and> only_slot i k k' \<and>
     pr_state (k_procs k' ! i) = Runnable \<and> pr_parent (k_procs k' ! i) = q \<and> pr_sleep_channel (k_procs k' ! i) = NoChannel"

lemma create_effect:
  assumes ok: "fds_ok k" and uc: "unused_clean k" and r: "create_process entry name arg tr k = Some (p, k')"
  shows "fds_ok k' \<and> (case p of None \<Rightarrow> failed_process k k' | Some i \<Rightarrow> born None i k k')"
proof -
  obtain q k1 where a: "allocate_process k = Some (q, k1)"
    using r by (auto simp: create_process_def split: option.splits)
  note e = allocate_effect [OF ok uc a]
  show ?thesis
  proof (cases q)
    case None
    then show ?thesis using e r a by (simp add: create_process_def)
  next
    case (Some i)
    have f: "fresh_process i k k1" and ok1: "fds_ok k1" using e Some by simp_all
    have i: "i < MAX_PROCESSES" "pr_state (k_procs k ! i) = Unused" "only_slot i k k1" "pr_files (k_procs k1 ! i) = no_files" "pr_parent (k_procs k1 ! i) = None"
      "pr_sleep_channel (k_procs k1 ! i) = NoChannel"
      using f by (simp_all add: fresh_process_def)
    obtain b k2 where o: "open_console_files i k1 = (b, k2)" by (cases "open_console_files i k1")
    have ok2: "fds_ok k2" and o2: "only_fds i k1 k2" using open_console_effect [OF ok1 i(1,4) o] by simp_all
    have s2: "only_slot i k k2" using only_slot_trans [OF i(3)] o2 by (simp add: only_fds_def)
    show ?thesis
    proof (cases b)
      case False
      then have "p = None" "k' = free_process_resources i k2" using r a Some o by (simp_all add: create_process_def)
      then show ?thesis using failed_by_free [OF ok2 i(1,2) s2] by simp
    next
      case True
      define st where "st = store_words (stack_top (pr_kernel_stack (k_procs k2 ! i)) - sizeof_ProcessContext)
        (context_words \<lparr>cx_rbp = 0, cx_rbx = 0, cx_r12 = 0, cx_r13 = 0, cx_r14 = 0, cx_r15 = 0, cx_rip = tr\<rparr>) (k_stacks k2)"
      define k3 where "k3 = k2\<lparr>k_stacks := st\<rparr>"
      define g where "g = (\<lambda>p :: Process. p\<lparr>pr_entry := entry, pr_entry_arg := arg, pr_name := kstring16 name,
        pr_context := stack_top (pr_kernel_stack (k_procs k2 ! i)) - sizeof_ProcessContext, pr_state := Runnable\<rparr>)"
      have k': "p = Some i" "k' = set_proc i g k3"
        using r a Some o True by (simp_all add: create_process_def Let_def g_def k3_def st_def)
      have l: "length (k_procs k3) = MAX_PROCESSES" using fds_okD(1) [OF ok2] by (simp add: k3_def)
      have "fds_ok k'" by (rule fds_ok_cong [OF ok2]) (use l in \<open>simp_all add: k' g_def\<close>, simp_all add: k3_def)
      moreover have "only_slot i k k'" by (rule only_slot_trans [OF s2]) (simp add: only_slot_def k' k3_def)
      moreover have "k_procs k' ! i = g (k_procs k2 ! i)" using l i(1) by (simp add: k' k3_def)
      moreover have "pr_parent (k_procs k2 ! i) = None" "pr_sleep_channel (k_procs k2 ! i) = NoChannel"
        using only_fds_fields [OF o2] i(5,6) by simp_all
      ultimately show ?thesis using i(1,2) k'(1) by (simp add: born_def g_def)
    qed
  qed
qed

section \<open>Fork\<close>

text \<open>The child before its stack is filled in.\<close>

definition prepared :: "nat \<Rightarrow> nat \<Rightarrow> 's kernel \<Rightarrow> 's kernel \<Rightarrow> bool" where
  "prepared p c k k3 \<longleftrightarrow> fds_ok k3 \<and> c < MAX_PROCESSES \<and> c \<noteq> p \<and> pr_state (k_procs k ! c) = Unused \<and> only_slot c k k3 \<and> k_stacks k3 = k_stacks k \<and>
     pr_parent (k_procs k3 ! c) = Some p \<and> pr_sleep_channel (k_procs k3 ! c) = NoChannel \<and> pr_files (k_procs k3 ! c) = pr_files (k_procs k ! p)"

lemma fork_setup:
  assumes f: "fresh_process c k k1" and ok: "fds_ok k1" and p: "p < MAX_PROCESSES" "pr_state (k_procs k ! p) \<noteq> Unused" and lk: "length (k_procs k) = MAX_PROCESSES"
    and g: "\<And>q. pr_files (g q) = pr_files q \<and> pr_parent (g q) = Some p \<and> pr_sleep_channel (g q) = pr_sleep_channel q"
  shows "prepared p c k (fold (duplicate_fd p c) [0..<length (pr_files (k_procs k1 ! p))] (set_proc c g k1))"
proof -
  have c: "c < MAX_PROCESSES" "pr_state (k_procs k ! c) = Unused" "only_slot c k k1" "k_stacks k1 = k_stacks k"
    "pr_files (k_procs k1 ! c) = no_files" "pr_sleep_channel (k_procs k1 ! c) = NoChannel" using f by (simp_all add: fresh_process_def)
  have pc: "p \<noteq> c" using p(2) c(2) by auto
  have l: "length (k_procs k1) = MAX_PROCESSES" using fds_okD(1) [OF ok] .
  let ?k2 = "set_proc c g k1"
  have ok2: "fds_ok ?k2" by (rule fds_ok_cong [OF ok]) (use l g in \<open>simp_all add: set_proc_simps\<close>)
  have c2: "k_procs ?k2 ! c = g (k_procs k1 ! c)" using l c(1) by simp
  have pf: "k_procs ?k2 ! p = k_procs k ! p" using l p(1) pc c(3) lk by (simp add: only_slot_def)
  have n: "length (pr_files (k_procs k1 ! p)) = NUM_OPEN_FILES" using fds_okD(2) [OF ok p(1)] .
  have none: "pr_files (k_procs ?k2 ! c) = no_files" using c2 c(5) g by simp
  let ?k3 = "fold (duplicate_fd p c) [0..<NUM_OPEN_FILES] ?k2"
  have d: "fds_ok ?k3" "only_fds c ?k2 ?k3" "\<And>d. d < NUM_OPEN_FILES \<Longrightarrow> fd_of ?k3 c d = fd_of ?k2 p d"
    using duplicate_all_effect [OF ok2 p(1) c(1) pc none, of NUM_OPEN_FILES] by auto
  have "pr_files (k_procs ?k3 ! c) = pr_files (k_procs k ! p)"
  proof (rule nth_equalityI)
    have "length (pr_files (k_procs k ! p)) = NUM_OPEN_FILES" using fds_okD(2) [OF ok2 p(1)] pf by simp
    then show "length (pr_files (k_procs ?k3 ! c)) = length (pr_files (k_procs k ! p))" using fds_okD(2) [OF d(1) c(1)] by simp
    show "fd_of ?k3 c d = pr_files (k_procs k ! p) ! d" if "d < length (pr_files (k_procs ?k3 ! c))" for d
      using that fds_okD(2) [OF d(1) c(1)] d(3) pf by simp
  qed
  moreover have "only_slot c k ?k3" "k_stacks ?k3 = k_stacks k"
    using only_slot_trans [OF c(3) only_slot_trans [OF only_slot_set_proc]] d(2) c(4) by (auto simp: only_fds_def)
  moreover have "pr_parent (k_procs ?k3 ! c) = Some p" "pr_sleep_channel (k_procs ?k3 ! c) = NoChannel"
    using only_fds_fields [OF d(2)] c2 g c(6) by simp_all
  ultimately show ?thesis unfolding n prepared_def using d(1) c(1,2) pc by simp
qed

lemma fork_cases:
  assumes ok: "fds_ok k" and uc: "unused_clean k" and p: "k_current k = Some p" "p < MAX_PROCESSES" "pr_state (k_procs k ! p) \<noteq> Unused"
    and r: "fork fr snap sp k = Some (x, k')"
  obtains (failed) "x = - 1" "failed_process k k'" "fds_ok k'"
    | (child) c k3 where "prepared p c k k3"
      "(x, k') = (if pr_trap_frame (k_procs k ! p) \<noteq> 0 then fork_user p c fr k3 else fork_kernel p c snap sp k3)"
proof -
  obtain q k1 where a: "allocate_process k = Some (q, k1)" using r p(1) by (auto simp: fork_def split: option.splits)
  note e = allocate_effect [OF ok uc a]
  show thesis
  proof (cases q)
    case None
    then show thesis using e r a p(1) failed by (simp add: fork_def)
  next
    case (Some c)
    have f: "fresh_process c k k1" and ok1: "fds_ok k1" using e Some by simp_all
    have "p \<noteq> c" using f p(3) by (auto simp: fresh_process_def)
    then have same: "k_procs k1 ! p = k_procs k ! p" using f p(2) fds_okD(1) [OF ok] by (simp add: fresh_process_def only_slot_def)
    define g where "g = (\<lambda>pa :: Process. pa\<lparr>pr_entry := pr_entry (k_procs k1 ! p), pr_entry_arg := pr_entry_arg (k_procs k1 ! p),
      pr_name := pr_name (k_procs k1 ! p), pr_parent := Some p\<rparr>)"
    have "prepared p c k (fold (duplicate_fd p c) [0..<length (pr_files (k_procs k1 ! p))] (set_proc c g k1))"
      by (rule fork_setup [OF f ok1 p(2,3) fds_okD(1) [OF ok]]) (simp add: g_def)
    moreover have "(x, k') = (if pr_trap_frame (k_procs k1 ! p) \<noteq> 0
        then fork_user p c fr (fold (duplicate_fd p c) [0..<length (pr_files (k_procs k1 ! p))] (set_proc c g k1))
        else fork_kernel p c snap sp (fold (duplicate_fd p c) [0..<length (pr_files (k_procs k1 ! p))] (set_proc c g k1)))"
      using r a p(1) Some unfolding fork_def Let_def g_def by simp
    ultimately show thesis using child same by simp
  qed
qed

text \<open>Words stored in memory are read back.\<close>

lemma load_frame_store: "load_frame (store_words a (frame_words t) m) a = t"
  by (simp add: load_frame_def frame_words_def add.assoc)

lemma load_context_store: "load_context (store_words a (context_words c) m) a = c"
  by (simp add: load_context_def context_words_def add.assoc)

lemma load_frame_above: "load_frame (store_words a (context_words c) m) (a + 56) = load_frame m (a + 56)"
  by (simp add: load_frame_def context_words_def add.assoc)

text \<open>
  The child of a user process: its context resumes in \<open>fork_return\<close> with the stack pointer, after the
  seven words are popped, at a copy of the parent's trap frame in which \<open>rax\<close> is 0; the frame ends at the
  top of the child's stack.
\<close>

definition user_child :: "u64 \<Rightarrow> nat \<Rightarrow> nat \<Rightarrow> 's kernel \<Rightarrow> 's kernel \<Rightarrow> bool" where
  "user_child fr p c k k' \<longleftrightarrow> (let q = k_procs k' ! c in
     pr_trap_frame q = pr_context q + 56 \<and> pr_trap_frame q + 128 = pr_kernel_stack q + KERNEL_STACK_SIZE \<and>
     load_context (k_stacks k') (pr_context q) = \<lparr>cx_rbp = 0, cx_rbx = 0, cx_r12 = 0, cx_r13 = 0, cx_r14 = 0, cx_r15 = 0, cx_rip = fr\<rparr> \<and>
     load_frame (k_stacks k') (pr_trap_frame q) = (load_frame (k_stacks k) (pr_trap_frame (k_procs k ! p)))\<lparr>tf_rax := 0\<rparr>)"

text \<open>
  The child of a kernel thread: its stack is the parent's except for the context below the resumption
  point, which is the captured one at the same offset from the base.
\<close>

definition kernel_child :: "ProcessContext \<Rightarrow> u64 \<Rightarrow> nat \<Rightarrow> nat \<Rightarrow> 's kernel \<Rightarrow> 's kernel \<Rightarrow> bool" where
  "kernel_child snap sp p c k k' \<longleftrightarrow> (let q = k_procs k' ! c; cb = pr_kernel_stack q; pb = pr_kernel_stack (k_procs k ! p) in
     pr_context q + 56 - cb = sp - pb \<and> load_context (k_stacks k') (pr_context q) = snap \<and>
     (\<forall>off. in_words 0 2048 off \<and> cb + off \<notin> {pr_context q + d | d. d \<in> {0, 8, 16, 24, 32, 40, 48}} \<longrightarrow>
        k_stacks k' (cb + off) = k_stacks k (pb + off)))"

lemma fork_user_effect:
  assumes pr: "prepared p c k k3" and p: "p < MAX_PROCESSES" "length (k_procs k) = MAX_PROCESSES" and r: "fork_user p c fr k3 = (x, k')"
  shows "fds_ok k' \<and> (x = - 1 \<and> failed_process k k' \<or>
     born (Some p) c k k' \<and> x = ucast (pr_pid (k_procs k' ! c)) \<and> pr_files (k_procs k' ! c) = pr_files (k_procs k ! p) \<and> user_child fr p c k k')"
proof -
  have ok3: "fds_ok k3" and c: "c < MAX_PROCESSES" "c \<noteq> p" "pr_state (k_procs k ! c) = Unused" "only_slot c k k3" "k_stacks k3 = k_stacks k"
    "pr_parent (k_procs k3 ! c) = Some p" "pr_sleep_channel (k_procs k3 ! c) = NoChannel" "pr_files (k_procs k3 ! c) = pr_files (k_procs k ! p)"
    using pr by (simp_all add: prepared_def)
  have l: "length (k_procs k3) = MAX_PROCESSES" using fds_okD(1) [OF ok3] .
  have pp: "k_procs k3 ! p = k_procs k ! p" using c(2,4) p by (simp add: only_slot_def)
  obtain b s where cp: "copy_user_pages (pr_pml4 (k_procs k3 ! p)) (pr_pml4 (k_procs k3 ! c)) (hp_vm (k_heap k3)) = (b, s)"
    by (cases "copy_user_pages (pr_pml4 (k_procs k3 ! p)) (pr_pml4 (k_procs k3 ! c)) (hp_vm (k_heap k3))")
  show ?thesis
  proof (cases b)
    case False
    have "fds_ok (set_vm (\<lambda>_. s) k3)" by (rule fds_ok_cong [OF ok3]) simp_all
    moreover have "only_slot c k (set_vm (\<lambda>_. s) k3)" using c(4) by (simp add: only_slot_def)
    moreover have "x = - 1" "k' = free_process_resources c (set_vm (\<lambda>_. s) k3)" using r cp False by (simp_all add: fork_user_def)
    ultimately show ?thesis using failed_by_free [of "set_vm (\<lambda>_. s) k3" c k] c(1,3) by simp
  next
    case True
    define a where "a = stack_top (pr_kernel_stack (k_procs k3 ! c)) - sizeof_UserForkFrame"
    define tf where "tf = (load_frame (k_stacks k) (pr_trap_frame (k_procs k ! p)))\<lparr>tf_rax := 0\<rparr>"
    define st where "st = store_words a (context_words \<lparr>cx_rbp = 0, cx_rbx = 0, cx_r12 = 0, cx_r13 = 0, cx_r14 = 0, cx_r15 = 0, cx_rip = fr\<rparr>)
      (store_words (a + 56) (frame_words tf) (k_stacks k))"
    define g where "g = (\<lambda>p :: Process. p\<lparr>pr_context := a, pr_trap_frame := a + 56, pr_state := Runnable\<rparr>)"
    define k4 where "k4 = (set_vm (\<lambda>_. s) k3)\<lparr>k_stacks := st\<rparr>"
    have x: "x = ucast (pr_pid (k_procs k3 ! c))" "k' = set_proc c g k4"
      using r cp True by (simp_all add: fork_user_def Let_def g_def k4_def st_def tf_def a_def sizeof_ProcessContext_def pp c(5))
    have k4: "k_procs k4 = k_procs k3" "k_current k4 = k_current k3" "k_init_proc k4 = k_init_proc k3" "k_fs k4 = k_fs k3" "k_stacks k4 = st"
      by (simp_all add: k4_def)
    have kc: "k_procs k' ! c = g (k_procs k3 ! c)" using l c(1) by (simp add: x k4)
    have "fds_ok k'" by (rule fds_ok_cong [OF ok3]) (use l in \<open>simp_all add: x k4 g_def\<close>)
    moreover have "only_slot c k k'" by (rule only_slot_trans [OF c(4)]) (simp add: only_slot_def x k4)
    then have "born (Some p) c k k'" using c kc by (simp add: born_def g_def)
    moreover have "user_child fr p c k k'"
      unfolding user_child_def Let_def kc
      by (simp add: g_def x(2) k4 st_def load_context_store load_frame_above load_frame_store tf_def)
        (simp add: a_def stack_top_def sizeof_UserForkFrame_def sizeof_ProcessContext_def sizeof_TrapFrame_def)
    ultimately show ?thesis using x(1) kc c(8) by (simp add: g_def)
  qed
qed

lemma store_words_other:
  "x \<notin> {a + d | d. d \<in> {0, 8, 16, 24, 32, 40, 48}} \<Longrightarrow> store_words a (context_words c) m x = m x"
  by (auto simp: context_words_def add.assoc)

lemma fork_kernel_effect:
  assumes pr: "prepared p c k k3" and p: "p < MAX_PROCESSES" "length (k_procs k) = MAX_PROCESSES" and r: "fork_kernel p c snap sp k3 = (x, k')"
  shows "fds_ok k' \<and> born (Some p) c k k' \<and> x = ucast (pr_pid (k_procs k' ! c)) \<and> pr_files (k_procs k' ! c) = pr_files (k_procs k ! p) \<and>
     kernel_child snap sp p c k k'"
proof -
  have ok3: "fds_ok k3" and c: "c < MAX_PROCESSES" "c \<noteq> p" "pr_state (k_procs k ! c) = Unused" "only_slot c k k3" "k_stacks k3 = k_stacks k"
    "pr_parent (k_procs k3 ! c) = Some p" "pr_sleep_channel (k_procs k3 ! c) = NoChannel" "pr_files (k_procs k3 ! c) = pr_files (k_procs k ! p)"
    using pr by (simp_all add: prepared_def)
  have l: "length (k_procs k3) = MAX_PROCESSES" using fds_okD(1) [OF ok3] .
  have pp: "k_procs k3 ! p = k_procs k ! p" using c(2,4) p by (simp add: only_slot_def)
  define cb where "cb = pr_kernel_stack (k_procs k3 ! c)"
  define pb where "pb = pr_kernel_stack (k_procs k ! p)"
  define cx where "cx = cb + (sp - pb) - sizeof_ProcessContext"
  define st where "st = store_words cx (context_words snap) (copy_stack cb pb (k_stacks k))"
  define g where "g = (\<lambda>p :: Process. p\<lparr>pr_context := cx, pr_state := Runnable\<rparr>)"
  define k4 where "k4 = k3\<lparr>k_stacks := st\<rparr>"
  have x: "x = ucast (pr_pid (k_procs k3 ! c))" "k' = set_proc c g k4"
    using r by (simp_all add: fork_kernel_def Let_def g_def k4_def st_def cx_def cb_def pb_def pp c(5))
  have k4: "k_procs k4 = k_procs k3" "k_current k4 = k_current k3" "k_init_proc k4 = k_init_proc k3" "k_fs k4 = k_fs k3" "k_stacks k4 = st"
    by (simp_all add: k4_def)
  have kc: "k_procs k' ! c = g (k_procs k3 ! c)" using l c(1) by (simp add: x k4)
  have "fds_ok k'" by (rule fds_ok_cong [OF ok3]) (use l in \<open>simp_all add: x k4 g_def\<close>)
  moreover have "only_slot c k k'" by (rule only_slot_trans [OF c(4)]) (simp add: only_slot_def x k4)
  then have "born (Some p) c k k'" using c kc by (simp add: born_def g_def)
  moreover have "st (cb + off) = k_stacks k (pb + off)" if "in_words 0 2048 off" "cb + off \<notin> {cx + d | d. d \<in> {0, 8, 16, 24, 32, 40, 48}}" for off
    unfolding st_def store_words_other [OF that(2)] using that(1) by (simp add: copy_stack_def in_words_def)
  then have "kernel_child snap sp p c k k'"
    unfolding kernel_child_def Let_def kc
    by (simp add: g_def x(2) k4 cb_def [symmetric] pb_def [symmetric]) (simp add: st_def load_context_store cx_def sizeof_ProcessContext_def)
  ultimately show ?thesis using x(1) kc c(8) by (simp add: g_def)
qed

text \<open>On a well-formed heap the allocation of a process, and with it \<open>fork\<close>, returns.\<close>

definition heap_usable :: "heap \<Rightarrow> bool" where
  "heap_usable h \<longleftrightarrow> (\<exists>U root bs. heap_inv U root h bs) \<and> unat (hp_virt_end h) + 24576 < 2 ^ 64"

lemma allocate_returns:
  assumes "heap_usable (k_heap k)"
  shows "\<exists>p k'. allocate_process k = Some (p, k')"
proof -
  obtain U root bs where inv: "heap_inv U root (k_heap k) bs" "unat (hp_virt_end (k_heap k)) + 24576 < 2 ^ 64"
    using assms by (auto simp: heap_usable_def)
  have "unat KERNEL_STACK_SIZE < 2 ^ 62" "unat (hp_virt_end (k_heap k)) + unat KERNEL_STACK_SIZE + 8192 < 2 ^ 64"
    using inv(2) by (simp_all add: KERNEL_STACK_SIZE_def)
  from heap_allocate_effect [OF inv(1) this] obtain q h where "heap_allocate KERNEL_STACK_SIZE (k_heap k) = Some (q, h)" by blast
  then show ?thesis by (auto simp: allocate_process_def Let_def split: option.split prod.split)
qed

lemma fork_returns:
  assumes "heap_usable (k_heap k)"
  shows "\<exists>x k'. fork fr snap sp k = Some (x, k')"
proof (cases "k_current k")
  case None
  then show ?thesis by (simp add: fork_def)
next
  case (Some p)
  obtain q k1 where a: "allocate_process k = Some (q, k1)" using allocate_returns [OF assms] by blast
  show ?thesis
  proof (cases q)
    case None
    then show ?thesis by (simp add: fork_def Some a)
  next
    fix c assume "q = Some c"
    then show ?thesis unfolding fork_def Some a by (auto simp: Let_def)
  qed
qed

lemma fork_effect:
  assumes ok: "fds_ok k" and uc: "unused_clean k" and p: "k_current k = Some p" "p < MAX_PROCESSES" "pr_state (k_procs k ! p) \<noteq> Unused"
    and r: "fork fr snap sp k = Some (x, k')"
  shows "fds_ok k' \<and> (x = - 1 \<and> failed_process k k' \<or>
    (\<exists>c. born (Some p) c k k' \<and> x = ucast (pr_pid (k_procs k' ! c)) \<and> pr_files (k_procs k' ! c) = pr_files (k_procs k ! p) \<and>
       (if pr_trap_frame (k_procs k ! p) \<noteq> 0 then user_child fr p c k k' else kernel_child snap sp p c k k')))"
  using ok uc p r
proof (cases rule: fork_cases)
  case failed
  then show ?thesis by simp
next
  case (child c k3)
  show ?thesis
  proof (cases "pr_trap_frame (k_procs k ! p) \<noteq> 0")
    case True
    then show ?thesis using fork_user_effect [OF child(1) p(2) fds_okD(1) [OF ok], of fr x k'] child(2) by auto
  next
    case False
    then show ?thesis using fork_kernel_effect [OF child(1) p(2) fds_okD(1) [OF ok], of snap sp x k'] child(2) by auto
  qed
qed


text \<open>A kernel with one process, in user mode, that holds the open files of the example file table.\<close>

definition static_process :: Process where
  "static_process = \<lparr>pr_pid = 0, pr_state = Unused, pr_context = 0, pr_kernel_stack = 0, pr_entry = 0, pr_entry_arg = 0, pr_name = [], pr_pml4 = None,
     pr_sleep_channel = NoChannel, pr_parent = None, pr_exit_status = 0, pr_trap_frame = 0, pr_files = no_files\<rparr>"

definition demo_kernel :: "(u64 \<Rightarrow> bytes) cache kernel" where
  "demo_kernel = \<lparr>k_procs = static_process\<lparr>pr_pid := 1, pr_state := Running, pr_kernel_stack := 0xFFFF900000001000, pr_trap_frame := 0xFFFF900000004F80,
       pr_files := [Some 0, Some 0, Some 1] @ replicate 13 None\<rparr> # replicate 63 static_process,
     k_next_pid = 2, k_initialized = True, k_current = Some 0, k_scheduler_context = 0, k_init_proc = None, k_heap = demo_heap,
     k_stacks = (\<lambda>_. 7), k_fs = ram_files, k_rsp0 = 0, k_interrupts = False\<rparr>"

lemma demo_kernel_procs:
  "length (k_procs demo_kernel) = MAX_PROCESSES" "k_procs demo_kernel ! 0 = static_process\<lparr>pr_pid := 1, pr_state := Running,
     pr_kernel_stack := 0xFFFF900000001000, pr_trap_frame := 0xFFFF900000004F80, pr_files := [Some 0, Some 0, Some 1] @ replicate 13 None\<rparr>"
  "0 < i \<Longrightarrow> i < MAX_PROCESSES \<Longrightarrow> k_procs demo_kernel ! i = static_process"
  by (simp_all add: demo_kernel_def MAX_PROCESSES_def)

lemma demo_fd:
  "i < MAX_PROCESSES \<Longrightarrow> fd < NUM_OPEN_FILES \<Longrightarrow>
     fd_of demo_kernel i fd = (if i = 0 \<and> fd \<le> 1 then Some 0 else if i = 0 \<and> fd = 2 then Some 1 else None)"
proof (cases "i = 0")
  case True
  assume "fd < NUM_OPEN_FILES"
  then have "fd \<in> {0, 1, 2} \<or> fd - 3 < 13 \<and> 2 < fd" by (auto simp: NUM_OPEN_FILES_def)
  then show ?thesis using True by (auto simp: demo_kernel_procs(2) nth_append)
qed (simp add: demo_kernel_procs(3) static_process_def)

lemma demo_kernel_ok: "fds_ok demo_kernel" "unused_clean demo_kernel" "heap_usable (k_heap demo_kernel)"
proof -
  have lens: "length (pr_files (k_procs demo_kernel ! i)) = NUM_OPEN_FILES" if "i < MAX_PROCESSES" for i
    using that demo_kernel_procs(2,3) by (cases "i = 0") (simp_all add: static_process_def NUM_OPEN_FILES_def)
  have refs: "fd_refs demo_kernel f = (if f = 0 then 2 else if f = 1 then 1 else 0)" for f
  proof -
    have "fd_refs demo_kernel f = (\<Sum>(i, fd) \<in> {(0, 0), (0, 1), (0, 2)}. if fd_of demo_kernel i fd = Some f then 1 else 0)"
      unfolding fd_refs_def by (rule sum.mono_neutral_right) (auto simp: demo_fd MAX_PROCESSES_def NUM_OPEN_FILES_def split: if_splits)
    then show ?thesis using demo_fd [of 0 0] demo_fd [of 0 1] demo_fd [of 0 2] by (simp add: MAX_PROCESSES_def NUM_OPEN_FILES_def)
  qed
  have cnt: "f_refcnt (file_table (k_fs demo_kernel) ! f) = fd_refs demo_kernel f" if "f < NUM_FILES" for f
    using ram_files_table(2,3) ram_files_table(4) [of f] that refs [of f] by (cases "f = 0 \<or> f = 1") (auto simp: demo_kernel_def File_init_def)
  have fs: "k_fs demo_kernel = ram_files" by (simp add: demo_kernel_def)
  have rng: "f < NUM_FILES" if "i < MAX_PROCESSES" "fd < NUM_OPEN_FILES" "fd_of demo_kernel i fd = Some f" for i fd f
    using demo_fd [OF that(1,2)] that(3) by (auto simp: NUM_FILES_def split: if_splits)
  show "fds_ok demo_kernel" unfolding fds_ok_def using demo_kernel_procs(1) lens cnt rng ram_files_ok fs by auto
  have "pr_files (k_procs demo_kernel ! i) = no_files" if "i < MAX_PROCESSES" "pr_state (k_procs demo_kernel ! i) = Unused" for i
    using that demo_kernel_procs(2,3) by (cases "i = 0") (simp_all add: static_process_def)
  then show "unused_clean demo_kernel" by (simp add: unused_clean_def demo_kernel_procs(1))
  have "unat (hp_virt_end demo_heap) + 24576 < 2 ^ 64"
    by (simp add: demo_heap_inv(2) KERNEL_HEAP_END_def KERNEL_HEAP_BASE_def KERNEL_HEAP_SIZE_def)
  then show "heap_usable (k_heap demo_kernel)" using demo_heap_inv(1) by (auto simp: heap_usable_def demo_kernel_def)
qed


end
