(* ===== verification/Process_Steps.thy ===== *)
theory Process_Steps
  imports Process_Invariant
begin

text \<open>
  The process table as a transition system: the operations of \<open>include/process.cpp\<close> as steps from any
  state, the invariant of the reachable states (one running process, live parents, no process
  waiting beside an exited child), and the bounded waiting time of the round-robin scheduler.
\<close>

section \<open>The invariant\<close>

abbreviation st :: "'s kernel \<Rightarrow> nat \<Rightarrow> ProcessState" where "st k i \<equiv> pr_state (k_procs k ! i)"
abbreviation par :: "'s kernel \<Rightarrow> nat \<Rightarrow> nat option" where "par k i \<equiv> pr_parent (k_procs k ! i)"
abbreviation chan :: "'s kernel \<Rightarrow> nat \<Rightarrow> Channel" where "chan k i \<equiv> pr_sleep_channel (k_procs k ! i)"

definition alive :: "'s kernel \<Rightarrow> nat \<Rightarrow> bool" where
  "alive k i \<longleftrightarrow> i < MAX_PROCESSES \<and> st k i \<noteq> Unused \<and> st k i \<noteq> Zombie"

text \<open>
  Parents and the first process are alive. A process that sleeps on a process sleeps on itself,
  in \<open>wait\<close>; it has a child, and no child of it has exited.
\<close>

definition family_ok :: "'s kernel \<Rightarrow> bool" where
  "family_ok k \<longleftrightarrow> length (k_procs k) = MAX_PROCESSES \<and>
     (\<forall>i < MAX_PROCESSES. \<forall>q. st k i \<noteq> Unused \<longrightarrow> par k i = Some q \<longrightarrow> alive k q) \<and>
     (\<forall>q. k_init_proc k = Some q \<longrightarrow> alive k q) \<and>
     (\<forall>i < MAX_PROCESSES. \<forall>q. st k i = Sleeping \<longrightarrow> chan k i = ProcessChannel q \<longrightarrow>
        q = i \<and> (\<exists>c < MAX_PROCESSES. st k c \<noteq> Unused \<and> par k c = Some i) \<and>
        (\<forall>c < MAX_PROCESSES. par k c = Some i \<longrightarrow> st k c \<noteq> Zombie))"

definition running_ok :: "'s kernel \<Rightarrow> bool" where
  "running_ok k \<longleftrightarrow> (\<forall>i < MAX_PROCESSES. st k i = Running \<longleftrightarrow> k_current k = Some i) \<and> (\<forall>i. k_current k = Some i \<longrightarrow> i < MAX_PROCESSES)"

definition table_ok :: "'s kernel \<Rightarrow> bool" where
  "table_ok k \<longleftrightarrow> fds_ok k \<and> unused_clean k \<and> family_ok k \<and> running_ok k"

lemma family_okD:
  assumes "family_ok k"
  shows "length (k_procs k) = MAX_PROCESSES"
    "i < MAX_PROCESSES \<Longrightarrow> st k i \<noteq> Unused \<Longrightarrow> par k i = Some q \<Longrightarrow> alive k q" "k_init_proc k = Some q \<Longrightarrow> alive k q"
    "i < MAX_PROCESSES \<Longrightarrow> st k i = Sleeping \<Longrightarrow> chan k i = ProcessChannel q \<Longrightarrow> q = i"
    "i < MAX_PROCESSES \<Longrightarrow> st k i = Sleeping \<Longrightarrow> chan k i = ProcessChannel q \<Longrightarrow> \<exists>c < MAX_PROCESSES. st k c \<noteq> Unused \<and> par k c = Some i"
    "i < MAX_PROCESSES \<Longrightarrow> st k i = Sleeping \<Longrightarrow> chan k i = ProcessChannel q \<Longrightarrow> c < MAX_PROCESSES \<Longrightarrow> par k c = Some i \<Longrightarrow> st k c \<noteq> Zombie"
  using assms unfolding family_ok_def by blast+

lemma running_okD:
  assumes "running_ok k"
  shows "k_current k = Some i \<Longrightarrow> i < MAX_PROCESSES \<and> st k i = Running" "i < MAX_PROCESSES \<Longrightarrow> st k i = Running \<Longrightarrow> k_current k = Some i"
  using assms unfolding running_ok_def by blast+

lemma table_okD:
  assumes "table_ok k"
  shows "fds_ok k" "unused_clean k" "family_ok k" "running_ok k"
  using assms by (simp_all add: table_ok_def)

abbreviation active :: "ProcessState \<Rightarrow> bool" where
  "active s \<equiv> s = Runnable \<or> s = Running \<or> s = Sleeping"

text \<open>Changes among the states of live processes that let nobody fall asleep in \<open>wait\<close>.\<close>

definition mild :: "'s kernel \<Rightarrow> 's kernel \<Rightarrow> bool" where
  "mild k k' \<longleftrightarrow> length (k_procs k') = length (k_procs k) \<and> k_init_proc k' = k_init_proc k \<and>
     (\<forall>j < length (k_procs k). par k' j = par k j \<and>
        (st k' j = st k j \<and> (st k j = Sleeping \<longrightarrow> chan k' j = chan k j) \<or>
         active (st k j) \<and> active (st k' j) \<and> (st k' j = Sleeping \<longrightarrow> (\<forall>q. chan k' j \<noteq> ProcessChannel q))))"

lemma mildD:
  assumes "mild k k'" "j < length (k_procs k)"
  shows "par k' j = par k j" "st k' j = Unused \<longleftrightarrow> st k j = Unused" "st k' j = Zombie \<longleftrightarrow> st k j = Zombie"
    "st k' j = Sleeping \<Longrightarrow> chan k' j = ProcessChannel q \<Longrightarrow> st k j = Sleeping \<and> chan k j = ProcessChannel q"
  using assms unfolding mild_def by fastforce+

lemma mild_trans:
  assumes 1: "mild k k1" and 2: "mild k1 k2"
  shows "mild k k2"
proof -
  have l: "length (k_procs k1) = length (k_procs k)" using 1 by (simp add: mild_def)
  have "par k2 j = par k j \<and> (st k2 j = st k j \<and> (st k j = Sleeping \<longrightarrow> chan k2 j = chan k j) \<or>
         active (st k j) \<and> active (st k2 j) \<and> (st k2 j = Sleeping \<longrightarrow> (\<forall>q. chan k2 j \<noteq> ProcessChannel q)))" if "j < length (k_procs k)" for j
    using 1 2 that l unfolding mild_def by (metis (no_types, lifting) ProcessState.distinct)
  then show ?thesis using 1 2 by (simp add: mild_def)
qed

lemma family_mild:
  assumes ok: "family_ok k" and m: "mild k k'"
  shows "family_ok k'"
proof -
  have l: "length (k_procs k) = MAX_PROCESSES" using family_okD(1) [OF ok] .
  note d = mildD [OF m, unfolded l]
  have alive: "alive k' q = alive k q" for q using d(2,3) [of q] by (auto simp: alive_def)
  have s: "q = i \<and> (\<exists>c < MAX_PROCESSES. st k' c \<noteq> Unused \<and> par k' c = Some i) \<and> (\<forall>c < MAX_PROCESSES. par k' c = Some i \<longrightarrow> st k' c \<noteq> Zombie)"
    if "i < MAX_PROCESSES" "st k' i = Sleeping" "chan k' i = ProcessChannel q" for i q
    using family_okD(4-6) [OF ok that(1)] d(4) [OF that] d(1-3) by metis
  have l': "length (k_procs k') = MAX_PROCESSES" "k_init_proc k' = k_init_proc k" using m l by (simp_all add: mild_def)
  show ?thesis unfolding family_ok_def using l' s family_okD(2,3) [OF ok] alive d(1,2) by metis
qed

text \<open>Such changes that also leave the open files alone.\<close>

definition quiet :: "'s kernel \<Rightarrow> 's kernel \<Rightarrow> bool" where
  "quiet k k' \<longleftrightarrow> mild k k' \<and> k_fs k' = k_fs k \<and> (\<forall>j < length (k_procs k). pr_files (k_procs k' ! j) = pr_files (k_procs k ! j))"

lemma quiet_trans:
  assumes "quiet k k1" "quiet k1 k2"
  shows "quiet k k2"
proof -
  have "mild k k1" "mild k1 k2" "length (k_procs k1) = length (k_procs k)" using assms by (simp_all add: quiet_def mild_def)
  then show ?thesis using mild_trans [of k k1 k2] assms by (simp add: quiet_def)
qed

lemma quiet_ok:
  assumes q: "quiet k k'" and ok: "fds_ok k" "unused_clean k" "family_ok k"
  shows "fds_ok k'" "unused_clean k'" "family_ok k'"
proof -
  have m: "mild k k'" using q by (simp add: quiet_def)
  have l: "length (k_procs k) = MAX_PROCESSES" "length (k_procs k') = length (k_procs k)" using fds_okD(1) [OF ok(1)] m by (simp_all add: mild_def)
  show "fds_ok k'" by (rule fds_ok_cong [OF ok(1)]) (use q l in \<open>simp_all add: quiet_def\<close>)
  show "unused_clean k'" using ok(2) q mildD(2) [OF m] l unfolding unused_clean_def quiet_def by simp
  show "family_ok k'" by (rule family_mild [OF ok(3) m])
qed

section \<open>Choosing the next process\<close>

lemma length_candidates [simp]: "length (candidates prev) = MAX_PROCESSES"
  by (simp add: candidates_def Let_def)

abbreviation base :: "nat option \<Rightarrow> nat" where
  "base prev \<equiv> (case prev of None \<Rightarrow> 0 | Some i \<Rightarrow> Suc i)"

text \<open>The candidates are the slots in cyclic order from the one after \<open>prev\<close>.\<close>

lemma nth_candidates:
  assumes "n < MAX_PROCESSES" "\<forall>i. prev = Some i \<longrightarrow> i < MAX_PROCESSES"
  shows "candidates prev ! n = (base prev + n) mod MAX_PROCESSES"
proof (cases prev)
  case None
  have "(- 1 :: u64) + of_nat (1 + n) = of_nat n" by simp
  moreover have "n < 2 ^ 64" using assms(1) by (simp add: MAX_PROCESSES_def)
  ultimately show ?thesis using assms(1) None
    by (simp add: candidates_def Let_def unat_mod unat_of_nat MAX_PROCESSES_def take_bit_nat_eq_self del: of_nat_Suc)
next
  case (Some i)
  have "(of_nat i :: u64) + of_nat (1 + n) = of_nat (Suc i + n)" by simp
  moreover have "Suc i + n < 2 ^ 64" using assms Some by (simp add: MAX_PROCESSES_def)
  ultimately show ?thesis using assms(1) Some
    by (simp add: candidates_def Let_def unat_mod unat_of_nat MAX_PROCESSES_def take_bit_nat_eq_self del: of_nat_Suc)
qed

lemma candidates_bound: "i \<in> set (candidates prev) \<Longrightarrow> i < MAX_PROCESSES"
  by (auto simp: candidates_def Let_def unat_mod MAX_PROCESSES_def)

lemma next_runnable_Some:
  assumes "next_runnable prev k = Some i"
  shows "i < MAX_PROCESSES" "st k i = Runnable"
  using find_Some_props [OF assms [unfolded next_runnable_def]] candidates_bound [of i prev] by auto

lemma enter_process_simps [simp]:
  "k_procs (enter_process i k) = k_procs k" "k_current (enter_process i k) = k_current k" "k_init_proc (enter_process i k) = k_init_proc k"
  "k_fs (enter_process i k) = k_fs k"
  by (auto simp: enter_process_def Let_def split: option.split)

lemma switch_context_simps [simp]:
  "length (k_procs (switch_context prev saved k)) = length (k_procs k)" "k_current (switch_context prev saved k) = k_current k"
  "k_init_proc (switch_context prev saved k) = k_init_proc k" "k_fs (switch_context prev saved k) = k_fs k"
  "j < length (k_procs k) \<Longrightarrow> st (switch_context prev saved k) j = st k j"
  "j < length (k_procs k) \<Longrightarrow> par (switch_context prev saved k) j = par k j"
  "j < length (k_procs k) \<Longrightarrow> chan (switch_context prev saved k) j = chan k j"
  "j < length (k_procs k) \<Longrightarrow> pr_files (k_procs (switch_context prev saved k) ! j) = pr_files (k_procs k ! j)"
  by (auto simp: switch_context_def split: option.split)

lemma run_process_simps [simp]:
  "length (k_procs (run_process i k)) = length (k_procs k)" "k_current (run_process i k) = Some i" "k_init_proc (run_process i k) = k_init_proc k"
  "k_fs (run_process i k) = k_fs k"
  "j < length (k_procs k) \<Longrightarrow> k_procs (run_process i k) ! j = (if j = i then (k_procs k ! j)\<lparr>pr_state := Running\<rparr> else k_procs k ! j)"
  by (simp_all add: run_process_def)

text \<open>A scheduling decision: the chosen process, if any, runs; nothing else changes in the table.\<close>

definition decides :: "nat option \<Rightarrow> 's kernel \<Rightarrow> 's kernel \<Rightarrow> bool" where
  "decides n k k' \<longleftrightarrow> length (k_procs k') = length (k_procs k) \<and> k_init_proc k' = k_init_proc k \<and> k_fs k' = k_fs k \<and> k_current k' = n \<and>
     (\<forall>j < length (k_procs k). st k' j = (if n = Some j then Running else st k j) \<and> par k' j = par k j \<and> chan k' j = chan k j \<and>
        pr_files (k_procs k' ! j) = pr_files (k_procs k ! j))"

lemma schedule_decides:
  assumes "prev = None \<Longrightarrow> k_current k = None"
  shows "decides (next_runnable prev k) k (schedule prev saved k)"
  using assms unfolding decides_def schedule_def Let_def by (auto split: option.split)

lemma schedule_from_zombie_decides: "decides (next_runnable (k_current k) k) k (schedule_from_zombie k)"
  unfolding decides_def schedule_from_zombie_def by (auto split: option.split)

lemma decides_quiet:
  assumes "decides (next_runnable prev k) k k'"
  shows "quiet k k'"
  using assms next_runnable_Some(2) [of prev k] unfolding quiet_def mild_def decides_def by auto

lemma decides_running:
  assumes "decides (next_runnable prev k) k k'" "length (k_procs k) = MAX_PROCESSES" "\<And>i. i < MAX_PROCESSES \<Longrightarrow> st k i \<noteq> Running"
  shows "running_ok k'"
  using assms next_runnable_Some(1) [of prev k] unfolding running_ok_def decides_def by auto

text \<open>The shared end of every operation that gives up the processor.\<close>

lemma decides_ok:
  assumes "decides (next_runnable prev k) k k'" "fds_ok k" "unused_clean k" "family_ok k" "\<And>i. i < MAX_PROCESSES \<Longrightarrow> st k i \<noteq> Running"
  shows "table_ok k'"
  using quiet_ok [OF decides_quiet [OF assms(1)] assms(2-4)] decides_running [OF assms(1) fds_okD(1) [OF assms(2)] assms(5)]
  by (simp add: table_ok_def)

section \<open>The operations keep the invariant\<close>

text \<open>The current process leaves the running state.\<close>

lemma demote_quiet:
  assumes ok: "table_ok k" and i: "k_current k = Some i" and f: "\<And>p. pr_parent (f p) = pr_parent p \<and> pr_files (f p) = pr_files p"
    "active (pr_state (f (k_procs k ! i)))" "pr_state (f (k_procs k ! i)) = Sleeping \<Longrightarrow> \<forall>q. pr_sleep_channel (f (k_procs k ! i)) \<noteq> ProcessChannel q"
  shows "quiet k (set_proc i f k)"
proof -
  have r: "st k i = Running" using running_okD(1) [OF table_okD(4) [OF ok] i] by simp
  show ?thesis unfolding quiet_def mild_def using f r by auto
qed

lemma demote_no_running:
  assumes ok: "table_ok k" and i: "k_current k = Some i" and f: "pr_state (f (k_procs k ! i)) \<noteq> Running" and j: "j < MAX_PROCESSES"
  shows "st (set_proc i f k) j \<noteq> Running"
proof -
  have "st k j = Running \<Longrightarrow> j = i" using running_okD(2) [OF table_okD(4) [OF ok] j] i by auto
  then show ?thesis using f j fds_okD(1) [OF table_okD(1) [OF ok]] by auto
qed

lemma yield_decides:
  assumes ok: "table_ok k"
  obtains k1 where "quiet k k1" "\<And>i. i < MAX_PROCESSES \<Longrightarrow> st k1 i = (if k_current k = Some i then Runnable else st k i)"
    "decides (next_runnable (k_current k) k1) k1 (yield_cpu saved k)" "\<And>i. i < MAX_PROCESSES \<Longrightarrow> st k1 i \<noteq> Running"
proof (cases "k_current k")
  case None
  have no: "st k i \<noteq> Running" if "i < MAX_PROCESSES" for i using running_okD(2) [OF table_okD(4) [OF ok] that] None by auto
  have "yield_cpu saved k = schedule None saved k" by (simp add: yield_cpu_def None)
  then show thesis using that [of k] no None schedule_decides [of None k saved] by (simp add: quiet_def mild_def)
next
  case (Some i)
  let ?k1 = "set_proc i (\<lambda>p. p\<lparr>pr_state := Runnable\<rparr>) k"
  have r: "i < MAX_PROCESSES" "st k i = Running" using running_okD(1) [OF table_okD(4) [OF ok] Some] by simp_all
  have "yield_cpu saved k = schedule (Some i) saved ?k1" by (simp add: yield_cpu_def Some r Let_def)
  moreover have "quiet k ?k1" by (rule demote_quiet [OF ok Some]) simp_all
  moreover have "st ?k1 j = (if i = j then Runnable else st k j)" if "j < MAX_PROCESSES" for j
    using that fds_okD(1) [OF table_okD(1) [OF ok]] by simp
  ultimately show thesis using that [of ?k1] Some schedule_decides [of "Some i" ?k1 saved] demote_no_running [OF ok Some, of "\<lambda>p. p\<lparr>pr_state := Runnable\<rparr>"] by simp
qed

lemma yield_ok:
  assumes "table_ok k"
  shows "table_ok (yield_cpu saved k)"
proof -
  obtain k1 where "quiet k k1" and d: "decides (next_runnable (k_current k) k1) k1 (yield_cpu saved k)" "\<And>i. i < MAX_PROCESSES \<Longrightarrow> st k1 i \<noteq> Running"
    using yield_decides [OF assms] by metis
  then have "fds_ok k1" "unused_clean k1" "family_ok k1" using quiet_ok table_okD [OF assms] by blast+
  with decides_ok [OF d(1)] d(2) show ?thesis by blast
qed

lemma interrupts_ok:
  assumes "table_ok k"
  shows "table_ok (k\<lparr>k_interrupts := b\<rparr>)"
proof -
  have "quiet k (k\<lparr>k_interrupts := b\<rparr>)" by (simp add: quiet_def mild_def)
  moreover have "running_ok (k\<lparr>k_interrupts := b\<rparr>)" using table_okD(4) [OF assms] by (simp add: running_ok_def)
  ultimately show ?thesis using quiet_ok [OF _ table_okD(1-3) [OF assms]] by (simp add: table_ok_def)
qed

lemma sleep_ok:
  assumes ok: "table_ok k" and c: "\<forall>q. c \<noteq> ProcessChannel q"
  shows "table_ok (sleep c saved k)"
proof (cases "k_current k")
  case None
  then show ?thesis using ok by (simp add: sleep_def)
next
  case (Some i)
  define f where "f = (\<lambda>p :: Process. p\<lparr>pr_sleep_channel := c, pr_state := Sleeping\<rparr>)"
  let ?k0 = "k\<lparr>k_interrupts := False\<rparr>"
  have ok0: "table_ok ?k0" "k_current ?k0 = Some i" using interrupts_ok [OF ok] Some by simp_all
  have q: "quiet ?k0 (set_proc i f ?k0)" by (rule demote_quiet [OF ok0]) (use c in \<open>simp_all add: f_def\<close>)
  have n: "st (set_proc i f ?k0) j \<noteq> Running" if "j < MAX_PROCESSES" for j
    by (rule demote_no_running [OF ok0 _ that]) (simp add: f_def)
  have "sleep c saved k = schedule (Some i) saved (set_proc i f ?k0)" by (simp add: sleep_def Some f_def)
  then show ?thesis using decides_ok [OF schedule_decides, of "Some i" "set_proc i f ?k0" saved] quiet_ok [OF q table_okD(1-3) [OF ok0(1)]] n by simp
qed

lemma resume_ok:
  assumes ok: "table_ok k" and i: "k_current k = Some i"
  shows "table_ok (sleep_resume i k)"
proof -
  have r: "i < MAX_PROCESSES" "st k i = Running" using running_okD(1) [OF table_okD(4) [OF ok] i] by simp_all
  have l: "length (k_procs k) = MAX_PROCESSES" using fds_okD(1) [OF table_okD(1) [OF ok]] .
  have q: "quiet k (sleep_resume i k)" using r by (auto simp: quiet_def mild_def sleep_resume_def)
  have "running_ok (sleep_resume i k)" using table_okD(4) [OF ok] l by (simp add: running_ok_def sleep_resume_def)
  then show ?thesis using quiet_ok [OF q table_okD(1-3) [OF ok]] by (simp add: table_ok_def)
qed

lemma wakeup_simps:
  "length (k_procs (wakeup c k)) = length (k_procs k)" "k_current (wakeup c k) = k_current k" "k_init_proc (wakeup c k) = k_init_proc k"
  "k_fs (wakeup c k) = k_fs k"
  "j < length (k_procs k) \<Longrightarrow> k_procs (wakeup c k) ! j = (if st k j = Sleeping \<and> chan k j = c then (k_procs k ! j)\<lparr>pr_state := Runnable\<rparr> else k_procs k ! j)"
  by (simp_all add: wakeup_def)

lemma wakeup_quiet: "quiet k (wakeup c k)"
  by (auto simp: quiet_def mild_def wakeup_simps)

lemma wakeup_ok:
  assumes ok: "table_ok k"
  shows "table_ok (wakeup c k)"
proof -
  have l: "length (k_procs k) = MAX_PROCESSES" using fds_okD(1) [OF table_okD(1) [OF ok]] .
  have "running_ok (wakeup c k)" using table_okD(4) [OF ok] l by (auto simp: running_ok_def wakeup_simps)
  then show ?thesis using quiet_ok [OF wakeup_quiet table_okD(1-3) [OF ok]] by (simp add: table_ok_def)
qed

text \<open>Slots: a failed creation, and a new process.\<close>

lemma only_slotD:
  assumes "only_slot i k k'" "length (k_procs k) = MAX_PROCESSES"
  shows "length (k_procs k') = MAX_PROCESSES" "k_current k' = k_current k" "k_init_proc k' = k_init_proc k"
    "j < MAX_PROCESSES \<Longrightarrow> j \<noteq> i \<Longrightarrow> k_procs k' ! j = k_procs k ! j"
  using assms by (simp_all add: only_slot_def)

lemma slot_unused_clean:
  assumes "unused_clean k" "only_slot i k k'" "length (k_procs k) = MAX_PROCESSES" "st k' i = Unused \<Longrightarrow> pr_files (k_procs k' ! i) = no_files"
  shows "unused_clean k'"
  using assms only_slotD [OF assms(2,3)] unfolding unused_clean_def by (metis)

text \<open>
  The slot \<open>i\<close> changes, which was unused or an exited process, and is not a parent: the family stays
  well-formed when the slot's new parent is alive, it does not sleep, and nobody waits for what was
  in it.
\<close>

lemma slot_family:
  assumes ok: "family_ok k" and o: "only_slot i k k'" and i: "i < MAX_PROCESSES" "\<not> alive k i" "st k' i \<noteq> Sleeping" "st k' i \<noteq> Zombie"
    and p: "\<And>q. st k' i \<noteq> Unused \<Longrightarrow> par k' i = Some q \<Longrightarrow> alive k q" "\<And>q. st k i \<noteq> Unused \<Longrightarrow> par k i = Some q \<Longrightarrow> st k q \<noteq> Sleeping"
  shows "family_ok k'"
proof -
  have l: "length (k_procs k) = MAX_PROCESSES" using family_okD(1) [OF ok] .
  note d = only_slotD [OF o l]
  have alive: "alive k q \<Longrightarrow> alive k' q" for q using d(4) [of q] i(2) unfolding alive_def by (cases "q = i") auto
  have 1: "alive k' q" if "j < MAX_PROCESSES" "st k' j \<noteq> Unused" "par k' j = Some q" for j q
    using that d(4) [of j] p(1) family_okD(2) [OF ok] alive by (cases "j = i") auto
  have 2: "q = j \<and> (\<exists>c < MAX_PROCESSES. st k' c \<noteq> Unused \<and> par k' c = Some j) \<and> (\<forall>c < MAX_PROCESSES. par k' c = Some j \<longrightarrow> st k' c \<noteq> Zombie)"
    if j: "j < MAX_PROCESSES" "st k' j = Sleeping" "chan k' j = ProcessChannel q" for j q
  proof -
    have ji: "j \<noteq> i" using j i(3) by auto
    then have jk: "st k j = Sleeping" "chan k j = ProcessChannel q" using j d(4) by simp_all
    obtain c where c: "c < MAX_PROCESSES" "st k c \<noteq> Unused" "par k c = Some j" using family_okD(5) [OF ok j(1) jk] by blast
    have "c \<noteq> i" using c(2,3) p(2) jk(1) by auto
    then have "st k' c \<noteq> Unused \<and> par k' c = Some j" using c d(4) by simp
    moreover have "st k' e \<noteq> Zombie" if "e < MAX_PROCESSES" "par k' e = Some j" for e
      using that i(4) d(4) [of e] family_okD(6) [OF ok j(1) jk] by (cases "e = i") auto
    ultimately show ?thesis using c(1) family_okD(4) [OF ok j(1) jk] by blast
  qed
  show ?thesis unfolding family_ok_def using d(1,3) 1 2 family_okD(3) [OF ok] alive by metis
qed

lemma slot_running:
  assumes "running_ok k" "only_slot i k k'" "length (k_procs k) = MAX_PROCESSES" "st k i \<noteq> Running" "st k' i \<noteq> Running"
  shows "running_ok k'"
  using assms only_slotD [OF assms(2,3)] unfolding running_ok_def by metis

lemma failed_ok:
  assumes ok: "table_ok k" and fd: "fds_ok k'" and f: "failed_process k k'"
  shows "table_ok k'"
proof (cases "k' = k")
  case False
  then obtain i where i: "i < MAX_PROCESSES" "st k i = Unused" "only_slot i k k'" "st k' i = Unused" "pr_files (k_procs k' ! i) = no_files"
    using f by (auto simp: failed_process_def)
  have l: "length (k_procs k) = MAX_PROCESSES" using fds_okD(1) [OF table_okD(1) [OF ok]] .
  have "family_ok k'" by (rule slot_family [OF table_okD(3) [OF ok] i(3,1)]) (use i in \<open>auto simp: alive_def\<close>)
  moreover have "running_ok k'" by (rule slot_running [OF table_okD(4) [OF ok] i(3) l]) (use i in auto)
  ultimately show ?thesis using fd slot_unused_clean [OF table_okD(2) [OF ok] i(3) l i(5)] by (simp add: table_ok_def)
qed (use ok in simp)

lemma born_ok:
  assumes ok: "table_ok k" and fd: "fds_ok k'" and b: "born q i k k'" and q: "\<And>p. q = Some p \<Longrightarrow> alive k p"
  shows "table_ok k'"
proof -
  have i: "i < MAX_PROCESSES" "st k i = Unused" "only_slot i k k'" "st k' i = Runnable" "par k' i = q" using b by (simp_all add: born_def)
  have l: "length (k_procs k) = MAX_PROCESSES" using fds_okD(1) [OF table_okD(1) [OF ok]] .
  have "family_ok k'" by (rule slot_family [OF table_okD(3) [OF ok] i(3,1)]) (use i q in \<open>auto simp: alive_def\<close>)
  moreover have "running_ok k'" by (rule slot_running [OF table_okD(4) [OF ok] i(3) l]) (use i in auto)
  moreover have "unused_clean k'" by (rule slot_unused_clean [OF table_okD(2) [OF ok] i(3) l]) (use i in simp)
  ultimately show ?thesis using fd by (simp add: table_ok_def)
qed

lemma reap_ok:
  assumes ok: "table_ok k" and p: "k_current k = Some p" and i: "i < MAX_PROCESSES" "st k i = Zombie" "par k i = Some p"
  shows "table_ok (free_process_resources i k)"
proof -
  have l: "length (k_procs k) = MAX_PROCESSES" using fds_okD(1) [OF table_okD(1) [OF ok]] .
  have r: "st k p = Running" using running_okD(1) [OF table_okD(4) [OF ok] p] by simp
  note f = free_effect [OF table_okD(1) [OF ok] i(1)]
  have "family_ok (free_process_resources i k)"
    by (rule slot_family [OF table_okD(3) [OF ok] f(2) i(1)]) (use i f(3) r in \<open>auto simp: alive_def\<close>)
  moreover have "running_ok (free_process_resources i k)"
    by (rule slot_running [OF table_okD(4) [OF ok] f(2) l]) (use i f(3) in auto)
  ultimately show ?thesis using f(1) slot_unused_clean [OF table_okD(2) [OF ok] f(2) l f(4)] by (simp add: table_ok_def)
qed

text \<open>Falling asleep in \<open>wait\<close>: there is a child, and none has exited.\<close>

lemma sleep_wait_ok:
  assumes ok: "table_ok k" and p: "k_current k = Some p"
    and c: "c < MAX_PROCESSES" "st k c \<noteq> Unused" "par k c = Some p" and z: "\<And>c. c < MAX_PROCESSES \<Longrightarrow> par k c = Some p \<Longrightarrow> st k c \<noteq> Zombie"
  shows "table_ok (sleep (ProcessChannel p) saved k)"
proof -
  define f where "f = (\<lambda>q :: Process. q\<lparr>pr_sleep_channel := ProcessChannel p, pr_state := Sleeping\<rparr>)"
  let ?k0 = "k\<lparr>k_interrupts := False\<rparr>"
  have ok0: "table_ok ?k0" "k_current ?k0 = Some p" using interrupts_ok [OF ok] p by simp_all
  let ?k1 = "set_proc p f ?k0"
  have l: "length (k_procs k) = MAX_PROCESSES" using fds_okD(1) [OF table_okD(1) [OF ok]] .
  have r: "p < MAX_PROCESSES" "st k p = Running" using running_okD(1) [OF table_okD(4) [OF ok] p] by simp_all
  have kj: "k_procs ?k1 ! j = (if j = p then f (k_procs k ! j) else k_procs k ! j)" if "j < MAX_PROCESSES" for j using that l by simp
  have par: "par ?k1 j = par k j" "st ?k1 j = Unused \<longleftrightarrow> st k j = Unused" "st ?k1 j = Zombie \<longleftrightarrow> st k j = Zombie"
    "pr_files (k_procs ?k1 ! j) = pr_files (k_procs k ! j)" if "j < MAX_PROCESSES" for j
    using kj [OF that] r by (auto simp: f_def)
  have alive: "alive ?k1 q = alive k q" for q using par(2,3) [of q] unfolding alive_def by blast
  have sl: "q = j \<and> (\<exists>c < MAX_PROCESSES. st ?k1 c \<noteq> Unused \<and> par ?k1 c = Some j) \<and> (\<forall>c < MAX_PROCESSES. par ?k1 c = Some j \<longrightarrow> st ?k1 c \<noteq> Zombie)"
    if j: "j < MAX_PROCESSES" "st ?k1 j = Sleeping" "chan ?k1 j = ProcessChannel q" for j q
  proof (cases "j = p")
    case True
    have "q = p" using j kj [OF j(1)] True by (simp add: f_def)
    moreover have "st ?k1 c \<noteq> Unused \<and> par ?k1 c = Some p" using c par [OF c(1)] by simp
    moreover have "st ?k1 d \<noteq> Zombie" if "d < MAX_PROCESSES" "par ?k1 d = Some p" for d using z [OF that(1)] par [OF that(1)] that(2) by simp
    ultimately show ?thesis using True c(1) by blast
  next
    case False
    then have jk: "st k j = Sleeping" "chan k j = ProcessChannel q" using j kj [OF j(1)] by simp_all
    show ?thesis using family_okD(4-6) [OF table_okD(3) [OF ok] j(1) jk] par by metis
  qed
  have "family_ok ?k1" unfolding family_ok_def using l sl family_okD(2,3) [OF table_okD(3) [OF ok]] alive par(1,2) by simp
  moreover have "fds_ok ?k1" by (rule fds_ok_cong [OF table_okD(1) [OF ok]]) (use l par(4) in simp_all)
  moreover have "unused_clean ?k1" using table_okD(2) [OF ok] par(2,4) l by (simp add: unused_clean_def)
  moreover have "st ?k1 j \<noteq> Running" if "j < MAX_PROCESSES" for j by (rule demote_no_running [OF ok0 _ that]) (simp add: f_def)
  moreover have "sleep (ProcessChannel p) saved k = schedule (Some p) saved ?k1" by (simp add: sleep_def p f_def)
  ultimately show ?thesis using decides_ok [OF schedule_decides, of "Some p" ?k1 saved] by simp
qed

lemma wait_ok:
  assumes ok: "table_ok k" and p: "k_current k = Some p" and r: "wait_round saved k = (x, k')"
  shows "table_ok k'"
proof -
  have l: "length (k_procs k) = MAX_PROCESSES" using fds_okD(1) [OF table_okD(1) [OF ok]] .
  let ?P = "\<lambda>i. is_child (Some p) k i \<and> st k i = Zombie"
  show ?thesis
  proof (cases "find ?P [0..<length (k_procs k)]")
    case (Some i)
    then have "i < MAX_PROCESSES" "st k i = Zombie" "par k i = Some p" using find_Some_props [OF Some] l by (auto simp: is_child_def)
    moreover have "k' = free_process_resources i k" using r Some by (simp add: wait_round_def Let_def p)
    ultimately show ?thesis using reap_ok [OF ok p] by simp
  next
    case None
    then have z: "st k c \<noteq> Zombie" if "c < MAX_PROCESSES" "par k c = Some p" for c using that l by (auto simp: find_None_props is_child_def)
    show ?thesis
    proof (cases "\<exists>i \<in> set [0..<length (k_procs k)]. is_child (Some p) k i")
      case True
      then obtain c where "c < MAX_PROCESSES" "st k c \<noteq> Unused" "par k c = Some p" using l by (auto simp: is_child_def)
      moreover have "k' = sleep (ProcessChannel p) saved k" using r None True unfolding wait_round_def Let_def p process_pointer_def by (auto split: if_splits)
      ultimately show ?thesis using sleep_wait_ok [OF ok p _ _ _ z] by blast
    next
      case False
      then have "k' = k" using r None unfolding wait_round_def Let_def p by simp
      then show ?thesis using ok by simp
    qed
  qed
qed

text \<open>Some sleeping processes become runnable; parents may change.\<close>

definition woken :: "'s kernel \<Rightarrow> 's kernel \<Rightarrow> bool" where
  "woken k k' \<longleftrightarrow> length (k_procs k') = length (k_procs k) \<and> k_current k' = k_current k \<and> k_init_proc k' = k_init_proc k \<and> k_fs k' = k_fs k \<and>
     (\<forall>j < length (k_procs k). chan k' j = chan k j \<and> pr_files (k_procs k' ! j) = pr_files (k_procs k ! j) \<and>
        (st k' j = st k j \<or> st k j = Sleeping \<and> st k' j = Runnable))"

lemma woken_refl: "woken k k"
  by (simp add: woken_def)

lemma woken_trans:
  assumes 1: "woken k k1" and 2: "woken k1 k2"
  shows "woken k k2"
proof -
  have l: "length (k_procs k1) = length (k_procs k)" using 1 by (simp add: woken_def)
  have "st k2 j = st k j \<or> st k j = Sleeping \<and> st k2 j = Runnable" if "j < length (k_procs k)" for j
    using 1 2 that l unfolding woken_def by (metis ProcessState.distinct(23))
  then show ?thesis using 1 2 by (simp add: woken_def)
qed

lemma woken_wakeup: "woken k (wakeup c k)"
  by (auto simp: woken_def wakeup_simps)

lemma wakeup_par: "j < length (k_procs k) \<Longrightarrow> par (wakeup c k) j = par k j"
  by (simp add: wakeup_simps)

lemma wakeup_clears: "j < length (k_procs k) \<Longrightarrow> \<not> (st (wakeup c k) j = Sleeping \<and> chan (wakeup c k) j = c)"
  by (auto simp: wakeup_simps)

lemma woken_clears: "woken k k' \<Longrightarrow> j < length (k_procs k) \<Longrightarrow> \<not> (st k j = Sleeping \<and> chan k j = c) \<Longrightarrow> \<not> (st k' j = Sleeping \<and> chan k' j = c)"
  unfolding woken_def by auto

text \<open>Whether slot \<open>c\<close> is a child of \<open>p\<close> in the sense of the loop in \<open>exit\<close>.\<close>

abbreviation orphan :: "nat \<Rightarrow> 's kernel \<Rightarrow> nat \<Rightarrow> bool" where
  "orphan p k c \<equiv> st k c \<noteq> Unused \<and> par k c = Some p"

lemma adopt_effect:
  assumes c: "c < length (k_procs k)"
  shows "woken k (adopt p c k)"
    "j < length (k_procs k) \<Longrightarrow> par (adopt p c k) j = (if j = c \<and> orphan p k c then k_init_proc k else par k j)"
    "k_init_proc k = Some r \<Longrightarrow> orphan p k c \<Longrightarrow> st k c = Zombie \<Longrightarrow> j < length (k_procs k) \<Longrightarrow>
       \<not> (st (adopt p c k) j = Sleeping \<and> chan (adopt p c k) j = ProcessChannel r)"
proof -
  let ?k1 = "set_proc c (\<lambda>q. q\<lparr>pr_parent := k_init_proc k\<rparr>) k"
  have w1: "woken k ?k1" by (simp add: woken_def)
  have p1: "par ?k1 j = (if j = c then k_init_proc k else par k j)" if "j < length (k_procs k)" for j using that by simp
  have e: "adopt p c k = (if \<not> orphan p k c then k else if k_init_proc k \<noteq> None \<and> st k c = Zombie then wakeup (process_pointer (k_init_proc k)) ?k1 else ?k1)"
    by (simp add: adopt_def Let_def)
  show "woken k (adopt p c k)" unfolding e using w1 woken_trans [OF w1 woken_wakeup] by (simp add: woken_refl)
  show "j < length (k_procs k) \<Longrightarrow> par (adopt p c k) j = (if j = c \<and> orphan p k c then k_init_proc k else par k j)"
    unfolding e using p1 [of j] wakeup_par [of j ?k1] by (cases "j = c") simp_all
  show "\<not> (st (adopt p c k) j = Sleeping \<and> chan (adopt p c k) j = ProcessChannel r)"
    if "k_init_proc k = Some r" "orphan p k c" "st k c = Zombie" "j < length (k_procs k)"
    unfolding e using that wakeup_clears [of j ?k1 "ProcessChannel r"] by (simp add: process_pointer_def)
qed

lemma adopt_all:
  fixes p n :: nat and k :: "'s kernel"
  assumes n: "n \<le> length (k_procs k)"
  defines "k' \<equiv> fold (adopt p) [0..<n] k"
  shows "woken k k' \<and> (\<forall>j < length (k_procs k). par k' j = (if j < n \<and> orphan p k j then k_init_proc k else par k j)) \<and>
    (\<forall>r c j. k_init_proc k = Some r \<longrightarrow> c < n \<longrightarrow> orphan p k c \<longrightarrow> st k c = Zombie \<longrightarrow> j < length (k_procs k) \<longrightarrow>
       \<not> (st k' j = Sleeping \<and> chan k' j = ProcessChannel r))"
  using n unfolding k'_def
proof (induction n)
  case 0
  then show ?case by (simp add: woken_refl)
next
  case (Suc n)
  let ?k = "fold (adopt p) [0..<n] k"
  have IH: "woken k ?k" "\<And>j. j < length (k_procs k) \<Longrightarrow> par ?k j = (if j < n \<and> orphan p k j then k_init_proc k else par k j)"
    "\<And>r c j. k_init_proc k = Some r \<Longrightarrow> c < n \<Longrightarrow> orphan p k c \<Longrightarrow> st k c = Zombie \<Longrightarrow> j < length (k_procs k) \<Longrightarrow>
       \<not> (st ?k j = Sleeping \<and> chan ?k j = ProcessChannel r)" using Suc by auto
  have l: "length (k_procs ?k) = length (k_procs k)" "k_init_proc ?k = k_init_proc k" using IH(1) by (simp_all add: woken_def)
  have n: "n < length (k_procs ?k)" "n < length (k_procs k)" using Suc.prems l by simp_all
  have stn: "st ?k n = Unused \<longleftrightarrow> st k n = Unused" "st ?k n = Zombie \<longleftrightarrow> st k n = Zombie" using IH(1) n(2) by (auto simp: woken_def)
  have on: "orphan p ?k n \<longleftrightarrow> orphan p k n" using stn IH(2) [OF n(2)] by simp
  note a = adopt_effect [OF n(1), where p = p]
  have e: "fold (adopt p) [0..<Suc n] k = adopt p n ?k" by simp
  have 1: "woken k (adopt p n ?k)" using woken_trans [OF IH(1) a(1)] .
  have 2: "par (adopt p n ?k) j = (if j < Suc n \<and> orphan p k j then k_init_proc k else par k j)" if "j < length (k_procs k)" for j
    using a(2) [where j = j] that l on IH(2) [OF that] by (auto simp: less_Suc_eq)
  have 3: "\<not> (st (adopt p n ?k) j = Sleeping \<and> chan (adopt p n ?k) j = ProcessChannel r)"
    if h: "k_init_proc k = Some r" "c < Suc n" "orphan p k c" "st k c = Zombie" "j < length (k_procs k)" for r c j
  proof (cases "c = n")
    case True
    then show ?thesis using a(3) [where r = r and j = j] h l on stn(2) by simp
  next
    case False
    then show ?thesis using woken_clears [OF a(1)] IH(3) [OF h(1) _ h(3,4,5)] h(2,5) l by simp
  qed
  show ?case unfolding e using 1 2 3 by blast
qed

text \<open>The table after the loop of \<open>exit\<close>, before the next process is chosen.\<close>

lemma exit_family:
  assumes ok: "family_ok k" and p: "p < MAX_PROCESSES" "k_init_proc k \<noteq> Some p" "st k p = Running"
    and k2: "length (k_procs k2) = MAX_PROCESSES" "k_init_proc k2 = k_init_proc k" "st k2 p = Zombie"
      "\<And>j. j < MAX_PROCESSES \<Longrightarrow> par k2 j = par k j \<and> chan k2 j = chan k j \<and> (j \<noteq> p \<longrightarrow> st k2 j = st k j)"
    and w: "woken k2 k4" "\<And>j. j < MAX_PROCESSES \<Longrightarrow> par k4 j = (if orphan p k2 j then k_init_proc k2 else par k2 j)"
    and up: "\<And>q j. par k p = Some q \<Longrightarrow> j < MAX_PROCESSES \<Longrightarrow> \<not> (st k4 j = Sleeping \<and> chan k4 j = ProcessChannel q)"
    and ini: "\<And>r c j. k_init_proc k2 = Some r \<Longrightarrow> c < MAX_PROCESSES \<Longrightarrow> orphan p k2 c \<Longrightarrow> st k2 c = Zombie \<Longrightarrow> j < MAX_PROCESSES \<Longrightarrow>
       \<not> (st k4 j = Sleeping \<and> chan k4 j = ProcessChannel r)"
  shows "family_ok k4"
proof -
  have w4: "length (k_procs k4) = MAX_PROCESSES" "k_init_proc k4 = k_init_proc k" "\<And>j. j < MAX_PROCESSES \<Longrightarrow> chan k4 j = chan k j"
    "\<And>j. j < MAX_PROCESSES \<Longrightarrow> st k4 j = st k2 j \<or> st k2 j = Sleeping \<and> st k4 j = Runnable"
    using w(1) k2 by (simp_all add: woken_def)
  have sj: "st k4 j = st k j \<or> st k j = Sleeping \<and> st k4 j = Runnable" if "j < MAX_PROCESSES" "j \<noteq> p" for j
    using w4(4) [OF that(1)] k2(4) [OF that(1)] that(2) by simp
  have sp: "st k4 p = Zombie" using w4(4) [OF p(1)] k2(3) by simp
  have un: "st k2 j = Unused \<longleftrightarrow> st k j = Unused" if "j < MAX_PROCESSES" for j using k2(3) k2(4) [OF that] p(3) by (cases "j = p") auto
  have un4: "st k4 j = Unused \<longleftrightarrow> st k j = Unused" if "j < MAX_PROCESSES" for j using sj [OF that] sp p(3) by (cases "j = p") auto
  have pj: "par k4 j = (if st k j \<noteq> Unused \<and> par k j = Some p then k_init_proc k else par k j)" if "j < MAX_PROCESSES" for j
    using w(2) [OF that] un [OF that] k2(2) k2(4) [OF that] by simp
  have alive: "alive k4 q" if "alive k q" "q \<noteq> p" for q using that sj [of q] by (auto simp: alive_def)
  have iok: "alive k4 q" if "k_init_proc k = Some q" for q using alive family_okD(3) [OF ok that] that p(2) by auto
  have pok: "alive k4 q" if "j < MAX_PROCESSES" "st k4 j \<noteq> Unused" "par k4 j = Some q" for j q
  proof (cases "par k j = Some p")
    case True
    then show ?thesis using pj [OF that(1)] un4 [OF that(1)] that iok by simp
  next
    case False
    then have "par k j = Some q" "q \<noteq> p" using pj [OF that(1)] that by auto
    then show ?thesis using family_okD(2) [OF ok that(1)] un4 [OF that(1)] that(2) alive by simp
  qed
  have sl: "q = j \<and> (\<exists>c < MAX_PROCESSES. st k4 c \<noteq> Unused \<and> par k4 c = Some j) \<and> (\<forall>c < MAX_PROCESSES. par k4 c = Some j \<longrightarrow> st k4 c \<noteq> Zombie)"
    if j: "j < MAX_PROCESSES" "st k4 j = Sleeping" "chan k4 j = ProcessChannel q" for j q
  proof -
    have jp: "j \<noteq> p" using j sp by auto
    have jk: "st k j = Sleeping" "chan k j = ProcessChannel q" using sj [OF j(1) jp] j w4(3) by auto
    have qj: "q = j" using family_okD(4) [OF ok j(1) jk] .
    obtain c where c: "c < MAX_PROCESSES" "st k c \<noteq> Unused" "par k c = Some j" using family_okD(5) [OF ok j(1) jk] by blast
    have "st k4 c \<noteq> Unused \<and> par k4 c = Some j" using un4 [OF c(1)] pj [OF c(1)] c jp by simp
    moreover have "st k4 d \<noteq> Zombie" if d: "d < MAX_PROCESSES" "par k4 d = Some j" for d
    proof
      assume z: "st k4 d = Zombie"
      then have z2: "st k2 d = Zombie" using w4(4) [OF d(1)] by auto
      show False
      proof (cases "par k d = Some p")
        case True
        then have "k_init_proc k2 = Some j" using pj [OF d(1)] d(2) un4 [OF d(1)] z jp k2(2) by (simp split: if_splits)
        moreover have "orphan p k2 d" using z2 True k2(4) [OF d(1)] by simp
        ultimately show False using ini [OF _ d(1) _ z2 j(1)] j qj by blast
      next
        case False
        then have pd: "par k d = Some j" using pj [OF d(1)] d(2) by simp
        show False
        proof (cases "d = p")
          case True
          then show False using up [OF _ j(1), of j] pd j qj by simp
        next
          case False
          then have "st k d = Zombie" using sj [OF d(1)] z by auto
          then show False using family_okD(6) [OF ok j(1) jk d(1) pd] by simp
        qed
      qed
    qed
    ultimately show ?thesis using qj c(1) by blast
  qed
  show ?thesis unfolding family_ok_def using w4(1,2) pok iok sl by metis
qed

lemma exit_decides:
  assumes ok: "table_ok k" and p: "k_current k = Some p" "k_init_proc k \<noteq> Some p" and r: "process_exit status k = Some k'"
  obtains k4 where "decides (next_runnable (Some p) k4) k4 k'" "fds_ok k4" "unused_clean k4" "family_ok k4"
    "st k4 p = Zombie" "\<And>j. j < MAX_PROCESSES \<Longrightarrow> j \<noteq> p \<Longrightarrow> st k4 j = st k j \<or> st k j = Sleeping \<and> st k4 j = Runnable"
proof -
  have l: "length (k_procs k) = MAX_PROCESSES" using fds_okD(1) [OF table_okD(1) [OF ok]] .
  have pr: "p < MAX_PROCESSES" "st k p = Running" using running_okD(1) [OF table_okD(4) [OF ok] p(1)] by simp_all
  note ca = close_all_effect [OF table_okD(1) [OF ok] pr(1)]
  let ?k1 = "close_all_files p k"
  define f where "f = (\<lambda>q :: Process. q\<lparr>pr_exit_status := status, pr_state := Zombie\<rparr>)"
  define k2 where "k2 = set_proc p f (?k1\<lparr>k_interrupts := False\<rparr>)"
  define k3 where "k3 = (case par k2 p of None \<Rightarrow> k2 | Some q \<Rightarrow> wakeup (ProcessChannel q) k2)"
  define k4 where "k4 = fold (adopt p) [0..<length (k_procs k3)] k3"
  have k': "k' = schedule_from_zombie k4" using r unfolding process_exit_def p(1) Let_def k4_def k3_def k2_def f_def by simp
  have j2: "k_procs k2 ! j = (if j = p then f ((k_procs k ! j)\<lparr>pr_files := no_files\<rparr>) else k_procs k ! j)" if "j < MAX_PROCESSES" for j
    using that ca(2) ca(5) [OF that] by (auto simp: k2_def)
  have k2: "length (k_procs k2) = MAX_PROCESSES" "k_init_proc k2 = k_init_proc k" "k_current k2 = Some p" "k_fs k2 = k_fs ?k1" "st k2 p = Zombie"
    using ca(2,3,4) p(1) j2 [OF pr(1)] by (simp_all add: k2_def f_def)
  have par2: "par k2 j = par k j \<and> chan k2 j = chan k j \<and> (j \<noteq> p \<longrightarrow> st k2 j = st k j)" if "j < MAX_PROCESSES" for j
    using j2 [OF that] by (simp add: f_def)
  have w3: "woken k2 k3" "\<And>j. j < MAX_PROCESSES \<Longrightarrow> par k3 j = par k2 j"
    by (auto simp: k3_def woken_refl woken_wakeup wakeup_par k2(1) split: option.split)
  have l3: "length (k_procs k3) = MAX_PROCESSES" "k_init_proc k3 = k_init_proc k2" "k_current k3 = k_current k2" "k_fs k3 = k_fs k2"
    using w3(1) k2(1) by (simp_all add: woken_def)
  have s3: "st k3 j = Unused \<longleftrightarrow> st k2 j = Unused" "st k3 j = Zombie \<longleftrightarrow> st k2 j = Zombie" if "j < MAX_PROCESSES" for j
    using w3(1) that k2(1) by (auto simp: woken_def)
  note a = adopt_all [of "length (k_procs k3)" k3 p, folded k4_def, unfolded l3(1)]
  have w4: "woken k3 k4" and par4: "\<And>j. j < MAX_PROCESSES \<Longrightarrow> par k4 j = (if orphan p k3 j then k_init_proc k3 else par k3 j)"
    and ini4: "\<And>r c j. k_init_proc k3 = Some r \<Longrightarrow> c < MAX_PROCESSES \<Longrightarrow> orphan p k3 c \<Longrightarrow> st k3 c = Zombie \<Longrightarrow> j < MAX_PROCESSES \<Longrightarrow>
       \<not> (st k4 j = Sleeping \<and> chan k4 j = ProcessChannel r)"
    using a by auto
  have w24: "woken k2 k4" using woken_trans [OF w3(1) w4] .
  have up: "\<not> (st k4 j = Sleeping \<and> chan k4 j = ProcessChannel q)" if "par k p = Some q" "j < MAX_PROCESSES" for q j
  proof -
    have "k3 = wakeup (ProcessChannel q) k2" using that(1) par2 [OF pr(1)] by (simp add: k3_def)
    then show ?thesis using woken_clears [OF w4] wakeup_clears [of j k2 "ProcessChannel q"] that(2) k2(1) l3(1) by simp
  qed
  have fam: "family_ok k4"
  proof (rule exit_family [OF table_okD(3) [OF ok] pr(1) p(2) pr(2) k2(1,2,5) par2 w24 _ up])
    show "par k4 j = (if orphan p k2 j then k_init_proc k2 else par k2 j)" if "j < MAX_PROCESSES" for j
      using par4 [OF that] s3(1) [OF that] w3(2) [OF that] l3(2) by simp
    show "\<not> (st k4 j = Sleeping \<and> chan k4 j = ProcessChannel r)"
      if "k_init_proc k2 = Some r" "c < MAX_PROCESSES" "orphan p k2 c" "st k2 c = Zombie" "j < MAX_PROCESSES" for r c j
      using ini4 [of r c j] that s3 [OF that(2)] w3(2) [OF that(2)] l3(2) by simp
  qed
  have f4: "length (k_procs k4) = MAX_PROCESSES" "k_fs k4 = k_fs ?k1" "k_current k4 = Some p"
    "\<And>j. j < MAX_PROCESSES \<Longrightarrow> pr_files (k_procs k4 ! j) = pr_files (k_procs ?k1 ! j)"
    using w24 k2 j2 ca(5) by (auto simp: woken_def f_def)
  have fds: "fds_ok k4" by (rule fds_ok_cong [OF ca(1)]) (use f4 ca(2) in simp_all)
  have s4: "st k4 p = Zombie" "\<And>j. j < MAX_PROCESSES \<Longrightarrow> j \<noteq> p \<Longrightarrow> st k4 j = st k j \<or> st k j = Sleeping \<and> st k4 j = Runnable"
    using w24 k2(1,5) pr(1) par2 by (auto simp: woken_def)
  have "unused_clean k4" unfolding unused_clean_def f4(1)
  proof (intro allI impI)
    fix j assume j: "j < MAX_PROCESSES" "st k4 j = Unused"
    then have jp: "j \<noteq> p" using s4(1) by auto
    then have "st k j = Unused" using s4(2) [OF j(1)] j(2) by auto
    with jp show "pr_files (k_procs k4 ! j) = no_files" using table_okD(2) [OF ok] j(1) l f4(4) [OF j(1)] ca(5) [OF j(1)] by (simp add: unused_clean_def)
  qed
  moreover have "decides (next_runnable (Some p) k4) k4 k'" using schedule_from_zombie_decides [of k4] f4(3) k' by simp
  ultimately show thesis using that fds fam s4 by blast
qed

lemma exit_ok:
  assumes ok: "table_ok k" and p: "k_current k = Some p" "k_init_proc k \<noteq> Some p" and r: "process_exit status k = Some k'"
  shows "table_ok k'"
proof -
  obtain k4 where d: "decides (next_runnable (Some p) k4) k4 k'" "fds_ok k4" "unused_clean k4" "family_ok k4"
    and s4: "st k4 p = Zombie" "\<And>j. j < MAX_PROCESSES \<Longrightarrow> j \<noteq> p \<Longrightarrow> st k4 j = st k j \<or> st k j = Sleeping \<and> st k4 j = Runnable"
    using exit_decides [OF assms] by blast
  have "st k4 j \<noteq> Running" if "j < MAX_PROCESSES" for j
    using s4(1) s4(2) [OF that] running_okD(2) [OF table_okD(4) [OF ok] that] p(1) by (cases "j = p") auto
  then show ?thesis using decides_ok [OF d] by blast
qed

lemma close_fd_table_ok:
  assumes ok: "table_ok k" and i: "k_current k = Some i" "fd < NUM_OPEN_FILES"
  shows "table_ok (close_fd i fd k)"
proof -
  have l: "length (k_procs k) = MAX_PROCESSES" using fds_okD(1) [OF table_okD(1) [OF ok]] .
  have r: "i < MAX_PROCESSES" "st k i = Running" using running_okD(1) [OF table_okD(4) [OF ok] i(1)] by simp_all
  have li: "i < length (k_procs k)" using r(1) l by simp
  note c = close_fd_simps [OF li, where fd = fd]
  have m: "mild k (close_fd i fd k)" using c by (simp add: mild_def)
  have "running_ok (close_fd i fd k)" using table_okD(4) [OF ok] c l by (simp add: running_ok_def)
  moreover have "unused_clean (close_fd i fd k)" using table_okD(2) [OF ok] c r by (auto simp: unused_clean_def)
  ultimately show ?thesis using close_fd_ok [OF table_okD(1) [OF ok] r(1) i(2)] family_mild [OF table_okD(3) [OF ok] m] by (simp add: table_ok_def)
qed

lemma create_ok:
  assumes ok: "table_ok k" and r: "create_process entry name arg tr k = Some (x, k')"
  shows "table_ok k'" "x = Some i \<Longrightarrow> alive k' i"
proof -
  note e = create_effect [OF table_okD(1,2) [OF ok] r]
  show "table_ok k'"
  proof (cases x)
    case None
    then show ?thesis using failed_ok [OF ok] e by simp
  next
    case (Some i)
    then show ?thesis using born_ok [OF ok, of k' None i] e by simp
  qed
  show "x = Some i \<Longrightarrow> alive k' i" using e by (simp add: born_def alive_def)
qed

lemma create_init_ok:
  assumes ok: "table_ok k" and r: "create_init_process entry arg tr k = Some (x, k')"
  shows "table_ok k'"
proof -
  obtain k1 where c: "create_process entry [105, 110, 105, 116] arg tr k = Some (x, k1)" and k': "k' = k1\<lparr>k_init_proc := x\<rparr>"
    using r by (auto simp: create_init_process_def split: option.splits)
  have ok1: "table_ok k1" and al: "\<And>i. x = Some i \<Longrightarrow> alive k1 i" using create_ok [OF ok c] by blast+
  have fd: "fds_ok k'" by (rule fds_ok_cong [OF table_okD(1) [OF ok1]]) (simp_all add: k')
  have ur: "unused_clean k'" "running_ok k'" using table_okD(2,4) [OF ok1] by (simp_all add: k' unused_clean_def running_ok_def)
  have kp: "k_procs k' = k_procs k1" "k_init_proc k' = x" by (simp_all add: k')
  then have al': "alive k' = alive k1" by (simp add: alive_def fun_eq_iff)
  have "family_ok k'" unfolding family_ok_def al' kp using family_okD [OF table_okD(3) [OF ok1]] al by blast
  then show ?thesis using fd ur by (simp add: table_ok_def)
qed

lemma fork_ok:
  assumes ok: "table_ok k" and r: "fork fr snap sp k = Some (x, k')"
  shows "table_ok k'"
proof (cases "k_current k")
  case None
  then show ?thesis using r ok by (simp add: fork_def)
next
  case (Some p)
  have p: "p < MAX_PROCESSES" "st k p = Running" using running_okD(1) [OF table_okD(4) [OF ok] Some] by simp_all
  then have u: "st k p \<noteq> Unused" "alive k p" by (simp_all add: alive_def)
  note e = fork_effect [OF table_okD(1,2) [OF ok] Some p(1) u(1) r]
  then have fd: "fds_ok k'" by simp
  from e consider "failed_process k k'" | c where "born (Some p) c k k'" by blast
  then show ?thesis using failed_ok [OF ok fd] born_ok [OF ok fd] u(2) by cases auto
qed

section \<open>Reachable states\<close>

text \<open>
  Every operation of the process module as a step. The first process does not exit. A
  process that \<open>wait\<close> put to sleep starts another round when it runs again; the rounds in
  between are \<open>resume\<close> and \<open>wait\<close> steps.
\<close>

inductive kstep :: "'s kernel \<Rightarrow> 's kernel \<Rightarrow> bool" where
  create: "create_process entry name arg tr k = Some (x, k') \<Longrightarrow> kstep k k'"
| create_init: "create_init_process entry arg tr k = Some (x, k') \<Longrightarrow> kstep k k'"
| yield: "kstep k (yield_cpu saved k)"
| tick: "kstep k (tick saved k)"
| sleep: "\<forall>q. c \<noteq> ProcessChannel q \<Longrightarrow> kstep k (sleep c saved k)"
| resume: "k_current k = Some i \<Longrightarrow> kstep k (sleep_resume i k)"
| wakeup: "kstep k (wakeup c k)"
| exit: "k_current k \<noteq> k_init_proc k \<Longrightarrow> process_exit status k = Some k' \<Longrightarrow> kstep k k'"
| wait: "k_current k = Some p \<Longrightarrow> wait_round saved k = (w, k') \<Longrightarrow> kstep k k'"
| fork: "fork fr snap sp k = Some (y, k') \<Longrightarrow> kstep k k'"
| close: "k_current k = Some i \<Longrightarrow> fd < NUM_OPEN_FILES \<Longrightarrow> kstep k (close_fd i fd k)"

lemma kstep_ok:
  assumes "kstep k k'" "table_ok k"
  shows "table_ok k'"
  using assms
proof (cases rule: kstep.cases)
  case (exit status)
  then obtain p where "k_current k = Some p" by (auto simp: process_exit_def split: option.splits)
  then show ?thesis using exit_ok [OF assms(2)] exit by metis
qed (use assms(2) create_ok create_init_ok yield_ok tick_def sleep_ok resume_ok wakeup_ok wait_ok fork_ok close_fd_table_ok in metis)+

text \<open>The table as the loader leaves it, with no file open, and what can follow.\<close>

definition static_kernel :: "heap \<Rightarrow> (u64 \<Rightarrow> u64) \<Rightarrow> 's filesys \<Rightarrow> 's kernel" where
  "static_kernel h m s = \<lparr>k_procs = replicate MAX_PROCESSES static_process, k_next_pid = 1, k_initialized = False, k_current = None,
     k_scheduler_context = 0, k_init_proc = None, k_heap = h, k_stacks = m, k_fs = s, k_rsp0 = 0, k_interrupts = False\<rparr>"

inductive kreach :: "'s kernel \<Rightarrow> bool" where
  boot: "files_ok s \<Longrightarrow> \<forall>f < NUM_FILES. f_refcnt (file_table s ! f) = 0 \<Longrightarrow> process_initialize h (static_kernel h0 m s) = Some k \<Longrightarrow> kreach k"
| step: "kreach k \<Longrightarrow> kstep k k' \<Longrightarrow> kreach k'"

lemma boot_ok:
  assumes s: "files_ok s" "\<forall>f < NUM_FILES. f_refcnt (file_table s ! f) = 0" and k: "process_initialize h (static_kernel h0 m s) = Some k"
  shows "table_ok k"
proof -
  have kf: "length (k_procs k) = MAX_PROCESSES" "\<And>i. i < MAX_PROCESSES \<Longrightarrow> k_procs k ! i = static_process" "k_fs k = s" "k_current k = None" "k_init_proc k = None"
    using k by (auto simp: process_initialize_def static_kernel_def static_process_def)
  have none: "fd_of k i fd = None" if "i < MAX_PROCESSES" "fd < NUM_OPEN_FILES" for i fd using that kf(2) by (simp add: static_process_def)
  have "fd_refs k f = 0" for f unfolding fd_refs_def by (rule sum.neutral) (use none in auto)
  then have "fds_ok k" unfolding fds_ok_def using kf s none by (auto simp: static_process_def)
  then show ?thesis using kf by (simp add: table_ok_def unused_clean_def family_ok_def running_ok_def static_process_def)
qed

lemma kreach_ok: "kreach k \<Longrightarrow> table_ok k"
  by (induction rule: kreach.induct) (blast intro: boot_ok kstep_ok)+

section \<open>Bounded waiting\<close>

text \<open>The number of slots looked at before \<open>j\<close> when the processor is given up by \<open>prev\<close>.\<close>

definition ahead :: "nat option \<Rightarrow> nat \<Rightarrow> nat" where
  "ahead prev j = (j + MAX_PROCESSES - base prev) mod MAX_PROCESSES"

lemma ahead_less: "ahead prev j < MAX_PROCESSES"
  by (simp add: ahead_def MAX_PROCESSES_def)

lemma mod_add_cases:
  fixes n :: nat
  assumes "b \<le> n" "m < n"
  shows "(b + m) mod n = (if b + m < n then b + m else b + m - n)"
  using assms by (simp add: mod_if)

lemma ahead_candidates:
  assumes "j < MAX_PROCESSES" "\<forall>i. prev = Some i \<longrightarrow> i < MAX_PROCESSES"
  shows "candidates prev ! ahead prev j = j"
proof -
  have b: "base prev \<le> MAX_PROCESSES" using assms(2) by (auto split: option.split simp: Suc_le_eq)
  have a: "ahead prev j = (if base prev \<le> j then j - base prev else j + MAX_PROCESSES - base prev)"
    using assms(1) b by (auto simp: ahead_def mod_if)
  show ?thesis unfolding nth_candidates [OF ahead_less assms(2)] mod_add_cases [OF b ahead_less] using a assms(1) b by auto
qed

lemma next_ahead:
  assumes j: "j < MAX_PROCESSES" "st k j = Runnable" and prev: "\<forall>i. prev = Some i \<longrightarrow> i < MAX_PROCESSES"
  shows "\<exists>i. next_runnable prev k = Some i \<and> (i = j \<or> ahead (Some i) j < ahead prev j)"
proof -
  let ?P = "\<lambda>i. st k i = Runnable"
  have jc: "j \<in> set (candidates prev)" using ahead_candidates [OF j(1) prev] ahead_less [of prev j] by (metis length_candidates nth_mem)
  obtain i where i: "next_runnable prev k = Some i" using jc j(2) by (cases "next_runnable prev k") (auto simp: next_runnable_def find_None_props)
  then obtain n where n: "n < MAX_PROCESSES" "i = candidates prev ! n" "\<And>m. m < n \<Longrightarrow> st k (candidates prev ! m) \<noteq> Runnable"
    unfolding next_runnable_def find_Some_iff by auto
  have le: "n \<le> ahead prev j" using n(3) ahead_candidates [OF j(1) prev] j(2) by (metis not_le)
  have b: "base prev \<le> MAX_PROCESSES" using prev by (auto split: option.split simp: Suc_le_eq)
  have ie: "i = (if base prev + n < MAX_PROCESSES then base prev + n else base prev + n - MAX_PROCESSES)"
    unfolding n(2) nth_candidates [OF n(1) prev] mod_add_cases [OF b n(1)] ..
  have a: "ahead prev j = (if base prev \<le> j then j - base prev else j + MAX_PROCESSES - base prev)"
    using j(1) b by (auto simp: ahead_def mod_if)
  have il: "i < MAX_PROCESSES" using next_runnable_Some(1) [OF i] .
  have c: "ahead (Some i) j = (if i < j then j - Suc i else j + MAX_PROCESSES - Suc i)" if "i \<noteq> j"
    using j(1) il that by (auto simp: ahead_def mod_if)
  have "i = j \<or> ahead (Some i) j < ahead prev j"
  proof (cases "i = j")
    case False
    then have "n \<noteq> ahead prev j" using ahead_candidates [OF j(1) prev] n(2) by auto
    then have "n < ahead prev j" using le by simp
    then show ?thesis using c [OF False] a ie b j(1) n(1) False by (auto split: if_splits)
  qed simp
  then show ?thesis using i by blast
qed

text \<open>A scheduling decision brings a runnable process to the processor or nearer to it.\<close>

definition nearer :: "nat \<Rightarrow> 's kernel \<Rightarrow> 's kernel \<Rightarrow> bool" where
  "nearer j k k' \<longleftrightarrow> k_current k' = Some j \<or>
     st k' j = Runnable \<and> (k_current k' = k_current k \<or> ahead (k_current k') j < ahead (k_current k) j)"

lemma decides_nearer:
  assumes d: "decides (next_runnable (k_current k) k1) k1 k'" and j: "j < MAX_PROCESSES" "st k1 j = Runnable" and r: "running_ok k"
    and l: "length (k_procs k1) = MAX_PROCESSES"
  shows "nearer j k k'"
proof -
  obtain i where i: "next_runnable (k_current k) k1 = Some i" "i = j \<or> ahead (Some i) j < ahead (k_current k) j"
    using next_ahead [OF j, of "k_current k"] running_okD(1) [OF r] by blast
  have "k_current k' = Some i" "j \<noteq> i \<Longrightarrow> st k' j = Runnable" using d i(1) j l by (simp_all add: decides_def)
  then show ?thesis using i(2) by (auto simp: nearer_def)
qed

lemma slot_nearer:
  assumes "only_slot i k k'" "length (k_procs k) = MAX_PROCESSES" "st k j = Runnable" "st k i \<noteq> Runnable" "j < MAX_PROCESSES"
  shows "nearer j k k'"
  using only_slotD [OF assms(1,2)] assms unfolding nearer_def by (metis (full_types))

lemma sleep_nearer:
  assumes ok: "table_ok k" and j: "j < MAX_PROCESSES" "st k j = Runnable"
  shows "nearer j k (sleep c saved k)"
proof (cases "k_current k")
  case None
  then show ?thesis using j by (simp add: sleep_def nearer_def)
next
  case (Some i)
  let ?k1 = "set_proc i (\<lambda>p. p\<lparr>pr_sleep_channel := c, pr_state := Sleeping\<rparr>) (k\<lparr>k_interrupts := False\<rparr>)"
  have l: "length (k_procs k) = MAX_PROCESSES" using fds_okD(1) [OF table_okD(1) [OF ok]] .
  have "j \<noteq> i" using running_okD(1) [OF table_okD(4) [OF ok] Some] j by auto
  then have "st ?k1 j = Runnable" "length (k_procs ?k1) = MAX_PROCESSES" using j l by simp_all
  then show ?thesis using decides_nearer [of k ?k1, OF _ j(1) _ table_okD(4) [OF ok]] schedule_decides [of "Some i" ?k1 saved] Some by (simp add: sleep_def)
qed

lemma exit_nearer:
  assumes ok: "table_ok k" and e: "k_current k \<noteq> k_init_proc k" "process_exit status k = Some k'" and j: "j < MAX_PROCESSES" "st k j = Runnable"
  shows "nearer j k k'"
proof -
  obtain p where p: "k_current k = Some p" using e(2) by (auto simp: process_exit_def split: option.splits)
  have ip: "k_init_proc k \<noteq> Some p" using p e(1) by metis
  obtain k4 where d: "decides (next_runnable (Some p) k4) k4 k'" "fds_ok k4"
    and s4: "\<And>j. j < MAX_PROCESSES \<Longrightarrow> j \<noteq> p \<Longrightarrow> st k4 j = st k j \<or> st k j = Sleeping \<and> st k4 j = Runnable"
    using exit_decides [OF ok p ip e(2)] by metis
  have "j \<noteq> p" using running_okD(1) [OF table_okD(4) [OF ok] p] j by auto
  then have "st k4 j = Runnable" using s4 [OF j(1)] j(2) by auto
  then show ?thesis using decides_nearer [of k k4, OF _ j(1) _ table_okD(4) [OF ok] fds_okD(1) [OF d(2)]] d(1) p by simp
qed

lemma wait_nearer:
  assumes ok: "table_ok k" and w: "wait_round saved k = (x, k')" and j: "j < MAX_PROCESSES" "st k j = Runnable"
  shows "nearer j k k'"
proof -
  have l: "length (k_procs k) = MAX_PROCESSES" using fds_okD(1) [OF table_okD(1) [OF ok]] .
  let ?P = "\<lambda>i. is_child (k_current k) k i \<and> st k i = Zombie"
  show ?thesis
  proof (cases "find ?P [0..<length (k_procs k)]")
    case (Some i)
    then have i: "i < MAX_PROCESSES" "st k i = Zombie" using find_Some_props [OF Some] l by auto
    have "k' = free_process_resources i k" using w Some by (simp add: wait_round_def Let_def)
    then show ?thesis using slot_nearer [OF free_effect(2) [OF table_okD(1) [OF ok] i(1)] l j(2) _ j(1)] i(2) by simp
  next
    case None
    then have "k' = k \<or> k' = sleep (process_pointer (k_current k)) saved k" using w unfolding wait_round_def Let_def by (auto split: if_splits)
    then show ?thesis using sleep_nearer [OF ok j] j by (auto simp: nearer_def)
  qed
qed

lemma yield_nearer:
  assumes ok: "table_ok k" and j: "j < MAX_PROCESSES" "st k j = Runnable"
  shows "nearer j k (yield_cpu saved k)" "k_current (yield_cpu saved k) \<noteq> k_current k"
proof -
  obtain k1 where k1: "quiet k k1" "\<And>i. i < MAX_PROCESSES \<Longrightarrow> st k1 i = (if k_current k = Some i then Runnable else st k i)"
    and d: "decides (next_runnable (k_current k) k1) k1 (yield_cpu saved k)" using yield_decides [OF ok] by metis
  have s: "st k1 j = Runnable" using k1(2) [OF j(1)] j(2) by simp
  have l: "length (k_procs k1) = MAX_PROCESSES" using quiet_ok(1) [OF k1(1) table_okD(1-3) [OF ok]] fds_okD(1) by blast
  show "nearer j k (yield_cpu saved k)" by (rule decides_nearer [OF d j(1) s table_okD(4) [OF ok] l])
  have jc: "k_current k \<noteq> Some j" using running_okD(1) [OF table_okD(4) [OF ok]] j by force
  obtain i where i: "next_runnable (k_current k) k1 = Some i" "i = j \<or> ahead (Some i) j < ahead (k_current k) j"
    using next_ahead [OF j(1) s, of "k_current k"] running_okD(1) [OF table_okD(4) [OF ok]] by blast
  have "k_current (yield_cpu saved k) = Some i" using d i(1) by (simp add: decides_def)
  then show "k_current (yield_cpu saved k) \<noteq> k_current k" using i(2) jc by auto
qed

lemma failed_nearer:
  assumes "table_ok k" "failed_process k k'" "j < MAX_PROCESSES" "st k j = Runnable"
  shows "nearer j k k'"
  using assms slot_nearer fds_okD(1) [OF table_okD(1) [OF assms(1)]] unfolding failed_process_def
  by (metis ProcessState.distinct(3) nearer_def)

lemma kstep_nearer:
  assumes k: "kstep k k'" and ok: "table_ok k" and j: "j < MAX_PROCESSES" "st k j = Runnable"
  shows "nearer j k k'"
proof -
  have l: "length (k_procs k) = MAX_PROCESSES" using fds_okD(1) [OF table_okD(1) [OF ok]] .
  have born: "nearer j k k1" if "born q i k k1" for q i k1
    using slot_nearer [of i k k1, OF _ l j(2) _ j(1)] that by (simp add: born_def)
  have create: "nearer j k k1" if "create_process e n a t k = Some (x, k1)" for e n a t x k1
    using create_effect [OF table_okD(1,2) [OF ok] that] born failed_nearer [OF ok _ j] by (cases x) auto
  from k show ?thesis
  proof cases
    case (create_init entry arg tr x)
    then obtain k1 where "create_process entry [105, 110, 105, 116] arg tr k = Some (x, k1)" "k' = k1\<lparr>k_init_proc := x\<rparr>"
      by (auto simp: create_init_process_def split: option.splits)
    then show ?thesis using create by (auto simp: nearer_def)
  next
    case (resume i)
    then show ?thesis using j l by (simp add: nearer_def sleep_resume_def)
  next
    case (wakeup c)
    then show ?thesis using j l by (simp add: nearer_def wakeup_simps)
  next
    case (fork fr snap sp y)
    show ?thesis
    proof (cases "k_current k")
      case None
      then show ?thesis using fork j by (simp add: fork_def nearer_def)
    next
      case (Some p)
      have p: "p < MAX_PROCESSES" "st k p \<noteq> Unused" using running_okD(1) [OF table_okD(4) [OF ok] Some] by simp_all
      show ?thesis using fork_effect [OF table_okD(1,2) [OF ok] Some p fork] born failed_nearer [OF ok _ j] by blast
    qed
  next
    case (close i fd)
    then have "i < length (k_procs k)" using running_okD(1) [OF table_okD(4) [OF ok]] l by simp
    from close_fd_simps [OF this, where fd = fd] show ?thesis using close j l by (simp add: nearer_def)
  qed (use create yield_nearer(1) [OF ok j] sleep_nearer [OF ok j] exit_nearer [OF ok _ _ j] wait_nearer [OF ok _ j] in \<open>simp_all add: tick_def\<close>)
qed

text \<open>Runs, and the changes of the current process along them.\<close>

fun switches :: "'s kernel list \<Rightarrow> nat" where
  "switches (k # k' # ks) = (if k_current k \<noteq> k_current k' then 1 else 0) + switches (k' # ks)"
| "switches ks = 0"

lemma bounded_run:
  assumes "successively kstep ks" "ks \<noteq> []" "table_ok (hd ks)" "j < MAX_PROCESSES" "st (hd ks) j = Runnable"
    "ahead (k_current (hd ks)) j < switches ks"
  shows "\<exists>k \<in> set ks. k_current k = Some j"
  using assms
proof (induction ks rule: switches.induct)
  case (1 k k' ks)
  have s: "kstep k k'" "successively kstep (k' # ks)" and ok: "table_ok k" and j: "st k j = Runnable" using "1.prems" by simp_all
  have n: "nearer j k k'" using kstep_nearer [OF s(1) ok "1.prems"(4) j] .
  show ?case
  proof (cases "k_current k' = Some j")
    case False
    then have r: "st k' j = Runnable" "k_current k' = k_current k \<or> ahead (k_current k') j < ahead (k_current k) j" using n by (auto simp: nearer_def)
    have "ahead (k_current k') j < switches (k' # ks)"
    proof (cases "k_current k' = k_current k")
      case True
      then show ?thesis using "1.prems"(6) by simp
    next
      case False
      then show ?thesis using r(2) "1.prems"(6) by (simp split: if_splits)
    qed
    then show ?thesis using "1.IH" s(2) kstep_ok [OF s(1) ok] "1.prems"(4) r(1) by auto
  qed simp
qed simp_all

lemma run_ok: "successively kstep ks \<Longrightarrow> table_ok (hd ks) \<Longrightarrow> k \<in> set ks \<Longrightarrow> table_ok k"
proof (induction ks rule: switches.induct)
  case (1 k0 k' ks)
  have "table_ok k'" using kstep_ok [of k0 k'] "1.prems" by simp
  then show ?case using "1.IH" "1.prems" by auto
qed auto

section \<open>Properties\<close>



text \<open>
  C34. Round robin is fair: along any run of operations from a state with the invariant of the
  reachable ones, a runnable process gets the processor before the current process has changed more often than there are
  slots between the current process and it, so after at most 64 changes; and while it is
  runnable, every \<open>yield\<close> changes the current process.
\<close>

theorem bounded_waiting:
  assumes "table_ok (hd ks)" "successively kstep ks" "ks \<noteq> []" "j < MAX_PROCESSES" "pr_state (k_procs (hd ks) ! j) = Runnable"
  shows "ahead (k_current (hd ks)) j < MAX_PROCESSES \<and>
    (ahead (k_current (hd ks)) j < switches ks \<longrightarrow> (\<exists>k \<in> set ks. k_current k = Some j)) \<and>
    (\<forall>k \<in> set ks. pr_state (k_procs k ! j) = Runnable \<longrightarrow> k_current (yield_cpu saved k) \<noteq> k_current k)"
  using ahead_less bounded_run [OF assms(2,3,1,4,5)] yield_nearer(2) [OF run_ok [OF assms(2,1)] assms(4)] by blast

section \<open>Example states\<close>

definition boot_files :: "(u64 \<Rightarrow> bytes) cache filesys" where
  "boot_files = ram_files\<lparr>file_table := replicate NUM_FILES File_init\<rparr>"

definition boot_kernel :: "(u64 \<Rightarrow> bytes) cache kernel" where
  "boot_kernel = (static_kernel demo_heap (\<lambda>_. 0) boot_files)\<lparr>k_initialized := True\<rparr>"

lemma boot_files_ok: "files_ok boot_files" "\<forall>f < NUM_FILES. f_refcnt (file_table boot_files ! f) = 0"
proof -
  have h: "holders boot_files j = 0" for j by (simp add: holders_def boot_files_def File_init_def)
  have "0 \<le> in_refcnt (inode_table (disk boot_files) ! j)" if "j < length (inode_table (disk boot_files))" for j
    using that ram_files_inodes by (cases "j = 0") (simp_all add: boot_files_def)
  then show "files_ok boot_files" unfolding files_ok_def using h by (simp add: boot_files_def File_init_def)
  show "\<forall>f < NUM_FILES. f_refcnt (file_table boot_files ! f) = 0" by (simp add: boot_files_def File_init_def)
qed

lemma boot_kernel_reached: "kreach boot_kernel"
proof (rule kreach.boot [OF boot_files_ok])
  show "process_initialize demo_heap (static_kernel demo_heap (\<lambda>_. 0) boot_files) = Some boot_kernel"
    by (simp add: process_initialize_def boot_kernel_def static_kernel_def static_process_def)
qed

lemma boot_create:
  obtains x k' where "create_process 0x1000 [97] 0 0x2000 boot_kernel = Some (x, k')" "kreach k'"
proof -
  have "heap_usable (k_heap boot_kernel)" using demo_kernel_ok(3) by (simp add: boot_kernel_def static_kernel_def demo_kernel_def)
  from allocate_returns [OF this] have "\<exists>x k'. create_process 0x1000 [97] 0 0x2000 boot_kernel = Some (x, k')"
    by (auto simp: create_process_def Let_def split: option.split prod.split bool.split)
  then show thesis using that kreach.step [OF boot_kernel_reached kstep.create] by blast
qed



text \<open>The kernel of the fork example with a second process that is ready.\<close>

definition demo_pair :: "(u64 \<Rightarrow> bytes) cache kernel" where
  "demo_pair = set_proc 1 (\<lambda>p. p\<lparr>pr_state := Runnable\<rparr>) demo_kernel"

lemma demo_pair_ok: "table_ok demo_pair" "k_current demo_pair = Some 0" "pr_state (k_procs demo_pair ! 1) = Runnable"
proof -
  have kj: "k_procs demo_pair ! j = (if j = 1 then static_process\<lparr>pr_state := Runnable\<rparr> else k_procs demo_kernel ! j)" if "j < MAX_PROCESSES" for j
    using that demo_kernel_procs(1) demo_kernel_procs(3) [of 1] by (auto simp: demo_pair_def MAX_PROCESSES_def)
  have f: "pr_files (k_procs demo_pair ! j) = pr_files (k_procs demo_kernel ! j)" "par demo_pair j = None" "st demo_pair j \<noteq> Sleeping"
    "st demo_pair j = Running \<longleftrightarrow> j = 0" "st demo_pair j = Unused \<Longrightarrow> st demo_kernel j = Unused" if "j < MAX_PROCESSES" for j
    using kj [OF that] demo_kernel_procs(2) demo_kernel_procs(3) [OF _ that] by (cases "j = 0"; cases "j = 1"; simp add: static_process_def)+
  have l: "length (k_procs demo_pair) = MAX_PROCESSES" using demo_kernel_procs(1) by (simp add: demo_pair_def)
  have "fds_ok demo_pair" by (rule fds_ok_cong [OF demo_kernel_ok(1)]) (use f(1) l demo_kernel_procs(1) in \<open>simp_all add: demo_pair_def\<close>)
  moreover have "unused_clean demo_pair" using demo_kernel_ok(2) f(1,5) l demo_kernel_procs(1) by (simp add: unused_clean_def)
  moreover have cur: "k_current demo_pair = Some 0" "k_init_proc demo_pair = None" by (simp_all add: demo_pair_def demo_kernel_def)
  then have "family_ok demo_pair" unfolding family_ok_def using f(2,3) l by auto
  moreover have "running_ok demo_pair" unfolding running_ok_def using f(4) cur by (auto simp: MAX_PROCESSES_def)
  ultimately show "table_ok demo_pair" by (simp add: table_ok_def)
  show "k_current demo_pair = Some 0" using cur(1) .
  show "pr_state (k_procs demo_pair ! 1) = Runnable" using kj [of 1] by (simp add: MAX_PROCESSES_def)
qed

theorem bounded_waiting_witness: "k_current (yield_cpu 0 demo_pair) = Some 1"
proof -
  let ?ks = "[demo_pair, yield_cpu 0 demo_pair]"
  have "successively kstep ?ks" by (simp add: kstep.yield)
  moreover have "ahead (k_current (hd ?ks)) 1 = 0" "1 < MAX_PROCESSES" by (simp_all add: ahead_def demo_pair_ok(2) MAX_PROCESSES_def)
  ultimately have b: "0 < switches ?ks \<longrightarrow> (\<exists>k \<in> set ?ks. k_current k = Some 1)" "k_current (yield_cpu 0 demo_pair) \<noteq> k_current demo_pair"
    using bounded_waiting [of ?ks 1 0] demo_pair_ok by simp_all
  then show ?thesis using demo_pair_ok(2) by auto
qed

section \<open>A thread that returns\<close>

text \<open>
  The end of \<open>trampoline\<close> is not \<open>exit\<close>: it wakes nobody. When the parent sleeps in \<open>wait\<close>, it stays asleep
  beside a child that has exited.
\<close>

lemma trampoline_loses_wakeup:
  fixes saved :: u64 and c :: nat and k :: "'s kernel"
  assumes ok: "table_ok k" and c: "k_current k = Some c" "par k c = Some q" "st k q = Sleeping" "chan k q = ProcessChannel q"
  defines "k' \<equiv> trampoline_return saved c k"
  shows "st k' q = Sleeping \<and> chan k' q = ProcessChannel q \<and> par k' c = Some q \<and> st k' c = Zombie"
proof -
  have r: "c < MAX_PROCESSES" "st k c = Running" using running_okD(1) [OF table_okD(4) [OF ok] c(1)] by simp_all
  have q: "q < MAX_PROCESSES" "q \<noteq> c" using family_okD(2) [OF table_okD(3) [OF ok] r(1) _ c(2)] r c(3) by (auto simp: alive_def)
  note ca = close_all_effect [OF table_okD(1) [OF ok] r(1)]
  let ?k2 = "set_proc c (\<lambda>q. q\<lparr>pr_state := Zombie\<rparr>) (close_all_files c k)"
  have k2: "length (k_procs ?k2) = MAX_PROCESSES" "k_current ?k2 = Some c" "st ?k2 c = Zombie" "par ?k2 c = Some q" "st ?k2 q = Sleeping" "chan ?k2 q = ProcessChannel q"
    using ca(2,3) ca(5) [OF r(1)] ca(5) [OF q(1)] c q r by simp_all
  have "k' = schedule (Some c) saved ?k2" unfolding k'_def trampoline_return_def yield_cpu_def Let_def k2(2) using k2(3) by simp
  then have d: "decides (next_runnable (Some c) ?k2) ?k2 k'" using schedule_decides [of "Some c" ?k2 saved] by simp
  have "next_runnable (Some c) ?k2 \<noteq> Some q" "next_runnable (Some c) ?k2 \<noteq> Some c" using next_runnable_Some(2) [of "Some c" ?k2] k2(3,5) by force+
  then show ?thesis using d k2 q(1) r(1) by (simp add: decides_def)
qed


end
