(* ===== verification/Console.thy ===== *)
theory Console
  imports Prelude
begin

text \<open>
  The formatted output of \<open>include/console.cpp\<close>: \<open>print_number\<close> and the format interpreter
  \<open>IConsole::vprintf\<close>. The interpreter is a function from the format and the arguments to the bytes it
  hands to \<open>write\<close>, in order; what a console does with them is in \<open>Serial_Port\<close> and \<open>Vga_Text\<close>.
\<close>

section \<open>Numbers\<close>

datatype Color = Black | Blue | Green | Cyan | Red | Magenta | Brown | LightGrey | DarkGrey | LightBlue | LightGreen | LightCyan | LightRed
  | LightMagenta | Yellow | White

definition digit :: "u64 \<Rightarrow> u8" where
  "digit d = (if d < 10 then 48 + ucast d else 87 + ucast d)"

text \<open>The digits, least significant first; the buffer holds 64 of them.\<close>

primrec digits_loop :: "nat \<Rightarrow> u64 \<Rightarrow> u64 \<Rightarrow> bytes" where
  "digits_loop 0 base v = []"
| "digits_loop (Suc n) base v = (if v = 0 then [] else digit (v mod base) # digits_loop n base (v div base))"

definition reversed_digits :: "u64 \<Rightarrow> u64 \<Rightarrow> bytes" where
  "reversed_digits base v = (if v = 0 then [48] else digits_loop 64 base v)"

text \<open>\<open>count < width && count < 64\<close> adds padding, then the buffer is copied backwards.\<close>

definition print_number :: "u64 \<Rightarrow> u64 \<Rightarrow> int \<Rightarrow> u8 \<Rightarrow> bytes" where
  "print_number v base width pad =
     (let r = reversed_digits base v
      in rev (r @ replicate (min (nat width) 64 - length r) pad))"

section \<open>The format interpreter\<close>

text \<open>
  The variable arguments, by the class they are passed in: \<open>int\<close> and \<open>unsigned\<close> are 32 bits wide, the longer
  integers and pointers 64. Fetching one of the wrong class, or one too many, is undefined
  behaviour, as is reading past the terminator of the format.
\<close>

datatype arg = Int32 u32 | Int64 u64 | Str bytes

datatype print_error = BadArgument | Overrun

datatype Length = LengthNone | Char | Short | Long | LongLong | Size

fun read_width :: "int \<Rightarrow> bytes \<Rightarrow> int \<times> bytes" where
  "read_width w [] = (w, [])"
| "read_width w (c # s) = (if 48 \<le> c \<and> c \<le> 57 then read_width (w * 10 + (uint c - 48)) s else (w, c # s))"

definition read_pad :: "bytes \<Rightarrow> u8 \<times> bytes" where
  "read_pad s = (case s of c # r \<Rightarrow> if c = 48 then (48, r) else (32, s) | [] \<Rightarrow> (32, s))"

text \<open>\<open>h\<close>, \<open>hh\<close>, \<open>l\<close>, \<open>ll\<close> and \<open>z\<close>.\<close>

fun read_length :: "bytes \<Rightarrow> Length \<times> bytes" where
  "read_length (c # s) =
     (if c = 104 then (case s of d # r \<Rightarrow> if d = 104 then (Char, r) else (Short, s) | [] \<Rightarrow> (Short, s))
      else if c = 108 then (case s of d # r \<Rightarrow> if d = 108 then (LongLong, r) else (Long, s) | [] \<Rightarrow> (Long, s))
      else if c = 122 then (Size, s)
      else (LengthNone, c # s))"
| "read_length [] = (LengthNone, [])"

abbreviation wide :: "Length \<Rightarrow> bool" where
  "wide l \<equiv> l = Long \<or> l = LongLong \<or> l = Size"

definition signed_arg :: "Length \<Rightarrow> arg list \<Rightarrow> print_error + u64 \<times> arg list" where
  "signed_arg l as = (case as of
     Int32 v # r \<Rightarrow> if wide l then Inl BadArgument else Inr (scast v, r)
   | Int64 v # r \<Rightarrow> if wide l then Inr (v, r) else Inl BadArgument
   | _ \<Rightarrow> Inl BadArgument)"

definition unsigned_arg :: "Length \<Rightarrow> arg list \<Rightarrow> print_error + u64 \<times> arg list" where
  "unsigned_arg l as = (case as of
     Int32 v # r \<Rightarrow> if wide l then Inl BadArgument else Inr (ucast v, r)
   | Int64 v # r \<Rightarrow> if wide l then Inr (v, r) else Inl BadArgument
   | _ \<Rightarrow> Inl BadArgument)"

text \<open>One conversion: \<open>d\<close> and \<open>i\<close>, \<open>u\<close>, \<open>x\<close>, \<open>p\<close>, \<open>s\<close>, \<open>c\<close>, \<open>%\<close>; any other letter prints nothing.\<close>

definition convert :: "u8 \<Rightarrow> Length \<Rightarrow> int \<Rightarrow> u8 \<Rightarrow> arg list \<Rightarrow> print_error + bytes \<times> arg list" where
  "convert c l width pad as =
     (if c = 100 \<or> c = 105 then
        (case signed_arg l as of Inl e \<Rightarrow> Inl e
         | Inr (v, r) \<Rightarrow> Inr (if v <s 0 then 45 # print_number (- v) 10 width pad else print_number v 10 width pad, r))
      else if c = 117 \<or> c = 120 then
        (case unsigned_arg l as of Inl e \<Rightarrow> Inl e
         | Inr (v, r) \<Rightarrow> Inr (print_number v (if c = 120 then 16 else 10) width pad, r))
      else if c = 112 then
        (case as of Int64 v # r \<Rightarrow> Inr ([48, 120] @ print_number v 16 16 48, r) | _ \<Rightarrow> Inl BadArgument)
      else if c = 115 then (case as of Str s # r \<Rightarrow> Inr (s, r) | _ \<Rightarrow> Inl BadArgument)
      else if c = 99 then (case as of Int32 v # r \<Rightarrow> Inr ([ucast v], r) | _ \<Rightarrow> Inl BadArgument)
      else if c = 37 then Inr ([37], as)
      else Inr ([], as))"

lemma read_width_length: "length (snd (read_width w s)) \<le> length s"
  by (induction w s rule: read_width.induct) auto

lemma read_pad_length: "length (snd (read_pad s)) \<le> length s"
  by (simp add: read_pad_def split: list.split)

lemma read_length_length: "length (snd (read_length s)) \<le> length s"
  by (cases s) (auto split: list.split)

text \<open>
  The loop. A format that ends inside a conversion, after its width or length, is taken for an unknown
  conversion with the terminator as its letter, and the loop goes on behind the terminator:
  \<open>Overrun\<close>.
\<close>

function vprintf :: "bytes \<Rightarrow> arg list \<Rightarrow> print_error + bytes" where
  "vprintf fmt as =
     (case dropWhile (\<lambda>c. c \<noteq> 37) fmt of
        [] \<Rightarrow> Inr fmt
      | p # r \<Rightarrow>
          if r = [] then Inr (takeWhile (\<lambda>c. c \<noteq> 37) fmt)
          else
            let (pad, r1) = read_pad r; (width, r2) = read_width 0 r1; (l, r3) = read_length r2 in
            (case r3 of
               [] \<Rightarrow> Inl Overrun
             | c # r4 \<Rightarrow>
                 (case convert c l width pad as of
                    Inl e \<Rightarrow> Inl e
                  | Inr (out, as1) \<Rightarrow>
                      (case vprintf r4 as1 of Inl e \<Rightarrow> Inl e | Inr rest \<Rightarrow> Inr (takeWhile (\<lambda>c. c \<noteq> 37) fmt @ out @ rest)))))"
  by pat_completeness auto
termination
proof (relation "measure (\<lambda>(fmt, as). length fmt)", goal_cases)
  case (2 fmt as p r x pad r1 y width r2 z l r3 c r4 e out as1)
  have "length (p # r) \<le> length fmt" unfolding 2(1) [symmetric] by (rule length_dropWhile_le)
  moreover have "length r1 \<le> length r" using read_pad_length [of r] 2 by (metis snd_conv)
  moreover have "length r2 \<le> length r1" using read_width_length [of 0 r1] 2 by (metis snd_conv)
  moreover have "length r3 \<le> length r2" using read_length_length [of r2] 2 by (metis snd_conv)
  ultimately show ?case using 2 by simp
qed simp

declare vprintf.simps [simp del]

section \<open>Numbers read back\<close>

definition digit_value :: "u8 \<Rightarrow> nat" where
  "digit_value c = (if c < 58 then unat c - 48 else unat c - 87)"

definition read_number :: "nat \<Rightarrow> bytes \<Rightarrow> nat" where
  "read_number base s = foldl (\<lambda>a c. a * base + digit_value c) 0 s"

lemma digit_props:
  assumes "d < 16"
  shows "digit_value (digit d) = unat d" "digit d \<noteq> 32" "digit d = 48 \<longleftrightarrow> d = 0"
proof -
  have "unat d < 16" using assms by (simp add: word_less_nat_alt)
  moreover have "d = of_nat (unat d)" by simp
  ultimately have "d \<in> of_nat ` {..<16}" by blast
  then have "d \<in> {0, 1, 2, 3, 4, 5, 6, 7, 8, 9, 10, 11, 12, 13, 14, 15}" by (auto simp: lessThan_nat_numeral lessThan_Suc)
  then show "digit_value (digit d) = unat d" "digit d \<noteq> 32" "digit d = 48 \<longleftrightarrow> d = 0"
    by (auto simp: digit_def digit_value_def)
qed

lemma digits_loop_value:
  assumes "1 < unat base" "unat base \<le> 16" "unat v < unat base ^ n"
  shows "foldr (\<lambda>c a. a * unat base + digit_value c) (digits_loop n base v) 0 = unat v"
  using assms(3)
proof (induction n arbitrary: v)
  case (Suc n)
  have d: "unat (v div base) < unat base ^ n" using Suc.prems assms(1) by (simp add: unat_div less_mult_imp_div_less mult.commute)
  have "unat v mod unat base < unat base" using assms(1) by (intro mod_less_divisor) simp
  then have "unat (v mod base) < 16" unfolding unat_mod using assms(2) by linarith
  then have m: "v mod base < 16" by (simp add: word_less_nat_alt)
  show ?case using Suc.IH [OF d] digit_props(1) [OF m] by (simp add: unat_div unat_mod)
qed simp

lemma reversed_digits_value:
  assumes "base = 10 \<or> base = 16"
  shows "foldr (\<lambda>c a. a * unat base + digit_value c) (reversed_digits base v) 0 = unat v"
proof -
  have b: "1 < unat base" "unat base \<le> 16" using assms by auto
  have "unat v < 2 ^ 64" using unsigned_less [of v] by simp
  also have "(2 :: nat) ^ 64 \<le> unat base ^ 64" using b(1) by (intro power_mono) simp_all
  finally show ?thesis using digits_loop_value [OF b] by (simp add: reversed_digits_def digit_value_def)
qed

lemma digits_loop_chars: "unat base \<le> 16 \<Longrightarrow> base \<noteq> 0 \<Longrightarrow> c \<in> set (digits_loop n base v) \<Longrightarrow> c \<in> digit ` {..<16}"
proof (induction n arbitrary: v)
  case (Suc n)
  have "unat (v mod base) < unat base" using Suc.prems(2) by (simp add: unat_mod unat_gt_0)
  then have "v mod base < 16" using Suc.prems(1) by (simp add: word_less_nat_alt)
  then show ?case using Suc by (auto split: if_splits)
qed simp

lemma reversed_digits_chars:
  assumes "base = 10 \<or> base = 16" "c \<in> set (reversed_digits base v)"
  shows "c \<in> digit ` {..<16}"
proof (cases "v = 0")
  case True
  then have "c = digit 0" using assms(2) by (simp add: reversed_digits_def digit_def)
  then show ?thesis by simp
next
  case False
  have "unat base \<le> 16" "base \<noteq> 0" using assms(1) by auto
  then show ?thesis using False assms(2) digits_loop_chars by (simp add: reversed_digits_def)
qed

lemma length_digits_loop: "length (digits_loop n base v) \<le> n"
  by (induction n arbitrary: v) auto

lemma reversed_digits_length: "0 < length (reversed_digits base v)" "length (reversed_digits base v) \<le> 64"
  using length_digits_loop [of 64 base v] by (simp_all add: reversed_digits_def numeral_eq_Suc)

lemma foldl_zeros: "foldl (\<lambda>a c. a * b + digit_value c) 0 (replicate n 48 @ s) = foldl (\<lambda>a c. a * b + digit_value c) 0 s"
  by (induction n) (simp_all add: digit_value_def)

lemma dropWhile_replicate: "dropWhile (\<lambda>c. c = x) (replicate k x @ s) = dropWhile (\<lambda>c. c = x) s"
  by (induction k) simp_all

text \<open>C37. A printed number, without leading spaces, reads back as the value, and fills the width.\<close>

theorem print_number_roundtrip:
  assumes b: "base = 10 \<or> base = 16" and p: "pad = 32 \<or> pad = 48"
  shows "read_number (unat base) (dropWhile (\<lambda>c. c = 32) (print_number v base width pad)) = unat v \<and>
    length (print_number v base width pad) = max (length (reversed_digits base v)) (min (nat width) 64) \<and>
    (width \<le> 1 \<longrightarrow> print_number v base width pad = rev (reversed_digits base v))"
proof -
  let ?r = "rev (reversed_digits base v)"
  define k where "k = min (nat width) 64 - length (reversed_digits base v)"
  have e: "print_number v base width pad = replicate k pad @ ?r" by (simp add: print_number_def Let_def k_def rev_replicate)
  have no: "c \<noteq> 32" if "c \<in> set ?r" for c using reversed_digits_chars [OF b] that digit_props(2) by fastforce
  have "?r \<noteq> []" using reversed_digits_length(1) [of base v] by auto
  then have dw: "dropWhile (\<lambda>c. c = 32) ?r = ?r" using no [of "hd ?r"] by (cases ?r) auto
  have "read_number (unat base) ?r = unat v"
    using reversed_digits_value [OF b, of v] by (simp add: read_number_def foldl_conv_foldr)
  moreover have "read_number (unat base) (dropWhile (\<lambda>c. c = 32) (replicate k pad @ ?r)) = read_number (unat base) ?r"
    using p
  proof
    assume "pad = 32"
    then show ?thesis using dw by (simp add: dropWhile_replicate)
  next
    assume pad: "pad = 48"
    show ?thesis
    proof (cases k)
      case 0
      then show ?thesis using dw by simp
    next
      case (Suc m)
      then have "dropWhile (\<lambda>c. c = 32) (replicate k pad @ ?r) = replicate k 48 @ ?r" using pad by simp
      then show ?thesis unfolding read_number_def by (simp add: foldl_zeros del: foldl_append)
    qed
  qed
  moreover have "k = 0" if "width \<le> 1"
  proof -
    have "nat width \<le> 1" using that by simp
    then have "nat width \<le> length (reversed_digits base v)" using reversed_digits_length(1) [of base v] by linarith
    then show ?thesis by (simp add: k_def min.coboundedI1)
  qed
  moreover have "length (replicate k pad @ ?r) = max (length (reversed_digits base v)) (min (nat width) 64)"
  proof -
    have "m - l + l = max l m" for m l :: nat by arith
    then show ?thesis by (simp only: length_append length_replicate length_rev k_def)
  qed
  ultimately show ?thesis unfolding e by simp
qed

theorem print_number_roundtrip_witness:
  "read_number 16 (dropWhile (\<lambda>c. c = 32) (print_number 0xBEEF 16 8 48)) = 0xBEEF \<and> print_number 0xBEEF 16 8 48 = [48, 48, 48, 48, 98, 101, 101, 102]"
proof
  show "read_number 16 (dropWhile (\<lambda>c. c = 32) (print_number 0xBEEF 16 8 48)) = 0xBEEF"
    using print_number_roundtrip [of 16 48 "0xBEEF" 8] by simp
  show "print_number 0xBEEF 16 8 48 = [48, 48, 48, 48, 98, 101, 101, 102]" by code_simp
qed

section \<open>Formats\<close>

lemma vprintf_literal: "37 \<notin> set fmt \<Longrightarrow> vprintf fmt as = Inr fmt"
proof -
  assume "37 \<notin> set fmt"
  then have d: "dropWhile (\<lambda>c. c \<noteq> 37) fmt = []" by (induction fmt) auto
  show ?thesis unfolding vprintf.simps [of fmt as] d by simp
qed

text \<open>Literal text, one conversion, and the rest.\<close>

lemma vprintf_percent:
  assumes "37 \<notin> set lit" "r \<noteq> []"
  shows "vprintf (lit @ 37 # r) as =
    (let (pad, r1) = read_pad r; (width, r2) = read_width 0 r1; (l, r3) = read_length r2 in
     (case r3 of
        [] \<Rightarrow> Inl Overrun
      | c # r4 \<Rightarrow>
          (case convert c l width pad as of
             Inl e \<Rightarrow> Inl e
           | Inr (out, as1) \<Rightarrow> (case vprintf r4 as1 of Inl e \<Rightarrow> Inl e | Inr rest \<Rightarrow> Inr (lit @ out @ rest)))))"
proof -
  have d: "dropWhile (\<lambda>c. c \<noteq> 37) (lit @ 37 # r) = 37 # r" "takeWhile (\<lambda>c. c \<noteq> 37) (lit @ 37 # r) = lit"
    using assms(1) by (induction lit) auto
  show ?thesis by (subst vprintf.simps) (unfold d, simp add: assms(2))
qed

lemma vprintf_conversion:
  assumes "37 \<notin> set lit" "r \<noteq> []" "read_pad r = (pad, r1)" "read_width 0 r1 = (width, r2)" "read_length r2 = (l, c # r4)"
    "convert c l width pad as = Inr (out, as1)" "vprintf r4 as1 = Inr rest"
  shows "vprintf (lit @ 37 # r) as = Inr (lit @ out @ rest)"
  using vprintf_percent [OF assms(1,2)] assms(3-) by simp

text \<open>A format that ends in the middle of a conversion is read past its terminator.\<close>

lemma vprintf_overrun: "vprintf [37, 56] as = Inl Overrun" "vprintf [37, 108] as = Inl Overrun"
  by (subst vprintf.simps; simp add: read_pad_def)+

section \<open>A console as its users see it\<close>

text \<open>
  The colours in force and everything written so far. Text constants of the sources are written
  as strings, a newline being the character 10.
\<close>

record console =
  co_color :: "Color \<times> Color"
  co_out :: bytes

definition ascii :: "string \<Rightarrow> bytes" where
  "ascii s = map of_char s"

definition console_set_color :: "Color \<Rightarrow> Color \<Rightarrow> console \<Rightarrow> console" where
  "console_set_color foreground background c = c\<lparr>co_color := (foreground, background)\<rparr>"

definition console_puts :: "bytes \<Rightarrow> console \<Rightarrow> console" where
  "console_puts s c = c\<lparr>co_out := co_out c @ s\<rparr>"

definition console_printf :: "bytes \<Rightarrow> arg list \<Rightarrow> console \<Rightarrow> console option" where
  "console_printf fmt as c = (case vprintf fmt as of Inl e \<Rightarrow> None | Inr out \<Rightarrow> Some (console_puts out c))"

lemma ascii_simps [simp]: "ascii [] = []" "ascii (c # s) = of_char c # ascii s" "ascii (s @ t) = ascii s @ ascii t"
  by (simp_all add: ascii_def)

lemma console_printf_literal: "37 \<notin> set fmt \<Longrightarrow> console_printf fmt as c = Some (console_puts fmt c)"
  by (simp add: console_printf_def vprintf_literal)

end
