(* ===== verification/Serial_Port.thy ===== *)
theory Serial_Port
  imports Port_IO Console
begin

text \<open>
  The serial console of \<open>include/serial.cpp\<close>: the 16550 on COM1, over the port operations. Sending
  polls the line status register, which is a loop that may never end: \<open>None\<close> is not returning.
\<close>

definition SERIAL_PORT :: u16 where "SERIAL_PORT = 0x3F8"

text \<open>38400 baud, eight data bits, no parity, one stop bit, the queue on.\<close>

definition Serial :: "'d ports \<Rightarrow> 'd \<Rightarrow> 'd" where
  "Serial P d = outs P [(SERIAL_PORT + 1, 0), (SERIAL_PORT + 3, 0x80), (SERIAL_PORT + 0, 3), (SERIAL_PORT + 1, 0), (SERIAL_PORT + 3, 3),
     (SERIAL_PORT + 2, 0xC7), (SERIAL_PORT + 4, 0x0B)] d"

definition tx_ready :: "'d ports \<Rightarrow> 'd \<Rightarrow> bool \<times> 'd" where
  "tx_ready P d = (case inb P (SERIAL_PORT + 5) d of (v, d1) \<Rightarrow> (v AND 0x20 \<noteq> 0, d1))"

partial_function (option) wait_tx :: "'d ports \<Rightarrow> 'd \<Rightarrow> 'd option" where
  "wait_tx P d = (case tx_ready P d of (r, d1) \<Rightarrow> if r then Some d1 else wait_tx P d1)"

definition send :: "'d ports \<Rightarrow> u8 \<Rightarrow> 'd \<Rightarrow> 'd option" where
  "send P v d = (case wait_tx P d of None \<Rightarrow> None | Some d1 \<Rightarrow> Some (outb P SERIAL_PORT v d1))"

definition serial_put :: "'d ports \<Rightarrow> u8 \<Rightarrow> 'd \<Rightarrow> 'd option" where
  "serial_put P c d =
     (case (if c = 10 then send P 13 d else Some d) of None \<Rightarrow> None | Some d1 \<Rightarrow> send P c d1)"

fun serial_write :: "'d ports \<Rightarrow> bytes \<Rightarrow> 'd \<Rightarrow> 'd option" where
  "serial_write P [] d = Some d"
| "serial_write P (c # s) d = (case serial_put P c d of None \<Rightarrow> None | Some d1 \<Rightarrow> serial_write P s d1)"

section \<open>What reaches the line\<close>

text \<open>
  The transmitter: \<open>sent\<close> is what went out on the line, \<open>up\<close> says that the data register is selected, and
  the transmitter becomes ready after finitely many looks at its status, counted by \<open>busy\<close>.
\<close>

definition serial_wired :: "'d ports \<Rightarrow> ('d \<Rightarrow> bool) \<Rightarrow> ('d \<Rightarrow> bytes) \<Rightarrow> ('d \<Rightarrow> nat) \<Rightarrow> bool" where
  "serial_wired P up sent busy \<longleftrightarrow>
     (\<forall>d. up d \<longrightarrow> (let (v, d1) = inb P (SERIAL_PORT + 5) d in up d1 \<and> sent d1 = sent d \<and> (v AND 0x20 = 0 \<longrightarrow> busy d1 < busy d))) \<and>
     (\<forall>d v. up d \<longrightarrow> up (outb P SERIAL_PORT v d) \<and> sent (outb P SERIAL_PORT v d) = sent d @ [v])"

lemma wait_tx_returns:
  assumes w: "serial_wired P up sent busy"
  shows "up d \<Longrightarrow> \<exists>d1. wait_tx P d = Some d1 \<and> up d1 \<and> sent d1 = sent d"
proof (induction d rule: measure_induct_rule [of busy])
  case (less d)
  obtain v d1 where v: "inb P (SERIAL_PORT + 5) d = (v, d1)" by (cases "inb P (SERIAL_PORT + 5) d")
  have d1: "up d1" "sent d1 = sent d" "v AND 0x20 = 0 \<Longrightarrow> busy d1 < busy d"
    using w less.prems v unfolding serial_wired_def by (force simp: Let_def split: prod.splits)+
  show ?case
  proof (cases "v AND 0x20 = 0")
    case True
    then show ?thesis using less.IH [OF d1(3) d1(1)] d1(2) by (subst wait_tx.simps) (simp add: tx_ready_def v)
  next
    case False
    then show ?thesis using d1 by (subst wait_tx.simps) (simp add: tx_ready_def v)
  qed
qed

lemma send_effect:
  assumes w: "serial_wired P up sent busy" and d: "up d"
  shows "\<exists>d1. send P v d = Some d1 \<and> up d1 \<and> sent d1 = sent d @ [v]"
  using wait_tx_returns [OF w d] w unfolding serial_wired_def send_def by force

definition crlf :: "u8 \<Rightarrow> bytes" where
  "crlf c = (if c = 10 then [13, 10] else [c])"

lemma serial_put_effect:
  assumes w: "serial_wired P up sent busy" and d: "up d"
  shows "\<exists>d1. serial_put P c d = Some d1 \<and> up d1 \<and> sent d1 = sent d @ crlf c"
proof (cases "c = 10")
  case True
  obtain d1 where d1: "send P 13 d = Some d1" "up d1" "sent d1 = sent d @ [13]" using send_effect [OF w d] by blast
  then show ?thesis using send_effect [OF w d1(2), of 10] True by (auto simp: serial_put_def crlf_def)
next
  case False
  then show ?thesis using send_effect [OF w d, of c] by (simp add: serial_put_def crlf_def)
qed

text \<open>Writing returns, and the line carries the text with every newline preceded by a carriage return.\<close>

theorem serial_write_sends:
  assumes w: "serial_wired P up sent busy" and d: "up d"
  shows "\<exists>d'. serial_write P s d = Some d' \<and> up d' \<and> sent d' = sent d @ concat (map crlf s)"
  using d
proof (induction s arbitrary: d)
  case (Cons c s)
  obtain d1 where d1: "serial_put P c d = Some d1" "up d1" "sent d1 = sent d @ crlf c" using serial_put_effect [OF w Cons.prems] by blast
  then show ?case using Cons.IH [OF d1(2)] by auto
qed simp

end
