(* ===== verification/Vga_Text.thy ===== *)
theory Vga_Text
  imports Serial_Port
begin

text \<open>
  The text screen of \<open>include/vga.cpp\<close>: 25 rows of 80 cells in the video memory, a cursor, scrolling, and
  the mirror on the serial port.
\<close>

definition WIDTH :: nat where "WIDTH = 80"
definition HEIGHT :: nat where "HEIGHT = 25"

record vga =
  vg_attr :: u8
  vg_row :: u64
  vg_col :: u64
  vg_buffer :: "u16 list"

definition decide_colorcode_vga :: "Color \<Rightarrow> u8" where
  "decide_colorcode_vga c = (case c of Black \<Rightarrow> 0 | Blue \<Rightarrow> 1 | Green \<Rightarrow> 2 | Cyan \<Rightarrow> 3 | Red \<Rightarrow> 4 | Magenta \<Rightarrow> 5 | Brown \<Rightarrow> 6 | LightGrey \<Rightarrow> 7
     | DarkGrey \<Rightarrow> 8 | LightBlue \<Rightarrow> 9 | LightGreen \<Rightarrow> 10 | LightCyan \<Rightarrow> 11 | LightRed \<Rightarrow> 12 | LightMagenta \<Rightarrow> 13 | Yellow \<Rightarrow> 14 | White \<Rightarrow> 15)"

definition make_attr :: "Color \<Rightarrow> Color \<Rightarrow> u8" where
  "make_attr foreground background = push_bit 4 (decide_colorcode_vga background) OR (decide_colorcode_vga foreground AND 0x0F)"

definition make_entry :: "u8 \<Rightarrow> u8 \<Rightarrow> u16" where
  "make_entry c attr = ucast c OR push_bit 8 (ucast attr)"

definition set_color :: "Color \<Rightarrow> Color \<Rightarrow> vga \<Rightarrow> vga" where
  "set_color foreground background v = v\<lparr>vg_attr := make_attr foreground background\<rparr>"

definition move_cursor :: "'d ports \<Rightarrow> vga \<Rightarrow> 'd \<Rightarrow> 'd" where
  "move_cursor P v d =
     (let pos = ucast (vg_row v * of_nat WIDTH + vg_col v) :: u16 in
      out32b P 0x3D5 (ucast (drop_bit 8 pos)) (out32b P 0x3D4 0x0E
        (out32b P 0x3D5 (ucast (pos AND 0xFF)) (out32b P 0x3D4 0x0F d))))"

definition VGA :: "'d ports \<Rightarrow> u16 list \<Rightarrow> 'd \<Rightarrow> vga \<times> 'd" where
  "VGA P mem d =
     (let attr = make_attr LightGreen Black;
          v = \<lparr>vg_attr = attr, vg_row = 0, vg_col = 0,
               vg_buffer = fold (\<lambda>i b. b[i := make_entry 32 attr]) [0..<WIDTH * HEIGHT] mem\<rparr>
      in (v, move_cursor P v d))"

text \<open>Scrolling copies every row over the one above it, cell by cell, and blanks the last.\<close>

definition copy_row :: "nat \<Rightarrow> u16 list \<Rightarrow> u16 list" where
  "copy_row r b = fold (\<lambda>c b. b[(r - 1) * WIDTH + c := b ! (r * WIDTH + c)]) [0..<WIDTH] b"

definition scroll :: "vga \<Rightarrow> vga" where
  "scroll v =
     (let b1 = fold copy_row [1..<HEIGHT] (vg_buffer v);
          b2 = fold (\<lambda>c b. b[(HEIGHT - 1) * WIDTH + c := make_entry 32 (vg_attr v)]) [0..<WIDTH] b1
      in v\<lparr>vg_buffer := b2, vg_row := of_nat HEIGHT - 1\<rparr>)"

definition next_row :: "vga \<Rightarrow> vga" where
  "next_row v =
     (let v1 = v\<lparr>vg_row := vg_row v + 1\<rparr> in if vg_row v1 \<ge> of_nat HEIGHT then scroll v1 else v1)"

definition set_cell :: "u8 \<Rightarrow> vga \<Rightarrow> vga" where
  "set_cell c v = v\<lparr>vg_buffer := (vg_buffer v)[unat (vg_row v * of_nat WIDTH + vg_col v) := make_entry c (vg_attr v)]\<rparr>"

definition vga_put :: "'d ports \<Rightarrow> u8 \<Rightarrow> vga \<Rightarrow> 'd \<Rightarrow> vga \<times> 'd" where
  "vga_put P c v d =
     (let v1 =
        (if c = 10 then next_row (v\<lparr>vg_col := 0\<rparr>)
         else if c = 13 then v\<lparr>vg_col := 0\<rparr>
         else if c = 9 then
           (let v2 = v\<lparr>vg_col := (vg_col v + 8) AND 0xFFFFFFF8\<rparr>
            in if vg_col v2 \<ge> of_nat WIDTH then next_row (v2\<lparr>vg_col := 0\<rparr>) else v2)
         else if c = 8 then
           (let v2 = (if vg_col v > 0 then v\<lparr>vg_col := vg_col v - 1\<rparr>
                      else if vg_row v > 0 then v\<lparr>vg_row := vg_row v - 1, vg_col := of_nat WIDTH - 1\<rparr> else v)
            in set_cell 32 v2)
         else
           (let v2 = set_cell c v; v3 = v2\<lparr>vg_col := vg_col v2 + 1\<rparr>
            in if vg_col v3 \<ge> of_nat WIDTH then next_row (v3\<lparr>vg_col := 0\<rparr>) else v3))
      in (v1, move_cursor P v1 d))"

definition vga_puts :: "'d ports \<Rightarrow> bytes \<Rightarrow> vga \<Rightarrow> 'd \<Rightarrow> vga \<times> 'd" where
  "vga_puts P s v d = fold (\<lambda>c (v, d). vga_put P c v d) s (v, d)"

text \<open>\<open>None\<close> is a serial port that never becomes ready.\<close>

definition vga_write :: "'d ports \<Rightarrow> bool \<Rightarrow> bytes \<Rightarrow> vga \<Rightarrow> 'd \<Rightarrow> (vga \<times> 'd) option" where
  "vga_write P serial s v d =
     (case (if serial then serial_write P s d else Some d) of None \<Rightarrow> None | Some d1 \<Rightarrow> Some (vga_puts P s v d1))"

section \<open>The screen as a grid\<close>

definition cell :: "vga \<Rightarrow> nat \<Rightarrow> nat \<Rightarrow> u16" where
  "cell v r c = vg_buffer v ! (r * WIDTH + c)"

definition vga_ok :: "vga \<Rightarrow> bool" where
  "vga_ok v \<longleftrightarrow> length (vg_buffer v) = WIDTH * HEIGHT \<and> unat (vg_row v) < HEIGHT \<and> unat (vg_col v) < WIDTH"

lemma grid_index:
  assumes "c < WIDTH" "c' < WIDTH"
  shows "r * WIDTH + c = r' * WIDTH + c' \<longleftrightarrow> r = r' \<and> c = c'"
proof
  assume e: "r * WIDTH + c = r' * WIDTH + c'"
  have "(r * WIDTH + c) div WIDTH = r" "(r * WIDTH + c) mod WIDTH = c" "(r' * WIDTH + c') div WIDTH = r'" "(r' * WIDTH + c') mod WIDTH = c'"
    using assms by simp_all
  then show "r = r' \<and> c = c'" using e by metis
qed simp

lemma grid_bound: "r < HEIGHT \<Longrightarrow> c < WIDTH \<Longrightarrow> r * WIDTH + c < WIDTH * HEIGHT"
  unfolding WIDTH_def HEIGHT_def by simp

text \<open>Copying upwards in ascending order reads only what has not been written.\<close>

lemma shift_loop:
  assumes "n + w \<le> length b" "0 < w"
  shows "length (fold (\<lambda>k b. b[k := b ! (k + w)]) [0..<n] b) = length b \<and>
    (\<forall>i < length b. fold (\<lambda>k b. b[k := b ! (k + w)]) [0..<n] b ! i = (if i < n then b ! (i + w) else b ! i))"
  using assms
proof (induction n)
  case (Suc n)
  then have IH: "length (fold (\<lambda>k b. b[k := b ! (k + w)]) [0..<n] b) = length b"
    "\<And>i. i < length b \<Longrightarrow> fold (\<lambda>k b. b[k := b ! (k + w)]) [0..<n] b ! i = (if i < n then b ! (i + w) else b ! i)" by simp_all
  show ?case using IH Suc.prems by (auto simp: nth_list_update less_Suc_eq)
qed simp

lemma rows_loop: "fold copy_row [1..<Suc n] b = fold (\<lambda>k b. b[k := b ! (k + WIDTH)]) [0..<n * WIDTH] b"
proof (induction n)
  case (Suc n)
  have "[0..<Suc n * WIDTH] = [0..<n * WIDTH + WIDTH]" by (simp add: add.commute)
  also have "\<dots> = [0..<n * WIDTH] @ [n * WIDTH..<n * WIDTH + WIDTH]" by (rule upt_add_eq_append) simp
  also have "\<dots> = [0..<n * WIDTH] @ map (\<lambda>c. c + n * WIDTH) [0..<WIDTH]" by (simp add: map_add_upt add.commute)
  finally have "[0..<Suc n * WIDTH] = [0..<n * WIDTH] @ map (\<lambda>c. c + n * WIDTH) [0..<WIDTH]" .
  moreover have "copy_row (Suc n) b = fold (\<lambda>k b. b[k := b ! (k + WIDTH)]) (map (\<lambda>c. c + n * WIDTH) [0..<WIDTH]) b" for b
    unfolding copy_row_def fold_map comp_def by (simp add: add.commute add.left_commute)
  ultimately show ?case using Suc.IH by simp
qed simp

lemma blank_loop:
  "length (fold (\<lambda>c b. b[k + c := x]) [0..<n] b) = length b \<and>
   (\<forall>i < length b. fold (\<lambda>c b. b[k + c := x]) [0..<n] b ! i = (if k \<le> i \<and> i < k + n then x else b ! i))"
proof (induction n)
  case (Suc n)
  then show ?case by (auto simp: nth_list_update less_Suc_eq)
qed auto

lemma scroll_effect:
  assumes "length (vg_buffer v) = WIDTH * HEIGHT"
  shows "length (vg_buffer (scroll v)) = WIDTH * HEIGHT" "vg_row (scroll v) = 24" "vg_col (scroll v) = vg_col v" "vg_attr (scroll v) = vg_attr v"
    "r < HEIGHT \<Longrightarrow> c < WIDTH \<Longrightarrow> cell (scroll v) r c = (if r < 24 then cell v (Suc r) c else make_entry 32 (vg_attr v))"
proof -
  let ?b1 = "fold copy_row [1..<HEIGHT] (vg_buffer v)"
  have b1: "?b1 = fold (\<lambda>k b. b[k := b ! (k + WIDTH)]) [0..<24 * WIDTH] (vg_buffer v)"
    using rows_loop [of 24 "vg_buffer v"] by (simp add: HEIGHT_def)
  have s: "length ?b1 = WIDTH * HEIGHT" "\<And>i. i < WIDTH * HEIGHT \<Longrightarrow> ?b1 ! i = (if i < 24 * WIDTH then vg_buffer v ! (i + WIDTH) else vg_buffer v ! i)"
    unfolding b1 using shift_loop [of "24 * WIDTH" WIDTH "vg_buffer v"] assms by (simp_all add: WIDTH_def HEIGHT_def)
  let ?b2 = "fold (\<lambda>c b. b[(HEIGHT - 1) * WIDTH + c := make_entry 32 (vg_attr v)]) [0..<WIDTH] ?b1"
  have e: "scroll v = v\<lparr>vg_buffer := ?b2, vg_row := of_nat HEIGHT - 1\<rparr>" by (simp add: scroll_def Let_def)
  have b2: "length ?b2 = WIDTH * HEIGHT" "\<And>i. i < WIDTH * HEIGHT \<Longrightarrow> ?b2 ! i = (if 24 * WIDTH \<le> i \<and> i < 25 * WIDTH then make_entry 32 (vg_attr v) else ?b1 ! i)"
    using blank_loop [of "(HEIGHT - 1) * WIDTH" "make_entry 32 (vg_attr v)" WIDTH ?b1] s(1) by (simp_all add: HEIGHT_def)
  show "length (vg_buffer (scroll v)) = WIDTH * HEIGHT" "vg_row (scroll v) = 24" "vg_col (scroll v) = vg_col v" "vg_attr (scroll v) = vg_attr v"
    unfolding e using b2(1) by (simp_all add: HEIGHT_def)
  show "cell (scroll v) r c = (if r < 24 then cell v (Suc r) c else make_entry 32 (vg_attr v))" if rc: "r < HEIGHT" "c < WIDTH"
  proof -
    have i: "r * WIDTH + c < WIDTH * HEIGHT" "r * WIDTH + c < 24 * WIDTH \<longleftrightarrow> r < 24" "r * WIDTH + c < 25 * WIDTH" "r * WIDTH + c + WIDTH = Suc r * WIDTH + c"
      using rc by (auto simp: HEIGHT_def WIDTH_def)
    have c: "cell (scroll v) r c = ?b2 ! (r * WIDTH + c)" by (simp add: cell_def e)
    show ?thesis
    proof (cases "r < 24")
      case True
      then have "cell (scroll v) r c = vg_buffer v ! (r * WIDTH + c + WIDTH)" unfolding c b2(2) [OF i(1)] s(2) [OF i(1)] using i(2) by simp
      then show ?thesis unfolding i(4) using True by (simp add: cell_def)
    next
      case False
      then show ?thesis unfolding c b2(2) [OF i(1)] using i(2,3) by simp
    qed
  qed
qed

text \<open>The specification: grids, one row up, and one cell written.\<close>

definition shifted :: "u16 \<Rightarrow> (nat \<Rightarrow> nat \<Rightarrow> u16) \<Rightarrow> nat \<Rightarrow> nat \<Rightarrow> u16" where
  "shifted blank g r c = (if r < 24 then g (Suc r) c else blank)"

definition same_grid :: "vga \<Rightarrow> (nat \<Rightarrow> nat \<Rightarrow> u16) \<Rightarrow> bool" where
  "same_grid v g \<longleftrightarrow> (\<forall>r < HEIGHT. \<forall>c < WIDTH. cell v r c = g r c)"

lemma next_row_effect:
  assumes ok: "length (vg_buffer v) = WIDTH * HEIGHT" "unat (vg_row v) < HEIGHT" "unat (vg_col v) < WIDTH"
  shows "vga_ok (next_row v) \<and> vg_attr (next_row v) = vg_attr v \<and> vg_col (next_row v) = vg_col v \<and> unat (vg_row (next_row v)) = min (Suc (unat (vg_row v))) 24 \<and>
    same_grid (next_row v) (if unat (vg_row v) = 24 then shifted (make_entry 32 (vg_attr v)) (cell v) else cell v)"
proof -
  have u: "unat (vg_row v + 1) = Suc (unat (vg_row v))"
  proof -
    have "vg_row v < 25" using ok(2) by (simp add: word_less_nat_alt HEIGHT_def)
    then show ?thesis by (rule word_less_Suc_bound)
  qed
  let ?v1 = "v\<lparr>vg_row := vg_row v + 1\<rparr>"
  have c1: "cell ?v1 = cell v" by (simp add: cell_def fun_eq_iff)
  have h: "vg_row v + 1 \<ge> of_nat HEIGHT \<longleftrightarrow> unat (vg_row v) = 24" using u ok(2) by (auto simp: word_le_nat_alt HEIGHT_def)
  show ?thesis
  proof (cases "unat (vg_row v) = 24")
    case True
    then have n: "next_row v = scroll ?v1" using h by (simp add: next_row_def Let_def)
    have l: "length (vg_buffer ?v1) = WIDTH * HEIGHT" using ok(1) by simp
    note s = scroll_effect [OF l]
    have "same_grid (scroll ?v1) (shifted (make_entry 32 (vg_attr v)) (cell v))"
      unfolding same_grid_def shifted_def using s(5) c1 by simp
    then show ?thesis unfolding n using s(1-4) True ok(3) by (simp add: vga_ok_def HEIGHT_def)
  next
    case False
    then have n: "next_row v = ?v1" using h by (simp add: next_row_def Let_def)
    show ?thesis unfolding n using False ok u by (simp add: vga_ok_def same_grid_def c1 HEIGHT_def)
  qed
qed

lemma cursor_index:
  assumes "vga_ok v"
  shows "unat (vg_row v * of_nat WIDTH + vg_col v) = unat (vg_row v) * WIDTH + unat (vg_col v)"
  using assms unfolding vga_ok_def by (simp add: unat_word_ariths WIDTH_def HEIGHT_def)

lemma set_cell_effect:
  assumes ok: "vga_ok v"
  shows "vga_ok (set_cell c v)" "vg_row (set_cell c v) = vg_row v" "vg_col (set_cell c v) = vg_col v" "vg_attr (set_cell c v) = vg_attr v"
    "r < HEIGHT \<Longrightarrow> k < WIDTH \<Longrightarrow>
       cell (set_cell c v) r k = (if r = unat (vg_row v) \<and> k = unat (vg_col v) then make_entry c (vg_attr v) else cell v r k)"
proof -
  have l: "length (vg_buffer v) = WIDTH * HEIGHT" "unat (vg_row v) < HEIGHT" "unat (vg_col v) < WIDTH" using ok by (simp_all add: vga_ok_def)
  show "vga_ok (set_cell c v)" "vg_row (set_cell c v) = vg_row v" "vg_col (set_cell c v) = vg_col v" "vg_attr (set_cell c v) = vg_attr v"
    using ok by (simp_all add: set_cell_def vga_ok_def)
  show "cell (set_cell c v) r k = (if r = unat (vg_row v) \<and> k = unat (vg_col v) then make_entry c (vg_attr v) else cell v r k)"
    if rk: "r < HEIGHT" "k < WIDTH"
    using grid_index [OF l(3) rk(2), of "unat (vg_row v)" r] grid_bound [OF l(2,3)] l(1)
    by (auto simp: cell_def set_cell_def cursor_index [OF ok] nth_list_update)
qed

text \<open>Going on to the next column, with a new row at the end of the line.\<close>

lemma advance_effect:
  assumes ok: "vga_ok v"
  defines "v' \<equiv> (if vg_col v + 1 \<ge> of_nat WIDTH then next_row (v\<lparr>vg_col := 0\<rparr>) else v\<lparr>vg_col := vg_col v + 1\<rparr>)"
    and "full \<equiv> unat (vg_row v) = 24 \<and> unat (vg_col v) = 79"
  shows "vga_ok v' \<and> vg_attr v' = vg_attr v \<and> same_grid v' (if full then shifted (make_entry 32 (vg_attr v)) (cell v) else cell v) \<and>
    unat (vg_row v') * WIDTH + unat (vg_col v') = (if full then 24 * WIDTH else Suc (unat (vg_row v) * WIDTH + unat (vg_col v)))"
proof -
  have l: "length (vg_buffer v) = WIDTH * HEIGHT" "unat (vg_row v) < HEIGHT" "unat (vg_col v) < WIDTH" using ok by (simp_all add: vga_ok_def)
  have "vg_col v < 80" using l(3) by (simp add: word_less_nat_alt WIDTH_def)
  then have u: "unat (vg_col v + 1) = Suc (unat (vg_col v))" by (rule word_less_Suc_bound)
  have h: "vg_col v + 1 \<ge> of_nat WIDTH \<longleftrightarrow> unat (vg_col v) = 79" using u l(3) by (auto simp: word_le_nat_alt WIDTH_def)
  show ?thesis
  proof (cases "unat (vg_col v) = 79")
    case True
    let ?w = "v\<lparr>vg_col := 0\<rparr>"
    have "cell ?w = cell v" by (simp add: cell_def fun_eq_iff)
    moreover have "v' = next_row ?w" using True h by (simp add: v'_def)
    moreover have "length (vg_buffer ?w) = WIDTH * HEIGHT" "unat (vg_row ?w) < HEIGHT" "unat (vg_col ?w) < WIDTH" using l by (simp_all add: WIDTH_def)
    ultimately show ?thesis using next_row_effect [of ?w] True l(2)
      by (auto simp: full_def WIDTH_def HEIGHT_def min_def)
  next
    case False
    have n: "v' = v\<lparr>vg_col := vg_col v + 1\<rparr>" using False h by (simp add: v'_def)
    have "cell v' = cell v" by (simp add: n cell_def fun_eq_iff)
    then show ?thesis using False l u by (auto simp: n full_def vga_ok_def same_grid_def WIDTH_def)
  qed
qed

lemma vga_put_effect:
  fixes P :: "'d ports" and c :: u8 and d :: 'd
  assumes ok: "vga_ok v"
  defines "v' \<equiv> fst (vga_put P c v d)" and "blank \<equiv> make_entry 32 (vg_attr v)"
    and "full \<equiv> unat (vg_row v) = 24 \<and> unat (vg_col v) = 79"
    and "g \<equiv> (\<lambda>r k. if r = unat (vg_row v) \<and> k = unat (vg_col v) then make_entry c (vg_attr v) else cell v r k)"
  shows "vga_ok v' \<and> vg_attr v' = vg_attr v \<and>
    (c \<notin> {8, 9, 10, 13} \<longrightarrow> same_grid v' (if full then shifted blank g else g) \<and>
       unat (vg_row v') * WIDTH + unat (vg_col v') = (if full then 24 * WIDTH else Suc (unat (vg_row v) * WIDTH + unat (vg_col v)))) \<and>
    (c = 10 \<longrightarrow> same_grid v' (if unat (vg_row v) = 24 then shifted blank (cell v) else cell v) \<and>
       unat (vg_row v') = min (Suc (unat (vg_row v))) 24 \<and> vg_col v' = 0)"
proof -
  have l: "length (vg_buffer v) = WIDTH * HEIGHT" "unat (vg_row v) < HEIGHT" "unat (vg_col v) < WIDTH" using ok by (simp_all add: vga_ok_def)
  have cc: "cell (v\<lparr>vg_col := x\<rparr>) = cell v" for x by (simp add: cell_def fun_eq_iff)
  have nr: "vga_ok (next_row (v\<lparr>vg_col := 0\<rparr>)) \<and> vg_attr (next_row (v\<lparr>vg_col := 0\<rparr>)) = vg_attr v \<and> vg_col (next_row (v\<lparr>vg_col := 0\<rparr>)) = 0 \<and>
      unat (vg_row (next_row (v\<lparr>vg_col := 0\<rparr>))) = min (Suc (unat (vg_row v))) 24 \<and>
      same_grid (next_row (v\<lparr>vg_col := 0\<rparr>)) (if unat (vg_row v) = 24 then shifted blank (cell v) else cell v)"
    using next_row_effect [of "v\<lparr>vg_col := 0\<rparr>"] l unfolding cc blank_def by (auto simp: WIDTH_def split: if_splits)
  consider "c = 10" | "c = 13" | "c = 9" | "c = 8" | "c \<notin> {8, 9, 10, 13}" by blast
  then show ?thesis
  proof cases
    case 1
    then have "v' = next_row (v\<lparr>vg_col := 0\<rparr>)" by (simp add: v'_def vga_put_def Let_def)
    then show ?thesis using nr 1 by simp
  next
    case 2
    then have "v' = v\<lparr>vg_col := 0\<rparr>" by (simp add: v'_def vga_put_def Let_def)
    then show ?thesis using l 2 by (simp add: vga_ok_def WIDTH_def)
  next
    case 3
    have e: "v' = (if (vg_col v + 8) AND 0xFFFFFFF8 \<ge> of_nat WIDTH then next_row (v\<lparr>vg_col := 0\<rparr>) else v\<lparr>vg_col := (vg_col v + 8) AND 0xFFFFFFF8\<rparr>)"
      unfolding v'_def vga_put_def Let_def using 3 by simp
    have "\<not> (vg_col v + 8) AND 0xFFFFFFF8 \<ge> of_nat WIDTH \<Longrightarrow> unat ((vg_col v + 8) AND 0xFFFFFFF8) < WIDTH"
      by (simp add: word_le_nat_alt WIDTH_def)
    then show ?thesis unfolding e using nr 3 l by (simp add: vga_ok_def)
  next
    case 4
    define v2 where "v2 = (if vg_col v > 0 then v\<lparr>vg_col := vg_col v - 1\<rparr>
      else if vg_row v > 0 then v\<lparr>vg_row := vg_row v - 1, vg_col := of_nat WIDTH - 1\<rparr> else v)"
    have d: "unat (x - 1) = unat x - 1" if "0 < x" for x :: u64 using that by (simp add: unat_minus_one word_gt_0)
    have ok2: "vga_ok v2" "vg_attr v2 = vg_attr v" using ok d [of "vg_col v"] d [of "vg_row v"] by (auto simp: v2_def vga_ok_def WIDTH_def)
    have "v' = set_cell 32 v2" unfolding v'_def vga_put_def Let_def v2_def using 4 by simp
    then show ?thesis using set_cell_effect(1,4) [OF ok2(1), where c = 32] ok2(2) 4 by simp
  next
    case 5
    note sc = set_cell_effect [OF ok, where c = c]
    have e: "v' = (if vg_col (set_cell c v) + 1 \<ge> of_nat WIDTH then next_row ((set_cell c v)\<lparr>vg_col := 0\<rparr>) else (set_cell c v)\<lparr>vg_col := vg_col (set_cell c v) + 1\<rparr>)"
      unfolding v'_def vga_put_def Let_def using 5 by simp
    have a: "vga_ok v' \<and> vg_attr v' = vg_attr v \<and> same_grid v' (if full then shifted blank (cell (set_cell c v)) else cell (set_cell c v)) \<and>
      unat (vg_row v') * WIDTH + unat (vg_col v') = (if full then 24 * WIDTH else Suc (unat (vg_row v) * WIDTH + unat (vg_col v)))"
      using advance_effect [OF sc(1)] unfolding e sc(2-4) full_def blank_def .
    have "same_grid v' (if full then shifted blank g else g)"
      using a sc(5) unfolding same_grid_def shifted_def g_def by (auto simp: HEIGHT_def)
    then show ?thesis using a 5 by simp
  qed
qed

text \<open>The other control characters: carriage return, tab stops at the multiples of eight, and backspace.\<close>

lemma tab_stop:
  assumes "unat (k :: u64) < WIDTH"
  shows "unat ((k + 8) AND 0xFFFFFFF8) = 8 * (unat k div 8 + 1)"
proof -
  have all: "\<forall>n\<in>set [0..<80]. unat ((word_of_nat n + 8 :: u64) AND 0xFFFFFFF8) = 8 * (n div 8 + 1)" by code_simp
  have "unat k \<in> set [0..<80]" using assms by (simp add: WIDTH_def)
  from bspec [OF all this] show ?thesis by simp
qed

lemma vga_put_control:
  fixes P :: "'d ports" and c :: u8 and d :: 'd
  assumes ok: "vga_ok v"
  defines "v' \<equiv> fst (vga_put P c v d)" and "stop \<equiv> 8 * (unat (vg_col v) div 8 + 1)" and "pos \<equiv> unat (vg_row v) * WIDTH + unat (vg_col v)"
  shows "(c = 13 \<longrightarrow> v' = v\<lparr>vg_col := 0\<rparr>) \<and>
    (c = 9 \<longrightarrow> v' = (if stop < WIDTH then v\<lparr>vg_col := of_nat stop\<rparr> else fst (vga_put P 10 v d))) \<and>
    (c = 8 \<longrightarrow> unat (vg_row v') * WIDTH + unat (vg_col v') = pos - 1 \<and>
       same_grid v' (\<lambda>r k. if r * WIDTH + k = pos - 1 then make_entry 32 (vg_attr v) else cell v r k))"
proof (intro conjI impI)
  have l: "unat (vg_row v) < HEIGHT" "unat (vg_col v) < WIDTH" using ok by (simp_all add: vga_ok_def)
  show "v' = v\<lparr>vg_col := 0\<rparr>" if "c = 13" using that by (simp add: v'_def vga_put_def Let_def)
  show "v' = (if stop < WIDTH then v\<lparr>vg_col := of_nat stop\<rparr> else fst (vga_put P 10 v d))" if c: "c = 9"
  proof -
    have t: "(vg_col v + 8) AND 0xFFFFFFF8 = of_nat stop" using arg_cong [OF tab_stop [OF l(2)], of "of_nat :: nat \<Rightarrow> u64"] unfolding stop_def [symmetric] by simp
    have "stop \<le> 80" using l(2) by (simp add: stop_def WIDTH_def)
    then have "of_nat stop \<ge> (of_nat WIDTH :: u64) \<longleftrightarrow> \<not> stop < WIDTH" by (simp add: word_le_nat_alt WIDTH_def unat_of_nat not_less)
    then show ?thesis unfolding v'_def vga_put_def Let_def using c t by simp
  qed
  assume c: "c = 8"
  define v2 where "v2 = (if vg_col v > 0 then v\<lparr>vg_col := vg_col v - 1\<rparr>
    else if vg_row v > 0 then v\<lparr>vg_row := vg_row v - 1, vg_col := of_nat WIDTH - 1\<rparr> else v)"
  have dec: "unat (x - 1) = unat x - 1" "0 < unat x" if "0 < x" for x :: u64 using that by (simp_all add: unat_minus_one word_gt_0 unat_gt_0)
  have ok2: "vga_ok v2" "vg_attr v2 = vg_attr v" "cell v2 = cell v"
    using ok dec [of "vg_col v"] dec [of "vg_row v"] by (auto simp: v2_def vga_ok_def WIDTH_def cell_def fun_eq_iff)
  have p: "unat (vg_row v2) * WIDTH + unat (vg_col v2) = pos - 1"
    using dec [of "vg_col v"] dec [of "vg_row v"] by (auto simp: v2_def pos_def WIDTH_def word_gt_0 diff_mult_distrib)
  have e: "v' = set_cell 32 v2" unfolding v'_def vga_put_def Let_def v2_def using c by simp
  show "unat (vg_row v') * WIDTH + unat (vg_col v') = pos - 1" unfolding e set_cell_effect(2,3) [OF ok2(1)] by (rule p)
  have l2: "unat (vg_col v2) < WIDTH" using ok2(1) by (simp add: vga_ok_def)
  have "r * WIDTH + k = pos - 1 \<longleftrightarrow> r = unat (vg_row v2) \<and> k = unat (vg_col v2)" if "k < WIDTH" for r k
    unfolding p [symmetric] using grid_index [OF that l2] by auto
  then show "same_grid v' (\<lambda>r k. if r * WIDTH + k = pos - 1 then make_entry 32 (vg_attr v) else cell v r k)"
    unfolding same_grid_def e using set_cell_effect(5) [OF ok2(1)] ok2(2,3) by simp
qed

text \<open>
  C36. Every byte keeps the cursor on the screen, so no cell outside the 80 by 25 is written. A printing
  character lands at the cursor in the current colour and the cursor moves on by one cell; a
  newline goes to the start of the next row; at the bottom the rows move up by one and the last one
  is blank. A carriage return only moves the cursor, a tab moves it to the next multiple of eight or,
  at the end of the row, does what a newline does, and a backspace steps back one cell, over the start
  of a row but not of the screen, and blanks it.
\<close>

theorem vga_put_correct:
  assumes "vga_ok v"
  shows "let v' = fst (vga_put P c v d); blank = make_entry 32 (vg_attr v); full = (unat (vg_row v) = 24 \<and> unat (vg_col v) = 79);
      g = (\<lambda>r k. if r = unat (vg_row v) \<and> k = unat (vg_col v) then make_entry c (vg_attr v) else cell v r k)
    in vga_ok v' \<and> vg_attr v' = vg_attr v \<and>
      (c \<notin> {8, 9, 10, 13} \<longrightarrow> same_grid v' (if full then shifted blank g else g) \<and>
         unat (vg_row v') * WIDTH + unat (vg_col v') = (if full then 24 * WIDTH else Suc (unat (vg_row v) * WIDTH + unat (vg_col v)))) \<and>
      (c = 10 \<longrightarrow> same_grid v' (if unat (vg_row v) = 24 then shifted blank (cell v) else cell v) \<and>
         unat (vg_row v') = min (Suc (unat (vg_row v))) 24 \<and> vg_col v' = 0) \<and>
      (c = 13 \<longrightarrow> v' = v\<lparr>vg_col := 0\<rparr>) \<and>
      (c = 9 \<longrightarrow> (let stop = 8 * (unat (vg_col v) div 8 + 1)
         in v' = (if stop < WIDTH then v\<lparr>vg_col := of_nat stop\<rparr> else fst (vga_put P 10 v d)))) \<and>
      (c = 8 \<longrightarrow> (let pos = unat (vg_row v) * WIDTH + unat (vg_col v)
         in unat (vg_row v') * WIDTH + unat (vg_col v') = pos - 1 \<and>
            same_grid v' (\<lambda>r k. if r * WIDTH + k = pos - 1 then blank else cell v r k)))"
  unfolding Let_def using vga_put_effect [OF assms, of P c d] vga_put_control [OF assms, of c P d] by simp

text \<open>Printing the letter \<open>A\<close> on a blank screen.\<close>

theorem vga_put_correct_witness:
  "let v = \<lparr>vg_attr = 7, vg_row = 0, vg_col = 0, vg_buffer = replicate 2000 0\<rparr>; v' = fst (vga_put (trace_ports (\<lambda>_. 0)) 65 v [])
   in vga_ok v' \<and> cell v' 0 0 = 0x741 \<and> unat (vg_row v') * WIDTH + unat (vg_col v') = 1"
proof -
  let ?v = "\<lparr>vg_attr = 7, vg_row = 0, vg_col = 0, vg_buffer = replicate 2000 0\<rparr> :: vga"
  have "vga_ok ?v" by (simp add: vga_ok_def WIDTH_def HEIGHT_def)
  from vga_put_correct [OF this, of "trace_ports (\<lambda>_. 0)" 65 "[]"] show ?thesis
    by (simp add: same_grid_def Let_def HEIGHT_def WIDTH_def make_entry_def)
qed

text \<open>The console writes a whole text: the invariant holds after it, and the serial line has its copy.\<close>

lemma vga_puts_ok: "vga_ok v \<Longrightarrow> vga_ok (fst (vga_puts P s v d))"
proof (induction s arbitrary: v d)
  case (Cons c s)
  obtain v1 d1 where e: "vga_put P c v d = (v1, d1)" by (cases "vga_put P c v d")
  have "vga_ok v1" using vga_put_effect [OF Cons.prems, of P c d] e by simp
  then show ?case using Cons.IH [of v1 d1] e by (simp add: vga_puts_def)
qed (simp add: vga_puts_def)

end
