(* ===== verification/Pci_Bus.thy ===== *)
theory Pci_Bus
  imports Port_IO
begin

text \<open>
  Configuration space access and the bus scan of \<open>include/pci.cpp\<close>, over the port operations.
\<close>

definition CONFIG_ADDRESS_PORT :: u16 where "CONFIG_ADDRESS_PORT = 0xCF8"
definition CONFIG_DATA_PORT :: u16 where "CONFIG_DATA_PORT = 0xCFC"

record PCIBarInfo =
  bar_base_address :: u64
  bar_is_io_space :: bool
  bar_is_64bit :: bool
  bar_is_prefetchable :: bool
  bar_valid :: bool

record PCIDevice =
  pci_bus :: u8
  pci_device :: u8
  pci_function :: u8
  pci_vendor_id :: u16
  pci_device_id :: u16
  pci_bars :: "PCIBarInfo list"

definition make_pci_address :: "u8 \<Rightarrow> u8 \<Rightarrow> u8 \<Rightarrow> u8 \<Rightarrow> u32" where
  "make_pci_address bus dev fn offset =
     push_bit 16 (ucast bus) OR push_bit 11 (ucast dev) OR push_bit 8 (ucast fn) OR ucast (offset AND 0xFC) OR push_bit 31 1"

definition read_config :: "'d ports \<Rightarrow> u8 \<Rightarrow> u8 \<Rightarrow> u8 \<Rightarrow> u8 \<Rightarrow> 'd \<Rightarrow> u32 \<times> 'd" where
  "read_config P bus dev fn offset d = in32b P CONFIG_DATA_PORT (out32b P CONFIG_ADDRESS_PORT (make_pci_address bus dev fn offset) d)"

definition write_config :: "'d ports \<Rightarrow> u8 \<Rightarrow> u8 \<Rightarrow> u8 \<Rightarrow> u8 \<Rightarrow> u32 \<Rightarrow> 'd \<Rightarrow> 'd" where
  "write_config P bus dev fn offset value d =
     snd (in32b P CONFIG_DATA_PORT (out32b P CONFIG_DATA_PORT value (out32b P CONFIG_ADDRESS_PORT (make_pci_address bus dev fn offset) d)))"

definition decode_bar :: "u32 \<Rightarrow> PCIBarInfo" where
  "decode_bar bar_data =
     (let io = bar_data AND 1 \<noteq> 0
      in \<lparr>bar_base_address = ucast (if io then bar_data AND 0xFFFFFFFC else bar_data AND 0xFFFFFFF0), bar_is_io_space = io,
          bar_is_64bit = bar_data AND 4 \<noteq> 0, bar_is_prefetchable = bar_data AND 8 \<noteq> 0, bar_valid = True\<rparr>)"

fun read_bars :: "'d ports \<Rightarrow> u8 \<Rightarrow> u8 \<Rightarrow> u8 \<Rightarrow> nat list \<Rightarrow> 'd \<Rightarrow> PCIBarInfo list \<times> 'd" where
  "read_bars P bus dev fn [] d = ([], d)"
| "read_bars P bus dev fn (i # is) d =
     (case read_config P bus dev fn (0x10 + of_nat i * 4) d of (v, d1) \<Rightarrow>
      case read_bars P bus dev fn is d1 of (bars, d2) \<Rightarrow> (decode_bar v # bars, d2))"

text \<open>The three loops of the scan, as one loop over all functions in their order.\<close>

definition all_functions :: "(u8 \<times> u8 \<times> u8) list" where
  "all_functions = concat (map (\<lambda>bus. concat (map (\<lambda>dev. map (\<lambda>fn. (of_nat bus, of_nat dev, of_nat fn)) [0..<8]) [0..<32])) [0..<256])"

fun scan_functions :: "'d ports \<Rightarrow> u16 \<Rightarrow> u16 \<Rightarrow> (u8 \<times> u8 \<times> u8) list \<Rightarrow> 'd \<Rightarrow> PCIDevice option \<times> 'd" where
  "scan_functions P vendor_id device_id [] d = (None, d)"
| "scan_functions P vendor_id device_id ((bus, dev, fn) # rest) d =
     (case read_config P bus dev fn 0 d of (data, d1) \<Rightarrow>
      let vid = ucast (data AND 0xFFFF); did = ucast (drop_bit 16 data AND 0xFFFF) in
      if vid = vendor_id \<and> did = device_id then
        (case read_bars P bus (dev AND 0x1F) fn [0..<6] d1 of (bars, d2) \<Rightarrow>
          (Some \<lparr>pci_bus = bus, pci_device = dev AND 0x1F, pci_function = fn, pci_vendor_id = vid, pci_device_id = did, pci_bars = bars\<rparr>, d2))
      else scan_functions P vendor_id device_id rest d1)"

definition pci_device_exists :: "'d ports \<Rightarrow> u16 \<Rightarrow> u16 \<Rightarrow> 'd \<Rightarrow> PCIDevice option \<times> 'd" where
  "pci_device_exists P vendor_id device_id d = scan_functions P vendor_id device_id all_functions d"

definition enable_bus_master :: "'d ports \<Rightarrow> PCIDevice \<Rightarrow> 'd \<Rightarrow> 'd" where
  "enable_bus_master P dev d =
     (case read_config P (pci_bus dev) (pci_device dev) (pci_function dev) 4 d of (command, d1) \<Rightarrow>
        write_config P (pci_bus dev) (pci_device dev) (pci_function dev) 4 (command OR push_bit 2 1) d1)"

section \<open>The scan finds the first match\<close>

text \<open>\<open>conf\<close> is the configuration space, by the address written to the address port; reads do not change it.\<close>

definition pci_wired :: "'d ports \<Rightarrow> ('d \<Rightarrow> u32 \<Rightarrow> u32) \<Rightarrow> bool" where
  "pci_wired P conf \<longleftrightarrow>
     (\<forall>d a. let (v, d1) = in32b P CONFIG_DATA_PORT (out32b P CONFIG_ADDRESS_PORT a d) in v = conf d a \<and> conf d1 = conf d)"

lemma read_config_wired:
  assumes "pci_wired P conf"
  shows "fst (read_config P b dv f off d) = conf d (make_pci_address b dv f off)" "conf (snd (read_config P b dv f off d)) = conf d"
  using assms unfolding pci_wired_def read_config_def by (simp_all add: Let_def case_prod_beta)

lemma read_bars_wired:
  assumes w: "pci_wired P conf"
  shows "fst (read_bars P b dv f is d) = map (\<lambda>i. decode_bar (conf d (make_pci_address b dv f (0x10 + of_nat i * 4)))) is"
proof (induction "is" arbitrary: d)
  case (Cons i "is")
  obtain v d1 where r: "read_config P b dv f (0x10 + of_nat i * 4) d = (v, d1)" by (cases "read_config P b dv f (0x10 + of_nat i * 4) d")
  then have "v = conf d (make_pci_address b dv f (0x10 + of_nat i * 4))" "conf d1 = conf d"
    using read_config_wired [OF w, of b dv f "0x10 + of_nat i * 4" d] by simp_all
  then show ?case using Cons.IH [of d1] r by (auto split: prod.splits)
qed simp

definition matches :: "(u32 \<Rightarrow> u32) \<Rightarrow> u16 \<Rightarrow> u16 \<Rightarrow> u8 \<times> u8 \<times> u8 \<Rightarrow> bool" where
  "matches cf vid did x = (case x of (b, dv, f) \<Rightarrow>
     ucast (cf (make_pci_address b dv f 0) AND 0xFFFF) = vid \<and> ucast (drop_bit 16 (cf (make_pci_address b dv f 0)) AND 0xFFFF) = did)"

lemma scan_functions_wired:
  assumes w: "pci_wired P conf"
  shows "fst (scan_functions P vid did fs d) = (case find (matches (conf d) vid did) fs of
      None \<Rightarrow> None
    | Some (b, dv, f) \<Rightarrow> Some \<lparr>pci_bus = b, pci_device = dv AND 0x1F, pci_function = f, pci_vendor_id = vid, pci_device_id = did,
        pci_bars = map (\<lambda>i. decode_bar (conf d (make_pci_address b (dv AND 0x1F) f (0x10 + of_nat i * 4)))) [0..<6]\<rparr>)"
proof (induction fs arbitrary: d)
  case (Cons x fs)
  obtain b dv f where x: "x = (b, dv, f)" by (cases x)
  obtain v d1 where r: "read_config P b dv f 0 d = (v, d1)" by (cases "read_config P b dv f 0 d")
  have v: "v = conf d (make_pci_address b dv f 0)" "conf d1 = conf d" using read_config_wired [OF w, of b dv f 0 d] r by simp_all
  show ?case
  proof (cases "matches (conf d) vid did x")
    case True
    then have m: "ucast (v AND 0xFFFF) = vid" "ucast (drop_bit 16 v AND 0xFFFF) = did" by (simp_all add: matches_def x v)
    obtain bars d2 where bs: "read_bars P b (dv AND 0x1F) f [0..<6] d1 = (bars, d2)" by (cases "read_bars P b (dv AND 0x1F) f [0..<6] d1")
    have "bars = map (\<lambda>i. decode_bar (conf d (make_pci_address b (dv AND 0x1F) f (0x10 + of_nat i * 4)))) [0..<6]"
      using read_bars_wired [OF w, of b "dv AND 0x1F" f "[0..<6]" d1] bs v(2) by simp
    moreover have "find (matches (conf d) vid did) (x # fs) = Some (b, dv, f)" using True x by simp
    moreover have "fst (scan_functions P vid did (x # fs) d) = Some \<lparr>pci_bus = b, pci_device = dv AND 0x1F, pci_function = f, pci_vendor_id = vid, pci_device_id = did, pci_bars = bars\<rparr>"
      unfolding x scan_functions.simps r prod.case Let_def bs m by simp
    ultimately show ?thesis by (simp only: option.case prod.case)
  next
    case False
    then have no: "\<not> (ucast (v AND 0xFFFF) = vid \<and> ucast (drop_bit 16 v AND 0xFFFF) = did)" by (simp add: matches_def x v)
    have "scan_functions P vid did (x # fs) d = scan_functions P vid did fs d1"
      unfolding x scan_functions.simps r prod.case Let_def if_not_P [OF no] ..
    moreover have "find (matches (conf d) vid did) (x # fs) = find (matches (conf d) vid did) fs" using False by simp
    ultimately show ?thesis using Cons.IH [of d1] unfolding v(2) by (simp only:)
  qed
qed simp

end
