(* ===== verification/Virtio_Block.thy ===== *)
theory Virtio_Block
  imports Buffer_Cache Pci_Bus Phys_Memory
begin

text \<open>
  The legacy virtio block driver of \<open>include/virtioblock.cpp\<close>: initialisation, the request chain, the
  polling loop, and sector reads and writes. The driver and the device share memory, so the state
  behind the port operations is a record of both: the registers and whatever else the device has,
  and the DMA memory, by its fields. That the driver on a conforming device is a block device in the sense of the
  buffer cache is proved at the end.
\<close>

section \<open>State\<close>

record VRingDescriptor =
  vd_addr :: u64
  vd_len :: u32
  vd_flags :: u16
  vd_next :: u16

definition DESC_F_NEXT :: u16 where "DESC_F_NEXT = 1"
definition DESC_F_WRITE :: u16 where "DESC_F_WRITE = 2"

text \<open>The descriptor table, the available ring and the used ring in \<open>virtqueue_memory\<close>.\<close>

record VRing =
  vr_num :: u16
  vr_desc :: "VRingDescriptor list"
  vr_avail_idx :: u16
  vr_avail_ring :: "u16 list"
  vr_used_idx :: u16

datatype VirtIOBlockRequestType = BLK_T_IN | BLK_T_OUT

record VirtIOBlockRequestHeader =
  rq_type :: VirtIOBlockRequestType
  rq_reserved :: u32
  rq_sector :: u64

definition STATUS_OK :: u8 where "STATUS_OK = 0"
definition STATUS_PENDING :: u8 where "STATUS_PENDING = 0xFF"

text \<open>The variables the resolver is asked about; \<open>QueueMemory off\<close> is \<open>virtqueue_memory + off\<close>.\<close>

datatype dma_object = RequestHeader | DataBuffer | StatusByte | QueueMemory u64

type_synonym resolver = "dma_object \<Rightarrow> PhysicalAddress"

text \<open>
  The memory shared with the device. \<open>dm_addr\<close> is where the variables are in physical memory, which the
  resolver is to find out, and \<open>vw_base\<close> below is where the ports of the device are; neither ever changes.
\<close>

record dma =
  dm_queue :: VRing
  dm_header :: VirtIOBlockRequestHeader
  dm_data :: bytes
  dm_status :: u8
  dm_addr :: resolver

record 'd vworld =
  vw_base :: u16
  vw_device_status :: u8
  vw_queue_pfn :: u32
  vw_inner :: 'd
  vw_mem :: dma

record driver =
  vb_io_base :: u16
  vb_ready :: bool
  vb_header_phys :: PhysicalAddress
  vb_data_phys :: PhysicalAddress
  vb_status_phys :: PhysicalAddress
  vb_last_used_index :: u16

definition SECTOR_SIZE :: u16 where "SECTOR_SIZE = 512"
definition VIRTIO_PAGE_SIZE :: u64 where "VIRTIO_PAGE_SIZE = 4096"
definition VIRTQUEUE_BYTES :: u64 where "VIRTQUEUE_BYTES = 16384"

datatype VirtIORegister = DEVICE_FEATURES | DRIVER_FEATURES | QUEUE_ADDRESS | QUEUE_SIZE | QUEUE_SELECT | QUEUE_NOTIFY | DEVICE_STATUS
  | CONFIG_CAPACITY_LOW | CONFIG_CAPACITY_HIGH

definition register_offset :: "VirtIORegister \<Rightarrow> u16" where
  "register_offset r = (case r of DEVICE_FEATURES \<Rightarrow> 0 | DRIVER_FEATURES \<Rightarrow> 4 | QUEUE_ADDRESS \<Rightarrow> 8 | QUEUE_SIZE \<Rightarrow> 0xC | QUEUE_SELECT \<Rightarrow> 0xE
     | QUEUE_NOTIFY \<Rightarrow> 0x10 | DEVICE_STATUS \<Rightarrow> 0x12 | CONFIG_CAPACITY_LOW \<Rightarrow> 0x14 | CONFIG_CAPACITY_HIGH \<Rightarrow> 0x18)"

definition port :: "driver \<Rightarrow> VirtIORegister \<Rightarrow> u16" where
  "port v reg = vb_io_base v + register_offset reg"

definition set_mem :: "(dma \<Rightarrow> dma) \<Rightarrow> 'd vworld \<Rightarrow> 'd vworld" where
  "set_mem f w = w\<lparr>vw_mem := f (vw_mem w)\<rparr>"

section \<open>Initialisation\<close>

definition add_device_status :: "'d vworld ports \<Rightarrow> driver \<Rightarrow> u8 \<Rightarrow> 'd vworld \<Rightarrow> 'd vworld" where
  "add_device_status P v bits w =
     (case inb P (port v DEVICE_STATUS) w of (s, w1) \<Rightarrow> outb P (port v DEVICE_STATUS) (s OR bits) w1)"

definition find_device :: "'d vworld ports \<Rightarrow> driver \<Rightarrow> 'd vworld \<Rightarrow> bool \<times> driver \<times> 'd vworld" where
  "find_device P v w =
     (case pci_device_exists P 0x1AF4 0x1001 w of
        (None, w1) \<Rightarrow> (False, v, w1)
      | (Some dev, w1) \<Rightarrow>
          if \<not> bar_is_io_space (pci_bars dev ! 0) then (False, v, w1)
          else let v1 = v\<lparr>vb_io_base := ucast (bar_base_address (pci_bars dev ! 0) AND 0xFFFC)\<rparr> in
            if vb_io_base v1 = 0 then (False, v1, w1) else (True, v1, enable_bus_master P dev w1))"

definition resolve_dma_buffers :: "resolver \<Rightarrow> driver \<Rightarrow> bool \<times> driver" where
  "resolve_dma_buffers resolve v =
     (if resolve RequestHeader = None \<or> resolve DataBuffer = None \<or> resolve StatusByte = None then (False, v)
      else (True, v\<lparr>vb_header_phys := resolve RequestHeader, vb_data_phys := resolve DataBuffer, vb_status_phys := resolve StatusByte\<rparr>))"

text \<open>The layout in bytes: 16 a descriptor, 2 an available entry, 8 a used element.\<close>

definition vring_avail_offset :: "u16 \<Rightarrow> u64" where "vring_avail_offset n = 16 * ucast n"

definition vring_used_offset :: "u16 \<Rightarrow> u64 \<Rightarrow> u64" where
  "vring_used_offset n align = (vring_avail_offset n + 4 + 2 * ucast n + align - 1) AND NOT (align - 1)"

definition vring_size :: "u16 \<Rightarrow> u64 \<Rightarrow> u64" where
  "vring_size n align = ((16 * ucast n + 2 * (2 + ucast n) + align - 1) AND NOT (align - 1)) + 2 * 3 + 8 * ucast n"

definition vring_init :: "u16 \<Rightarrow> VRing" where
  "vring_init n = \<lparr>vr_num = n, vr_desc = replicate (unat n) \<lparr>vd_addr = 0, vd_len = 0, vd_flags = 0, vd_next = 0\<rparr>, vr_avail_idx = 0,
     vr_avail_ring = replicate (unat n) 0, vr_used_idx = 0\<rparr>"

definition contiguous :: "resolver \<Rightarrow> u64 \<Rightarrow> bool" where
  "contiguous resolve q \<longleftrightarrow>
     (\<forall>k \<in> set [1, 2, 3 :: u64]. resolve (QueueMemory (k * VIRTIO_PAGE_SIZE)) = Some (q + k * VIRTIO_PAGE_SIZE))"

definition virtq_init :: "'d vworld ports \<Rightarrow> resolver \<Rightarrow> driver \<Rightarrow> 'd vworld \<Rightarrow> bool \<times> driver \<times> 'd vworld" where
  "virtq_init P resolve v w =
     (case in16b P (port v QUEUE_SIZE) (out16b P (port v QUEUE_SELECT) 0 w) of (queue_size, w1) \<Rightarrow>
      if queue_size = 0 then (False, v, w1)
      else if queue_size AND (queue_size - 1) \<noteq> 0 then (False, v, w1)
      else if vring_size queue_size VIRTIO_PAGE_SIZE > VIRTQUEUE_BYTES then (False, v, w1)
      else
        let w2 = set_mem (\<lambda>m. m\<lparr>dm_queue := vring_init queue_size\<rparr>) w1; v2 = v\<lparr>vb_last_used_index := 0\<rparr> in
        (case resolve (QueueMemory 0) of
           None \<Rightarrow> (False, v2, w2)
         | Some q \<Rightarrow>
             if \<not> contiguous resolve q then (False, v2, w2)
             else (True, v2, out32b P (port v2 QUEUE_ADDRESS) (ucast (drop_bit 12 q)) w2)))"

definition initialize :: "'d vworld ports \<Rightarrow> resolver option \<Rightarrow> driver \<Rightarrow> 'd vworld \<Rightarrow> bool \<times> driver \<times> 'd vworld" where
  "initialize P resolve_physical v w =
     (case resolve_physical of
        None \<Rightarrow> (False, v, w)
      | Some resolve \<Rightarrow>
          (case find_device P v w of
             (False, v1, w1) \<Rightarrow> (False, v1, w1)
           | (True, v1, w1) \<Rightarrow>
               let w2 = outb P (port v1 DEVICE_STATUS) 0 w1;
                   w3 = add_device_status P v1 1 w2;
                   w4 = add_device_status P v1 2 w3;
                   w5 = out32b P (port v1 DRIVER_FEATURES) 0 (snd (in32b P (port v1 DEVICE_FEATURES) w4))
               in (case resolve_dma_buffers resolve v1 of
                     (False, v2) \<Rightarrow> (False, v2, w5)
                   | (True, v2) \<Rightarrow>
                       (case virtq_init P resolve v2 w5 of
                          (False, v3, w6) \<Rightarrow> (False, v3, w6)
                        | (True, v3, w6) \<Rightarrow> (True, v3\<lparr>vb_ready := True\<rparr>, add_device_status P v3 4 w6)))))"

section \<open>Requests\<close>

text \<open>
  The addresses are dereferenced (\<open>*phys.address\<close>), and the three descriptors are written without a look at
  the size of the table: a table of fewer than three, or an address that is not there, is undefined
  behaviour, \<open>None\<close>.
\<close>

definition setup_request :: "driver \<Rightarrow> VirtIOBlockRequestType \<Rightarrow> u64 \<Rightarrow> dma \<Rightarrow> dma option" where
  "setup_request v type sector m =
     (case (vb_header_phys v, vb_data_phys v, vb_status_phys v) of
        (Some h, Some b, Some s) \<Rightarrow>
          if length (vr_desc (dm_queue m)) < 3 then None
          else Some (m\<lparr>dm_header := \<lparr>rq_type = type, rq_reserved = 0, rq_sector = sector\<rparr>, dm_status := STATUS_PENDING,
            dm_queue := (dm_queue m)\<lparr>vr_desc := (vr_desc (dm_queue m))
              [0 := \<lparr>vd_addr = h, vd_len = 16, vd_flags = DESC_F_NEXT, vd_next = 1\<rparr>,
               1 := \<lparr>vd_addr = b, vd_len = ucast SECTOR_SIZE, vd_flags = DESC_F_NEXT OR (if type = BLK_T_IN then DESC_F_WRITE else 0), vd_next = 2\<rparr>,
               2 := \<lparr>vd_addr = s, vd_len = 1, vd_flags = DESC_F_WRITE, vd_next = 0\<rparr>]\<rparr>\<rparr>)
      | _ \<Rightarrow> None)"

definition virtq_kick :: "'d vworld ports \<Rightarrow> u16 \<Rightarrow> driver \<Rightarrow> 'd vworld \<Rightarrow> driver \<times> 'd vworld" where
  "virtq_kick P desc_index v w =
     (let w1 = set_mem (\<lambda>m. m\<lparr>dm_queue := (dm_queue m)\<lparr>vr_avail_ring :=
                 (vr_avail_ring (dm_queue m))[unat (vr_avail_idx (dm_queue m) mod vr_num (dm_queue m)) := desc_index],
                 vr_avail_idx := vr_avail_idx (dm_queue m) + 1\<rparr>\<rparr>) w
      in (v\<lparr>vb_last_used_index := vb_last_used_index v + 1\<rparr>, out16b P (port v QUEUE_NOTIFY) 0 w1))"

text \<open>
  The device works on its own while the processor polls: \<open>run\<close> is what it does during one \<open>pause\<close>. A device that
  never finishes keeps the loop going, which is \<open>None\<close>.
\<close>

definition virtq_is_busy :: "driver \<Rightarrow> 'd vworld \<Rightarrow> bool" where
  "virtq_is_busy v w \<longleftrightarrow> vr_used_idx (dm_queue (vw_mem w)) \<noteq> vb_last_used_index v"

partial_function (option) wait_done :: "('d vworld \<Rightarrow> 'd vworld) \<Rightarrow> driver \<Rightarrow> 'd vworld \<Rightarrow> 'd vworld option" where
  "wait_done run v w = (let w1 = run w in if virtq_is_busy v w1 then wait_done run v w1 else Some w1)"

definition do_request :: "'d vworld ports \<Rightarrow> ('d vworld \<Rightarrow> 'd vworld) \<Rightarrow> VirtIOBlockRequestType \<Rightarrow> u64 \<Rightarrow> driver \<Rightarrow> 'd vworld \<Rightarrow>
    (bool \<times> driver \<times> 'd vworld) option" where
  "do_request P run type sector v w =
     (if \<not> vb_ready v then Some (False, v, w)
      else (case setup_request v type sector (vw_mem w) of
          None \<Rightarrow> None
        | Some m \<Rightarrow>
            (case virtq_kick P 0 v (w\<lparr>vw_mem := m\<rparr>) of (v1, w1) \<Rightarrow>
             case wait_done run v1 w1 of
               None \<Rightarrow> None
             | Some w2 \<Rightarrow> Some (dm_status (vw_mem w2) = STATUS_OK, v1, w2))))"

definition capacity :: "'d vworld ports \<Rightarrow> driver \<Rightarrow> 'd vworld \<Rightarrow> u64 \<times> 'd vworld" where
  "capacity P v w =
     (if \<not> vb_ready v then (0, w)
      else (case in32b P (port v CONFIG_CAPACITY_LOW) w of (low, w1) \<Rightarrow>
            case in32b P (port v CONFIG_CAPACITY_HIGH) w1 of (high, w2) \<Rightarrow> (push_bit 32 (ucast high) OR ucast low, w2)))"

definition read_block :: "'d vworld ports \<Rightarrow> ('d vworld \<Rightarrow> 'd vworld) \<Rightarrow> u64 \<Rightarrow> bytes \<Rightarrow> driver \<Rightarrow> 'd vworld \<Rightarrow>
    (bool \<times> bytes \<times> driver \<times> 'd vworld) option" where
  "read_block P run sector buffer v w =
     (case do_request P run BLK_T_IN sector v w of
        None \<Rightarrow> None
      | Some (False, v1, w1) \<Rightarrow> Some (False, buffer, v1, w1)
      | Some (True, v1, w1) \<Rightarrow> Some (True, dm_data (vw_mem w1), v1, w1))"

definition write_block :: "'d vworld ports \<Rightarrow> ('d vworld \<Rightarrow> 'd vworld) \<Rightarrow> u64 \<Rightarrow> bytes \<Rightarrow> driver \<Rightarrow> 'd vworld \<Rightarrow>
    (bool \<times> driver \<times> 'd vworld) option" where
  "write_block P run sector buffer v w =
     do_request P run BLK_T_OUT sector v (set_mem (\<lambda>m. m\<lparr>dm_data := take (unat SECTOR_SIZE) buffer\<rparr>) w)"

section \<open>A conforming device\<close>

text \<open>
  What the device is offered: one new entry in the available ring, for a chain of three descriptors at
  the header, the data buffer, writable exactly for reads, and the status byte.
\<close>

definition offered :: "dma \<Rightarrow> bool" where
  "offered m \<longleftrightarrow> (let q = dm_queue m in
     vr_avail_idx q = vr_used_idx q + 1 \<and> vr_avail_ring q ! unat (vr_used_idx q mod vr_num q) = 0 \<and> 3 \<le> length (vr_desc q) \<and>
     dm_addr m RequestHeader = Some (vd_addr (vr_desc q ! 0)) \<and> vd_len (vr_desc q ! 0) = 16 \<and> vd_flags (vr_desc q ! 0) = 1 \<and> vd_next (vr_desc q ! 0) = 1 \<and>
     dm_addr m DataBuffer = Some (vd_addr (vr_desc q ! 1)) \<and> vd_len (vr_desc q ! 1) = 512 \<and>
     vd_flags (vr_desc q ! 1) = (if rq_type (dm_header m) = BLK_T_IN then 3 else 1) \<and> vd_next (vr_desc q ! 1) = 2 \<and>
     dm_addr m StatusByte = Some (vd_addr (vr_desc q ! 2)) \<and> vd_len (vr_desc q ! 2) = 1 \<and> vd_flags (vr_desc q ! 2) = 2)"

text \<open>
  What it does with the request: on the sectors \<open>good\<close> it succeeds, on the others it reports an error and leaves
  the medium alone. Only the data buffer of a read, the status byte and the used index change.
\<close>

definition served :: "('d \<Rightarrow> u64 \<Rightarrow> bytes) \<Rightarrow> (u64 \<Rightarrow> bool) \<Rightarrow> 'd vworld \<Rightarrow> 'd vworld \<Rightarrow> bool" where
  "served disk good w w' \<longleftrightarrow> (let m = vw_mem w; m' = vw_mem w'; n = rq_sector (dm_header m) in
     vw_base w' = vw_base w \<and> vw_device_status w' = vw_device_status w \<and> dm_addr m' = dm_addr m \<and> dm_header m' = dm_header m \<and>
     dm_queue m' = (dm_queue m)\<lparr>vr_used_idx := vr_used_idx (dm_queue m) + 1\<rparr> \<and> length (dm_data m') = 512 \<and> (dm_status m' = STATUS_OK \<longleftrightarrow> good n) \<and>
     (case rq_type (dm_header m) of
        BLK_T_IN \<Rightarrow> disk (vw_inner w') = disk (vw_inner w) \<and> (good n \<longrightarrow> dm_data m' = disk (vw_inner w) n)
      | BLK_T_OUT \<Rightarrow> disk (vw_inner w') = (if good n then (disk (vw_inner w))(n := dm_data m) else disk (vw_inner w))))"

text \<open>
  A device conforms when a notification does not change the memory, and every offered request is served
  after some time, before which the used index does not move.
\<close>

definition conforming :: "'d vworld ports \<Rightarrow> ('d vworld \<Rightarrow> 'd vworld) \<Rightarrow> ('d \<Rightarrow> u64 \<Rightarrow> bytes) \<Rightarrow> (u64 \<Rightarrow> bool) \<Rightarrow> bool" where
  "conforming P run disk good \<longleftrightarrow> (\<forall>d n. length (disk d n) = 512) \<and>
     (\<forall>w. let w1 = out16b P (vw_base w + 0x10) 0 w in
        vw_mem w1 = vw_mem w \<and> vw_base w1 = vw_base w \<and> vw_device_status w1 = vw_device_status w \<and> disk (vw_inner w1) = disk (vw_inner w)) \<and>
     (\<forall>w. vw_device_status w = 7 \<longrightarrow> offered (vw_mem w) \<longrightarrow> length (dm_data (vw_mem w)) = 512 \<longrightarrow>
        (\<exists>n > 0. (\<forall>k < n. vr_used_idx (dm_queue (vw_mem ((run ^^ k) w))) = vr_used_idx (dm_queue (vw_mem w))) \<and> served disk good w ((run ^^ n) w)))"

section \<open>Sector reads and writes\<close>

text \<open>The driver between requests.\<close>

definition idle :: "driver \<Rightarrow> 'd vworld \<Rightarrow> bool" where
  "idle v w \<longleftrightarrow> (let m = vw_mem w; q = dm_queue m in
     vb_ready v \<and> vb_io_base v = vw_base w \<and> vw_device_status w = 7 \<and>
     vb_header_phys v = dm_addr m RequestHeader \<and> vb_data_phys v = dm_addr m DataBuffer \<and> vb_status_phys v = dm_addr m StatusByte \<and>
     dm_addr m RequestHeader \<noteq> None \<and> dm_addr m DataBuffer \<noteq> None \<and> dm_addr m StatusByte \<noteq> None \<and>
     length (vr_desc q) = unat (vr_num q) \<and> length (vr_avail_ring q) = unat (vr_num q) \<and> 3 \<le> unat (vr_num q) \<and>
     vr_avail_idx q = vb_last_used_index v \<and> vr_used_idx q = vb_last_used_index v \<and> length (dm_data m) = 512)"

lemma wait_done_returns:
  assumes "0 < n" "\<forall>k < n. 0 < k \<longrightarrow> virtq_is_busy v ((run ^^ k) w)" "\<not> virtq_is_busy v ((run ^^ n) w)"
  shows "wait_done run v w = Some ((run ^^ n) w)"
  using assms
proof (induction n arbitrary: w)
  case (Suc n)
  show ?case
  proof (cases n)
    case 0
    then show ?thesis using Suc.prems by (subst wait_done.simps) (simp add: Let_def)
  next
    case (Suc m)
    have b: "virtq_is_busy v (run w)" using Suc.prems(2) Suc by (auto dest: spec [of _ 1])
    have "wait_done run v (run w) = Some ((run ^^ n) (run w))"
    proof (rule Suc.IH)
      show "\<forall>k < n. 0 < k \<longrightarrow> virtq_is_busy v ((run ^^ k) (run w))"
      proof (intro allI impI)
        fix k assume "k < n" "0 < k"
        then have "virtq_is_busy v ((run ^^ Suc k) w)" using Suc.prems(2) by blast
        then show "virtq_is_busy v ((run ^^ k) (run w))" by (simp add: funpow_swap1)
      qed
      show "\<not> virtq_is_busy v ((run ^^ n) (run w))" using Suc.prems(3) by (simp add: funpow_swap1)
    qed (use Suc in simp)
    then show ?thesis using b by (subst wait_done.simps) (simp add: Let_def funpow_swap1)
  qed
qed simp

lemma do_request_effect:
  assumes c: "conforming P run disk good" and i: "idle v w"
  shows "\<exists>v' w'. do_request P run type n v w = Some (good n, v', w') \<and> idle v' w' \<and>
    (case type of
       BLK_T_IN \<Rightarrow> disk (vw_inner w') = disk (vw_inner w) \<and> (good n \<longrightarrow> dm_data (vw_mem w') = disk (vw_inner w) n)
     | BLK_T_OUT \<Rightarrow> disk (vw_inner w') = (if good n then (disk (vw_inner w))(n := dm_data (vw_mem w)) else disk (vw_inner w)))"
proof -
  define m where "m = vw_mem w"
  define q where "q = dm_queue m"
  have I: "vb_ready v" "vb_io_base v = vw_base w" "vw_device_status w = 7" "vb_header_phys v = dm_addr m RequestHeader" "vb_data_phys v = dm_addr m DataBuffer"
    "vb_status_phys v = dm_addr m StatusByte" "length (vr_desc q) = unat (vr_num q)" "length (vr_avail_ring q) = unat (vr_num q)" "3 \<le> unat (vr_num q)"
    "vr_avail_idx q = vb_last_used_index v" "vr_used_idx q = vb_last_used_index v" "length (dm_data m) = 512"
    using i by (simp_all add: idle_def Let_def m_def q_def)
  obtain h b s where a: "dm_addr m RequestHeader = Some h" "dm_addr m DataBuffer = Some b" "dm_addr m StatusByte = Some s"
    using i by (auto simp: idle_def Let_def m_def)
  define ds where "ds = (vr_desc q)[0 := \<lparr>vd_addr = h, vd_len = 16, vd_flags = DESC_F_NEXT, vd_next = 1\<rparr>,
    1 := \<lparr>vd_addr = b, vd_len = ucast SECTOR_SIZE, vd_flags = DESC_F_NEXT OR (if type = BLK_T_IN then DESC_F_WRITE else 0), vd_next = 2\<rparr>,
    2 := \<lparr>vd_addr = s, vd_len = 1, vd_flags = DESC_F_WRITE, vd_next = 0\<rparr>]"
  define hd where "hd = \<lparr>rq_type = type, rq_reserved = 0, rq_sector = n\<rparr>"
  define m1 where "m1 = m\<lparr>dm_header := hd, dm_status := STATUS_PENDING, dm_queue := q\<lparr>vr_desc := ds\<rparr>\<rparr>"
  have su: "setup_request v type n m = Some m1" using I a by (simp add: setup_request_def m1_def ds_def hd_def q_def)
  define q2 where "q2 = q\<lparr>vr_desc := ds, vr_avail_ring := (vr_avail_ring q)[unat (vr_avail_idx q mod vr_num q) := 0], vr_avail_idx := vr_avail_idx q + 1\<rparr>"
  define m2 where "m2 = m1\<lparr>dm_queue := q2\<rparr>"
  define w2 where "w2 = out16b P (vw_base (w\<lparr>vw_mem := m2\<rparr>) + 0x10) 0 (w\<lparr>vw_mem := m2\<rparr>)"
  define v2 where "v2 = v\<lparr>vb_last_used_index := vb_last_used_index v + 1\<rparr>"
  have k: "virtq_kick P 0 v (w\<lparr>vw_mem := m1\<rparr>) = (v2, w2)"
    by (simp add: virtq_kick_def Let_def set_mem_def v2_def w2_def m2_def m1_def q2_def port_def register_offset_def I(2))
  have W: "vw_mem w2 = m2" "vw_base w2 = vw_base w" "vw_device_status w2 = 7" "disk (vw_inner w2) = disk (vw_inner w)"
  proof -
    have "let w1 = out16b P (vw_base (w\<lparr>vw_mem := m2\<rparr>) + 0x10) 0 (w\<lparr>vw_mem := m2\<rparr>) in vw_mem w1 = vw_mem (w\<lparr>vw_mem := m2\<rparr>) \<and>
      vw_base w1 = vw_base (w\<lparr>vw_mem := m2\<rparr>) \<and> vw_device_status w1 = vw_device_status (w\<lparr>vw_mem := m2\<rparr>) \<and> disk (vw_inner w1) = disk (vw_inner (w\<lparr>vw_mem := m2\<rparr>))"
      using c unfolding conforming_def by blast
    then show "vw_mem w2 = m2" "vw_base w2 = vw_base w" "vw_device_status w2 = 7" "disk (vw_inner w2) = disk (vw_inner w)"
      unfolding w2_def using I(3) by (simp_all add: Let_def)
  qed
  have ds: "ds ! 0 = \<lparr>vd_addr = h, vd_len = 16, vd_flags = DESC_F_NEXT, vd_next = 1\<rparr>"
    "ds ! 1 = \<lparr>vd_addr = b, vd_len = ucast SECTOR_SIZE, vd_flags = DESC_F_NEXT OR (if type = BLK_T_IN then DESC_F_WRITE else 0), vd_next = 2\<rparr>"
    "ds ! 2 = \<lparr>vd_addr = s, vd_len = 1, vd_flags = DESC_F_WRITE, vd_next = 0\<rparr>" "length ds = unat (vr_num q)"
    using I(7,9) by (simp_all add: ds_def nth_list_update)
  have ri: "unat (vr_avail_idx q mod vr_num q) < unat (vr_num q)" using I(9) by (simp add: unat_mod)
  have mm: "dm_addr m2 = dm_addr m" "dm_header m2 = hd" "dm_queue m2 = q2" "dm_data m2 = dm_data m" by (simp_all add: m2_def m1_def)
  have off: "offered m2"
    unfolding offered_def Let_def mm using ds I(8-11) a ri
    by (simp add: q2_def hd_def DESC_F_NEXT_def DESC_F_WRITE_def SECTOR_SIZE_def)
  obtain t where t: "t > 0" "\<And>k. k < t \<Longrightarrow> vr_used_idx (dm_queue (vw_mem ((run ^^ k) w2))) = vr_used_idx q" and sv: "served disk good w2 ((run ^^ t) w2)"
  proof -
    have "\<exists>n > 0. (\<forall>k < n. vr_used_idx (dm_queue (vw_mem ((run ^^ k) w2))) = vr_used_idx (dm_queue (vw_mem w2))) \<and> served disk good w2 ((run ^^ n) w2)"
      using c W off mm(4) I(12) unfolding conforming_def by metis
    then show thesis using that W(1) mm(3) by (auto simp: q2_def)
  qed
  let ?w' = "(run ^^ t) w2"
  have S: "vw_base ?w' = vw_base w" "vw_device_status ?w' = 7" "dm_addr (vw_mem ?w') = dm_addr m" "dm_queue (vw_mem ?w') = q2\<lparr>vr_used_idx := vr_used_idx q + 1\<rparr>"
    "length (dm_data (vw_mem ?w')) = 512" "dm_status (vw_mem ?w') = STATUS_OK \<longleftrightarrow> good n"
    using sv W mm unfolding served_def Let_def by (simp_all add: hd_def q2_def)
  have E: "case type of BLK_T_IN \<Rightarrow> disk (vw_inner ?w') = disk (vw_inner w) \<and> (good n \<longrightarrow> dm_data (vw_mem ?w') = disk (vw_inner w) n)
      | BLK_T_OUT \<Rightarrow> disk (vw_inner ?w') = (if good n then (disk (vw_inner w))(n := dm_data (vw_mem w)) else disk (vw_inner w))"
    using sv W mm unfolding served_def Let_def by (cases type) (simp_all add: hd_def m_def split: if_splits)
  have busy: "\<forall>k < t. 0 < k \<longrightarrow> virtq_is_busy v2 ((run ^^ k) w2)" using t(2) I(11) by (simp add: virtq_is_busy_def v2_def)
  have "\<not> virtq_is_busy v2 ?w'" using S(4) I(11) by (simp add: virtq_is_busy_def v2_def)
  then have wd: "wait_done run v2 w2 = Some ?w'" using wait_done_returns [OF t(1) busy] by blast
  have "do_request P run type n v w = Some (good n, v2, ?w')"
    using I(1) su k wd S(6) by (simp add: do_request_def m_def)
  moreover have "idle v2 ?w'" unfolding idle_def Let_def using S(1-5) I a ds(4) by (simp add: v2_def q2_def)
  ultimately show ?thesis using E by blast
qed

lemma read_block_effect:
  assumes c: "conforming P run disk good" and i: "idle v w"
  shows "\<exists>b' v' w'. read_block P run n b v w = Some (good n, b', v', w') \<and> idle v' w' \<and> disk (vw_inner w') = disk (vw_inner w) \<and>
    b' = (if good n then disk (vw_inner w) n else b)"
proof -
  obtain v' w' where d: "do_request P run BLK_T_IN n v w = Some (good n, v', w')" "idle v' w'" "disk (vw_inner w') = disk (vw_inner w)"
    "good n \<longrightarrow> dm_data (vw_mem w') = disk (vw_inner w) n"
    using do_request_effect [OF c i, of BLK_T_IN n] by auto
  then show ?thesis by (cases "good n") (auto simp: read_block_def)
qed

lemma write_block_effect:
  assumes c: "conforming P run disk good" and i: "idle v w" and b: "length b = 512"
  shows "\<exists>v' w'. write_block P run n b v w = Some (good n, v', w') \<and> idle v' w' \<and>
    disk (vw_inner w') = (if good n then (disk (vw_inner w))(n := b) else disk (vw_inner w))"
proof -
  let ?w = "set_mem (\<lambda>m. m\<lparr>dm_data := take (unat SECTOR_SIZE) b\<rparr>) w"
  have t: "take (unat SECTOR_SIZE) b = b" using b by (simp add: SECTOR_SIZE_def)
  have "idle v ?w" using i b t by (simp add: idle_def set_mem_def Let_def)
  note d = do_request_effect [OF c this, of BLK_T_OUT n]
  have e: "dm_data (vw_mem ?w) = b" "vw_inner ?w = vw_inner w" by (simp_all add: set_mem_def t)
  show ?thesis using d unfolding write_block_def VirtIOBlockRequestType.case e .
qed

section \<open>The driver as the device of the buffer cache\<close>

text \<open>The states between requests, as a type; the device of the cache lives on it.\<close>

definition first_idle :: "driver \<times> 'd vworld" where
  "first_idle = (\<lparr>vb_io_base = 0xC000, vb_ready = True, vb_header_phys = Some 0x1000, vb_data_phys = Some 0x2000, vb_status_phys = Some 0x3000, vb_last_used_index = 0\<rparr>,
     \<lparr>vw_base = 0xC000, vw_device_status = 7, vw_queue_pfn = 4, vw_inner = undefined,
      vw_mem = \<lparr>dm_queue = vring_init 4, dm_header = \<lparr>rq_type = BLK_T_IN, rq_reserved = 0, rq_sector = 0\<rparr>, dm_data = replicate 512 0, dm_status = 0,
        dm_addr = (\<lambda>x. case x of RequestHeader \<Rightarrow> Some 0x1000 | DataBuffer \<Rightarrow> Some 0x2000 | StatusByte \<Rightarrow> Some 0x3000 | QueueMemory off \<Rightarrow> Some (0x4000 + off))\<rparr>\<rparr>)"

lemma first_idle_ok: "idle (fst first_idle) (snd first_idle\<lparr>vw_inner := d\<rparr>)" "idle (fst first_idle) (snd first_idle)"
  by (simp_all add: first_idle_def idle_def vring_init_def Let_def)

typedef 'd vsystem = "{x :: driver \<times> 'd vworld. idle (fst x) (snd x)}"
  using first_idle_ok(2) by blast

definition virtio_device :: "'d vworld ports \<Rightarrow> ('d vworld \<Rightarrow> 'd vworld) \<Rightarrow> 'd vsystem BlockDevice" where
  "virtio_device P run =
     \<lparr>dv_read_block = Some (\<lambda>n b x. case Rep_vsystem x of (v, w) \<Rightarrow>
        (case read_block P run n b v w of None \<Rightarrow> (False, b, x) | Some (ok, b', v', w') \<Rightarrow> (ok, b', Abs_vsystem (v', w')))),
      dv_write_block = Some (\<lambda>n b x. case Rep_vsystem x of (v, w) \<Rightarrow>
        (case write_block P run n b v w of None \<Rightarrow> (False, x) | Some (ok, v', w') \<Rightarrow> (ok, Abs_vsystem (v', w'))))\<rparr>"

definition virtio_contents :: "('d \<Rightarrow> u64 \<Rightarrow> bytes) \<Rightarrow> 'd vsystem \<Rightarrow> u64 \<Rightarrow> bytes" where
  "virtio_contents disk x = disk (vw_inner (snd (Rep_vsystem x)))"

lemma virtio_read:
  assumes c: "conforming P run disk good"
  shows "\<exists>x'. dev_read (virtio_device P run) n b x = (good n, if good n then virtio_contents disk x n else b, x') \<and>
    virtio_contents disk x' = virtio_contents disk x"
proof -
  obtain v w where r: "Rep_vsystem x = (v, w)" by (cases "Rep_vsystem x")
  have i: "idle v w" using Rep_vsystem [of x] r by simp
  obtain b' v' w' where e: "read_block P run n b v w = Some (good n, b', v', w')" "idle v' w'" "disk (vw_inner w') = disk (vw_inner w)"
    "b' = (if good n then disk (vw_inner w) n else b)" using read_block_effect [OF c i] by blast
  have "Rep_vsystem (Abs_vsystem (v', w')) = (v', w')" using e(2) by (simp add: Abs_vsystem_inverse)
  then show ?thesis using e r by (simp add: dev_read_def virtio_device_def virtio_contents_def)
qed

lemma virtio_write:
  assumes c: "conforming P run disk good" and b: "length b = 512"
  shows "\<exists>x'. dev_write (virtio_device P run) n b x = (good n, x') \<and>
    virtio_contents disk x' = (if good n then (virtio_contents disk x)(n := b) else virtio_contents disk x)"
proof -
  obtain v w where r: "Rep_vsystem x = (v, w)" by (cases "Rep_vsystem x")
  have i: "idle v w" using Rep_vsystem [of x] r by simp
  obtain v' w' where e: "write_block P run n b v w = Some (good n, v', w')" "idle v' w'"
    "disk (vw_inner w') = (if good n then (disk (vw_inner w))(n := b) else disk (vw_inner w))" using write_block_effect [OF c i b] by blast
  have "Rep_vsystem (Abs_vsystem (v', w')) = (v', w')" using e(2) by (simp add: Abs_vsystem_inverse)
  then show ?thesis using e r by (simp add: dev_write_def virtio_device_def virtio_contents_def)
qed

lemma virtio_contract:
  assumes "conforming P run disk good"
  shows "device_contract (virtio_device P run) (virtio_contents disk) \<and>
    (\<forall>n b x. fst (dev_read (virtio_device P run) n b x) = good n) \<and>
    (\<forall>n b x. length b = 512 \<longrightarrow> fst (dev_write (virtio_device P run) n b x) = good n)"
proof -
  have len: "length (virtio_contents disk x n) = BLOCK_SIZE" for x n
    using assms by (simp add: conforming_def virtio_contents_def BLOCK_SIZE_def)
  have r: "virtio_contents disk x' = virtio_contents disk x \<and> length b' = BLOCK_SIZE \<and> (ok \<longrightarrow> b' = virtio_contents disk x n)"
    if "length b = BLOCK_SIZE" "dev_read (virtio_device P run) n b x = (ok, b', x')" for n b x ok b' x'
    using virtio_read [OF assms, of n b x] that len by auto
  have w: "virtio_contents disk x' = (if ok then (virtio_contents disk x)(n := b) else virtio_contents disk x)"
    if "length b = BLOCK_SIZE" "dev_write (virtio_device P run) n b x = (ok, x')" for n b x ok x'
    using virtio_write [OF assms, of b n x] that by (auto simp: BLOCK_SIZE_def)
  have "device_contract (virtio_device P run) (virtio_contents disk)"
    unfolding device_contract_def
  proof (intro conjI allI impI)
    show "dv_read_block (virtio_device P run) \<noteq> None" "dv_write_block (virtio_device P run) \<noteq> None" by (simp_all add: virtio_device_def)
  qed (use len r w in blast)+
  moreover have "fst (dev_read (virtio_device P run) n b x) = good n" for n b x using virtio_read [OF assms, of n b x] by auto
  moreover have "fst (dev_write (virtio_device P run) n b x) = good n" if "length b = 512" for n b x using virtio_write [OF assms that, of n x] by auto
  ultimately show ?thesis by blast
qed


text \<open>A device that serves a request at the first look, with 2048 sectors.\<close>

definition idle_ports :: "'d ports" where
  "idle_ports = \<lparr>outb = \<lambda>_ _ d. d, inb = \<lambda>_ d. (0, d), out16b = \<lambda>_ _ d. d, in16b = \<lambda>_ d. (0, d), out32b = \<lambda>_ _ d. d, in32b = \<lambda>_ d. (0, d), io_wait = \<lambda>d. d\<rparr>"

definition ram_run :: "(u64 \<Rightarrow> bytes) vworld \<Rightarrow> (u64 \<Rightarrow> bytes) vworld" where
  "ram_run w = (let m = vw_mem w; n = rq_sector (dm_header m); q = (dm_queue m)\<lparr>vr_used_idx := vr_used_idx (dm_queue m) + 1\<rparr> in
     if \<not> ram_good n then w\<lparr>vw_mem := m\<lparr>dm_queue := q, dm_status := 1\<rparr>\<rparr>
     else (case rq_type (dm_header m) of
        BLK_T_IN \<Rightarrow> w\<lparr>vw_mem := m\<lparr>dm_queue := q, dm_status := 0, dm_data := ram_contents (vw_inner w) n\<rparr>\<rparr>
      | BLK_T_OUT \<Rightarrow> w\<lparr>vw_inner := (vw_inner w)(n := dm_data m), vw_mem := m\<lparr>dm_queue := q, dm_status := 0\<rparr>\<rparr>))"

lemma ram_conforming: "conforming idle_ports ram_run ram_contents ram_good"
proof -
  have len: "length (ram_contents d n) = 512" for d n by (simp add: ram_contents_def BLOCK_SIZE_def)
  have upd: "ram_contents (d(n := b)) = (ram_contents d)(n := b)" if "length b = 512" for d n b
    using that by (auto simp: ram_contents_def fun_eq_iff BLOCK_SIZE_def)
  have sv: "served ram_contents ram_good w (ram_run w)" if "length (dm_data (vw_mem w)) = 512" for w
    using that len upd [of "dm_data (vw_mem w)"]
    by (cases "rq_type (dm_header (vw_mem w))") (auto simp: served_def ram_run_def Let_def STATUS_OK_def)
  have "\<exists>n > 0. (\<forall>k < n. vr_used_idx (dm_queue (vw_mem ((ram_run ^^ k) w))) = vr_used_idx (dm_queue (vw_mem w))) \<and>
      served ram_contents ram_good w ((ram_run ^^ n) w)" if "length (dm_data (vw_mem w)) = 512" for w
    using sv [OF that] by (intro exI [of _ 1]) simp
  then show ?thesis unfolding conforming_def using len by (simp add: idle_ports_def Let_def)
qed


section \<open>Initialisation leaves the driver idle\<close>

definition keeps_world :: "'d vworld \<Rightarrow> 'd vworld \<Rightarrow> bool" where
  "keeps_world w w' \<longleftrightarrow> vw_base w' = vw_base w \<and> vw_device_status w' = vw_device_status w \<and> vw_mem w' = vw_mem w"

text \<open>
  The registers: the status register holds what is written to it, the queue address register the page
  number; the 16 and 32 bit accesses change neither the status nor the memory.
\<close>

definition registers_wired :: "'d vworld ports \<Rightarrow> bool" where
  "registers_wired P \<longleftrightarrow>
     (\<forall>w. fst (inb P (vw_base w + 0x12) w) = vw_device_status w \<and> keeps_world w (snd (inb P (vw_base w + 0x12) w))) \<and>
     (\<forall>w x. keeps_world (w\<lparr>vw_device_status := x\<rparr>) (outb P (vw_base w + 0x12) x w)) \<and>
     (\<forall>w x. vw_queue_pfn (outb P (vw_base w + 0x12) x w) = (if x = 0 then 0 else vw_queue_pfn w) \<and> vw_queue_pfn (snd (inb P (vw_base w + 0x12) w)) = vw_queue_pfn w) \<and>
     (\<forall>w p x. keeps_world w (out32b P p x w) \<and> keeps_world w (snd (in32b P p w))) \<and>
     (\<forall>w p x. keeps_world w (out16b P p x w) \<and> keeps_world w (snd (in16b P p w))) \<and>
     (\<forall>w q. vw_queue_pfn (out32b P (vw_base w + 8) q w) = q)"

lemma keeps_world_trans: "keeps_world w w1 \<Longrightarrow> keeps_world w1 w2 \<Longrightarrow> keeps_world w w2"
  by (simp add: keeps_world_def)

lemma keeps_config:
  assumes "registers_wired P"
  shows "keeps_world w (snd (read_config P b dv f off w))" "keeps_world w (write_config P b dv f off x w)"
  using assms keeps_world_trans unfolding registers_wired_def read_config_def write_config_def by metis+

lemma keeps_bars:
  assumes r: "registers_wired P"
  shows "keeps_world w (snd (read_bars P b dv f is w))"
proof (induction "is" arbitrary: w)
  case (Cons i "is")
  obtain v w1 where c: "read_config P b dv f (0x10 + of_nat i * 4) w = (v, w1)" by (cases "read_config P b dv f (0x10 + of_nat i * 4) w")
  have "keeps_world w w1" using keeps_config(1) [OF r, of w b dv f "0x10 + of_nat i * 4"] c by simp
  then show ?case using keeps_world_trans Cons.IH [of w1] c by (auto split: prod.split)
qed (simp add: keeps_world_def)

lemma keeps_scan:
  assumes r: "registers_wired P"
  shows "keeps_world w (snd (scan_functions P vid did fs w))"
proof (induction fs arbitrary: w)
  case (Cons x fs)
  obtain b dv f where x: "x = (b, dv, f)" by (cases x)
  obtain v w1 where c: "read_config P b dv f 0 w = (v, w1)" by (cases "read_config P b dv f 0 w")
  have k: "keeps_world w w1" using keeps_config(1) [OF r, of w b dv f 0] c by simp
  obtain bars w2 where bs: "read_bars P b (dv AND 0x1F) f [0..<6] w1 = (bars, w2)" by (cases "read_bars P b (dv AND 0x1F) f [0..<6] w1")
  have "keeps_world w1 w2" using keeps_bars [OF r, of w1 b "dv AND 0x1F" f "[0..<6]"] bs by simp
  then show ?case unfolding x scan_functions.simps c prod.case Let_def bs using keeps_world_trans [OF k] Cons.IH [of w1] by simp
qed (simp add: keeps_world_def)

lemma keeps_find:
  assumes r: "registers_wired P" and f: "find_device P v w = (b, v', w')"
  shows "keeps_world w w'"
proof -
  obtain x w1 where s: "pci_device_exists P 0x1AF4 0x1001 w = (x, w1)" by (cases "pci_device_exists P 0x1AF4 0x1001 w")
  have k: "keeps_world w w1" using keeps_scan [OF r, of w "0x1AF4" "0x1001" all_functions] s by (simp add: pci_device_exists_def)
  have "keeps_world w1 (enable_bus_master P dev w1)" for dev
    using keeps_world_trans [OF keeps_config(1) [OF r] keeps_config(2) [OF r]] by (simp add: enable_bus_master_def case_prod_beta)
  then show ?thesis using f s k keeps_world_trans [OF k] by (auto simp: find_device_def Let_def split: option.splits if_splits)
qed

lemma add_status_effect:
  assumes r: "registers_wired P" and b: "vb_io_base v = vw_base w"
  shows "keeps_world (w\<lparr>vw_device_status := vw_device_status w OR bits\<rparr>) (add_device_status P v bits w)"
    "vw_device_status w OR bits \<noteq> 0 \<Longrightarrow> vw_queue_pfn (add_device_status P v bits w) = vw_queue_pfn w"
proof -
  obtain s w1 where i: "inb P (vw_base w + 0x12) w = (s, w1)" by (cases "inb P (vw_base w + 0x12) w")
  have s: "s = vw_device_status w" "keeps_world w w1" "vw_queue_pfn w1 = vw_queue_pfn w"
    using r i unfolding registers_wired_def by (metis fst_conv, metis snd_conv, metis snd_conv)
  have e: "add_device_status P v bits w = outb P (vw_base w1 + 0x12) (s OR bits) w1"
    using i s(2) b by (simp add: add_device_status_def port_def register_offset_def keeps_world_def)
  have "keeps_world (w1\<lparr>vw_device_status := s OR bits\<rparr>) (add_device_status P v bits w)"
    unfolding e using r unfolding registers_wired_def by blast
  then show "keeps_world (w\<lparr>vw_device_status := vw_device_status w OR bits\<rparr>) (add_device_status P v bits w)"
    using s by (simp add: keeps_world_def)
  have "vw_queue_pfn (outb P (vw_base w1 + 0x12) (s OR bits) w1) = (if s OR bits = 0 then 0 else vw_queue_pfn w1)"
    using r unfolding registers_wired_def by blast
  then show "vw_device_status w OR bits \<noteq> 0 \<Longrightarrow> vw_queue_pfn (add_device_status P v bits w) = vw_queue_pfn w"
    using s e by simp
qed

lemma virtq_init_effect:
  assumes r: "registers_wired P" and b: "vb_io_base v = vw_base w" and i: "virtq_init P resolve v w = (True, v', w')"
  shows "\<exists>n q. keeps_world (w\<lparr>vw_mem := (vw_mem w)\<lparr>dm_queue := vring_init n\<rparr>\<rparr>) w' \<and> v' = v\<lparr>vb_last_used_index := 0\<rparr> \<and> n \<noteq> 0 \<and> n AND (n - 1) = 0 \<and>
    vring_size n VIRTIO_PAGE_SIZE \<le> VIRTQUEUE_BYTES \<and> resolve (QueueMemory 0) = Some q \<and> contiguous resolve q \<and> vw_queue_pfn w' = ucast (drop_bit 12 q)"
proof -
  obtain n w1 where n: "in16b P (port v QUEUE_SIZE) (out16b P (port v QUEUE_SELECT) 0 w) = (n, w1)"
    by (cases "in16b P (port v QUEUE_SIZE) (out16b P (port v QUEUE_SELECT) 0 w)")
  have "keeps_world w (out16b P (port v QUEUE_SELECT) 0 w)" "keeps_world (out16b P (port v QUEUE_SELECT) 0 w) w1"
    using r n unfolding registers_wired_def by (metis, metis snd_conv)
  then have k: "keeps_world w w1" by (rule keeps_world_trans)
  let ?w2 = "set_mem (\<lambda>m. m\<lparr>dm_queue := vring_init n\<rparr>) w1"
  obtain q where q: "resolve (QueueMemory 0) = Some q" "contiguous resolve q" "n \<noteq> 0" "n AND (n - 1) = 0" "\<not> vring_size n VIRTIO_PAGE_SIZE > VIRTQUEUE_BYTES"
    and v': "v' = v\<lparr>vb_last_used_index := 0\<rparr>" and w': "w' = out32b P (port v' QUEUE_ADDRESS) (ucast (drop_bit 12 q)) ?w2"
    using i n by (auto simp: virtq_init_def Let_def split: if_splits option.splits)
  have p: "port v' QUEUE_ADDRESS = vw_base ?w2 + 8" using b k v' by (simp add: port_def register_offset_def set_mem_def keeps_world_def)
  have "keeps_world ?w2 w'" "vw_queue_pfn w' = ucast (drop_bit 12 q)" unfolding w' p using r unfolding registers_wired_def by blast+
  moreover have "keeps_world (w\<lparr>vw_mem := (vw_mem w)\<lparr>dm_queue := vring_init n\<rparr>\<rparr>) ?w2" using k by (simp add: keeps_world_def set_mem_def)
  ultimately show ?thesis using q v' keeps_world_trans by (auto simp: not_less)
qed

text \<open>
  A successful initialisation with a truthful resolver, on the device at the base the bus scan reported,
  leaves the driver idle when the queue has room for a request, with the queue's page told to the device.
\<close>

theorem initialize_ready:
  assumes r: "registers_wired P" and i: "initialize P (Some (dm_addr (vw_mem w))) v w = (True, v', w')"
    and b: "vb_io_base (fst (snd (find_device P v w))) = vw_base w" and d: "length (dm_data (vw_mem w)) = 512"
  shows "\<exists>n q. vr_num (dm_queue (vw_mem w')) = n \<and> dm_addr (vw_mem w) (QueueMemory 0) = Some q \<and> vw_queue_pfn w' = ucast (drop_bit 12 q) \<and> (3 \<le> unat n \<longrightarrow> idle v' w')"
proof -
  let ?res = "dm_addr (vw_mem w)"
  obtain f v1 w1 where f: "find_device P v w = (f, v1, w1)" by (cases "find_device P v w") auto
  have k1: "keeps_world w w1" using keeps_find [OF r f] .
  have b1: "vb_io_base v1 = vw_base w1" using b f k1 by (simp add: keeps_world_def)
  have ft: f using i f by (cases f) (simp_all add: initialize_def)
  define w2 where "w2 = outb P (port v1 DEVICE_STATUS) 0 w1"
  define w3 where "w3 = add_device_status P v1 1 w2"
  define w4 where "w4 = add_device_status P v1 2 w3"
  define w5 where "w5 = out32b P (port v1 DRIVER_FEATURES) 0 (snd (in32b P (port v1 DEVICE_FEATURES) w4))"
  have p: "port v1 DEVICE_STATUS = vw_base w1 + 0x12" using b1 by (simp add: port_def register_offset_def)
  have "keeps_world (w1\<lparr>vw_device_status := 0\<rparr>) w2" unfolding w2_def p using r unfolding registers_wired_def by blast
  then have k2: "vw_base w2 = vw_base w" "vw_device_status w2 = 0" "vw_mem w2 = vw_mem w" using k1 by (simp_all add: keeps_world_def)
  have "keeps_world (w2\<lparr>vw_device_status := vw_device_status w2 OR 1\<rparr>) w3" unfolding w3_def by (rule add_status_effect(1) [OF r]) (use b1 k1 k2 in \<open>simp add: keeps_world_def\<close>)
  then have k3: "vw_base w3 = vw_base w" "vw_device_status w3 = 1" "vw_mem w3 = vw_mem w" using k2 by (simp_all add: keeps_world_def)
  have "keeps_world (w3\<lparr>vw_device_status := vw_device_status w3 OR 2\<rparr>) w4" unfolding w4_def by (rule add_status_effect(1) [OF r]) (use b1 k1 k3 in \<open>simp add: keeps_world_def\<close>)
  then have k4: "vw_base w4 = vw_base w" "vw_device_status w4 = 3" "vw_mem w4 = vw_mem w" using k3 by (simp_all add: keeps_world_def)
  have "keeps_world w4 (snd (in32b P (port v1 DEVICE_FEATURES) w4))" "keeps_world (snd (in32b P (port v1 DEVICE_FEATURES) w4)) w5"
    unfolding w5_def using r unfolding registers_wired_def by blast+
  then have k5: "vw_base w5 = vw_base w" "vw_device_status w5 = 3" "vw_mem w5 = vw_mem w" using k4 by (simp_all add: keeps_world_def)
  obtain g v2 where rs: "resolve_dma_buffers ?res v1 = (g, v2)" by (cases "resolve_dma_buffers ?res v1")
  obtain h v3 w6 where vi: "virtq_init P ?res v2 w5 = (h, v3, w6)" by (cases "virtq_init P ?res v2 w5") auto
  have gh: g h and fin: "v' = v3\<lparr>vb_ready := True\<rparr>" "w' = add_device_status P v3 4 w6"
    using i f ft rs vi unfolding initialize_def Let_def w2_def w3_def w4_def w5_def by (cases g; cases h; simp)+
  have v2: "v2 = v1\<lparr>vb_header_phys := ?res RequestHeader, vb_data_phys := ?res DataBuffer, vb_status_phys := ?res StatusByte\<rparr>"
    "?res RequestHeader \<noteq> None" "?res DataBuffer \<noteq> None" "?res StatusByte \<noteq> None"
    using rs gh by (auto simp: resolve_dma_buffers_def split: if_splits)
  have b5: "vb_io_base v2 = vw_base w5" using v2(1) b1 k1 k5 by (simp add: keeps_world_def)
  have vt: "virtq_init P ?res v2 w5 = (True, v3, w6)" using vi gh(2) by simp
  obtain n q where q: "keeps_world (w5\<lparr>vw_mem := (vw_mem w5)\<lparr>dm_queue := vring_init n\<rparr>\<rparr>) w6" "v3 = v2\<lparr>vb_last_used_index := 0\<rparr>"
    "?res (QueueMemory 0) = Some q" "vw_queue_pfn w6 = ucast (drop_bit 12 q)"
    using virtq_init_effect [OF r b5 vt] by blast
  have k6: "vw_base w6 = vw_base w" "vw_device_status w6 = 3" "vw_mem w6 = (vw_mem w)\<lparr>dm_queue := vring_init n\<rparr>" using q(1) k5 by (simp_all add: keeps_world_def)
  have b6: "vb_io_base v3 = vw_base w6" using q(2) b5 k5 k6 by simp
  have "keeps_world (w6\<lparr>vw_device_status := vw_device_status w6 OR 4\<rparr>) w'" "vw_queue_pfn w' = vw_queue_pfn w6"
    unfolding fin(2) using add_status_effect [OF r b6, of 4] k6(2) by simp_all
  then have k': "vw_base w' = vw_base w" "vw_device_status w' = 7" "vw_mem w' = (vw_mem w)\<lparr>dm_queue := vring_init n\<rparr>" "vw_queue_pfn w' = ucast (drop_bit 12 q)"
    using k6 q(4) by (simp_all add: keeps_world_def)
  have "idle v' w'" if "3 \<le> unat n"
    unfolding idle_def Let_def using that k' d fin(1) q(2) v2 b1 k1 by (simp add: vring_init_def keeps_world_def)
  then show ?thesis using k' q(3) by (intro exI [of _ n] exI [of _ q]) (simp add: vring_init_def)
qed

text \<open>
  The checks on the queue size let 1 and 2 through, and then the three descriptors of a request do not fit
  the table.
\<close>

lemma small_queue_accepted:
  "(2 :: u16) \<noteq> 0 \<and> (2 :: u16) AND (2 - 1) = 0 \<and> vring_size 2 VIRTIO_PAGE_SIZE \<le> VIRTQUEUE_BYTES"
  "setup_request v type n (m\<lparr>dm_queue := vring_init 2\<rparr>) = None"
  by (simp_all add: vring_size_def VIRTIO_PAGE_SIZE_def VIRTQUEUE_BYTES_def setup_request_def vring_init_def split: option.split)

text \<open>
  The layout: the available ring, with the event index behind it, ends before the used ring, for every
  power of two, and the whole is what \<open>vring_size\<close> says.
\<close>

lemma vring_layout:
  assumes "n \<in> {1, 2, 4, 8, 16, 32, 64, 128, 256, 512, 1024, 2048, 4096, 8192, 16384, 32768}"
  shows "vring_avail_offset n + 4 + 2 * ucast n + 2 \<le> vring_used_offset n VIRTIO_PAGE_SIZE"
    "vring_size n VIRTIO_PAGE_SIZE = vring_used_offset n VIRTIO_PAGE_SIZE + 4 + 8 * ucast n + 2"
proof -
  show "vring_avail_offset n + 4 + 2 * ucast n + 2 \<le> vring_used_offset n VIRTIO_PAGE_SIZE"
    using assms by (auto simp: vring_avail_offset_def vring_used_offset_def VIRTIO_PAGE_SIZE_def)
  show "vring_size n VIRTIO_PAGE_SIZE = vring_used_offset n VIRTIO_PAGE_SIZE + 4 + 8 * ucast n + 2"
    by (simp add: vring_size_def vring_used_offset_def vring_avail_offset_def algebra_simps)
qed

end
