(* ===== verification/C_Runtime.thy ===== *)
theory C_Runtime
  imports Prelude
begin

text \<open>
  The memory and string functions of \<open>include/crt_stubs.cpp\<close>, which the compiler calls for structure copies and
  the kernel for its buffers, on a byte memory with 64-bit addresses. The other components use their
  effect directly; here the loops are shown to have it, for overlapping areas too.
\<close>

type_synonym memory = "u64 \<Rightarrow> u8"

section \<open>The loops\<close>

text \<open>\<open>rep stosb\<close> and \<open>rep movsb\<close>, byte by byte with the direction flag clear.\<close>

primrec stosb :: "nat \<Rightarrow> u64 \<Rightarrow> u8 \<Rightarrow> memory \<Rightarrow> memory" where
  "stosb 0 d v m = m"
| "stosb (Suc n) d v m = stosb n (d + 1) v (m(d := v))"

primrec movsb :: "nat \<Rightarrow> u64 \<Rightarrow> u64 \<Rightarrow> memory \<Rightarrow> memory" where
  "movsb 0 d s m = m"
| "movsb (Suc n) d s m = movsb n (d + 1) (s + 1) (m(d := m s))"

definition memset :: "u64 \<Rightarrow> u32 \<Rightarrow> u64 \<Rightarrow> memory \<Rightarrow> memory" where
  "memset dest val count m = stosb (unat count) dest (ucast val) m"

definition memcpy :: "u64 \<Rightarrow> u64 \<Rightarrow> u64 \<Rightarrow> memory \<Rightarrow> memory" where
  "memcpy dest src count m = movsb (unat count) dest src m"

partial_function (option) strlen_loop :: "u64 \<Rightarrow> memory \<Rightarrow> u64 option" where
  "strlen_loop p m = (if m p \<noteq> 0 then strlen_loop (p + 1) m else Some p)"

definition strlen :: "u64 \<Rightarrow> memory \<Rightarrow> u64 option" where
  "strlen s m = (case strlen_loop s m of None \<Rightarrow> None | Some p \<Rightarrow> Some (p - s))"

text \<open>The two loops of \<open>strncpy\<close> with \<open>n\<close> bytes to go at index \<open>i\<close>: copy up to the terminator, then fill.\<close>

primrec strncpy_fill :: "nat \<Rightarrow> u64 \<Rightarrow> u64 \<Rightarrow> memory \<Rightarrow> memory" where
  "strncpy_fill 0 i dest m = m"
| "strncpy_fill (Suc n) i dest m = strncpy_fill n (i + 1) dest (m(dest + i := 0))"

primrec strncpy_copy :: "nat \<Rightarrow> u64 \<Rightarrow> u64 \<Rightarrow> u64 \<Rightarrow> memory \<Rightarrow> memory" where
  "strncpy_copy 0 i dest src m = m"
| "strncpy_copy (Suc n) i dest src m =
     (if m (src + i) \<noteq> 0 then strncpy_copy n (i + 1) dest src (m(dest + i := m (src + i))) else strncpy_fill (Suc n) i dest m)"

definition strncpy :: "u64 \<Rightarrow> u64 \<Rightarrow> u64 \<Rightarrow> memory \<Rightarrow> memory" where
  "strncpy dest src count m = strncpy_copy (unat count) 0 dest src m"

text \<open>The backward loop, from the last byte to the first.\<close>

primrec move_back :: "nat \<Rightarrow> u64 \<Rightarrow> u64 \<Rightarrow> memory \<Rightarrow> memory" where
  "move_back 0 d s m = m"
| "move_back (Suc i) d s m = move_back i d s (m(d + of_nat i := m (s + of_nat i)))"

definition memmove :: "u64 \<Rightarrow> u64 \<Rightarrow> u64 \<Rightarrow> memory \<Rightarrow> memory" where
  "memmove dest src count m = (if dest < src then memcpy dest src count m else move_back (unat count) dest src m)"

section \<open>Their effect\<close>

lemma count_bound: "unat (n :: u64) < 2 ^ 64"
  using unsigned_less [of n] by simp

text \<open>Offsets into an area that does not wrap around.\<close>

lemma offset_unat: "unat (a - d) < n \<Longrightarrow> unat s + n \<le> 2 ^ 64 \<Longrightarrow> unat (s + (a - d) :: u64) = unat s + unat (a - d)"
  by (rule unat_add_lem [THEN iffD1]) simp

lemma offset_Suc:
  fixes a d :: u64
  assumes "n < 2 ^ 64"
  shows "unat (a - d) < Suc n \<longleftrightarrow> a = d \<or> unat (a - (d + 1)) < n" "a = d \<Longrightarrow> \<not> unat (a - (d + 1)) < n"
proof -
  have m: "unat (- 1 :: u64) = 2 ^ 64 - 1" by (simp add: unsigned_minus_1_eq_mask mask_eq_exp_minus_1)
  show "a = d \<Longrightarrow> \<not> unat (a - (d + 1)) < n" using m assms by simp
  show "unat (a - d) < Suc n \<longleftrightarrow> a = d \<or> unat (a - (d + 1)) < n"
  proof (cases "a = d")
    case False
    then have "a - d \<noteq> 0" by simp
    then have "unat (a - d - 1) = unat (a - d) - 1" "0 < unat (a - d)" by (simp_all add: unat_minus_one unat_gt_0)
    then show ?thesis using False by (auto simp: diff_diff_eq)
  qed simp
qed

lemma stosb_effect: "n < 2 ^ 64 \<Longrightarrow> stosb n d v m a = (if unat (a - d) < n then v else m a)"
proof (induction n arbitrary: d m)
  case (Suc n)
  have "stosb (Suc n) d v m a = (if unat (a - (d + 1)) < n then v else (m(d := v)) a)" using Suc by simp
  then show ?case using offset_Suc [of n a d] Suc.prems by auto
qed simp

text \<open>Forwards is right when the destination is below the source, backwards when it is not.\<close>

lemma movsb_effect:
  assumes "n < 2 ^ 64" "d < s" "unat s + n \<le> 2 ^ 64"
  shows "movsb n d s m a = (if unat (a - d) < n then m (s + (a - d)) else m a)"
  using assms
proof (induction n arbitrary: d s m)
  case (Suc n)
  let ?m = "m(d := m s)"
  have step: "movsb n (d + 1) (s + 1) ?m a = (if unat (a - (d + 1)) < n then ?m (s + 1 + (a - (d + 1))) else ?m a)"
  proof (cases "n = 0")
    case False
    then have "unat s + 1 < 2 ^ 64" using Suc.prems(3) by simp
    then have u: "unat (s + 1) = unat s + 1" "unat (d + 1) = unat d + 1" using Suc.prems(2) by (simp_all add: unat_word_ariths word_less_nat_alt)
    show ?thesis by (rule Suc.IH) (use u Suc.prems in \<open>simp_all add: word_less_nat_alt\<close>)
  qed simp
  have e: "s + 1 + (a - (d + 1)) = s + (a - d)" by (simp add: algebra_simps)
  have ne: "s + (a - d) \<noteq> d" if "unat (a - d) < Suc n"
  proof
    assume "s + (a - d) = d"
    then have "unat d = unat s + unat (a - d)" using offset_unat [OF that Suc.prems(3)] by metis
    then show False using Suc.prems(2) by (simp add: word_less_nat_alt)
  qed
  show ?case using step ne offset_Suc [of n a d] Suc.prems(1) unfolding e by auto
qed simp

lemma move_back_effect:
  assumes "n < 2 ^ 64" "s \<le> d" "unat d + n \<le> 2 ^ 64"
  shows "move_back n d s m a = (if unat (a - d) < n then m (s + (a - d)) else m a)"
  using assms
proof (induction n arbitrary: m)
  case (Suc n)
  let ?m = "m(d + of_nat n := m (s + of_nat n))"
  have n: "unat (of_nat n :: u64) = n" using Suc.prems(1) by (simp add: unat_of_nat)
  have IH: "move_back n d s ?m a = (if unat (a - d) < n then ?m (s + (a - d)) else ?m a)" using Suc by simp
  have "s + (a - d) \<noteq> d + of_nat n" if "unat (a - d) < n"
  proof -
    have "unat (s + (a - d)) = unat s + unat (a - d)" using offset_unat [OF that] Suc.prems by (simp add: word_le_nat_alt)
    moreover have "unat (d + of_nat n) = unat d + n" using Suc.prems(3) n by (simp add: unat_word_ariths)
    moreover have "unat s + unat (a - d) \<noteq> unat d + n" using that Suc.prems(2) by (simp add: word_le_nat_alt)
    ultimately show ?thesis by metis
  qed
  moreover have "unat (a - d) = n \<longleftrightarrow> a = d + of_nat n" using n by (auto simp: word_unat_eq_iff) (metis add_diff_cancel_left' diff_add_cancel add.commute of_nat_unat ucast_id)
  ultimately show ?case using IH by (auto simp: less_Suc_eq)
qed simp

text \<open>
  \<open>memmove\<close> copies as if through a buffer, whether the areas overlap or not, and touches nothing else.
\<close>

theorem memmove_correct:
  assumes "unat dest + unat count \<le> 2 ^ 64" "unat src + unat count \<le> 2 ^ 64"
  shows "memmove dest src count m a = (if a - dest < count then m (src + (a - dest)) else m a)"
  using movsb_effect [of "unat count" dest src m a] move_back_effect [of "unat count" src dest m a] assms count_bound [of count]
  by (auto simp: memmove_def memcpy_def word_less_nat_alt not_less word_le_nat_alt)

lemma memset_correct: "memset dest val count m a = (if a - dest < count then ucast val else m a)"
  using stosb_effect [of "unat count" dest "ucast val" m a] count_bound [of count] by (simp add: memset_def word_less_nat_alt)

lemma strlen_loop_returns:
  assumes "\<forall>i < n. m (p + of_nat i) \<noteq> 0" "m (p + of_nat n) = 0"
  shows "strlen_loop p m = Some (p + of_nat n)"
  using assms
proof (induction n arbitrary: p)
  case 0
  then show ?case by (subst strlen_loop.simps) simp
next
  case (Suc n)
  have "strlen_loop (p + 1) m = Some (p + 1 + of_nat n)"
    by (rule Suc.IH) (use Suc.prems in \<open>force simp: algebra_simps\<close>)+
  moreover have "m p \<noteq> 0" using Suc.prems(1) by (force dest: spec [of _ 0])
  ultimately show ?case by (subst strlen_loop.simps) (simp add: algebra_simps)
qed

lemma strlen_correct: "\<forall>i < n. m (s + of_nat i) \<noteq> 0 \<Longrightarrow> m (s + of_nat n) = 0 \<Longrightarrow> strlen s m = Some (of_nat n)"
  using strlen_loop_returns [of n m s] by (simp add: strlen_def)

end
