(* ===== verification/Segment_Tables.thy ===== *)
theory Segment_Tables
  imports Console
begin

text \<open>
  The tables the processor reads: the global descriptor table with its task state segment
  (\<open>include/gdt.cpp\<close>) and the interrupt descriptor table (\<open>include/idt.cpp\<close>). A packed structure is a
  record of its fields. The decoders at the end are the fields as the processor reads them, and
  the properties say that the tables, decoded, are what the kernel means.
\<close>

section \<open>Selectors and descriptors\<close>

definition kKernelCode :: u16 where "kKernelCode = push_bit 3 1"
definition kKernelData :: u16 where "kKernelData = push_bit 3 2"
definition kUserData :: u16 where "kUserData = push_bit 3 3 OR 3"
definition kUserCode :: u16 where "kUserCode = push_bit 3 4 OR 3"
definition kTSS :: u16 where "kTSS = push_bit 3 5"

definition index_of :: "u16 \<Rightarrow> nat" where
  "index_of selector = unat (drop_bit 3 selector)"

datatype PrivilegeLevel = Ring0 | Ring3

definition privilege_bits :: "PrivilegeLevel \<Rightarrow> u8" where
  "privilege_bits l = (case l of Ring0 \<Rightarrow> 0 | Ring3 \<Rightarrow> 3)"

record Access =
  ac_present :: bool
  ac_descriptor_privilege_level :: PrivilegeLevel
  ac_descriptor_type :: bool
  ac_executable :: bool
  ac_direction_conforming :: bool
  ac_readable_writable :: bool
  ac_accessed :: bool

definition Access_default :: Access where
  "Access_default = \<lparr>ac_present = True, ac_descriptor_privilege_level = Ring0, ac_descriptor_type = True, ac_executable = False,
     ac_direction_conforming = False, ac_readable_writable = True, ac_accessed = False\<rparr>"

definition access_byte :: "Access \<Rightarrow> u8" where
  "access_byte a = push_bit 7 (of_bool (ac_present a)) OR push_bit 5 (privilege_bits (ac_descriptor_privilege_level a)) OR
     push_bit 4 (of_bool (ac_descriptor_type a)) OR push_bit 3 (of_bool (ac_executable a)) OR push_bit 2 (of_bool (ac_direction_conforming a)) OR
     push_bit 1 (of_bool (ac_readable_writable a)) OR of_bool (ac_accessed a)"

record Granularity =
  gr_granularity :: bool
  gr_default_operand_size :: bool
  gr_long_mode :: bool
  gr_available :: bool

definition Granularity_default :: Granularity where
  "Granularity_default = \<lparr>gr_granularity = False, gr_default_operand_size = False, gr_long_mode = False, gr_available = False\<rparr>"

definition granularity_byte :: "Granularity \<Rightarrow> u8" where
  "granularity_byte g = push_bit 7 (of_bool (gr_granularity g)) OR push_bit 6 (of_bool (gr_default_operand_size g)) OR
     push_bit 5 (of_bool (gr_long_mode g)) OR push_bit 4 (of_bool (gr_available g))"

datatype SystemDescriptorType = AvailableTss | BusyTss

definition system_type_bits :: "SystemDescriptorType \<Rightarrow> u8" where
  "system_type_bits t = (case t of AvailableTss \<Rightarrow> 9 | BusyTss \<Rightarrow> 0xB)"

text \<open>\<open>SystemAccess\<close> with its defaults: present, ring 0, a system descriptor.\<close>

definition system_access_byte :: "SystemDescriptorType \<Rightarrow> u8" where
  "system_access_byte t = push_bit 7 1 OR push_bit 5 (privilege_bits Ring0) OR push_bit 4 0 OR (system_type_bits t AND 0xF)"

record GlobalDescriptorTableEntry =
  ge_limit_low :: u16
  ge_base_low :: u16
  ge_base_middle :: u8
  ge_access :: u8
  ge_granularity :: u8
  ge_base_high :: u8

record TaskStateSegment =
  ts_rsp :: "u64 list"
  ts_ist :: "u64 list"
  ts_io_map_base_address :: u16

definition sizeof_TaskStateSegment :: nat where "sizeof_TaskStateSegment = 4 + 3 * 8 + 8 + 7 * 8 + 8 + 2 + 2"

text \<open>
  The state of \<open>gdt.cpp\<close>, with the two registers the assembly helpers load and the stack pointer of the
  system call entry.
\<close>

record segments =
  sg_entries :: "GlobalDescriptorTableEntry list"
  sg_tss :: TaskStateSegment
  sg_syscall_kernel_rsp :: u64
  sg_gdtr :: "u16 \<times> u64"
  sg_tr :: u16

section \<open>Building the table\<close>

definition make_entry_of :: "u8 \<Rightarrow> u8 \<Rightarrow> u32 \<Rightarrow> u32 \<Rightarrow> GlobalDescriptorTableEntry" where
  "make_entry_of access granularity base limit =
     \<lparr>ge_limit_low = ucast (limit AND 0xFFFF), ge_base_low = ucast (base AND 0xFFFF), ge_base_middle = ucast (drop_bit 16 base AND 0xFF),
      ge_access = access, ge_granularity = ucast (drop_bit 16 limit AND 0xF) OR granularity, ge_base_high = ucast (drop_bit 24 base AND 0xFF)\<rparr>"

definition set_entry :: "nat \<Rightarrow> Access \<Rightarrow> Granularity \<Rightarrow> u32 \<Rightarrow> u32 \<Rightarrow> segments \<Rightarrow> segments" where
  "set_entry index access granularity base limit s =
     s\<lparr>sg_entries := (sg_entries s)[index := make_entry_of (access_byte access) (granularity_byte granularity) base limit]\<rparr>"

text \<open>
  The descriptor of the task state segment has 16 bytes and covers two entries of the table: the
  upper half of the base is in the first four bytes of the second, the rest of which is zero.
\<close>

definition set_tss_entry :: "nat \<Rightarrow> u64 \<Rightarrow> u32 \<Rightarrow> segments \<Rightarrow> segments" where
  "set_tss_entry index base limit s =
     s\<lparr>sg_entries := (sg_entries s)
         [index := make_entry_of (system_access_byte AvailableTss) (granularity_byte Granularity_default) (ucast base) limit,
          Suc index := \<lparr>ge_limit_low = ucast (drop_bit 32 base), ge_base_low = ucast (drop_bit 48 base), ge_base_middle = 0,
                        ge_access = 0, ge_granularity = 0, ge_base_high = 0\<rparr>]\<rparr>"

definition initialize_gdt :: "u64 \<Rightarrow> u64 \<Rightarrow> segments \<times> console \<Rightarrow> segments \<times> console" where
  "initialize_gdt tss_address entries_address sc =
     (case sc of (s, c) \<Rightarrow>
      let s1 = set_entry 0 (Access_default\<lparr>ac_present := False, ac_descriptor_type := False, ac_readable_writable := False\<rparr>) Granularity_default 0 0 s;
          s2 = set_entry (index_of kKernelCode) (Access_default\<lparr>ac_executable := True\<rparr>) (Granularity_default\<lparr>gr_long_mode := True\<rparr>) 0 0 s1;
          s3 = set_entry (index_of kKernelData) Access_default Granularity_default 0 0 s2;
          s4 = set_entry (index_of kUserData) (Access_default\<lparr>ac_descriptor_privilege_level := Ring3\<rparr>) Granularity_default 0 0 s3;
          s5 = set_entry (index_of kUserCode) (Access_default\<lparr>ac_descriptor_privilege_level := Ring3, ac_executable := True\<rparr>)
                 (Granularity_default\<lparr>gr_long_mode := True\<rparr>) 0 0 s4;
          s6 = s5\<lparr>sg_tss := \<lparr>ts_rsp = replicate 3 0, ts_ist = replicate 7 0, ts_io_map_base_address = of_nat sizeof_TaskStateSegment\<rparr>\<rparr>;
          s7 = set_tss_entry (index_of kTSS) tss_address (of_nat sizeof_TaskStateSegment - 1) s6;
          s8 = s7\<lparr>sg_gdtr := (of_nat (8 * length (sg_entries s7) - 1), entries_address), sg_tr := kTSS\<rparr>;
          c1 = console_puts (ascii ''[GDT]  '') (console_set_color LightGreen Black c);
          c2 = console_puts (ascii (''rebuilt with user segments + TSS'' @ [CHR 10])) (console_set_color LightGrey Black c1)
      in (s8, c2))"

definition set_kernel_stack :: "u64 \<Rightarrow> segments \<Rightarrow> segments" where
  "set_kernel_stack rsp0 s = s\<lparr>sg_tss := (sg_tss s)\<lparr>ts_rsp := (ts_rsp (sg_tss s))[0 := rsp0]\<rparr>, sg_syscall_kernel_rsp := rsp0\<rparr>"

section \<open>The interrupt table\<close>

datatype DescriptorType = kInterruptGate | kTrapGate

definition gate_type :: "DescriptorType \<Rightarrow> u16" where
  "gate_type t = (case t of kInterruptGate \<Rightarrow> 14 | kTrapGate \<Rightarrow> 15)"

record InterruptDescriptorAttribute =
  at_interrupt_stack_table :: u16
  at_type :: DescriptorType
  at_descriptor_privilege_level :: u16
  at_present :: u16

text \<open>The 16 bits of the attribute: 3 of stack table, 5 reserved, 4 of type, 1 unused, 2 of privilege, 1 present.\<close>

definition attribute_data :: "InterruptDescriptorAttribute \<Rightarrow> u16" where
  "attribute_data a = (at_interrupt_stack_table a AND 7) OR push_bit 8 (gate_type (at_type a)) OR
     push_bit 13 (at_descriptor_privilege_level a AND 3) OR push_bit 15 (at_present a AND 1)"

definition IDT_INTERRUPT_GATE :: InterruptDescriptorAttribute where
  "IDT_INTERRUPT_GATE = \<lparr>at_interrupt_stack_table = 0, at_type = kInterruptGate, at_descriptor_privilege_level = 0, at_present = 1\<rparr>"

record InterruptDescriptorTableEntry =
  ie_offset_low :: u16
  ie_segment_selector :: u16
  ie_attribute :: u16
  ie_offset_middle :: u16
  ie_offset_high :: u32
  ie_reserved :: u32

record interrupt_table =
  it_entries :: "InterruptDescriptorTableEntry list"
  it_idtr :: "u16 \<times> u64"
  it_interrupts :: bool
  it_handler_console :: bool

definition set_idt :: "nat \<Rightarrow> InterruptDescriptorAttribute \<Rightarrow> u64 \<Rightarrow> interrupt_table \<Rightarrow> interrupt_table" where
  "set_idt idx attribute handler t =
     t\<lparr>it_entries := (it_entries t)[idx :=
        \<lparr>ie_offset_low = ucast (handler AND 0xFFFF), ie_segment_selector = kKernelCode, ie_attribute = attribute_data attribute,
         ie_offset_middle = ucast (drop_bit 16 handler AND 0xFFFF), ie_offset_high = ucast (drop_bit 32 handler AND 0xFFFFFFFF), ie_reserved = 0\<rparr>]\<rparr>"

text \<open>
  The constructor. The member \<open>entries\<close> has no initialiser, so the table starts with the bytes its memory happens
  to hold. \<open>console\<close> says whether the argument is not null, \<open>serial\<close> the same of the serial port.
\<close>

definition InterruptDescriptorTable :: "bool \<Rightarrow> bool \<Rightarrow> (nat \<Rightarrow> u64) \<Rightarrow> (nat \<Rightarrow> u64) \<Rightarrow> u64 \<Rightarrow> interrupt_table \<Rightarrow> interrupt_table" where
  "InterruptDescriptorTable console serial isr_stubs irq_stubs entries_address t =
     (let t1 = t\<lparr>it_handler_console := console \<or> serial\<rparr>;
          t2 = fold (\<lambda>i. set_idt i IDT_INTERRUPT_GATE (isr_stubs i)) [0..<32] t1;
          t3 = fold (\<lambda>i. set_idt (0x20 + i) IDT_INTERRUPT_GATE (irq_stubs i)) [0..<16] t2
      in t3\<lparr>it_idtr := (of_nat (16 * length (it_entries t3) - 1), entries_address), it_interrupts := True\<rparr>)"

section \<open>What the processor reads\<close>

definition segment_base :: "GlobalDescriptorTableEntry \<Rightarrow> u32" where
  "segment_base e = ucast (ge_base_low e) OR push_bit 16 (ucast (ge_base_middle e)) OR push_bit 24 (ucast (ge_base_high e))"

definition segment_limit :: "GlobalDescriptorTableEntry \<Rightarrow> u32" where
  "segment_limit e = ucast (ge_limit_low e) OR push_bit 16 (ucast (ge_granularity e AND 0xF))"

definition system_base :: "GlobalDescriptorTableEntry \<Rightarrow> GlobalDescriptorTableEntry \<Rightarrow> u64" where
  "system_base e f = ucast (segment_base e) OR push_bit 32 (ucast (ge_limit_low f)) OR push_bit 48 (ucast (ge_base_low f))"

definition gate_offset :: "InterruptDescriptorTableEntry \<Rightarrow> u64" where
  "gate_offset e = ucast (ie_offset_low e) OR push_bit 16 (ucast (ie_offset_middle e)) OR push_bit 32 (ucast (ie_offset_high e))"

definition descriptor_level :: "GlobalDescriptorTableEntry \<Rightarrow> u8" where
  "descriptor_level e = drop_bit 5 (ge_access e) AND 3"

text \<open>A present code or data segment of the given level; code segments are 64-bit ones.\<close>

definition flat_segment :: "bool \<Rightarrow> u8 \<Rightarrow> GlobalDescriptorTableEntry \<Rightarrow> bool" where
  "flat_segment code level e \<longleftrightarrow> bit (ge_access e) 7 \<and> descriptor_level e = level \<and> bit (ge_access e) 4 \<and> (bit (ge_access e) 3 \<longleftrightarrow> code) \<and>
     bit (ge_access e) 1 \<and> \<not> bit (ge_access e) 2 \<and> (bit (ge_granularity e) 5 \<longleftrightarrow> code) \<and> \<not> bit (ge_granularity e) 6 \<and> segment_base e = 0"

lemma field_masks: "(0xFFFF :: u32) = mask 16" "(0xFF :: u32) = mask 8" "(0xF :: u32) = mask 4" "(0xF :: u8) = mask 4"
  "(0xFFFF :: u64) = mask 16" "(0xFFFFFFFF :: u64) = mask 32"
  by (simp_all add: mask_eq_exp_minus_1)

text \<open>A word is the combination of its fields.\<close>

lemma join_base:
  "ucast (ucast (base AND mask 16) :: u16) OR push_bit 16 (ucast (ucast (drop_bit 16 base AND mask 8) :: u8)) OR
     push_bit 24 (ucast (ucast (drop_bit 24 base AND mask 8) :: u8)) = (base :: u32)"
  by (rule bit_word_eqI, case_tac "n < 24") (auto simp: bit_simps)

lemma join_limit:
  assumes "limit < 0x100000" "granularity AND mask 4 = 0"
  shows "ucast (ucast (limit AND mask 16) :: u16) OR push_bit 16 (ucast ((ucast (drop_bit 16 limit AND mask 4) OR granularity) AND mask 4 :: u8)) = (limit :: u32)"
proof (rule bit_word_eqI)
  fix n assume n: "n < LENGTH(32)"
  have "unat limit < 2 ^ 20" using assms(1) by (simp add: word_less_nat_alt)
  then have "take_bit 20 limit = limit" by (simp add: word_unat_eq_iff unsigned_take_bit_eq take_bit_nat_eq_self)
  then have l: "bit limit n \<longleftrightarrow> bit limit n \<and> n < 20" by (metis bit_take_bit_iff)
  have g: "\<not> bit granularity k" if "k < 4" for k using arg_cong [OF assms(2), of "\<lambda>w. bit w k"] that by (simp add: bit_simps)
  show "bit (ucast (ucast (limit AND mask 16) :: u16) OR push_bit 16 (ucast ((ucast (drop_bit 16 limit AND mask 4) OR granularity) AND mask 4 :: u8)) :: u32) n =
      bit limit n"
    using l g n by (auto simp: bit_simps)
qed

lemma segment_roundtrip:
  assumes "limit < 0x100000" "granularity AND 0xF = 0"
  shows "segment_base (make_entry_of access granularity base limit) = base" "segment_limit (make_entry_of access granularity base limit) = limit"
  using join_base [of base] join_limit [of limit granularity] assms
  by (simp_all add: segment_base_def segment_limit_def make_entry_of_def field_masks)

lemma system_base_roundtrip:
  "ucast (ucast base :: u32) OR push_bit 32 (ucast (ucast (drop_bit 32 base) :: u16)) OR push_bit 48 (ucast (ucast (drop_bit 48 base) :: u16)) = (base :: u64)"
  by (rule bit_word_eqI, case_tac "n < 48") (auto simp: bit_simps)

lemma gate_roundtrip:
  "ucast (ucast (h AND mask 16) :: u16) OR push_bit 16 (ucast (ucast (drop_bit 16 h AND mask 16) :: u16)) OR
     push_bit 32 (ucast (ucast (drop_bit 32 h AND mask 32) :: u32)) = (h :: u64)"
  by (rule bit_word_eqI, case_tac "n < 32") (auto simp: bit_simps)

section \<open>The tables are what the kernel means\<close>

lemma index_values: "index_of kKernelCode = 1" "index_of kKernelData = 2" "index_of kUserData = 3" "index_of kUserCode = 4" "index_of kTSS = 5"
  by code_simp+

lemma access_bytes:
  "access_byte (Access_default\<lparr>ac_executable := True\<rparr>) = 0x9A" "access_byte Access_default = 0x92"
  "access_byte (Access_default\<lparr>ac_descriptor_privilege_level := Ring3\<rparr>) = 0xF2"
  "access_byte (Access_default\<lparr>ac_descriptor_privilege_level := Ring3, ac_executable := True\<rparr>) = 0xFA"
  "access_byte (Access_default\<lparr>ac_present := False, ac_descriptor_type := False, ac_readable_writable := False\<rparr>) = 0"
  "granularity_byte (Granularity_default\<lparr>gr_long_mode := True\<rparr>) = 0x20" "granularity_byte Granularity_default = 0"
  "system_access_byte AvailableTss = 0x89"
  by code_simp+

lemma flat_segments:
  "flat_segment True 0 (make_entry_of 0x9A 0x20 0 0)" "flat_segment False 0 (make_entry_of 0x92 0 0 0)"
  "flat_segment False 3 (make_entry_of 0xF2 0 0 0)" "flat_segment True 3 (make_entry_of 0xFA 0x20 0 0)"
  by code_simp+

text \<open>The table after \<open>initialize_gdt\<close>, entry by entry.\<close>

lemma gdt_entries:
  assumes "length (sg_entries s) = 7"
  shows "sg_entries (fst (initialize_gdt ta ea (s, c))) =
    [make_entry_of 0 0 0 0, make_entry_of 0x9A 0x20 0 0, make_entry_of 0x92 0 0 0, make_entry_of 0xF2 0 0 0, make_entry_of 0xFA 0x20 0 0,
     make_entry_of 0x89 0 (ucast ta) 103,
     \<lparr>ge_limit_low = ucast (drop_bit 32 ta), ge_base_low = ucast (drop_bit 48 ta), ge_base_middle = 0, ge_access = 0, ge_granularity = 0, ge_base_high = 0\<rparr>]"
proof -
  obtain e0 e1 e2 e3 e4 e5 e6 where e: "sg_entries s = [e0, e1, e2, e3, e4, e5, e6]"
    using assms by (auto simp: length_Suc_conv numeral_eq_Suc)
  show ?thesis
    unfolding initialize_gdt_def prod.case Let_def set_entry_def set_tss_entry_def index_values access_bytes sizeof_TaskStateSegment_def
    by (simp add: e numeral_eq_Suc)
qed

text \<open>
  The descriptor table, as the processor decodes it, has flat 64-bit code and data segments of ring 0
  and ring 3 in the order \<open>syscall\<close> and \<open>sysret\<close> rely on (data after code for the kernel, code after
  data for the user), and a descriptor of the task state segment with its full 64-bit base and its
  limit; the table register covers the seven entries. A change of the kernel stack reaches both
  the entry by interrupt and the entry by system call.
\<close>

theorem gdt_correct:
  assumes "length (sg_entries s) = 7"
  shows "let s' = fst (initialize_gdt tss_address entries_address (s, c)); e = sg_entries s' in
    e ! 0 = make_entry_of 0 0 0 0 \<and>
    flat_segment True 0 (e ! index_of kKernelCode) \<and> flat_segment False 0 (e ! index_of kKernelData) \<and>
    flat_segment False 3 (e ! index_of kUserData) \<and> flat_segment True 3 (e ! index_of kUserCode) \<and>
    kKernelData = kKernelCode + 8 \<and> kUserData = ((kUserData AND NOT 3) - 8 + 8) OR 3 \<and> kUserCode = ((kUserData AND NOT 3) - 8 + 16) OR 3 \<and>
    ge_access (e ! index_of kTSS) = 0x89 \<and> system_base (e ! index_of kTSS) (e ! Suc (index_of kTSS)) = tss_address \<and>
    segment_limit (e ! index_of kTSS) = of_nat sizeof_TaskStateSegment - 1 \<and>
    sg_gdtr s' = (7 * 8 - 1, entries_address) \<and> sg_tr s' = kTSS \<and>
    ts_rsp (sg_tss (set_kernel_stack rsp0 s')) = [rsp0, 0, 0] \<and> sg_syscall_kernel_rsp (set_kernel_stack rsp0 s') = rsp0"
proof -
  let ?s = "fst (initialize_gdt tss_address entries_address (s, c))"
  have e: "sg_entries ?s = [make_entry_of 0 0 0 0, make_entry_of 0x9A 0x20 0 0, make_entry_of 0x92 0 0 0, make_entry_of 0xF2 0 0 0,
     make_entry_of 0xFA 0x20 0 0, make_entry_of 0x89 0 (ucast tss_address) 103,
     \<lparr>ge_limit_low = ucast (drop_bit 32 tss_address), ge_base_low = ucast (drop_bit 48 tss_address), ge_base_middle = 0, ge_access = 0,
      ge_granularity = 0, ge_base_high = 0\<rparr>]"
    by (rule gdt_entries [OF assms])
  have sel: "kKernelData = kKernelCode + 8" "kUserData = ((kUserData AND NOT 3) - 8 + 8) OR 3" "kUserCode = ((kUserData AND NOT 3) - 8 + 16) OR 3"
    by code_simp+
  have lim: "segment_limit (make_entry_of 0x89 0 (ucast tss_address) 103) = of_nat sizeof_TaskStateSegment - 1"
    using segment_roundtrip(2) [of 103 0] by (simp add: sizeof_TaskStateSegment_def)
  have base: "system_base (sg_entries ?s ! 5) (sg_entries ?s ! 6) = tss_address"
    using system_base_roundtrip [of tss_address] segment_roundtrip(1) [of 103 0 "0x89" "ucast tss_address"] unfolding e system_base_def by simp
  have regs: "sg_gdtr ?s = (7 * 8 - 1, entries_address)" "sg_tr ?s = kTSS" "ts_rsp (sg_tss ?s) = [0, 0, 0]"
    using assms by (simp_all add: initialize_gdt_def Let_def set_entry_def set_tss_entry_def numeral_eq_Suc)
  have stack: "ts_rsp (sg_tss (set_kernel_stack rsp0 ?s)) = [rsp0, 0, 0]" "sg_syscall_kernel_rsp (set_kernel_stack rsp0 ?s) = rsp0"
    using regs(3) by (simp_all add: set_kernel_stack_def)
  have tss: "ge_access (sg_entries ?s ! 5) = 0x89" "segment_limit (sg_entries ?s ! 5) = of_nat sizeof_TaskStateSegment - 1"
    unfolding e using lim by (simp_all add: make_entry_of_def)
  have seg: "sg_entries ?s ! 0 = make_entry_of 0 0 0 0" "flat_segment True 0 (sg_entries ?s ! 1)" "flat_segment False 0 (sg_entries ?s ! 2)"
    "flat_segment False 3 (sg_entries ?s ! 3)" "flat_segment True 3 (sg_entries ?s ! 4)"
    unfolding e using flat_segments by simp_all
  have six: "Suc 5 = 6" by simp
  show ?thesis unfolding Let_def index_values six by (intro conjI seg sel tss base regs(1,2) stack)
qed

text \<open>The gates: a run of \<open>set_idt\<close> over consecutive vectors.\<close>

lemma set_idt_run:
  fixes a :: InterruptDescriptorAttribute and h :: "nat \<Rightarrow> u64"
  assumes "b + n \<le> length (it_entries t)"
  defines "t' \<equiv> fold (\<lambda>i. set_idt (b + i) a (h i)) [0..<n] t"
  shows "length (it_entries t') = length (it_entries t)"
    "\<And>i. it_entries t' ! i = (if b \<le> i \<and> i < b + n then it_entries (set_idt i a (h (i - b)) t) ! i else it_entries t ! i)"
    "it_handler_console t' = it_handler_console t"
proof -
  have "length (it_entries (fold (\<lambda>i. set_idt (b + i) a (h i)) [0..<m] t)) = length (it_entries t) \<and>
      (\<forall>i. it_entries (fold (\<lambda>i. set_idt (b + i) a (h i)) [0..<m] t) ! i =
        (if b \<le> i \<and> i < b + m then it_entries (set_idt i a (h (i - b)) t) ! i else it_entries t ! i)) \<and>
      it_handler_console (fold (\<lambda>i. set_idt (b + i) a (h i)) [0..<m] t) = it_handler_console t" if "m \<le> n" for m
    using that
  proof (induction m)
    case (Suc m)
    then show ?case using assms(1) by (auto simp: set_idt_def nth_list_update less_Suc_eq)
  qed auto
  then show "length (it_entries t') = length (it_entries t)"
    "\<And>i. it_entries t' ! i = (if b \<le> i \<and> i < b + n then it_entries (set_idt i a (h (i - b)) t) ! i else it_entries t ! i)"
    "it_handler_console t' = it_handler_console t"
    unfolding t'_def by blast+
qed

lemma gate_entry:
  assumes "i < length (it_entries t)"
  shows "gate_offset (it_entries (set_idt i IDT_INTERRUPT_GATE h t) ! i) = h"
    "ie_segment_selector (it_entries (set_idt i IDT_INTERRUPT_GATE h t) ! i) = kKernelCode"
    "ie_attribute (it_entries (set_idt i IDT_INTERRUPT_GATE h t) ! i) = 0x8E00"
proof -
  have "attribute_data IDT_INTERRUPT_GATE = 0x8E00" by code_simp
  then show "gate_offset (it_entries (set_idt i IDT_INTERRUPT_GATE h t) ! i) = h"
    "ie_segment_selector (it_entries (set_idt i IDT_INTERRUPT_GATE h t) ! i) = kKernelCode"
    "ie_attribute (it_entries (set_idt i IDT_INTERRUPT_GATE h t) ! i) = 0x8E00"
    using assms gate_roundtrip [of h] by (simp_all add: set_idt_def gate_offset_def field_masks)
qed

text \<open>
  The constructor installs a present ring-0 interrupt gate with the full 64-bit handler address for each of
  the 48 exceptions and interrupt lines, and leaves the other 208 entries as they were in memory.
\<close>

theorem idt_correct:
  assumes "length (it_entries t) = 256"
  shows "let t' = InterruptDescriptorTable console serial isr_stubs irq_stubs entries_address t in
    (\<forall>i < 48. gate_offset (it_entries t' ! i) = (if i < 32 then isr_stubs i else irq_stubs (i - 32)) \<and>
       ie_segment_selector (it_entries t' ! i) = kKernelCode \<and> ie_attribute (it_entries t' ! i) = 0x8E00) \<and>
    (\<forall>i \<ge> 48. it_entries t' ! i = it_entries t ! i) \<and> length (it_entries t') = 256 \<and>
    it_idtr t' = (256 * 16 - 1, entries_address) \<and> it_interrupts t'"
proof -
  define t1 where "t1 = t\<lparr>it_handler_console := console \<or> serial\<rparr>"
  define t2 where "t2 = fold (\<lambda>i. set_idt (0 + i) IDT_INTERRUPT_GATE (isr_stubs i)) [0..<32] t1"
  define t3 where "t3 = fold (\<lambda>i. set_idt (0x20 + i) IDT_INTERRUPT_GATE (irq_stubs i)) [0..<16] t2"
  have l1: "length (it_entries t1) = 256" "it_entries t1 = it_entries t" using assms by (simp_all add: t1_def)
  have t2: "length (it_entries t2) = 256" "\<And>i. it_entries t2 ! i = (if i < 32 then it_entries (set_idt i IDT_INTERRUPT_GATE (isr_stubs i) t1) ! i else it_entries t ! i)"
    using set_idt_run [of 0 32 t1 IDT_INTERRUPT_GATE isr_stubs, folded t2_def] l1 by simp_all
  have t3: "length (it_entries t3) = 256"
    "\<And>i. it_entries t3 ! i = (if 32 \<le> i \<and> i < 48 then it_entries (set_idt i IDT_INTERRUPT_GATE (irq_stubs (i - 32)) t2) ! i else it_entries t2 ! i)"
    using set_idt_run [of 32 16 t2 IDT_INTERRUPT_GATE irq_stubs, folded t3_def] t2(1) by simp_all
  have e: "InterruptDescriptorTable console serial isr_stubs irq_stubs entries_address t =
      t3\<lparr>it_idtr := (256 * 16 - 1, entries_address), it_interrupts := True\<rparr>"
    unfolding InterruptDescriptorTable_def Let_def t1_def [symmetric] using t3(1) unfolding t3_def t2_def by simp
  have gates: "gate_offset (it_entries t3 ! i) = (if i < 32 then isr_stubs i else irq_stubs (i - 32)) \<and>
      ie_segment_selector (it_entries t3 ! i) = kKernelCode \<and> ie_attribute (it_entries t3 ! i) = 0x8E00" if "i < 48" for i
    using that t2 t3 l1(1) gate_entry [of i t1 "isr_stubs i"] gate_entry [of i t2 "irq_stubs (i - 32)"] by auto
  show ?thesis unfolding Let_def e using gates t2(2) t3 by simp
qed

end
