(* ===== verification/Exceptions.thy ===== *)
theory Exceptions
  imports Segment_Tables Keyboard
begin

text \<open>
  The handlers the interrupt stubs call (\<open>include/exception.cpp\<close>): the report of an exception, after which the
  machine stays halted, and the two handlers of the interrupt lines, which count the timer, pass
  line 1 to the keyboard, and acknowledge at the controller.
\<close>

section \<open>Exceptions\<close>

datatype ExceptionType = DivideByZero | Debug | NonMaskableInterrupt | Breakpoint | OverflowException | BoundRangeExceeded | InvalidOpcode
  | DeviceNotAvailable | DoubleFault | CoprocessorSegmentOverrun | InvalidTSS | SegmentNotPresent | StackSegmentFault | GeneralProtectionFault
  | PageFault | Reserved | FloatingPointException | AlignmentCheck | MachineCheck | SIMDException | VirtualizationException
  | ControlProtectionException

text \<open>The enumerators in order; \<open>Sentinel\<close>, the last one, is their number.\<close>

definition exception_types :: "ExceptionType list" where
  "exception_types = [DivideByZero, Debug, NonMaskableInterrupt, Breakpoint, OverflowException, BoundRangeExceeded, InvalidOpcode,
     DeviceNotAvailable, DoubleFault, CoprocessorSegmentOverrun, InvalidTSS, SegmentNotPresent, StackSegmentFault, GeneralProtectionFault,
     PageFault, Reserved, FloatingPointException, AlignmentCheck, MachineCheck, SIMDException, VirtualizationException,
     ControlProtectionException]"

definition exception_name :: "ExceptionType \<Rightarrow> string" where
  "exception_name t = (case t of
     DivideByZero \<Rightarrow> ''Division By Zero'' | Debug \<Rightarrow> ''Debug'' | NonMaskableInterrupt \<Rightarrow> ''Non Maskable Interrupt'' | Breakpoint \<Rightarrow> ''Breakpoint''
   | OverflowException \<Rightarrow> ''Into Detected Overflow'' | BoundRangeExceeded \<Rightarrow> ''Bound Range Exceeded'' | InvalidOpcode \<Rightarrow> ''Invalid Opcode''
   | DeviceNotAvailable \<Rightarrow> ''Device Not Available'' | DoubleFault \<Rightarrow> ''Double Fault'' | CoprocessorSegmentOverrun \<Rightarrow> ''Coprocessor Segment Overrun''
   | InvalidTSS \<Rightarrow> ''Invalid TSS'' | SegmentNotPresent \<Rightarrow> ''Segment Not Present'' | StackSegmentFault \<Rightarrow> ''Stack-Segment Fault''
   | GeneralProtectionFault \<Rightarrow> ''General Protection Fault'' | PageFault \<Rightarrow> ''Page Fault'' | Reserved \<Rightarrow> ''Reserved''
   | FloatingPointException \<Rightarrow> ''x87 Floating-Point Exception'' | AlignmentCheck \<Rightarrow> ''Alignment Check'' | MachineCheck \<Rightarrow> ''Machine Check''
   | SIMDException \<Rightarrow> ''SIMD Floating-Point Exception'' | VirtualizationException \<Rightarrow> ''Virtualization Exception''
   | ControlProtectionException \<Rightarrow> ''Control Protection Exception'')"

text \<open>The part of the saved registers the handler reads.\<close>

record register_state =
  rs_int_no :: u64
  rs_err_code :: u64
  rs_rip :: u64
  rs_cs :: u64
  rs_rflags :: u64
  rs_rsp :: u64
  rs_ss :: u64

definition name_of :: "u64 \<Rightarrow> string" where
  "name_of int_no =
     (if int_no < of_nat (length exception_types) then exception_name (exception_types ! unat int_no) else ''Unknown Exception'')"

text \<open>
  What the handler prints before it halts; \<open>cr2\<close> is the address of a page fault. \<open>None\<close> would be a format whose
  arguments do not fit.
\<close>

definition isr_common_handler :: "u64 \<Rightarrow> register_state \<Rightarrow> console \<Rightarrow> console option" where
  "isr_common_handler cr2 regs c =
     (case console_printf (ascii ''**Exception **'') [] (console_set_color White Red c) of None \<Rightarrow> None | Some c1 \<Rightarrow>
      case console_printf (ascii ('': %s'' @ [CHR 10])) [Str (ascii (name_of (rs_int_no regs)))] c1 of None \<Rightarrow> None | Some c2 \<Rightarrow>
      case console_printf (ascii (''RIP: 0x%016lx, CS=0x%016lx, RFLAGS=0x%016lx'' @ [CHR 10]))
          [Int64 (rs_rip regs), Int64 (rs_cs regs), Int64 (rs_rflags regs)] c2 of None \<Rightarrow> None | Some c3 \<Rightarrow>
      case console_printf (ascii (''RSP: 0x%016lx, SS=0x%016lx, ERR=0x%lx, INT=%lu'' @ [CHR 10]))
          [Int64 (rs_rsp regs), Int64 (rs_ss regs), Int64 (rs_err_code regs), Int64 (rs_int_no regs)] c3 of None \<Rightarrow> None | Some c4 \<Rightarrow>
      if rs_int_no regs = 14 then console_printf (ascii (''Page Fault Address: 0x%016lx'' @ [CHR 10])) [Int64 cr2] c4 else Some c4)"

section \<open>Interrupt lines\<close>

definition irq0_handler :: "'d ports \<Rightarrow> u64 \<times> 'd \<Rightarrow> u64 \<times> 'd" where
  "irq0_handler P s = (case s of (timer_ticks, d) \<Rightarrow> (timer_ticks + 1, send_eoi P 0 d))"

definition irq_handler :: "'d ports \<Rightarrow> u64 \<Rightarrow> kbd \<times> 'd \<Rightarrow> kbd \<times> 'd" where
  "irq_handler P irq_number s =
     (case s of (k, d) \<Rightarrow>
      case (if irq_number = 1 then handle_irq P k d else (k, d)) of (k1, d1) \<Rightarrow> (k1, send_eoi P (ucast irq_number) d1))"

section \<open>Properties\<close>

text \<open>
  The conversions of the report, after literal text: a 64-bit hexadecimal number of 16 digits, one without padding, a
  decimal one, a string.
\<close>

lemma no_percent: "CHR ''%'' \<notin> set s \<Longrightarrow> 37 \<notin> set (ascii s)"
proof -
  have "c = CHR ''%''" if "of_char c = (37 :: u8)" for c :: char
  proof -
    have "of_nat (of_char c) = (of_nat 37 :: u8)" using that by (simp add: of_nat_of_char)
    then have "take_bit 8 (of_char c :: nat) = take_bit 8 37" unfolding word_of_nat_eq_iff by simp
    moreover have "(of_char c :: nat) < 256" by (rule nat_of_char_less_256)
    ultimately have "(of_char c :: nat) = of_char CHR ''%''" by (simp add: take_bit_eq_mod)
    then show ?thesis by (simp only: of_char_eq_iff)
  qed
  then show "CHR ''%'' \<notin> set s \<Longrightarrow> 37 \<notin> set (ascii s)" by (auto simp: ascii_def)
qed

lemma vprintf_report:
  assumes "CHR ''%'' \<notin> set lit"
  shows "vprintf (ascii lit @ 37 # 48 # 49 # 54 # 108 # 120 # r) (Int64 v # as) =
      (case vprintf r as of Inl e \<Rightarrow> Inl e | Inr rest \<Rightarrow> Inr (ascii lit @ print_number v 16 16 48 @ rest))"
    "vprintf (ascii lit @ 37 # 108 # 120 # r) (Int64 v # as) =
      (case vprintf r as of Inl e \<Rightarrow> Inl e | Inr rest \<Rightarrow> Inr (ascii lit @ print_number v 16 0 32 @ rest))"
    "vprintf (ascii lit @ 37 # 108 # 117 # r) (Int64 v # as) =
      (case vprintf r as of Inl e \<Rightarrow> Inl e | Inr rest \<Rightarrow> Inr (ascii lit @ print_number v 10 0 32 @ rest))"
    "vprintf (ascii lit @ 37 # 115 # r) (Str s # as) = (case vprintf r as of Inl e \<Rightarrow> Inl e | Inr rest \<Rightarrow> Inr (ascii lit @ s @ rest))"
  by (simp_all add: vprintf_percent [OF no_percent [OF assms]] read_pad_def convert_def unsigned_arg_def)

definition hex16 :: "u64 \<Rightarrow> bytes" where
  "hex16 v = print_number v 16 16 48"

lemma report_lines:
  "console_printf (ascii ('': %s'' @ [CHR 10])) [Str s] c = Some (console_puts (ascii '': '' @ s @ [10]) c)"
  "console_printf (ascii (''RIP: 0x%016lx, CS=0x%016lx, RFLAGS=0x%016lx'' @ [CHR 10])) [Int64 rip, Int64 cs, Int64 fl] c =
     Some (console_puts (ascii ''RIP: 0x'' @ hex16 rip @ ascii '', CS=0x'' @ hex16 cs @ ascii '', RFLAGS=0x'' @ hex16 fl @ [10]) c)"
  "console_printf (ascii (''RSP: 0x%016lx, SS=0x%016lx, ERR=0x%lx, INT=%lu'' @ [CHR 10])) [Int64 rsp, Int64 ss, Int64 err, Int64 n] c =
     Some (console_puts (ascii ''RSP: 0x'' @ hex16 rsp @ ascii '', SS=0x'' @ hex16 ss @ ascii '', ERR=0x'' @ print_number err 16 0 32 @
       ascii '', INT='' @ print_number n 10 0 32 @ [10]) c)"
  "console_printf (ascii (''Page Fault Address: 0x%016lx'' @ [CHR 10])) [Int64 a] c = Some (console_puts (ascii ''Page Fault Address: 0x'' @ hex16 a @ [10]) c)"
proof -
  have nl: "vprintf [10] [] = Inr [10]" by (rule vprintf_literal) simp
  have 1: "ascii ('': %s'' @ [CHR 10]) = ascii '': '' @ 37 # 115 # [10]"
    and 2: "ascii (''RIP: 0x%016lx, CS=0x%016lx, RFLAGS=0x%016lx'' @ [CHR 10]) =
      ascii ''RIP: 0x'' @ 37 # 48 # 49 # 54 # 108 # 120 # ascii '', CS=0x'' @ 37 # 48 # 49 # 54 # 108 # 120 # ascii '', RFLAGS=0x'' @
        37 # 48 # 49 # 54 # 108 # 120 # [10]"
    and 3: "ascii (''RSP: 0x%016lx, SS=0x%016lx, ERR=0x%lx, INT=%lu'' @ [CHR 10]) =
      ascii ''RSP: 0x'' @ 37 # 48 # 49 # 54 # 108 # 120 # ascii '', SS=0x'' @ 37 # 48 # 49 # 54 # 108 # 120 # ascii '', ERR=0x'' @ 37 # 108 # 120 #
        ascii '', INT='' @ 37 # 108 # 117 # [10]"
    and 4: "ascii (''Page Fault Address: 0x%016lx'' @ [CHR 10]) = ascii ''Page Fault Address: 0x'' @ 37 # 48 # 49 # 54 # 108 # 120 # [10]"
    by simp_all
  show "console_printf (ascii ('': %s'' @ [CHR 10])) [Str s] c = Some (console_puts (ascii '': '' @ s @ [10]) c)"
    unfolding 1 console_printf_def by (simp add: vprintf_report nl del: ascii_simps)
  show "console_printf (ascii (''RIP: 0x%016lx, CS=0x%016lx, RFLAGS=0x%016lx'' @ [CHR 10])) [Int64 rip, Int64 cs, Int64 fl] c =
     Some (console_puts (ascii ''RIP: 0x'' @ hex16 rip @ ascii '', CS=0x'' @ hex16 cs @ ascii '', RFLAGS=0x'' @ hex16 fl @ [10]) c)"
    unfolding 2 console_printf_def by (simp add: vprintf_report nl hex16_def del: ascii_simps)
  show "console_printf (ascii (''RSP: 0x%016lx, SS=0x%016lx, ERR=0x%lx, INT=%lu'' @ [CHR 10])) [Int64 rsp, Int64 ss, Int64 err, Int64 n] c =
     Some (console_puts (ascii ''RSP: 0x'' @ hex16 rsp @ ascii '', SS=0x'' @ hex16 ss @ ascii '', ERR=0x'' @ print_number err 16 0 32 @
       ascii '', INT='' @ print_number n 10 0 32 @ [10]) c)"
    unfolding 3 console_printf_def by (simp add: vprintf_report nl hex16_def del: ascii_simps)
  show "console_printf (ascii (''Page Fault Address: 0x%016lx'' @ [CHR 10])) [Int64 a] c = Some (console_puts (ascii ''Page Fault Address: 0x'' @ hex16 a @ [10]) c)"
    unfolding 4 console_printf_def by (simp add: vprintf_report nl hex16_def del: ascii_simps)
qed

text \<open>
  The report of an exception is complete for every vector and every register contents: the formats fit their
  arguments, the name is the one of the vector or \<open>Unknown Exception\<close>, every 64-bit register is printed with
  16 digits, and a page fault adds the address.
\<close>

theorem isr_report:
  "\<exists>c'. isr_common_handler cr2 regs c = Some c' \<and> co_color c' = (White, Red) \<and>
     co_out c' = co_out c @ ascii ''**Exception **'' @ ascii '': '' @ ascii (name_of (rs_int_no regs)) @ [10] @
       ascii ''RIP: 0x'' @ hex16 (rs_rip regs) @ ascii '', CS=0x'' @ hex16 (rs_cs regs) @ ascii '', RFLAGS=0x'' @ hex16 (rs_rflags regs) @ [10] @
       ascii ''RSP: 0x'' @ hex16 (rs_rsp regs) @ ascii '', SS=0x'' @ hex16 (rs_ss regs) @ ascii '', ERR=0x'' @ print_number (rs_err_code regs) 16 0 32 @
       ascii '', INT='' @ print_number (rs_int_no regs) 10 0 32 @ [10] @
       (if rs_int_no regs = 14 then ascii ''Page Fault Address: 0x'' @ hex16 cr2 @ [10] else [])"
proof -
  have first: "console_printf (ascii ''**Exception **'') [] d = Some (console_puts (ascii ''**Exception **'') d)" for d
    by (rule console_printf_literal) simp
  show ?thesis
    unfolding isr_common_handler_def first option.case report_lines
    by (cases "rs_int_no regs = 14") (simp_all add: console_puts_def console_set_color_def del: ascii_simps)
qed

lemma name_of_vectors: "name_of 14 = ''Page Fault''" "name_of 13 = ''General Protection Fault''" "22 \<le> n \<Longrightarrow> name_of n = ''Unknown Exception''"
  by (simp_all add: name_of_def exception_types_def exception_name_def not_less [symmetric])

text \<open>
  Every interrupt line is acknowledged exactly once at the first controller and, from line 8 on, also at the
  second, and the timer handler counts one tick.
\<close>

lemma irq_acknowledged:
  assumes "pic_wired P m s" "irq < 16"
  shows "eois (m (snd (irq_handler P irq (k, d)))) = eois (m (if irq = 1 then snd (handle_irq P k d) else d)) + 1"
    "eois (s (snd (irq_handler P irq (k, d)))) = eois (s (if irq = 1 then snd (handle_irq P k d) else d)) + (if irq \<ge> 8 then 1 else 0)"
    "irq0_handler P (t, d) = (t + 1, snd (irq0_handler P (t, d))) \<and> eois (m (snd (irq0_handler P (t, d)))) = eois (m d) + 1"
proof -
  have u: "(ucast irq :: u8) \<ge> 8 \<longleftrightarrow> irq \<ge> 8"
    using assms(2) by (simp add: word_le_nat_alt word_less_nat_alt unsigned_ucast_eq take_bit_nat_eq_self)
  show "eois (m (snd (irq_handler P irq (k, d)))) = eois (m (if irq = 1 then snd (handle_irq P k d) else d)) + 1"
    "eois (s (snd (irq_handler P irq (k, d)))) = eois (s (if irq = 1 then snd (handle_irq P k d) else d)) + (if irq \<ge> 8 then 1 else 0)"
    "irq0_handler P (t, d) = (t + 1, snd (irq0_handler P (t, d))) \<and> eois (m (snd (irq0_handler P (t, d)))) = eois (m d) + 1"
    using send_eoi_effect [OF assms(1)] u by (auto simp: irq_handler_def irq0_handler_def split: prod.split)
qed

end
