(* ===== verification/System_Call.thy ===== *)
theory System_Call
  imports Process_Steps Segment_Tables
begin

text \<open>
  System calls (\<open>include/systemcall.cpp\<close>): the handler the assembly entry calls with the saved registers,
  the dispatch on the number, and the calls themselves over the process table and the open files.
  A call that gives the processor away does not return to its caller at once, so the outcome of a
  call is a value or \<open>Switched\<close>; the outer \<open>None\<close> is a call that never gets further (the machine halts, a
  console read runs out of interrupts, an allocation does not return).
\<close>

section \<open>State\<close>

text \<open>
  \<open>m_user\<close> is the memory of the running process as its page tables show it. The calls use the pointers they
  get without a check; here every address can be read and written, and lies outside the structures
  of the kernel. \<open>m_irqs\<close> are the interrupts to come, \<open>m_msr\<close> the model specific registers,
  \<open>m_console\<close> says whether \<open>syscall_console\<close> is set: it is then also the console of the open files, whose output is
  \<open>console_out\<close>.
\<close>

record 's machine =
  m_kernel :: "'s kernel"
  m_user :: "u64 \<Rightarrow> u8"
  m_irqs :: irqs
  m_msr :: "u32 \<Rightarrow> u64"
  m_console :: bool
  m_color :: "Color \<times> Color"

datatype outcome = Returns u64 | Switched

definition kRead :: u64 where "kRead = 0"
definition kWrite :: u64 where "kWrite = 1"
definition kClose :: u64 where "kClose = 3"
definition kFork :: u64 where "kFork = 57"
definition kExit :: u64 where "kExit = 60"
definition kWait :: u64 where "kWait = 61"

definition EFER :: u32 where "EFER = 0xC0000080"
definition STAR :: u32 where "STAR = 0xC0000081"
definition LSTAR :: u32 where "LSTAR = 0xC0000082"
definition FMASK :: u32 where "FMASK = 0xC0000084"

definition load_bytes :: "(u64 \<Rightarrow> u8) \<Rightarrow> u64 \<Rightarrow> nat \<Rightarrow> bytes" where
  "load_bytes m a n = map (\<lambda>i. m (a + of_nat i)) [0..<n]"

fun store_bytes :: "u64 \<Rightarrow> bytes \<Rightarrow> (u64 \<Rightarrow> u8) \<Rightarrow> (u64 \<Rightarrow> u8)" where
  "store_bytes a [] m = m"
| "store_bytes a (b # bs) m = store_bytes (a + 1) bs (m(a := b))"

definition set_fs :: "'s filesys \<Rightarrow> 's machine \<Rightarrow> 's machine" where
  "set_fs s m = m\<lparr>m_kernel := (m_kernel m)\<lparr>k_fs := s\<rparr>\<rparr>"

text \<open>Output on the console of the system calls; \<open>None\<close> without one (a null dereference) or for a bad format.\<close>

definition sys_print :: "Color \<Rightarrow> bytes \<Rightarrow> arg list \<Rightarrow> 's machine \<Rightarrow> 's machine option" where
  "sys_print colour fmt as m =
     (if \<not> m_console m then None
      else (case vprintf fmt as of
          Inl e \<Rightarrow> None
        | Inr out \<Rightarrow> let s = k_fs (m_kernel m) in Some ((set_fs (s\<lparr>console_out := console_out s @ out\<rparr>) m)\<lparr>m_color := (colour, Black)\<rparr>)))"

definition reset_color :: "'s machine \<Rightarrow> 's machine" where
  "reset_color m = m\<lparr>m_color := (LightGrey, Black)\<rparr>"

section \<open>The calls\<close>

definition lookup_file :: "u64 \<Rightarrow> 's kernel \<Rightarrow> nat option" where
  "lookup_file fd k =
     (case k_current k of
        None \<Rightarrow> None
      | Some p \<Rightarrow> if fd \<ge> of_nat (length (pr_files (k_procs k ! p))) then None else pr_files (k_procs k ! p) ! unat fd)"

definition count_result :: "u32 option \<Rightarrow> u64" where
  "count_result r = (case r of Some n \<Rightarrow> ucast n | None \<Rightarrow> - 1)"

definition sys_read :: "u64 \<Rightarrow> u64 \<Rightarrow> u64 \<Rightarrow> 's machine \<Rightarrow> (outcome \<times> 's machine) option" where
  "sys_read fd buffer len m =
     (case lookup_file fd (m_kernel m) of
        None \<Rightarrow> Some (Returns (- 1), m)
      | Some file \<Rightarrow>
          if len > 0xFFFFFFFF then Some (Returns (- 1), m)
          else (case file_read file (ucast len) (m_irqs m) (k_fs (m_kernel m)) of
              None \<Rightarrow> None
            | Some (done, out, es, s) \<Rightarrow>
                Some (Returns (count_result done), (set_fs s m)\<lparr>m_user := store_bytes buffer out (m_user m), m_irqs := es\<rparr>)))"

definition sys_write :: "u64 \<Rightarrow> u64 \<Rightarrow> u64 \<Rightarrow> 's machine \<Rightarrow> (outcome \<times> 's machine) option" where
  "sys_write fd buffer len m =
     (case lookup_file fd (m_kernel m) of
        None \<Rightarrow> Some (Returns (- 1), m)
      | Some file \<Rightarrow>
          if len > 0xFFFFFFFF then Some (Returns (- 1), m)
          else (case file_write file (load_bytes (m_user m) buffer (unat len)) (ucast len) (k_fs (m_kernel m)) of
              None \<Rightarrow> None
            | Some (done, s) \<Rightarrow> Some (Returns (count_result done), set_fs s m)))"

definition sys_close :: "u64 \<Rightarrow> 's machine \<Rightarrow> (outcome \<times> 's machine) option" where
  "sys_close fd m =
     (case (k_current (m_kernel m), lookup_file fd (m_kernel m)) of
        (Some p, Some file) \<Rightarrow>
          let k1 = set_fd p (unat fd) None (m_kernel m);
              k2 = k1\<lparr>k_fs := file_close (Some file) (k_fs k1)\<rparr>
          in Some (Returns 0, m\<lparr>m_kernel := k2\<rparr>)
      | _ \<Rightarrow> Some (Returns (- 1), m))"

definition sys_exit :: "u64 \<Rightarrow> 's machine \<Rightarrow> (outcome \<times> 's machine) option" where
  "sys_exit code m =
     (case sys_print Yellow (ascii (CHR 10 # ''[SYS]  exit(%u) called'' @ [CHR 10])) [Int32 (ucast code)] m of
        None \<Rightarrow> None
      | Some m1 \<Rightarrow>
          let m2 = reset_color m1 in
          (case process_exit (ucast code) (m_kernel m2) of
             None \<Rightarrow> None
           | Some k \<Rightarrow> Some (Switched, m2\<lparr>m_kernel := k\<rparr>)))"

text \<open>\<open>fork_return\<close>, \<open>snap\<close> and \<open>caller_rsp\<close> are the assembly's part of \<open>fork\<close>, \<open>saved\<close> of a switch.\<close>

definition sys_fork :: "u64 \<Rightarrow> ProcessContext \<Rightarrow> u64 \<Rightarrow> 's machine \<Rightarrow> (outcome \<times> 's machine) option" where
  "sys_fork fork_return snap caller_rsp m =
     (case fork fork_return snap caller_rsp (m_kernel m) of
        None \<Rightarrow> None
      | Some (pid, k) \<Rightarrow> Some (Returns (scast pid), m\<lparr>m_kernel := k\<rparr>))"

text \<open>One round of \<open>wait\<close>; a process that went to sleep goes on with \<open>sys_wait_resume\<close> when it runs again.\<close>

definition sys_wait :: "u64 \<Rightarrow> u64 \<Rightarrow> 's machine \<Rightarrow> (outcome \<times> 's machine) option" where
  "sys_wait saved status_ptr m =
     (case wait_round saved (m_kernel m) of
        (Reaped pid status, k) \<Rightarrow>
          Some (Returns pid, m\<lparr>m_kernel := k, m_user := if status_ptr \<noteq> 0 then store_bytes status_ptr (le_bytes 4 status) (m_user m) else m_user m\<rparr>)
      | (NoChild, k) \<Rightarrow> Some (Returns (- 1), m\<lparr>m_kernel := k\<rparr>)
      | (Asleep, k) \<Rightarrow> Some (Switched, m\<lparr>m_kernel := k\<rparr>))"

definition sys_wait_resume :: "nat \<Rightarrow> u64 \<Rightarrow> u64 \<Rightarrow> 's machine \<Rightarrow> (outcome \<times> 's machine) option" where
  "sys_wait_resume i saved status_ptr m = sys_wait saved status_ptr (m\<lparr>m_kernel := sleep_resume i (m_kernel m)\<rparr>)"

section \<open>Dispatch and entry\<close>

record asm =
  as_fork_return :: u64
  as_snap :: ProcessContext
  as_caller_rsp :: u64
  as_saved :: u64

definition syscall_dispatch :: "asm \<Rightarrow> u64 \<Rightarrow> u64 \<Rightarrow> u64 \<Rightarrow> u64 \<Rightarrow> 's machine \<Rightarrow> (outcome \<times> 's machine) option" where
  "syscall_dispatch A num a1 a2 a3 m =
     (if num = kRead then sys_read a1 a2 a3 m
      else if num = kWrite then sys_write a1 a2 a3 m
      else if num = kClose then sys_close a1 m
      else if num = kFork then sys_fork (as_fork_return A) (as_snap A) (as_caller_rsp A) m
      else if num = kWait then sys_wait (as_saved A) a1 m
      else if num = kExit then sys_exit a1 m
      else (case sys_print LightRed (ascii (''[SYS]  unknown syscall %u'' @ [CHR 10])) [Int32 (ucast num)] m of
          None \<Rightarrow> None
        | Some m1 \<Rightarrow> Some (Returns (- 1), reset_color m1)))"

text \<open>The registers are in the frame at \<open>tf\<close> on the kernel stack; the result goes back into its \<open>rax\<close>.\<close>

definition handle_syscall :: "asm \<Rightarrow> u64 \<Rightarrow> 's machine \<Rightarrow> (outcome \<times> 's machine) option" where
  "handle_syscall A tf m =
     (let k = m_kernel m;
          k1 = (case k_current k of None \<Rightarrow> k | Some p \<Rightarrow> set_proc p (\<lambda>q. q\<lparr>pr_trap_frame := tf\<rparr>) k);
          r = load_frame (k_stacks k1) tf
      in case syscall_dispatch A (tf_rax r) (tf_rdi r) (tf_rsi r) (tf_rdx r) (m\<lparr>m_kernel := k1\<rparr>) of
           None \<Rightarrow> None
         | Some (Switched, m1) \<Rightarrow> Some (Switched, m1)
         | Some (Returns ret, m1) \<Rightarrow>
             Some (Returns ret, m1\<lparr>m_kernel := (m_kernel m1)\<lparr>k_stacks := (k_stacks (m_kernel m1))(tf + 80 := ret)\<rparr>\<rparr>))"

definition wrmsr :: "u32 \<Rightarrow> u64 \<Rightarrow> 's machine \<Rightarrow> 's machine" where
  "wrmsr r v m = m\<lparr>m_msr := (m_msr m)(r := v)\<rparr>"

text \<open>\<open>console\<close> and \<open>serial\<close> say which of the two are not null, \<open>syscall_entry\<close> is the address of the assembly entry.\<close>

definition system_call_init :: "bool \<Rightarrow> bool \<Rightarrow> u64 \<Rightarrow> 's machine \<Rightarrow> 's machine option" where
  "system_call_init console serial syscall_entry m =
     (let m1 = (set_fs (file_set_console (console \<or> serial) (k_fs (m_kernel m))) m)\<lparr>m_console := console \<or> serial\<rparr>;
          m2 = wrmsr EFER (m_msr m1 EFER OR 1) m1;
          kSyscallBase = (ucast kKernelCode :: u64);
          kSysretBase = ucast ((kUserData AND NOT 3) - 8) :: u64;
          m3 = wrmsr STAR (push_bit 32 kSyscallBase OR push_bit 48 kSysretBase) m2;
          m4 = wrmsr LSTAR syscall_entry m3;
          m5 = wrmsr FMASK (push_bit 9 1) m4
      in case sys_print LightGreen (ascii ''[SYS]  '') [] m5 of
           None \<Rightarrow> None
         | Some m6 \<Rightarrow> sys_print LightGrey (ascii (''syscall enabled  LSTAR=0x%x'' @ [CHR 10])) [Int32 (ucast syscall_entry)] m6)"

section \<open>Reads and writes keep the references\<close>

lemma allocate_or_find_refcnt:
  assumes "allocate_or_find_block inode l s = (r, inode', s')"
  shows "in_refcnt inode' = in_refcnt inode"
  using assms unfolding allocate_or_find_block_def Let_def
  by (auto simp: set_addr_def split: if_splits prod.splits option.splits)

lemma write_loop_refcnt: "in_refcnt (fst (snd (write_loop inode source off count n s))) = in_refcnt inode"
proof (induction inode source off count n s rule: write_loop.induct)
  case (1 inode source off count n s)
  show ?case
  proof (cases "n < count")
    case True
    obtain r inode1 s1 where a: "allocate_or_find_block inode (containing (off + n)) s = (r, inode1, s1)" by (metis prod_cases3)
    note keep = allocate_or_find_refcnt [OF a]
    show ?thesis
    proof (cases r)
      case None
      then show ?thesis using True a keep by (subst write_loop.simps) (simp add: Let_def)
    next
      case (Some b)
      obtain ok s2 where u: "lift_store (\<lambda>bs. scoped_update bs b (splice (unat ((off + n) mod FSBLOCK_SIZE))
          (slice (unat n) (unat (chunk_size (off + n) count n)) source))) s1 = (ok, s2)" by fastforce
      note IH = 1 [OF True refl a [symmetric], unfolded Some, OF refl refl refl refl u [symmetric]]
      show ?thesis using True a keep Some u IH by (subst write_loop.simps) (auto simp: Let_def split: bool.split)
    qed
  qed (subst write_loop.simps, simp)
qed

lemma write_data_refcnt:
  assumes "write_data inode source off count s = (r, inode', s')"
  shows "in_refcnt inode' = in_refcnt inode"
proof -
  obtain n inode1 s1 where w: "write_loop inode source off count 0 s = (n, inode1, s1)" by (metis prod_cases3)
  have "in_refcnt inode1 = in_refcnt inode" using write_loop_refcnt [of inode source off count 0 s] w by simp
  then show ?thesis using assms w unfolding write_data_def Let_def by (auto split: if_splits prod.splits bool.splits)
qed

text \<open>Changes of the files that keep every reference.\<close>

definition same_refs :: "'s filesys \<Rightarrow> 's filesys \<Rightarrow> bool" where
  "same_refs s s' \<longleftrightarrow> length (file_table s') = length (file_table s) \<and> length (inode_table (disk s')) = length (inode_table (disk s)) \<and>
     (\<forall>i < NUM_FILES. f_refcnt (file_table s' ! i) = f_refcnt (file_table s ! i) \<and> f_inode (file_table s' ! i) = f_inode (file_table s ! i) \<and>
        (f_refcnt (file_table s ! i) = 0 \<longrightarrow> file_table s' ! i = file_table s ! i)) \<and>
     (\<forall>j < length (inode_table (disk s)). in_refcnt (inode_table (disk s') ! j) = in_refcnt (inode_table (disk s) ! j))"

lemma same_refs_ok:
  assumes "same_refs s s'" "files_ok s"
  shows "files_ok s'"
proof -
  have "holders s' j = holders s j" for j by (rule holders_cong) (use assms(1) in \<open>simp add: same_refs_def\<close>)
  then show ?thesis using assms unfolding same_refs_def files_ok_def by simp
qed

lemma same_refs_offset:
  assumes r: "same_refs s s1" and i: "i < NUM_FILES" "length (file_table s) = NUM_FILES" "0 < f_refcnt (file_table s ! i)"
  shows "same_refs s (upd_file i (\<lambda>f. f\<lparr>f_offset := x f\<rparr>) s1)"
proof -
  let ?s2 = "upd_file i (\<lambda>f. f\<lparr>f_offset := x f\<rparr>) s1"
  have l: "i < length (file_table s1)" using r i by (simp add: same_refs_def)
  have "f_refcnt (file_table ?s2 ! j) = f_refcnt (file_table s ! j) \<and> f_inode (file_table ?s2 ! j) = f_inode (file_table s ! j) \<and>
      (f_refcnt (file_table s ! j) = 0 \<longrightarrow> file_table ?s2 ! j = file_table s ! j)" if "j < NUM_FILES" for j
    using l r that i(3) by (cases "j = i") (simp_all add: same_refs_def)
  then show ?thesis using r by (simp add: same_refs_def)
qed

lemma file_read_refs:
  assumes r: "file_read i count es s = Some (n, out, es', s')" and i: "i < NUM_FILES" "length (file_table s) = NUM_FILES" "0 < f_refcnt (file_table s ! i)"
  shows "same_refs s s'"
proof -
  have 1: "same_refs s s" "same_refs s (s\<lparr>keyb := k\<rparr>)" "same_refs s (s\<lparr>disk := (disk s)\<lparr>fsys_fs := t\<rparr>\<rparr>)" for k t by (simp_all add: same_refs_def)
  note 2 = same_refs_offset [OF 1(3) i]
  show ?thesis using r 1 2 unfolding file_read_def Let_def
    by (auto split: if_splits FileType.splits option.splits prod.splits)
qed

lemma file_write_refs:
  assumes r: "file_write i source count s = Some (n, s')" and i: "i < NUM_FILES" "length (file_table s) = NUM_FILES" "0 < f_refcnt (file_table s ! i)"
  shows "same_refs s s'"
proof -
  have 1: "same_refs s s" "same_refs s (s\<lparr>console_out := c\<rparr>)" for c by (simp_all add: same_refs_def)
  have 3: "same_refs s (s\<lparr>disk := upd_inode j (\<lambda>_. inode) ((disk s)\<lparr>fsys_fs := t\<rparr>)\<rparr>)"
    if "write_data (inode_table (disk s) ! j) source off count (fsys_fs (disk s)) = (n', inode, t)" for j off n' inode t
    using write_data_refcnt [OF that] by (auto simp: same_refs_def upd_inode_def nth_upd_at)
  note 4 = same_refs_offset [OF 3 i]
  show ?thesis using r 1 3 4 unfolding file_write_def Let_def
    by (auto split: if_splits FileType.splits option.splits prod.splits)
qed

section \<open>Every call keeps the invariant of the kernel\<close>

lemma table_ok_fs:
  assumes "table_ok k" "same_refs (k_fs k) s"
  shows "table_ok (k\<lparr>k_fs := s\<rparr>)"
proof -
  note ok = table_okD [OF assms(1)]
  have "fd_refs (k\<lparr>k_fs := s\<rparr>) f = fd_refs k f" for f by (rule fd_refs_cong) simp
  then have "fds_ok (k\<lparr>k_fs := s\<rparr>)" using ok(1) same_refs_ok [OF assms(2)] assms(2) unfolding fds_ok_def same_refs_def by simp
  moreover have "unused_clean (k\<lparr>k_fs := s\<rparr>)" "running_ok (k\<lparr>k_fs := s\<rparr>)" using ok(2,4) by (simp_all add: unused_clean_def running_ok_def)
  moreover have "family_ok (k\<lparr>k_fs := s\<rparr>)" by (rule family_mild [OF ok(3)]) (simp add: mild_def)
  ultimately show ?thesis by (simp add: table_ok_def)
qed

text \<open>Changes beside the table and the files.\<close>

lemma table_ok_same:
  assumes "table_ok k" "k_fs k' = k_fs k" "k_current k' = k_current k" "k_init_proc k' = k_init_proc k" "length (k_procs k') = length (k_procs k)"
    "\<And>j. j < length (k_procs k) \<Longrightarrow> pr_files (k_procs k' ! j) = pr_files (k_procs k ! j) \<and> st k' j = st k j \<and> par k' j = par k j \<and> chan k' j = chan k j"
  shows "table_ok k'"
proof -
  note ok = table_okD [OF assms(1)]
  have q: "quiet k k'" using assms(2-) by (simp add: quiet_def mild_def)
  have "running_ok k'" using ok(4) assms(3,6) fds_okD(1) [OF ok(1)] by (simp add: running_ok_def)
  then show ?thesis using quiet_ok [OF q ok(1-3)] by (simp add: table_ok_def)
qed

lemma lookup_file_Some:
  assumes ok: "table_ok k" and f: "lookup_file fd k = Some fl"
  obtains p where "k_current k = Some p" "p < MAX_PROCESSES" "unat fd < NUM_OPEN_FILES" "pr_files (k_procs k ! p) ! unat fd = Some fl"
    "fl < NUM_FILES" "length (file_table (k_fs k)) = NUM_FILES" "0 < f_refcnt (file_table (k_fs k) ! fl)"
proof -
  note fd = fds_okD [OF table_okD(1) [OF ok]]
  obtain p where p: "k_current k = Some p" "\<not> fd \<ge> of_nat (length (pr_files (k_procs k ! p)))" "pr_files (k_procs k ! p) ! unat fd = Some fl"
    using f by (auto simp: lookup_file_def split: option.splits if_splits)
  have r: "p < MAX_PROCESSES" using running_okD(1) [OF table_okD(4) [OF ok] p(1)] by simp
  have n: "unat fd < NUM_OPEN_FILES" using p(2) fd(2) [OF r] by (simp add: word_le_nat_alt NUM_OPEN_FILES_def)
  have fl: "fl < NUM_FILES" by (rule fd(4) [OF r n p(3)])
  have "0 < f_refcnt (file_table (k_fs k) ! fl)" unfolding fd(5) [OF fl] by (rule fd_refs_pos [OF r n p(3)])
  then show thesis using that p(1,3) r n fl files_okD(1) [OF fd(3)] by blast
qed

lemma sys_close_close_fd:
  assumes "k_current k = Some p" "p < length (k_procs k)" "pr_files (k_procs k ! p) ! n = Some fl"
  shows "(set_fd p n None k)\<lparr>k_fs := file_close (Some fl) (k_fs (set_fd p n None k))\<rparr> = close_fd p n k"
  using assms by (simp add: set_fd_def close_fd_def set_proc_def)

text \<open>What a call leaves: the invariant, and the caller running unless it gave the processor away.\<close>

definition call_ok :: "nat \<Rightarrow> (outcome \<times> 's machine) \<Rightarrow> bool" where
  "call_ok p rm \<longleftrightarrow> table_ok (m_kernel (snd rm)) \<and> (\<forall>v. fst rm = Returns v \<longrightarrow> k_current (m_kernel (snd rm)) = Some p)"

lemma sys_read_ok:
  assumes ok: "table_ok (m_kernel m)" "k_current (m_kernel m) = Some p" and r: "sys_read fd a n m = Some rm"
  shows "call_ok p rm"
proof (cases "lookup_file fd (m_kernel m)")
  case (Some fl)
  obtain x where f: "fl < NUM_FILES" "length (file_table (k_fs (m_kernel m))) = NUM_FILES" "0 < f_refcnt (file_table (k_fs (m_kernel m)) ! fl)"
    by (rule lookup_file_Some [OF ok(1) Some])
  show ?thesis using r Some ok table_ok_fs [OF ok(1) file_read_refs [OF _ f]]
    by (auto simp: sys_read_def call_ok_def set_fs_def split: if_splits option.splits prod.splits)
qed (use assms in \<open>auto simp: sys_read_def call_ok_def\<close>)

lemma sys_write_ok:
  assumes ok: "table_ok (m_kernel m)" "k_current (m_kernel m) = Some p" and r: "sys_write fd a n m = Some rm"
  shows "call_ok p rm"
proof (cases "lookup_file fd (m_kernel m)")
  case (Some fl)
  obtain x where f: "fl < NUM_FILES" "length (file_table (k_fs (m_kernel m))) = NUM_FILES" "0 < f_refcnt (file_table (k_fs (m_kernel m)) ! fl)"
    by (rule lookup_file_Some [OF ok(1) Some])
  show ?thesis using r Some ok table_ok_fs [OF ok(1) file_write_refs [OF _ f]]
    by (auto simp: sys_write_def call_ok_def set_fs_def split: if_splits option.splits prod.splits)
qed (use assms in \<open>auto simp: sys_write_def call_ok_def\<close>)

lemma sys_close_ok:
  assumes ok: "table_ok (m_kernel m)" "k_current (m_kernel m) = Some p" and r: "sys_close fd m = Some rm"
  shows "call_ok p rm"
proof (cases "lookup_file fd (m_kernel m)")
  case (Some fl)
  obtain q where f: "k_current (m_kernel m) = Some q" "q < MAX_PROCESSES" "unat fd < NUM_OPEN_FILES" "pr_files (k_procs (m_kernel m) ! q) ! unat fd = Some fl"
    by (rule lookup_file_Some [OF ok(1) Some])
  have q: "q = p" "p < length (k_procs (m_kernel m))" using f ok fds_okD(1) [OF table_okD(1) [OF ok(1)]] by simp_all
  have "snd rm = m\<lparr>m_kernel := close_fd p (unat fd) (m_kernel m)\<rparr>"
    using r Some ok(2) sys_close_close_fd [OF ok(2) q(2)] f(4) q(1) by (auto simp: sys_close_def Let_def)
  then show ?thesis using close_fd_table_ok [OF ok f(3)] close_fd_simps(2) [OF q(2)] ok(2) by (simp add: call_ok_def)
qed (use assms in \<open>auto simp: sys_close_def call_ok_def\<close>)

lemma sys_print_refs:
  assumes "sys_print colour fmt as m = Some m1"
  shows "\<exists>s. same_refs (k_fs (m_kernel m)) s \<and> m_kernel m1 = (m_kernel m)\<lparr>k_fs := s\<rparr>"
proof -
  obtain out where e: "m_kernel m1 = (m_kernel m)\<lparr>k_fs := (k_fs (m_kernel m))\<lparr>console_out := console_out (k_fs (m_kernel m)) @ out\<rparr>\<rparr>"
    using assms by (auto simp: sys_print_def set_fs_def Let_def split: if_splits sum.splits)
  have "same_refs (k_fs (m_kernel m)) ((k_fs (m_kernel m))\<lparr>console_out := console_out (k_fs (m_kernel m)) @ out\<rparr>)" by (simp add: same_refs_def)
  then show ?thesis using e by blast
qed

lemma sys_exit_ok:
  assumes ok: "table_ok (m_kernel m)" "k_current (m_kernel m) = Some p" "k_init_proc (m_kernel m) \<noteq> Some p" and r: "sys_exit code m = Some rm"
  shows "call_ok p rm"
proof -
  obtain m1 k where m1: "sys_print Yellow (ascii (CHR 10 # ''[SYS]  exit(%u) called'' @ [CHR 10])) [Int32 (ucast code)] m = Some m1"
    and k: "process_exit (ucast code) (m_kernel m1) = Some k" and rm: "rm = (Switched, (reset_color m1)\<lparr>m_kernel := k\<rparr>)"
    using r by (auto simp: sys_exit_def Let_def reset_color_def split: option.splits)
  obtain s where s: "same_refs (k_fs (m_kernel m)) s" "m_kernel m1 = (m_kernel m)\<lparr>k_fs := s\<rparr>" using sys_print_refs [OF m1] by blast
  show ?thesis using exit_ok [OF table_ok_fs [OF ok(1) s(1)] _ _ k [unfolded s(2)]] ok(2,3) by (simp add: call_ok_def rm)
qed

lemma sys_fork_ok:
  assumes ok: "table_ok (m_kernel m)" "k_current (m_kernel m) = Some p" and r: "sys_fork fr snap sp m = Some rm"
  shows "call_ok p rm"
proof -
  obtain x k where f: "fork fr snap sp (m_kernel m) = Some (x, k)" and rm: "rm = (Returns (scast x), m\<lparr>m_kernel := k\<rparr>)"
    using r by (auto simp: sys_fork_def split: option.splits)
  have p: "p < MAX_PROCESSES" "st (m_kernel m) p \<noteq> Unused" using running_okD(1) [OF table_okD(4) [OF ok(1)] ok(2)] by simp_all
  have "k_current k = k_current (m_kernel m)"
    using fork_effect [OF table_okD(1,2) [OF ok(1)] ok(2) p f] by (auto simp: failed_process_def born_def only_slot_def)
  then show ?thesis using fork_ok [OF ok(1) f] ok(2) by (simp add: call_ok_def rm)
qed

lemma sys_wait_ok:
  assumes ok: "table_ok (m_kernel m)" "k_current (m_kernel m) = Some p" and r: "sys_wait saved ptr m = Some rm"
  shows "call_ok p rm"
proof -
  obtain w k where w: "wait_round saved (m_kernel m) = (w, k)" by fastforce
  have t: "table_ok k" by (rule wait_ok [OF ok w])
  have "k_current k = Some p" if "w \<noteq> Asleep"
  proof -
    have "k = m_kernel m \<or> (\<exists>i < MAX_PROCESSES. k = free_process_resources i (m_kernel m))"
      using w that fds_okD(1) [OF table_okD(1) [OF ok(1)]] find_Some_props [where xs = "[0..<length (k_procs (m_kernel m))]"]
      unfolding wait_round_def Let_def by (force split: option.splits if_splits)
    then show ?thesis using ok(2) free_effect(2) [OF table_okD(1) [OF ok(1)]] by (auto simp: only_slot_def)
  qed
  then show ?thesis using r t w by (cases w) (auto simp: sys_wait_def call_ok_def)
qed

lemma dispatch_number:
  "syscall_dispatch A kRead a1 a2 a3 m = sys_read a1 a2 a3 m" "syscall_dispatch A kWrite a1 a2 a3 m = sys_write a1 a2 a3 m"
  "syscall_dispatch A kClose a1 a2 a3 m = sys_close a1 m"
  "syscall_dispatch A kFork a1 a2 a3 m = sys_fork (as_fork_return A) (as_snap A) (as_caller_rsp A) m"
  "syscall_dispatch A kWait a1 a2 a3 m = sys_wait (as_saved A) a1 m" "syscall_dispatch A kExit a1 a2 a3 m = sys_exit a1 m"
  by (simp_all add: syscall_dispatch_def kRead_def kWrite_def kClose_def kFork_def kWait_def kExit_def)

lemma syscall_dispatch_ok:
  assumes ok: "table_ok (m_kernel m)" "k_current (m_kernel m) = Some p" and i: "num = kExit \<Longrightarrow> k_init_proc (m_kernel m) \<noteq> Some p"
    and r: "syscall_dispatch A num a1 a2 a3 m = Some rm"
  shows "call_ok p rm"
proof -
  consider "num = kRead" | "num = kWrite" | "num = kClose" | "num = kFork" | "num = kWait" | "num = kExit"
    | "num \<notin> {kRead, kWrite, kClose, kFork, kWait, kExit}" by blast
  then show ?thesis
  proof cases
    case 7
    then obtain m1 where m1: "sys_print LightRed (ascii (''[SYS]  unknown syscall %u'' @ [CHR 10])) [Int32 (ucast num)] m = Some m1"
      and rm: "rm = (Returns (- 1), reset_color m1)"
      using r by (auto simp: syscall_dispatch_def split: option.splits)
    obtain s where s: "same_refs (k_fs (m_kernel m)) s" "m_kernel m1 = (m_kernel m)\<lparr>k_fs := s\<rparr>" using sys_print_refs [OF m1] by blast
    show ?thesis using table_ok_fs [OF ok(1) s(1)] ok(2) by (simp add: call_ok_def rm reset_color_def s(2))
  next
    case 1 then show ?thesis using r sys_read_ok [OF ok] by (simp add: dispatch_number)
  next
    case 2 then show ?thesis using r sys_write_ok [OF ok] by (simp add: dispatch_number)
  next
    case 3 then show ?thesis using r sys_close_ok [OF ok] by (simp add: dispatch_number)
  next
    case 4 then show ?thesis using r sys_fork_ok [OF ok] by (simp add: dispatch_number)
  next
    case 5 then show ?thesis using r sys_wait_ok [OF ok] by (simp add: dispatch_number)
  next
    case 6 then show ?thesis using r sys_exit_ok [OF ok i] by (simp add: dispatch_number)
  qed
qed

lemma dispatch_switched:
  assumes "syscall_dispatch A num a1 a2 a3 m = Some (Switched, m')"
  shows "num = kWait \<or> num = kExit"
  using assms unfolding syscall_dispatch_def sys_read_def sys_write_def sys_close_def sys_fork_def Let_def
  by (auto split: if_splits option.splits prod.splits)

lemma entry_ok:
  assumes "table_ok k"
  shows "table_ok (set_proc p (\<lambda>q. q\<lparr>pr_trap_frame := tf\<rparr>) k)" "table_ok (k\<lparr>k_stacks := x\<rparr>)"
proof -
  have "pr_files (k_procs (set_proc p (\<lambda>q. q\<lparr>pr_trap_frame := tf\<rparr>) k) ! j) = pr_files (k_procs k ! j) \<and>
      st (set_proc p (\<lambda>q. q\<lparr>pr_trap_frame := tf\<rparr>) k) j = st k j \<and> par (set_proc p (\<lambda>q. q\<lparr>pr_trap_frame := tf\<rparr>) k) j = par k j \<and>
      chan (set_proc p (\<lambda>q. q\<lparr>pr_trap_frame := tf\<rparr>) k) j = chan k j" if "j < length (k_procs k)" for j
    using that by (cases "j = p") simp_all
  then show "table_ok (set_proc p (\<lambda>q. q\<lparr>pr_trap_frame := tf\<rparr>) k)" by (intro table_ok_same [OF assms]) simp_all
  show "table_ok (k\<lparr>k_stacks := x\<rparr>)" by (intro table_ok_same [OF assms]) simp_all
qed


section \<open>Rejected calls and console output\<close>

text \<open>The text of the message about an unknown number.\<close>

lemma unknown_message:
  "vprintf (ascii (''[SYS]  unknown syscall %u'' @ [CHR 10])) [Int32 n] = Inr (ascii ''[SYS]  unknown syscall '' @ print_number (ucast n) 10 0 32 @ [10])"
proof -
  have e: "ascii (''[SYS]  unknown syscall %u'' @ [CHR 10]) = ascii ''[SYS]  unknown syscall '' @ 37 # [117, 10]" by simp
  have v: "vprintf [10] [] = Inr [10]" by (rule vprintf_literal) simp
  show ?thesis unfolding e
    by (rule vprintf_conversion [of "ascii ''[SYS]  unknown syscall ''" "[117, 10]" 32 "[117, 10]" 0 "[117, 10]" LengthNone 117 "[10]" "[Int32 n]"
          "print_number (ucast n) 10 0 32" "[]" "[10]", OF _ _ _ _ _ _ v]) (simp_all add: read_pad_def convert_def unsigned_arg_def)
qed

text \<open>
  C39. The calls that are refused: a descriptor that is out of range or closed, or a length that does not
  fit 32 bits, gives -1 and changes nothing, and an unknown number gives -1 and only prints a
  message with the number. A write to the console prints exactly the bytes in the caller's memory
  and returns their number.
\<close>

theorem syscall_results:
  assumes p: "k_current (m_kernel m) = Some p" "length (pr_files (k_procs (m_kernel m) ! p)) = NUM_OPEN_FILES"
  shows "(fd \<ge> 16 \<or> pr_files (k_procs (m_kernel m) ! p) ! unat fd = None \<longrightarrow> num \<in> {kRead, kWrite, kClose} \<longrightarrow>
       syscall_dispatch A num fd a len m = Some (Returns (- 1), m)) \<and>
    (len > 0xFFFFFFFF \<longrightarrow> num \<in> {kRead, kWrite} \<longrightarrow> syscall_dispatch A num fd a len m = Some (Returns (- 1), m)) \<and>
    (num \<notin> {kRead, kWrite, kClose, kFork, kWait, kExit} \<longrightarrow> m_console m \<longrightarrow>
       syscall_dispatch A num fd a len m = Some (Returns (- 1),
         (set_fs ((k_fs (m_kernel m))\<lparr>console_out := console_out (k_fs (m_kernel m)) @
            ascii ''[SYS]  unknown syscall '' @ print_number (ucast (ucast num :: u32)) 10 0 32 @ [10]\<rparr>) m)\<lparr>m_color := (LightGrey, Black)\<rparr>)) \<and>
    (\<forall>f. fd < 16 \<longrightarrow> pr_files (k_procs (m_kernel m) ! p) ! unat fd = Some f \<longrightarrow> f_type (file_table (k_fs (m_kernel m)) ! f) = kConsole \<longrightarrow>
       f_writable (file_table (k_fs (m_kernel m)) ! f) \<longrightarrow> file_console (k_fs (m_kernel m)) \<longrightarrow> len \<le> 0xFFFFFFFF \<longrightarrow>
       syscall_dispatch A kWrite fd a len m = Some (Returns len,
         set_fs ((k_fs (m_kernel m))\<lparr>console_out := console_out (k_fs (m_kernel m)) @ load_bytes (m_user m) a (unat len)\<rparr>) m))"
proof (intro conjI allI impI)
  have l: "lookup_file fd (m_kernel m) = (if fd \<ge> 16 then None else pr_files (k_procs (m_kernel m) ! p) ! unat fd)"
    using p by (simp add: lookup_file_def NUM_OPEN_FILES_def)
  show "syscall_dispatch A num fd a len m = Some (Returns (- 1), m)"
    if "fd \<ge> 16 \<or> pr_files (k_procs (m_kernel m) ! p) ! unat fd = None" "num \<in> {kRead, kWrite, kClose}"
    using that l by (auto simp: dispatch_number sys_read_def sys_write_def sys_close_def split: option.split)
  show "syscall_dispatch A num fd a len m = Some (Returns (- 1), m)" if "len > 0xFFFFFFFF" "num \<in> {kRead, kWrite}"
    using that by (auto simp: dispatch_number sys_read_def sys_write_def split: option.split)
  show "syscall_dispatch A num fd a len m = Some (Returns (- 1),
         (set_fs ((k_fs (m_kernel m))\<lparr>console_out := console_out (k_fs (m_kernel m)) @
            ascii ''[SYS]  unknown syscall '' @ print_number (ucast (ucast num :: u32)) 10 0 32 @ [10]\<rparr>) m)\<lparr>m_color := (LightGrey, Black)\<rparr>)"
    if "num \<notin> {kRead, kWrite, kClose, kFork, kWait, kExit}" "m_console m"
    unfolding syscall_dispatch_def sys_print_def unknown_message using that by (simp add: reset_color_def Let_def)
  fix f assume f: "fd < 16" "pr_files (k_procs (m_kernel m) ! p) ! unat fd = Some f" "f_type (file_table (k_fs (m_kernel m)) ! f) = kConsole"
    "f_writable (file_table (k_fs (m_kernel m)) ! f)" "file_console (k_fs (m_kernel m))" "len \<le> 0xFFFFFFFF"
  have u: "unat (ucast len :: u32) = unat len" using f(6) by (simp add: unsigned_ucast_eq word_le_nat_alt take_bit_nat_eq_self)
  have nl: "\<not> 0xFFFFFFFF < len" "\<not> 16 \<le> fd" using f(1,6) by (simp_all only: not_less not_le)
  have c: "ucast (ucast len :: u32) = len" using u by (simp add: word_unat_eq_iff unsigned_ucast_eq unsigned_take_bit_eq)
  show "syscall_dispatch A kWrite fd a len m = Some (Returns len,
       set_fs ((k_fs (m_kernel m))\<lparr>console_out := console_out (k_fs (m_kernel m)) @ load_bytes (m_user m) a (unat len)\<rparr>) m)"
    using f(2-5) l u c nl by (simp add: dispatch_number sys_write_def file_write_def Let_def count_result_def load_bytes_def)
qed

text \<open>
  After \<open>init\<close> the processor enters the kernel at \<open>syscall_entry\<close> with the kernel code selector and interrupts off
  (bit 9 is the interrupt flag), and the selectors \<open>sysret\<close> computes from the base in \<open>STAR\<close> are the user ones.
\<close>

lemma enabled_message:
  "vprintf (ascii (''syscall enabled  LSTAR=0x%x'' @ [CHR 10])) [Int32 n] = Inr (ascii ''syscall enabled  LSTAR=0x'' @ print_number (ucast n) 16 0 32 @ [10])"
proof -
  have e: "ascii (''syscall enabled  LSTAR=0x%x'' @ [CHR 10]) = ascii ''syscall enabled  LSTAR=0x'' @ 37 # [120, 10]" by simp
  have v: "vprintf [10] [] = Inr [10]" by (rule vprintf_literal) simp
  show ?thesis unfolding e
    by (rule vprintf_conversion [of "ascii ''syscall enabled  LSTAR=0x''" "[120, 10]" 32 "[120, 10]" 0 "[120, 10]" LengthNone 120 "[10]" "[Int32 n]"
          "print_number (ucast n) 16 0 32" "[]" "[10]", OF _ _ _ _ _ _ v]) (simp_all add: read_pad_def convert_def unsigned_arg_def)
qed

lemma system_call_init_registers:
  assumes "console \<or> serial"
  shows "\<exists>m'. system_call_init console serial entry m = Some m' \<and> m_console m' \<and> file_console (k_fs (m_kernel m')) \<and>
    m_msr m' EFER = m_msr m EFER OR 1 \<and> m_msr m' LSTAR = entry \<and> m_msr m' FMASK = 0x200 \<and>
    ucast (drop_bit 32 (m_msr m' STAR)) = kKernelCode \<and>
    (ucast (drop_bit 48 (m_msr m' STAR)) + 8) OR 3 = kUserData \<and> (ucast (drop_bit 48 (m_msr m' STAR)) + 16) OR 3 = kUserCode"
proof -
  have v: "vprintf (ascii ''[SYS]  '') [] = Inr (ascii ''[SYS]  '')" by (rule vprintf_literal) simp
  define star :: u64 where "star = push_bit 32 (ucast kKernelCode) OR push_bit 48 (ucast ((kUserData AND NOT 3) - 8))"
  have star: "ucast (drop_bit 32 star) = kKernelCode" "(ucast (drop_bit 48 star) + 8) OR 3 = kUserData" "(ucast (drop_bit 48 star) + 16) OR 3 = kUserCode"
    unfolding star_def by code_simp+
  have "\<exists>m'. system_call_init console serial entry m = Some m' \<and> m_console m' \<and> file_console (k_fs (m_kernel m')) \<and>
      m_msr m' EFER = m_msr m EFER OR 1 \<and> m_msr m' LSTAR = entry \<and> m_msr m' FMASK = 0x200 \<and> m_msr m' STAR = star"
    using assms unfolding system_call_init_def Let_def sys_print_def v enabled_message
    by (auto simp: set_fs_def wrmsr_def file_set_console_def star_def EFER_def STAR_def LSTAR_def FMASK_def)
  then show ?thesis using star by auto
qed

text \<open>
  A process that closes its descriptor 2, then asks for call 999: the frame is at 0x1000 and holds the number 3 and the
  argument 2.
\<close>

definition demo_machine :: "(u64 \<Rightarrow> bytes) cache machine" where
  "demo_machine = \<lparr>m_kernel = demo_pair\<lparr>k_stacks := (\<lambda>_. 0)(0x1050 := 3, 0x1070 := 2)\<rparr>, m_user = (\<lambda>_. 65), m_irqs = [], m_msr = (\<lambda>_. 0),
     m_console = True, m_color = (LightGrey, Black)\<rparr>"

definition demo_asm :: asm where
  "demo_asm = \<lparr>as_fork_return = 0x2000, as_snap = load_context (\<lambda>_. 0) 0, as_caller_rsp = 0, as_saved = 0\<rparr>"

lemma demo_machine_ok: "table_ok (m_kernel demo_machine)" "k_current (m_kernel demo_machine) = Some 0"
  "pr_files (k_procs (m_kernel demo_machine) ! 0) = [Some 0, Some 0, Some 1] @ replicate 13 None"
proof -
  show "table_ok (m_kernel demo_machine)" "k_current (m_kernel demo_machine) = Some 0"
    using entry_ok(2) [OF demo_pair_ok(1)] demo_pair_ok(2) by (simp_all add: demo_machine_def)
  have "k_procs demo_pair ! 0 = k_procs demo_kernel ! 0" using demo_kernel_procs(1) by (simp add: demo_pair_def set_proc_def)
  then show "pr_files (k_procs (m_kernel demo_machine) ! 0) = [Some 0, Some 0, Some 1] @ replicate 13 None"
    by (simp add: demo_machine_def demo_kernel_procs(2))
qed


theorem syscall_results_witness:
  "syscall_dispatch demo_asm kRead 16 0 8 demo_machine = Some (Returns (- 1), demo_machine) \<and>
   (\<exists>m'. syscall_dispatch demo_asm 999 0 0 0 demo_machine = Some (Returns (- 1), m') \<and>
      console_out (k_fs (m_kernel m')) = console_out (k_fs (m_kernel demo_machine)) @ ascii (''[SYS]  unknown syscall 999'' @ [CHR 10]))"
proof -
  have l: "length (pr_files (k_procs (m_kernel demo_machine) ! 0)) = NUM_OPEN_FILES" unfolding demo_machine_ok(3) by (simp add: NUM_OPEN_FILES_def)
  note t = syscall_results [OF demo_machine_ok(2) l]
  have 1: "syscall_dispatch demo_asm kRead 16 0 8 demo_machine = Some (Returns (- 1), demo_machine)" using t [of 16 kRead demo_asm 0 8] by simp
  have c: "m_console demo_machine" by (simp add: demo_machine_def)
  have u: "999 \<notin> {kRead, kWrite, kClose, kFork, kWait, kExit}"
    by (simp add: kRead_def kWrite_def kClose_def kFork_def kWait_def kExit_def)
  have n: "print_number (ucast (ucast (999 :: u64) :: u32)) 10 0 32 = [57, 57, 57]" by code_simp
  have "\<exists>m'. syscall_dispatch demo_asm 999 0 0 0 demo_machine = Some (Returns (- 1), m') \<and>
      console_out (k_fs (m_kernel m')) = console_out (k_fs (m_kernel demo_machine)) @ ascii (''[SYS]  unknown syscall 999'' @ [CHR 10])"
    using t [of 0 999 demo_asm 0 0] u c unfolding n by (auto simp: set_fs_def)
  then show ?thesis using 1 by blast
qed

end
