(* ===== verification/User_Mode.thy ===== *)
theory User_Mode
  imports Address_Space Console
begin

text \<open>
  The way into user mode (\<open>include/usermode.cpp\<close>, \<open>include/init.cpp\<close>): mapping the pages of the \<open>.user\<close>
  section and a stack into the address space of the first process. The section is given by its two
  linker symbols; the jump to ring 3 is assembly.
\<close>

definition kUserStack :: PageVirtualAddress where "kUserStack = 0x600000"
definition kUserStackTop :: u64 where "kUserStackTop = kUserStack + PAGE_SIZE - 16"

text \<open>The loop over the pages of the section; one that wraps around would not end, which is \<open>None\<close>.\<close>

partial_function (option) map_user_pages :: "PhysicalAddress \<Rightarrow> u64 \<Rightarrow> u64 \<Rightarrow> vm \<Rightarrow> (bool \<times> vm) option" where
  "map_user_pages pml4 user_end va s =
     (if va < user_end
      then (case virtual_to_physical va s of
              None \<Rightarrow> Some (False, s)
            | Some phys \<Rightarrow>
                (case map_page_in pml4 va (Some phys) (Present OR User) s of
                   (ok, s1) \<Rightarrow> if \<not> ok then Some (False, s1) else map_user_pages pml4 user_end (va + PAGE_SIZE) s1))
      else Some (True, s))"

definition map_user_space :: "u64 \<Rightarrow> u64 \<Rightarrow> PhysicalAddress \<Rightarrow> vm \<Rightarrow> (bool \<times> vm) option" where
  "map_user_space user_start user_end pml4 s =
     (case map_user_pages pml4 user_end (user_start AND PAGE_MASK) s of
        None \<Rightarrow> None
      | Some (False, s1) \<Rightarrow> Some (False, s1)
      | Some (True, s1) \<Rightarrow>
          (case vm_allocate s1 of
             (None, s2) \<Rightarrow> Some (False, s2)
           | (Some stack_phys, s2) \<Rightarrow>
               (case map_page_in pml4 kUserStack (Some stack_phys) (Present OR Writable OR User) s2 of
                  (False, s3) \<Rightarrow> Some (False, vm_free (Some stack_phys) s3)
                | (True, s3) \<Rightarrow> Some (True, s3))))"

definition enter :: "console \<Rightarrow> console" where
  "enter c = console_puts (ascii (''entering ring 3...'' @ [CHR 10])) (console_set_color LightGrey Black
     (console_puts (ascii ''[USER] '') (console_set_color LightGreen Black c)))"

section \<open>The mapping\<close>

text \<open>No page is lost: what is no longer available belongs to the tables.\<close>

definition accounted :: "u64 set \<Rightarrow> u64 \<Rightarrow> vm \<Rightarrow> vm \<Rightarrow> bool" where
  "accounted U root s s' \<longleftrightarrow> space_ok U root s' \<and> avail (vm_pmm s') \<subseteq> avail (vm_pmm s) \<and> pool (vm_pmm s') = pool (vm_pmm s) \<and>
     avail (vm_pmm s) - avail (vm_pmm s') = owned U root s' - owned U root s \<and> owned U root s \<subseteq> owned U root s'"

lemma accounted_trans: "accounted U root s t \<Longrightarrow> accounted U root t u \<Longrightarrow> accounted U root s u"
  unfolding accounted_def by blast

lemma user_table_flags: "frame (Present OR Writable OR User) = 0" "bit (Present OR Writable OR User) 0"
  using table_flags(1,2) [of User] by simp_all

lemma map_page_in_accounted:
  assumes "space_ok U root s" "pml4_index va \<in> U" "map_page_in (Some root) va (Some phys) flags s = (b, s')"
  shows "accounted U root s s'" "b \<Longrightarrow> entry_of s' root va = (phys AND PAGE_MASK) OR flags OR Present \<and> allows rights s' root va"
proof -
  note e = map_in_table_effect [OF assms(1,2) user_table_flags assms(3) [unfolded map_page_in_def, simplified]]
  show "accounted U root s s'" unfolding accounted_def using e(1,5-8) space_okD(3) [OF assms(1)] by blast
  have "(Present OR Writable OR User) AND rights = rights" by (simp add: rights_def Present_def Writable_def User_def)
  then show "b \<Longrightarrow> entry_of s' root va = (phys AND PAGE_MASK) OR flags OR Present \<and> allows rights s' root va"
    using e(2) [OF path_walk(1) [OF assms(2)] path_walk(2), of "pt_index va"] e(3) by (simp add: entry_of_def)
qed

lemma map_user_pages_returns:
  assumes "space_ok U root s" "unat user_end + 4096 \<le> 2 ^ 64" "\<forall>x. va \<le> x \<and> x < user_end \<longrightarrow> pml4_index x \<in> U"
  shows "\<exists>b s'. map_user_pages (Some root) user_end va s = Some (b, s') \<and> accounted U root s s'"
  using assms
proof (induction "unat user_end - unat va" arbitrary: va s rule: less_induct)
  case less
  have refl: "accounted U root s s" using less.prems(1) by (simp add: accounted_def)
  show ?case
  proof (cases "va < user_end \<and> virtual_to_physical va s \<noteq> None")
    case False
    then show ?thesis using refl by (subst map_user_pages.simps) (auto split: option.split)
  next
    case True
    then obtain phys where va: "va < user_end" "virtual_to_physical va s = Some phys" by blast
    obtain ok s1 where m: "map_page_in (Some root) va (Some phys) (Present OR User) s = (ok, s1)" by fastforce
    have "pml4_index va \<in> U" using less.prems(3) va(1) by simp
    note a = map_page_in_accounted(1) [OF less.prems(1) this m]
    have u: "unat (va + PAGE_SIZE) = unat va + 4096" using va(1) less.prems(2) by (simp add: unat_word_ariths word_less_nat_alt PAGE_SIZE_def)
    have "\<exists>b s'. map_user_pages (Some root) user_end (va + PAGE_SIZE) s1 = Some (b, s') \<and> accounted U root s1 s'"
    proof (rule less.hyps)
      show "unat user_end - unat (va + PAGE_SIZE) < unat user_end - unat va" using u va(1) by (simp add: word_less_nat_alt)
      show "space_ok U root s1" using a by (simp add: accounted_def)
      show "\<forall>x. va + PAGE_SIZE \<le> x \<and> x < user_end \<longrightarrow> pml4_index x \<in> U" using less.prems(3) u by (auto simp: word_le_nat_alt)
    qed (rule less.prems(2))
    then show ?thesis using va m a accounted_trans [OF a] by (subst map_user_pages.simps) auto
  qed
qed

lemma with_pmm:
  assumes "space_ok U root s" "pmm_inv q" "owned U root s \<inter> avail q = {}"
  shows "space_ok U root (s\<lparr>vm_pmm := q\<rparr>)" "owned U root (s\<lparr>vm_pmm := q\<rparr>) = owned U root s"
proof -
  have "step (s\<lparr>vm_pmm := q\<rparr>) u j = step s u j" for u j by (simp add: step_def ent_vm_pmm)
  from space_ok_keep [where s' = "s\<lparr>vm_pmm := q\<rparr>", OF assms(1) this] assms(2,3)
  show "space_ok U root (s\<lparr>vm_pmm := q\<rparr>)" "owned U root (s\<lparr>vm_pmm := q\<rparr>) = owned U root s" by simp_all
qed

text \<open>The stack page, from its allocation to its mapping or its return.\<close>

lemma map_stack:
  assumes ok: "space_ok U root s" and U: "pml4_index kUserStack \<in> U" and al: "vm_allocate s = (Some p, s2)"
    and m: "map_page_in (Some root) kUserStack (Some p) flags s2 = (b, s3)"
  shows "p \<in> avail (vm_pmm s)" "b \<Longrightarrow> space_ok U root s3 \<and> p \<notin> avail (vm_pmm s3) \<and> p \<notin> owned U root s3 \<and>
      entry_of s3 root kUserStack = p OR flags OR Present \<and> allows rights s3 root kUserStack"
    "\<not> b \<Longrightarrow> accounted U root s (vm_free (Some p) s3)"
proof -
  obtain q where q: "pmm_allocate (vm_pmm s) = (Some p, q)" and s2: "s2 = s\<lparr>vm_pmm := q\<rparr>" using al by (auto simp: vm_allocate_def split: prod.splits)
  have inv: "pmm_inv (vm_pmm s)" using space_okD(1) [OF ok] .
  have a: "p \<in> avail (vm_pmm s)" "avail q = avail (vm_pmm s) - {p}" "pool q = pool (vm_pmm s)" "pmm_inv q" using pm.alloc_some [OF inv q] by auto
  have k: "space_ok U root s2" "owned U root s2 = owned U root s"
    using with_pmm [OF ok a(4)] space_okD(3) [OF ok] a(2) by (auto simp: s2)
  note acc = map_page_in_accounted [OF k(1) U m]
  have new: "p \<notin> avail (vm_pmm s3)" "p \<notin> owned U root s3"
    using acc(1) a(1,2) k(2) space_okD(3) [OF ok] unfolding accounted_def s2 by auto
  show "p \<in> avail (vm_pmm s)" by (rule a(1))
  have pp: "pg p" by (rule avail_pg [OF inv a(1)])
  have "p AND PAGE_MASK = p" by (rule pg_masked [OF pp])
  then show "b \<Longrightarrow> space_ok U root s3 \<and> p \<notin> avail (vm_pmm s3) \<and> p \<notin> owned U root s3 \<and>
      entry_of s3 root kUserStack = p OR flags OR Present \<and> allows rights s3 root kUserStack"
    using acc new by (simp add: accounted_def)
  have s3: "space_ok U root s3" "pool (vm_pmm s3) = pool (vm_pmm s)" using acc(1) a(3) by (simp_all add: accounted_def s2)
  have inp: "p \<in> pool (vm_pmm s3)" using pm.free_pages_in [OF inv] a(1) s3(2) by auto
  have fr: "pmm_inv (pmm_free (Some p) (vm_pmm s3))" "avail (pmm_free (Some p) (vm_pmm s3)) = insert p (avail (vm_pmm s3))"
    "pool (pmm_free (Some p) (vm_pmm s3)) = pool (vm_pmm s3)"
    using pm.release_page [OF space_okD(1) [OF s3(1)] inp] by auto
  have k3: "space_ok U root (vm_free (Some p) s3)" "owned U root (vm_free (Some p) s3) = owned U root s3"
    using with_pmm [OF s3(1) fr(1)] space_okD(3) [OF s3(1)] fr(2) new(2) by (auto simp: vm_free_def)
  show "accounted U root s (vm_free (Some p) s3)"
    using acc(1) k k3 fr s3(2) a(1,2) unfolding accounted_def by (auto simp: vm_free_def s2)
qed



end
