(* ===== verification/Spec2Isabelle.thy ===== *)
theory Spec2Isabelle
  imports Prelude Block_Store Buffer_Cache File_System Inode_Layer Directory Path_Walk Port_IO Interrupt_Controller Keyboard File_Table
    Multiboot2 Phys_Memory Virt_Memory Address_Space Kernel_Heap Process_Table Process_Invariant Process_Steps Console Serial_Port Vga_Text
    Pci_Bus Virtio_Block C_Runtime Segment_Tables Exceptions System_Call User_Mode
begin

text \<open>
  A verification library for the Unix V6 style x86-64 kernel: its C++ sources under \<open>include/\<close>, translated
  component by component, with the theorems that say what each component promises.

  \<^bold>\<open>The program and its parts.\<close> The kernel boots through multiboot2, builds a physical page allocator and
  four-level page tables, runs a first-fit heap on top of them, keeps a table of 64 processes that
  it schedules cooperatively, and serves six system calls. Files are an xv6-style file system on a
  virtio disk behind a write-back buffer cache, or the console, which is the keyboard and the screen.
  The calls go downwards: system calls use processes and open files; processes use the heap, the
  address spaces and the open files; open files use inodes and the keyboard; inodes, directories and
  paths use the file system core; that uses a block store, which the buffer cache provides on a
  block device, which the virtio driver provides on the port instructions.

  \<^bold>\<open>Theories and sources.\<close>

  \<^item> \<open>Prelude\<close>: machine words, byte slices, little-endian words, pointer chains, list updates; shared by all.

  \<^item> \<open>Block_Store\<close> (\<open>block_store.hpp\<close>): owning block handles and the contract of a block store as a locale;
    interpreted on the buffer cache. \<open>Buffer_Cache\<close> (\<open>buffer_cache.cpp\<close>): the LRU list at the level of its
    links, reading, writing back, flushing. Shown: the cache is transparent (a read gives the block of
    the abstract disk), a flush is durable, and the list is the LRU order.

  \<^item> \<open>File_System\<close> (\<open>file_system.cpp\<close>, \<open>file_system_internal.cpp\<close>): formatting and mounting, the block bitmap,
    on-disk inodes. \<open>Inode_Layer\<close> (\<open>inode.cpp\<close>): the in-core inode table, block mapping with the indirect
    block, reading and writing. \<open>Directory\<close> (\<open>directory.cpp\<close>), \<open>Path_Walk\<close> (\<open>path.cpp\<close>): names and the walk.
    Shown: files are byte arrays (a write replaces exactly its range, a read gives it back), allocation
    hands out a free zeroed block, directories implement finite maps, resolution follows them and
    leaves every inode count as it found it.

  \<^item> \<open>Port_IO\<close> (\<open>io.hpp\<close>): the port instructions as a record of operations on a device state, the
    parameter of every driver. \<open>Interrupt_Controller\<close> (\<open>pic.cpp\<close>), \<open>Keyboard\<close> (\<open>keyboard.cpp\<close>), \<open>Serial_Port\<close>
    (\<open>serial.cpp\<close>), \<open>Vga_Text\<close> (\<open>vga.cpp\<close>), \<open>Pci_Bus\<close> (\<open>pci.cpp\<close>), \<open>Virtio_Block\<close> (\<open>virtioblock.cpp\<close>): the drivers.
    Shown: the controllers end up programmed as intended, the keyboard types what the scan codes say
    into a bounded queue, the screen never writes outside its 80 by 25 cells, and the disk driver is
    a block device in the sense of the buffer cache, every request of which returns.

  \<^item> \<open>Console\<close> (\<open>console.cpp\<close>): number printing and the \<open>printf\<close> interpreter; a printed number reads back.

  \<^item> \<open>File_Table\<close> (\<open>file.cpp\<close>): open files with their reference counts over inodes and the console.

  \<^item> \<open>Multiboot2\<close> (\<open>multiboot2.cpp\<close>), \<open>Phys_Memory\<close> (\<open>pmm.cpp\<close>), \<open>Virt_Memory\<close> and \<open>Address_Space\<close> (\<open>vmm.cpp\<close>),
    \<open>Kernel_Heap\<close> (\<open>heap.cpp\<close>): memory. Page tables are words in memory that the model reads and writes
    as the code does. Shown: the allocator never hands out a page twice or one of the kernel's; mapping
    changes the translation of exactly one page; copying and destroying an address space keeps every
    page accounted for; heap blocks never overlap and free neighbours are merged.

  \<^item> \<open>Process_Table\<close> (\<open>process.cpp\<close>): creation, scheduling, sleep and wakeup, exit, wait, fork.
    \<open>Process_Invariant\<close>: the open files against all descriptor tables, and \<open>fork\<close>. \<open>Process_Steps\<close>: the operations as a step
    relation, its reachable states, no lost wakeup, and bounded waiting.

  \<^item> \<open>Segment_Tables\<close> (\<open>gdt.cpp\<close>, \<open>idt.cpp\<close>), \<open>Exceptions\<close> (\<open>exception.cpp\<close>), \<open>System_Call\<close> (\<open>systemcall.cpp\<close>),
    \<open>User_Mode\<close> (\<open>usermode.cpp\<close>, \<open>init.cpp\<close>): the border between the processor and the kernel. Shown: the tables
    decode to what is meant, every exception is reported in full, every system call keeps the
    invariant of the process table for any register contents, and refused calls have no effect.

  \<^item> \<open>C_Runtime\<close> (\<open>crt_stubs.cpp\<close>): \<open>memset\<close>, \<open>memcpy\<close>, \<open>memmove\<close> and the string functions on a byte memory.

  \<^item> This theory (\<open>kernel/main.cpp\<close>, the storage part): driver, cache and file system put together as the kernel
    does. Shown: from a blank disk to a file that reads back what was written.

  \<^bold>\<open>How the code is read.\<close> A class or structure is a record, a pointer into a static table is an index with
  \<open>None\<close> for \<open>nullptr\<close>, integers keep their width. An operation takes the state and returns it; an optional
  result is an option, and an outer \<open>None\<close> marks what does not return: a loop without end, a halted
  machine, undefined behaviour. Interfaces are locales (block stores, bounded queues, page
  allocators), each interpreted on the model of the component that provides it.

  \<^bold>\<open>Loops.\<close> Bounded loops are structural or have a termination proof; loops that wait for a device or scan
  memory (\<open>wait_tx\<close>, \<open>wait_done\<close>, \<open>strlen_loop\<close>, \<open>map_user_pages\<close>, the free-list search of the heap) are partial
  functions into an option, and the theorems state that they return. The outer loop of
  \<open>allocate_block\<close> can wrap for a file system of nearly \<open>2^32\<close> blocks; the flag \<open>fs_diverged\<close> records that and the
  theorems assume a smaller one.

  \<^bold>\<open>Hypotheses on the environment.\<close> \<open>pic_wired\<close>, \<open>pit_wired\<close>, \<open>serial_wired\<close>, \<open>pci_wired\<close>, \<open>registers_wired\<close> and \<open>conforming\<close> state
  what the data sheets and the virtio specification say of the devices; the device contract of the
  buffer cache is discharged for the virtio driver. Physical pages lie below 47 bits, so that the
  direct map does not wrap. Interrupts to come are an explicit list. The context switch and the
  capture of \<open>fork\<close> are assembly: the saved addresses are parameters. Scheduling is cooperative, so an
  operation between two switches is one step.

  \<^bold>\<open>Not modelled.\<close> \<open>kernel/main.cpp\<close> but for its storage part: the composition of all initialisations over one state. The assembly files. The
  user programs and the self tests. Page faults of the kernel on the pointers of a process, and the
  contents of user pages beyond their copying. The process invariant does not speak of the contents
  of address spaces, which \<open>Address_Space\<close> covers on its own. Compile-time helpers (\<open>bitmask_enum.hpp\<close>,
  \<open>enum_util.hpp\<close>, \<open>units.hpp\<close>) are written out where they are used.
\<close>

section \<open>The storage stack\<close>

text \<open>
  The components from the disk driver to the files, composed as \<open>kernel_main\<close> composes them once
  \<open>VirtIOBlock::initialize\<close> has left the driver idle: the driver is the device of the cache, the cache the store
  of the file system, whose size is the capacity of the disk, cut to 32 bits. A failure prints its
  message and executes one \<open>hlt\<close>; interrupts are on by then, so the next tick ends it and the start-up goes on.
\<close>

definition storage_stack :: "'d vworld ports \<Rightarrow> ('d vworld \<Rightarrow> 'd vworld) \<Rightarrow> 'd vsystem \<Rightarrow> string list \<times> 'd vsystem cache fs" where
  "storage_stack P run x =
     (case cache_initialize (virtio_device P run) (static_cache x) of (cache_ok, c) \<Rightarrow>
      case Rep_vsystem (hw c) of (v, w) \<Rightarrow>
      case capacity P v w of (sectors, w1) \<Rightarrow>
      case fs_initialize (ucast sectors) (Some BlockStore) True (fresh_fs (c\<lparr>hw := Abs_vsystem (v, w1)\<rparr>)) of (fs_ok, s) \<Rightarrow>
        ((if cache_ok then [] else [''BufferCache initialization failed'' @ [CHR 0x0A]]) @ (if fs_ok then [] else [''FileSystem initialization failed'' @ [CHR 0x0A]]), s))"

text \<open>The number of sectors the device shows in its configuration registers, which are read without effect.\<close>

definition shows_capacity :: "'d vworld ports \<Rightarrow> u16 \<Rightarrow> u64 \<Rightarrow> bool" where
  "shows_capacity P io sectors \<longleftrightarrow>
     (\<forall>w. in32b P (io + 0x14) w = (ucast sectors, w) \<and> in32b P (io + 0x18) w = (ucast (drop_bit 32 sectors), w))"

lemma join_halves: "push_bit 32 (ucast (ucast (drop_bit 32 n :: u64) :: u32)) OR ucast (ucast n :: u32) = (n :: u64)"
  by (rule bit_word_eqI) (auto simp: bit_simps)

lemma capacity_shown:
  "shows_capacity P (vb_io_base v) sectors \<Longrightarrow> vb_ready v \<Longrightarrow> capacity P v w = (sectors, w)"
  by (simp add: shows_capacity_def capacity_def port_def register_offset_def join_halves)

text \<open>An inode without blocks is a well-formed empty file on every disk.\<close>

lemma blank_file: "di_addrs di = replicate 13 0 \<Longrightarrow> di_size di = 0 \<Longrightarrow> file_wf sb v di"
  by (auto simp: file_wf_def file_ok_def ptrs_def lblk_def split: if_splits)

text \<open>
  A file has at most 141 blocks and a write loses none, so a write to a disk with more free blocks
  is never cut short.
\<close>

lemma ptrs_card: "finite (ptrs v di)" "card (ptrs v di) \<le> 141"
proof -
  have sub: "ptrs v di \<subseteq> insert (di_addrs di ! 12) (lblk v di ` {..<140})" by (auto simp: ptrs_def)
  then show "finite (ptrs v di)" using finite_subset by blast
  have "card (ptrs v di) \<le> card (insert (di_addrs di ! 12) (lblk v di ` {..<140}))" by (rule card_mono [OF _ sub]) simp
  also have "\<dots> \<le> Suc (card (lblk v di ` {..<140}))" by (rule card_insert_le_m1) simp_all
  also have "\<dots> \<le> 141" using card_image_le [of "{..<140 :: nat}" "lblk v di"] by simp
  finally show "card (ptrs v di) \<le> 141" .
qed

lemma write_complete:
  assumes w: "write_done sb v inode src off count n v' inode'" and f: "formatted sb v" and room: "data_start sb + 142 < unat (sb_size sb)"
  shows "n = count"
proof (rule ccontr)
  assume "n \<noteq> count"
  then have full: "\<forall>c < sb_size sb. block_used sb v' c" using write_doneD(1,2) [OF w] by simp
  define K :: "nat set" where "K = {data_start sb + 1 ..< data_start sb + 143}"
  have b: "unat (of_nat k :: u32) = k" "(of_nat k :: u32) < sb_size sb" if "k \<in> K" for k
  proof -
    have "k < unat (sb_size sb)" using that room by (simp add: K_def)
    then show "unat (of_nat k :: u32) = k" using unsigned_less [of "sb_size sb", where 'a = nat] by (simp add: unat_of_nat)
    then show "(of_nat k :: u32) < sb_size sb" using \<open>k < unat (sb_size sb)\<close> by (simp add: word_less_nat_alt)
  qed
  have "of_nat k \<in> ptrs v' (in_disk inode')" if "k \<in> K" for k
  proof -
    have "\<not> block_used sb v (of_nat k)" using f b [OF that] that by (simp add: formatted_def K_def)
    then show ?thesis using write_doneD(11) [OF w b(2) [OF that]] full b(2) [OF that] by blast
  qed
  then have "(of_nat :: nat \<Rightarrow> u32) ` K \<subseteq> ptrs v' (in_disk inode')" by blast
  then have "card ((of_nat :: nat \<Rightarrow> u32) ` K) \<le> 141" by (rule card_mono [OF ptrs_card(1), THEN le_trans [OF _ ptrs_card(2)]])
  moreover have "inj_on (of_nat :: nat \<Rightarrow> u32) K" by (rule inj_on_inverseI [where g = unat]) (rule b(1))
  then have "card ((of_nat :: nat \<Rightarrow> u32) ` K) = card K" by (rule card_image)
  ultimately show False by (simp add: K_def)
qed

lemma storage_stack_mounts:
  assumes dev: "conforming P run medium good" and cap: "shows_capacity P (vw_base (snd (Rep_vsystem x))) sectors"
    and size: "200 \<le> sectors" "sectors \<le> 2 ^ 32 - 4096" and g: "\<forall>n < sectors. good n"
    and blank: "sb_magic (SuperBlock_at (virtio_contents medium x 1)) \<noteq> FS_MAGIC"
  obtains s where "storage_stack P run x = ([], s)" "mounted (virtio_contents medium) good s"
    "formatted (fs_sb s) (fs_view (virtio_contents medium) s)" "fs_sb s = fst (format_superblock (ucast sectors))"
    "data_start (fs_sb s) + 142 < unat (sb_size (fs_sb s))"
proof -
  have un: "unat (ucast sectors :: u32) = unat sectors" using size(2) by (simp add: unsigned_ucast_eq take_bit_nat_eq_self word_le_nat_alt)
  then have f: "formattable (ucast sectors)" using size by (simp add: formattable_def word_le_nat_alt)
  note v = virtio_contract [OF dev]
  obtain c where c: "cache_initialize (virtio_device P run) (static_cache x) = (True, c)" "cache_inv (virtio_contents medium) c"
    "hw c = x" "device c = virtio_device P run" "\<And>n. slot_of c n = None"
    using cache_initialize_static [of "virtio_device P run" "virtio_contents medium" x] v by metis
  have rel: "reliable_on (device c) good" using v unfolding c(4) reliable_on_def BLOCK_SIZE_def by simp
  have st: "store_inv (virtio_contents medium) good (fs_st (fresh_fs c))" "\<And>n. cache_refs (fs_st (fresh_fs c)) n = 0"
    using c(2,5) rel by (simp_all add: store_inv_def fresh_fs_def cache_refs_def)
  obtain d w where x: "Rep_vsystem x = (d, w)" by (cases "Rep_vsystem x")
  then have "vb_ready d" "vb_io_base d = vw_base w" using Rep_vsystem [of x] by (simp_all add: idle_def Let_def)
  then have n: "capacity P d w = (sectors, w)" using cap x by (intro capacity_shown) simp_all
  have same: "c\<lparr>hw := Abs_vsystem (d, w)\<rparr> = c" using c(3) Rep_vsystem_inverse [of x] x by simp
  obtain r s where i: "fs_initialize (ucast sectors) (Some BlockStore) True (fresh_fs c) = (r, s)" by fastforce
  have "fs_view (virtio_contents medium) (fresh_fs c) 1 = virtio_contents medium x 1" using c(3,5) by (simp add: fresh_fs_def cache_view_def)
  then have b: "sb_magic (SuperBlock_at (fs_view (virtio_contents medium) (fresh_fs c) 1)) \<noteq> FS_MAGIC" using blank by simp
  have up: "unat (ucast m :: u64) = unat m" for m :: u32
    using unsigned_less [of m, where 'a = nat] by (simp add: unsigned_ucast_eq take_bit_nat_eq_self)
  have g': "good (ucast m)" if "m < ucast sectors" for m :: u32 using g that un up by (simp add: word_less_nat_alt)
  note e = cache_initialize_fs [OF st g' f i]
  have "storage_stack P run x = ([], s)" using c(1,3) x n same i e(1) by (simp add: storage_stack_def)
  moreover have sb: "fs_sb s = fst (format_superblock (ucast sectors))" using e(7) [OF _ b] by blast
  have "format_superblock (ucast sectors) = (fs_sb s, snd (format_superblock (ucast sectors)))" using sb by simp
  note p = format_superblock_props [OF f this]
  have "data_start (fs_sb s) + 142 < unat (sb_size (fs_sb s))" using p un size(1) by (simp add: data_start_def word_le_nat_alt)
  ultimately show thesis using that e(7) [OF _ b] by blast
qed

text \<open>
  C1. From the disk to the file: on a conforming virtio device of at least 200 sectors, all readable and writable,
  without a file system on it, the cache and the file system initialise without a message on top of the
  driver, and leave a formatted, mounted disk. Data of up to 70 KiB written to an empty file then is
  accepted in full and reads back unchanged, through the cache and the driver. The sectors are fewer
  than \<open>2^32\<close>, since the size is cut to 32 bits on the way.
\<close>

theorem storage_stack_roundtrip:
  assumes dev: "conforming P run medium good" and cap: "shows_capacity P (vw_base (snd (Rep_vsystem x))) sectors"
    and size: "200 \<le> sectors" "sectors \<le> 2 ^ 32 - 4096" and g: "\<forall>n < sectors. good n"
    and blank: "sb_magic (SuperBlock_at (virtio_contents medium x 1)) \<noteq> FS_MAGIC"
    and fl: "di_addrs (in_disk inode) = replicate 13 0" "di_size (in_disk inode) = 0" "in_number inode < 200"
    and data: "unat count \<le> length source" "unat count \<le> 71680"
  shows "\<exists>s inode' s'. storage_stack P run x = ([], s) \<and>
    mounted (virtio_contents medium) good s \<and> formatted (fs_sb s) (fs_view (virtio_contents medium) s) \<and>
    write_data inode source 0 count s = (Some count, inode', s') \<and>
    fst (read_data inode' 0 count s') = Some count \<and> fst (snd (read_data inode' 0 count s')) = take (unat count) source"
proof -
  obtain s where s: "storage_stack P run x = ([], s)" "mounted (virtio_contents medium) good s"
    "formatted (fs_sb s) (fs_view (virtio_contents medium) s)" "fs_sb s = fst (format_superblock (ucast sectors))"
    "data_start (fs_sb s) + 142 < unat (sb_size (fs_sb s))"
    by (rule storage_stack_mounts [OF dev cap size g blank])
  have mu: "meta_used (fs_sb s) (fs_view (virtio_contents medium) s)"
    using formatted_meta_used s(2,3) by (auto simp: mounted_def)
  have wf: "file_wf (fs_sb s) (fs_view (virtio_contents medium) s) (in_disk inode)" by (rule blank_file [OF fl(1,2)])
  have nr: "in_number inode < sb_ninodes (fs_sb s)" using fl(3) s(4) by (simp add: format_superblock_def NUM_INODES_def Let_def)
  obtain r inode' s' where w: "write_data inode source 0 count s = (r, inode', s')" by (metis prod_cases3)
  obtain n where n: "r = Some n" "write_done (fs_sb s) (fs_view (virtio_contents medium) s) inode source 0 (unat count) (unat n) (fs_view (virtio_contents medium) s') inode'"
    using bc.write_data_effect(2) [OF mounted_env2 [OF s(2)] wf mu nr data(1) _ _ w] data(2) by auto
  have "n = count" using write_complete [OF n(2) s(3,5)] by (simp add: word_unat_eq_iff)
  then have w': "write_data inode source 0 count s = (Some count, inode', s')" using w n(1) by simp
  show ?thesis using s(1-3) w' write_read_back(4,5) [OF s(2) wf mu nr data(1) w'] by auto
qed

text \<open>An instance: a blank disk of 2048 sectors in memory, and 600 bytes.\<close>

definition ram_ports :: "'d ports" where
  "ram_ports = idle_ports\<lparr>in32b := \<lambda>p d. (if p = 0xC014 then 2048 else 0, d)\<rparr>"

definition virtio_ram :: "(u64 \<Rightarrow> bytes) vsystem" where
  "virtio_ram = (case first_idle of (v, w) \<Rightarrow> Abs_vsystem (v, w\<lparr>vw_inner := \<lambda>_. replicate 512 0\<rparr>))"

lemma virtio_ram_rep:
  "Rep_vsystem virtio_ram = (case first_idle of (v, w) \<Rightarrow> (v, w\<lparr>vw_inner := \<lambda>_. replicate 512 0\<rparr>))"
  by (simp add: virtio_ram_def first_idle_def Abs_vsystem_inverse idle_def vring_init_def Let_def)

lemma ram_ports_conforming: "conforming ram_ports ram_run ram_contents ram_good"
  using ram_conforming by (simp add: conforming_def ram_ports_def)

theorem storage_stack_roundtrip_witness:
  "\<exists>s inode' s'. storage_stack ram_ports ram_run virtio_ram = ([], s) \<and>
    write_data empty_inode (replicate 600 7) 0 600 s = (Some 600, inode', s') \<and>
    fst (snd (read_data inode' 0 600 s')) = replicate 600 7"
proof -
  have cap: "shows_capacity ram_ports (vw_base (snd (Rep_vsystem virtio_ram))) 2048"
    by (simp add: shows_capacity_def virtio_ram_rep first_idle_def ram_ports_def)
  have g: "\<forall>n < 2048. ram_good n" by (simp add: ram_good_def)
  have b: "sb_magic (SuperBlock_at (virtio_contents ram_contents virtio_ram 1)) \<noteq> FS_MAGIC"
    by (simp add: virtio_contents_def virtio_ram_rep first_idle_def ram_contents_def SuperBlock_at_def slice_def BLOCK_SIZE_def fs_consts)
  show ?thesis
    using storage_stack_roundtrip [OF ram_ports_conforming cap _ _ g b, of empty_inode 600 "replicate 600 7"] by (auto simp: empty_inode_def DiskInode_zero_def)
qed

end
